(* ===== verification/GoLib.thy ===== *)
theory GoLib
  imports Main "HOL-Library.Word"
begin

text \<open>
  The prelude of the development.  It fixes how a Go value is read in HOL and holds the
  generic lemmas the components share.

  A Go \<open>string\<close> and a Go \<open>[]byte\<close> are lists of bytes; a \<^typ>\<open>char\<close> of HOL is a byte
  (256 values), so both are \<^typ>\<open>string\<close>.  A \<open>rune\<close> is its code point, a \<^typ>\<open>nat\<close>.
  \<open>decode_rune\<close> is \<open>utf8.DecodeRuneInString\<close> with its documented result
  \<open>(RuneError, 1)\<close> on an ill-formed sequence, \<open>runes\<close> is the sequence of runes a
  \<open>for range\<close> over the string visits, \<open>valid_utf8\<close> is \<open>utf8.ValidString\<close>, and
  \<open>encode_rune\<close> is \<open>utf8.AppendRune\<close>.  The \<open>strings\<close> functions the sources call
  (\<open>HasPrefix\<close>, \<open>HasSuffix\<close>, \<open>Contains\<close>, \<open>Index\<close>, \<open>Cut\<close>, \<open>CutPrefix\<close>,
  \<open>Join\<close>, \<open>Split\<close>) follow.

  An \<open>error\<close> result is \<open>goerr option\<close>: \<open>Errorf f args\<close> is the error built from
  the format \<open>f\<close> and the arguments, unformatted.
\<close>

named_theorems go_simps \<open>rewrite rules that evaluate the models of Go's library\<close>
named_theorems frame \<open>fields an operation does not touch\<close>

subsection \<open>Errors\<close>

datatype goerr = Errorf string "string list" | External string

subsection \<open>Bytes\<close>

definition byte :: "char \<Rightarrow> nat" where
  "byte c = of_char c"

lemma byte_less [simp]: "byte c < 256"
  by (simp add: byte_def)

lemma byte_inject [simp]: "byte c = byte d \<longleftrightarrow> c = d"
  by (simp add: byte_def)

lemma byte_char_of [simp]: "byte (char_of n) = n mod 256"
  by (simp add: byte_def)

lemma char_of_byte [simp]: "char_of (byte c) = c"
  by (simp add: byte_def)

lemma byte_Char [simp]:
  "byte (Char b0 b1 b2 b3 b4 b5 b6 b7) =
     (if b0 then 1 else 0) + 2 * ((if b1 then 1 else 0) + 2 * ((if b2 then 1 else 0)
     + 2 * ((if b3 then 1 else 0) + 2 * ((if b4 then 1 else 0) + 2 * ((if b5 then 1 else 0)
     + 2 * ((if b6 then 1 else 0) + 2 * (if b7 then 1 else 0)))))))"
  by (simp add: byte_def of_char_def)

definition is_ascii :: "char \<Rightarrow> bool" where
  "is_ascii c \<longleftrightarrow> byte c < 128"

definition ascii_digit :: "char \<Rightarrow> bool" where
  "ascii_digit c \<longleftrightarrow> 48 \<le> byte c \<and> byte c \<le> 57"

subsection \<open>UTF-8\<close>

definition rune_error :: nat where
  "rune_error = 0xFFFD"

definition cont_byte :: "nat \<Rightarrow> bool" where
  "cont_byte b \<longleftrightarrow> 0x80 \<le> b \<and> b \<le> 0xBF"

text \<open>The accepted range of the second byte, by the first one.\<close>

definition second_lo :: "nat \<Rightarrow> nat" where
  "second_lo b0 = (if b0 = 0xE0 then 0xA0 else if b0 = 0xF0 then 0x90 else 0x80)"

definition second_hi :: "nat \<Rightarrow> nat" where
  "second_hi b0 = (if b0 = 0xED then 0x9F else if b0 = 0xF4 then 0x8F else 0xBF)"

definition second_ok :: "nat \<Rightarrow> nat \<Rightarrow> bool" where
  "second_ok b0 b1 \<longleftrightarrow> second_lo b0 \<le> b1 \<and> b1 \<le> second_hi b0"

fun decode_rune :: "string \<Rightarrow> nat \<times> nat" where
  "decode_rune [] = (rune_error, 0)"
| "decode_rune (c0 # cs) =
     (let b0 = byte c0 in
      if b0 < 0x80 then (b0, 1)
      else if 0xC2 \<le> b0 \<and> b0 \<le> 0xDF then
        (case cs of
           c1 # _ \<Rightarrow> (if cont_byte (byte c1)
                      then ((b0 - 0xC0) * 64 + (byte c1 - 0x80), 2) else (rune_error, 1))
         | _ \<Rightarrow> (rune_error, 1))
      else if 0xE0 \<le> b0 \<and> b0 \<le> 0xEF then
        (case cs of
           c1 # c2 # _ \<Rightarrow> (if second_ok b0 (byte c1) \<and> cont_byte (byte c2)
                           then ((b0 - 0xE0) * 4096 + (byte c1 - 0x80) * 64 + (byte c2 - 0x80), 3)
                           else (rune_error, 1))
         | _ \<Rightarrow> (rune_error, 1))
      else if 0xF0 \<le> b0 \<and> b0 \<le> 0xF4 then
        (case cs of
           c1 # c2 # c3 # _ \<Rightarrow>
             (if second_ok b0 (byte c1) \<and> cont_byte (byte c2) \<and> cont_byte (byte c3)
              then ((b0 - 0xF0) * 262144 + (byte c1 - 0x80) * 4096 + (byte c2 - 0x80) * 64
                    + (byte c3 - 0x80), 4)
              else (rune_error, 1))
         | _ \<Rightarrow> (rune_error, 1))
      else (rune_error, 1))"

declare decode_rune.simps(2) [simp del]

lemma decode_rune_width_pos: "s \<noteq> [] \<Longrightarrow> 0 < snd (decode_rune s)"
  by (cases s) (auto simp: decode_rune.simps(2) Let_def split: list.splits)

lemma decode_rune_width_le: "snd (decode_rune s) \<le> length s"
  by (cases s) (auto simp: decode_rune.simps(2) Let_def split: list.splits)

lemma decode_rune_drop_less:
  "s \<noteq> [] \<Longrightarrow> (r, n) = decode_rune s \<Longrightarrow> length (drop n s) < length s"
  using decode_rune_width_pos[of s] by (cases s) (auto dest: sym)

lemma decode_rune_ascii: "byte c < 128 \<Longrightarrow> decode_rune (c # s) = (byte c, 1)"
  by (simp add: decode_rune.simps(2))

lemma decode_rune_small:
  "fst (decode_rune (c # s)) < 128 \<Longrightarrow> byte c < 128 \<and> decode_rune (c # s) = (byte c, 1)"
  by (auto simp: decode_rune.simps(2) Let_def rune_error_def second_ok_def second_lo_def cont_byte_def
      split: list.splits if_splits)

text \<open>The runes a \<open>for range\<close> over a string visits.\<close>

function runes :: "string \<Rightarrow> nat list" where
  "runes s = (if s = [] then []
              else fst (decode_rune s) # runes (drop (snd (decode_rune s)) s))"
  by pat_completeness auto
termination
  by (relation "measure length") (auto simp: decode_rune_width_pos)

declare runes.simps [simp del]

lemma runes_Nil [simp]: "runes [] = []"
  by (simp add: runes.simps)

lemma runes_Cons_ascii [simp]: "byte c < 128 \<Longrightarrow> runes (c # s) = byte c # runes s"
  by (subst runes.simps) (simp add: decode_rune_ascii)

lemma runes_eq_Nil [simp]: "runes s = [] \<longleftrightarrow> s = []"
  by (subst runes.simps) simp

text \<open>\<open>utf8.ValidString\<close>: no step of the iteration decodes an ill-formed sequence.\<close>

function valid_utf8 :: "string \<Rightarrow> bool" where
  "valid_utf8 s = (if s = [] then True
     else if decode_rune s = (rune_error, 1) then False
     else valid_utf8 (drop (snd (decode_rune s)) s))"
  by pat_completeness auto
termination
  by (relation "measure length") (auto simp: decode_rune_width_pos)

declare valid_utf8.simps [simp del]

lemma valid_utf8_Nil [simp]: "valid_utf8 []"
  by (simp add: valid_utf8.simps)

lemma valid_utf8_Cons_ascii [simp]: "byte c < 128 \<Longrightarrow> valid_utf8 (c # s) \<longleftrightarrow> valid_utf8 s"
  by (subst valid_utf8.simps) (simp add: decode_rune_ascii rune_error_def)

definition encode_rune :: "nat \<Rightarrow> string" where
  "encode_rune r =
     (if r < 0x80 then [char_of r]
      else if r < 0x800 then [char_of (0xC0 + r div 64), char_of (0x80 + r mod 64)]
      else if r < 0x10000 then
        [char_of (0xE0 + r div 4096), char_of (0x80 + r div 64 mod 64), char_of (0x80 + r mod 64)]
      else
        [char_of (0xF0 + r div 262144), char_of (0x80 + r div 4096 mod 64),
         char_of (0x80 + r div 64 mod 64), char_of (0x80 + r mod 64)])"

text \<open>Unicode scalar values: what a decoded rune can be.\<close>

definition scalar_value :: "nat \<Rightarrow> bool" where
  "scalar_value r \<longleftrightarrow> r < 0xD800 \<or> (0xE000 \<le> r \<and> r \<le> 0x10FFFF)"


lemma decode_rune_disj:
  "decode_rune s = (r, n) \<Longrightarrow>
     (r = rune_error \<and> n \<le> 1)
   \<or> (\<exists>c t. s = c # t \<and> byte c < 0x80 \<and> r = byte c \<and> n = 1)
   \<or> (\<exists>c0 c1 t. s = c0 # c1 # t \<and> 0xC2 \<le> byte c0 \<and> byte c0 \<le> 0xDF \<and> cont_byte (byte c1)
        \<and> r = (byte c0 - 0xC0) * 64 + (byte c1 - 0x80) \<and> n = 2)
   \<or> (\<exists>c0 c1 c2 t. s = c0 # c1 # c2 # t \<and> 0xE0 \<le> byte c0 \<and> byte c0 \<le> 0xEF
        \<and> second_ok (byte c0) (byte c1) \<and> cont_byte (byte c2)
        \<and> r = (byte c0 - 0xE0) * 4096 + (byte c1 - 0x80) * 64 + (byte c2 - 0x80) \<and> n = 3)
   \<or> (\<exists>c0 c1 c2 c3 t. s = c0 # c1 # c2 # c3 # t \<and> 0xF0 \<le> byte c0 \<and> byte c0 \<le> 0xF4
        \<and> second_ok (byte c0) (byte c1) \<and> cont_byte (byte c2) \<and> cont_byte (byte c3)
        \<and> r = (byte c0 - 0xF0) * 262144 + (byte c1 - 0x80) * 4096 + (byte c2 - 0x80) * 64
             + (byte c3 - 0x80) \<and> n = 4)"
  by (cases s) (auto simp: decode_rune.simps(2) Let_def split: list.splits if_splits)

lemma second_ok_cont: "second_ok b0 b1 \<Longrightarrow> 0x80 \<le> b1 \<and> b1 \<le> 0xBF"
  by (auto simp: second_ok_def second_lo_def second_hi_def split: if_splits)

text \<open>The case split used below, with the payload bits of each byte as variables.\<close>

lemma decode_rune_cases:
  assumes "decode_rune s = (r, n)"
  obtains (err) "r = rune_error" "n \<le> 1"
  | (one) c t where "s = c # t" "byte c < 0x80" "r = byte c" "n = 1"
  | (two) c0 c1 t a d where "s = c0 # c1 # t" "byte c0 = 0xC0 + a" "byte c1 = 0x80 + d"
      "2 \<le> a" "a < 32" "d < 64" "r = a * 64 + d" "n = 2"
  | (three) c0 c1 c2 t a c d where "s = c0 # c1 # c2 # t"
      "byte c0 = 0xE0 + a" "byte c1 = 0x80 + c" "byte c2 = 0x80 + d"
      "a < 16" "c < 64" "d < 64" "a = 0 \<Longrightarrow> 32 \<le> c" "a = 13 \<Longrightarrow> c < 32"
      "r = a * 4096 + c * 64 + d" "n = 3"
  | (four) c0 c1 c2 c3 t a b c d where "s = c0 # c1 # c2 # c3 # t"
      "byte c0 = 0xF0 + a" "byte c1 = 0x80 + b" "byte c2 = 0x80 + c" "byte c3 = 0x80 + d"
      "a < 5" "b < 64" "c < 64" "d < 64" "a = 0 \<Longrightarrow> 16 \<le> b" "a = 4 \<Longrightarrow> b < 16"
      "r = a * 262144 + b * 4096 + c * 64 + d" "n = 4"
  using decode_rune_disj[OF assms]
proof (elim disjE exE conjE)
  assume "r = rune_error" "n \<le> 1" then show thesis by (rule err)
next
  fix c t assume "s = c # t" "byte c < 0x80" "r = byte c" "n = 1" then show thesis by (rule one)
next
  fix c0 c1 t assume h: "s = c0 # c1 # t" "0xC2 \<le> byte c0" "byte c0 \<le> 0xDF" "cont_byte (byte c1)"
    "r = (byte c0 - 0xC0) * 64 + (byte c1 - 0x80)" "n = 2"
  show thesis by (rule two[of c0 c1 t "byte c0 - 0xC0" "byte c1 - 0x80"])
      (use h in \<open>auto simp: cont_byte_def\<close>)
next
  fix c0 c1 c2 t assume h: "s = c0 # c1 # c2 # t" "0xE0 \<le> byte c0" "byte c0 \<le> 0xEF"
    "second_ok (byte c0) (byte c1)" "cont_byte (byte c2)"
    "r = (byte c0 - 0xE0) * 4096 + (byte c1 - 0x80) * 64 + (byte c2 - 0x80)" "n = 3"
  then have "byte c0 = 0xE0 \<Longrightarrow> 0xA0 \<le> byte c1" "byte c0 = 0xED \<Longrightarrow> byte c1 \<le> 0x9F"
    by (auto simp: second_ok_def second_lo_def second_hi_def)
  with h second_ok_cont[OF h(4)] have "byte c1 - 0x80 < 32" if "byte c0 - 0xE0 = 13"
  proof -
    from that h(2) have "byte c0 = 0xED" by linarith
    then have "byte c1 \<le> 0x9F" using h(4) by (auto simp: second_ok_def second_lo_def second_hi_def)
    then show ?thesis by linarith
  qed
  with h second_ok_cont[OF h(4)] \<open>byte c0 = 0xE0 \<Longrightarrow> 0xA0 \<le> byte c1\<close> show thesis
    by (intro three[of c0 c1 c2 t "byte c0 - 0xE0" "byte c1 - 0x80" "byte c2 - 0x80"])
      (auto simp: cont_byte_def)
next
  fix c0 c1 c2 c3 t assume h: "s = c0 # c1 # c2 # c3 # t" "0xF0 \<le> byte c0" "byte c0 \<le> 0xF4"
    "second_ok (byte c0) (byte c1)" "cont_byte (byte c2)" "cont_byte (byte c3)"
    "r = (byte c0 - 0xF0) * 262144 + (byte c1 - 0x80) * 4096 + (byte c2 - 0x80) * 64
         + (byte c3 - 0x80)" "n = 4"
  then have "byte c0 = 0xF0 \<Longrightarrow> 0x90 \<le> byte c1" "byte c0 = 0xF4 \<Longrightarrow> byte c1 \<le> 0x8F"
    by (auto simp: second_ok_def second_lo_def second_hi_def)
  with h second_ok_cont[OF h(4)] have "byte c1 - 0x80 < 16" if "byte c0 - 0xF0 = 4"
  proof -
    from that h(2) have "byte c0 = 0xF4" by linarith
    then have "byte c1 \<le> 0x8F" using h(4) by (auto simp: second_ok_def second_lo_def second_hi_def)
    then show ?thesis by linarith
  qed
  with h second_ok_cont[OF h(4)] \<open>byte c0 = 0xF0 \<Longrightarrow> 0x90 \<le> byte c1\<close> show thesis
    by (intro four[of c0 c1 c2 c3 t "byte c0 - 0xF0" "byte c1 - 0x80" "byte c2 - 0x80" "byte c3 - 0x80"])
      (auto simp: cont_byte_def)
qed

text \<open>Every byte of a sequence longer than one byte is outside ASCII.\<close>

lemma decode_rune_bytes:
  assumes "decode_rune s = (r, n)" "1 < n" "c \<in> set (take n s)"
  shows "128 \<le> byte c"
  using assms(1) by (cases rule: decode_rune_cases) (use assms(2,3) in auto)

lemma decode_rune_scalar:
  assumes "decode_rune s = (r, n)" shows "scalar_value r"
  using assms
proof (cases rule: decode_rune_cases)
  case (three c0 c1 c2 t a c d)
  then have "a < 13 \<or> a = 13 \<or> 14 \<le> a" by linarith
  with three show ?thesis by (auto simp: scalar_value_def)
next
  case (four c0 c1 c2 c3 t a b c d)
  then have "a = 0 \<or> (1 \<le> a \<and> a < 4) \<or> a = 4" by linarith
  with four show ?thesis by (auto simp: scalar_value_def)
qed (auto simp: scalar_value_def rune_error_def)

text \<open>Encoding inverts decoding, on every sequence that is well formed.\<close>

lemma div_mod_64:
  fixes a b c d :: nat
  assumes "b < 64" "c < 64" "d < 64"
  shows "(a * 64 + d) div 64 = a" "(a * 64 + d) mod 64 = d"
    "(a * 4096 + c * 64 + d) div 4096 = a" "(a * 4096 + c * 64 + d) div 64 mod 64 = c"
    "(a * 4096 + c * 64 + d) mod 64 = d"
    "(a * 262144 + b * 4096 + c * 64 + d) div 262144 = a"
    "(a * 262144 + b * 4096 + c * 64 + d) div 4096 mod 64 = b"
    "(a * 262144 + b * 4096 + c * 64 + d) div 64 mod 64 = c"
    "(a * 262144 + b * 4096 + c * 64 + d) mod 64 = d"
proof -
  have lo: "(x * 64 + y) div 64 = x" "(x * 64 + y) mod 64 = y" if "y < 64" for x y :: nat
    using that by simp_all
  have e2: "a * 4096 + c * 64 + d = (a * 64 + c) * 64 + d" by simp
  have e3: "a * 262144 + b * 4096 + c * 64 + d = ((a * 64 + b) * 64 + c) * 64 + d" by simp
  have d2: "x div 4096 = x div 64 div 64" and d3: "x div 262144 = x div 64 div 64 div 64" for x :: nat
    by (simp_all add: div_mult2_eq[symmetric])
  note r = lo[OF assms(1)] lo[OF assms(2)] lo[OF assms(3)]
  show "(a * 64 + d) div 64 = a" "(a * 64 + d) mod 64 = d" by (fact r)+
  show "(a * 4096 + c * 64 + d) div 4096 = a" "(a * 4096 + c * 64 + d) div 64 mod 64 = c"
    "(a * 4096 + c * 64 + d) mod 64 = d"
    unfolding e2 d2 r by (fact refl)+
  show "(a * 262144 + b * 4096 + c * 64 + d) div 262144 = a"
    "(a * 262144 + b * 4096 + c * 64 + d) div 4096 mod 64 = b"
    "(a * 262144 + b * 4096 + c * 64 + d) div 64 mod 64 = c"
    "(a * 262144 + b * 4096 + c * 64 + d) mod 64 = d"
    unfolding e3 d2 d3 r by (fact refl)+
qed

lemma char_of_eqI: "byte c = n \<Longrightarrow> char_of n = c"
  by auto

lemma encode_decode:
  assumes "decode_rune s = (r, n)" "(r, n) \<noteq> (rune_error, 1)" "s \<noteq> []"
  shows "encode_rune r = take n s"
  using assms(1)
proof (cases rule: decode_rune_cases)
  case err
  with assms decode_rune_width_pos[of s] show ?thesis by (auto simp: le_Suc_eq)
next
  case (one c t)
  then show ?thesis by (simp add: encode_rune_def)
next
  case (two c0 c1 t a d)
  then have "128 \<le> r" "r < 0x800" by auto
  with two show ?thesis
    by (simp add: encode_rune_def div_mod_64 char_of_eqI)
next
  case (three c0 c1 c2 t a c d)
  then have "0 < a \<or> 32 \<le> c" by auto
  with three have r: "0x800 \<le> r" "r < 0x10000" by auto
  have e: "r div 4096 = a" "r div 64 mod 64 = c" "r mod 64 = d"
    using three div_mod_64(3-5)[of 0 c d a] by auto
  show ?thesis using r three(1-4,11) by (simp add: encode_rune_def e char_of_eqI)
next
  case (four c0 c1 c2 c3 t a b c d)
  then have "0 < a \<or> 16 \<le> b" by auto
  with four have r: "0x10000 \<le> r" by auto
  have e: "r div 262144 = a" "r div 4096 mod 64 = b" "r div 64 mod 64 = c" "r mod 64 = d"
    using four div_mod_64(6-9)[of b c d a] by auto
  show ?thesis using r four(1-5,13) by (simp add: encode_rune_def e char_of_eqI)
qed

lemma runes_step:
  "decode_rune s = (r, n) \<Longrightarrow> s \<noteq> [] \<Longrightarrow> runes s = r # runes (drop n s)"
  by (subst runes.simps) simp

lemma valid_utf8_step:
  "decode_rune s = (r, n) \<Longrightarrow> s \<noteq> [] \<Longrightarrow>
     valid_utf8 s \<longleftrightarrow> (r, n) \<noteq> (rune_error, 1) \<and> valid_utf8 (drop n s)"
  by (subst valid_utf8.simps) simp

lemma encode_runes: "valid_utf8 s \<Longrightarrow> concat (map encode_rune (runes s)) = s"
proof (induction s rule: runes.induct)
  case (1 s)
  show ?case
  proof (cases "s = []")
    case False
    obtain r n where d: "decode_rune s = (r, n)" by fastforce
    have v: "(r, n) \<noteq> (rune_error, 1)" "valid_utf8 (drop n s)"
      using valid_utf8_step[OF d False] 1(2) by auto
    have "concat (map encode_rune (runes (drop n s))) = drop n s"
      using 1(1) False v d by simp
    then show ?thesis
      by (simp add: runes_step[OF d False] encode_decode[OF d v(1) False])
  qed simp
qed

lemma runes_inj: "valid_utf8 s \<Longrightarrow> valid_utf8 t \<Longrightarrow> runes s = runes t \<Longrightarrow> s = t"
  by (metis encode_runes)

text \<open>Decoding looks at the bytes of the sequence only.\<close>

lemma decode_rune_prefix:
  assumes "decode_rune s = (r, n)" "(r, n) \<noteq> (rune_error, 1)"
  shows "decode_rune (take n s @ u) = (r, n) \<or> s = []"
proof (cases s)
  case (Cons c t)
  then show ?thesis using assms
    by (cases t; cases "tl t"; cases "tl (tl t)") 
      (auto simp: decode_rune.simps(2) Let_def split: if_splits)
qed simp

text \<open>Cutting in front of an ASCII byte cuts between characters.\<close>

lemma valid_utf8_cut:
  assumes "valid_utf8 (u @ v)" "v = [] \<or> byte (hd v) < 128"
  shows "valid_utf8 u \<and> valid_utf8 v \<and> runes (u @ v) = runes u @ runes v"
  using assms(1)
proof (induction u rule: length_induct)
  case (1 u)
  show ?case
  proof (cases "u = []")
    case False
    obtain r n where d: "decode_rune (u @ v) = (r, n)" by fastforce
    have v: "(r, n) \<noteq> (rune_error, 1)" "valid_utf8 (drop n (u @ v))"
      using 1(2) valid_utf8_step[OF d] False by auto
    have n: "0 < n" "n \<le> length (u @ v)"
      using decode_rune_width_pos[of "u @ v"] decode_rune_width_le[of "u @ v"] d False by auto
    have le: "n \<le> length u"
    proof (rule ccontr)
      assume "\<not> n \<le> length u"
      then obtain m where m: "n - length u = Suc m" by (cases "n - length u") auto
      moreover have "v \<noteq> []" using n \<open>\<not> n \<le> length u\<close> by auto
      ultimately have "hd v \<in> set (take n (u @ v))" by (cases v) simp_all
      moreover have "0 < length u" using False by simp
      with m have "1 < n" by linarith
      ultimately have "128 \<le> byte (hd v)" using decode_rune_bytes[OF d] by blast
      with assms(2) \<open>v \<noteq> []\<close> show False by simp
    qed
    have du: "decode_rune u = (r, n)"
      using decode_rune_prefix[OF d v(1), of "drop n u"] le False by simp
    have dr: "drop n (u @ v) = drop n u @ v" using le by simp
    have "length (drop n u) < length u" using n False by simp
    then have IH: "valid_utf8 (drop n u)" "valid_utf8 v" "runes (drop n u @ v) = runes (drop n u) @ runes v"
      using 1(1)[rule_format, of "drop n u"] v(2) unfolding dr by blast+
    show ?thesis
      using IH v(1) False runes_step[OF d] runes_step[OF du] valid_utf8_step[OF du] le by (simp add: dr)
  qed (use 1 in simp)
qed

text \<open>ASCII runes are exactly the ASCII bytes.\<close>

lemma runes_ascii_iff:
  "r < 128 \<Longrightarrow> r \<in> set (runes s) \<longleftrightarrow> (\<exists>c \<in> set s. byte c = r)"
proof (induction s rule: runes.induct)
  case (1 s)
  show ?case
  proof (cases s)
    case Nil then show ?thesis by simp
  next
    case (Cons c t)
    obtain q n where d: "decode_rune s = (q, n)" by fastforce
    have IH: "r \<in> set (runes (drop n s)) \<longleftrightarrow> (\<exists>c \<in> set (drop n s). byte c = r)"
      using 1 Cons d by simp
    have split: "set s = set (take n s) \<union> set (drop n s)"
      by (metis append_take_drop_id set_append)
    have n0: "0 < n" using decode_rune_width_pos[of s] d Cons by simp
    have "q = r \<longleftrightarrow> (\<exists>c \<in> set (take n s). byte c = r)"
    proof (cases "n = 1")
      case True
      have "q = byte c \<or> (128 \<le> q \<and> 128 \<le> byte c)"
        using d Cons decode_rune_small[of c t] decode_rune_ascii[of c t]
        by (metis fst_conv linorder_not_less)
      with True Cons 1(2) show ?thesis by auto
    next
      case False
      with n0 have n1: "1 < n" by simp
      then have "\<forall>c \<in> set (take n s). 128 \<le> byte c" using decode_rune_bytes[OF d] by blast
      moreover have "128 \<le> q" using decode_rune_small[of c t] d Cons n1
        by (metis fst_conv snd_conv less_irrefl linorder_not_less)
      ultimately show ?thesis using 1(2) by auto
    qed
    then show ?thesis using IH split runes_step[OF d] Cons by auto
  qed
qed


lemma runes_scalar: "r \<in> set (runes s) \<Longrightarrow> scalar_value r"
proof (induction s rule: runes.induct)
  case (1 s)
  obtain q n where d: "decode_rune s = (q, n)" by fastforce
  show ?case using 1 decode_rune_scalar[OF d] runes_step[OF d] d by (cases "s = []") auto
qed

subsection \<open>The \<open>strings\<close> package\<close>

definition has_prefix :: "string \<Rightarrow> string \<Rightarrow> bool" where
  "has_prefix s p \<longleftrightarrow> take (length p) s = p"

definition has_suffix :: "string \<Rightarrow> string \<Rightarrow> bool" where
  "has_suffix s p \<longleftrightarrow> length p \<le> length s \<and> drop (length s - length p) s = p"

text \<open>\<open>strings.Index\<close>, with \<^const>\<open>None\<close> for \<open>-1\<close>.\<close>

fun index_of :: "string \<Rightarrow> string \<Rightarrow> nat option" where
  "index_of [] p = (if p = [] then Some 0 else None)"
| "index_of (c # s) p =
     (if has_prefix (c # s) p then Some 0 else map_option Suc (index_of s p))"

definition contains :: "string \<Rightarrow> string \<Rightarrow> bool" where
  "contains s p \<longleftrightarrow> index_of s p \<noteq> None"

text \<open>\<open>strings.Cut\<close>: \<^const>\<open>None\<close> where the separator is not found.\<close>

definition str_cut :: "string \<Rightarrow> string \<Rightarrow> (string \<times> string) option" where
  "str_cut s p = map_option (\<lambda>i. (take i s, drop (i + length p) s)) (index_of s p)"

definition cut_prefix :: "string \<Rightarrow> string \<Rightarrow> string option" where
  "cut_prefix s p = (if has_prefix s p then Some (drop (length p) s) else None)"

definition ascii_lower :: "char \<Rightarrow> char" where
  "ascii_lower c = (if 65 \<le> byte c \<and> byte c \<le> 90 then char_of (byte c + 32) else c)"

text \<open>\<open>strings.EqualFold\<close> against a literal without the letters \<open>k\<close> and \<open>s\<close>, the only
  ASCII letters with a case variant outside ASCII: simple folding is then ASCII folding.\<close>

definition equal_fold :: "string \<Rightarrow> string \<Rightarrow> bool" where
  "equal_fold s t \<longleftrightarrow> map ascii_lower s = map ascii_lower t"

fun str_join :: "string list \<Rightarrow> string \<Rightarrow> string" where
  "str_join [] sep = []"
| "str_join [x] sep = x"
| "str_join (x # y # xs) sep = x @ sep @ str_join (y # xs) sep"

text \<open>\<open>strings.Split\<close> at a one-byte separator.\<close>

fun split_byte :: "char \<Rightarrow> string \<Rightarrow> string list" where
  "split_byte d [] = [[]]"
| "split_byte d (c # s) =
     (if c = d then [] # split_byte d s
      else (case split_byte d s of x # xs \<Rightarrow> (c # x) # xs | [] \<Rightarrow> [[c]]))"

lemma has_prefix_iff: "has_prefix s p \<longleftrightarrow> (\<exists>t. s = p @ t)"
  by (auto simp: has_prefix_def) (metis append_take_drop_id)

lemma has_suffix_iff: "has_suffix s p \<longleftrightarrow> (\<exists>t. s = t @ p)"
  by (auto simp: has_suffix_def) (metis append_take_drop_id)

lemma has_prefix_Nil [simp]: "has_prefix s []"
  by (simp add: has_prefix_def)

lemma has_prefix_Cons [simp]: "has_prefix (c # s) (d # p) \<longleftrightarrow> c = d \<and> has_prefix s p"
  by (simp add: has_prefix_def)

lemma has_prefix_Nil_Cons [simp]: "\<not> has_prefix [] (d # p)"
  by (simp add: has_prefix_def)

lemma index_of_Some:
  "index_of s p = Some i \<Longrightarrow> i + length p \<le> length s \<and> s = take i s @ p @ drop (i + length p) s"
proof (induction s arbitrary: i)
  case (Cons c s)
  show ?case
  proof (cases "has_prefix (c # s) p")
    case True
    with Cons.prems obtain t where "c # s = p @ t" "i = 0" by (auto simp: has_prefix_iff)
    then show ?thesis by (metis add.left_neutral append_Nil append_eq_conv_conj le_add1 length_append take0)
  next
    case False
    with Cons.prems obtain j where "index_of s p = Some j" "i = Suc j" by auto
    with Cons.IH[of j] show ?thesis by auto
  qed
qed (auto split: if_splits)

lemma index_of_None: "index_of s p = None \<longleftrightarrow> (\<forall>u v. s \<noteq> u @ p @ v)"
proof (induction s)
  case Nil then show ?case by auto
next
  case (Cons c s)
  show ?case
  proof (cases "has_prefix (c # s) p")
    case True
    then show ?thesis by (auto simp: has_prefix_iff) (metis append_Nil)
  next
    case False
    have "(\<exists>u v. c # s = u @ p @ v) \<longleftrightarrow> (\<exists>u v. s = u @ p @ v)"
    proof
      assume "\<exists>u v. c # s = u @ p @ v"
      then obtain u v where uv: "c # s = u @ p @ v" by blast
      with False have "u \<noteq> []" by (auto simp: has_prefix_iff)
      with uv show "\<exists>u v. s = u @ p @ v" by (auto simp: Cons_eq_append_conv)
    next
      assume "\<exists>u v. s = u @ p @ v"
      then show "\<exists>u v. c # s = u @ p @ v" by (metis append_Cons)
    qed
    with False Cons.IH show ?thesis by auto
  qed
qed

lemma contains_iff: "contains s p \<longleftrightarrow> (\<exists>u v. s = u @ p @ v)"
  by (auto simp: contains_def index_of_None)

lemma index_of_first:
  "index_of s p = Some i \<Longrightarrow> p \<noteq> [] \<Longrightarrow> \<not> contains (take (i + length p - 1) s) p"
proof (induction s arbitrary: i)
  case (Cons c s)
  show ?case
  proof (cases "has_prefix (c # s) p")
    case True
    with Cons.prems have "i = 0" by simp
    then have "length (take (i + length p - 1) (c # s)) < length p" using Cons.prems(2) by (cases p) auto
    then show ?thesis unfolding contains_iff by (metis (no_types, lifting) length_append
          add.assoc le_add2 le_add1 linorder_not_less order_trans)
  next
    case False
    with Cons.prems obtain j where j: "index_of s p = Some j" "i = Suc j" by auto
    have IH: "\<not> contains (take (j + length p - 1) s) p" using Cons.IH[OF j(1) Cons.prems(2)] .
    have t: "take (i + length p - 1) (c # s) = c # take (j + length p - 1) s"
      using j Cons.prems(2) by (cases p) auto
    have "\<not> has_prefix (c # take (j + length p - 1) s) p"
    proof
      assume "has_prefix (c # take (j + length p - 1) s) p"
      then obtain v where "c # take (j + length p - 1) s = p @ v" by (auto simp: has_prefix_iff)
      then have "c # s = p @ v @ drop (j + length p - 1) s"
        by (metis append_Cons append_assoc append_take_drop_id)
      with False show False by (auto simp: has_prefix_iff)
    qed
    with IH show ?thesis unfolding t by (auto simp: contains_def)
  qed
qed auto

lemma contains_byte [simp]: "contains s [c] \<longleftrightarrow> c \<in> set s"
  by (auto simp: contains_iff in_set_conv_decomp)

lemma contains_append: "contains s p \<Longrightarrow> contains (u @ s @ v) p"
  unfolding contains_iff by (metis append.assoc)

lemma str_cut_byte:
  "str_cut s [c] = (if c \<in> set s then Some (takeWhile (\<lambda>x. x \<noteq> c) s, tl (dropWhile (\<lambda>x. x \<noteq> c) s)) else None)"
proof (induction s)
  case (Cons d s)
  then show ?case by (cases "d = c") (auto simp: str_cut_def split: if_splits option.splits)
qed (simp add: str_cut_def)

lemma str_cut_append: "c \<notin> set p \<Longrightarrow> str_cut (p @ c # l) [c] = Some (p, l)"
proof -
  assume "c \<notin> set p"
  then have "takeWhile (\<lambda>x. x \<noteq> c) (p @ c # l) = p" "dropWhile (\<lambda>x. x \<noteq> c) (p @ c # l) = c # l"
    by (induction p) auto
  then show ?thesis by (simp add: str_cut_byte)
qed

lemma str_cut_None: "str_cut s [c] = None \<longleftrightarrow> c \<notin> set s"
  by (simp add: str_cut_byte)

lemma str_cut_Some:
  assumes "str_cut s [c] = Some (p, l)" shows "s = p @ c # l \<and> c \<notin> set p"
proof -
  have c: "c \<in> set s" using assms str_cut_None[of s c] by auto
  have p: "p = takeWhile (\<lambda>x. x \<noteq> c) s" "l = tl (dropWhile (\<lambda>x. x \<noteq> c) s)"
    using assms c by (auto simp: str_cut_byte)
  have "dropWhile (\<lambda>x. x \<noteq> c) s \<noteq> []" using c by (auto simp: dropWhile_eq_Nil_conv)
  then have "dropWhile (\<lambda>x. x \<noteq> c) s = c # l"
    using hd_dropWhile[of "\<lambda>x. x \<noteq> c" s] p(2) by (metis list.collapse)
  then have "s = p @ c # l" using p(1) takeWhile_dropWhile_id[of "\<lambda>x. x \<noteq> c" s] by simp
  moreover have "c \<notin> set p" using p(1) set_takeWhileD[of c "\<lambda>x. x \<noteq> c" s] by auto
  ultimately show ?thesis by simp
qed

lemma split_byte_not_Nil [simp]: "split_byte d s \<noteq> []"
  by (cases s) (auto split: list.splits)

lemma str_join_Cons: "xs \<noteq> [] \<Longrightarrow> str_join (x # xs) sep = x @ sep @ str_join xs sep"
  by (cases xs) auto

lemma str_join_Cons_head: "str_join ((c # x) # xs) sep = c # str_join (x # xs) sep"
  by (cases xs) auto

lemma join_split: "str_join (split_byte d s) [d] = s"
  by (induction s) (auto simp: str_join_Cons str_join_Cons_head split: list.splits)

lemma split_byte_no_sep: "x \<in> set (split_byte d s) \<Longrightarrow> d \<notin> set x"
  by (induction s arbitrary: x) (auto split: list.splits if_splits)

end
