(* ===== verification/XmlChar.thy ===== *)
theory XmlChar
  imports GoLib
begin

text \<open>
  The character and name productions of \<open>internal/xmlchar/xmlchar.go\<close>: \<open>IsChar\<close>,
  \<open>IsNCNameStartChar\<close>, \<open>IsNCNameChar\<close> and the name predicates built on them
  (\<open>IsValidNCName\<close>, \<open>IsValidName\<close>, \<open>IsValidQName\<close>, \<open>IsValidPITarget\<close>,
  \<open>IsValidEncName\<close>).  The two decoding loops are recursive functions over the rest of
  the string.  The lemmas characterise each predicate over the rune sequence and say which
  ASCII bytes a name can hold: none of the XML delimiters.
\<close>

subsection \<open>Characters\<close>

definition IsChar :: "nat \<Rightarrow> bool" where
  "IsChar r = (if r < 0x100 then r = 0x9 \<or> r = 0xA \<or> r = 0xD \<or> r \<ge> 0x20
     else (r \<ge> 0x100 \<and> r \<le> 0xD7FF) \<or> (r \<ge> 0xE000 \<and> r \<le> 0xFFFD) \<or> (r \<ge> 0x10000 \<and> r \<le> 0x10FFFF))"

definition IsAllSpace :: "string \<Rightarrow> bool" where
  "IsAllSpace b = list_all (\<lambda>c. \<not> (byte c \<noteq> 0x20 \<and> byte c \<noteq> 0x9 \<and> byte c \<noteq> 0xA \<and> byte c \<noteq> 0xD)) b"

definition IsNCNameStartChar :: "nat \<Rightarrow> bool" where
  "IsNCNameStartChar r \<longleftrightarrow>
     (r \<ge> 65 \<and> r \<le> 90) \<or> (r \<ge> 97 \<and> r \<le> 122) \<or> r = 95 \<or>
     (r \<ge> 0xC0 \<and> r \<le> 0xD6) \<or> (r \<ge> 0xD8 \<and> r \<le> 0xF6) \<or>
     (r \<ge> 0xF8 \<and> r \<le> 0x2FF) \<or> (r \<ge> 0x370 \<and> r \<le> 0x37D) \<or>
     (r \<ge> 0x37F \<and> r \<le> 0x1FFF) \<or> (r \<ge> 0x200C \<and> r \<le> 0x200D) \<or>
     (r \<ge> 0x2070 \<and> r \<le> 0x218F) \<or> (r \<ge> 0x2C00 \<and> r \<le> 0x2FEF) \<or>
     (r \<ge> 0x3001 \<and> r \<le> 0xD7FF) \<or> (r \<ge> 0xF900 \<and> r \<le> 0xFDCF) \<or>
     (r \<ge> 0xFDF0 \<and> r \<le> 0xFFFD) \<or> (r \<ge> 0x10000 \<and> r \<le> 0xEFFFF)"

definition IsNCNameChar :: "nat \<Rightarrow> bool" where
  "IsNCNameChar r \<longleftrightarrow>
     IsNCNameStartChar r \<or>
     (r \<ge> 48 \<and> r \<le> 57) \<or> r = 45 \<or> r = 46 \<or>
     r = 0xB7 \<or> (r \<ge> 0x0300 \<and> r \<le> 0x036F) \<or> (r \<ge> 0x203F \<and> r \<le> 0x2040)"

subsection \<open>Names\<close>

function ncname_loop :: "bool \<Rightarrow> string \<Rightarrow> bool" where
  "ncname_loop first s =
     (if s = [] then True
      else let (r, size) = decode_rune s in
        if r = rune_error \<and> size = 1 then False
        else if first then
          (if \<not> IsNCNameStartChar r then False else ncname_loop False (drop size s))
        else if \<not> IsNCNameChar r then False
        else ncname_loop False (drop size s))"
  by pat_completeness auto
termination
  by (relation "measure (\<lambda>(f, s). length s)") (simp_all add: decode_rune_drop_less del: length_drop)

definition IsValidNCName :: "string \<Rightarrow> bool" where
  "IsValidNCName s = (if s = [] then False else ncname_loop True s)"

function name_loop :: "bool \<Rightarrow> string \<Rightarrow> bool" where
  "name_loop first s =
     (if s = [] then True
      else let (r, size) = decode_rune s in
        if r = rune_error \<and> size = 1 then False
        else if first then
          (if r \<noteq> 58 \<and> \<not> IsNCNameStartChar r then False else name_loop False (drop size s))
        else if r \<noteq> 58 \<and> \<not> IsNCNameChar r then False
        else name_loop False (drop size s))"
  by pat_completeness auto
termination
  by (relation "measure (\<lambda>(f, s). length s)") (simp_all add: decode_rune_drop_less del: length_drop)

definition IsValidName :: "string \<Rightarrow> bool" where
  "IsValidName s = (if s = [] then False else name_loop True s)"

declare ncname_loop.simps [simp del] name_loop.simps [simp del]

definition IsValidPITarget :: "string \<Rightarrow> bool" where
  "IsValidPITarget target =
     (if target = [] then False
      else if equal_fold target ''xml'' then False
      else if \<not> valid_utf8 target then False
      else IsValidNCName target)"

definition IsValidQName :: "string \<Rightarrow> bool" where
  "IsValidQName s =
     (if s = [] then False
      else case str_cut s '':'' of
        Some (prefix, local) \<Rightarrow> IsValidNCName prefix \<and> IsValidNCName local
      | None \<Rightarrow> IsValidNCName s)"

definition isEncNameStart :: "char \<Rightarrow> bool" where
  "isEncNameStart c \<longleftrightarrow> (byte c \<ge> 97 \<and> byte c \<le> 122) \<or> (byte c \<ge> 65 \<and> byte c \<le> 90)"

definition isEncNameChar :: "char \<Rightarrow> bool" where
  "isEncNameChar c \<longleftrightarrow> isEncNameStart c \<or> (byte c \<ge> 48 \<and> byte c \<le> 57)
     \<or> c = CHR ''.'' \<or> c = CHR ''_'' \<or> c = CHR ''-''"

definition IsHexDigit :: "char \<Rightarrow> bool" where
  "IsHexDigit b \<longleftrightarrow> (byte b \<ge> 48 \<and> byte b \<le> 57) \<or> (byte b \<ge> 97 \<and> byte b \<le> 102)
     \<or> (byte b \<ge> 65 \<and> byte b \<le> 70)"

definition IsASCIILetter :: "char \<Rightarrow> bool" where
  "IsASCIILetter b \<longleftrightarrow> (byte b \<ge> 97 \<and> byte b \<le> 122) \<or> (byte b \<ge> 65 \<and> byte b \<le> 90)"

definition IsASCIIDigit :: "char \<Rightarrow> bool" where
  "IsASCIIDigit b \<longleftrightarrow> byte b \<ge> 48 \<and> byte b \<le> 57"

definition IsValidEncName :: "string \<Rightarrow> bool" where
  "IsValidEncName s = (case s of [] \<Rightarrow> False
     | c # cs \<Rightarrow> isEncNameStart c \<and> list_all isEncNameChar cs)"

subsection \<open>What the loops accept\<close>

text \<open>The grammar of a name, over the runes: a start character, then name characters.\<close>

definition name_runes :: "(nat \<Rightarrow> bool) \<Rightarrow> (nat \<Rightarrow> bool) \<Rightarrow> nat list \<Rightarrow> bool" where
  "name_runes st ch rs \<longleftrightarrow> (case rs of [] \<Rightarrow> False | r # q \<Rightarrow> st r \<and> list_all ch q)"

lemma ncname_loop_iff:
  "ncname_loop first s \<longleftrightarrow> valid_utf8 s \<and>
     (if first then s = [] \<or> name_runes IsNCNameStartChar IsNCNameChar (runes s)
      else list_all IsNCNameChar (runes s))"
proof (induction first s rule: ncname_loop.induct)
  case (1 first s)
  show ?case
  proof (cases "s = []")
    case True then show ?thesis by (simp add: ncname_loop.simps)
  next
    case False
    obtain r n where d: "decode_rune s = (r, n)" by fastforce
    note e = runes_step[OF d False] valid_utf8_step[OF d False]
    show ?thesis using 1[OF False d[symmetric] refl] False
      by (subst ncname_loop.simps) (auto simp: d e name_runes_def)
  qed
qed

lemma IsValidNCName_iff:
  "IsValidNCName s \<longleftrightarrow> valid_utf8 s \<and> name_runes IsNCNameStartChar IsNCNameChar (runes s)"
  by (auto simp: IsValidNCName_def ncname_loop_iff name_runes_def)

lemma name_loop_iff:
  "name_loop first s \<longleftrightarrow> valid_utf8 s \<and>
     (if first then s = [] \<or> name_runes (\<lambda>r. r = 58 \<or> IsNCNameStartChar r) (\<lambda>r. r = 58 \<or> IsNCNameChar r) (runes s)
      else list_all (\<lambda>r. r = 58 \<or> IsNCNameChar r) (runes s))"
proof (induction first s rule: name_loop.induct)
  case (1 first s)
  show ?case
  proof (cases "s = []")
    case True then show ?thesis by (simp add: name_loop.simps)
  next
    case False
    obtain r n where d: "decode_rune s = (r, n)" by fastforce
    note e = runes_step[OF d False] valid_utf8_step[OF d False]
    show ?thesis using 1[OF False d[symmetric] refl] False
      by (subst name_loop.simps) (auto simp: d e name_runes_def)
  qed
qed

lemma IsValidName_iff:
  "IsValidName s \<longleftrightarrow> valid_utf8 s \<and>
     name_runes (\<lambda>r. r = 58 \<or> IsNCNameStartChar r) (\<lambda>r. r = 58 \<or> IsNCNameChar r) (runes s)"
  by (auto simp: IsValidName_def name_loop_iff name_runes_def)

subsection \<open>Bytes of a name\<close>

text \<open>The ASCII bytes an NCName can hold.\<close>

definition name_byte :: "char \<Rightarrow> bool" where
  "name_byte c \<longleftrightarrow> 128 \<le> byte c \<or> IsASCIILetter c \<or> IsASCIIDigit c
     \<or> c = CHR ''_'' \<or> c = CHR ''-'' \<or> c = CHR ''.''"

lemma start_is_name_char: "IsNCNameStartChar r \<Longrightarrow> IsNCNameChar r"
  by (simp add: IsNCNameChar_def)

lemma byte_lits:
  "byte c = 58 \<longleftrightarrow> c = CHR '':''" "byte c = 95 \<longleftrightarrow> c = CHR ''_''"
  "byte c = 45 \<longleftrightarrow> c = CHR ''-''" "byte c = 46 \<longleftrightarrow> c = CHR ''.''"
  using byte_inject[of c "CHR '':''"] byte_inject[of c "CHR ''_''"]
    byte_inject[of c "CHR ''-''"] byte_inject[of c "CHR ''.''"]
  by (simp_all del: byte_inject)

lemma ascii_name_char: "IsNCNameChar (byte c) \<Longrightarrow> byte c < 128 \<Longrightarrow> name_byte c"
  by (auto simp: IsNCNameChar_def IsNCNameStartChar_def name_byte_def IsASCIILetter_def
      IsASCIIDigit_def byte_lits)

lemma ncname_bytes:
  assumes "IsValidNCName s" "c \<in> set s"
  shows "name_byte c"
proof (cases "byte c < 128")
  case True
  with assms(2) have "byte c \<in> set (runes s)" by (auto simp: runes_ascii_iff)
  with assms(1) have "IsNCNameChar (byte c)"
    by (auto simp: IsValidNCName_iff name_runes_def list_all_iff start_is_name_char split: list.splits)
  then show ?thesis using True by (rule ascii_name_char)
qed (simp add: name_byte_def)

lemma name_bytes:
  assumes "IsValidName s" "c \<in> set s"
  shows "name_byte c \<or> c = CHR '':''"
proof (cases "byte c < 128")
  case True
  with assms(2) have "byte c \<in> set (runes s)" by (auto simp: runes_ascii_iff)
  with assms(1) have "byte c = 58 \<or> IsNCNameChar (byte c)"
    by (auto simp: IsValidName_iff name_runes_def list_all_iff start_is_name_char split: list.splits)
  then show ?thesis using True ascii_name_char[of c] by (auto simp: byte_lits)
qed (simp add: name_byte_def)

lemma ncname_no_colon: "IsValidNCName s \<Longrightarrow> CHR '':'' \<notin> set s"
  using ncname_bytes[of s "CHR '':''"]
  by (auto simp: name_byte_def IsASCIILetter_def IsASCIIDigit_def)

lemma ncname_not_Nil: "IsValidNCName s \<Longrightarrow> s \<noteq> []"
  by (auto simp: IsValidNCName_def)

text \<open>The two forms of a QName.\<close>

lemma IsValidQName_prefixed:
  assumes "IsValidNCName p" "IsValidNCName l"
  shows "IsValidQName (p @ CHR '':'' # l)"
  using str_cut_append[OF ncname_no_colon[OF assms(1)], of l] assms
  by (simp add: IsValidQName_def)

lemma IsValidQName_unprefixed:
  assumes "IsValidNCName l" shows "IsValidQName l"
  using str_cut_None[of l "CHR '':''"] ncname_no_colon[OF assms] ncname_not_Nil[OF assms] assms
  by (simp add: IsValidQName_def)

lemma IsValidQName_cases:
  assumes "IsValidQName s"
  obtains (local) "IsValidNCName s"
  | (prefixed) p l where "s = p @ CHR '':'' # l" "IsValidNCName p" "IsValidNCName l"
proof (cases "str_cut s '':''")
  case None
  with assms show thesis using local by (auto simp: IsValidQName_def split: if_splits)
next
  case (Some pl)
  then obtain p l where pl: "str_cut s '':'' = Some (p, l)" by (cases pl) auto
  with assms have "IsValidNCName p" "IsValidNCName l" by (auto simp: IsValidQName_def split: if_splits)
  then show thesis using prefixed str_cut_Some[OF pl] by blast
qed

lemma qname_bytes:
  assumes "IsValidQName s" "c \<in> set s"
  shows "name_byte c \<or> c = CHR '':''"
  using assms(1) by (cases rule: IsValidQName_cases) (use assms(2) ncname_bytes in auto)

lemma qname_not_Nil: "IsValidQName s \<Longrightarrow> s \<noteq> []"
  by (auto simp: IsValidQName_def)

end
