(* ===== verification/Encoding.thy ===== *)
theory Encoding
  imports GoLib
begin

text \<open>
  The encoding names of \<open>internal/encoding/encoding.go\<close> and \<open>isutf8.go\<close>: the
  normalisation of a declared name, the alias table of \<open>Load\<close>, and the classifications
  derived from it.  The codecs themselves are those of \<open>golang.org/x/text\<close>, not of the
  repository; a codec is represented by the expression \<open>Load\<close> returns for it.
  The lemmas say that the tables agree with each other: no alias stands in two rows, and
  \<open>IsUTF8\<close>, \<open>IsASCII\<close> and \<open>UnicodeBOMFamily\<close> classify a name as \<open>Load\<close>
  resolves it.
\<close>

subsection \<open>Codecs\<close>

datatype endian = LittleEndian | BigEndian

datatype bom_policy = IgnoreBOM | UseBOM

datatype swap = Swap2143 | Swap3412

datatype charmap =
  CodePage437 | CodePage866 | ISO8859_10 | ISO8859_13 | ISO8859_14 | ISO8859_15
  | ISO8859_16 | ISO8859_2 | ISO8859_3 | ISO8859_4 | ISO8859_5 | ISO8859_6 | ISO8859_7
  | ISO8859_8 | ISO8859_9 | Windows874 | KOI8R | KOI8U | Macintosh | MacintoshCyrillic
  | Windows1250 | Windows1251 | ISO8859_1 | Windows1252 | Windows1253 | Windows1254
  | Windows1255 | Windows1256 | Windows1257 | Windows1258 | XUserDefined | CodePage037
  | CodePage1047 | CodePage1140

datatype multibyte =
  EUCJP | ShiftJIS | ISO2022JP | Big5 | EUCKR | HZGB2312

datatype base_encoding = UTF16 endian bom_policy | UTF32 endian bom_policy | UCS4Swap swap

text \<open>A byte order is the permutation of \<open>byteOrder.perm\<close>.\<close>

type_synonym byteOrder = "nat list"

definition orderBE2 :: byteOrder where "orderBE2 = [0, 1]"
definition orderLE2 :: byteOrder where "orderLE2 = [1, 0]"
definition orderBE4 :: byteOrder where "orderBE4 = [0, 1, 2, 3]"
definition orderLE4 :: byteOrder where "orderLE4 = [3, 2, 1, 0]"
definition order2143 :: byteOrder where "order2143 = [1, 0, 3, 2]"
definition order3412 :: byteOrder where "order3412 = [2, 3, 0, 1]"

lemmas order_defs = orderBE2_def orderLE2_def orderBE4_def orderLE4_def order2143_def order3412_def

text \<open>\<open>Strict e width order useBOM\<close> is \<open>withStrictDecode(e, width, order, useBOM)\<close>,
  \<open>C1Fallback m\<close> is \<open>withC1Fallback(charmap.m)\<close>.\<close>

datatype codec = AsciiEncoding | UnicodeUTF8 | Strict base_encoding nat byteOrder bool
  | C1Fallback charmap | Charmap charmap | Multibyte multibyte | CodePage1141

subsection \<open>Name normalisation\<close>

text \<open>\<open>unicode.IsSpace\<close>.\<close>

definition is_space_rune :: "nat \<Rightarrow> bool" where
  "is_space_rune r \<longleftrightarrow> (9 \<le> r \<and> r \<le> 13) \<or> r = 32 \<or> r = 0x85 \<or> r = 0xA0 \<or> r = 0x1680
     \<or> (0x2000 \<le> r \<and> r \<le> 0x200A) \<or> r = 0x2028 \<or> r = 0x2029 \<or> r = 0x202F \<or> r = 0x205F \<or> r = 0x3000"

text \<open>\<open>unicode.ToLower\<close> where its result is ASCII: the ASCII capitals, the dotted capital I
  and the Kelvin sign.  Any other rune is kept: its lower case is outside ASCII, so no comparison
  with an entry of the tables below can tell the two apart.\<close>

definition to_lower_rune :: "nat \<Rightarrow> nat" where
  "to_lower_rune r = (if 65 \<le> r \<and> r \<le> 90 then r + 32 else if r = 0x130 then 105
     else if r = 0x212A then 107 else r)"

definition trim_space :: "nat list \<Rightarrow> nat list" where
  "trim_space rs = rev (dropWhile is_space_rune (rev (dropWhile is_space_rune rs)))"

text \<open>The runes \<open>encodingNameNormalizer\<close> removes.\<close>

definition name_separator :: "nat \<Rightarrow> bool" where
  "name_separator r \<longleftrightarrow> r = 45 \<or> r = 95 \<or> r = 58 \<or> r = 46 \<or> r = 32"

definition normalizeEncodingName :: "string \<Rightarrow> string" where
  "normalizeEncodingName name =
     concat (map encode_rune
       (filter (\<lambda>r. \<not> name_separator r) (map to_lower_rune (trim_space (runes name)))))"

subsection \<open>Tables\<close>

definition asciiEncodingNames :: "string list" where
  "asciiEncodingNames =
     [''usascii'', ''ascii'', ''ansix341968'', ''ansix341986'', ''csascii'', ''isoir6'',
      ''iso646us'', ''iso646irv1991'', ''us'', ''ibm367'', ''cp367'']"

definition asciiRawUTF8Names :: "string list" where
  "asciiRawUTF8Names = [''ansix341968'', ''csascii'']"

definition IsASCIIRawUTF8Alias :: "string \<Rightarrow> bool" where
  "IsASCIIRawUTF8Alias name \<longleftrightarrow> normalizeEncodingName name \<in> set asciiRawUTF8Names"

text \<open>The \<open>switch\<close> of \<open>Load\<close>, one row per case, in its order.\<close>

definition load_table :: "(string list \<times> codec) list" where
  "load_table =
   [([''utf8'', ''unicode11utf8'', ''unicode20utf8'', ''xunicode20utf8''],
      UnicodeUTF8),
    ([''utf16le'', ''unicodefeff''],
      Strict (UTF16 LittleEndian IgnoreBOM) 2 orderLE2 False),
    ([''utf16be'', ''unicodefffe''],
      Strict (UTF16 BigEndian IgnoreBOM) 2 orderBE2 False),
    ([''utf16'', ''unicode'', ''csunicode''],
      Strict (UTF16 LittleEndian UseBOM) 2 orderLE2 True),
    ([''eucjp'', ''xeucjp'', ''cseucpkdfmtjapanese''],
      Multibyte EUCJP),
    ([''shiftjis'', ''cp932'', ''sjis'', ''ms932'', ''mskanji'', ''windows31j'', ''xsjis'', ''csshiftjis''],
      Multibyte ShiftJIS),
    ([''jis'', ''iso2022jp'', ''csiso2022jp''],
      Multibyte ISO2022JP),
    ([''big5'', ''csbig5''],
      Multibyte Big5),
    ([''euckr'', ''cseuckr'', ''ksc56011987'', ''csksc56011987''],
      Multibyte EUCKR),
    ([''hzgb2312''],
      Multibyte HZGB2312),
    ([''cp437'', ''ibm437'', ''cspc8codepage437''],
      Charmap CodePage437),
    ([''cp866'', ''ibm866'', ''csibm866''],
      Charmap CodePage866),
    ([''iso885910'', ''latin6'', ''l6'', ''isoir157'', ''csisolatin6''],
      C1Fallback ISO8859_10),
    ([''iso885913''],
      C1Fallback ISO8859_13),
    ([''iso885914'', ''latin8'', ''l8'', ''isoir199'', ''csisolatin8''],
      C1Fallback ISO8859_14),
    ([''iso885915'', ''latin9'', ''l9'', ''csisolatin9''],
      C1Fallback ISO8859_15),
    ([''iso885916'', ''latin10'', ''l10''],
      C1Fallback ISO8859_16),
    ([''iso88592'', ''iso885921987'', ''isoir101'', ''latin2'', ''l2'', ''csisolatin2'', ''isolatin2''],
      C1Fallback ISO8859_2),
    ([''iso88593'', ''iso885931988'', ''isoir109'', ''latin3'', ''l3'', ''csisolatin3''],
      C1Fallback ISO8859_3),
    ([''iso88594'', ''iso885941988'', ''isoir110'', ''latin4'', ''l4'', ''csisolatin4''],
      C1Fallback ISO8859_4),
    ([''iso88595'', ''iso885951988'', ''isoir144'', ''cyrillic'', ''csisolatincyrillic''],
      C1Fallback ISO8859_5),
    ([''iso88596'', ''iso885961987'', ''isoir127'', ''arabic'', ''ecma114'', ''asmo708'', ''csisolatinarabic'', ''csiso88596e'', ''csiso88596i''],
      C1Fallback ISO8859_6),
    ([''iso88597'', ''iso885971987'', ''isoir126'', ''greek'', ''greek8'', ''elot928'', ''ecma118'', ''csisolatingreek'', ''suneugreek''],
      C1Fallback ISO8859_7),
    ([''iso88598'', ''iso885981988'', ''isoir138'', ''hebrew'', ''csisolatinhebrew'', ''csiso88598e'', ''csiso88598i'', ''logical'', ''visual''],
      C1Fallback ISO8859_8),
    ([''iso88599'', ''iso885991989'', ''isoir148'', ''latin5'', ''l5'', ''csisolatin5''],
      C1Fallback ISO8859_9),
    ([''iso885911'', ''tis620''],
      C1Fallback Windows874),
    ([''koi8r'', ''cskoi8r''],
      Charmap KOI8R),
    ([''koi8u'', ''koir8u''],
      Charmap KOI8U),
    ([''macintosh'', ''mac'', ''csmacintosh''],
      Charmap Macintosh),
    ([''macintoshcyrillic'', ''xmaccyrillic'', ''maccyrillic''],
      Charmap MacintoshCyrillic),
    ([''windows1250'', ''cp1250''],
      C1Fallback Windows1250),
    ([''windows1251'', ''cp1251''],
      C1Fallback Windows1251),
    ([''iso88591'', ''iso885911987'', ''isoir100'', ''latin1'', ''l1'', ''ibm819'', ''cp819'', ''csisolatin1'', ''isolatin1''],
      C1Fallback ISO8859_1),
    ([''windows1252'', ''cp1252'', ''xcp1252''],
      C1Fallback Windows1252),
    ([''windows1253'', ''cp1253''],
      C1Fallback Windows1253),
    ([''windows1254'', ''cp1254''],
      C1Fallback Windows1254),
    ([''windows1255'', ''cp1255''],
      C1Fallback Windows1255),
    ([''windows1256'', ''cp1256''],
      C1Fallback Windows1256),
    ([''windows1257'', ''cp1257''],
      C1Fallback Windows1257),
    ([''windows1258'', ''cp1258''],
      C1Fallback Windows1258),
    ([''windows874'', ''cp874''],
      C1Fallback Windows874),
    ([''xuserdefined''],
      Charmap XUserDefined),
    ([''ebcdic'', ''ibm037'', ''cp037'', ''ebcdicus'', ''ebcdiccpus'', ''csibm037''],
      Charmap CodePage037),
    ([''ibm1047'', ''cp1047''],
      Charmap CodePage1047),
    ([''ibm1140'', ''ibm01140'', ''cp1140'', ''ccsid01140''],
      Charmap CodePage1140),
    ([''ibm1141'', ''ibm01141'', ''cp1141'', ''ccsid01141''],
      CodePage1141),
    ([''ucs4be'', ''utf32be'', ''iso10646ucs4''],
      Strict (UTF32 BigEndian IgnoreBOM) 4 orderBE4 False),
    ([''ucs4le'', ''utf32le''],
      Strict (UTF32 LittleEndian IgnoreBOM) 4 orderLE4 False),
    ([''ucs4'', ''utf32''],
      Strict (UTF32 BigEndian UseBOM) 4 orderBE4 True),
    ([''ucs42143''],
      Strict (UCS4Swap Swap2143) 4 order2143 False),
    ([''ucs43412''],
      Strict (UCS4Swap Swap3412) 4 order3412 False),
    ([''ucs2'', ''iso10646ucs2''],
      Strict (UTF16 BigEndian IgnoreBOM) 2 orderBE2 False)]"

fun table_lookup :: "(string list \<times> 'c) list \<Rightarrow> string \<Rightarrow> 'c option" where
  "table_lookup [] n = None"
| "table_lookup ((names, c) # t) n = (if n \<in> set names then Some c else table_lookup t n)"

definition Load :: "string \<Rightarrow> codec option" where
  "Load name =
     (let norm = normalizeEncodingName name in
      if norm \<in> set asciiEncodingNames then Some AsciiEncoding
      else table_lookup load_table norm)"

subsection \<open>Classification\<close>

definition UnicodeBOMFamily :: "string \<Rightarrow> string" where
  "UnicodeBOMFamily name =
     (case Load name of
        None \<Rightarrow> ''''
      | Some e \<Rightarrow>
          if e = UnicodeUTF8 then ''utf-8''
          else case e of
            Strict b width ord useBOM \<Rightarrow>
              if width \<noteq> 2 then ''''
              else if useBOM then ''utf-16''
              else if length ord = 2 \<and> ord ! 0 = 0 then ''utf-16be''
              else ''utf-16le''
          | _ \<Rightarrow> '''')"

definition utf8EncodingNames :: "string list" where
  "utf8EncodingNames = [''utf8'', ''unicode11utf8'', ''unicode20utf8'', ''xunicode20utf8'']"

definition IsUTF8 :: "string \<Rightarrow> bool" where
  "IsUTF8 name \<longleftrightarrow> normalizeEncodingName name \<in> set utf8EncodingNames"

definition IsASCII :: "string \<Rightarrow> bool" where
  "IsASCII name \<longleftrightarrow> normalizeEncodingName name \<in> set asciiEncodingNames"

subsection \<open>The tables agree\<close>

lemma table_lookup_Some:
  "table_lookup t n = Some c \<Longrightarrow> \<exists>names. (names, c) \<in> set t \<and> n \<in> set names"
  by (induction t) (auto split: if_splits)

lemma table_lookup_disjoint:
  "distinct (concat (map fst t)) \<Longrightarrow> (names, c) \<in> set t \<Longrightarrow> n \<in> set names \<Longrightarrow> table_lookup t n = Some c"
  by (induction t) (force split: if_splits)+

lemma table_lookup_codecs: "table_lookup t n = Some c \<Longrightarrow> c \<in> set (map snd t)"
  using table_lookup_Some[of t n c] by force

lemma ascii_utf8_disjoint: "n \<in> set utf8EncodingNames \<Longrightarrow> n \<notin> set asciiEncodingNames"
  by (auto simp: utf8EncodingNames_def asciiEncodingNames_def)

lemma load_table_no_ascii: "AsciiEncoding \<notin> set (map snd load_table)"
  by (simp add: load_table_def)

lemma load_table_utf8: "UnicodeUTF8 \<notin> set (map snd (tl load_table))"
  by (simp add: load_table_def)

lemma load_table_head: "load_table = (utf8EncodingNames, UnicodeUTF8) # tl load_table"
  by (simp add: load_table_def utf8EncodingNames_def)

lemma IsUTF8_iff_Load: "IsUTF8 n \<longleftrightarrow> Load n = Some UnicodeUTF8"
proof -
  let ?m = "normalizeEncodingName n"
  have "table_lookup load_table ?m = Some UnicodeUTF8 \<longleftrightarrow> ?m \<in> set utf8EncodingNames"
    using load_table_utf8 table_lookup_codecs[of "tl load_table" ?m UnicodeUTF8]
    by (subst load_table_head) auto
  then show ?thesis using ascii_utf8_disjoint[of ?m] by (auto simp: IsUTF8_def Load_def Let_def)
qed

lemma IsASCII_iff_Load: "IsASCII n \<longleftrightarrow> Load n = Some AsciiEncoding"
  using load_table_no_ascii table_lookup_codecs[of load_table "normalizeEncodingName n" AsciiEncoding]
  by (auto simp: IsASCII_def Load_def Let_def)

lemma raw_alias_is_ascii: "IsASCIIRawUTF8Alias n \<Longrightarrow> IsASCII n"
  by (auto simp: IsASCIIRawUTF8Alias_def IsASCII_def asciiRawUTF8Names_def asciiEncodingNames_def)

text \<open>Normalisation does not distinguish case, surrounding space or separators.\<close>

lemma normalize_upper:
  "normalizeEncodingName (map ascii_lower s) = normalizeEncodingName s" if "list_all is_ascii s"
proof -
  have r: "list_all is_ascii s \<Longrightarrow> runes s = map byte s" for s
    by (induction s) (auto simp: is_ascii_def)
  have low: "is_ascii c \<Longrightarrow> is_ascii (ascii_lower c)" for c
    by (auto simp: is_ascii_def ascii_lower_def)
  have sp: "is_space_rune (byte (ascii_lower c)) = is_space_rune (byte c)" for c
    by (auto simp: ascii_lower_def is_space_rune_def)
  have tl: "to_lower_rune (byte (ascii_lower c)) = to_lower_rune (byte c)" for c
    by (auto simp: ascii_lower_def to_lower_rune_def)
  have tm: "map to_lower_rune (trim_space (map byte (map ascii_lower t)))
      = map to_lower_rune (trim_space (map byte t))" for t
    by (simp add: trim_space_def dropWhile_map rev_map comp_def sp tl)
  show ?thesis using that
    by (simp add: normalizeEncodingName_def r list_all_iff low tm del: map_map)
qed

end
