(* ===== verification/StreamWriter.thy ===== *)
theory StreamWriter
  imports XmlChar Encoding
begin

text \<open>
  The streaming XML writer of \<open>stream/stream.go\<close>, function by function.

  \<open>'o writer\<close> is the struct \<open>Writer\<close>; a method on \<open>*Writer\<close> takes the writer and returns
  the updated one, paired with its \<open>error\<close> result where it has one (\<^const>\<open>None\<close> is
  \<open>nil\<close>).  The \<open>io.Writer\<close> the code writes to is a value \<open>'o sink\<close>: the state of the
  destination and its methods, the two optional interfaces the code tests for
  (\<open>io.StringWriter\<close> and \<open>io.ByteWriter\<close>, and \<open>Flush\<close>) as options.  A sequence of
  writes is \<open>seqw\<close>.  Loops over byte indices keep their indices.
\<close>

subsection \<open>State\<close>

datatype writerState = StateNone | StateDocument | StateName | StateAttribute | StateText
  | StateComment | StatePI | StatePIText | StateCDATA | StateDTD | StateDTDText

record elementEntry =
  ee_name :: string
  ee_empty :: bool
  ee_hasText :: bool
  ee_hasChild :: bool

record nsEntry =
  ne_prefix :: string
  ne_uri :: string

record nsScope =
  decls :: "nsEntry list"
  emitted :: nat

record 'o sink =
  sk_state :: 'o
  sk_write :: "'o \<Rightarrow> string \<Rightarrow> 'o \<times> goerr option"
  sk_writeString :: "('o \<Rightarrow> string \<Rightarrow> 'o \<times> goerr option) option"
  sk_writeByte :: "('o \<Rightarrow> char \<Rightarrow> 'o \<times> goerr option) option"
  sk_flush :: "('o \<Rightarrow> 'o \<times> goerr option) option"

record 'o writer =
  out :: "'o sink option"
  indent :: string
  quoteChar :: char
  state :: writerState
  elemStack :: "elementEntry list" \<comment> \<open>innermost element first\<close>
  nsStack :: "nsScope list" \<comment> \<open>innermost scope first\<close>
  stateStack :: "writerState list" \<comment> \<open>last pushed first\<close>
  err :: "goerr option"
  depth :: int
  hasOutput :: bool
  wroteNL :: bool
  commentDash :: bool
  piQuestion :: bool
  cdataBrackets :: nat
  xml11 :: bool

definition errNilOutputWriter :: goerr where
  "errNilOutputWriter = Errorf ''stream: output writer is nil'' []"

definition NewWriter :: "'o sink option \<Rightarrow> 'o writer" where
  "NewWriter w = \<lparr>out = w, indent = '''', quoteChar = CHR 0x22, state = StateNone,
     elemStack = [], nsStack = [], stateStack = [], err = None, depth = 0, hasOutput = False,
     wroteNL = False, commentDash = False, piQuestion = False, cdataBrackets = 0, xml11 = False\<rparr>"

definition Indent :: "string \<Rightarrow> 'o writer \<Rightarrow> 'o writer" where
  "Indent ind w = w\<lparr>indent := ind\<rparr>"

definition QuoteChar :: "char \<Rightarrow> 'o writer \<Rightarrow> 'o writer" where
  "QuoteChar q w = (if q = CHR 0x27 \<or> q = CHR 0x22 then w\<lparr>quoteChar := q\<rparr> else w)"

definition XMLVersion :: "string \<Rightarrow> 'o writer \<Rightarrow> 'o writer" where
  "XMLVersion v w = w\<lparr>xml11 := (v = ''1.1'')\<rparr>"

subsection \<open>Character classes of XML 1.1\<close>

definition isXML11RestrictedChar :: "nat \<Rightarrow> bool" where
  "isXML11RestrictedChar r =
     (if r \<ge> 0x1 \<and> r \<le> 0x8 then True
      else if r = 0xB \<or> r = 0xC then True
      else if r \<ge> 0xE \<and> r \<le> 0x1F then True
      else if r \<ge> 0x7F \<and> r \<le> 0x84 then True
      else if r \<ge> 0x86 \<and> r \<le> 0x9F then True
      else False)"

definition isXML11SerializeAsCharRef :: "nat \<Rightarrow> bool" where
  "isXML11SerializeAsCharRef r \<longleftrightarrow> isXML11RestrictedChar r \<or> r = 0x85 \<or> r = 0x2028"

definition isXML11Char :: "nat \<Rightarrow> bool" where
  "isXML11Char r \<longleftrightarrow> (r \<ge> 0x1 \<and> r \<le> 0xD7FF) \<or> (r \<ge> 0xE000 \<and> r \<le> 0xFFFD)
     \<or> (r \<ge> 0x10000 \<and> r \<le> 0x10FFFF)"

subsection \<open>Output primitives\<close>

definition seqw :: "('w \<Rightarrow> 'w) list \<Rightarrow> 'w \<Rightarrow> 'w" where
  "seqw fs w = fold (\<lambda>f w. f w) fs w"

lemma seqw_simps [simp]: "seqw [] w = w" "seqw (f # fs) w = seqw fs (f w)"
  by (simp_all add: seqw_def)

lemma seqw_append: "seqw (fs @ gs) w = seqw gs (seqw fs w)"
  by (simp add: seqw_def)

definition ensureWritable :: "'o writer \<Rightarrow> bool \<times> 'o writer" where
  "ensureWritable w =
     (if err w \<noteq> None then (False, w)
      else if out w = None then (False, w\<lparr>err := Some errNilOutputWriter\<rparr>)
      else (True, w))"

text \<open>\<open>io.WriteString\<close>: the \<open>WriteString\<close> method where the destination has one.\<close>

definition io_WriteString :: "'o sink \<Rightarrow> string \<Rightarrow> 'o sink \<times> goerr option" where
  "io_WriteString k s =
     (let (o', e) = (case sk_writeString k of Some f \<Rightarrow> f (sk_state k) s | None \<Rightarrow> sk_write k (sk_state k) s)
      in (k\<lparr>sk_state := o'\<rparr>, e))"

text \<open>The write of \<open>writeByte\<close>: the \<open>WriteByte\<close> method, or \<open>Write\<close> of one byte.\<close>

definition io_WriteByte :: "'o sink \<Rightarrow> char \<Rightarrow> 'o sink \<times> goerr option" where
  "io_WriteByte k b =
     (let (o', e) = (case sk_writeByte k of Some f \<Rightarrow> f (sk_state k) b | None \<Rightarrow> sk_write k (sk_state k) [b])
      in (k\<lparr>sk_state := o'\<rparr>, e))"

definition put_out :: "('o sink \<Rightarrow> 'o sink \<times> goerr option) \<Rightarrow> 'o writer \<Rightarrow> 'o writer" where
  "put_out f w = (case out w of None \<Rightarrow> w
     | Some k \<Rightarrow> (let (k', e) = f k in w\<lparr>out := Some k', err := e\<rparr>))"

definition writeStr :: "string \<Rightarrow> 'o writer \<Rightarrow> 'o writer" where
  "writeStr s w = (let (ok, w) = ensureWritable w in
     if \<not> ok then w else put_out (\<lambda>k. io_WriteString k s) w)"

definition writeByte :: "char \<Rightarrow> 'o writer \<Rightarrow> 'o writer" where
  "writeByte b w = (let (ok, w) = ensureWritable w in
     if \<not> ok then w
     else put_out (\<lambda>k. io_WriteByte k b) w)"

subsection \<open>Escaping\<close>

datatype escapeMode = EscapeNone | EscapeText | EscapeAttr

text \<open>The digits of \<open>writeDecimalCharRef\<close>, written into its buffer from the right.\<close>

fun decimal_digits :: "nat \<Rightarrow> string \<Rightarrow> string" where
  "decimal_digits v acc =
     (if v > 0 then decimal_digits (v div 10) (char_of (48 + v mod 10) # acc) else acc)"

declare decimal_digits.simps [simp del]

definition decimal_char_ref :: "nat \<Rightarrow> string" where
  "decimal_char_ref r = ''&#'' @ decimal_digits r (if r \<le> 0 then ''0;'' else '';'')"

definition writeDecimalCharRef :: "nat \<Rightarrow> 'o writer \<Rightarrow> 'o writer" where
  "writeDecimalCharRef r w = writeStr (decimal_char_ref r) w"

text \<open>
  The \<open>switch\<close> of \<open>writeEscaped\<close> on one byte: the replacement, the byte itself written
  on its own (\<open>writeRawByte\<close>), or the default case.
\<close>

datatype escapeAction = Replace string | RawByte | DefaultCase

definition escape_action :: "escapeMode \<Rightarrow> char \<Rightarrow> char \<Rightarrow> escapeAction" where
  "escape_action escape q c =
     (if c = CHR ''&'' then Replace ''&amp;''
      else if c = CHR ''<'' then Replace ''&lt;''
      else if c = CHR ''>'' then Replace ''&gt;''
      else if c = CHR 0x0D then Replace ''&#13;''
      else if c = CHR 0x22 then (if escape = EscapeAttr \<and> q = CHR 0x22 then Replace ''&quot;'' else RawByte)
      else if c = CHR 0x27 then (if escape = EscapeAttr \<and> q = CHR 0x27 then Replace ''&apos;'' else RawByte)
      else if c = CHR 0x0A then (if escape = EscapeAttr then Replace ''&#10;'' else RawByte)
      else if c = CHR 0x09 then (if escape = EscapeAttr then Replace ''&#9;'' else RawByte)
      else DefaultCase)"

definition str_slice :: "string \<Rightarrow> nat \<Rightarrow> nat \<Rightarrow> string" where
  "str_slice s i j = take (j - i) (drop i s)"

function writeEscapedLoop :: "escapeMode \<Rightarrow> string \<Rightarrow> nat \<Rightarrow> nat \<Rightarrow> 'o writer \<Rightarrow> nat \<times> 'o writer" where
  "writeEscapedLoop escape s i start w =
     (if i \<ge> length s then (start, w)
      else (case escape_action escape (quoteChar w) (s ! i) of
        DefaultCase \<Rightarrow>
          (if xml11 w \<and> (byte (s ! i) < 0x20 \<or> byte (s ! i) \<ge> 0x7F)
              \<and> isXML11SerializeAsCharRef (fst (decode_rune (drop i s)))
           then (let (r, width) = decode_rune (drop i s);
                     w = (if start < i then writeStr (str_slice s start i) w else w);
                     w = writeDecimalCharRef r w
                 in writeEscapedLoop escape s (i + 1) (i + width) w)
           else writeEscapedLoop escape s (i + 1) start w)
      | Replace replacement \<Rightarrow>
          (let w = (if start < i then writeStr (str_slice s start i) w else w);
               w = writeStr replacement w
           in writeEscapedLoop escape s (i + 1) (i + 1) w)
      | RawByte \<Rightarrow>
          (let w = (if start < i then writeStr (str_slice s start i) w else w);
               w = writeByte (s ! i) w
           in writeEscapedLoop escape s (i + 1) (i + 1) w)))"
  by pat_completeness auto
termination
  by (relation "measure (\<lambda>(escape, s, i, start, w). length s - i)") auto

declare writeEscapedLoop.simps [simp del]

definition writeEscaped :: "string \<Rightarrow> escapeMode \<Rightarrow> 'o writer \<Rightarrow> 'o writer" where
  "writeEscaped s escape w =
     (let (ok, w) = ensureWritable w in
      if \<not> ok then w
      else if escape = EscapeNone then put_out (\<lambda>k. io_WriteString k s) w
      else let (start, w) = writeEscapedLoop escape s 0 0 w in
        if start < length s then writeStr (drop start s) w else w)"

definition writeTextEscaped :: "string \<Rightarrow> 'o writer \<Rightarrow> 'o writer" where
  "writeTextEscaped s w = writeEscaped s EscapeText w"

definition writeAttrEscaped :: "string \<Rightarrow> 'o writer \<Rightarrow> 'o writer" where
  "writeAttrEscaped s w = writeEscaped s EscapeAttr w"

text \<open>\<open>writeCDATAEscaped\<close>: the loop over the bytes, with \<open>start\<close> and the bracket count.\<close>

function writeCDATALoop :: "string \<Rightarrow> nat \<Rightarrow> nat \<Rightarrow> 'o writer \<Rightarrow> nat \<times> 'o writer" where
  "writeCDATALoop s i start w =
     (if i \<ge> length s then (start, w)
      else let c = s ! i;
               (start, w) =
                 (if c = CHR ''>'' \<and> cdataBrackets w \<ge> 2
                  then (i, (writeStr '']]><![CDATA['' (if start < i then writeStr (str_slice s start i) w else w))
                            \<lparr>cdataBrackets := 0\<rparr>)
                  else (start, w));
               w = (if c = CHR '']'' then w\<lparr>cdataBrackets := cdataBrackets w + 1\<rparr>
                    else w\<lparr>cdataBrackets := 0\<rparr>)
           in writeCDATALoop s (i + 1) start w)"
  by pat_completeness auto
termination
  by (relation "measure (\<lambda>(s, i, start, w). length s - i)") auto

declare writeCDATALoop.simps [simp del]

definition writeCDATAEscaped :: "string \<Rightarrow> 'o writer \<Rightarrow> 'o writer" where
  "writeCDATAEscaped s w =
     (let (start, w) = writeCDATALoop s 0 0 w in writeStr (drop start s) w)"

subsection \<open>Indentation, pending markup\<close>

definition repeatw :: "nat \<Rightarrow> ('w \<Rightarrow> 'w) \<Rightarrow> 'w \<Rightarrow> 'w" where
  "repeatw n f w = (f ^^ n) w"

definition writeIndent :: "'o writer \<Rightarrow> 'o writer" where
  "writeIndent w =
     (if indent w = '''' then w
      else if \<not> hasOutput w then w
      else let w = (if wroteNL w then w\<lparr>wroteNL := False\<rparr>
                    else if depth w > 0 then writeStr [CHR 0x0A] w else w)
           in repeatw (nat (depth w)) (\<lambda>w. writeStr (indent w) w) w)"

definition writeEndIndent :: "'o writer \<Rightarrow> 'o writer" where
  "writeEndIndent w =
     (if indent w = '''' then w
      else let w = (if wroteNL w then w\<lparr>wroteNL := False\<rparr> else writeStr [CHR 0x0A] w)
           in repeatw (nat (depth w)) (\<lambda>w. writeStr (indent w) w) w)"

text \<open>Assignment to a field of the last entry of a stack that is not empty.\<close>

definition map_top :: "('a \<Rightarrow> 'a) \<Rightarrow> 'a list \<Rightarrow> 'a list" where
  "map_top f xs = (case xs of [] \<Rightarrow> [] | x # t \<Rightarrow> f x # t)"

definition emitNSDecl :: "nsEntry \<Rightarrow> 'o writer \<Rightarrow> 'o writer" where
  "emitNSDecl ns w =
     (if ne_prefix ns = ''''
      then seqw [writeStr '' xmlns='', \<lambda>w. writeByte (quoteChar w) w,
                 writeAttrEscaped (ne_uri ns), \<lambda>w. writeByte (quoteChar w) w] w
      else seqw [writeStr '' xmlns:'', writeStr (ne_prefix ns), writeByte CHR ''='',
                 \<lambda>w. writeByte (quoteChar w) w, writeAttrEscaped (ne_uri ns),
                 \<lambda>w. writeByte (quoteChar w) w] w)"

definition emitPendingNS :: "'o writer \<Rightarrow> 'o writer" where
  "emitPendingNS w =
     (case nsStack w of [] \<Rightarrow> w
      | scope # _ \<Rightarrow>
          (let w = seqw (map emitNSDecl (drop (emitted scope) (decls scope))) w
           in w\<lparr>nsStack := map_top (\<lambda>sc. sc\<lparr>emitted := length (decls sc)\<rparr>) (nsStack w)\<rparr>))"

definition closeTagIfOpen :: "'o writer \<Rightarrow> 'o writer" where
  "closeTagIfOpen w =
     (if state w \<noteq> StateName then w
      else let w = seqw [emitPendingNS, writeByte CHR ''>''] w;
               w = w\<lparr>state := StateText\<rparr>
           in w\<lparr>elemStack := map_top (\<lambda>e. e\<lparr>ee_empty := False\<rparr>) (elemStack w)\<rparr>)"

subsection \<open>Namespace scopes\<close>

fun find_decl :: "string \<Rightarrow> nsEntry list \<Rightarrow> string option" where
  "find_decl p [] = None"
| "find_decl p (ns # t) = (if ne_prefix ns = p then Some (ne_uri ns) else find_decl p t)"

text \<open>The nested loops of \<open>lookupNS\<close> and \<open>hasDefaultNSInScope\<close>: innermost scope first,
  the declarations of a scope in order.\<close>

fun find_binding :: "string \<Rightarrow> nsScope list \<Rightarrow> string option" where
  "find_binding p [] = None"
| "find_binding p (sc # t) =
     (case find_decl p (decls sc) of Some u \<Rightarrow> Some u | None \<Rightarrow> find_binding p t)"

definition lookupNS :: "string \<Rightarrow> string \<Rightarrow> 'o writer \<Rightarrow> bool" where
  "lookupNS prefix uri w =
     (case find_binding prefix (nsStack w) of Some u \<Rightarrow> u = uri | None \<Rightarrow> False)"

definition hasDefaultNSInScope :: "'o writer \<Rightarrow> bool" where
  "hasDefaultNSInScope w =
     (case find_binding '''' (nsStack w) of Some u \<Rightarrow> u \<noteq> '''' | None \<Rightarrow> False)"

definition declareNS :: "string \<Rightarrow> string \<Rightarrow> 'o writer \<Rightarrow> 'o writer" where
  "declareNS prefix uri w =
     (if lookupNS prefix uri w then w
      else case nsStack w of [] \<Rightarrow> w
        | scope # rest \<Rightarrow>
            (if find_decl prefix (decls scope) \<noteq> None then w
             else w\<lparr>nsStack := scope\<lparr>decls := decls scope @ [\<lparr>ne_prefix = prefix, ne_uri = uri\<rparr>]\<rparr> # rest\<rparr>))"

definition nsPrefixConflict :: "string \<Rightarrow> string \<Rightarrow> 'o writer \<Rightarrow> bool" where
  "nsPrefixConflict prefix uri w =
     (case nsStack w of [] \<Rightarrow> False
      | scope # _ \<Rightarrow>
          (case find_decl prefix (decls scope) of Some u \<Rightarrow> u \<noteq> uri | None \<Rightarrow> False))"

definition validateNSParts :: "string \<Rightarrow> string \<Rightarrow> string \<Rightarrow> goerr option" where
  "validateNSParts kind prefix localName =
     (if prefix \<noteq> '''' \<and> \<not> IsValidNCName prefix
      then Some (Errorf ''stream: invalid %s prefix %q'' [kind, prefix])
      else if \<not> IsValidNCName localName
      then Some (Errorf ''stream: invalid %s local name %q'' [kind, localName])
      else None)"

definition xmlNamespaceURI :: string where
  "xmlNamespaceURI = ''http://www.w3.org/XML/1998/namespace''"

definition xmlnsNamespaceURI :: string where
  "xmlnsNamespaceURI = ''http://www.w3.org/2000/xmlns/''"

definition validateReservedNS :: "string \<Rightarrow> string \<Rightarrow> string \<Rightarrow> goerr option" where
  "validateReservedNS kind prefix namespaceURI =
     (if prefix = ''xmlns''
      then Some (Errorf ''stream: reserved %s prefix %q must not be used'' [kind, prefix])
      else if prefix = ''xml'' \<and> namespaceURI \<noteq> '''' \<and> namespaceURI \<noteq> xmlNamespaceURI
      then Some (Errorf ''stream: reserved prefix xml must be bound to %q, not %q'' [xmlNamespaceURI, namespaceURI])
      else if namespaceURI = xmlNamespaceURI \<and> prefix \<noteq> ''xml''
      then Some (Errorf ''stream: XML namespace %q must be bound only to the xml prefix'' [xmlNamespaceURI])
      else if namespaceURI = xmlnsNamespaceURI
      then Some (Errorf ''stream: reserved namespace %q must not be declared'' [xmlnsNamespaceURI])
      else None)"

subsection \<open>Validation of caller-supplied text\<close>

definition isValidXMLVersion :: "string \<Rightarrow> bool" where
  "isValidXMLVersion v =
     (case cut_prefix v ''1.'' of None \<Rightarrow> False
      | Some rest \<Rightarrow> if rest = '''' then False
          else list_all (\<lambda>c. \<not> (byte c < 48 \<or> byte c > 57)) rest)"

definition isPubidChar :: "nat \<Rightarrow> bool" where
  "isPubidChar r =
     (if r = 0x20 \<or> r = 0xD \<or> r = 0xA then True
      else if (r \<ge> 97 \<and> r \<le> 122) \<or> (r \<ge> 65 \<and> r \<le> 90) \<or> (r \<ge> 48 \<and> r \<le> 57) then True
      else if r \<in> set (runes (CHR 0x2D # CHR 0x27 # ''()+,./:=?;!*#@$_%'')) then True
      else False)"

definition validatePubid :: "string \<Rightarrow> bool" where
  "validatePubid s = (if \<not> valid_utf8 s then False else list_all isPubidChar (runes s))"

definition validateSystemID :: "string \<Rightarrow> bool" where
  "validateSystemID s =
     (if contains s [CHR 0x27] \<and> contains s [CHR 0x22] then False
      else if \<not> valid_utf8 s then False
      else list_all IsChar (runes s))"

fun first_bad :: "(nat \<Rightarrow> bool) \<Rightarrow> nat list \<Rightarrow> nat option" where
  "first_bad ok [] = None"
| "first_bad ok (r # rs) = (if \<not> ok r then Some r else first_bad ok rs)"

definition validateXMLChars :: "string \<Rightarrow> string \<Rightarrow> goerr option" where
  "validateXMLChars kind s =
     (if \<not> valid_utf8 s
      then Some (Errorf ''stream: invalid UTF-8 byte sequence in %s content'' [kind])
      else case first_bad IsChar (runes s) of
        Some r \<Rightarrow> Some (Errorf ''stream: invalid XML character %#U in %s content'' [encode_rune r, kind])
      | None \<Rightarrow> None)"

definition validateContentChars :: "string \<Rightarrow> string \<Rightarrow> 'o writer \<Rightarrow> goerr option" where
  "validateContentChars kind s w =
     (if \<not> xml11 w then validateXMLChars kind s
      else if \<not> valid_utf8 s
      then Some (Errorf ''stream: invalid UTF-8 byte sequence in %s content'' [kind])
      else case first_bad isXML11Char (runes s) of
        Some r \<Rightarrow> Some (Errorf ''stream: invalid XML character %#U in %s content'' [encode_rune r, kind])
      | None \<Rightarrow> None)"

definition validateDTDFragment :: "string \<Rightarrow> string \<Rightarrow> goerr option" where
  "validateDTDFragment kind s =
     (case validateXMLChars kind s of Some e \<Rightarrow> Some e
      | None \<Rightarrow> (case first_bad (\<lambda>r. \<not> (r = 60 \<or> r = 62)) (runes s) of
          Some r \<Rightarrow> Some (Errorf ''stream: %s content must not contain %q'' [kind, encode_rune r])
        | None \<Rightarrow> None))"

text \<open>The loop of \<open>validateDTDAttlistFragment\<close>; \<open>quote\<close> is 0 outside a literal.\<close>

fun attlist_loop :: "string \<Rightarrow> nat \<Rightarrow> nat list \<Rightarrow> goerr option" where
  "attlist_loop kind quote [] =
     (if quote \<noteq> 0
      then Some (Errorf ''stream: %s content has an unterminated %q literal'' [kind, encode_rune quote])
      else None)"
| "attlist_loop kind quote (r # rs) =
     (if r = 60 then Some (Errorf ''stream: %s content must not contain %q'' [kind, encode_rune r])
      else if quote \<noteq> 0 then (if r = quote then attlist_loop kind 0 rs else attlist_loop kind quote rs)
      else if r = 0x27 \<or> r = 0x22 then attlist_loop kind r rs
      else if r = 62
      then Some (Errorf ''stream: %s content must not contain %q outside a quoted literal'' [kind, encode_rune r])
      else attlist_loop kind quote rs)"

definition validateDTDAttlistFragment :: "string \<Rightarrow> string \<Rightarrow> goerr option" where
  "validateDTDAttlistFragment kind s =
     (case validateXMLChars kind s of Some e \<Rightarrow> Some e
      | None \<Rightarrow> attlist_loop kind 0 (runes s))"

definition qualifiedName :: "string \<Rightarrow> string \<Rightarrow> string" where
  "qualifiedName prefix localName =
     (if prefix = '''' then localName else prefix @ '':'' @ localName)"

end
