(* ===== verification/StreamOps.thy ===== *)
theory StreamOps
  imports StreamWriter
begin

text \<open>
  The exported methods of \<open>stream/stream.go\<close> over the writer of \<open>StreamWriter\<close>: document,
  elements, attributes, text, comments, processing instructions, CDATA sections, DTD.  Each
  returns its \<open>error\<close> (\<^const>\<open>None\<close> is \<open>nil\<close>) and the writer.  \<open>try_then\<close> is
  \<open>if err := f(); err != nil { return err }\<close> followed by the rest of the method;
  \<open>finish\<close> is the final \<open>return w.err\<close>.
\<close>

type_synonym 'o outcome = "goerr option \<times> 'o writer"

definition try_then :: "'o outcome \<Rightarrow> ('o writer \<Rightarrow> 'o outcome) \<Rightarrow> 'o outcome" where
  "try_then r k = (case r of (Some e, w) \<Rightarrow> (Some e, w) | (None, w) \<Rightarrow> k w)"

definition finish :: "'o writer \<Rightarrow> 'o outcome" where
  "finish w = (err w, w)"

definition fail :: "string \<Rightarrow> string list \<Rightarrow> 'o writer \<Rightarrow> 'o outcome" where
  "fail f args w = (Some (Errorf f args), w)"

definition Error :: "'o writer \<Rightarrow> goerr option" where
  "Error w = err w"

subsection \<open>State stack and parent flags\<close>

definition popState :: "writerState \<Rightarrow> 'o writer \<Rightarrow> 'o writer" where
  "popState fallback w =
     (case stateStack w of
        s # t \<Rightarrow> w\<lparr>state := s, stateStack := t\<rparr>
      | [] \<Rightarrow> w\<lparr>state := fallback\<rparr>)"

definition pushState :: "writerState \<Rightarrow> 'o writer \<Rightarrow> 'o writer" where
  "pushState s w = w\<lparr>stateStack := state w # stateStack w, state := s\<rparr>"

definition markParentChild :: "'o writer \<Rightarrow> 'o writer" where
  "markParentChild w =
     w\<lparr>elemStack := map_top (\<lambda>e. e\<lparr>ee_empty := False, ee_hasChild := True\<rparr>) (elemStack w)\<rparr>"

definition markText :: "'o writer \<Rightarrow> 'o writer" where
  "markText w = w\<lparr>elemStack := map_top (\<lambda>e. e\<lparr>ee_hasText := True\<rparr>) (elemStack w)\<rparr>"

definition Flush :: "'o writer \<Rightarrow> 'o outcome" where
  "Flush w =
     (if err w \<noteq> None then finish w
      else case out w of
        None \<Rightarrow> finish w
      | Some k \<Rightarrow> (case sk_flush k of
          None \<Rightarrow> finish w
        | Some f \<Rightarrow> (let (o', e) = f (sk_state k) in finish (w\<lparr>out := Some (k\<lparr>sk_state := o'\<rparr>), err := e\<rparr>))))"

subsection \<open>Document start\<close>

definition writeQuoted :: "string \<Rightarrow> 'o writer \<Rightarrow> 'o writer" where
  "writeQuoted s w =
     seqw [\<lambda>w. writeByte (quoteChar w) w, writeStr s, \<lambda>w. writeByte (quoteChar w) w] w"

definition StartDocument :: "string \<Rightarrow> string \<Rightarrow> string \<Rightarrow> 'o writer \<Rightarrow> 'o outcome" where
  "StartDocument version enc standalone w =
     (if err w \<noteq> None then finish w
      else if state w \<noteq> StateNone then fail ''stream: StartDocument called in invalid state'' [] w
      else let version = (if version = '''' then ''1.0'' else version) in
        if \<not> isValidXMLVersion version then fail ''stream: invalid XML version %q'' [version] w
        else if standalone \<noteq> '''' \<and> standalone \<noteq> ''yes'' \<and> standalone \<noteq> ''no''
        then fail ''stream: invalid standalone value %q'' [standalone] w
        else let w = (if version = ''1.1'' then w\<lparr>xml11 := True\<rparr> else w) in
          if enc \<noteq> '''' \<and> \<not> IsValidEncName enc then fail ''stream: invalid encoding name %q'' [enc] w
          else if enc \<noteq> '''' \<and> Load enc = None then fail ''stream: unsupported encoding %q'' [enc] w
          else let w = seqw [writeStr ''<?xml version='', writeQuoted version] w;
                   w = (if enc \<noteq> '''' then seqw [writeStr '' encoding='', writeQuoted enc] w else w);
                   w = (if standalone \<noteq> '''' then seqw [writeStr '' standalone='', writeQuoted standalone] w else w);
                   w = writeStr (''?>'' @ [CHR 0x0A]) w
               in finish (w\<lparr>state := StateDocument, hasOutput := True\<rparr>))"

subsection \<open>Elements\<close>

definition StartElement :: "string \<Rightarrow> 'o writer \<Rightarrow> 'o outcome" where
  "StartElement name w =
     (if name = '''' then fail ''stream: element name must not be empty'' [] w
      else if err w \<noteq> None then finish w
      else if \<not> IsValidQName name then fail ''stream: invalid element name %q'' [name] w
      else if state w \<notin> {StateNone, StateDocument, StateText, StateDTD, StateName}
      then fail ''stream: StartElement called in invalid state'' [] w
      else let w = (if state w = StateName then closeTagIfOpen w else w);
               w = seqw [markParentChild, writeIndent, writeByte CHR ''<'', writeStr name] w
           in finish (w\<lparr>hasOutput := True,
                elemStack := \<lparr>ee_name = name, ee_empty = True, ee_hasText = False, ee_hasChild = False\<rparr> # elemStack w,
                nsStack := \<lparr>decls = [], emitted = 0\<rparr> # nsStack w,
                state := StateName,
                depth := depth w + 1\<rparr>))"

definition StartElementNS :: "string \<Rightarrow> string \<Rightarrow> string \<Rightarrow> 'o writer \<Rightarrow> 'o outcome" where
  "StartElementNS prefix localName namespaceURI w =
     (if err w \<noteq> None then finish w
      else try_then (validateNSParts ''element'' prefix localName, w) (\<lambda>w.
        try_then (validateReservedNS ''element'' prefix namespaceURI, w) (\<lambda>w.
        try_then (validateXMLChars ''namespace URI'' namespaceURI, w) (\<lambda>w.
        try_then (StartElement (qualifiedName prefix localName) w) (\<lambda>w.
          finish (if namespaceURI \<noteq> '''' then declareNS prefix namespaceURI w
                  else if prefix = '''' \<and> hasDefaultNSInScope w then declareNS '''' '''' w
                  else w))))))"

subsection \<open>Attributes\<close>

definition StartAttribute :: "string \<Rightarrow> 'o writer \<Rightarrow> 'o outcome" where
  "StartAttribute name w =
     (if name = '''' then fail ''stream: attribute name must not be empty'' [] w
      else if err w \<noteq> None then finish w
      else if \<not> IsValidQName name then fail ''stream: invalid attribute name %q'' [name] w
      else if state w \<noteq> StateName then fail ''stream: StartAttribute called outside element opening tag'' [] w
      else finish (pushState StateAttribute
             (seqw [writeByte CHR '' '', writeStr name, writeByte CHR ''='', \<lambda>w. writeByte (quoteChar w) w] w)))"

definition StartAttributeNS :: "string \<Rightarrow> string \<Rightarrow> string \<Rightarrow> 'o writer \<Rightarrow> 'o outcome" where
  "StartAttributeNS prefix localName namespaceURI w =
     (if err w \<noteq> None then finish w
      else try_then (validateNSParts ''attribute'' prefix localName, w) (\<lambda>w.
        try_then (validateReservedNS ''attribute'' prefix namespaceURI, w) (\<lambda>w.
        try_then (validateXMLChars ''namespace URI'' namespaceURI, w) (\<lambda>w.
        if state w \<noteq> StateName then fail ''stream: StartAttribute called outside element opening tag'' [] w
        else if namespaceURI \<noteq> '''' \<and> prefix \<noteq> '''' then
          (if nsPrefixConflict prefix namespaceURI w
           then fail ''stream: attribute prefix %q already bound to a different namespace in this element'' [prefix] w
           else StartAttribute (qualifiedName prefix localName) (declareNS prefix namespaceURI w))
        else StartAttribute (qualifiedName prefix localName) w))))"

definition EndAttribute :: "'o writer \<Rightarrow> 'o outcome" where
  "EndAttribute w =
     (if err w \<noteq> None then finish w
      else if state w \<noteq> StateAttribute then fail ''stream: EndAttribute called outside attribute'' [] w
      else finish (popState StateName (writeByte (quoteChar w) w)))"

subsection \<open>Closing elements\<close>

definition writeEndTag :: "elementEntry \<Rightarrow> 'o writer \<Rightarrow> 'o writer" where
  "writeEndTag entry w =
     (let w = (if ee_hasChild entry \<and> \<not> ee_hasText entry then writeEndIndent w else w)
      in seqw [writeStr ''</'', writeStr (ee_name entry), writeByte CHR ''>''] w)"

definition popElement :: "'o writer \<Rightarrow> 'o writer" where
  "popElement w = w\<lparr>depth := depth w - 1, elemStack := tl (elemStack w)\<rparr>"

text \<open>The common end of \<open>EndElement\<close> and \<open>FullEndElement\<close>.\<close>

definition leaveElement :: "'o writer \<Rightarrow> 'o outcome" where
  "leaveElement w =
     (let w = w\<lparr>nsStack := tl (nsStack w)\<rparr>
      in finish (w\<lparr>state := (if elemStack w \<noteq> [] then StateText else StateDocument)\<rparr>))"

definition EndElement :: "'o writer \<Rightarrow> 'o outcome" where
  "EndElement w =
     (if err w \<noteq> None then finish w
      else if elemStack w = [] then fail ''stream: EndElement called with no open element'' [] w
      else try_then (if state w = StateAttribute then EndAttribute w else (None, w)) (\<lambda>w.
        let entry = hd (elemStack w);
            w = popElement w;
            w = (if state w = StateName \<and> ee_empty entry
                 then seqw [emitPendingNS, writeStr ''/>''] w
                 else writeEndTag entry (if state w = StateName then closeTagIfOpen w else w))
        in leaveElement w))"

definition FullEndElement :: "'o writer \<Rightarrow> 'o outcome" where
  "FullEndElement w =
     (if err w \<noteq> None then finish w
      else if elemStack w = [] then fail ''stream: FullEndElement called with no open element'' [] w
      else try_then (if state w = StateAttribute then EndAttribute w else (None, w)) (\<lambda>w.
        let w = (if state w = StateName then closeTagIfOpen w else w);
            entry = hd (elemStack w);
            w = writeEndTag entry (popElement w)
        in leaveElement w))"

subsection \<open>Text\<close>

definition WriteString :: "string \<Rightarrow> 'o writer \<Rightarrow> 'o outcome" where
  "WriteString content w =
     (if err w \<noteq> None then finish w
      else case state w of
        StateName \<Rightarrow>
          try_then (validateContentChars ''text'' content w, w) (\<lambda>w.
            finish (seqw [closeTagIfOpen, markText, writeTextEscaped content] w))
      | StateNone \<Rightarrow>
          try_then (validateContentChars ''text'' content w, w) (\<lambda>w.
            finish (seqw [markText, writeTextEscaped content] w))
      | StateText \<Rightarrow>
          try_then (validateContentChars ''text'' content w, w) (\<lambda>w.
            finish (seqw [markText, writeTextEscaped content] w))
      | StateDocument \<Rightarrow>
          try_then (validateContentChars ''text'' content w, w) (\<lambda>w.
            finish (seqw [markText, writeTextEscaped content] w))
      | StateAttribute \<Rightarrow>
          try_then (validateContentChars ''attribute'' content w, w) (\<lambda>w.
            finish (writeAttrEscaped content w))
      | StateComment \<Rightarrow>
          try_then (validateXMLChars ''comment'' content, w) (\<lambda>w.
            if commentDash w \<and> has_prefix content ''-''
            then fail ''stream: comment content must not contain --'' [] w
            else if contains content ''--''
            then fail ''stream: comment content must not contain --'' [] w
            else let w = writeStr content w
                 in finish (if content \<noteq> '''' then w\<lparr>commentDash := has_suffix content ''-''\<rparr> else w))
      | StateCDATA \<Rightarrow>
          try_then (validateXMLChars ''CDATA'' content, w) (\<lambda>w. finish (writeCDATAEscaped content w))
      | st \<Rightarrow>
          (if st = StatePI \<or> st = StatePIText then
             try_then (validateXMLChars ''processing instruction'' content, w) (\<lambda>w.
               if piQuestion w \<and> has_prefix content ''>''
               then fail ''stream: processing instruction content must not contain ?>'' [] w
               else if contains content ''?>''
               then fail ''stream: processing instruction content must not contain ?>'' [] w
               else let w = writeStr content w;
                        w = (if content \<noteq> '''' then w\<lparr>piQuestion := has_suffix content ''?''\<rparr> else w)
                    in finish (w\<lparr>state := StatePIText\<rparr>))
           else fail ''stream: WriteString called in invalid state'' [] w))"

definition WriteRaw :: "string \<Rightarrow> 'o writer \<Rightarrow> 'o outcome" where
  "WriteRaw content w =
     (if err w \<noteq> None then finish w
      else if state w = StateName
      then finish (seqw [closeTagIfOpen, markText, writeStr content] w)
      else if state w \<in> {StateNone, StateText, StateDocument}
      then finish (seqw [markText, writeStr content] w)
      else if state w = StateAttribute then finish (writeStr content w)
      else fail ''stream: WriteRaw called in invalid state'' [] w)"

definition WriteElement :: "string \<Rightarrow> string \<Rightarrow> 'o writer \<Rightarrow> 'o outcome" where
  "WriteElement name content w =
     (if err w \<noteq> None then finish w
      else try_then (validateContentChars ''text'' content w, w) (\<lambda>w.
        try_then (StartElement name w) (\<lambda>w.
        try_then (WriteString content w) EndElement)))"

definition WriteElementNS :: "string \<Rightarrow> string \<Rightarrow> string \<Rightarrow> string \<Rightarrow> 'o writer \<Rightarrow> 'o outcome" where
  "WriteElementNS prefix localName namespaceURI content w =
     (if err w \<noteq> None then finish w
      else try_then (validateContentChars ''text'' content w, w) (\<lambda>w.
        try_then (StartElementNS prefix localName namespaceURI w) (\<lambda>w.
        try_then (WriteString content w) EndElement)))"

definition WriteAttribute :: "string \<Rightarrow> string \<Rightarrow> 'o writer \<Rightarrow> 'o outcome" where
  "WriteAttribute name value w =
     (if err w \<noteq> None then finish w
      else try_then (validateContentChars ''attribute'' value w, w) (\<lambda>w.
        try_then (StartAttribute name w) (\<lambda>w.
        try_then (WriteString value w) EndAttribute)))"

definition WriteAttributeNS :: "string \<Rightarrow> string \<Rightarrow> string \<Rightarrow> string \<Rightarrow> 'o writer \<Rightarrow> 'o outcome" where
  "WriteAttributeNS prefix localName namespaceURI value w =
     (if err w \<noteq> None then finish w
      else try_then (validateContentChars ''attribute'' value w, w) (\<lambda>w.
        try_then (StartAttributeNS prefix localName namespaceURI w) (\<lambda>w.
        try_then (WriteString value w) EndAttribute)))"

subsection \<open>Comments\<close>

definition StartComment :: "'o writer \<Rightarrow> 'o outcome" where
  "StartComment w =
     (if err w \<noteq> None then finish w
      else if state w \<notin> {StateNone, StateDocument, StateText, StateName}
      then fail ''stream: StartComment called in invalid state'' [] w
      else let w = (if state w = StateName then closeTagIfOpen w else w);
               w = seqw [markParentChild, writeStr ''<!--''] w
           in finish (pushState StateComment (w\<lparr>commentDash := False\<rparr>)))"

definition writeTrailingNL :: "'o writer \<Rightarrow> 'o writer" where
  "writeTrailingNL w = (if indent w \<noteq> '''' then (writeStr [CHR 0x0A] w)\<lparr>wroteNL := True\<rparr> else w)"

definition EndComment :: "'o writer \<Rightarrow> 'o outcome" where
  "EndComment w =
     (if err w \<noteq> None then finish w
      else if state w \<noteq> StateComment then fail ''stream: EndComment called outside comment'' [] w
      else if commentDash w then fail ''stream: comment content must not end with -'' [] w
      else finish (popState StateDocument (seqw [writeStr ''-->'', writeTrailingNL] w)))"

definition WriteComment :: "string \<Rightarrow> 'o writer \<Rightarrow> 'o outcome" where
  "WriteComment content w =
     (if err w \<noteq> None then finish w
      else try_then (validateXMLChars ''comment'' content, w) (\<lambda>w.
        if contains content ''--'' then fail ''stream: comment content must not contain --'' [] w
        else if has_suffix content ''-'' then fail ''stream: comment content must not end with -'' [] w
        else try_then (StartComment w) (\<lambda>w. try_then (WriteString content w) EndComment)))"

subsection \<open>Processing instructions\<close>

definition StartPI :: "string \<Rightarrow> 'o writer \<Rightarrow> 'o outcome" where
  "StartPI target w =
     (if target = '''' then fail ''stream: PI target must not be empty'' [] w
      else if err w \<noteq> None then finish w
      else if equal_fold target ''xml'' then fail ''stream: PI target cannot be xml'' [] w
      else if \<not> IsValidPITarget target then fail ''stream: invalid PI target %q'' [target] w
      else if state w \<notin> {StateNone, StateDocument, StateText, StateName}
      then fail ''stream: StartPI called in invalid state'' [] w
      else let w = (if state w = StateName then closeTagIfOpen w else w);
               w = seqw [markParentChild, writeStr ''<?'', writeStr target] w
           in finish (pushState StatePI (w\<lparr>piQuestion := False\<rparr>)))"

definition EndPI :: "'o writer \<Rightarrow> 'o outcome" where
  "EndPI w =
     (if err w \<noteq> None then finish w
      else if state w \<noteq> StatePI \<and> state w \<noteq> StatePIText
      then fail ''stream: EndPI called outside processing instruction'' [] w
      else finish (popState StateDocument (seqw [writeStr ''?>'', writeTrailingNL] w)))"

definition WritePI :: "string \<Rightarrow> string \<Rightarrow> 'o writer \<Rightarrow> 'o outcome" where
  "WritePI target content w =
     (if err w \<noteq> None then finish w
      else try_then (validateXMLChars ''processing instruction'' content, w) (\<lambda>w.
        if contains content ''?>''
        then fail ''stream: processing instruction content must not contain ?>'' [] w
        else try_then (StartPI target w) (\<lambda>w.
          if content \<noteq> ''''
          then try_then (WriteString content (writeByte CHR '' '' w)) EndPI
          else EndPI w)))"

subsection \<open>CDATA sections\<close>

definition StartCDATA :: "'o writer \<Rightarrow> 'o outcome" where
  "StartCDATA w =
     (if err w \<noteq> None then finish w
      else if state w \<notin> {StateText, StateName}
      then fail ''stream: StartCDATA called in invalid state'' [] w
      else let w = (if state w = StateName then closeTagIfOpen w else w);
               w = w\<lparr>elemStack := map_top (\<lambda>e. e\<lparr>ee_empty := False, ee_hasText := True\<rparr>) (elemStack w)\<rparr>;
               w = writeStr ''<![CDATA['' w
           in finish (pushState StateCDATA (w\<lparr>cdataBrackets := 0\<rparr>)))"

definition EndCDATA :: "'o writer \<Rightarrow> 'o outcome" where
  "EndCDATA w =
     (if err w \<noteq> None then finish w
      else if state w \<noteq> StateCDATA then fail ''stream: EndCDATA called outside CDATA section'' [] w
      else finish (popState StateText (writeStr '']]>'' w)))"

definition writeCDATASection :: "string \<Rightarrow> 'o writer \<Rightarrow> 'o outcome" where
  "writeCDATASection content w =
     try_then (StartCDATA w) (\<lambda>w. try_then (WriteString content w) EndCDATA)"

text \<open>The loop of \<open>WriteCDATA\<close>: every iteration drops at least two bytes of the content.\<close>

function writeCDATASections :: "string \<Rightarrow> 'o writer \<Rightarrow> 'o outcome" where
  "writeCDATASections content w =
     (case index_of content '']]>'' of
        None \<Rightarrow> writeCDATASection content w
      | Some idx \<Rightarrow>
          try_then (writeCDATASection (take (idx + 2) content) w)
            (writeCDATASections (drop (idx + 2) content)))"
  by pat_completeness auto
termination
proof (relation "measure (\<lambda>(content, w). length content)")
  fix content :: string and w w' :: "'o writer" and idx
  assume "index_of content '']]>'' = Some idx"
  from index_of_Some[OF this] have "2 < length content" by simp
  then show "((drop (idx + 2) content, w'), (content, w)) \<in> measure (\<lambda>(content, w). length content)"
    by simp
qed simp

declare writeCDATASections.simps [simp del]

definition WriteCDATA :: "string \<Rightarrow> 'o writer \<Rightarrow> 'o outcome" where
  "WriteCDATA content w =
     (if err w \<noteq> None then finish w
      else try_then (validateXMLChars ''CDATA'' content, w) (writeCDATASections content))"

subsection \<open>DTD\<close>

definition dtdQuoteFor :: "string \<Rightarrow> char \<Rightarrow> char" where
  "dtdQuoteFor value preferred =
     (if preferred \<in> set value then (if preferred = CHR 0x22 then CHR 0x27 else CHR 0x22) else preferred)"

definition writeQuotedID :: "string \<Rightarrow> 'o writer \<Rightarrow> 'o writer" where
  "writeQuotedID s w =
     (let q = dtdQuoteFor s (quoteChar w) in seqw [writeByte q, writeStr s, writeByte q] w)"

definition StartDTD :: "string \<Rightarrow> string \<Rightarrow> string \<Rightarrow> 'o writer \<Rightarrow> 'o outcome" where
  "StartDTD name pubid sysid w =
     (if name = '''' then fail ''stream: DTD name must not be empty'' [] w
      else if err w \<noteq> None then finish w
      else if state w \<noteq> StateDocument then fail ''stream: StartDTD called in invalid state'' [] w
      else if pubid \<noteq> '''' \<and> sysid = ''''
      then fail ''stream: StartDTD requires sysid when pubid is provided'' [] w
      else if \<not> IsValidName name then fail ''stream: invalid DTD name %q'' [name] w
      else if pubid \<noteq> '''' \<and> \<not> validatePubid pubid
      then fail ''stream: invalid DTD public identifier %q'' [pubid] w
      else if sysid \<noteq> '''' \<and> \<not> validateSystemID sysid
      then fail ''stream: invalid DTD system identifier %q'' [sysid] w
      else let w = (if indent w \<noteq> '''' then writeStr [CHR 0x0A] w else w);
               w = seqw [writeStr ''<!DOCTYPE '', writeStr name] w;
               w = (if pubid \<noteq> '''' then
                      seqw [\<lambda>w. if indent w \<noteq> '''' then writeStr (CHR 0x0A # ''PUBLIC '') w else writeStr '' PUBLIC '' w,
                            writeQuotedID pubid,
                            \<lambda>w. if indent w \<noteq> '''' then writeStr (CHR 0x0A # ''       '') w else writeByte CHR '' '' w,
                            writeQuotedID sysid] w
                    else if sysid \<noteq> '''' then
                      seqw [\<lambda>w. if indent w \<noteq> '''' then writeStr (CHR 0x0A # ''SYSTEM '') w else writeStr '' SYSTEM '' w,
                            writeQuotedID sysid] w
                    else w)
           in finish (w\<lparr>state := StateDTD\<rparr>))"

definition ensureDTDState :: "string \<Rightarrow> 'o writer \<Rightarrow> goerr option" where
  "ensureDTDState meth w =
     (if err w \<noteq> None then err w
      else if state w \<noteq> StateDTD \<and> state w \<noteq> StateDTDText
      then Some (Errorf (''stream: '' @ meth @ '' called outside DTD'') [])
      else None)"

definition ensureDTDInternalSubset :: "'o writer \<Rightarrow> 'o writer" where
  "ensureDTDInternalSubset w =
     (if state w = StateDTD then (writeStr '' ['' w)\<lparr>state := StateDTDText\<rparr> else w)"

definition EndDTD :: "'o writer \<Rightarrow> 'o outcome" where
  "EndDTD w =
     (if err w \<noteq> None then finish w
      else if state w \<noteq> StateDTD \<and> state w \<noteq> StateDTDText
      then fail ''stream: EndDTD called outside DTD'' [] w
      else let w = (if state w = StateDTDText then writeStr '']>'' w else writeByte CHR ''>'' w);
               w = writeTrailingNL w
           in finish (w\<lparr>state := StateDocument\<rparr>))"

definition WriteDTD :: "string \<Rightarrow> string \<Rightarrow> string \<Rightarrow> string \<Rightarrow> 'o writer \<Rightarrow> 'o outcome" where
  "WriteDTD name pubid sysid internal w =
     try_then (StartDTD name pubid sysid w) (\<lambda>w.
       EndDTD (if internal \<noteq> '''' then seqw [writeStr '' ['', writeStr internal, writeByte CHR '']''] w else w))"

definition WriteDTDElement :: "string \<Rightarrow> string \<Rightarrow> 'o writer \<Rightarrow> 'o outcome" where
  "WriteDTDElement name content w =
     try_then (ensureDTDState ''WriteDTDElement'' w, w) (\<lambda>w.
       if \<not> IsValidName name then fail ''stream: invalid DTD element name %q'' [name] w
       else try_then (validateDTDFragment ''DTD element'' content, w) (\<lambda>w.
         finish (seqw [ensureDTDInternalSubset, writeStr ''<!ELEMENT '', writeStr name,
                       writeByte CHR '' '', writeStr content, writeByte CHR ''>''] w)))"

definition WriteDTDAttlist :: "string \<Rightarrow> string \<Rightarrow> 'o writer \<Rightarrow> 'o outcome" where
  "WriteDTDAttlist name content w =
     try_then (ensureDTDState ''WriteDTDAttlist'' w, w) (\<lambda>w.
       if \<not> IsValidName name then fail ''stream: invalid DTD attlist name %q'' [name] w
       else try_then (validateDTDAttlistFragment ''DTD attlist'' content, w) (\<lambda>w.
         finish (seqw [ensureDTDInternalSubset, writeStr ''<!ATTLIST '', writeStr name,
                       writeByte CHR '' '', writeStr content, writeByte CHR ''>''] w)))"

definition WriteDTDEntity :: "bool \<Rightarrow> string \<Rightarrow> string \<Rightarrow> 'o writer \<Rightarrow> 'o outcome" where
  "WriteDTDEntity pe name content w =
     try_then (ensureDTDState ''WriteDTDEntity'' w, w) (\<lambda>w.
       if \<not> IsValidNCName name then fail ''stream: invalid DTD entity name %q'' [name] w
       else try_then (validateXMLChars ''DTD entity'' content, w) (\<lambda>w.
         finish (seqw [ensureDTDInternalSubset, writeStr ''<!ENTITY '',
                       \<lambda>w. if pe then writeStr ''% '' w else w,
                       writeStr name, writeByte CHR '' '',
                       \<lambda>w. writeByte (quoteChar w) w, writeAttrEscaped content,
                       \<lambda>w. writeByte (quoteChar w) w, writeByte CHR ''>''] w)))"

definition WriteDTDExternalEntity ::
  "bool \<Rightarrow> string \<Rightarrow> string \<Rightarrow> string \<Rightarrow> string \<Rightarrow> 'o writer \<Rightarrow> 'o outcome" where
  "WriteDTDExternalEntity pe name pubid sysid ndata w =
     try_then (ensureDTDState ''WriteDTDExternalEntity'' w, w) (\<lambda>w.
       if \<not> IsValidNCName name then fail ''stream: invalid DTD entity name %q'' [name] w
       else if pubid \<noteq> '''' \<and> \<not> validatePubid pubid
       then fail ''stream: invalid DTD public identifier %q'' [pubid] w
       else if sysid \<noteq> '''' \<and> \<not> validateSystemID sysid
       then fail ''stream: invalid DTD system identifier %q'' [sysid] w
       else if ndata \<noteq> '''' \<and> \<not> IsValidName ndata
       then fail ''stream: invalid DTD notation name %q'' [ndata] w
       else
         finish (seqw [ensureDTDInternalSubset, writeStr ''<!ENTITY '',
             \<lambda>w. if pe then writeStr ''% '' w else w,
             writeStr name,
             \<lambda>w. if pubid \<noteq> ''''
                  then seqw [writeStr '' PUBLIC '', writeQuotedID pubid, writeByte CHR '' '', writeQuotedID sysid] w
                  else if sysid \<noteq> '''' then seqw [writeStr '' SYSTEM '', writeQuotedID sysid] w
                  else w,
             \<lambda>w. if ndata \<noteq> '''' then seqw [writeStr '' NDATA '', writeStr ndata] w else w,
             writeByte CHR ''>''] w))"

definition WriteDTDNotation :: "string \<Rightarrow> string \<Rightarrow> string \<Rightarrow> 'o writer \<Rightarrow> 'o outcome" where
  "WriteDTDNotation name pubid sysid w =
     try_then (ensureDTDState ''WriteDTDNotation'' w, w) (\<lambda>w.
       if \<not> IsValidName name then fail ''stream: invalid DTD notation name %q'' [name] w
       else if pubid \<noteq> '''' \<and> \<not> validatePubid pubid
       then fail ''stream: invalid DTD public identifier %q'' [pubid] w
       else if sysid \<noteq> '''' \<and> \<not> validateSystemID sysid
       then fail ''stream: invalid DTD system identifier %q'' [sysid] w
       else
         finish (seqw [ensureDTDInternalSubset, writeStr ''<!NOTATION '', writeStr name,
             \<lambda>w. if pubid \<noteq> '''' then
                    seqw [writeStr '' PUBLIC '', writeQuotedID pubid,
                          \<lambda>w. if sysid \<noteq> '''' then seqw [writeByte CHR '' '', writeQuotedID sysid] w else w] w
                  else if sysid \<noteq> '''' then seqw [writeStr '' SYSTEM '', writeQuotedID sysid] w
                  else w,
             writeByte CHR ''>''] w))"

subsection \<open>Document end\<close>

text \<open>
  The loop \<open>for len(w.elemStack) > 0\<close> of \<open>EndDocument\<close>.  An iteration that returns no
  error has popped one element (\<open>EndElement_pops\<close> below), so as many iterations as there are
  open elements are enough; the recursion is over that number.
\<close>

fun closeElements :: "nat \<Rightarrow> 'o writer \<Rightarrow> 'o outcome" where
  "closeElements 0 w = (None, w)"
| "closeElements (Suc n) w =
     (if elemStack w = [] then (None, w) else try_then (EndElement w) (closeElements n))"

definition closeOpenConstruct :: "'o writer \<Rightarrow> 'o outcome" where
  "closeOpenConstruct w =
     (case state w of
        StatePI \<Rightarrow> EndPI w
      | StatePIText \<Rightarrow> EndPI w
      | StateCDATA \<Rightarrow> EndCDATA w
      | StateComment \<Rightarrow> EndComment w
      | StateDTD \<Rightarrow> EndDTD w
      | StateDTDText \<Rightarrow> EndDTD w
      | _ \<Rightarrow> (None, w))"

definition EndDocument :: "'o writer \<Rightarrow> 'o outcome" where
  "EndDocument w =
     (if err w \<noteq> None then finish w
      else try_then (closeOpenConstruct w) (\<lambda>w.
        try_then (closeElements (length (elemStack w)) w) (\<lambda>w.
          let w = (if indent w = '''' then writeStr [CHR 0x0A] w else w)
          in Flush (w\<lparr>state := StateNone\<rparr>))))"

subsection \<open>The interface as a datatype of calls\<close>

datatype call =
    CStartDocument string string string | CEndDocument
  | CStartElement string | CStartElementNS string string string | CEndElement | CFullEndElement
  | CWriteElement string string | CWriteElementNS string string string string
  | CStartAttribute string | CStartAttributeNS string string string | CEndAttribute
  | CWriteAttribute string string | CWriteAttributeNS string string string string
  | CWriteString string | CWriteRaw string
  | CStartComment | CEndComment | CWriteComment string
  | CStartPI string | CEndPI | CWritePI string string
  | CStartCDATA | CEndCDATA | CWriteCDATA string
  | CStartDTD string string string | CEndDTD | CWriteDTD string string string string
  | CWriteDTDElement string string | CWriteDTDAttlist string string | CWriteDTDEntity bool string string
  | CWriteDTDExternalEntity bool string string string string | CWriteDTDNotation string string string
  | CFlush

primrec exec :: "call \<Rightarrow> 'o writer \<Rightarrow> 'o outcome" where
  "exec (CStartDocument v e s) w = StartDocument v e s w"
| "exec CEndDocument w = EndDocument w"
| "exec (CStartElement n) w = StartElement n w"
| "exec (CStartElementNS p l u) w = StartElementNS p l u w"
| "exec CEndElement w = EndElement w"
| "exec CFullEndElement w = FullEndElement w"
| "exec (CWriteElement n c) w = WriteElement n c w"
| "exec (CWriteElementNS p l u c) w = WriteElementNS p l u c w"
| "exec (CStartAttribute n) w = StartAttribute n w"
| "exec (CStartAttributeNS p l u) w = StartAttributeNS p l u w"
| "exec CEndAttribute w = EndAttribute w"
| "exec (CWriteAttribute n v) w = WriteAttribute n v w"
| "exec (CWriteAttributeNS p l u v) w = WriteAttributeNS p l u v w"
| "exec (CWriteString c) w = WriteString c w"
| "exec (CWriteRaw c) w = WriteRaw c w"
| "exec CStartComment w = StartComment w"
| "exec CEndComment w = EndComment w"
| "exec (CWriteComment c) w = WriteComment c w"
| "exec (CStartPI t) w = StartPI t w"
| "exec CEndPI w = EndPI w"
| "exec (CWritePI t c) w = WritePI t c w"
| "exec CStartCDATA w = StartCDATA w"
| "exec CEndCDATA w = EndCDATA w"
| "exec (CWriteCDATA c) w = WriteCDATA c w"
| "exec (CStartDTD n p s) w = StartDTD n p s w"
| "exec CEndDTD w = EndDTD w"
| "exec (CWriteDTD n p s i) w = WriteDTD n p s i w"
| "exec (CWriteDTDElement n c) w = WriteDTDElement n c w"
| "exec (CWriteDTDAttlist n c) w = WriteDTDAttlist n c w"
| "exec (CWriteDTDEntity b n c) w = WriteDTDEntity b n c w"
| "exec (CWriteDTDExternalEntity b n p s d) w = WriteDTDExternalEntity b n p s d w"
| "exec (CWriteDTDNotation n p s) w = WriteDTDNotation n p s w"
| "exec CFlush w = Flush w"

text \<open>A program of calls; a failing call is followed by the next one, as a caller that
  ignores errors would do.\<close>

fun run :: "call list \<Rightarrow> 'o writer \<Rightarrow> 'o writer" where
  "run [] w = w"
| "run (c # cs) w = run cs (snd (exec c w))"

end
