(* ===== verification/StreamOut.thy ===== *)
theory StreamOut
  imports StreamOps
begin

text \<open>
  What the writer's primitives put on the output.  The destination is an interface: the locale
  \<open>reliable_sink\<close> says what the writer needs of an \<open>io.Writer\<close> that never fails, and the
  output of every primitive is computed once inside it.  \<open>bytes.Buffer\<close>, with and without its
  optional methods, provides it.

  \<open>escape_ref\<close> is the abstract form of \<open>writeEscaped\<close>, \<open>cdata_ref\<close> that of
  \<open>writeCDATAEscaped\<close>.
\<close>

subsection \<open>Fields the primitives leave alone\<close>

text \<open>A writer up to its output and its sticky error.\<close>

definition core :: "'o writer \<Rightarrow> 'o writer" where
  "core w = w\<lparr>out := None, err := None\<rparr>"

lemma core_fields:
  assumes "core w = core w'"
  shows "indent w = indent w'" "quoteChar w = quoteChar w'" "state w = state w'"
    "elemStack w = elemStack w'" "nsStack w = nsStack w'" "stateStack w = stateStack w'"
    "depth w = depth w'" "hasOutput w = hasOutput w'" "wroteNL w = wroteNL w'"
    "commentDash w = commentDash w'" "piQuestion w = piQuestion w'"
    "cdataBrackets w = cdataBrackets w'" "xml11 w = xml11 w'"
  using assms by (cases w; cases w'; simp add: core_def)+

lemma core_put_out [simp]: "core (put_out f w) = core w"
  by (simp add: put_out_def core_def split: option.split prod.split)

lemma core_ensureWritable: "core (snd (ensureWritable w)) = core w"
  by (simp add: ensureWritable_def core_def)

lemma core_writeStr [simp]: "core (writeStr s w) = core w"
  using core_ensureWritable[of w] by (simp add: writeStr_def case_prod_unfold Let_def)

lemma core_writeByte [simp]: "core (writeByte b w) = core w"
  using core_ensureWritable[of w] by (simp add: writeByte_def case_prod_unfold Let_def)

lemmas writeStr_fields [simp] = core_fields[OF core_writeStr]
lemmas writeByte_fields [simp] = core_fields[OF core_writeByte]

lemma core_writeDecimalCharRef [simp]: "core (writeDecimalCharRef r w) = core w"
  by (simp add: writeDecimalCharRef_def)

lemmas writeDecimalCharRef_fields [simp] = core_fields[OF core_writeDecimalCharRef]

text \<open>The loop one step at a time, with the flush of the pending slice named.\<close>

definition flush_slice :: "string \<Rightarrow> nat \<Rightarrow> nat \<Rightarrow> 'o writer \<Rightarrow> 'o writer" where
  "flush_slice s start i w = (if start < i then writeStr (str_slice s start i) w else w)"

lemma core_flush_slice [simp]: "core (flush_slice s start i w) = core w"
  by (simp add: flush_slice_def)

lemmas flush_slice_fields [simp] = core_fields[OF core_flush_slice]

definition charref_at :: "'o writer \<Rightarrow> string \<Rightarrow> nat \<Rightarrow> bool" where
  "charref_at w s i \<longleftrightarrow> xml11 w \<and> (byte (s ! i) < 0x20 \<or> byte (s ! i) \<ge> 0x7F)
     \<and> isXML11SerializeAsCharRef (fst (decode_rune (drop i s)))"

lemma loop_end: "length s \<le> i \<Longrightarrow> writeEscapedLoop m s i start w = (start, w)"
  by (simp add: writeEscapedLoop.simps)

lemma loop_replace:
  "i < length s \<Longrightarrow> escape_action m (quoteChar w) (s ! i) = Replace r \<Longrightarrow>
     writeEscapedLoop m s i start w
     = writeEscapedLoop m s (Suc i) (Suc i) (writeStr r (flush_slice s start i w))"
  by (subst writeEscapedLoop.simps) (simp add: flush_slice_def Let_def)

lemma loop_raw:
  "i < length s \<Longrightarrow> escape_action m (quoteChar w) (s ! i) = RawByte \<Longrightarrow>
     writeEscapedLoop m s i start w
     = writeEscapedLoop m s (Suc i) (Suc i) (writeByte (s ! i) (flush_slice s start i w))"
  by (subst writeEscapedLoop.simps) (simp add: flush_slice_def Let_def)

lemma loop_ref:
  "i < length s \<Longrightarrow> escape_action m (quoteChar w) (s ! i) = DefaultCase \<Longrightarrow> charref_at w s i \<Longrightarrow>
     decode_rune (drop i s) = (r, n) \<Longrightarrow>
     writeEscapedLoop m s i start w
     = writeEscapedLoop m s (Suc i) (i + n) (writeDecimalCharRef r (flush_slice s start i w))"
  by (subst writeEscapedLoop.simps) (simp add: flush_slice_def charref_at_def Let_def)

lemma loop_default:
  "i < length s \<Longrightarrow> escape_action m (quoteChar w) (s ! i) = DefaultCase \<Longrightarrow> \<not> charref_at w s i \<Longrightarrow>
     writeEscapedLoop m s i start w = writeEscapedLoop m s (Suc i) start w"
  by (subst writeEscapedLoop.simps) (auto simp: charref_at_def)

lemma core_writeEscapedLoop: "core (snd (writeEscapedLoop m s i start w)) = core w"
proof (induction "length s - i" arbitrary: i start w)
  case 0
  then show ?case by (simp add: loop_end)
next
  case (Suc k)
  then have i: "i < length s" and k: "k = length s - Suc i" by auto
  note IH = Suc(1)[OF k]
  obtain r n where d: "decode_rune (drop i s) = (r, n)" by fastforce
  show ?case
    by (cases "escape_action m (quoteChar w) (s ! i)"; cases "charref_at w s i")
      (simp_all add: loop_replace loop_raw loop_ref[OF _ _ _ d] loop_default i IH)
qed

lemma core_writeEscaped [simp]: "core (writeEscaped s m w) = core w"
  using core_ensureWritable[of w] core_writeEscapedLoop[of m s 0 0 "snd (ensureWritable w)"]
  by (simp add: writeEscaped_def Let_def case_prod_unfold)

lemmas writeEscaped_fields [simp] = core_fields[OF core_writeEscaped]

lemma core_writeTextEscaped [simp]: "core (writeTextEscaped s w) = core w"
  and core_writeAttrEscaped [simp]: "core (writeAttrEscaped s w) = core w"
  by (simp_all add: writeTextEscaped_def writeAttrEscaped_def)

lemmas writeTextEscaped_fields [simp] = core_fields[OF core_writeTextEscaped]
lemmas writeAttrEscaped_fields [simp] = core_fields[OF core_writeAttrEscaped]

lemma core_seqw: "(\<And>f w. f \<in> set fs \<Longrightarrow> core (f w) = core w) \<Longrightarrow> core (seqw fs w) = core w"
  by (induction fs arbitrary: w) auto

lemma core_emitNSDecl [simp]: "core (emitNSDecl ns w) = core w"
  by (simp add: emitNSDecl_def)

lemma core_writeQuoted [simp]: "core (writeQuoted s w) = core w"
  by (simp add: writeQuoted_def)

lemma core_writeQuotedID [simp]: "core (writeQuotedID s w) = core w"
  by (simp add: writeQuotedID_def Let_def)

lemmas writeQuoted_fields [simp] = core_fields[OF core_writeQuoted]
lemmas writeQuotedID_fields [simp] = core_fields[OF core_writeQuotedID]

lemma core_repeatw: "(\<And>w. core (f w) = core w) \<Longrightarrow> core (repeatw n f w) = core w"
  by (induction n arbitrary: w) (auto simp: repeatw_def funpow_swap1)

text \<open>A writer with a sticky error ignores writes.\<close>

lemma writeStr_err: "err w \<noteq> None \<Longrightarrow> writeStr s w = w"
  by (simp add: writeStr_def ensureWritable_def)

lemma writeByte_err: "err w \<noteq> None \<Longrightarrow> writeByte b w = w"
  by (simp add: writeByte_def ensureWritable_def)

lemma writeEscaped_err: "err w \<noteq> None \<Longrightarrow> writeEscaped s m w = w"
  by (simp add: writeEscaped_def ensureWritable_def)

subsection \<open>The abstract form of the escaper\<close>

text \<open>One left-to-right pass: the replacement of a special byte, the byte itself otherwise; in
  XML 1.1 output a character that may not stand literally becomes a decimal reference.\<close>

definition charref_here :: "bool \<Rightarrow> string \<Rightarrow> bool" where
  "charref_here x11 s \<longleftrightarrow> x11 \<and> isXML11SerializeAsCharRef (fst (decode_rune s))"

function escape_ref :: "escapeMode \<Rightarrow> char \<Rightarrow> bool \<Rightarrow> string \<Rightarrow> string" where
  "escape_ref m q x11 [] = []"
| "escape_ref m q x11 (c # t) =
     (case escape_action m q c of
        Replace r \<Rightarrow> r @ escape_ref m q x11 t
      | RawByte \<Rightarrow> c # escape_ref m q x11 t
      | DefaultCase \<Rightarrow>
          (if charref_here x11 (c # t)
           then decimal_char_ref (fst (decode_rune (c # t)))
                @ escape_ref m q x11 (drop (snd (decode_rune (c # t)) - 1) t)
           else c # escape_ref m q x11 t))"
  by pat_completeness auto
termination
  by (relation "measure (\<lambda>(m, q, x, s). length s)") auto

lemma charref_byte:
  "charref_here x (c # t) \<Longrightarrow> byte c < 0x20 \<or> byte c \<ge> 0x7F"
proof (cases "byte c < 0x7F")
  case True
  moreover assume "charref_here x (c # t)"
  ultimately show ?thesis
    by (auto simp: charref_here_def decode_rune_ascii isXML11SerializeAsCharRef_def isXML11RestrictedChar_def
        split: if_splits)
qed simp

lemma decode_rune_cont:
  "0x80 \<le> byte c \<Longrightarrow> byte c < 0xC2 \<Longrightarrow> decode_rune (c # t) = (rune_error, 1)"
  by (simp add: decode_rune.simps(2))

lemma decode_rune_tail_cont:
  assumes "decode_rune s = (r, n)" "0 < j" "j < n"
  shows "0x80 \<le> byte (s ! j) \<and> byte (s ! j) < 0xC2"
  using assms(1)
proof (cases rule: decode_rune_cases)
  case three with assms(2,3) show ?thesis by (auto simp: less_Suc_eq numeral_3_eq_3)
next
  case four
  with assms(2,3) have "j = 1 \<or> j = 2 \<or> j = 3" by auto
  with four show ?thesis by auto
qed (use assms(2,3) in \<open>auto simp: less_Suc_eq numeral_2_eq_2\<close>)

lemma neq_ascii: "128 \<le> byte c \<Longrightarrow> byte d < 128 \<Longrightarrow> c \<noteq> d"
  by auto

lemma escape_action_default: "128 \<le> byte c \<Longrightarrow> escape_action m q c = DefaultCase"
  using neq_ascii[of c "CHR ''&''"] neq_ascii[of c "CHR ''<''"] neq_ascii[of c "CHR ''>''"]
    neq_ascii[of c "CHR 0x0D"] neq_ascii[of c "CHR 0x22"] neq_ascii[of c "CHR 0x27"]
    neq_ascii[of c "CHR 0x0A"] neq_ascii[of c "CHR 0x09"]
  by (simp add: escape_action_def)

lemma not_charref_cont: "0x80 \<le> byte c \<Longrightarrow> byte c < 0xC2 \<Longrightarrow> \<not> charref_here x (c # t)"
  by (simp add: charref_here_def decode_rune_cont rune_error_def isXML11SerializeAsCharRef_def
      isXML11RestrictedChar_def)

subsection \<open>A destination that does not fail\<close>

text \<open>\<open>received k b\<close> reads: the destination \<open>k\<close> holds the bytes \<open>b\<close> and takes more.\<close>

locale reliable_sink =
  fixes received :: "'o sink \<Rightarrow> string \<Rightarrow> bool"
  assumes string_received:
      "received k b \<Longrightarrow> io_WriteString k s = (k', e) \<Longrightarrow> e = None \<and> received k' (b @ s)"
    and byte_received:
      "received k b \<Longrightarrow> io_WriteByte k c = (k', e) \<Longrightarrow> e = None \<and> received k' (b @ [c])"
    and flush_received:
      "received k b \<Longrightarrow> sk_flush k = Some f \<Longrightarrow> f (sk_state k) = (o', e) \<Longrightarrow>
         e = None \<and> received (k\<lparr>sk_state := o'\<rparr>) b"

text \<open>The writer has no error and its destination has received \<open>b\<close>.\<close>

definition written :: "('o sink \<Rightarrow> string \<Rightarrow> bool) \<Rightarrow> 'o writer \<Rightarrow> string \<Rightarrow> bool" where
  "written received w b \<longleftrightarrow> err w = None \<and> (\<exists>k. out w = Some k \<and> received k b)"

lemma written_err: "written R w b \<Longrightarrow> err w = None"
  by (simp add: written_def)

text \<open>Updates of the other fields do not matter.\<close>

lemma written_updates [simp]:
  "written R (w\<lparr>indent := a1\<rparr>) b = written R w b" "written R (w\<lparr>quoteChar := a2\<rparr>) b = written R w b"
  "written R (w\<lparr>state := a3\<rparr>) b = written R w b" "written R (w\<lparr>elemStack := a4\<rparr>) b = written R w b"
  "written R (w\<lparr>nsStack := a5\<rparr>) b = written R w b" "written R (w\<lparr>stateStack := a6\<rparr>) b = written R w b"
  "written R (w\<lparr>depth := a7\<rparr>) b = written R w b" "written R (w\<lparr>hasOutput := a8\<rparr>) b = written R w b"
  "written R (w\<lparr>wroteNL := a9\<rparr>) b = written R w b" "written R (w\<lparr>commentDash := a10\<rparr>) b = written R w b"
  "written R (w\<lparr>piQuestion := a11\<rparr>) b = written R w b" "written R (w\<lparr>cdataBrackets := a12\<rparr>) b = written R w b"
  "written R (w\<lparr>xml11 := a13\<rparr>) b = written R w b"
  by (simp_all add: written_def)

context reliable_sink
begin

lemma written_writeStr: "written received w b \<Longrightarrow> written received (writeStr s w) (b @ s)"
  by (auto simp: written_def writeStr_def ensureWritable_def put_out_def
      split: prod.split dest: string_received)

lemma written_writeByte: "written received w b \<Longrightarrow> written received (writeByte c w) (b @ [c])"
  by (auto simp: written_def writeByte_def ensureWritable_def put_out_def
      split: prod.split dest: byte_received)

lemma written_flush_slice:
  "written received w b \<Longrightarrow> written received (flush_slice s start i w) (b @ str_slice s start i)"
  by (auto simp: flush_slice_def str_slice_def intro: written_writeStr)

lemma written_writeDecimalCharRef:
  "written received w b \<Longrightarrow> written received (writeDecimalCharRef r w) (b @ decimal_char_ref r)"
  by (simp add: writeDecimalCharRef_def written_writeStr)

text \<open>The loop has output everything up to \<open>start\<close>; between the index and \<open>start\<close> there
  are only continuation bytes of a character already output.\<close>

lemma written_escaped_loop:
  assumes "written received w b" "m \<noteq> EscapeNone" "i \<le> length s" "start \<le> length s"
    "\<And>j. i \<le> j \<Longrightarrow> j < start \<Longrightarrow> 0x80 \<le> byte (s ! j) \<and> byte (s ! j) < 0xC2"
    "writeEscapedLoop m s i start w = (st', w')"
  shows "written received (if st' < length s then writeStr (drop st' s) w' else w')
     (b @ str_slice s start i @ escape_ref m (quoteChar w) (xml11 w) (drop (max i start) s))"
  using assms
proof (induction "length s - i" arbitrary: i start w b)
  case 0
  then have i: "i = length s" and st: "st' = start" "w' = w" by (auto simp: loop_end)
  then show ?case using 0
    by (auto simp: str_slice_def written_writeStr)
next
  case (Suc k)
  then have i: "i < length s" and k: "k = length s - Suc i" by auto
  let ?c = "s ! i"
  let ?e = "escape_ref m (quoteChar w) (xml11 w)"
  have dr: "drop i s = ?c # drop (Suc i) s" using i by (simp add: Cons_nth_drop_Suc)
  have at: "charref_at w s i \<longleftrightarrow> charref_here (xml11 w) (drop i s)"
    using charref_byte[of "xml11 w" ?c "drop (Suc i) s"] unfolding dr
    by (auto simp: charref_at_def charref_here_def dr)
  have fl: "written received (flush_slice s start i w) (b @ str_slice s start i)"
    by (rule written_flush_slice) (rule Suc.prems(1))
  have lead: "start \<le> i" if "\<not> (0x80 \<le> byte ?c \<and> byte ?c < 0xC2)"
    using Suc.prems(5)[of i] that by (meson le_refl linorder_not_le)
  show ?case
  proof (cases "escape_action m (quoteChar w) ?c")
    case (Replace r)
    then have le: "start \<le> i" using lead escape_action_default[of ?c m "quoteChar w"] by fastforce
    have "written received (if st' < length s then writeStr (drop st' s) w' else w')
       ((b @ str_slice s start i @ r) @ str_slice s (Suc i) (Suc i) @ ?e (drop (max (Suc i) (Suc i)) s))"
      by (rule Suc.hyps(1)[OF k, of "writeStr r (flush_slice s start i w)", simplified])
        (use Suc.prems written_writeStr[OF fl, of r] i Replace in \<open>auto simp: loop_replace\<close>)
    then show ?thesis using le Replace by (simp add: dr str_slice_def max_absorb1)
  next
    case RawByte
    then have le: "start \<le> i" using lead escape_action_default[of ?c m "quoteChar w"] by fastforce
    have "written received (if st' < length s then writeStr (drop st' s) w' else w')
       ((b @ str_slice s start i @ [?c]) @ str_slice s (Suc i) (Suc i) @ ?e (drop (max (Suc i) (Suc i)) s))"
      by (rule Suc.hyps(1)[OF k, of "writeByte ?c (flush_slice s start i w)", simplified])
        (use Suc.prems written_writeByte[OF fl, of ?c] i RawByte in \<open>auto simp: loop_raw\<close>)
    then show ?thesis using le RawByte by (simp add: dr str_slice_def max_absorb1)
  next
    case DefaultCase
    show ?thesis
    proof (cases "charref_at w s i")
      case True
      obtain r n where d: "decode_rune (drop i s) = (r, n)" by fastforce
      have n: "0 < n" "n \<le> length s - i"
        using decode_rune_width_pos[of "drop i s"] decode_rune_width_le[of "drop i s"] d i by auto
      have le: "start \<le> i" using lead not_charref_cont[of ?c] True at dr by metis
      have cont: "0x80 \<le> byte (s ! j) \<and> byte (s ! j) < 0xC2" if "Suc i \<le> j" "j < i + n" for j
        using decode_rune_tail_cont[OF d, of "j - i"] that i n by auto
      have "written received (if st' < length s then writeStr (drop st' s) w' else w')
         ((b @ str_slice s start i @ decimal_char_ref r) @ str_slice s (i + n) (Suc i)
           @ ?e (drop (max (Suc i) (i + n)) s))"
        by (rule Suc.hyps(1)[OF k, of "writeDecimalCharRef r (flush_slice s start i w)", simplified])
          (use Suc.prems written_writeDecimalCharRef[OF fl, of r] i n DefaultCase True d cont in \<open>auto simp: loop_ref\<close>)
      moreover have "drop (n - 1) (drop (Suc i) s) = drop (i + n) s" using n by (simp add: add.commute)
      ultimately show ?thesis using le DefaultCase True at d n
        by (simp add: dr str_slice_def max_absorb1 max_absorb2)
    next
      case False
      have "written received (if st' < length s then writeStr (drop st' s) w' else w')
         (b @ str_slice s start (Suc i) @ ?e (drop (max (Suc i) start) s))"
        by (rule Suc.hyps(1)[OF k, of w])
          (use Suc.prems i DefaultCase False in \<open>auto simp: loop_default\<close>)
      moreover have "str_slice s start (Suc i) @ ?e (drop (max (Suc i) start) s)
          = str_slice s start i @ ?e (drop (max i start) s)"
      proof (cases "start \<le> i")
        case True
        then have "str_slice s start (Suc i) = str_slice s start i @ [?c]"
          using i by (simp add: str_slice_def Suc_diff_le take_Suc_conv_app_nth)
        with True show ?thesis using DefaultCase False at by (simp add: dr max_absorb1)
      next
        case False
        then show ?thesis by (simp add: str_slice_def max_absorb2)
      qed
      ultimately show ?thesis by simp
    qed
  qed
qed

lemma written_writeEscaped:
  assumes "written received w b" "m \<noteq> EscapeNone"
  shows "written received (writeEscaped s m w) (b @ escape_ref m (quoteChar w) (xml11 w) s)"
proof -
  obtain st' w' where l: "writeEscapedLoop m s 0 0 w = (st', w')" by fastforce
  have "ensureWritable w = (True, w)"
    using assms(1) by (auto simp: ensureWritable_def written_def)
  then show ?thesis
    using written_escaped_loop[OF assms, of 0 s 0 st' w'] l assms(2)
    by (simp add: writeEscaped_def str_slice_def)
qed

end

subsection \<open>CDATA sections\<close>

text \<open>The abstract form of \<open>writeCDATAEscaped\<close>: \<open>n\<close> is the number of \<open>]\<close> just
  written in the section.\<close>

fun cdata_ref :: "nat \<Rightarrow> string \<Rightarrow> string" where
  "cdata_ref n [] = []"
| "cdata_ref n (c # t) =
     (if c = CHR ''>'' \<and> n \<ge> 2 then '']]><![CDATA['' @ c # cdata_ref 0 t
      else c # cdata_ref (if c = CHR '']'' then n + 1 else 0) t)"

fun brackets_after :: "nat \<Rightarrow> string \<Rightarrow> nat" where
  "brackets_after n [] = n"
| "brackets_after n (c # t) = brackets_after (if c = CHR '']'' then n + 1 else 0) t"

lemma brackets_after_append: "brackets_after n (s @ t) = brackets_after (brackets_after n s) t"
  by (induction s arbitrary: n) auto

lemma cdata_ref_append: "cdata_ref n (s @ t) = cdata_ref n s @ cdata_ref (brackets_after n s) t"
  by (induction s arbitrary: n) auto

lemma cdata_loop_end: "length s \<le> i \<Longrightarrow> writeCDATALoop s i start w = (start, w)"
  by (simp add: writeCDATALoop.simps)

lemma cdata_loop_split:
  "i < length s \<Longrightarrow> s ! i = CHR ''>'' \<Longrightarrow> 2 \<le> cdataBrackets w \<Longrightarrow>
     writeCDATALoop s i start w
     = writeCDATALoop s (Suc i) i
         ((writeStr '']]><![CDATA['' (flush_slice s start i w))\<lparr>cdataBrackets := 0\<rparr>)"
  by (subst writeCDATALoop.simps) (simp add: flush_slice_def Let_def)

lemma cdata_loop_skip:
  "i < length s \<Longrightarrow> \<not> (s ! i = CHR ''>'' \<and> 2 \<le> cdataBrackets w) \<Longrightarrow>
     writeCDATALoop s i start w
     = writeCDATALoop s (Suc i) start
         (w\<lparr>cdataBrackets := (if s ! i = CHR '']'' then cdataBrackets w + 1 else 0)\<rparr>)"
  by (subst writeCDATALoop.simps) (auto simp: Let_def)

lemma core_cdata: "core w = core w' \<Longrightarrow> core (w\<lparr>cdataBrackets := n\<rparr>) = core (w'\<lparr>cdataBrackets := n\<rparr>)"
  by (cases w; cases w'; simp add: core_def)

lemma core_writeCDATALoop:
  "\<exists>n. core (snd (writeCDATALoop s i start w)) = core (w\<lparr>cdataBrackets := n\<rparr>)"
proof (induction "length s - i" arbitrary: i start w)
  case 0
  then show ?case by (auto simp: cdata_loop_end intro: exI[of _ "cdataBrackets w"])
next
  case (Suc k)
  then have i: "i < length s" and k: "k = length s - Suc i" by auto
  show ?case
  proof (cases "s ! i = CHR ''>'' \<and> 2 \<le> cdataBrackets w")
    case True
    let ?w = "writeStr '']]><![CDATA['' (flush_slice s start i w)"
    obtain n where "core (snd (writeCDATALoop s (Suc i) i (?w\<lparr>cdataBrackets := 0\<rparr>))) = core (?w\<lparr>cdataBrackets := n\<rparr>)"
      using Suc(1)[OF k, of i "?w\<lparr>cdataBrackets := 0\<rparr>"] by auto
    moreover have "core (?w\<lparr>cdataBrackets := n\<rparr>) = core (w\<lparr>cdataBrackets := n\<rparr>)"
      by (rule core_cdata) simp
    ultimately show ?thesis using True i by (auto simp: cdata_loop_split)
  next
    case False
    then show ?thesis
      using Suc(1)[OF k, of start "w\<lparr>cdataBrackets := (if s ! i = CHR '']'' then cdataBrackets w + 1 else 0)\<rparr>"] i
      by (simp add: cdata_loop_skip)
  qed
qed

lemma core_writeCDATAEscaped: "\<exists>n. core (writeCDATAEscaped s w) = core (w\<lparr>cdataBrackets := n\<rparr>)"
  using core_writeCDATALoop[of s 0 0 w] by (simp add: writeCDATAEscaped_def Let_def case_prod_unfold)

context reliable_sink
begin

lemma written_cdata_loop:
  assumes "written received w b" "start \<le> i" "i \<le> length s"
    "writeCDATALoop s i start w = (st', w')"
  shows "written received (writeStr (drop st' s) w')
     (b @ str_slice s start i @ cdata_ref (cdataBrackets w) (drop i s))
     \<and> cdataBrackets w' = brackets_after (cdataBrackets w) (drop i s)"
  using assms
proof (induction "length s - i" arbitrary: i start w b)
  case 0
  then show ?case by (auto simp: cdata_loop_end str_slice_def written_writeStr)
next
  case (Suc k)
  then have i: "i < length s" and k: "k = length s - Suc i" by auto
  have dr: "drop i s = s ! i # drop (Suc i) s" using i by (simp add: Cons_nth_drop_Suc)
  show ?case
  proof (cases "s ! i = CHR ''>'' \<and> 2 \<le> cdataBrackets w")
    case True
    let ?w = "writeStr '']]><![CDATA['' (flush_slice s start i w)"
    have "written received (?w\<lparr>cdataBrackets := 0\<rparr>) ((b @ str_slice s start i) @ '']]><![CDATA['')"
      using written_writeStr[OF written_flush_slice[OF Suc.prems(1), of s start i]] by simp
    from Suc.hyps(1)[OF k this, of i] Suc.prems i True show ?thesis
      by (simp add: cdata_loop_split dr str_slice_def)
  next
    case False
    let ?w = "w\<lparr>cdataBrackets := (if s ! i = CHR '']'' then cdataBrackets w + 1 else 0)\<rparr>"
    have "written received ?w b"
      using Suc.prems(1) by simp
    moreover have "str_slice s start (Suc i) = str_slice s start i @ [s ! i]"
      using i Suc.prems(2) by (simp add: str_slice_def Suc_diff_le take_Suc_conv_app_nth)
    ultimately show ?thesis
      using Suc.hyps(1)[OF k, of ?w b start] Suc.prems i False by (auto simp: cdata_loop_skip dr)
  qed
qed

lemma written_writeCDATAEscaped:
  assumes "written received w b"
  shows "written received (writeCDATAEscaped s w) (b @ cdata_ref (cdataBrackets w) s)
     \<and> cdataBrackets (writeCDATAEscaped s w) = brackets_after (cdataBrackets w) s"
proof -
  obtain st' w' where l: "writeCDATALoop s 0 0 w = (st', w')" by fastforce
  show ?thesis
    using written_cdata_loop[OF assms, of 0 0 s st' w'] l
    by (simp add: writeCDATAEscaped_def str_slice_def)
qed

end

subsection \<open>Destinations\<close>

text \<open>\<open>bytes.Buffer\<close>: appends, never fails.  \<open>buffer True True b\<close> has its \<open>WriteString\<close>
  and \<open>WriteByte\<close> methods; \<open>buffer False False b\<close> is the same buffer behind a plain
  \<open>io.Writer\<close>.\<close>

definition buffer :: "bool \<Rightarrow> bool \<Rightarrow> string \<Rightarrow> string sink" where
  "buffer ws wb b =
     \<lparr>sk_state = b,
      sk_write = (\<lambda>b s. (b @ s, None)),
      sk_writeString = (if ws then Some (\<lambda>b s. (b @ s, None)) else None),
      sk_writeByte = (if wb then Some (\<lambda>b c. (b @ [c], None)) else None),
      sk_flush = None\<rparr>"

definition buffer_received :: "string sink \<Rightarrow> string \<Rightarrow> bool" where
  "buffer_received k b \<longleftrightarrow> (\<exists>ws wb. k = buffer ws wb b)"

lemma buffer_methods:
  "io_WriteString (buffer ws wb b) s = (buffer ws wb (b @ s), None)"
  "io_WriteByte (buffer ws wb b) c = (buffer ws wb (b @ [c]), None)"
  "sk_flush (buffer ws wb b) = None"
  by (simp_all add: buffer_def io_WriteString_def io_WriteByte_def)

interpretation buf: reliable_sink buffer_received
  by unfold_locales (fastforce simp: buffer_received_def buffer_methods)+

text \<open>A writer that buffers, in the way of \<open>bufio.Writer\<close>: the bytes delivered and the bytes held
  back, which go to the destination when more than \<open>n\<close> are pending and on \<open>Flush\<close>.\<close>

definition deliver :: "nat \<Rightarrow> string \<times> string \<Rightarrow> string \<Rightarrow> (string \<times> string) \<times> goerr option" where
  "deliver n st s =
     (let (d, p) = st in if length (p @ s) > n then ((d @ p @ s, []), None) else ((d, p @ s), None))"

definition buffered :: "nat \<Rightarrow> string \<times> string \<Rightarrow> (string \<times> string) sink" where
  "buffered n st =
     \<lparr>sk_state = st, sk_write = deliver n, sk_writeString = Some (deliver n),
      sk_writeByte = Some (\<lambda>st c. deliver n st [c]),
      sk_flush = Some (\<lambda>(d, p). ((d @ p, []), None))\<rparr>"

definition buffered_received :: "nat \<Rightarrow> (string \<times> string) sink \<Rightarrow> string \<Rightarrow> bool" where
  "buffered_received n k b \<longleftrightarrow> (\<exists>d p. k = buffered n (d, p) \<and> b = d @ p)"

lemma buffered_methods:
  "io_WriteString (buffered n st) s = (buffered n (fst (deliver n st s)), snd (deliver n st s))"
  "io_WriteByte (buffered n st) c = (buffered n (fst (deliver n st [c])), snd (deliver n st [c]))"
  "sk_flush (buffered n st) = Some (\<lambda>(d, p). ((d @ p, []), None))"
  "sk_state (buffered n st) = st" "(buffered n st)\<lparr>sk_state := st'\<rparr> = buffered n st'"
  by (simp_all add: buffered_def io_WriteString_def io_WriteByte_def case_prod_unfold Let_def)

interpretation bufio: reliable_sink "buffered_received n"
  by unfold_locales (fastforce simp: buffered_received_def buffered_methods deliver_def split: if_splits)+

definition written_bytes :: "string writer \<Rightarrow> string" where
  "written_bytes w = (case out w of Some k \<Rightarrow> sk_state k | None \<Rightarrow> '''')"

lemma written_buffer: "written buffer_received w b \<Longrightarrow> written_bytes w = b"
  by (auto simp: written_def buffer_received_def buffer_def written_bytes_def)

end
