(* ===== verification/StreamEscape.thy ===== *)
theory StreamEscape
  imports StreamOut
begin

text \<open>
  What the escaper guarantees, against a reader of XML character data.  \<open>read_chars\<close> follows the
  specification of XML 1.0 and 1.1: references, line-end and attribute-value normalization, the
  characters that may stand literally, the delimiters that end the text.  The writer's escaping is
  right when this reader gives the caller's string back.
\<close>

subsection \<open>A reader of character data\<close>

fun decimal_value :: "string \<Rightarrow> nat \<Rightarrow> nat option" where
  "decimal_value [] n = Some n"
| "decimal_value (c # s) n = (if ascii_digit c then decimal_value s (10 * n + (byte c - 48)) else None)"

definition xml_char :: "bool \<Rightarrow> nat \<Rightarrow> bool" where
  "xml_char x11 r = (if x11 then isXML11Char r else IsChar r)"

text \<open>The replacement text of the reference between \<open>&\<close> and \<open>;\<close>.\<close>

definition reference :: "bool \<Rightarrow> string \<Rightarrow> string option" where
  "reference x11 s =
     (if s = ''amp'' then Some ''&'' else if s = ''lt'' then Some ''<'' else if s = ''gt'' then Some ''>''
      else if s = ''quot'' then Some [CHR 0x22] else if s = ''apos'' then Some [CHR 0x27]
      else if has_prefix s ''#'' \<and> tl s \<noteq> '''' then
        (case decimal_value (tl s) 0 of None \<Rightarrow> None
         | Some r \<Rightarrow> if xml_char x11 r then Some (encode_rune r) else None)
      else None)"

text \<open>One literal character: its value after normalization and the bytes it takes.\<close>

definition literal :: "bool \<Rightarrow> bool \<Rightarrow> string \<Rightarrow> (string \<times> nat) option" where
  "literal x11 attr s =
     (let (r, n) = decode_rune s;
          ws = (if attr then '' '' else [CHR 0x0A])
      in if n = 0 \<or> (r, n) = (rune_error, 1) \<or> \<not> xml_char x11 r \<or> (x11 \<and> isXML11RestrictedChar r) then None
         else if r = 0x0D then
           Some (ws, if has_prefix (drop 1 s) [CHR 0x0A] then 2
                     else if x11 \<and> has_prefix (drop 1 s) [CHR 0xC2, CHR 0x85] then 3 else 1)
         else if r = 0x0A \<or> (x11 \<and> (r = 0x85 \<or> r = 0x2028)) then Some (ws, n)
         else if r = 0x09 \<and> attr then Some ('' '', n)
         else Some (take n s, n))"

function read_chars :: "bool \<Rightarrow> bool \<Rightarrow> char \<Rightarrow> string \<Rightarrow> string option" where
  "read_chars x11 attr q [] = Some []"
| "read_chars x11 attr q (c # t) =
     (if c = CHR ''&'' then
        (case str_cut t '';'' of None \<Rightarrow> None
         | Some (name, rest) \<Rightarrow>
             (case reference x11 name of None \<Rightarrow> None
              | Some v \<Rightarrow> map_option ((@) v) (read_chars x11 attr q rest)))
      else if c = CHR ''<'' \<or> (attr \<and> c = q) \<or> (\<not> attr \<and> has_prefix (c # t) '']]>'') then None
      else (case literal x11 attr (c # t) of None \<Rightarrow> None
         | Some (v, n) \<Rightarrow> map_option ((@) v) (read_chars x11 attr q (drop (n - 1) t))))"
  by pat_completeness auto
termination
  by (relation "measure (\<lambda>(x, a, q, s). length s)") (auto dest: str_cut_Some)

subsection \<open>Decimal references\<close>

lemma decimal_digits_append: "decimal_digits v (acc @ rest) = decimal_digits v acc @ rest"
proof (induction v arbitrary: acc rule: less_induct)
  case (less v)
  show ?case
    using less[of "v div 10" "char_of (48 + v mod 10) # acc"]
    by (subst (1 2) decimal_digits.simps) simp
qed

lemma decimal_digits_end: "decimal_digits v acc = decimal_digits v [] @ acc"
  using decimal_digits_append[of v "[]" acc] by simp

lemma decimal_value_append:
  "decimal_value (s @ t) n = (case decimal_value s n of None \<Rightarrow> None | Some m \<Rightarrow> decimal_value t m)"
  by (induction s arbitrary: n) auto

lemma decimal_digits_step:
  "0 < v \<Longrightarrow> decimal_digits v [] = decimal_digits (v div 10) [] @ [char_of (48 + v mod 10)]"
  by (subst decimal_digits.simps) (simp add: decimal_digits_end[of _ "[_]"])

lemma decimal_digits_zero: "decimal_digits 0 [] = []"
  by (simp add: decimal_digits.simps)

lemma digit_char: "d < 10 \<Longrightarrow> byte (char_of (48 + d)) = 48 + (d::nat)"
  by simp

lemma decimal_value_digits: "decimal_value (decimal_digits v []) 0 = Some v"
proof (induction v rule: less_induct)
  case (less v)
  have "v mod 10 < 10" by simp
  with less[of "v div 10"] show ?case
    by (cases "v = 0") (auto simp: decimal_digits_step decimal_value_append ascii_digit_def
        decimal_digits_zero digit_char)
qed

lemma decimal_digits_digit: "c \<in> set (decimal_digits v []) \<Longrightarrow> ascii_digit c"
proof (induction v rule: less_induct)
  case (less v)
  have "v mod 10 < 10" by simp
  with less(1)[of "v div 10"] less(2) show ?case
    by (cases "v = 0") (auto simp: decimal_digits_step ascii_digit_def decimal_digits_zero digit_char)
qed

lemma decimal_char_ref_eq:
  "0 < r \<Longrightarrow> decimal_char_ref r = ''&#'' @ decimal_digits r [] @ '';''"
  by (simp add: decimal_char_ref_def decimal_digits_end[of r "CHR '';'' # []"])

lemma decimal_digits_not_Nil: "0 < v \<Longrightarrow> decimal_digits v [] \<noteq> []"
  by (simp add: decimal_digits_step)

lemma reference_decimal:
  "0 < r \<Longrightarrow> xml_char x r \<Longrightarrow> reference x (CHR ''#'' # decimal_digits r []) = Some (encode_rune r)"
  by (simp add: reference_def decimal_value_digits decimal_digits_not_Nil)

lemma read_reference:
  "CHR '';'' \<notin> set n \<Longrightarrow> reference x n = Some v \<Longrightarrow>
     read_chars x a q (CHR ''&'' # n @ CHR '';'' # rest) = map_option ((@) v) (read_chars x a q rest)"
  by (simp add: str_cut_append)

lemma read_decimal:
  "0 < r \<Longrightarrow> xml_char x r \<Longrightarrow>
     read_chars x a q (decimal_char_ref r @ rest) = map_option ((@) (encode_rune r)) (read_chars x a q rest)"
  using read_reference[of "CHR ''#'' # decimal_digits r []" x "encode_rune r" a q rest]
    reference_decimal decimal_digits_digit[of "CHR '';''" r]
  by (auto simp: decimal_char_ref_eq ascii_digit_def)

subsection \<open>The escaped text\<close>

lemma escape_cases:
  assumes "m \<noteq> EscapeNone"
  obtains (named) n where "escape_action m q c = Replace (CHR ''&'' # n @ '';'')" "CHR '';'' \<notin> set n"
      "reference x n = Some [c]" "set n \<inter> {CHR ''<'', CHR ''>'', CHR 0x22, CHR 0x27} = {}"
      "byte c < 128"
  | (raw) "escape_action m q c = RawByte" "c \<in> {CHR 0x22, CHR 0x27, CHR 0x0A, CHR 0x09}"
      "m = EscapeAttr \<longrightarrow> c \<notin> {CHR 0x0A, CHR 0x09} \<and> c \<noteq> q"
  | (dflt) "escape_action m q c = DefaultCase"
      "c \<notin> {CHR ''&'', CHR ''<'', CHR ''>'', CHR 0x0D, CHR 0x22, CHR 0x27, CHR 0x0A, CHR 0x09}"
proof -
  have ref: "reference x ''#13'' = Some [CHR 0x0D]" "reference x ''#10'' = Some [CHR 0x0A]"
    "reference x ''#9'' = Some [CHR 0x09]"
    by (simp_all add: reference_def ascii_digit_def xml_char_def isXML11Char_def IsChar_def encode_rune_def
        char_of_eqI)
  note defs = escape_action_def reference_def
  consider "c = CHR ''&''" | "c = CHR ''<''" | "c = CHR ''>''" | "c = CHR 0x0D" | "c = CHR 0x22"
    | "c = CHR 0x27" | "c = CHR 0x0A" | "c = CHR 0x09"
    | "c \<notin> {CHR ''&'', CHR ''<'', CHR ''>'', CHR 0x0D, CHR 0x22, CHR 0x27, CHR 0x0A, CHR 0x09}"
    by auto
  then show thesis
  proof cases
    case 1 then show ?thesis by (intro named[of "''amp''"]) (simp_all add: defs)
  next
    case 2 then show ?thesis by (intro named[of "''lt''"]) (simp_all add: defs)
  next
    case 3 then show ?thesis by (intro named[of "''gt''"]) (simp_all add: defs)
  next
    case 4 then show ?thesis using ref by (intro named[of "''#13''"]) (simp_all add: escape_action_def)
  next
    case 5
    show ?thesis
    proof (cases "m = EscapeAttr \<and> q = CHR 0x22")
      case True with 5 show ?thesis using ref by (intro named[of "''quot''"]) (simp_all add: defs)
    next
      case False with 5 show ?thesis by (intro raw) (auto simp: defs)
    qed
  next
    case 6
    show ?thesis
    proof (cases "m = EscapeAttr \<and> q = CHR 0x27")
      case True with 6 show ?thesis using ref by (intro named[of "''apos''"]) (simp_all add: defs)
    next
      case False with 6 show ?thesis by (intro raw) (auto simp: defs)
    qed
  next
    case 7
    show ?thesis
    proof (cases "m = EscapeAttr")
      case True with 7 show ?thesis using ref by (intro named[of "''#10''"]) (simp_all add: escape_action_def)
    next
      case False with 7 show ?thesis by (intro raw) (auto simp: defs)
    qed
  next
    case 8
    show ?thesis
    proof (cases "m = EscapeAttr")
      case True with 8 show ?thesis using ref by (intro named[of "''#9''"]) (simp_all add: escape_action_def)
    next
      case False with 8 show ?thesis by (intro raw) (auto simp: defs)
    qed
  next
    case 9 then show ?thesis by (intro dflt) (simp_all add: escape_action_def)
  qed
qed

text \<open>A character of more than one byte is escaped as a whole.\<close>

lemma escape_ref_cont:
  "(\<And>c. c \<in> set u \<Longrightarrow> 0x80 \<le> byte c \<and> byte c < 0xC2) \<Longrightarrow>
     escape_ref m q x (u @ t) = u @ escape_ref m q x t"
proof (induction u)
  case (Cons c u)
  then have "0x80 \<le> byte c" "byte c < 0xC2" by auto
  with Cons show ?case
    by (simp add: escape_action_default not_charref_cont del: decode_rune.simps)
qed simp

lemma decode_rune_tail_set:
  assumes "decode_rune s = (r, n)" "c \<in> set (drop 1 (take n s))"
  shows "0x80 \<le> byte c \<and> byte c < 0xC2"
proof -
  obtain j where j: "j < length (drop 1 (take n s))" "c = drop 1 (take n s) ! j"
    using assms(2) by (metis in_set_conv_nth)
  then have "j + 1 < n" by auto
  then show ?thesis using decode_rune_tail_cont[OF assms(1), of "j + 1"] j by simp
qed

lemma escape_ref_rune:
  assumes d: "decode_rune (c # t) = (r, n)" and a: "escape_action m q c = DefaultCase"
  shows "escape_ref m q x (c # t) =
     (if x \<and> isXML11SerializeAsCharRef r then decimal_char_ref r else take n (c # t))
       @ escape_ref m q x (drop n (c # t))"
proof -
  have n: "0 < n" using decode_rune_width_pos[of "c # t"] d by simp
  then obtain k where k: "n = Suc k" by (cases n) auto
  have "escape_ref m q x (take k t @ drop k t) = take k t @ escape_ref m q x (drop k t)"
    by (rule escape_ref_cont) (use decode_rune_tail_set[OF d] k in auto)
  then show ?thesis using a d k by (simp add: charref_here_def del: decode_rune.simps)
qed

text \<open>No markup character is left, nor the delimiter of an attribute value.\<close>

lemma decimal_char_ref_safe:
  "c \<in> set (decimal_char_ref r) \<Longrightarrow> c \<noteq> CHR ''<'' \<and> c \<noteq> CHR ''>'' \<and> c \<noteq> CHR 0x22 \<and> c \<noteq> CHR 0x27"
  using decimal_digits_digit[of c r]
  by (cases "r = 0") (auto simp: decimal_char_ref_eq decimal_char_ref_def decimal_digits_zero
      decimal_digits_end[of _ "_ # _"] ascii_digit_def)

lemma escape_ref_safe:
  assumes "m \<noteq> EscapeNone" "c \<in> set (escape_ref m q x s)"
  shows "c \<noteq> CHR ''<'' \<and> c \<noteq> CHR ''>'' \<and> (m = EscapeAttr \<and> q \<in> {CHR 0x22, CHR 0x27} \<longrightarrow> c \<noteq> q)"
  using assms
proof (induction m q x s rule: escape_ref.induct)
  case (2 m q x d t)
  from 2(5) show ?case
  proof (cases rule: escape_cases[of m q d x])
    case (named n)
    with 2 show ?thesis by auto
  next
    case raw
    with 2 show ?thesis by auto
  next
    case dflt
    with 2 show ?thesis using decimal_char_ref_safe[of c] by (auto split: if_splits simp del: decode_rune.simps)
  qed
qed simp

subsection \<open>The round trip\<close>

lemma literal_plain:
  assumes "decode_rune s = (r, n)" "s \<noteq> []" "(r, n) \<noteq> (rune_error, 1)" "xml_char x r"
    "\<not> (x \<and> isXML11SerializeAsCharRef r)" "r \<notin> {0x0D, 0x0A, 0x09}"
  shows "literal x a s = Some (take n s, n)"
  using assms decode_rune_width_pos[of s]
  by (auto simp: literal_def isXML11SerializeAsCharRef_def)

lemma read_literal:
  assumes "c \<noteq> CHR ''&''" "c \<noteq> CHR ''<''" "a \<longrightarrow> c \<noteq> q" "CHR ''>'' \<notin> set t"
    "literal x a (c # t) = Some (v, n)" "0 < n"
  shows "read_chars x a q (c # t) = map_option ((@) v) (read_chars x a q (drop n (c # t)))"
proof -
  have "\<not> has_prefix (c # t) '']]>''" using assms(4) by (auto simp: has_prefix_iff)
  moreover have "drop n (c # t) = drop (n - 1) t" using assms(6) by (cases n) auto
  ultimately show ?thesis using assms by auto
qed

lemma literal_raw:
  "c \<in> {CHR 0x22, CHR 0x27} \<or> c \<in> {CHR 0x0A, CHR 0x09} \<and> \<not> a \<Longrightarrow> literal x a (c # t) = Some ([c], 1)"
  by (auto simp: literal_def decode_rune_ascii rune_error_def xml_char_def IsChar_def isXML11Char_def
      isXML11RestrictedChar_def)

lemma read_escape:
  assumes "m \<noteq> EscapeNone" "valid_utf8 s" "list_all (xml_char x) (runes s)" "q \<in> {CHR 0x22, CHR 0x27}"
  shows "read_chars x (m = EscapeAttr) q (escape_ref m q x s) = Some s"
  using assms(2,3)
proof (induction s rule: length_induct)
  case (1 s)
  show ?case
  proof (cases s)
    case (Cons c t)
    obtain r n where d: "decode_rune (c # t) = (r, n)" by fastforce
    have v: "(r, n) \<noteq> (rune_error, 1)" "valid_utf8 (drop n (c # t))" "xml_char x r"
      "list_all (xml_char x) (runes (drop n (c # t)))"
      using 1(2,3) Cons valid_utf8_step[OF d] runes_step[OF d] by auto
    let ?e = "escape_ref m q x" and ?read = "read_chars x (m = EscapeAttr) q"
    have IH: "?read (?e (drop n (c # t))) = Some (drop n (c # t))"
      using 1(1) v decode_rune_drop_less[of "c # t"] d Cons by (metis list.simps(3))
    have gt: "CHR ''>'' \<notin> set (?e u)" for u using escape_ref_safe[OF assms(1)] by metis
    from assms(1) show ?thesis
    proof (cases rule: escape_cases[of m q c x])
      case (named k)
      then have "n = 1" using d by (simp add: decode_rune_ascii)
      with named IH Cons read_reference[of k x "[c]" "m = EscapeAttr" q "?e t"]
      show ?thesis by simp
    next
      case raw
      then have "n = 1" using d by (auto simp: decode_rune_ascii)
      then have IH': "?read (?e t) = Some t" using IH by simp
      have "literal x (m = EscapeAttr) (c # ?e t) = Some ([c], 1)"
        by (rule literal_raw) (use raw in auto)
      then have "?read (c # ?e t) = map_option ((@) [c]) (?read (drop 1 (c # ?e t)))"
        by (intro read_literal) (use raw gt in auto)
      with raw(1) IH' Cons show ?thesis by simp
    next
      case dflt
      note esc = escape_ref_rune[OF d dflt(1), of x]
      show ?thesis
      proof (cases "x \<and> isXML11SerializeAsCharRef r")
        case True
        then have "0 < r" by (cases "r = 0") (auto simp: isXML11SerializeAsCharRef_def isXML11RestrictedChar_def)
        with True IH v(3) Cons esc read_decimal[of r x "m = EscapeAttr" q "?e (drop n (c # t))"]
          encode_decode[OF d v(1)] show ?thesis by simp
      next
        case False
        have n: "0 < n" "n \<le> length (c # t)" using decode_rune_width_pos[of "c # t"]
          decode_rune_width_le[of "c # t"] d by auto
        then obtain k where k: "n = Suc k" by (cases n) auto
        let ?u = "take k t @ ?e (drop k t)"
        have u: "?e (c # t) = c # ?u" using esc False k by simp
        have d': "decode_rune (c # ?u) = (r, n)"
          using decode_rune_prefix[OF d v(1), of "?e (drop k t)"] k by simp
        have "r \<notin> {0x0D, 0x0A, 0x09}"
        proof
          assume "r \<in> {0x0D, 0x0A, 0x09}"
          then have "byte c = r" using decode_rune_small[of c t] d by auto
          with dflt(2) \<open>r \<in> {0x0D, 0x0A, 0x09}\<close> show False
            by (auto simp: byte_inject[symmetric] simp del: byte_inject)
        qed
        then have "literal x (m = EscapeAttr) (c # ?u) = Some (take n (c # ?u), n)"
          using d' v False by (intro literal_plain) auto
        then have "?read (c # ?u) = map_option ((@) (take n (c # ?u))) (?read (drop n (c # ?u)))"
          by (intro read_literal) (use dflt(2) gt[of "c # t"] u n assms(4) in auto)
        then show ?thesis using Cons u IH k n by simp
      qed
    qed
  qed simp
qed

subsection \<open>Text and attribute values through the writer\<close>

lemma first_bad_None: "first_bad ok rs = None \<longleftrightarrow> list_all ok rs"
  by (induction rs) auto

lemma validateXMLChars_None: "validateXMLChars k s = None \<longleftrightarrow> valid_utf8 s \<and> list_all IsChar (runes s)"
  by (simp add: validateXMLChars_def first_bad_None split: option.split)
    (metis first_bad_None option.distinct(1))

lemma validateContentChars_None:
  "validateContentChars k s w = None \<longleftrightarrow> valid_utf8 s \<and> list_all (xml_char (xml11 w)) (runes s)"
proof (cases "xml11 w")
  case True
  then have x: "xml_char (xml11 w) = isXML11Char" by (simp add: xml_char_def fun_eq_iff)
  show ?thesis unfolding x using True
    by (auto simp: validateContentChars_def first_bad_None[symmetric] split: option.split)
next
  case False
  then have x: "xml_char (xml11 w) = IsChar" by (simp add: xml_char_def fun_eq_iff)
  show ?thesis unfolding x using False by (simp add: validateContentChars_def validateXMLChars_None)
qed

lemma try_then_None: "try_then r k = (None, w') \<Longrightarrow> fst r = None \<and> k (snd r) = (None, w')"
  by (auto simp: try_then_def split: prod.splits option.splits)

lemma finish_None: "finish w = (None, w') \<longleftrightarrow> w' = w \<and> err w = None"
  by (auto simp: finish_def)

context reliable_sink
begin

lemma written_WriteString:
  assumes "written received w b" "state w \<in> {StateText, StateAttribute}"
    "validateContentChars k s w = None"
  shows "\<exists>w'. WriteString s w = (None, w') \<and>
     written received w' (b @ escape_ref (if state w = StateText then EscapeText else EscapeAttr)
       (quoteChar w) (xml11 w) s)"
proof -
  have v: "validateContentChars k' s w = None" for k'
    using assms(3) by (simp add: validateContentChars_None)
  have m: "written received (markText w) b" "quoteChar (markText w) = quoteChar w"
    "xml11 (markText w) = xml11 w"
    using assms(1) by (simp_all add: markText_def)
  show ?thesis
    using assms(1,2) written_writeEscaped[OF m(1), of EscapeText s] written_writeEscaped[OF assms(1), of EscapeAttr s] m v
    by (auto simp: WriteString_def written_err try_then_def finish_def writeTextEscaped_def
        writeAttrEscaped_def)
qed

end

text \<open>C1: text and attribute values survive.  Whatever string \<open>WriteString\<close> accepts as text or as
  an attribute value, an XML 1.0 or 1.1 reader of the bytes it appends gets the string back, and
  those bytes contain no markup delimiter and, in an attribute value, no closing quote.\<close>

theorem WriteString_roundtrip:
  assumes "out w = Some (buffer ws wb b)" "quoteChar w \<in> {CHR 0x22, CHR 0x27}"
    "state w \<in> {StateText, StateAttribute}" "WriteString s w = (None, w')"
  shows "\<exists>e. written_bytes w' = b @ e
     \<and> CHR ''<'' \<notin> set e \<and> CHR ''>'' \<notin> set e \<and> (state w = StateAttribute \<longrightarrow> quoteChar w \<notin> set e)
     \<and> read_chars (xml11 w) (state w = StateAttribute) (quoteChar w) e = Some s"
proof -
  let ?m = "if state w = StateText then EscapeText else EscapeAttr"
  let ?e = "escape_ref ?m (quoteChar w) (xml11 w) s"
  have err: "err w = None" using assms(4) by (auto simp: WriteString_def finish_def split: if_splits)
  then have w: "written buffer_received w b" using assms(1) by (auto simp: written_def buffer_received_def)
  have v: "validateContentChars ''text'' s w = None"
    using assms(3,4) err by (auto simp: WriteString_def validateContentChars_None dest!: try_then_None)
  have "written_bytes w' = b @ ?e"
    using buf.written_WriteString[OF w assms(3) v] assms(4) by (auto intro: written_buffer)
  moreover have "read_chars (xml11 w) (state w = StateAttribute) (quoteChar w) ?e = Some s"
    using read_escape[of ?m s "xml11 w" "quoteChar w"] v assms(2,3)
    by (auto simp: validateContentChars_None)
  moreover have "CHR ''<'' \<notin> set ?e" "CHR ''>'' \<notin> set ?e"
    "state w = StateAttribute \<longrightarrow> quoteChar w \<notin> set ?e"
    using escape_ref_safe[of ?m "CHR ''<''" "quoteChar w" "xml11 w" s]
      escape_ref_safe[of ?m "CHR ''>''" "quoteChar w" "xml11 w" s]
      escape_ref_safe[of ?m "quoteChar w" "quoteChar w" "xml11 w" s] assms(2,3) by (auto split: if_splits)
  ultimately show ?thesis by blast
qed

definition sample_writer :: "writerState \<Rightarrow> string writer" where
  "sample_writer st = (NewWriter (Some (buffer True True ''<a>'')))\<lparr>state := st, xml11 := True\<rparr>"

theorem WriteString_roundtrip_witness:
  "\<exists>w' e. WriteString ''x < & y'' (sample_writer StateText) = (None, w') \<and> written_bytes w' = ''<a>'' @ e
     \<and> read_chars True False CHR 0x22 e = Some ''x < & y''"
proof -
  let ?w = "sample_writer StateText"
  have "written buffer_received ?w ''<a>''" "validateContentChars ''text'' ''x < & y'' ?w = None"
    by (auto simp: sample_writer_def NewWriter_def written_def buffer_received_def
        validateContentChars_None xml_char_def isXML11Char_def)
  then obtain w' where "WriteString ''x < & y'' ?w = (None, w')"
    using buf.written_WriteString[of ?w "''<a>''"] by (auto simp: sample_writer_def)
  then show ?thesis
    using WriteString_roundtrip[of ?w True True "''<a>''" "''x < & y''" w']
    by (auto simp: sample_writer_def NewWriter_def)
qed

end
