(* ===== verification/StreamState.thy ===== *)
theory StreamState
  imports StreamEscape
begin

text \<open>
  The states a writer can be in.  \<open>well_formed\<close> ties the state machine, the element, namespace
  and state stacks together; \<open>reachable\<close> is the set of writers a caller can produce from
  \<open>NewWriter\<close> by any calls in any order, with any destination and any write errors, and every
  such writer is well formed.  The last part says that a writer with an error ignores every call.
\<close>

subsection \<open>Well-formed writers\<close>

text \<open>The state, the saved states and whether an element is open.  In an attribute, comment,
  processing instruction or CDATA section the state to return to is on the stack.\<close>

definition ctl_ok :: "writerState \<Rightarrow> writerState list \<Rightarrow> bool \<Rightarrow> bool" where
  "ctl_ok st stk opn =
     (case st of
        StateName \<Rightarrow> opn
      | StateText \<Rightarrow> opn
      | StateAttribute \<Rightarrow> opn \<and> stk \<noteq> [] \<and> hd stk = StateName
      | StateCDATA \<Rightarrow> opn \<and> stk \<noteq> [] \<and> hd stk = StateText
      | StateNone \<Rightarrow> \<not> opn
      | StateDocument \<Rightarrow> \<not> opn
      | StateDTD \<Rightarrow> \<not> opn
      | StateDTDText \<Rightarrow> \<not> opn
      | _ \<Rightarrow> stk \<noteq> [] \<and> (if opn then hd stk = StateText else hd stk \<in> {StateNone, StateDocument}))"

definition scope_ok :: "nsScope \<Rightarrow> bool" where
  "scope_ok sc \<longleftrightarrow> emitted sc \<le> length (decls sc) \<and> distinct (map ne_prefix (decls sc))"

definition well_formed :: "'o writer \<Rightarrow> bool" where
  "well_formed w \<longleftrightarrow>
     length (nsStack w) = length (elemStack w) \<and> depth w = int (length (elemStack w)) \<and>
     ctl_ok (state w) (stateStack w) (elemStack w \<noteq> []) \<and>
     list_all (\<lambda>e. IsValidQName (ee_name e)) (elemStack w) \<and>
     list_all scope_ok (nsStack w) \<and>
     quoteChar w \<in> {CHR 0x22, CHR 0x27} \<and> (elemStack w \<noteq> [] \<longrightarrow> hasOutput w)"

lemma well_formed_core: assumes "core w = core w'" shows "well_formed w = well_formed w'"
  by (simp add: well_formed_def core_fields[OF assms])

lemma well_formed_write [simp]:
  "well_formed (writeStr s w) = well_formed w" "well_formed (writeByte c w) = well_formed w"
  "well_formed (writeEscaped s m w) = well_formed w" "well_formed (writeTextEscaped s w) = well_formed w"
  "well_formed (writeAttrEscaped s w) = well_formed w" "well_formed (writeQuoted s w) = well_formed w"
  "well_formed (writeQuotedID s w) = well_formed w"
  by (rule well_formed_core; simp)+

lemma well_formed_irrelevant [simp]:
  "well_formed (w\<lparr>out := a\<rparr>) = well_formed w" "well_formed (w\<lparr>err := b\<rparr>) = well_formed w"
  "well_formed (w\<lparr>indent := c\<rparr>) = well_formed w" "well_formed (w\<lparr>wroteNL := d\<rparr>) = well_formed w"
  "well_formed (w\<lparr>commentDash := e\<rparr>) = well_formed w" "well_formed (w\<lparr>piQuestion := f\<rparr>) = well_formed w"
  "well_formed (w\<lparr>cdataBrackets := g\<rparr>) = well_formed w" "well_formed (w\<lparr>xml11 := h\<rparr>) = well_formed w"
  by (simp_all add: well_formed_def)

lemma map_top_Nil [simp]: "map_top f xs = [] \<longleftrightarrow> xs = []"
  by (cases xs) (auto simp: map_top_def)

lemma length_map_top [simp]: "length (map_top f xs) = length xs"
  by (cases xs) (auto simp: map_top_def)

lemma list_all_map_top: "(\<And>x. P x \<Longrightarrow> P (f x)) \<Longrightarrow> list_all P xs \<Longrightarrow> list_all P (map_top f xs)"
  by (cases xs) (auto simp: map_top_def)

text \<open>Updates of the entry on top of the element stack that keep its name.\<close>

lemma well_formed_map_elem:
  "(\<And>e. ee_name (f e) = ee_name e) \<Longrightarrow> well_formed w \<Longrightarrow> well_formed (w\<lparr>elemStack := map_top f (elemStack w)\<rparr>)"
  by (auto simp: well_formed_def intro: list_all_map_top)

lemma well_formed_mark [simp]:
  "well_formed w \<Longrightarrow> well_formed (markParentChild w)" "well_formed w \<Longrightarrow> well_formed (markText w)"
  by (auto simp: markParentChild_def markText_def intro!: well_formed_map_elem)

lemma mark_fields [simp]:
  "state (markParentChild w) = state w" "stateStack (markParentChild w) = stateStack w"
  "state (markText w) = state w" "stateStack (markText w) = stateStack w"
  "nsStack (markParentChild w) = nsStack w" "nsStack (markText w) = nsStack w"
  "err (markParentChild w) = err w" "err (markText w) = err w"
  "out (markParentChild w) = out w" "out (markText w) = out w"
  "indent (markParentChild w) = indent w" "indent (markText w) = indent w"
  "quoteChar (markParentChild w) = quoteChar w" "quoteChar (markText w) = quoteChar w"
  "xml11 (markParentChild w) = xml11 w" "xml11 (markText w) = xml11 w"
  "depth (markParentChild w) = depth w" "depth (markText w) = depth w"
  "hasOutput (markParentChild w) = hasOutput w" "hasOutput (markText w) = hasOutput w"
  "wroteNL (markParentChild w) = wroteNL w" "wroteNL (markText w) = wroteNL w"
  by (simp_all add: markParentChild_def markText_def)

text \<open>\<open>writeIndent\<close> and \<open>writeEndIndent\<close> change only \<open>wroteNL\<close> and the output.\<close>

lemma core_wroteNL: "core w = core w' \<Longrightarrow> core (w\<lparr>wroteNL := a\<rparr>) = core (w'\<lparr>wroteNL := a\<rparr>)"
  by (cases w; cases w'; simp add: core_def)

lemma core_indents:
  "\<exists>a. core (writeIndent w) = core (w\<lparr>wroteNL := a\<rparr>)" "\<exists>a. core (writeEndIndent w) = core (w\<lparr>wroteNL := a\<rparr>)"
proof -
  have w: "\<exists>a. core w = core (w\<lparr>wroteNL := a\<rparr>)" by (rule exI[of _ "wroteNL w"]) simp
  have s: "core (writeStr s w) = core (w\<lparr>wroteNL := wroteNL w\<rparr>)" for s by simp
  show "\<exists>a. core (writeIndent w) = core (w\<lparr>wroteNL := a\<rparr>)"
    "\<exists>a. core (writeEndIndent w) = core (w\<lparr>wroteNL := a\<rparr>)"
    using w s by (auto simp: writeIndent_def writeEndIndent_def core_repeatw Let_def)
qed

lemma indents_fields:
  assumes "f \<in> {writeIndent, writeEndIndent}"
  shows "state (f w) = state w" "stateStack (f w) = stateStack w" "elemStack (f w) = elemStack w"
    "nsStack (f w) = nsStack w" "depth (f w) = depth w" "hasOutput (f w) = hasOutput w"
    "quoteChar (f w) = quoteChar w" "indent (f w) = indent w" "xml11 (f w) = xml11 w"
proof -
  obtain a where a: "core (f w) = core (w\<lparr>wroteNL := a\<rparr>)" using core_indents[of w] assms by auto
  show "state (f w) = state w" "stateStack (f w) = stateStack w" "elemStack (f w) = elemStack w"
    "nsStack (f w) = nsStack w" "depth (f w) = depth w" "hasOutput (f w) = hasOutput w"
    "quoteChar (f w) = quoteChar w" "indent (f w) = indent w" "xml11 (f w) = xml11 w"
    by (simp_all add: core_fields[OF a])
qed

lemmas writeIndent_fields [simp] = indents_fields[of writeIndent, OF insertI1]
lemmas writeEndIndent_fields [simp] = indents_fields[of writeEndIndent, OF insertI2[OF insertI1]]

lemma writeTrailingNL_fields [simp]:
  "state (writeTrailingNL w) = state w" "stateStack (writeTrailingNL w) = stateStack w"
  "elemStack (writeTrailingNL w) = elemStack w" "nsStack (writeTrailingNL w) = nsStack w"
  "well_formed (writeTrailingNL w) = well_formed w"
  by (cases "indent w = ''''"; simp add: writeTrailingNL_def)+

lemma well_formed_indents [simp]:
  "well_formed (writeIndent w) = well_formed w" "well_formed (writeEndIndent w) = well_formed w"
proof -
  obtain a where "core (writeIndent w) = core (w\<lparr>wroteNL := a\<rparr>)" using core_indents by blast
  from well_formed_core[OF this] show "well_formed (writeIndent w) = well_formed w" by simp
  obtain a where "core (writeEndIndent w) = core (w\<lparr>wroteNL := a\<rparr>)" using core_indents by blast
  from well_formed_core[OF this] show "well_formed (writeEndIndent w) = well_formed w" by simp
qed

lemma core_seq_emit: "core (seqw (map emitNSDecl ds) w) = core w"
  by (rule core_seqw) auto

lemmas seq_emit_fields [simp] = core_fields[OF core_seq_emit]

lemma emitPendingNS_fields [simp]:
  "state (emitPendingNS w) = state w" "stateStack (emitPendingNS w) = stateStack w"
  "elemStack (emitPendingNS w) = elemStack w" "depth (emitPendingNS w) = depth w"
  "length (nsStack (emitPendingNS w)) = length (nsStack w)" "quoteChar (emitPendingNS w) = quoteChar w"
  "hasOutput (emitPendingNS w) = hasOutput w" "indent (emitPendingNS w) = indent w"
  "xml11 (emitPendingNS w) = xml11 w" "wroteNL (emitPendingNS w) = wroteNL w"
  by (auto simp: emitPendingNS_def Let_def split: list.split)

lemma well_formed_emitPendingNS [simp]: "well_formed w \<Longrightarrow> well_formed (emitPendingNS w)"
proof -
  assume "well_formed w"
  moreover from this have "list_all scope_ok (nsStack (emitPendingNS w))"
    by (auto simp: emitPendingNS_def well_formed_def Let_def map_top_def scope_ok_def split: list.split)
  ultimately show ?thesis by (simp add: well_formed_def)
qed

lemma closeTagIfOpen_fields:
  "state w = StateName \<Longrightarrow> state (closeTagIfOpen w) = StateText"
  "state w \<noteq> StateName \<Longrightarrow> closeTagIfOpen w = w"
  "stateStack (closeTagIfOpen w) = stateStack w" "depth (closeTagIfOpen w) = depth w"
  "length (elemStack (closeTagIfOpen w)) = length (elemStack w)"
  "quoteChar (closeTagIfOpen w) = quoteChar w" "xml11 (closeTagIfOpen w) = xml11 w"
  "indent (closeTagIfOpen w) = indent w"
  by (simp_all add: closeTagIfOpen_def Let_def)

lemma well_formed_close [simp]: "well_formed w \<Longrightarrow> well_formed (closeTagIfOpen w)"
proof (cases "state w = StateName")
  case True
  assume w: "well_formed w"
  then have "elemStack w \<noteq> []" using True by (auto simp: well_formed_def ctl_ok_def)
  then have "well_formed (emitPendingNS w\<lparr>state := StateText\<rparr>)"
    using well_formed_emitPendingNS[OF w] by (auto simp: well_formed_def ctl_ok_def)
  then have "well_formed ((writeByte CHR ''>'' (emitPendingNS w))\<lparr>state := StateText\<rparr>)"
    by (simp add: well_formed_def)
  from well_formed_map_elem[OF _ this, of "ee_empty_update (\<lambda>_. False)"] show ?thesis using True
    by (simp add: closeTagIfOpen_def Let_def)
qed (simp add: closeTagIfOpen_fields)

subsection \<open>Every operation keeps a writer well formed\<close>

lemma snd_outcome [simp]:
  "snd (finish w) = w" "snd (fail f a w) = w"
  "snd (try_then (e, w) k) = (if e = None then snd (k w) else w)"
  by (auto simp: finish_def fail_def try_then_def split: option.split)

lemma wf_try:
  "well_formed (snd r) \<Longrightarrow>
   (\<And>w'. fst r = None \<Longrightarrow> w' = snd r \<Longrightarrow> well_formed w' \<Longrightarrow> well_formed (snd (k w'))) \<Longrightarrow>
   well_formed (snd (try_then r k))"
  by (cases r) auto

text \<open>The state transitions.\<close>

lemma wf_push:
  "well_formed w \<Longrightarrow> ctl_ok st (state w # stateStack w) (elemStack w \<noteq> []) \<Longrightarrow> well_formed (pushState st w)"
  by (simp add: well_formed_def pushState_def)

lemma wf_pop:
  assumes "well_formed w" "state w \<in> {StateAttribute, StateComment, StatePI, StatePIText, StateCDATA}"
  shows "well_formed (popState fb w)"
  using assms by (cases "stateStack w")
    (auto simp: well_formed_def popState_def ctl_ok_def split: if_splits)

lemma wf_state:
  "well_formed w \<Longrightarrow> ctl_ok st (stateStack w) (elemStack w \<noteq> []) \<Longrightarrow> well_formed (w\<lparr>state := st\<rparr>)"
  by (simp add: well_formed_def)

lemma wf_open: "well_formed w \<Longrightarrow> state w \<in> {StateName, StateText, StateAttribute, StateCDATA} \<Longrightarrow> elemStack w \<noteq> []"
  by (auto simp: well_formed_def ctl_ok_def)

lemma wf_closed: "well_formed w \<Longrightarrow> state w \<in> {StateNone, StateDocument, StateDTD, StateDTDText} \<Longrightarrow> elemStack w = []"
  by (auto simp: well_formed_def ctl_ok_def)

lemma wf_hasOutput [simp]: "well_formed w \<Longrightarrow> well_formed (w\<lparr>hasOutput := True\<rparr>)"
  by (simp add: well_formed_def)

lemma closed_tag:
  assumes "well_formed w" "state w \<in> {StateNone, StateDocument, StateText, StateName}"
  defines "w' \<equiv> if state w = StateName then closeTagIfOpen w else w"
  shows "well_formed w'" "state w' \<in> {StateNone, StateDocument, StateText}"
    "elemStack w' \<noteq> [] \<longleftrightarrow> state w' = StateText"
  using assms(1,2) wf_open[of w'] wf_closed[of w'] well_formed_close[OF assms(1)]
  by (auto simp: w'_def closeTagIfOpen_fields)

lemma wf_Flush: "well_formed w \<Longrightarrow> well_formed (snd (Flush w))"
  by (auto simp: Flush_def split: option.split prod.split)

lemma wf_StartDocument: "well_formed w \<Longrightarrow> well_formed (snd (StartDocument v e s w))"
  using wf_closed[of w] by (auto simp: StartDocument_def Let_def ctl_ok_def intro!: wf_state wf_hasOutput)

lemma markParentChild_elem [simp]: "elemStack (markParentChild w) = [] \<longleftrightarrow> elemStack w = []"
  by (simp add: markParentChild_def)

lemma markText_elem [simp]: "elemStack (markText w) = [] \<longleftrightarrow> elemStack w = []"
  by (simp add: markText_def)

lemma wf_new_element:
  "well_formed w \<Longrightarrow> IsValidQName name \<Longrightarrow>
   well_formed (w\<lparr>hasOutput := True,
      elemStack := \<lparr>ee_name = name, ee_empty = True, ee_hasText = False, ee_hasChild = False\<rparr> # elemStack w,
      nsStack := \<lparr>decls = [], emitted = 0\<rparr> # nsStack w, state := StateName, depth := depth w + 1\<rparr>)"
  by (simp add: well_formed_def ctl_ok_def scope_ok_def)

lemma wf_StartElement:
  assumes "well_formed w"
  shows "well_formed (snd (StartElement name w))"
proof -
  let ?w1 = "if state w = StateName then closeTagIfOpen w else w"
  let ?w2 = "seqw [markParentChild, writeIndent, writeByte CHR ''<'', writeStr name] ?w1"
  have w2: "well_formed ?w2" using assms by simp
  show ?thesis
  proof (cases "IsValidQName name")
    case True
    show ?thesis using wf_new_element[OF w2 True] assms
      by (auto simp: StartElement_def Let_def)
  qed (use assms in \<open>auto simp: StartElement_def\<close>)
qed

lemma declareNS_fields [simp]:
  "state (declareNS p u w) = state w" "stateStack (declareNS p u w) = stateStack w"
  "elemStack (declareNS p u w) = elemStack w" "err (declareNS p u w) = err w"
  "out (declareNS p u w) = out w" "quoteChar (declareNS p u w) = quoteChar w"
  "xml11 (declareNS p u w) = xml11 w" "indent (declareNS p u w) = indent w"
  "depth (declareNS p u w) = depth w" "hasOutput (declareNS p u w) = hasOutput w"
  "wroteNL (declareNS p u w) = wroteNL w"
  by (auto simp: declareNS_def split: list.split)

lemma find_decl_None: "find_decl p ds = None \<longleftrightarrow> p \<notin> ne_prefix ` set ds"
  by (induction ds) auto

lemma wf_declareNS: "well_formed w \<Longrightarrow> well_formed (declareNS p u w)"
  by (auto simp: declareNS_def well_formed_def scope_ok_def find_decl_None split: list.split)

lemma wf_StartElementNS: "well_formed w \<Longrightarrow> well_formed (snd (StartElementNS p l u w))"
  by (auto simp: StartElementNS_def intro!: wf_try wf_StartElement wf_declareNS)

lemma wf_StartAttribute: "well_formed w \<Longrightarrow> well_formed (snd (StartAttribute name w))"
  using wf_open[of w] by (auto simp: StartAttribute_def ctl_ok_def intro!: wf_push)

lemma wf_StartAttributeNS: "well_formed w \<Longrightarrow> well_formed (snd (StartAttributeNS p l u w))"
  by (auto simp: StartAttributeNS_def intro!: wf_StartAttribute wf_declareNS)

lemma wf_EndAttribute: "well_formed w \<Longrightarrow> well_formed (snd (EndAttribute w))"
  by (auto simp: EndAttribute_def intro!: wf_pop)

text \<open>Between the pop of the element and that of its namespace scope.\<close>

definition wf_popped :: "'o writer \<Rightarrow> bool" where
  "wf_popped w \<longleftrightarrow>
     length (nsStack w) = Suc (length (elemStack w)) \<and> depth w = int (length (elemStack w)) \<and>
     list_all (\<lambda>e. IsValidQName (ee_name e)) (elemStack w) \<and> list_all scope_ok (tl (nsStack w)) \<and>
     quoteChar w \<in> {CHR 0x22, CHR 0x27} \<and> hasOutput w"

lemma wf_popElement: "well_formed w \<Longrightarrow> elemStack w \<noteq> [] \<Longrightarrow> wf_popped (popElement w)"
  by (cases "elemStack w"; cases "nsStack w")
    (auto simp: well_formed_def wf_popped_def popElement_def)

lemma wf_leaveElement: "wf_popped w \<Longrightarrow> well_formed (snd (leaveElement w))"
  by (cases "nsStack w")
    (auto simp: wf_popped_def well_formed_def leaveElement_def ctl_ok_def Let_def)

lemma wf_popped_core: assumes "core w = core w'" shows "wf_popped w = wf_popped w'"
  by (simp add: wf_popped_def core_fields[OF assms])

lemma wf_popped_write [simp]:
  "wf_popped (writeStr s w) = wf_popped w" "wf_popped (writeByte c w) = wf_popped w"
  by (rule wf_popped_core; simp)+

lemma wf_popped_steps [simp]:
  "wf_popped (writeEndIndent w) = wf_popped w" "wf_popped w \<Longrightarrow> wf_popped (emitPendingNS w)"
  by (auto simp: wf_popped_def emitPendingNS_def map_top_def Let_def split: list.split)

lemma wf_popped_mapelem:
  "wf_popped w \<Longrightarrow> wf_popped (w\<lparr>state := s, elemStack := map_top (\<lambda>e. e\<lparr>ee_empty := False\<rparr>) (elemStack w)\<rparr>)"
  by (cases "elemStack w") (auto simp: wf_popped_def map_top_def)

lemma wf_popped_close [simp]:
  assumes "wf_popped w" shows "wf_popped (closeTagIfOpen w)"
proof -
  have "wf_popped (writeByte CHR ''>'' (emitPendingNS w))" using assms by simp
  from wf_popped_mapelem[OF this, of StateText] show ?thesis using assms
    by (simp add: closeTagIfOpen_def Let_def)
qed

lemma wf_popped_endTag [simp]: "wf_popped (writeEndTag e w) = wf_popped w"
  by (simp add: writeEndTag_def Let_def)

lemma EndAttribute_elem [simp]: "elemStack (snd (EndAttribute w)) = elemStack w"
  by (simp add: EndAttribute_def popState_def split: list.split)

lemma close_elem [simp]: "elemStack (closeTagIfOpen w) = [] \<longleftrightarrow> elemStack w = []"
  by (simp add: closeTagIfOpen_def Let_def)

lemma wf_EndElement: "well_formed w \<Longrightarrow> well_formed (snd (EndElement w))"
  unfolding EndElement_def Let_def
  by (auto intro!: wf_try wf_EndAttribute wf_leaveElement wf_popElement wf_popped_steps(2) wf_popped_close
      split: if_splits)

lemma wf_FullEndElement: "well_formed w \<Longrightarrow> well_formed (snd (FullEndElement w))"
  unfolding FullEndElement_def Let_def
  by (auto intro!: wf_try wf_EndAttribute wf_leaveElement wf_popElement split: if_splits)

lemma wf_WriteString: "well_formed w \<Longrightarrow> well_formed (snd (WriteString s w))"
proof -
  assume w: "well_formed w"
  obtain n where "core (writeCDATAEscaped s w) = core (w\<lparr>cdataBrackets := n\<rparr>)"
    using core_writeCDATAEscaped by blast
  from well_formed_core[OF this] have "well_formed (writeCDATAEscaped s w)" using w by simp
  moreover have "ctl_ok StatePIText (stateStack w) (elemStack w \<noteq> [])"
    if "state w = StatePI \<or> state w = StatePIText"
    using w that by (auto simp: well_formed_def ctl_ok_def)
  ultimately show ?thesis using w
    by (cases "state w") (auto simp: WriteString_def Let_def intro!: wf_state)
qed

lemma wf_WriteRaw: "well_formed w \<Longrightarrow> well_formed (snd (WriteRaw s w))"
  by (auto simp: WriteRaw_def)

lemma wf_WriteElement: "well_formed w \<Longrightarrow> well_formed (snd (WriteElement n c w))"
  by (auto simp: WriteElement_def intro!: wf_try wf_StartElement wf_WriteString wf_EndElement)

lemma wf_WriteElementNS: "well_formed w \<Longrightarrow> well_formed (snd (WriteElementNS p l u c w))"
  by (auto simp: WriteElementNS_def intro!: wf_try wf_StartElementNS wf_WriteString wf_EndElement)

lemma wf_WriteAttribute: "well_formed w \<Longrightarrow> well_formed (snd (WriteAttribute n v w))"
  by (auto simp: WriteAttribute_def intro!: wf_try wf_StartAttribute wf_WriteString wf_EndAttribute)

lemma wf_WriteAttributeNS: "well_formed w \<Longrightarrow> well_formed (snd (WriteAttributeNS p l u v w))"
  by (auto simp: WriteAttributeNS_def intro!: wf_try wf_StartAttributeNS wf_WriteString wf_EndAttribute)

text \<open>Comments, processing instructions and CDATA sections open on a closed tag.\<close>

lemma wf_enter:
  assumes "well_formed w" "state w \<in> {StateNone, StateDocument, StateText, StateName}"
    "st = StateComment \<or> st = StatePI \<or> st = StateCDATA \<and> state w \<in> {StateText, StateName}"
    "well_formed w'" "state w' = (if state w = StateName then StateText else state w)"
    "elemStack w' = [] \<longleftrightarrow> elemStack w = []"
  shows "well_formed (pushState st w')"
  using assms(2-6) wf_open[OF assms(1)] wf_closed[OF assms(1)]
  by (intro wf_push) (auto simp: ctl_ok_def split: if_splits)

lemma wf_StartComment: "well_formed w \<Longrightarrow> well_formed (snd (StartComment w))"
  by (auto simp: StartComment_def Let_def closeTagIfOpen_fields intro!: wf_enter[of w StateComment])

lemma wf_EndComment: "well_formed w \<Longrightarrow> well_formed (snd (EndComment w))"
  by (auto simp: EndComment_def intro!: wf_pop)

lemma wf_WriteComment: "well_formed w \<Longrightarrow> well_formed (snd (WriteComment s w))"
  by (auto simp: WriteComment_def intro!: wf_try wf_StartComment wf_WriteString wf_EndComment)

lemma wf_StartPI: "well_formed w \<Longrightarrow> well_formed (snd (StartPI s w))"
  by (auto simp: StartPI_def Let_def closeTagIfOpen_fields intro!: wf_enter[of w StatePI])

lemma wf_EndPI: "well_formed w \<Longrightarrow> well_formed (snd (EndPI w))"
  by (auto simp: EndPI_def intro!: wf_pop)

lemma wf_WritePI: "well_formed w \<Longrightarrow> well_formed (snd (WritePI t s w))"
  by (auto simp: WritePI_def intro!: wf_try wf_StartPI wf_WriteString wf_EndPI)

lemma wf_StartCDATA: "well_formed w \<Longrightarrow> well_formed (snd (StartCDATA w))"
  by (auto simp: StartCDATA_def Let_def closeTagIfOpen_fields
      intro!: wf_enter[of w StateCDATA] well_formed_map_elem)

lemma wf_EndCDATA: "well_formed w \<Longrightarrow> well_formed (snd (EndCDATA w))"
  by (auto simp: EndCDATA_def intro!: wf_pop)

lemma wf_writeCDATASections: "well_formed w \<Longrightarrow> well_formed (snd (writeCDATASections s w))"
proof (induction s w rule: writeCDATASections.induct)
  case (1 s w)
  have "well_formed (snd (writeCDATASection t w))" if "well_formed w" for t and w :: "'a writer"
    using that by (auto simp: writeCDATASection_def intro!: wf_try wf_StartCDATA wf_WriteString wf_EndCDATA)
  then show ?case using 1 by (subst writeCDATASections.simps) (auto split: option.split intro!: wf_try)
qed

lemma wf_WriteCDATA: "well_formed w \<Longrightarrow> well_formed (snd (WriteCDATA s w))"
  by (simp add: WriteCDATA_def wf_writeCDATASections)

text \<open>DTD.\<close>

lemma wf_StartDTD: "well_formed w \<Longrightarrow> well_formed (snd (StartDTD n p s w))"
  using wf_closed[of w] by (auto simp: StartDTD_def Let_def ctl_ok_def intro!: wf_state)

lemma wf_EndDTD: "well_formed w \<Longrightarrow> well_formed (snd (EndDTD w))"
  using wf_closed[of w] by (auto simp: EndDTD_def Let_def ctl_ok_def intro!: wf_state)

lemma wf_WriteDTD: "well_formed w \<Longrightarrow> well_formed (snd (WriteDTD n p s i w))"
  by (auto simp: WriteDTD_def intro!: wf_try wf_StartDTD wf_EndDTD)

lemma wf_ensureDTDInternalSubset: "well_formed w \<Longrightarrow> well_formed (ensureDTDInternalSubset w)"
  using wf_closed[of w] by (auto simp: ensureDTDInternalSubset_def ctl_ok_def intro!: wf_state)

lemma wf_DTD_declarations:
  assumes "well_formed w"
  shows "well_formed (snd (WriteDTDElement n c w))" "well_formed (snd (WriteDTDAttlist n c w))"
    "well_formed (snd (WriteDTDEntity pe n c w))" "well_formed (snd (WriteDTDExternalEntity pe n p s d w))"
    "well_formed (snd (WriteDTDNotation n p s w))"
  using assms wf_ensureDTDInternalSubset[OF assms]
  by (auto simp: WriteDTDElement_def WriteDTDAttlist_def WriteDTDEntity_def WriteDTDExternalEntity_def
      WriteDTDNotation_def)

text \<open>A successful \<open>EndElement\<close> pops one element, so the loop of \<open>EndDocument\<close> closes all.\<close>

lemma EndElement_pops:
  assumes "EndElement w = (None, w')"
  shows "elemStack w \<noteq> [] \<and> length (elemStack w') = length (elemStack w) - 1"
proof -
  have "err w = None" "elemStack w \<noteq> []"
    using assms by (auto simp: EndElement_def finish_def fail_def split: if_splits)
  then show ?thesis using assms
    by (auto simp: EndElement_def Let_def leaveElement_def popElement_def writeEndTag_def closeTagIfOpen_fields
        finish_def dest!: try_then_None split: if_splits)
qed

lemma closeElements_closes:
  "closeElements n w = (None, w') \<Longrightarrow> length (elemStack w) \<le> n \<Longrightarrow> elemStack w' = []"
proof (induction n arbitrary: w)
  case (Suc n)
  show ?case
  proof (cases "elemStack w = []")
    case False
    then obtain u where "EndElement w = (None, u)" "closeElements n u = (None, w')"
      using Suc.prems(1) by (auto dest!: try_then_None) (metis prod.collapse)
    then show ?thesis using Suc.IH[of u] Suc.prems(2) EndElement_pops by fastforce
  qed (use Suc in auto)
qed auto

text \<open>One iteration per open element is enough: more change nothing.\<close>

lemma closeElements_enough:
  "length (elemStack w) \<le> n \<Longrightarrow> closeElements (n + k) w = closeElements n w"
proof (induction n arbitrary: w)
  case 0
  then show ?case by (cases k) auto
next
  case (Suc n)
  show ?case
  proof (cases "EndElement w")
    case (Pair e u)
    then show ?thesis using Suc EndElement_pops[of w u] by (cases e) (auto simp: try_then_def)
  qed
qed

lemma wf_closeElements: "well_formed w \<Longrightarrow> well_formed (snd (closeElements n w))"
  by (induction n arbitrary: w) (auto intro!: wf_try wf_EndElement)

lemma wf_EndDocument: "well_formed w \<Longrightarrow> well_formed (snd (EndDocument w))"
proof -
  assume w: "well_formed w"
  have c: "well_formed (snd (closeOpenConstruct w))"
    using w by (auto simp: closeOpenConstruct_def intro: wf_EndPI wf_EndCDATA wf_EndComment wf_EndDTD
        split: writerState.split)
  have fin: "well_formed (snd (Flush ((if indent u = '''' then writeStr [CHR 0x0A] u else u)\<lparr>state := StateNone\<rparr>)))"
    if u: "well_formed u" "elemStack u = []" for u :: "'a writer"
    using u by (intro wf_Flush wf_state) (auto simp: ctl_ok_def)
  have n: "elemStack u = []" if "closeElements (length (elemStack v)) v = (None, u)" for u v :: "'a writer"
    using closeElements_closes[OF that] by simp
  show ?thesis
    unfolding EndDocument_def Let_def
    using w c by (auto intro!: wf_try wf_closeElements fin n prod_eqI)
qed

lemma wf_exec: "well_formed w \<Longrightarrow> well_formed (snd (exec c w))"
  by (cases c) (auto intro: wf_StartDocument wf_EndDocument wf_StartElement wf_StartElementNS wf_EndElement
      wf_FullEndElement wf_WriteElement wf_WriteElementNS wf_StartAttribute wf_StartAttributeNS
      wf_EndAttribute wf_WriteAttribute wf_WriteAttributeNS wf_WriteString wf_WriteRaw wf_StartComment
      wf_EndComment wf_WriteComment wf_StartPI wf_EndPI wf_WritePI wf_StartCDATA wf_EndCDATA wf_WriteCDATA
      wf_StartDTD wf_EndDTD wf_WriteDTD wf_DTD_declarations wf_Flush)

subsection \<open>Reachable writers\<close>

text \<open>A caller may configure and call a writer in any order.\<close>

inductive reachable :: "'o writer \<Rightarrow> bool" where
  new: "reachable (NewWriter k)"
| indent: "reachable w \<Longrightarrow> reachable (Indent i w)"
| quote: "reachable w \<Longrightarrow> reachable (QuoteChar q w)"
| version: "reachable w \<Longrightarrow> reachable (XMLVersion v w)"
| call: "reachable w \<Longrightarrow> reachable (snd (exec c w))"

lemma reachable_run: "reachable w \<Longrightarrow> reachable (run cs w)"
  by (induction cs arbitrary: w) (auto intro: reachable.call)

lemma wf_reachable: "reachable w \<Longrightarrow> well_formed w"
proof (induction rule: reachable.induct)
  case (new k)
  show ?case by (simp add: NewWriter_def well_formed_def ctl_ok_def)
next
  case (quote w q)
  then show ?case by (auto simp: QuoteChar_def well_formed_def)
qed (auto simp: Indent_def XMLVersion_def intro: wf_exec)

text \<open>C4: the state machine and its stacks stay consistent.  Every writer a caller can produce,
  with any destination, any calls in any order and any write errors, has one namespace scope per
  open element, the depth of its element stack, a saved state to return to in every attribute,
  comment, processing instruction and CDATA section, an open element exactly in the states that need
  one, valid element names and no duplicate namespace declaration in a scope.\<close>

theorem reachable_well_formed: "reachable w \<Longrightarrow> well_formed w"
  by (rule wf_reachable)

theorem reachable_well_formed_witness:
  "well_formed (run [CStartElement ''a'', CStartAttributeNS ''p'' ''b'' ''urn:x'', CStartComment, CEndElement]
     (NewWriter (Some (buffer True True ''''))))"
  by (intro reachable_well_formed reachable_run reachable.new)

subsection \<open>Calls of a writer with an error\<close>

lemma fst_outcome [simp]: "fst (finish w) = err w" "fst (fail f a w) = Some (Errorf f a)"
  by (simp_all add: finish_def fail_def)

lemma try_then_Some [simp]: "try_then (Some e, w) k = (Some e, w)" "try_then (None, w) k = k w"
  "try_then (fail f a w) k = fail f a w"
  "try_then (finish w) k = (if err w = None then k w else finish w)"
  by (auto simp: try_then_def fail_def finish_def)

lemma exec_sticky: "err w \<noteq> None \<Longrightarrow> snd (exec c w) = w \<and> fst (exec c w) \<noteq> None"
  by (cases c)
    (auto simp: StartDocument_def EndDocument_def StartElement_def StartElementNS_def EndElement_def
      FullEndElement_def WriteElement_def WriteElementNS_def StartAttribute_def StartAttributeNS_def
      EndAttribute_def WriteAttribute_def WriteAttributeNS_def WriteString_def WriteRaw_def
      StartComment_def EndComment_def WriteComment_def StartPI_def EndPI_def WritePI_def StartCDATA_def
      EndCDATA_def WriteCDATA_def StartDTD_def EndDTD_def WriteDTD_def WriteDTDElement_def
      WriteDTDAttlist_def WriteDTDEntity_def WriteDTDExternalEntity_def WriteDTDNotation_def
      ensureDTDState_def Flush_def)

end
