(* ===== verification/StreamAtomic.thy ===== *)
theory StreamAtomic
  imports StreamState
begin

text \<open>
  Calls the writer rejects.  On a destination that does not fail, a call that returns an error has
  written nothing and changed nothing, so the caller may go on with another call; the composite
  calls (\<open>WriteElement\<close>, \<open>WriteComment\<close>, \<open>WriteCDATA\<close>, ...) validate everything before
  their first write.  \<open>StartDocument\<close> is the exception: it switches to XML 1.1 before it looks at
  the encoding name.
\<close>

subsection \<open>Output only grows\<close>

definition grows :: "('o sink \<Rightarrow> string \<Rightarrow> bool) \<Rightarrow> 'o writer \<Rightarrow> string \<Rightarrow> bool" where
  "grows R w b \<longleftrightarrow> (\<exists>t. written R w (b @ t))"

lemma grows_err: "grows R w b \<Longrightarrow> err w = None"
  by (auto simp: grows_def written_def)

lemma grows_I: "written R w b \<Longrightarrow> grows R w b"
  by (auto simp: grows_def intro: exI[of _ "[]"])

lemma grows_updates [simp]:
  "grows R (w\<lparr>indent := a1\<rparr>) b = grows R w b" "grows R (w\<lparr>quoteChar := a2\<rparr>) b = grows R w b"
  "grows R (w\<lparr>state := a3\<rparr>) b = grows R w b" "grows R (w\<lparr>elemStack := a4\<rparr>) b = grows R w b"
  "grows R (w\<lparr>nsStack := a5\<rparr>) b = grows R w b" "grows R (w\<lparr>stateStack := a6\<rparr>) b = grows R w b"
  "grows R (w\<lparr>depth := a7\<rparr>) b = grows R w b" "grows R (w\<lparr>hasOutput := a8\<rparr>) b = grows R w b"
  "grows R (w\<lparr>wroteNL := a9\<rparr>) b = grows R w b" "grows R (w\<lparr>commentDash := a10\<rparr>) b = grows R w b"
  "grows R (w\<lparr>piQuestion := a11\<rparr>) b = grows R w b" "grows R (w\<lparr>cdataBrackets := a12\<rparr>) b = grows R w b"
  "grows R (w\<lparr>xml11 := a13\<rparr>) b = grows R w b"
  by (simp_all add: grows_def)

lemma grows_fields [simp]:
  "grows R (popState s w) b = grows R w b" "grows R (pushState s w) b = grows R w b"
  "grows R (markParentChild w) b = grows R w b" "grows R (markText w) b = grows R w b"
  "grows R (popElement w) b = grows R w b" "grows R (declareNS p u w) b = grows R w b"
  by (auto simp: popState_def pushState_def markParentChild_def markText_def popElement_def declareNS_def
      split: list.split)

context reliable_sink
begin

lemma grows_writes [intro]:
  "grows received w b \<Longrightarrow> grows received (writeStr s w) b"
  "grows received w b \<Longrightarrow> grows received (writeByte c w) b"
  "grows received w b \<Longrightarrow> grows received (writeTextEscaped s w) b"
  "grows received w b \<Longrightarrow> grows received (writeAttrEscaped s w) b"
  "grows received w b \<Longrightarrow> grows received (writeCDATAEscaped s w) b"
  using written_writeStr written_writeByte written_writeEscaped[of w _ EscapeText]
    written_writeEscaped[of w _ EscapeAttr] written_writeCDATAEscaped
  by (fastforce simp: grows_def writeTextEscaped_def writeAttrEscaped_def)+

lemma grows_seqw:
  "(\<And>f w. f \<in> set fs \<Longrightarrow> grows received w b \<Longrightarrow> grows received (f w) b) \<Longrightarrow>
     grows received w b \<Longrightarrow> grows received (seqw fs w) b"
  by (induction fs arbitrary: w) auto

lemma grows_repeatw:
  "(\<And>w. grows received w b \<Longrightarrow> grows received (f w) b) \<Longrightarrow> grows received w b \<Longrightarrow> grows received (repeatw n f w) b"
  by (induction n arbitrary: w) (auto simp: repeatw_def funpow_swap1)

lemma grows_steps [intro]:
  "grows received w b \<Longrightarrow> grows received (writeQuoted s w) b"
  "grows received w b \<Longrightarrow> grows received (writeQuotedID s w) b"
  "grows received w b \<Longrightarrow> grows received (emitNSDecl ns w) b"
  "grows received w b \<Longrightarrow> grows received (writeTrailingNL w) b"
  "grows received w b \<Longrightarrow> grows received (writeIndent w) b"
  "grows received w b \<Longrightarrow> grows received (writeEndIndent w) b"
  "grows received w b \<Longrightarrow> grows received (ensureDTDInternalSubset w) b"
  by (auto simp: writeQuoted_def writeQuotedID_def emitNSDecl_def writeTrailingNL_def writeIndent_def
      writeEndIndent_def ensureDTDInternalSubset_def Let_def intro!: grows_repeatw grows_writes)

lemma grows_emitPendingNS [intro]: "grows received w b \<Longrightarrow> grows received (emitPendingNS w) b"
  by (auto simp: emitPendingNS_def Let_def intro!: grows_seqw split: list.split)

lemma grows_closeTagIfOpen [intro]: "grows received w b \<Longrightarrow> grows received (closeTagIfOpen w) b"
  by (auto simp: closeTagIfOpen_def Let_def)

lemma grows_writeEndTag [intro]: "grows received w b \<Longrightarrow> grows received (writeEndTag e w) b"
  by (auto simp: writeEndTag_def Let_def)

end

subsection \<open>Atomic calls\<close>

definition atomic :: "('o sink \<Rightarrow> string \<Rightarrow> bool) \<Rightarrow> 'o writer \<Rightarrow> string \<Rightarrow> 'o outcome \<Rightarrow> bool" where
  "atomic R w b r \<longleftrightarrow> grows R (snd r) b \<and> (fst r \<noteq> None \<longrightarrow> snd r = w)"

lemma atomic_finish [intro]: "grows R w' b \<Longrightarrow> atomic R w b (finish w')"
  by (auto simp: atomic_def dest: grows_err)

lemma atomic_fail [intro]: "grows R w b \<Longrightarrow> atomic R w b (fail f a w)"
  by (simp add: atomic_def)

lemma atomic_check [intro]: "grows R w b \<Longrightarrow> (e = None \<Longrightarrow> atomic R w b (k w)) \<Longrightarrow> atomic R w b (try_then (e, w) k)"
  by (cases e) (auto simp: atomic_def)

text \<open>A composite call: the first part is atomic and the rest succeeds.\<close>

lemma atomic_then:
  assumes "atomic R w b r" "\<And>w'. r = (None, w') \<Longrightarrow> grows R w' b \<Longrightarrow> fst (k w') = None \<and> grows R (snd (k w')) b"
  shows "atomic R w b (try_then r k)"
proof (cases r)
  case (Pair e w')
  with assms show ?thesis by (cases e) (auto simp: atomic_def)
qed

lemma then_succeeds:
  "fst r = None \<Longrightarrow> fst (k (snd r)) = None \<and> P (snd (k (snd r))) \<Longrightarrow>
     fst (try_then r k) = None \<and> P (snd (try_then r k))"
  by (cases r) auto

context reliable_sink
begin

lemma atomic_simple:
  assumes "grows received w b"
  shows "atomic received w b (StartElement n w)" "atomic received w b (StartAttribute n w)"
    "atomic received w b (EndAttribute w)" "atomic received w b (WriteRaw s w)"
    "atomic received w b (StartComment w)" "atomic received w b (EndComment w)"
    "atomic received w b (StartPI t w)" "atomic received w b (EndPI w)"
    "atomic received w b (StartCDATA w)" "atomic received w b (EndCDATA w)"
    "atomic received w b (EndDTD w)"
  using assms
  by (simp_all add: StartElement_def StartAttribute_def EndAttribute_def WriteRaw_def StartComment_def
      EndComment_def StartPI_def EndPI_def StartCDATA_def EndCDATA_def EndDTD_def Let_def
      atomic_finish atomic_fail grows_writes grows_steps grows_closeTagIfOpen)

lemma atomic_StartDTD: "grows received w b \<Longrightarrow> atomic received w b (StartDTD n p s w)"
  by (simp add: StartDTD_def Let_def atomic_finish atomic_fail grows_writes grows_steps)

lemma atomic_WriteString:
  assumes "grows received w b" shows "atomic received w b (WriteString s w)"
  using assms
  by (cases "state w") (auto simp: WriteString_def Let_def intro!: atomic_check atomic_finish atomic_fail grows_writes
      grows_closeTagIfOpen)

lemma atomic_DTD_declarations:
  assumes "grows received w b"
  shows "atomic received w b (WriteDTDElement n c w)" "atomic received w b (WriteDTDAttlist n c w)"
    "atomic received w b (WriteDTDEntity pe n c w)" "atomic received w b (WriteDTDExternalEntity pe n p s d w)"
    "atomic received w b (WriteDTDNotation n p s w)"
  using assms
  by (auto simp: WriteDTDElement_def WriteDTDAttlist_def WriteDTDEntity_def WriteDTDExternalEntity_def
      WriteDTDNotation_def intro!: atomic_check atomic_finish atomic_fail grows_writes grows_steps)

end

subsection \<open>Composite calls\<close>

lemma StartElement_after:
  "StartElement n w = (None, w') \<Longrightarrow> state w' = StateName \<and> xml11 w' = xml11 w \<and> elemStack w' \<noteq> []"
  by (auto simp: StartElement_def Let_def finish_def fail_def closeTagIfOpen_fields split: if_splits)

lemma declareNS_elem [simp]: "elemStack (declareNS p u w) = elemStack w"
  by simp

lemma try_then_eq_None: "try_then r k = (None, w') \<longleftrightarrow> (\<exists>u. r = (None, u) \<and> k u = (None, w'))"
  by (auto simp: try_then_def split: prod.splits option.splits)

lemma StartElementNS_after:
  "StartElementNS p l u w = (None, w') \<Longrightarrow> state w' = StateName \<and> xml11 w' = xml11 w \<and> elemStack w' \<noteq> []"
  using StartElement_after[of "qualifiedName p l" w]
  by (fastforce simp: StartElementNS_def finish_def try_then_eq_None split: if_splits)

lemma StartAttribute_after:
  "StartAttribute n w = (None, w') \<Longrightarrow> state w' = StateAttribute \<and> xml11 w' = xml11 w"
  by (auto simp: StartAttribute_def finish_def fail_def pushState_def split: if_splits)

lemma StartAttributeNS_after:
  "StartAttributeNS p l u w = (None, w') \<Longrightarrow> state w' = StateAttribute \<and> xml11 w' = xml11 w"
  using StartAttribute_after[of "qualifiedName p l" "declareNS p u w" w']
    StartAttribute_after[of "qualifiedName p l" w w']
  by (auto simp: StartAttributeNS_def finish_def fail_def try_then_eq_None split: if_splits)

lemma qualifiedName_valid: "validateNSParts k p l = None \<Longrightarrow> IsValidQName (qualifiedName p l)"
  by (auto simp: validateNSParts_def qualifiedName_def IsValidQName_prefixed IsValidQName_unprefixed
      split: if_splits)

text \<open>Calls that succeed.\<close>

definition fine :: "('o sink \<Rightarrow> string \<Rightarrow> bool) \<Rightarrow> string \<Rightarrow> 'o outcome \<Rightarrow> bool" where
  "fine R b r \<longleftrightarrow> fst r = None \<and> grows R (snd r) b"

lemma fine_finish: "grows R w b \<Longrightarrow> fine R b (finish w)"
  by (auto simp: fine_def dest: grows_err)

lemma fine_check: "fine R b (k w) \<Longrightarrow> e = None \<Longrightarrow> fine R b (try_then (e, w) k)"
  by simp

lemma fine_then: "fine R b r \<Longrightarrow> (\<And>u. r = (None, u) \<Longrightarrow> grows R u b \<Longrightarrow> fine R b (k u)) \<Longrightarrow> fine R b (try_then r k)"
  by (cases r) (auto simp: fine_def)

lemma atomic_then_fine:
  "atomic R w b r \<Longrightarrow> (\<And>u. r = (None, u) \<Longrightarrow> grows R u b \<Longrightarrow> fine R b (k u)) \<Longrightarrow> atomic R w b (try_then r k)"
  by (rule atomic_then) (auto simp: fine_def)

lemma fine_atomic: "fine R b r \<Longrightarrow> atomic R w b r"
  by (simp add: fine_def atomic_def)

context reliable_sink
begin

lemmas grows_all = grows_writes grows_steps grows_emitPendingNS grows_closeTagIfOpen grows_writeEndTag

lemma fine_EndAttribute:
  "grows received w b \<Longrightarrow> state w = StateAttribute \<Longrightarrow> fine received b (EndAttribute w)"
  by (simp add: EndAttribute_def grows_err fine_finish grows_all)

lemma fine_leaveElement: "grows received w b \<Longrightarrow> fine received b (leaveElement w)"
  by (simp add: leaveElement_def fine_finish Let_def)

lemma fine_EndElement:
  assumes "grows received w b" "elemStack w \<noteq> []"
  shows "fine received b (EndElement w)" "fine received b (FullEndElement w)"
proof -
  have a: "fine received b (if state w = StateAttribute then EndAttribute w else (None, w))"
    using assms(1) fine_EndAttribute by (auto simp: fine_def)
  show "fine received b (EndElement w)" "fine received b (FullEndElement w)"
    using assms unfolding EndElement_def FullEndElement_def
    by (simp_all add: grows_err Let_def fine_then[OF a] fine_leaveElement grows_all)
qed

lemma fine_text_name:
  assumes "grows received w b" "state w = StateName" "validateContentChars k s w = None"
  shows "fine received b (WriteString s w)"
proof -
  have "validateContentChars k' s w = None" for k' using assms(3) by (simp add: validateContentChars_None)
  then show ?thesis using assms
    by (simp add: WriteString_def grows_err fine_finish grows_all)
qed

lemma fine_text_attr:
  assumes "grows received w b" "state w = StateAttribute" "validateContentChars k s w = None"
  shows "fine received b (WriteString s w)"
proof -
  have "validateContentChars k' s w = None" for k' using assms(3) by (simp add: validateContentChars_None)
  then show ?thesis using assms
    by (simp add: WriteString_def grows_err fine_finish grows_all)
qed

end

lemma text_name_after:
  assumes "WriteString s w = (None, w')" "state w = StateName"
  shows "elemStack w' = [] \<longleftrightarrow> elemStack w = []"
  using assms by (cases "err w"; simp add: WriteString_def) (auto simp: finish_def try_then_eq_None)

lemma text_attr_after:
  assumes "WriteString s w = (None, w')" "state w = StateAttribute"
  shows "state w' = StateAttribute"
  using assms by (cases "err w"; simp add: WriteString_def) (auto simp: finish_def try_then_eq_None)

lemma validateContentChars_xml11:
  "xml11 w' = xml11 w \<Longrightarrow> validateContentChars k s w' = validateContentChars k s w"
  by (simp add: validateContentChars_def)

context reliable_sink
begin

lemma fine_element_tail:
  assumes "grows received w b" "state w = StateName" "elemStack w \<noteq> []" "validateContentChars k s w = None"
  shows "fine received b (try_then (WriteString s w) EndElement)"
  using assms text_name_after by (intro fine_then fine_text_name fine_EndElement) auto

lemma fine_attribute_tail:
  assumes "grows received w b" "state w = StateAttribute" "validateContentChars k s w = None"
  shows "fine received b (try_then (WriteString s w) EndAttribute)"
  using assms text_attr_after by (intro fine_then fine_text_attr fine_EndAttribute) auto

lemma atomic_StartElementNS:
  assumes "grows received w b" shows "atomic received w b (StartElementNS p l u w)"
  unfolding StartElementNS_def using assms
  by (simp add: grows_err) (intro atomic_check atomic_then_fine atomic_simple fine_finish; simp)

lemma fine_StartAttribute:
  assumes "grows received w b" "IsValidQName n" "state w = StateName"
  shows "fine received b (StartAttribute n w)"
  using assms qname_not_Nil[OF assms(2)]
  by (simp add: StartAttribute_def grows_err fine_finish grows_all)

lemma atomic_StartAttributeNS:
  assumes g: "grows received w b" shows "atomic received w b (StartAttributeNS p l u w)"
proof -
  have "atomic received w b (StartAttribute (qualifiedName p l) (declareNS p u w))"
    if "validateNSParts ''attribute'' p l = None" "state w = StateName"
    using that g qualifiedName_valid by (intro fine_atomic fine_StartAttribute) auto
  then show ?thesis
    unfolding StartAttributeNS_def using g
    by (simp add: grows_err) (intro atomic_check; simp add: atomic_fail atomic_simple)
qed

lemma atomic_WriteElement:
  assumes g: "grows received w b"
  shows "atomic received w b (WriteElement n c w)" "atomic received w b (WriteElementNS p l u c w)"
proof -
  have t: "fine received b (try_then (WriteString c v) EndElement)"
    if "grows received v b" "state v = StateName \<and> xml11 v = xml11 w \<and> elemStack v \<noteq> []"
      "validateContentChars ''text'' c w = None" for v
    using that validateContentChars_xml11[of v w] by (intro fine_element_tail[of _ _ "''text''"]) auto
  show "atomic received w b (WriteElement n c w)"
    unfolding WriteElement_def using g
    by (simp add: grows_err) (intro atomic_check atomic_then_fine atomic_simple t StartElement_after; assumption)
  show "atomic received w b (WriteElementNS p l u c w)"
    unfolding WriteElementNS_def using g
    by (simp add: grows_err)
      (intro atomic_check atomic_then_fine atomic_StartElementNS t StartElementNS_after; assumption)
qed

lemma atomic_WriteAttribute:
  assumes g: "grows received w b"
  shows "atomic received w b (WriteAttribute n c w)" "atomic received w b (WriteAttributeNS p l u c w)"
proof -
  have t: "fine received b (try_then (WriteString c v) EndAttribute)"
    if "grows received v b" "state v = StateAttribute \<and> xml11 v = xml11 w"
      "validateContentChars ''attribute'' c w = None" for v
    using that validateContentChars_xml11[of v w] by (intro fine_attribute_tail[of _ _ "''attribute''"]) auto
  show "atomic received w b (WriteAttribute n c w)"
    unfolding WriteAttribute_def using g
    by (simp add: grows_err) (intro atomic_check atomic_then_fine atomic_simple t StartAttribute_after; assumption)
  show "atomic received w b (WriteAttributeNS p l u c w)"
    unfolding WriteAttributeNS_def using g
    by (simp add: grows_err)
      (intro atomic_check atomic_then_fine atomic_StartAttributeNS t StartAttributeNS_after; assumption)
qed

end

subsection \<open>Comments, processing instructions, CDATA, DTD, the document end\<close>

lemma validate_cut:
  assumes "validateXMLChars k (u @ v) = None" "v = [] \<or> byte (hd v) < 128"
  shows "validateXMLChars k' u = None \<and> validateXMLChars k' v = None"
  using assms valid_utf8_cut[of u v] by (auto simp: validateXMLChars_None)

lemma validate_kind: "validateXMLChars k s = None \<Longrightarrow> validateXMLChars k' s = None"
  by (simp add: validateXMLChars_None)

lemma StartComment_after:
  "StartComment w = (None, w') \<Longrightarrow> state w' = StateComment \<and> \<not> commentDash w'"
  by (auto simp: StartComment_def Let_def finish_def fail_def pushState_def split: if_splits)

lemma StartPI_after: "StartPI t w = (None, w') \<Longrightarrow> state w' = StatePI \<and> \<not> piQuestion w'"
  by (auto simp: StartPI_def Let_def finish_def fail_def pushState_def split: if_splits)

lemma StartCDATA_after:
  "StartCDATA w = (None, w') \<Longrightarrow> state w' = StateCDATA \<and> hd (stateStack w') = StateText \<and> stateStack w' \<noteq> []"
  by (auto simp: StartCDATA_def Let_def finish_def fail_def pushState_def closeTagIfOpen_fields split: if_splits)

lemma comment_text_after:
  assumes "WriteString s w = (None, w')" "state w = StateComment" "\<not> commentDash w" "\<not> has_suffix s ''-''"
  shows "state w' = StateComment \<and> \<not> commentDash w'"
  using assms by (cases "err w"; simp add: WriteString_def)
    (auto simp: finish_def try_then_eq_None fail_def Let_def split: if_splits)

lemma PI_text_after:
  assumes "WriteString s w = (None, w')" "state w = StatePI"
  shows "state w' = StatePIText"
  using assms by (cases "err w"; simp add: WriteString_def)
    (auto simp: finish_def try_then_eq_None fail_def Let_def split: if_splits)

lemma CDATA_text_after:
  assumes "WriteString s w = (None, w')" "state w = StateCDATA"
  shows "state w' = StateCDATA \<and> stateStack w' = stateStack w"
proof -
  obtain n where n: "core (writeCDATAEscaped s w) = core (w\<lparr>cdataBrackets := n\<rparr>)"
    using core_writeCDATAEscaped by blast
  show ?thesis using assms core_fields[OF n] by (cases "err w"; simp add: WriteString_def)
    (auto simp: finish_def try_then_eq_None)
qed

lemma EndCDATA_after:
  "EndCDATA w = (None, w') \<Longrightarrow> stateStack w \<noteq> [] \<Longrightarrow> state w' = hd (stateStack w)"
  by (cases "stateStack w") (auto simp: EndCDATA_def popState_def finish_def fail_def split: if_splits)

lemma CDATA_section_after:
  assumes "writeCDATASection s w = (None, w')" shows "state w' = StateText"
proof -
  obtain u v where u: "StartCDATA w = (None, u)" and v: "WriteString s u = (None, v)"
    and e: "EndCDATA v = (None, w')"
    using assms by (auto simp: writeCDATASection_def try_then_eq_None)
  from StartCDATA_after[OF u] CDATA_text_after[OF v] EndCDATA_after[OF e] show ?thesis by auto
qed

lemma StartDTD_after: "StartDTD n p s w = (None, w') \<Longrightarrow> state w' = StateDTD"
  by (auto simp: StartDTD_def Let_def finish_def fail_def split: if_splits)

context reliable_sink
begin

lemma fine_EndComment:
  "grows received w b \<Longrightarrow> state w = StateComment \<Longrightarrow> \<not> commentDash w \<Longrightarrow> fine received b (EndComment w)"
  by (simp add: EndComment_def grows_err fine_finish grows_all)

lemma fine_comment_text:
  assumes "grows received w b" "state w = StateComment" "\<not> commentDash w" "validateXMLChars ''comment'' s = None"
    "\<not> contains s ''--''"
  shows "fine received b (WriteString s w)"
  using assms by (simp add: WriteString_def grows_err fine_finish grows_all Let_def)

lemma atomic_WriteComment:
  assumes g: "grows received w b" shows "atomic received w b (WriteComment s w)"
proof -
  have t: "fine received b (try_then (WriteString s v) EndComment)"
    if "grows received v b" "state v = StateComment \<and> \<not> commentDash v"
      "validateXMLChars ''comment'' s = None" "\<not> contains s ''--''" "\<not> has_suffix s ''-''" for v
    using that comment_text_after by (intro fine_then fine_comment_text fine_EndComment) auto
  show ?thesis
    unfolding WriteComment_def using g
    by (simp add: grows_err, intro atomic_check)
      (auto intro!: atomic_fail atomic_then_fine atomic_simple t dest: StartComment_after)
qed

lemma fine_EndPI:
  "grows received w b \<Longrightarrow> state w = StatePI \<or> state w = StatePIText \<Longrightarrow> fine received b (EndPI w)"
  by (auto simp: EndPI_def grows_err fine_finish grows_all)

lemma fine_PI_text:
  assumes "grows received w b" "state w = StatePI" "\<not> piQuestion w"
    "validateXMLChars ''processing instruction'' s = None" "\<not> contains s ''?>''"
  shows "fine received b (WriteString s w)"
  using assms by (simp add: WriteString_def grows_err fine_finish grows_all Let_def)

lemma writeByte_piQuestion [simp]: "piQuestion (writeByte c w) = piQuestion w"
  by simp

lemma atomic_WritePI:
  assumes g: "grows received w b" shows "atomic received w b (WritePI t s w)"
proof -
  have t: "fine received b (if s \<noteq> '''' then try_then (WriteString s (writeByte CHR '' '' v)) EndPI else EndPI v)"
    if "grows received v b" "state v = StatePI \<and> \<not> piQuestion v"
      "validateXMLChars ''processing instruction'' s = None" "\<not> contains s ''?>''" for v
  proof (cases "s = ''''")
    case False
    have "fine received b (try_then (WriteString s (writeByte CHR '' '' v)) EndPI)"
      using that PI_text_after[of s "writeByte CHR '' '' v"]
      by (intro fine_then fine_PI_text fine_EndPI) (auto simp: grows_all)
    with False show ?thesis by simp
  qed (use that fine_EndPI in auto)
  show ?thesis
  proof (cases "contains s ''?>''")
    case True
    then show ?thesis using g by (simp add: WritePI_def grows_err atomic_check atomic_fail)
  next
    case False
    show ?thesis
      unfolding WritePI_def using g False
      by (simp add: grows_err, intro atomic_check atomic_then_fine atomic_simple t[simplified] StartPI_after)
  qed
qed

end

context reliable_sink
begin

lemma fine_CDATA_section:
  assumes "grows received w b" "state w \<in> {StateText, StateName}" "validateXMLChars ''CDATA'' s = None"
  shows "fine received b (writeCDATASection s w)"
proof -
  have s: "fine received b (StartCDATA w)"
    using assms by (simp add: StartCDATA_def grows_err Let_def fine_finish grows_all)
  have t: "fine received b (WriteString s v)" if "grows received v b" "state v = StateCDATA" for v
    using that assms(3) by (simp add: WriteString_def grows_err fine_finish grows_all)
  have e: "fine received b (EndCDATA v)" if "grows received v b" "state v = StateCDATA" for v
    using that by (simp add: EndCDATA_def grows_err fine_finish grows_all)
  show ?thesis unfolding writeCDATASection_def
    by (intro fine_then s t e) (auto dest: StartCDATA_after CDATA_text_after)
qed

lemma CDATA_pieces:
  assumes "index_of s '']]>'' = Some i" "validateXMLChars ''CDATA'' s = None"
  shows "validateXMLChars ''CDATA'' (take (i + 2) s) = None \<and> validateXMLChars ''CDATA'' (drop (i + 2) s) = None"
proof -
  have s: "s = take i s @ '']]>'' @ drop (i + 3) s" and i: "i + 3 \<le> length s"
    using index_of_Some[OF assms(1)] by (auto simp: numeral_3_eq_3)
  have "drop (i + 2) s = drop 2 (drop i s)" by (simp add: add.commute)
  also have "drop i s = '']]>'' @ drop (i + 3) s" using i by (subst s) simp
  finally have "hd (drop (i + 2) s) = CHR ''>''" by simp
  moreover have "s = take (i + 2) s @ drop (i + 2) s" by simp
  ultimately show ?thesis
    using validate_cut[of "''CDATA''" "take (i + 2) s" "drop (i + 2) s"] assms(2) by simp
qed

lemma fine_CDATA_sections:
  assumes "grows received w b" "state w \<in> {StateText, StateName}" "validateXMLChars ''CDATA'' s = None"
  shows "fine received b (writeCDATASections s w)"
  using assms
proof (induction s w rule: writeCDATASections.induct)
  case (1 s w)
  show ?case
  proof (cases "index_of s '']]>''")
    case None
    with 1 show ?thesis by (subst writeCDATASections.simps) (simp add: fine_CDATA_section)
  next
    case (Some i)
    have "fine received b (try_then (writeCDATASection (take (i + 2) s) w) (writeCDATASections (drop (i + 2) s)))"
      using CDATA_pieces[OF Some] 1 Some CDATA_section_after[of "take (i + 2) s" w]
      by (intro fine_then fine_CDATA_section 1(1)) auto
    with Some show ?thesis by (subst writeCDATASections.simps) simp
  qed
qed

lemma atomic_WriteCDATA:
  assumes g: "grows received w b" shows "atomic received w b (WriteCDATA s w)"
proof (cases "state w \<in> {StateText, StateName}")
  case True
  then show ?thesis using g
    by (simp add: WriteCDATA_def grows_err) (intro atomic_check fine_atomic fine_CDATA_sections; simp)
next
  case False
  then have "writeCDATASection t w = fail ''stream: StartCDATA called in invalid state'' [] w" for t
    using g by (simp add: writeCDATASection_def StartCDATA_def grows_err)
  then have "writeCDATASections s w = fail ''stream: StartCDATA called in invalid state'' [] w"
    by (subst writeCDATASections.simps) (simp split: option.split)
  then show ?thesis using g
    by (simp add: WriteCDATA_def grows_err atomic_check atomic_fail)
qed

lemma atomic_WriteDTD:
  assumes g: "grows received w b" shows "atomic received w b (WriteDTD n p s i w)"
proof -
  have "fine received b (EndDTD u)" if "grows received u b" "state u = StateDTD" for u
    using that by (simp add: EndDTD_def grows_err Let_def fine_finish grows_all)
  then show ?thesis unfolding WriteDTD_def using g StartDTD_after[of n p s w]
    by (intro atomic_then_fine atomic_StartDTD) (simp_all add: grows_all)
qed

lemma fine_Flush:
  assumes "grows received w b" shows "fine received b (Flush w)"
proof -
  obtain k t where k: "out w = Some k" "received k (b @ t)" "err w = None"
    using assms by (auto simp: grows_def written_def)
  show ?thesis
  proof (cases "sk_flush k")
    case None
    then show ?thesis using assms k by (simp add: Flush_def fine_finish)
  next
    case (Some f)
    obtain o' e where f: "f (sk_state k) = (o', e)" by fastforce
    from flush_received[OF k(2) Some this] k Some f show ?thesis
      by (auto simp: Flush_def fine_def grows_def written_def)
  qed
qed

lemma atomic_Flush: "grows received w b \<Longrightarrow> atomic received w b (Flush w)"
  by (intro fine_atomic fine_Flush)

lemma fine_closeElements:
  "grows received w b \<Longrightarrow> fine received b (closeElements n w)"
proof (induction n arbitrary: w)
  case (Suc n)
  then have "fine received b (try_then (EndElement w) (closeElements n))" if "elemStack w \<noteq> []"
    using that by (intro fine_then fine_EndElement) auto
  then show ?case using Suc.prems by (simp add: fine_def)
qed (simp add: fine_def)

lemma atomic_EndDocument:
  assumes g: "grows received w b" shows "atomic received w b (EndDocument w)"
proof -
  have c: "atomic received w b (closeOpenConstruct w)"
    using g by (cases "state w") (simp_all add: closeOpenConstruct_def atomic_simple atomic_def[of _ w b "(None, w)"])
  show ?thesis unfolding EndDocument_def using g
    by (simp add: grows_err) (intro atomic_then_fine c fine_then fine_closeElements; simp add: Let_def fine_Flush grows_all)
qed

lemma atomic_EndElement:
  assumes g: "grows received w b"
  shows "atomic received w b (EndElement w)" "atomic received w b (FullEndElement w)"
  using g fine_EndElement[OF g]
  by (cases "elemStack w"; simp add: fine_atomic EndElement_def FullEndElement_def grows_err atomic_fail)+

end

text \<open>Every call but \<open>StartDocument\<close>.\<close>

fun is_start_document :: "call \<Rightarrow> bool" where
  "is_start_document (CStartDocument v e s) = True"
| "is_start_document c = False"

context reliable_sink
begin

lemma atomic_exec:
  assumes "grows received w b" "\<not> is_start_document c"
  shows "atomic received w b (exec c w)"
  using assms by (cases c)
    (simp_all add: atomic_simple atomic_WriteString atomic_DTD_declarations atomic_StartDTD atomic_StartElementNS
      atomic_StartAttributeNS atomic_WriteElement atomic_WriteAttribute atomic_WriteComment atomic_WritePI
      atomic_WriteCDATA atomic_WriteDTD atomic_Flush atomic_EndDocument atomic_EndElement)

end

text \<open>C11: rejected calls change nothing.  On a destination that does not fail, no call but
  \<open>StartDocument\<close> that returns an error has written a byte or changed the writer, and no call
  takes back what was written before.\<close>

theorem rejected_call_changes_nothing:
  assumes "out w = Some (buffer ws wb b)" "err w = None" "\<not> is_start_document c"
  shows "\<exists>t. written_bytes (snd (exec c w)) = b @ t \<and> (fst (exec c w) \<noteq> None \<longrightarrow> snd (exec c w) = w)"
proof -
  have "grows buffer_received w b"
    using assms by (intro grows_I) (auto simp: written_def buffer_received_def)
  from buf.atomic_exec[OF this assms(3)] show ?thesis
    by (auto simp: atomic_def grows_def dest: written_buffer)
qed

theorem rejected_call_changes_nothing_witness:
  "\<exists>t. written_bytes (snd (exec (CWriteComment ''a--b'') (sample_writer StateText))) = ''<a>'' @ t
     \<and> (fst (exec (CWriteComment ''a--b'') (sample_writer StateText)) \<noteq> None \<longrightarrow>
        snd (exec (CWriteComment ''a--b'') (sample_writer StateText)) = sample_writer StateText)"
  by (rule rejected_call_changes_nothing[of _ True True])
    (simp_all add: sample_writer_def NewWriter_def)

text \<open>The exception: a declaration with version 1.1 and an encoding name that is refused leaves the
  writer in XML 1.1 mode.\<close>

lemma StartDocument_switches_before_rejecting:
  assumes "err w = None" "state w = StateNone" "e \<noteq> ''''" "\<not> IsValidEncName e"
  shows "StartDocument ''1.1'' e '''' w
     = (Some (Errorf ''stream: invalid encoding name %q'' [e]), w\<lparr>xml11 := True\<rparr>)"
  using assms by (simp add: StartDocument_def isValidXMLVersion_def cut_prefix_def fail_def)

end
