(* ===== verification/StreamDoc.thy ===== *)
theory StreamDoc
  imports StreamAtomic
begin

text \<open>
  What whole constructs look like on the output: comments, processing instructions and CDATA
  sections written in pieces, and documents written as trees.  \<open>run_all\<close> is a caller that stops
  at the first error.
\<close>

fun run_all :: "call list \<Rightarrow> 'o writer \<Rightarrow> 'o outcome" where
  "run_all [] w = (None, w)"
| "run_all (c # cs) w = try_then (exec c w) (run_all cs)"

lemma run_all_append: "run_all (cs @ ds) w = try_then (run_all cs w) (run_all ds)"
  by (induction cs arbitrary: w) (auto simp: try_then_def split: option.splits prod.splits)

subsection \<open>Two-byte delimiters across pieces\<close>

lemma contains_pair_Nil: "\<not> contains [] [x, y]"
  by (simp add: contains_def)

lemma contains_pair_Cons:
  "contains (c # s) [x, y] \<longleftrightarrow> (c = x \<and> has_prefix s [y]) \<or> contains s [x, y]"
  by (auto simp: contains_def)

lemma has_suffix_last: "has_suffix u [x] \<longleftrightarrow> u \<noteq> [] \<and> last u = x"
  by (cases u rule: rev_cases) (auto simp: has_suffix_iff)

lemma has_prefix_append1: "has_prefix (u @ s) [y] \<longleftrightarrow> (if u = [] then has_prefix s [y] else has_prefix u [y])"
  by (cases u) auto

lemma contains_pair_append:
  "contains (u @ s) [x, y] \<longleftrightarrow>
     contains u [x, y] \<or> contains s [x, y] \<or> (has_suffix u [x] \<and> has_prefix s [y])"
  by (induction u) (auto simp: contains_pair_Nil contains_pair_Cons has_suffix_last has_prefix_append1)

lemma has_suffix_append: "s \<noteq> [] \<Longrightarrow> has_suffix (u @ s) [x] \<longleftrightarrow> has_suffix s [x]"
  by (simp add: has_suffix_last)

text \<open>The writer's flag across the pieces: \<open>dash\<close> says that the bytes \<open>u\<close> written so far end
  in \<open>x\<close>.\<close>

lemma no_pair_step:
  assumes "\<not> contains u [x, y]" "dash \<longleftrightarrow> has_suffix u [x]" "\<not> (dash \<and> has_prefix s [y])" "\<not> contains s [x, y]"
  shows "\<not> contains (u @ s) [x, y]"
    "(if s = [] then dash else has_suffix s [x]) \<longleftrightarrow> has_suffix (u @ s) [x]"
  using assms by (auto simp: contains_pair_append has_suffix_append)

subsection \<open>Comments and processing instructions\<close>

lemma WriteString_None_err: "WriteString s w = (None, w') \<Longrightarrow> err w = None"
  by (auto simp: WriteString_def finish_def split: if_splits)

lemma comment_text:
  assumes "WriteString s w = (None, w')" "state w = StateComment"
  shows "w' = (if s \<noteq> '''' then (writeStr s w)\<lparr>commentDash := has_suffix s ''-''\<rparr> else writeStr s w)
    \<and> \<not> (commentDash w \<and> has_prefix s ''-'') \<and> \<not> contains s ''--'' \<and> validateXMLChars ''comment'' s = None"
  using assms WriteString_None_err[OF assms(1)]
  by (simp add: WriteString_def try_then_eq_None) (auto simp: finish_def fail_def Let_def split: if_splits)

lemma PI_text:
  assumes "WriteString s w = (None, w')" "state w = StatePI \<or> state w = StatePIText"
  shows "w' = ((if s \<noteq> '''' then (writeStr s w)\<lparr>piQuestion := has_suffix s ''?''\<rparr> else writeStr s w)
           \<lparr>state := StatePIText\<rparr>)
    \<and> \<not> (piQuestion w \<and> has_prefix s ''>'') \<and> \<not> contains s ''?>''
    \<and> validateXMLChars ''processing instruction'' s = None"
  using assms(2) assms(1) WriteString_None_err[OF assms(1)]
  by (elim disjE; simp add: WriteString_def try_then_eq_None)
    (auto simp: finish_def fail_def Let_def split: if_splits)

lemma core_flags:
  assumes "core (w\<lparr>commentDash := a, piQuestion := b\<rparr>) = core (w'\<lparr>commentDash := a, piQuestion := b\<rparr>)"
  shows "state w = state w'" "stateStack w = stateStack w'" "indent w = indent w'" "elemStack w = elemStack w'"
  using core_fields[OF assms] by simp_all

context reliable_sink
begin

lemma comment_chunks:
  assumes "run_all (map CWriteString cs) w = (None, w')" "state w = StateComment"
    "written received w (b @ u)" "\<not> contains u ''--''" "commentDash w \<longleftrightarrow> has_suffix u ''-''"
  shows "written received w' (b @ u @ concat cs) \<and> \<not> contains (u @ concat cs) ''--''
    \<and> (commentDash w' \<longleftrightarrow> has_suffix (u @ concat cs) ''-'') \<and> state w' = StateComment
    \<and> stateStack w' = stateStack w \<and> indent w' = indent w \<and> elemStack w' = elemStack w"
  using assms
proof (induction cs arbitrary: w u)
  case (Cons s cs)
  obtain v where v: "WriteString s w = (None, v)" and r: "run_all (map CWriteString cs) v = (None, w')"
    using Cons.prems(1) by (auto simp: try_then_eq_None)
  note t = comment_text[OF v Cons.prems(2)]
  have o: "written received v (b @ u @ s)"
    using t written_writeStr[OF Cons.prems(3), of s] by (auto split: if_splits)
  have f: "state v = StateComment" "stateStack v = stateStack w" "indent v = indent w" "elemStack v = elemStack w"
    "commentDash v = (if s = [] then commentDash w else has_suffix s ''-'')"
    using t Cons.prems(2) by auto
  show ?case
    using Cons.IH[OF r f(1), of "u @ s"] o f no_pair_step[of u "CHR ''-''" "CHR ''-''" "commentDash w" s]
      t Cons.prems(4,5) by simp
qed simp

lemma PI_chunks:
  assumes "run_all (map CWriteString cs) w = (None, w')" "state w = StatePI \<or> state w = StatePIText"
    "written received w (b @ u)" "\<not> contains u ''?>''" "piQuestion w \<longleftrightarrow> has_suffix u ''?''"
  shows "written received w' (b @ u @ concat cs) \<and> \<not> contains (u @ concat cs) ''?>''
    \<and> (state w' = StatePI \<or> state w' = StatePIText)
    \<and> stateStack w' = stateStack w \<and> indent w' = indent w \<and> elemStack w' = elemStack w"
  using assms
proof (induction cs arbitrary: w u)
  case (Cons s cs)
  obtain v where v: "WriteString s w = (None, v)" and r: "run_all (map CWriteString cs) v = (None, w')"
    using Cons.prems(1) by (auto simp: try_then_eq_None)
  note t = PI_text[OF v Cons.prems(2)]
  have o: "written received v (b @ u @ s)"
    using t written_writeStr[OF Cons.prems(3), of s] by (auto split: if_splits)
  have f: "state v = StatePI \<or> state v = StatePIText" "stateStack v = stateStack w" "indent v = indent w"
    "elemStack v = elemStack w" "piQuestion v = (if s = [] then piQuestion w else has_suffix s ''?'')"
    using t by auto
  show ?case
    using Cons.IH[OF r f(1), of "u @ s"] o f no_pair_step[of u "CHR ''?''" "CHR ''>''" "piQuestion w" s]
      t Cons.prems(4,5) by simp
qed simp

lemma written_trailing_NL:
  "written received w b \<Longrightarrow>
     written received (writeTrailingNL w) (b @ (if indent w = '''' then '''' else [CHR 0x0A]))"
  by (auto simp: writeTrailingNL_def written_writeStr)

end

lemma outside_after_open:
  assumes "state w \<in> {StateNone, StateDocument, StateText}"
  shows "StartComment w = (None, u) \<Longrightarrow> u = pushState StateComment ((writeStr ''<!--'' (markParentChild w))\<lparr>commentDash := False\<rparr>)"
    "StartPI t w = (None, u) \<Longrightarrow> u = pushState StatePI ((writeStr t (writeStr ''<?'' (markParentChild w)))\<lparr>piQuestion := False\<rparr>)"
  using assms
  by (auto simp: StartComment_def StartPI_def finish_def fail_def Let_def split: if_splits)

lemma written_markParentChild [simp]: "written R (markParentChild w) b = written R w b"
  by (simp add: markParentChild_def)

text \<open>a comment written in pieces is well formed.  Whatever pieces a caller feeds to
  \<open>WriteString\<close> between \<open>StartComment\<close> and \<open>EndComment\<close>, when no call fails the output is
  the pieces between \<open><!--\<close> and \<open>-->\<close>, the body contains no \<open>--\<close> and does not end in
  \<open>-\<close>, also across pieces, and the writer is back in the state it started from.\<close>

theorem comment_in_pieces:
  assumes "out w = Some (buffer ws wb b)" "state w \<in> {StateNone, StateDocument, StateText}"
    "run_all (CStartComment # map CWriteString cs @ [CEndComment]) w = (None, w')"
  shows "written_bytes w' = b @ ''<!--'' @ concat cs @ ''-->'' @ (if indent w = '''' then '''' else [CHR 0x0A])
    \<and> \<not> contains (concat cs) ''--'' \<and> \<not> has_suffix (concat cs) ''-''
    \<and> state w' = state w \<and> stateStack w' = stateStack w"
proof -
  obtain u v where u: "StartComment w = (None, u)" and v: "run_all (map CWriteString cs) u = (None, v)"
    and e: "EndComment v = (None, w')"
    using assms(3) by (auto simp: run_all_append try_then_eq_None)
  have "err w = None" using u by (auto simp: StartComment_def finish_def split: if_splits)
  then have w: "written buffer_received w b" using assms(1) by (auto simp: written_def buffer_received_def)
  note u' = outside_after_open(1)[OF assms(2) u]
  have "written buffer_received u (b @ ''<!--'')"
    using buf.written_writeStr[of "markParentChild w" b "''<!--''"] w by (simp add: u' pushState_def)
  then have c: "written buffer_received v ((b @ ''<!--'') @ concat cs) \<and> \<not> contains (concat cs) ''--''
      \<and> (commentDash v \<longleftrightarrow> has_suffix (concat cs) ''-'') \<and> stateStack v = state w # stateStack w \<and> indent v = indent w"
    using buf.comment_chunks[OF v, of "b @ ''<!--''" "[]"] by (simp add: u' pushState_def contains_pair_Nil has_suffix_last)
  have e': "w' = popState StateDocument (writeTrailingNL (writeStr ''-->'' v))" "\<not> commentDash v"
    using e by (auto simp: EndComment_def finish_def fail_def split: if_splits)
  have "written buffer_received w' (b @ ''<!--'' @ concat cs @ ''-->'' @ (if indent w = '''' then '''' else [CHR 0x0A]))"
    using buf.written_trailing_NL[OF buf.written_writeStr[of v "(b @ ''<!--'') @ concat cs" "''-->''"]] c
    by (auto simp add: e' popState_def)
  from written_buffer[OF this] show ?thesis using c e' by (auto simp: popState_def)
qed

theorem comment_in_pieces_witness:
  "written_bytes (snd (run_all (CStartComment # map CWriteString [''a-'', '' b''] @ [CEndComment])
     (sample_writer StateText))) = ''<a><!--a- b-->''"
proof -
  let ?w = "sample_writer StateText" and ?r = "\<lambda>w. run_all (CStartComment # map CWriteString [''a-'', '' b''] @ [CEndComment]) w"
  have v: "validateXMLChars ''comment'' ''a-'' = None" "validateXMLChars ''comment'' '' b'' = None"
    by (simp_all add: validateXMLChars_None IsChar_def)
  have "fst (?r ?w) = None"
    by (simp add: sample_writer_def NewWriter_def StartComment_def EndComment_def WriteString_def v
        finish_def pushState_def popState_def markParentChild_def map_top_def
        contains_def has_suffix_def Let_def writeStr_def ensureWritable_def put_out_def
        buffer_methods buffer_def io_WriteString_def writeTrailingNL_def)
  then have "?r ?w = (None, snd (?r ?w))" by (metis prod.collapse)
  from comment_in_pieces[OF _ _ this, of True True "''<a>''"]
  show ?thesis by (simp add: sample_writer_def NewWriter_def del: run_all.simps)
qed

subsection \<open>CDATA sections\<close>

text \<open>What a reader gets from a sequence of CDATA sections.\<close>

function read_cdata :: "string \<Rightarrow> string option" where
  "read_cdata s =
     (if s = '''' then Some ''''
      else case cut_prefix s ''<![CDATA['' of None \<Rightarrow> None
      | Some t \<Rightarrow> (case index_of t '']]>'' of None \<Rightarrow> None
          | Some i \<Rightarrow> map_option ((@) (take i t)) (read_cdata (drop (i + 3) t))))"
  by pat_completeness auto
termination
proof (relation "measure length")
  fix s t :: string and i
  assume "s \<noteq> ''''" "cut_prefix s ''<![CDATA['' = Some t"
  then show "(drop (i + 3) t, s) \<in> measure length"
    by (cases s) (auto simp: cut_prefix_def split: if_splits)
qed simp

declare read_cdata.simps [simp del]

text \<open>The sections \<open>WriteCDATA\<close> makes of its argument.\<close>

function cdata_pieces :: "string \<Rightarrow> string list" where
  "cdata_pieces s = (case index_of s '']]>'' of None \<Rightarrow> [s]
     | Some i \<Rightarrow> take (i + 2) s # cdata_pieces (drop (i + 2) s))"
  by pat_completeness auto
termination
proof (relation "measure length")
  fix s :: string and i
  assume "index_of s '']]>'' = Some i"
  from conjunct1[OF index_of_Some[OF this]] show "(drop (i + 2) s, s) \<in> measure length"
    by simp
qed simp

declare cdata_pieces.simps [simp del]

definition cdata_section :: "string \<Rightarrow> string" where
  "cdata_section p = ''<![CDATA['' @ p @ '']]>''"

lemma cdata_ref_plain: "\<not> contains (replicate n CHR '']'' @ u) '']]>'' \<Longrightarrow> cdata_ref n u = u"
proof (induction u arbitrary: n)
  case (Cons c u)
  show ?case
  proof (cases "c = CHR '']''")
    case True
    have "replicate n CHR '']'' @ c # u = replicate (Suc n) CHR '']'' @ u"
      using True by (simp add: replicate_app_Cons_same)
    with Cons.IH[of "Suc n"] Cons.prems have "cdata_ref (Suc n) u = u" by metis
    with True show ?thesis by simp
  next
    case False
    have "\<not> contains (replicate 0 CHR '']'' @ u) '']]>''"
      using Cons.prems contains_append[of u "'']]>''" "replicate n CHR '']'' @ [c]" "[]"] by auto
    moreover have "\<not> (c = CHR ''>'' \<and> 2 \<le> n)"
    proof
      assume h: "c = CHR ''>'' \<and> 2 \<le> n"
      then obtain m where m: "n = m + 2" by (metis add.commute le_Suc_ex)
      have "replicate n CHR '']'' @ c # u = replicate m CHR '']'' @ '']]>'' @ u"
        using h by (simp add: m replicate_app_Cons_same)
      with Cons.prems show False by (auto simp: contains_iff)
    qed
    ultimately show ?thesis using Cons.IH[of 0] False by auto
  qed
qed simp

lemma brackets_end: "brackets_after n (p @ '']]'') \<ge> 2"
  by (simp add: brackets_after_append)

lemma cdata_ref_pieces:
  "cdata_section (cdata_ref 0 s) = concat (map cdata_section (cdata_pieces s))"
proof (induction s rule: cdata_pieces.induct)
  case (1 s)
  show ?case
  proof (cases "index_of s '']]>''")
    case None
    then show ?thesis using cdata_ref_plain[of 0 s]
      by (subst cdata_pieces.simps) (simp add: contains_def)
  next
    case (Some i)
    have s: "s = take i s @ '']]>'' @ drop (i + 3) s" "i + 3 \<le> length s"
      using index_of_Some[OF Some] by (auto simp: numeral_3_eq_3)
    have t: "take (i + 2) s = take i s @ '']]''" "drop (i + 2) s = CHR ''>'' # drop (i + 3) s"
      using s(2) by (subst s(1); simp add: min_def)+
    have "\<not> contains (take (i + 2) s) '']]>''" using index_of_first[OF Some] by simp
    then have r: "cdata_ref 0 (take (i + 2) s) = take (i + 2) s" using cdata_ref_plain[of 0 "take (i + 2) s"] by simp
    have "cdata_ref 0 s = cdata_ref 0 (take (i + 2) s @ drop (i + 2) s)" by simp
    also have "\<dots> = take (i + 2) s @ '']]><![CDATA['' @ cdata_ref 0 (drop (i + 2) s)"
      using brackets_end[of 0 "take i s"]
      by (simp only: cdata_ref_append r) (simp only: t, simp)
    finally have "cdata_section (cdata_ref 0 s)
        = cdata_section (take (i + 2) s) @ cdata_section (cdata_ref 0 (drop (i + 2) s))"
      by (simp add: cdata_section_def)
    with 1[OF Some] Some show ?thesis by (subst cdata_pieces.simps) simp
  qed
qed

lemma index_of_end:
  "\<not> contains u '']]>'' \<Longrightarrow> index_of (u @ '']]>'' @ r) '']]>'' = Some (length u)"
proof (induction u)
  case (Cons c u)
  have "\<not> has_prefix ((c # u) @ '']]>'' @ r) '']]>''"
    using Cons.prems by (cases u; cases "tl u") (auto simp: contains_def)
  moreover have "\<not> contains u '']]>''" using Cons.prems contains_append[of u "'']]>''" "[c]" "[]"] by auto
  ultimately show ?case using Cons.IH by simp
qed simp

lemma read_cdata_section:
  "\<not> contains p '']]>'' \<Longrightarrow> read_cdata (cdata_section p @ r) = map_option ((@) p) (read_cdata r)"
  using index_of_end[of p r]
  by (subst read_cdata.simps) (simp add: cdata_section_def cut_prefix_def)

lemma pieces_plain: "p \<in> set (cdata_pieces s) \<Longrightarrow> \<not> contains p '']]>''"
proof (induction s rule: cdata_pieces.induct)
  case (1 s)
  show ?case
  proof (cases "index_of s '']]>''")
    case None
    with 1 show ?thesis by (subst (asm) (2) cdata_pieces.simps) (simp add: contains_def)
  next
    case (Some i)
    then have "p = take (i + 2) s \<or> p \<in> set (cdata_pieces (drop (i + 2) s))"
      using 1(2) by (subst (asm) cdata_pieces.simps) simp
    with 1(1)[OF Some] index_of_first[OF Some] show ?thesis by auto
  qed
qed

lemma concat_pieces: "concat (cdata_pieces s) = s"
proof (induction s rule: cdata_pieces.induct)
  case (1 s)
  then show ?case by (subst cdata_pieces.simps) (auto split: option.split)
qed

lemma read_cdata_pieces:
  "(\<And>p. p \<in> set ps \<Longrightarrow> \<not> contains p '']]>'') \<Longrightarrow> read_cdata (concat (map cdata_section ps)) = Some (concat ps)"
  by (induction ps) (auto simp: read_cdata_section read_cdata.simps[of "[]"])

lemma read_cdata_ref: "read_cdata (cdata_section (cdata_ref 0 s)) = Some s"
  using read_cdata_pieces[of "cdata_pieces s"] pieces_plain by (simp add: cdata_ref_pieces concat_pieces)

lemma CDATA_text:
  assumes "WriteString s w = (None, w')" "state w = StateCDATA"
  shows "w' = writeCDATAEscaped s w"
  using assms WriteString_None_err[OF assms(1)]
  by (simp add: WriteString_def try_then_eq_None) (auto simp: finish_def)

lemma CDATA_open:
  assumes "StartCDATA w = (None, u)" "state w = StateText"
  shows "u = pushState StateCDATA ((writeStr ''<![CDATA[''
     (w\<lparr>elemStack := map_top (\<lambda>e. e\<lparr>ee_empty := False, ee_hasText := True\<rparr>) (elemStack w)\<rparr>))\<lparr>cdataBrackets := 0\<rparr>)"
  using assms by (auto simp: StartCDATA_def finish_def fail_def Let_def split: if_splits)

lemma CDATA_close:
  assumes "EndCDATA v = (None, w')" shows "w' = popState StateText (writeStr '']]>'' v) \<and> err v = None"
  using assms by (auto simp: EndCDATA_def finish_def fail_def split: if_splits)

context reliable_sink
begin

lemma CDATA_chunks:
  assumes "run_all (map CWriteString cs) w = (None, w')" "state w = StateCDATA" "written received w b"
  shows "written received w' (b @ cdata_ref (cdataBrackets w) (concat cs)) \<and> stateStack w' = stateStack w
    \<and> state w' = StateCDATA"
  using assms
proof (induction cs arbitrary: w b)
  case (Cons s cs)
  obtain v where v: "WriteString s w = (None, v)" and r: "run_all (map CWriteString cs) v = (None, w')"
    using Cons.prems(1) by (auto simp: try_then_eq_None)
  have t: "v = writeCDATAEscaped s w" by (rule CDATA_text[OF v Cons.prems(2)])
  show ?case
    using Cons.IH[OF r, of "b @ cdata_ref (cdataBrackets w) s"] CDATA_text_after[OF v Cons.prems(2)]
      written_writeCDATAEscaped[OF Cons.prems(3), of s]
    by (simp add: t cdata_ref_append)
qed simp

lemma CDATA_run:
  assumes "run_all (CStartCDATA # map CWriteString cs @ [CEndCDATA]) w = (None, w')" "state w = StateText"
    "written received w b"
  shows "written received w' (b @ cdata_section (cdata_ref 0 (concat cs))) \<and> state w' = StateText
    \<and> stateStack w' = stateStack w"
proof -
  obtain u v where u: "StartCDATA w = (None, u)" and v: "run_all (map CWriteString cs) u = (None, v)"
    and e: "EndCDATA v = (None, w')"
    using assms(1) by (auto simp: run_all_append try_then_eq_None)
  note u' = CDATA_open[OF u assms(2)]
  have "written received u (b @ ''<![CDATA['')"
    using assms(3) by (simp add: u' pushState_def written_writeStr)
  from CDATA_chunks[OF v _ this] have
    "written received v ((b @ ''<![CDATA['') @ cdata_ref 0 (concat cs)) \<and> stateStack v = StateText # stateStack w"
    using assms(2) by (simp add: u' pushState_def)
  then show ?thesis using written_writeStr[of v "(b @ ''<![CDATA['') @ cdata_ref 0 (concat cs)" "'']]>''"]
      CDATA_close[OF e]
    by (simp add: popState_def cdata_section_def)
qed

lemma CDATA_sections_run:
  assumes "writeCDATASections s w = (None, w')" "state w = StateText" "written received w b"
  shows "written received w' (b @ concat (map cdata_section (cdata_pieces s))) \<and> state w' = StateText
    \<and> stateStack w' = stateStack w"
  using assms
proof (induction s w arbitrary: b rule: writeCDATASections.induct)
  case (1 s w)
  have sec: "written received u (c @ cdata_section (cdata_ref 0 p)) \<and> state u = StateText \<and> stateStack u = stateStack v"
    if "writeCDATASection p v = (None, u)" "state v = StateText" "written received v c" for p v u c
    using CDATA_run[of "[p]" v u c] that by (auto simp: writeCDATASection_def try_then_eq_None)
  show ?case
  proof (cases "index_of s '']]>''")
    case None
    then have "writeCDATASection s w = (None, w')" using 1(2) by (subst (asm) writeCDATASections.simps) simp
    from sec[OF this 1(3,4)] None cdata_ref_plain[of 0 s] show ?thesis
      by (subst cdata_pieces.simps) (simp add: contains_def)
  next
    case (Some i)
    then obtain u where u: "writeCDATASection (take (i + 2) s) w = (None, u)"
      and r: "writeCDATASections (drop (i + 2) s) u = (None, w')"
      using 1(2) by (subst (asm) writeCDATASections.simps) (auto simp: try_then_eq_None)
    have p: "cdata_ref 0 (take (i + 2) s) = take (i + 2) s"
      using index_of_first[OF Some] cdata_ref_plain[of 0 "take (i + 2) s"] by simp
    note su = sec[OF u 1(3,4), unfolded p]
    from 1(1)[OF Some r, of "b @ cdata_section (take (i + 2) s)"] su Some
    show ?thesis by (subst cdata_pieces.simps) simp
  qed
qed

end

text \<open>C29: CDATA survives.  A string written as CDATA, with \<open>WriteCDATA\<close> or in any pieces between
  \<open>StartCDATA\<close> and \<open>EndCDATA\<close>, comes out as the same sequence of sections, split wherever
  \<open>]]>\<close> occurs, and a reader of those sections gets the string back.\<close>

theorem cdata_roundtrip:
  assumes "out w = Some (buffer ws wb b)" "err w = None" "state w = StateText"
    "WriteCDATA (concat cs) w = (None, w') \<or> run_all (CStartCDATA # map CWriteString cs @ [CEndCDATA]) w = (None, w')"
  shows "\<exists>e. written_bytes w' = b @ e \<and> e = concat (map cdata_section (cdata_pieces (concat cs)))
    \<and> read_cdata e = Some (concat cs) \<and> state w' = StateText \<and> stateStack w' = stateStack w"
proof -
  let ?e = "concat (map cdata_section (cdata_pieces (concat cs)))"
  have w: "written buffer_received w b" using assms(1,2) by (auto simp: written_def buffer_received_def)
  have "writeCDATASections (concat cs) w = (None, w')" if "WriteCDATA (concat cs) w = (None, w')"
    using that assms(2) by (auto simp: WriteCDATA_def try_then_eq_None)
  then have "written buffer_received w' (b @ ?e) \<and> state w' = StateText \<and> stateStack w' = stateStack w"
    using assms(4) buf.CDATA_run[of cs w w' b] buf.CDATA_sections_run[of "concat cs" w w' b] assms(3) w
    by (auto simp: cdata_ref_pieces)
  moreover have "read_cdata ?e = Some (concat cs)"
    using read_cdata_ref[of "concat cs"] by (simp add: cdata_ref_pieces)
  ultimately show ?thesis using written_buffer by blast
qed

theorem cdata_roundtrip_witness:
  "\<exists>w'. WriteCDATA ''a]]>b'' (sample_writer StateText) = (None, w')
     \<and> written_bytes w' = ''<a>'' @ concat (map cdata_section (cdata_pieces ''a]]>b''))"
proof -
  let ?w = "sample_writer StateText"
  have g: "grows buffer_received ?w ''<a>''"
    by (intro grows_I) (auto simp: written_def buffer_received_def sample_writer_def NewWriter_def)
  have v: "validateXMLChars ''CDATA'' ''a]]>b'' = None" by (simp add: validateXMLChars_None IsChar_def)
  have "fine buffer_received ''<a>'' (writeCDATASections ''a]]>b'' ?w)"
    by (rule buf.fine_CDATA_sections[OF g _ v]) (simp add: sample_writer_def)
  then obtain w' where w': "WriteCDATA (concat [''a]]>b'']) ?w = (None, w')"
    by (cases "writeCDATASections ''a]]>b'' ?w") (simp add: fine_def WriteCDATA_def v sample_writer_def NewWriter_def)
  then have "WriteCDATA ''a]]>b'' ?w = (None, w')" by simp
  with cdata_roundtrip[OF _ _ _ disjI1[OF w'], of True True "''<a>''"] show ?thesis
    by (auto simp: sample_writer_def NewWriter_def)
qed

end
