(* ===== verification/StreamTree.thy ===== *)
theory StreamTree
  imports StreamDoc
begin

text \<open>
  Writing a document as a tree.  \<open>node_calls\<close> is the sequence of calls for a tree, \<open>ser\<close> its
  serialization, and the writer, driven by the calls, appends the serialization.  The proof is a
  functional refinement: one lemma per call says what it appends and that the surrounding stacks
  are as before.
\<close>

datatype xnode = Elem string "(string \<times> string) list" "xnode list" | TextNode string
  | CommentNode string | PINode string string | CDataNode string

fun node_calls :: "xnode \<Rightarrow> call list" where
  "node_calls (Elem n as cs) =
     CStartElement n # map (\<lambda>(a, v). CWriteAttribute a v) as @ concat (map node_calls cs) @ [CEndElement]"
| "node_calls (TextNode s) = [CWriteString s]"
| "node_calls (CommentNode s) = [CWriteComment s]"
| "node_calls (PINode t s) = [CWritePI t s]"
| "node_calls (CDataNode s) = [CWriteCDATA s]"

definition ser_attr :: "char \<Rightarrow> bool \<Rightarrow> string \<times> string \<Rightarrow> string" where
  "ser_attr q x av = CHR '' '' # fst av @ CHR ''='' # q # escape_ref EscapeAttr q x (snd av) @ [q]"

fun ser :: "char \<Rightarrow> bool \<Rightarrow> xnode \<Rightarrow> string" where
  "ser q x (Elem n as cs) = CHR ''<'' # n @ concat (map (ser_attr q x) as)
     @ (if cs = [] then ''/>'' else CHR ''>'' # concat (map (ser q x) cs) @ ''</'' @ n @ ''>'')"
| "ser q x (TextNode s) = escape_ref EscapeText q x s"
| "ser q x (CommentNode s) = ''<!--'' @ s @ ''-->''"
| "ser q x (PINode t s) = ''<?'' @ t @ (if s = [] then [] else CHR '' '' # s) @ ''?>''"
| "ser q x (CDataNode s) = concat (map cdata_section (cdata_pieces s))"

text \<open>The trees the writer accepts.\<close>

definition content_ok :: "bool \<Rightarrow> string \<Rightarrow> bool" where
  "content_ok x s \<longleftrightarrow> valid_utf8 s \<and> list_all (xml_char x) (runes s)"

fun node_ok :: "bool \<Rightarrow> xnode \<Rightarrow> bool" where
  "node_ok x (Elem n as cs) \<longleftrightarrow> IsValidQName n \<and> list_all (\<lambda>av. IsValidQName (fst av) \<and> content_ok x (snd av)) as
     \<and> list_all (node_ok x) cs"
| "node_ok x (TextNode s) \<longleftrightarrow> content_ok x s"
| "node_ok x (CommentNode s) \<longleftrightarrow> content_ok False s \<and> \<not> contains s ''--'' \<and> \<not> has_suffix s ''-''"
| "node_ok x (PINode t s) \<longleftrightarrow> IsValidPITarget t \<and> t \<noteq> '''' \<and> \<not> equal_fold t ''xml'' \<and> content_ok False s
     \<and> \<not> contains s ''?>''"
| "node_ok x (CDataNode s) \<longleftrightarrow> content_ok False s"

lemma content_ok_validate:
  "content_ok False s \<longleftrightarrow> validateXMLChars k s = None" "content_ok (xml11 w) s \<longleftrightarrow> validateContentChars k s w = None"
  by (simp_all add: content_ok_def validateXMLChars_None validateContentChars_None)
    (simp add: xml_char_def[abs_def])

text \<open>What a construct leaves as it found it.\<close>

definition same_ctx :: "'o writer \<Rightarrow> 'o writer \<Rightarrow> bool" where
  "same_ctx w w' \<longleftrightarrow> map ee_name (elemStack w') = map ee_name (elemStack w) \<and> nsStack w' = nsStack w
     \<and> stateStack w' = stateStack w \<and> quoteChar w' = quoteChar w \<and> xml11 w' = xml11 w \<and> indent w' = indent w"

lemma same_ctx_refl [simp]: "same_ctx w w"
  by (simp add: same_ctx_def)

lemma same_ctx_trans: "same_ctx u v \<Longrightarrow> same_ctx v w \<Longrightarrow> same_ctx u w"
  by (simp add: same_ctx_def)

lemma map_name_map_top: "(\<And>e. ee_name (f e) = ee_name e) \<Longrightarrow> map ee_name (map_top f xs) = map ee_name xs"
  by (cases xs) (auto simp: map_top_def)

lemma CDATA_section_ctx:
  assumes "writeCDATASection s w = (None, w')" "state w = StateText"
  shows "same_ctx w w' \<and> state w' = StateText"
proof -
  obtain u v where u: "StartCDATA w = (None, u)" and v: "WriteString s u = (None, v)"
    and e: "EndCDATA v = (None, w')"
    using assms(1) by (auto simp: writeCDATASection_def try_then_eq_None)
  obtain n where n: "core (writeCDATAEscaped s u) = core (u\<lparr>cdataBrackets := n\<rparr>)"
    using core_writeCDATAEscaped by blast
  note u' = CDATA_open[OF u assms(2)]
  have "v = writeCDATAEscaped s u" by (rule CDATA_text[OF v]) (simp add: u' pushState_def)
  with core_fields[OF n] CDATA_close[OF e] show ?thesis
    by (simp add: same_ctx_def popState_def u' pushState_def map_name_map_top assms(2))
qed

lemma CDATA_sections_ctx:
  "writeCDATASections s w = (None, w') \<Longrightarrow> state w = StateText \<Longrightarrow> same_ctx w w'"
proof (induction s w rule: writeCDATASections.induct)
  case (1 s w)
  show ?case
  proof (cases "index_of s '']]>''")
    case None
    with 1(2,3) CDATA_section_ctx show ?thesis by (subst (asm) writeCDATASections.simps) auto
  next
    case (Some i)
    then obtain u where u: "writeCDATASection (take (i + 2) s) w = (None, u)"
      and r: "writeCDATASections (drop (i + 2) s) u = (None, w')"
      using 1(2) by (subst (asm) writeCDATASections.simps) (auto simp: try_then_eq_None)
    with 1(1)[OF Some r] CDATA_section_ctx[OF u 1(3)] show ?thesis using same_ctx_trans by blast
  qed
qed

text \<open>\<open>puts R w b r\<close>: the call has succeeded, the output is \<open>b\<close>, and the writer is back in text.\<close>

definition puts :: "('o sink \<Rightarrow> string \<Rightarrow> bool) \<Rightarrow> 'o writer \<Rightarrow> string \<Rightarrow> 'o outcome \<Rightarrow> bool" where
  "puts R w b r \<longleftrightarrow> fst r = None \<and> written R (snd r) b \<and> state (snd r) = StateText \<and> same_ctx w (snd r)"

context reliable_sink
begin

lemma puts_text:
  assumes "written received w b" "state w = StateText" "content_ok (xml11 w) s"
  shows "puts received w (b @ escape_ref EscapeText (quoteChar w) (xml11 w) s) (WriteString s w)"
proof -
  have m: "written received (markText w) b" using assms(1) by (simp add: markText_def)
  have "same_ctx w (writeTextEscaped s (markText w))"
    by (simp add: same_ctx_def) (simp add: markText_def map_name_map_top)
  then show ?thesis using written_writeEscaped[OF m, of EscapeText s] assms
    by (simp add: WriteString_def puts_def written_err content_ok_validate(2)[of w s "''text''"]
        writeTextEscaped_def)
qed

lemma puts_pop:
  assumes "written received v b" "stateStack v = StateText # stateStack w"
    "map ee_name (elemStack v) = map ee_name (elemStack w)" "nsStack v = nsStack w" "quoteChar v = quoteChar w"
    "xml11 v = xml11 w" "indent v = indent w"
  shows "puts received w b (finish (popState fb v))"
  using assms by (simp add: puts_def popState_def same_ctx_def written_err)

lemma puts_comment:
  assumes "written received w b" "state w = StateText" "indent w = ''''" "node_ok x (CommentNode s)"
  shows "puts received w (b @ ser q x (CommentNode s)) (WriteComment s w)"
proof -
  let ?u = "pushState StateComment ((writeStr ''<!--'' (markParentChild w))\<lparr>commentDash := False\<rparr>)"
  let ?v = "if s \<noteq> '''' then (writeStr s ?u)\<lparr>commentDash := has_suffix s ''-''\<rparr> else writeStr s ?u"
  have v: "validateXMLChars ''comment'' s = None"
    using assms(4) content_ok_validate(1)[of s "''comment''"] by simp
  have u: "written received ?u (b @ ''<!--'')"
    using written_writeStr[of "markParentChild w" b "''<!--''"] assms(1) by (simp add: pushState_def)
  have w: "written received ?v (b @ ''<!--'' @ s)"
    using written_writeStr[OF u, of s] by (cases s) simp_all
  have "written received (writeStr ''-->'' ?v) (b @ ser q x (CommentNode s))"
    using written_writeStr[OF w, of "''-->''"] by simp
  then have "puts received w (b @ ser q x (CommentNode s)) (finish (popState StateDocument (writeStr ''-->'' ?v)))"
    by (rule puts_pop) (auto simp: pushState_def assms(2), simp_all add: markParentChild_def map_name_map_top)
  moreover have "WriteComment s w = finish (popState StateDocument (writeStr ''-->'' ?v))"
    using assms u w
    by (auto simp: WriteComment_def v written_err StartComment_def Let_def WriteString_def
        EndComment_def writeTrailingNL_def pushState_def)
  ultimately show ?thesis by simp
qed

lemma puts_PI:
  assumes "written received w b" "state w = StateText" "indent w = ''''" "node_ok x (PINode t s)"
  shows "puts received w (b @ ser q x (PINode t s)) (WritePI t s w)"
proof -
  let ?u = "pushState StatePI ((writeStr t (writeStr ''<?'' (markParentChild w)))\<lparr>piQuestion := False\<rparr>)"
  have v: "validateXMLChars ''processing instruction'' s = None"
    using assms(4) content_ok_validate(1)[of s "''processing instruction''"] by simp
  have u: "written received ?u (b @ ''<?'' @ t)"
    using written_writeStr[OF written_writeStr[of "markParentChild w" b "''<?''"], of t] assms(1)
    by (simp add: pushState_def)
  have st: "StartPI t w = (None, ?u)"
    using assms u by (simp add: StartPI_def written_err finish_def)
  show ?thesis
  proof (cases "s = ''''")
    case True
    have "written received (writeStr ''?>'' ?u) (b @ ser q x (PINode t s))"
      using written_writeStr[OF u, of "''?>''"] True by simp
    then have "puts received w (b @ ser q x (PINode t s)) (finish (popState StateDocument (writeStr ''?>'' ?u)))"
      by (rule puts_pop) (auto simp: pushState_def assms(2), simp_all add: markParentChild_def map_name_map_top)
    moreover have "EndPI ?u = finish (popState StateDocument (writeStr ''?>'' ?u))"
      using u assms(3) by (simp add: EndPI_def written_err writeTrailingNL_def) (simp add: pushState_def)
    ultimately show ?thesis using assms True v st by (simp add: WritePI_def written_err)
  next
    case False
    let ?v = "((writeStr s (writeByte CHR '' '' ?u))\<lparr>piQuestion := has_suffix s ''?''\<rparr>)\<lparr>state := StatePIText\<rparr>"
    have sp: "written received (writeByte CHR '' '' ?u) (b @ ''<?'' @ t @ '' '')"
      using written_writeByte[OF u, of "CHR '' ''"] by simp
    have w: "written received ?v (b @ ''<?'' @ t @ '' '' @ s)"
      using written_writeStr[OF sp, of s] by simp
    have "written received (writeStr ''?>'' ?v) (b @ ser q x (PINode t s))"
      using written_writeStr[OF w, of "''?>''"] False by simp
    then have "puts received w (b @ ser q x (PINode t s)) (finish (popState StateDocument (writeStr ''?>'' ?v)))"
      by (rule puts_pop) (auto simp: pushState_def assms(2), simp_all add: markParentChild_def map_name_map_top)
    moreover have "EndPI ?v = finish (popState StateDocument (writeStr ''?>'' ?v))"
      using w assms(3) by (simp add: EndPI_def written_err writeTrailingNL_def) (simp add: pushState_def)
    moreover have "WriteString s (writeByte CHR '' '' ?u) = (None, ?v)"
      using sp w False assms(4) v by (simp add: WriteString_def written_err Let_def)
        (simp add: pushState_def finish_def written_err)
    ultimately show ?thesis using assms False v st by (simp add: WritePI_def written_err)
  qed
qed

lemma puts_CDATA:
  assumes "written received w b" "state w = StateText" "node_ok x (CDataNode s)"
  shows "puts received w (b @ ser q x (CDataNode s)) (WriteCDATA s w)"
proof -
  have v: "validateXMLChars ''CDATA'' s = None"
    using assms(3) content_ok_validate(1)[of s "''CDATA''"] by simp
  have "fine received b (writeCDATASections s w)"
    using fine_CDATA_sections[OF grows_I[OF assms(1)]] assms(2) v by simp
  then obtain w' where w': "writeCDATASections s w = (None, w')"
    by (cases "writeCDATASections s w") (simp add: fine_def)
  have "same_ctx w w'" by (rule CDATA_sections_ctx[OF w' assms(2)])
  then show ?thesis using CDATA_sections_run[OF w' assms(2,1)] w' v assms(1)
    by (simp add: puts_def WriteCDATA_def written_err)
qed

end

subsection \<open>Elements\<close>

text \<open>The writer is in the start tag of \<open>n\<close>, opened on \<open>w\<close>.\<close>

definition in_tag :: "('o sink \<Rightarrow> string \<Rightarrow> bool) \<Rightarrow> 'o writer \<Rightarrow> string \<Rightarrow> string \<Rightarrow> 'o writer \<Rightarrow> bool" where
  "in_tag R w n b v \<longleftrightarrow> written R v b \<and> state v = StateName
     \<and> (\<exists>e es. elemStack v = e # es \<and> ee_name e = n \<and> ee_empty e \<and> map ee_name es = map ee_name (elemStack w))
     \<and> nsStack v = \<lparr>decls = [], emitted = 0\<rparr> # nsStack w \<and> stateStack v = stateStack w
     \<and> quoteChar v = quoteChar w \<and> xml11 v = xml11 w \<and> indent v = indent w"

text \<open>The writer is in the content of \<open>n\<close>.\<close>

definition in_content :: "('o sink \<Rightarrow> string \<Rightarrow> bool) \<Rightarrow> 'o writer \<Rightarrow> string \<Rightarrow> string \<Rightarrow> 'o writer \<Rightarrow> bool" where
  "in_content R w n b v \<longleftrightarrow> written R v b \<and> state v = StateText
     \<and> map ee_name (elemStack v) = n # map ee_name (elemStack w)
     \<and> nsStack v = \<lparr>decls = [], emitted = 0\<rparr> # nsStack w \<and> stateStack v = stateStack w
     \<and> quoteChar v = quoteChar w \<and> xml11 v = xml11 w \<and> indent v = indent w"

lemma emitPendingNS_none: "nsStack w = \<lparr>decls = [], emitted = 0\<rparr> # scs \<Longrightarrow> emitPendingNS w = w"
  by (cases w) (simp add: emitPendingNS_def map_top_def)

definition left :: "('o sink \<Rightarrow> string \<Rightarrow> bool) \<Rightarrow> 'o writer \<Rightarrow> string \<Rightarrow> 'o outcome \<Rightarrow> bool" where
  "left R w b r \<longleftrightarrow> fst r = None \<and> written R (snd r) b
     \<and> state (snd r) = (if elemStack w = [] then StateDocument else StateText) \<and> same_ctx w (snd r)"

context reliable_sink
begin

lemma StartElement_puts:
  assumes "written received w b" "state w \<in> {StateNone, StateDocument, StateText}" "indent w = ''''" "IsValidQName n"
  shows "\<exists>v. StartElement n w = (None, v) \<and> in_tag received w n (b @ CHR ''<'' # n) v"
proof -
  let ?v = "writeStr n (writeByte CHR ''<'' (markParentChild w))"
  have v: "written received ?v (b @ CHR ''<'' # n)"
    using written_writeStr[OF written_writeByte[of "markParentChild w" b "CHR ''<''"], of n] assms(1) by simp
  have "StartElement n w = finish (?v\<lparr>hasOutput := True,
      elemStack := \<lparr>ee_name = n, ee_empty = True, ee_hasText = False, ee_hasChild = False\<rparr> # elemStack ?v,
      nsStack := \<lparr>decls = [], emitted = 0\<rparr> # nsStack ?v, state := StateName, depth := depth ?v + 1\<rparr>)"
    using assms qname_not_Nil[OF assms(4)]
    by (auto simp: StartElement_def written_err writeIndent_def Let_def)
  then show ?thesis using v
    by (auto simp: finish_def in_tag_def written_err) (simp add: markParentChild_def map_name_map_top)
qed

lemma WriteAttribute_puts:
  assumes "in_tag received w n b v" "IsValidQName a" "content_ok (xml11 w) s"
  shows "\<exists>v'. WriteAttribute a s v = (None, v')
     \<and> in_tag received w n (b @ ser_attr (quoteChar w) (xml11 w) (a, s)) v'"
proof -
  have b: "written received v b" and st: "state v = StateName" and q: "quoteChar v = quoteChar w"
    and x: "xml11 v = xml11 w" using assms(1) by (simp_all add: in_tag_def)
  let ?v = "writeByte (quoteChar w) (writeByte CHR ''='' (writeStr a (writeByte CHR '' '' v)))"
  let ?p = "pushState StateAttribute ?v"
  have v: "written received ?v (b @ CHR '' '' # a @ CHR ''='' # [quoteChar w])"
    using written_writeByte[OF written_writeByte[OF written_writeStr[OF written_writeByte[OF b]]]] by fastforce
  have 1: "StartAttribute a v = (None, ?p)"
    using v b st q assms(2) qname_not_Nil[OF assms(2)]
    by (simp add: StartAttribute_def written_err finish_def) (simp add: pushState_def written_err)
  have p: "written received ?p (b @ CHR '' '' # a @ CHR ''='' # [quoteChar w])"
    using v by (simp add: pushState_def)
  have pf: "state ?p = StateAttribute" "quoteChar ?p = quoteChar w" "xml11 ?p = xml11 w"
    using q x by (simp_all add: pushState_def)
  let ?e = "writeEscaped s EscapeAttr ?p"
  have e: "written received ?e ((b @ CHR '' '' # a @ CHR ''='' # [quoteChar w]) @ escape_ref EscapeAttr (quoteChar w) (xml11 w) s)"
    using written_writeEscaped[OF p, of EscapeAttr s] pf by simp
  have ok: "validateContentChars k s v = None" "validateContentChars k s ?p = None" for k
    using assms(3) x pf by (simp_all add: content_ok_validate(2)[symmetric])
  have 2: "WriteString s ?p = (None, ?e)"
    using p e pf ok by (simp add: WriteString_def written_err finish_def writeAttrEscaped_def)
  let ?c = "writeByte (quoteChar w) ?e"
  have c: "written received ?c (b @ ser_attr (quoteChar w) (xml11 w) (a, s))"
    using written_writeByte[OF e, of "quoteChar w"] by (simp add: ser_attr_def)
  have 3: "EndAttribute ?e = (None, popState StateName ?c)"
    using e c pf by (simp add: EndAttribute_def written_err finish_def) (simp add: popState_def pushState_def written_err)
  have "WriteAttribute a s v = (None, popState StateName ?c)"
    using b by (simp add: WriteAttribute_def written_err ok 1 2 3)
  moreover have "in_tag received w n (b @ ser_attr (quoteChar w) (xml11 w) (a, s)) (popState StateName ?c)"
    using assms(1) c st by (simp add: in_tag_def popState_def pushState_def)
  ultimately show ?thesis by blast
qed

lemma attributes_put:
  assumes "in_tag received w n b v" "list_all (\<lambda>av. IsValidQName (fst av) \<and> content_ok (xml11 w) (snd av)) as"
  shows "\<exists>v'. run_all (map (\<lambda>(a, s). CWriteAttribute a s) as) v = (None, v')
     \<and> in_tag received w n (b @ concat (map (ser_attr (quoteChar w) (xml11 w)) as)) v'"
  using assms
proof (induction as arbitrary: b v)
  case (Cons av as)
  obtain a s where av: "av = (a, s)" by fastforce
  obtain u where "WriteAttribute a s v = (None, u)" "in_tag received w n (b @ ser_attr (quoteChar w) (xml11 w) (a, s)) u"
    using WriteAttribute_puts[of w n b v a s] Cons.prems av by auto
  then show ?case using Cons.IH[of "b @ ser_attr (quoteChar w) (xml11 w) (a, s)" u] Cons.prems av by auto
qed auto

lemma close_tag_puts:
  assumes "in_tag received w n b v" shows "in_content received w n (b @ ''>'') (closeTagIfOpen v)"
proof -
  have "emitPendingNS v = v" using assms by (auto simp: in_tag_def intro: emitPendingNS_none)
  then show ?thesis
    using assms written_writeByte[of v b "CHR ''>''"]
    by (auto simp: in_tag_def in_content_def closeTagIfOpen_def Let_def map_name_map_top)
qed

lemma EndElement_empty_puts:
  assumes "in_tag received w n b v" shows "left received w (b @ ''/>'') (EndElement v)"
proof -
  obtain e es where es: "elemStack v = e # es" "ee_empty e" "map ee_name es = map ee_name (elemStack w)"
    using assms by (auto simp: in_tag_def)
  have ev: "err v = None" using assms by (auto simp: in_tag_def dest: written_err)
  have ns: "emitPendingNS (popElement v) = popElement v"
    using assms by (auto simp: in_tag_def popElement_def intro: emitPendingNS_none)
  have "written received (writeStr ''/>'' (popElement v)) (b @ ''/>'')"
    using assms written_writeStr[of "popElement v" b "''/>''"] by (simp add: in_tag_def popElement_def)
  moreover have "EndElement v = leaveElement (writeStr ''/>'' (popElement v))"
    using ev assms es ns by (simp add: EndElement_def in_tag_def Let_def) (simp add: popElement_def)
  moreover have "es = [] \<longleftrightarrow> elemStack w = []" using es(3) by (metis Nil_is_map_conv)
  ultimately show ?thesis using assms es
    by (auto simp: left_def leaveElement_def finish_def written_err same_ctx_def popElement_def in_tag_def Let_def)
qed

lemma EndElement_puts:
  assumes "in_content received w n b v" "indent w = ''''"
  shows "left received w (b @ ''</'' @ n @ ''>'') (EndElement v)"
proof -
  obtain e es where es: "elemStack v = e # es" "ee_name e = n" "map ee_name es = map ee_name (elemStack w)"
    using assms by (auto simp: in_content_def)
  have ev: "err v = None" using assms by (auto simp: in_content_def dest: written_err)
  have b: "written received (popElement v) b" using assms(1) by (simp add: in_content_def popElement_def)
  have end': "writeEndIndent (popElement v) = popElement v"
    using assms by (simp add: writeEndIndent_def in_content_def popElement_def)
  let ?c = "writeByte CHR ''>'' (writeStr n (writeStr ''</'' (popElement v)))"
  have "written received ?c (b @ ''</'' @ n @ ''>'')"
    using written_writeByte[OF written_writeStr[OF written_writeStr[OF b, of "''</''"], of n], of "CHR ''>''"]
    by simp
  moreover have "EndElement v = leaveElement ?c"
    using ev assms es end' by (simp add: EndElement_def in_content_def Let_def writeEndTag_def) (simp add: popElement_def)
  moreover have "es = [] \<longleftrightarrow> elemStack w = []" using es(3) by (metis Nil_is_map_conv)
  ultimately show ?thesis using assms es
    by (auto simp: left_def leaveElement_def finish_def written_err same_ctx_def popElement_def in_content_def Let_def)
qed

end

subsection \<open>Trees\<close>

text \<open>A child closes an open start tag first.\<close>

lemma closed_first:
  assumes "err v = None" "err (closeTagIfOpen v) = None" "state v = StateName" "node_ok (xml11 v) c"
  shows "run_all (node_calls c) v = run_all (node_calls c) (closeTagIfOpen v)"
proof -
  let ?v = "closeTagIfOpen v"
  have st: "state ?v = StateText" "xml11 ?v = xml11 v" using assms(3) by (simp_all add: closeTagIfOpen_fields)
  show ?thesis
  proof (cases c)
    case (Elem n as cs)
    moreover from this have "n \<noteq> []" using assms(4) qname_not_Nil by auto
    ultimately show ?thesis using assms st by (simp add: StartElement_def)
  next
    case (TextNode s)
    have "validateContentChars k s v = None" "validateContentChars k s ?v = None" for k
      using assms(4) TextNode st by (simp_all add: content_ok_validate(2)[symmetric])
    with TextNode show ?thesis using assms st by (simp add: WriteString_def)
  next
    case (CommentNode s)
    have "validateXMLChars k s = None" for k using assms(4) CommentNode by (simp add: content_ok_validate(1)[symmetric])
    then show ?thesis using assms st CommentNode by (simp add: WriteComment_def StartComment_def)
  next
    case (PINode t s)
    have "validateXMLChars k s = None" for k using assms(4) PINode by (simp add: content_ok_validate(1)[symmetric])
    then show ?thesis using assms st PINode by (simp add: WritePI_def StartPI_def)
  next
    case (CDataNode s)
    have s: "writeCDATASection p v = writeCDATASection p ?v" for p
      using assms st by (simp add: writeCDATASection_def StartCDATA_def)
    have "writeCDATASections s v = writeCDATASections s ?v"
      by (subst (1 2) writeCDATASections.simps) (simp add: s split: option.split)
    moreover have "validateXMLChars k s = None" for k using assms(4) CDataNode by (simp add: content_ok_validate(1)[symmetric])
    ultimately show ?thesis using assms CDataNode by (simp add: WriteCDATA_def)
  qed
qed

lemma try_then_return [simp]: "try_then r (\<lambda>w. (None, w)) = r" "try_then r (run_all []) = r"
  by (cases r; cases "fst r"; simp add: try_then_def)+

context reliable_sink
begin

lemma puts_append:
  assumes "puts received w b1 (run_all xs w)" "\<And>u. run_all xs w = (None, u) \<Longrightarrow> puts received u b2 (run_all ys u)"
  shows "puts received w b2 (run_all (xs @ ys) w)"
proof -
  obtain u where u: "run_all xs w = (None, u)" using assms(1) by (cases "run_all xs w") (auto simp: puts_def)
  have "same_ctx w u" using assms(1) u by (simp add: puts_def)
  with assms(2)[OF u] u show ?thesis by (auto simp: run_all_append puts_def intro: same_ctx_trans)
qed

lemma nodes_put:
  assumes "\<And>c w b. c \<in> set cs \<Longrightarrow> written received w b \<Longrightarrow> state w = StateText \<Longrightarrow> elemStack w \<noteq> [] \<Longrightarrow>
      indent w = '''' \<Longrightarrow> node_ok (xml11 w) c \<Longrightarrow>
      puts received w (b @ ser (quoteChar w) (xml11 w) c) (run_all (node_calls c) w)"
    "written received w b" "state w = StateText" "elemStack w \<noteq> []" "indent w = ''''" "list_all (node_ok (xml11 w)) cs"
  shows "puts received w (b @ concat (map (ser (quoteChar w) (xml11 w)) cs)) (run_all (concat (map node_calls cs)) w)"
  using assms
proof (induction cs arbitrary: w b)
  case Nil
  then show ?case by (simp add: puts_def)
next
  case (Cons c cs)
  let ?s = "ser (quoteChar w) (xml11 w)"
  have 1: "puts received w (b @ ?s c) (run_all (node_calls c) w)"
    by (rule Cons.prems(1)) (use Cons.prems in auto)
  have 2: "puts received u ((b @ ?s c) @ concat (map ?s cs)) (run_all (concat (map node_calls cs)) u)"
    if "run_all (node_calls c) w = (None, u)" for u
  proof -
    have u: "written received u (b @ ?s c)" "state u = StateText" "same_ctx w u" using 1 that by (simp_all add: puts_def)
    then have f: "quoteChar u = quoteChar w" "xml11 u = xml11 w" "indent u = indent w" "elemStack u \<noteq> []"
      using Cons.prems(4) by (auto simp: same_ctx_def)
    have "puts received u ((b @ ?s c) @ concat (map (ser (quoteChar u) (xml11 u)) cs)) (run_all (concat (map node_calls cs)) u)"
      by (rule Cons.IH) (use Cons.prems u f in auto)
    then show ?thesis by (simp add: f)
  qed
  show ?case using puts_append[OF 1 2] by simp
qed

lemma element_left:
  assumes IH: "\<And>c w b. c \<in> set cs \<Longrightarrow> written received w b \<Longrightarrow> state w = StateText \<Longrightarrow> elemStack w \<noteq> [] \<Longrightarrow>
      indent w = '''' \<Longrightarrow> node_ok (xml11 w) c \<Longrightarrow>
      puts received w (b @ ser (quoteChar w) (xml11 w) c) (run_all (node_calls c) w)"
    and w: "written received w b" "state w \<in> {StateNone, StateDocument, StateText}" "indent w = ''''"
    and ok: "node_ok (xml11 w) (Elem n as cs)"
  shows "left received w (b @ ser (quoteChar w) (xml11 w) (Elem n as cs)) (run_all (node_calls (Elem n as cs)) w)"
proof -
  let ?q = "quoteChar w" and ?x = "xml11 w"
  let ?a = "b @ CHR ''<'' # n @ concat (map (ser_attr ?q ?x) as)"
  obtain v0 where v0: "StartElement n w = (None, v0)" "in_tag received w n (b @ CHR ''<'' # n) v0"
    using StartElement_puts[OF w] ok by auto
  obtain v where v: "run_all (map (\<lambda>(a, s). CWriteAttribute a s) as) v0 = (None, v)" "in_tag received w n ?a v"
    using attributes_put[OF v0(2)] ok by auto
  have r: "run_all (node_calls (Elem n as cs)) w = try_then (run_all (concat (map node_calls cs)) v) EndElement"
    using v0 v by (simp add: run_all_append) (simp add: try_then_def split: prod.split option.split)
  show ?thesis
  proof (cases cs)
    case Nil
    with EndElement_empty_puts[OF v(2)] r show ?thesis by simp
  next
    case (Cons c cs')
    let ?v = "closeTagIfOpen v"
    have cl: "in_content received w n (?a @ ''>'') ?v" by (rule close_tag_puts[OF v(2)])
    have ne: "elemStack v \<noteq> []" using v(2) by (auto simp: in_tag_def)
    have vf: "err v = None" "state v = StateName" "xml11 v = ?x" using v(2) by (auto simp: in_tag_def dest: written_err)
    have cf: "written received ?v (?a @ ''>'')" "state ?v = StateText" "elemStack ?v \<noteq> []" "indent ?v = ''''"
      "quoteChar ?v = ?q" "xml11 ?v = ?x" using cl w(3) ne by (simp_all add: in_content_def)
    let ?kids = "(?a @ ''>'') @ concat (map (ser ?q ?x) cs)"
    have e: "run_all (concat (map node_calls cs)) v = run_all (concat (map node_calls cs)) ?v"
      using closed_first[of v c] vf ok Cons written_err[OF cf(1)] by (simp add: run_all_append)
    have p: "puts received ?v ?kids (run_all (concat (map node_calls cs)) ?v)"
      using nodes_put[of cs ?v "?a @ ''>''", OF IH cf(1-4)] ok by (simp only: cf(5,6) node_ok.simps simp_thms)
    obtain u where u: "run_all (concat (map node_calls cs)) ?v = (None, u)"
      using p by (cases "run_all (concat (map node_calls cs)) ?v") (simp add: puts_def)
    have "in_content received w n ?kids u"
      using p cl unfolding u by (simp add: puts_def in_content_def same_ctx_def)
    from EndElement_puts[OF this w(3)] have "left received w (?kids @ ''</'' @ n @ ''>'') (EndElement u)" .
    moreover have "b @ ser ?q ?x (Elem n as cs) = ?kids @ ''</'' @ n @ ''>''" using Cons by simp
    moreover have "run_all (node_calls (Elem n as cs)) w = EndElement u" by (simp only: r e u try_then_Some)
    ultimately show ?thesis by metis
  qed
qed

lemma node_put:
  "written received w b \<Longrightarrow> state w = StateText \<Longrightarrow> elemStack w \<noteq> [] \<Longrightarrow> indent w = '''' \<Longrightarrow> node_ok (xml11 w) c \<Longrightarrow>
     puts received w (b @ ser (quoteChar w) (xml11 w) c) (run_all (node_calls c) w)"
proof (induction c arbitrary: w b)
  case (Elem n as cs)
  have "left received w (b @ ser (quoteChar w) (xml11 w) (Elem n as cs)) (run_all (node_calls (Elem n as cs)) w)"
    by (rule element_left) (use Elem in auto)
  with Elem.prems show ?case by (simp add: left_def puts_def)
next
  case (TextNode s)
  from puts_text[OF TextNode(1,2), of s] TextNode show ?case by (simp add: puts_def)
next
  case (CommentNode s)
  from puts_comment[OF CommentNode(1,2,4,5)] show ?case by (simp add: puts_def)
next
  case (PINode t s)
  from puts_PI[OF PINode(1,2,4,5)] show ?case by (simp add: puts_def)
next
  case (CDataNode s)
  from puts_CDATA[OF CDataNode(1,2,5)] show ?case by (simp add: puts_def)
qed

end

text \<open>C18: writing a tree.  The calls for a valid element, made on a writer without indentation
  that is at the start, in the prolog or in element content, all succeed, append the serialization
  of the tree, and leave the stacks, the open elements and the configuration as they were.\<close>

theorem write_tree:
  assumes "out w = Some (buffer ws wb b)" "err w = None" "state w \<in> {StateNone, StateDocument, StateText}"
    "indent w = ''''" "node_ok (xml11 w) (Elem n as cs)"
  shows "\<exists>w'. run_all (node_calls (Elem n as cs)) w = (None, w')
    \<and> written_bytes w' = b @ ser (quoteChar w) (xml11 w) (Elem n as cs)
    \<and> same_ctx w w' \<and> state w' = (if elemStack w = [] then StateDocument else StateText)"
proof -
  have "written buffer_received w b" using assms(1,2) by (auto simp: written_def buffer_received_def)
  note l = buf.element_left[OF buf.node_put this assms(3-5)]
  obtain r w' where r: "run_all (node_calls (Elem n as cs)) w = (r, w')" by fastforce
  from l[unfolded r left_def fst_conv snd_conv] written_buffer show ?thesis unfolding r by blast
qed

theorem write_tree_witness:
  "\<exists>w'. run_all (node_calls (Elem ''a'' [(''b'', ''1<2'')] [TextNode ''x & y'', CommentNode ''c''])) (sample_writer StateNone) = (None, w')
    \<and> written_bytes w' = ''<a>'' @ ser CHR 0x22 True (Elem ''a'' [(''b'', ''1<2'')] [TextNode ''x & y'', CommentNode ''c''])"
proof -
  have n: "IsValidQName ''a''" "IsValidQName ''b''"
    by (intro IsValidQName_unprefixed; simp add: IsValidNCName_def ncname_loop.simps decode_rune_ascii IsNCNameStartChar_def
        rune_error_def)+
  have ok: "node_ok True (Elem ''a'' [(''b'', ''1<2'')] [TextNode ''x & y'', CommentNode ''c''])"
    by (simp add: n content_ok_def xml_char_def isXML11Char_def IsChar_def contains_def has_suffix_def)
  show ?thesis
    using write_tree[of "sample_writer StateNone" True True "''<a>''" "''a''" "[(''b'', ''1<2'')]"
        "[TextNode ''x & y'', CommentNode ''c'']"] ok
    by (auto simp: sample_writer_def NewWriter_def simp del: run_all.simps node_calls.simps ser.simps node_ok.simps)
qed

end
