(* ===== verification/StreamNS.thy ===== *)
theory StreamNS
  imports StreamAtomic
begin

text \<open>
  Namespace prefixes.  What a prefix is bound to is \<open>ns_bound\<close>, the innermost declaration on the open
  elements, which the loops of the code (\<open>find_binding\<close>) compute; the lemmas say how the calls change it, and the properties that the prefix of an element
  or attribute is bound to the namespace the caller gave, when the call returns.
\<close>

lemma find_binding_emitted:
  "find_binding p (map_top (\<lambda>sc. sc\<lparr>emitted := f sc\<rparr>) scs) = find_binding p scs"
  by (cases scs) (auto simp: map_top_def)

lemma find_binding_emitPendingNS [simp]: "find_binding p (nsStack (emitPendingNS w)) = find_binding p (nsStack w)"
proof (cases "nsStack w")
  case (Cons sc scs)
  then show ?thesis by (simp add: emitPendingNS_def Let_def) (simp add: map_top_def Cons)
qed (simp add: emitPendingNS_def)

lemma find_binding_closeTag [simp]: "find_binding p (nsStack (closeTagIfOpen w)) = find_binding p (nsStack w)"
  by (simp add: closeTagIfOpen_def Let_def)

lemma find_decl_append: "find_decl p (ds @ es) = (case find_decl p ds of None \<Rightarrow> find_decl p es | Some u \<Rightarrow> Some u)"
  by (induction ds) auto

lemma declareNS_binds:
  assumes "nsStack w = sc # scs" "find_decl p (decls sc) = None \<or> find_decl p (decls sc) = Some u"
  shows "find_binding p (nsStack (declareNS p u w)) = Some u"
proof (cases "lookupNS p u w")
  case True
  then show ?thesis using assms by (auto simp: declareNS_def lookupNS_def split: option.splits)
next
  case False
  then show ?thesis using assms
    by (auto simp: declareNS_def lookupNS_def find_decl_append split: option.splits)
qed

lemma declareNS_other: "q \<noteq> p \<Longrightarrow> find_binding q (nsStack (declareNS p u w)) = find_binding q (nsStack w)"
  by (auto simp: declareNS_def find_decl_append split: list.split option.split)

text \<open>A new element starts with the bindings around it.\<close>

lemma StartElement_bindings:
  assumes "StartElement n w = (None, v)"
  shows "(\<exists>scs. nsStack v = \<lparr>decls = [], emitted = 0\<rparr> # scs) \<and> find_binding q (nsStack v) = find_binding q (nsStack w)"
proof -
  let ?w = "if state w = StateName then closeTagIfOpen w else w"
  have "nsStack v = \<lparr>decls = [], emitted = 0\<rparr> # nsStack ?w"
    using assms by (auto simp: StartElement_def Let_def finish_def fail_def split: if_splits)
  then show ?thesis by simp
qed

lemma StartElementNS_bindings:
  assumes "StartElementNS p l u w = (None, w')"
  shows "(u \<noteq> '''' \<longrightarrow> lookupNS p u w') \<and> (u = '''' \<and> p = '''' \<longrightarrow> \<not> hasDefaultNSInScope w')
    \<and> (\<forall>q. q \<noteq> p \<longrightarrow> find_binding q (nsStack w') = find_binding q (nsStack w))"
proof -
  obtain v where v: "StartElement (qualifiedName p l) w = (None, v)"
    and w': "w' = (if u \<noteq> '''' then declareNS p u v
      else if p = '''' \<and> hasDefaultNSInScope v then declareNS '''' '''' v else v)"
    using assms by (auto simp: StartElementNS_def finish_def try_then_def split: if_splits option.splits prod.splits)
  obtain scs where scs: "nsStack v = \<lparr>decls = [], emitted = 0\<rparr> # scs" using StartElement_bindings[OF v] by auto
  have b: "find_binding q (nsStack v) = find_binding q (nsStack w)" for q using StartElement_bindings[OF v] by blast
  have d: "find_binding r (nsStack (declareNS r s v)) = Some s" for r s
    by (rule declareNS_binds[OF scs]) simp
  show ?thesis
    by (auto simp: w' lookupNS_def d hasDefaultNSInScope_def declareNS_other b split: option.splits)
qed

lemma StartAttributeNS_bindings:
  assumes "reachable w" "StartAttributeNS p l u w = (None, w')" "u \<noteq> ''''" "p \<noteq> ''''"
  shows "lookupNS p u w' \<and> (\<forall>q. q \<noteq> p \<longrightarrow> find_binding q (nsStack w') = find_binding q (nsStack w))"
proof -
  have st: "state w = StateName" and c: "\<not> nsPrefixConflict p u w"
    and a: "StartAttribute (qualifiedName p l) (declareNS p u w) = (None, w')"
    using assms(2-4) by (auto simp: StartAttributeNS_def finish_def fail_def try_then_def split: if_splits option.splits)
  have "elemStack w \<noteq> []" "length (nsStack w) = length (elemStack w)"
    using wf_reachable[OF assms(1)] st by (auto simp: well_formed_def ctl_ok_def)
  then obtain sc scs where sc: "nsStack w = sc # scs" by (cases "nsStack w") auto
  have "find_decl p (decls sc) = None \<or> find_decl p (decls sc) = Some u"
    using c sc by (auto simp: nsPrefixConflict_def split: option.splits)
  moreover have "nsStack w' = nsStack (declareNS p u w)"
    using a by (auto simp: StartAttribute_def finish_def fail_def pushState_def split: if_splits)
  ultimately show ?thesis using declareNS_binds[OF sc] declareNS_other[of _ p u w]
    by (simp add: lookupNS_def)
qed

subsection \<open>The calls succeed on valid names\<close>

lemma sample_names: "IsValidNCName ''a''" "IsValidNCName ''b''" "IsValidNCName ''p''"
  by (simp_all add: IsValidNCName_def ncname_loop.simps decode_rune_ascii IsNCNameStartChar_def rune_error_def)

definition sample_start :: "string writer" where
  "sample_start = NewWriter (Some (buffer True True ''''))"

lemma sample_grows: "grows buffer_received sample_start ''''"
  by (intro grows_I) (auto simp: written_def buffer_received_def sample_start_def NewWriter_def)

context reliable_sink
begin

lemma fine_StartElement:
  assumes "grows received w b" "IsValidQName n" "state w \<in> {StateNone, StateDocument, StateText, StateName}"
  shows "fine received b (StartElement n w)"
  using assms qname_not_Nil[OF assms(2)]
  by (auto simp: StartElement_def grows_err Let_def intro!: fine_finish grows_writes grows_steps grows_closeTagIfOpen)

lemma fine_StartElementNS:
  assumes "grows received w b" "state w \<in> {StateNone, StateDocument, StateText, StateName}"
    "validateNSParts ''element'' p l = None" "validateReservedNS ''element'' p u = None"
    "validateXMLChars ''namespace URI'' u = None"
  shows "fine received b (StartElementNS p l u w)"
proof -
  have "fine received b (try_then (StartElement (qualifiedName p l) w) (\<lambda>w. finish (if u \<noteq> '''' then declareNS p u w
      else if p = '''' \<and> hasDefaultNSInScope w then declareNS '''' '''' w else w)))"
    by (intro fine_then fine_finish fine_StartElement qualifiedName_valid[OF assms(3)] assms(1,2)) simp
  then show ?thesis using assms by (simp add: StartElementNS_def grows_err)
qed

lemma fine_StartAttributeNS:
  assumes "grows received w b" "state w = StateName"
    "validateNSParts ''attribute'' p l = None" "validateReservedNS ''attribute'' p u = None"
    "validateXMLChars ''namespace URI'' u = None" "\<not> nsPrefixConflict p u w"
  shows "fine received b (StartAttributeNS p l u w)"
  using assms qualifiedName_valid[OF assms(3)]
  by (auto simp: StartAttributeNS_def grows_err intro!: fine_StartAttribute)

end

lemma fine_ok: "fine R b r \<Longrightarrow> \<exists>w'. r = (None, w') \<and> grows R w' b"
  by (cases r) (simp add: fine_def)

lemma sample_uri: "u \<in> {''u'', ''v''} \<Longrightarrow> validateReservedNS k ''p'' u = None \<and> validateXMLChars k u = None"
  by (auto simp: validateReservedNS_def xmlNamespaceURI_def xmlnsNamespaceURI_def validateXMLChars_None IsChar_def)

lemma sample_parts: "l \<in> {''a'', ''b''} \<Longrightarrow> validateNSParts k ''p'' l = None"
  using sample_names by (auto simp: validateNSParts_def)

lemma sample_element:
  assumes "grows buffer_received w ''''" "state w \<in> {StateNone, StateName}" "u \<in> {''u'', ''v''}" "l \<in> {''a'', ''b''}"
  shows "\<exists>v. StartElementNS ''p'' l u w = (None, v) \<and> grows buffer_received v '''' \<and> state v = StateName"
  using fine_ok[OF buf.fine_StartElementNS[of w _ "''p''" l u]] assms sample_uri sample_parts StartElementNS_after by fastforce

text \<open>The bindings in scope, as XML namespaces define them: of all declarations of a prefix on the open
  elements, the one on the innermost element counts.\<close>

definition ns_bound :: "string \<Rightarrow> 'o writer \<Rightarrow> string option" where
  "ns_bound p w = map_of (concat (map (\<lambda>sc. map (\<lambda>ns. (ne_prefix ns, ne_uri ns)) (decls sc)) (nsStack w))) p"

lemma find_decl_map_of: "find_decl p ds = map_of (map (\<lambda>ns. (ne_prefix ns, ne_uri ns)) ds) p"
  by (induction ds) auto

lemma find_binding_ns_bound: "find_binding p (nsStack w) = ns_bound p w"
proof -
  have "find_binding p scs = map_of (concat (map (\<lambda>sc. map (\<lambda>ns. (ne_prefix ns, ne_uri ns)) (decls sc)) scs)) p" for scs
    by (induction scs) (auto simp: find_decl_map_of map_add_def split: option.split)
  then show ?thesis by (simp add: ns_bound_def)
qed

lemma map_decls_close [simp]: "map decls (nsStack (closeTagIfOpen w)) = map decls (nsStack w)"
  by (cases "nsStack w") (auto simp: closeTagIfOpen_def emitPendingNS_def map_top_def Let_def)

lemma StartElement_decls:
  assumes "StartElement n w = (None, v)"
  shows "\<exists>scs. nsStack v = \<lparr>decls = [], emitted = 0\<rparr> # scs \<and> map decls scs = map decls (nsStack w)"
  using assms by (auto simp: StartElement_def Let_def finish_def fail_def split: if_splits)

text \<open>C37: the namespace of an element.  When \<open>StartElementNS\<close> returns without error, the prefix of
  the element is bound to the namespace the caller gave, in the sense of XML namespaces: the innermost
  declaration of the prefix on the open elements is the one for that namespace.  An unprefixed element in no
  namespace is outside every default namespace (none is declared, or the innermost is
  undeclared); a prefixed one in no namespace leaves the prefix as it was, and every other prefix keeps its binding.
  The element gets a declaration, exactly one, when the bindings around it do not already give
  the result, and the declarations of the elements around it stay.\<close>

theorem element_namespace:
  assumes "StartElementNS p l u w = (None, w')"
  shows "(if u \<noteq> '''' then ns_bound p w' = Some u
     else if p = '''' then ns_bound p w' = None \<or> ns_bound p w' = Some '''' else ns_bound p w' = ns_bound p w)
    \<and> (\<forall>q. q \<noteq> p \<longrightarrow> ns_bound q w' = ns_bound q w)
    \<and> map decls (nsStack w') =
       (if u \<noteq> '''' \<and> ns_bound p w \<noteq> Some u \<or> u = '''' \<and> p = '''' \<and> ns_bound p w \<noteq> None \<and> ns_bound p w \<noteq> Some ''''
        then [\<lparr>ne_prefix = p, ne_uri = u\<rparr>] else []) # map decls (nsStack w)"
proof -
  obtain v where v: "StartElement (qualifiedName p l) w = (None, v)"
    and w': "w' = (if u \<noteq> '''' then declareNS p u v
      else if p = '''' \<and> hasDefaultNSInScope v then declareNS '''' '''' v else v)"
    using assms by (auto simp: StartElementNS_def finish_def try_then_def split: if_splits option.splits prod.splits)
  obtain scs where scs: "nsStack v = \<lparr>decls = [], emitted = 0\<rparr> # scs" "map decls scs = map decls (nsStack w)"
    using StartElement_decls[OF v] by auto
  have b: "ns_bound q v = ns_bound q w" for q
    using StartElement_bindings[OF v] by (metis find_binding_ns_bound)
  have d: "ns_bound r (declareNS r s v) = Some s" for r s
    unfolding find_binding_ns_bound[symmetric] by (rule declareNS_binds[OF scs(1)]) simp
  have l: "lookupNS r s v \<longleftrightarrow> ns_bound r w = Some s" for r s
    unfolding lookupNS_def find_binding_ns_bound b by (simp split: option.split)
  have h: "hasDefaultNSInScope v \<longleftrightarrow> ns_bound '''' w \<noteq> None \<and> ns_bound '''' w \<noteq> Some ''''"
    unfolding hasDefaultNSInScope_def find_binding_ns_bound b by (auto split: option.split)
  have o: "q \<noteq> r \<Longrightarrow> ns_bound q (declareNS r s v) = ns_bound q w" for q r s
    using declareNS_other[of q r s v] by (simp add: find_binding_ns_bound b)
  have m: "map decls (nsStack (declareNS r s v)) =
      (if ns_bound r w = Some s then [] else [\<lparr>ne_prefix = r, ne_uri = s\<rparr>]) # map decls (nsStack w)" for r s
    using scs by (auto simp: declareNS_def l)
  show ?thesis
    using scs by (auto simp: w' d o b h m)
qed

text \<open>the namespace of an attribute.  When \<open>StartAttributeNS\<close> returns without error, on any
  writer a caller can produce, a prefix given with a namespace is bound to that namespace in the
  element, and the other prefixes are bound as before.\<close>

theorem attribute_namespace:
  assumes "reachable w" "StartAttributeNS p l u w = (None, w')" "u \<noteq> ''''" "p \<noteq> ''''"
  shows "lookupNS p u w' \<and> (\<forall>q. q \<noteq> p \<longrightarrow> find_binding q (nsStack w') = find_binding q (nsStack w))"
  by (rule StartAttributeNS_bindings[OF assms])

text \<open>But the conflict test of \<open>StartAttributeNS\<close> looks at the declarations of the current
  element only: a prefix the element itself took over from an ancestor can be bound again, and the
  name of the element, already written, changes its namespace.\<close>

lemma attribute_rebinds_inherited_prefix:
  assumes "reachable w" "StartElementNS p l u w = (None, v)" "lookupNS p u w" "u \<noteq> ''''"
    "StartAttributeNS p m u' v = (None, v')" "u' \<noteq> ''''" "p \<noteq> ''''" "u' \<noteq> u"
  shows "lookupNS p u v \<and> \<not> lookupNS p u v'"
  using StartAttributeNS_bindings[of v p m u' v'] StartElementNS_bindings[OF assms(2)] assms reachable.call[OF assms(1), of "CStartElementNS p l u"]
  by (auto simp: lookupNS_def split: option.splits)

theorem element_namespace_witness:
  "\<exists>w'. StartElementNS ''p'' ''a'' ''u'' sample_start = (None, w') \<and> ns_bound ''p'' w' = Some ''u''
     \<and> map decls (nsStack w') = [[\<lparr>ne_prefix = ''p'', ne_uri = ''u''\<rparr>]]"
proof -
  obtain w where w: "StartElementNS ''p'' ''a'' ''u'' sample_start = (None, w)"
    using sample_element[OF sample_grows] by (auto simp: sample_start_def NewWriter_def)
  have "ns_bound ''p'' sample_start = None" "nsStack sample_start = []"
    by (simp_all add: ns_bound_def sample_start_def NewWriter_def)
  with element_namespace[OF w] w show ?thesis by simp
qed

theorem attribute_namespace_witness:
  "\<exists>w w'. reachable w \<and> StartAttributeNS ''p'' ''b'' ''v'' w = (None, w') \<and> lookupNS ''p'' ''v'' (w' :: string writer)"
proof -
  have "fine buffer_received '''' (StartElement ''a'' sample_start)"
    using IsValidQName_unprefixed[OF sample_names(1)] sample_grows
    by (intro buf.fine_StartElement) (simp_all add: sample_start_def NewWriter_def)
  then obtain w where w: "StartElement ''a'' sample_start = (None, w)" "grows buffer_received w ''''"
    using fine_ok by blast
  obtain scs where "nsStack w = \<lparr>decls = [], emitted = 0\<rparr> # scs" using StartElement_bindings[OF w(1)] by auto
  then have "fine buffer_received '''' (StartAttributeNS ''p'' ''b'' ''v'' w)"
    using sample_uri[of "''v''"] sample_parts[of "''b''"] w StartElement_after[OF w(1)]
    by (intro buf.fine_StartAttributeNS) (auto simp: nsPrefixConflict_def)
  then obtain w' where w': "StartAttributeNS ''p'' ''b'' ''v'' w = (None, w')" using fine_ok by blast
  have r: "reachable w" using reachable.call[OF reachable.new, of "CStartElement ''a''" "Some (buffer True True '''')"] w
    by (simp add: sample_start_def)
  from attribute_namespace[OF r w'] r w' show ?thesis by auto
qed

text \<open>a defect.  The calls for \<open>p:a\<close> and \<open>p:b\<close>, both in the namespace \<open>u\<close>, and for an
  attribute \<open>p:a\<close> of \<open>p:b\<close> in the namespace \<open>v\<close> are all accepted; after the last one the prefix of the
  element \<open>p:b\<close>, already written, is no longer bound to \<open>u\<close>.\<close>

theorem rebinding_happens:
  "\<exists>v v'. run [CStartElementNS ''p'' ''a'' ''u'', CStartElementNS ''p'' ''b'' ''u''] sample_start = v
     \<and> StartAttributeNS ''p'' ''a'' ''v'' v = (None, v') \<and> lookupNS ''p'' ''u'' v \<and> \<not> lookupNS ''p'' ''u'' v'"
proof -
  obtain w where w: "StartElementNS ''p'' ''a'' ''u'' sample_start = (None, w)" "grows buffer_received w ''''" "state w = StateName"
    using sample_element[OF sample_grows] by (auto simp: sample_start_def NewWriter_def)
  have l: "lookupNS ''p'' ''u'' w" using StartElementNS_bindings[OF w(1)] by simp
  obtain v where v: "StartElementNS ''p'' ''b'' ''u'' w = (None, v)" "grows buffer_received v ''''" "state v = StateName"
    using sample_element[of w "''u''" "''b''"] w by auto
  obtain x where x: "StartElement (qualifiedName ''p'' ''b'') w = (None, x)" "v = declareNS ''p'' ''u'' x"
    using v(1) by (auto simp: StartElementNS_def finish_def try_then_def split: if_splits option.splits prod.splits)
  obtain scs where s: "nsStack x = \<lparr>decls = [], emitted = 0\<rparr> # scs" using StartElement_bindings[OF x(1)] by auto
  have "lookupNS ''p'' ''u'' x" using l StartElement_bindings[OF x(1), of "''p''"] by (simp add: lookupNS_def)
  then have "\<not> nsPrefixConflict ''p'' ''v'' v" using x s by (simp add: declareNS_def nsPrefixConflict_def)
  then have "fine buffer_received '''' (StartAttributeNS ''p'' ''a'' ''v'' v)"
    using sample_uri[of "''v''"] sample_parts[of "''a''"] v by (intro buf.fine_StartAttributeNS) auto
  then obtain v' where v': "StartAttributeNS ''p'' ''a'' ''v'' v = (None, v')" using fine_ok by blast
  have "reachable w" using reachable.call[OF reachable.new, of "CStartElementNS ''p'' ''a'' ''u''" "Some (buffer True True '''')"] w
    by (simp add: sample_start_def)
  from attribute_rebinds_inherited_prefix[OF this v(1) l _ v'] have "lookupNS ''p'' ''u'' v \<and> \<not> lookupNS ''p'' ''u'' v'" by simp
  moreover have "run [CStartElementNS ''p'' ''a'' ''u'', CStartElementNS ''p'' ''b'' ''u''] sample_start = v"
    using w v by simp
  ultimately show ?thesis using v' by blast
qed

end
