(* ===== verification/StreamClose.thy ===== *)
theory StreamClose
  imports StreamNS StreamDoc
begin

text \<open>
  The bytes that close a document.  \<open>closing\<close> is what is missing at the end of the output of a
  writer: the end of the open construct, the rest of an open start tag, the end tags of the open elements, with
  their indentation.  The lemmas compute what the calls of \<open>EndDocument\<close> append.
\<close>

subsection \<open>The missing bytes\<close>

text \<open>The end of the construct that is open, and the line end after it in indented output.\<close>

definition construct_end :: "writerState \<Rightarrow> string" where
  "construct_end st = (case st of
       StatePI \<Rightarrow> ''?>'' | StatePIText \<Rightarrow> ''?>'' | StateCDATA \<Rightarrow> '']]>'' | StateComment \<Rightarrow> ''-->''
     | StateDTD \<Rightarrow> ''>'' | StateDTDText \<Rightarrow> '']>'' | _ \<Rightarrow> '''')"

definition own_line :: "writerState \<Rightarrow> bool" where
  "own_line st \<longleftrightarrow> st \<in> {StatePI, StatePIText, StateComment, StateDTD, StateDTDText}"

text \<open>An element with child elements and without text has its end tag on a line of its own, indented
  by the number of elements around it; \<open>nl\<close> says that the line has been begun.\<close>

definition tag_line :: "string \<Rightarrow> elementEntry \<Rightarrow> bool" where
  "tag_line ind e \<longleftrightarrow> ind \<noteq> '''' \<and> ee_hasChild e \<and> \<not> ee_hasText e"

definition end_tag :: "string \<Rightarrow> bool \<Rightarrow> nat \<Rightarrow> elementEntry \<Rightarrow> string" where
  "end_tag ind nl n e =
     (if tag_line ind e then (if nl then '''' else [CHR 0x0A]) @ concat (replicate n ind) else '''')
     @ ''</'' @ ee_name e @ ''>''"

fun end_tags :: "string \<Rightarrow> bool \<Rightarrow> elementEntry list \<Rightarrow> string" where
  "end_tags ind nl [] = ''''"
| "end_tags ind nl (e # es) = end_tag ind nl (length es) e @ end_tags ind (nl \<and> \<not> tag_line ind e) es"

text \<open>The namespace declarations of a start tag that are still to be written.\<close>

definition ns_attribute :: "char \<Rightarrow> bool \<Rightarrow> nsEntry \<Rightarrow> string" where
  "ns_attribute q x ns = '' xmlns'' @ (if ne_prefix ns = '''' then '''' else CHR '':'' # ne_prefix ns) @ ''=''
     @ [q] @ escape_ref EscapeAttr q x (ne_uri ns) @ [q]"

definition pending_ns :: "'o writer \<Rightarrow> string" where
  "pending_ns w = (case nsStack w of [] \<Rightarrow> ''''
     | sc # _ \<Rightarrow> concat (map (ns_attribute (quoteChar w) (xml11 w)) (drop (emitted sc) (decls sc))))"

lemma pending_ns_pop [simp]: "pending_ns (popElement w) = pending_ns w"
  by (cases "nsStack w") (simp_all add: pending_ns_def popElement_def)

definition elements_end :: "'o writer \<Rightarrow> string" where
  "elements_end w = (case elemStack w of [] \<Rightarrow> ''''
     | e # es \<Rightarrow>
        if state w \<in> {StateName, StateAttribute}
        then (if state w = StateAttribute then [quoteChar w] else '''') @ pending_ns w
          @ (if ee_empty e then ''/>'' @ end_tags (indent w) (wroteNL w) es
             else CHR ''>'' # end_tags (indent w) (wroteNL w) (e # es))
        else end_tags (indent w) (wroteNL w \<or> own_line (state w)) (e # es))"

definition closing :: "'o writer \<Rightarrow> string" where
  "closing w = construct_end (state w) @ (if own_line (state w) \<and> indent w \<noteq> '''' then [CHR 0x0A] else '''')
     @ elements_end w @ (if indent w = '''' then [CHR 0x0A] else '''')"

text \<open>The saved states the writer is left with.\<close>

definition saved_after :: "'o writer \<Rightarrow> writerState list" where
  "saved_after w = (if state w \<in> {StatePI, StatePIText, StateComment, StateCDATA, StateAttribute}
     then tl (stateStack w) else stateStack w)"

subsection \<open>What the calls append\<close>

lemma writeEndIndent_wroteNL: "wroteNL (writeEndIndent w) = (wroteNL w \<and> indent w = '''')"
proof -
  have "wroteNL (repeatw n (\<lambda>w. writeStr (indent w) w) w) = wroteNL w" for n and w :: "'a writer"
    by (rule core_fields, rule core_repeatw) simp
  then show ?thesis by (simp add: writeEndIndent_def Let_def)
qed

context reliable_sink
begin

lemma written_repeat_indent:
  "written received w b \<Longrightarrow> written received (repeatw n (\<lambda>w. writeStr (indent w) w) w) (b @ concat (replicate n (indent w)))"
proof (induction n arbitrary: w b)
  case (Suc n)
  from Suc.IH[OF written_writeStr[OF Suc.prems, of "indent w"]] show ?case
    by (simp add: repeatw_def funpow_Suc_right del: funpow.simps(2))
qed (simp add: repeatw_def)

lemma written_writeEndIndent:
  assumes "written received w b"
  shows "written received (writeEndIndent w) (b @ (if indent w = '''' then ''''
     else (if wroteNL w then '''' else [CHR 0x0A]) @ concat (replicate (nat (depth w)) (indent w))))"
  using assms written_repeat_indent[of "w\<lparr>wroteNL := False\<rparr>" b "nat (depth w)"]
    written_repeat_indent[OF written_writeStr[OF assms, of "[CHR 0x0A]"], of "nat (depth w)"]
  by (simp add: writeEndIndent_def Let_def)

lemma written_writeEndTag:
  assumes "written received w b"
  shows "written received (writeEndTag e w) (b @ end_tag (indent w) (wroteNL w) (nat (depth w)) e)"
proof -
  have tag: "written received (seqw [writeStr ''</'', writeStr (ee_name e), writeByte CHR ''>''] v) (c @ ''</'' @ ee_name e @ ''>'')"
    if "written received v c" for v c
    using written_writeByte[OF written_writeStr[OF written_writeStr[OF that, of "''</''"], of "ee_name e"], of "CHR ''>''"]
    by simp
  show ?thesis
    using tag[OF assms] tag[OF written_writeEndIndent[OF assms]]
    by (auto simp: writeEndTag_def end_tag_def tag_line_def Let_def)
qed

lemma written_emitNSDecl:
  assumes "written received w b"
  shows "written received (emitNSDecl ns w) (b @ ns_attribute (quoteChar w) (xml11 w) ns)"
proof (cases "ne_prefix ns = ''''")
  case True
  let ?q = "quoteChar w"
  have "written received (writeByte ?q (writeAttrEscaped (ne_uri ns) (writeByte ?q (writeStr '' xmlns='' w))))
      ((((b @ '' xmlns='') @ [?q]) @ escape_ref EscapeAttr ?q (xml11 w) (ne_uri ns)) @ [?q])"
    using written_writeEscaped[OF written_writeByte[OF written_writeStr[OF assms, of "'' xmlns=''"], of ?q], of EscapeAttr "ne_uri ns"]
    by (intro written_writeByte) (simp add: writeAttrEscaped_def)
  with True show ?thesis by (simp add: emitNSDecl_def ns_attribute_def)
next
  case False
  let ?q = "quoteChar w"
  let ?v = "writeByte ?q (writeByte CHR ''='' (writeStr (ne_prefix ns) (writeStr '' xmlns:'' w)))"
  have v: "written received ?v ((((b @ '' xmlns:'') @ ne_prefix ns) @ ''='') @ [?q])"
    by (intro written_writeByte written_writeStr assms)
  have "written received (writeByte ?q (writeAttrEscaped (ne_uri ns) ?v))
      ((((((b @ '' xmlns:'') @ ne_prefix ns) @ ''='') @ [?q]) @ escape_ref EscapeAttr ?q (xml11 w) (ne_uri ns)) @ [?q])"
    using written_writeEscaped[OF v, of EscapeAttr "ne_uri ns"]
    by (intro written_writeByte) (simp add: writeAttrEscaped_def)
  with False show ?thesis by (simp add: emitNSDecl_def ns_attribute_def)
qed

lemma written_emitNSDecls:
  "written received w b \<Longrightarrow>
     written received (seqw (map emitNSDecl ds) w) (b @ concat (map (ns_attribute (quoteChar w) (xml11 w)) ds))"
proof (induction ds arbitrary: w b)
  case (Cons d ds)
  have "quoteChar (emitNSDecl d w) = quoteChar w" "xml11 (emitNSDecl d w) = xml11 w"
    by (rule core_fields, simp)+
  with Cons.IH[OF written_emitNSDecl[OF Cons.prems, of d]] show ?case by simp
qed simp

lemma written_emitPendingNS: "written received w b \<Longrightarrow> written received (emitPendingNS w) (b @ pending_ns w)"
  by (auto simp: emitPendingNS_def pending_ns_def Let_def written_emitNSDecls split: list.split)

lemma written_closeTag:
  assumes "written received w b" "state w = StateName"
  shows "written received (closeTagIfOpen w) (b @ pending_ns w @ ''>'')"
  using written_writeByte[OF written_emitPendingNS[OF assms(1)], of "CHR ''>''"] assms(2)
  by (simp add: closeTagIfOpen_def Let_def)

lemma written_Flush:
  assumes "written received w b"
  shows "\<exists>w'. Flush w = (None, w') \<and> written received w' b \<and> stateStack w' = stateStack w"
proof -
  obtain k where k: "out w = Some k" "received k b" "err w = None" using assms by (auto simp: written_def)
  show ?thesis
  proof (cases "sk_flush k")
    case None
    then show ?thesis using k assms by (simp add: Flush_def finish_def)
  next
    case (Some f)
    obtain o' e where f: "f (sk_state k) = (o', e)" by fastforce
    from flush_received[OF k(2) Some this] k Some f show ?thesis
      by (simp add: Flush_def finish_def written_def)
  qed
qed

text \<open>An element whose start tag is closed.\<close>

lemma EndElement_in_text:
  assumes "written received w b" "state w = StateText" "elemStack w = e # es" "depth w = int (length (elemStack w))"
  shows "\<exists>w'. EndElement w = (None, w') \<and> written received w' (b @ end_tag (indent w) (wroteNL w) (length es) e)
    \<and> elemStack w' = es \<and> depth w' = int (length es) \<and> wroteNL w' = (wroteNL w \<and> \<not> tag_line (indent w) e)
    \<and> indent w' = indent w \<and> stateStack w' = stateStack w \<and> (es \<noteq> [] \<longrightarrow> state w' = StateText)"
proof -
  let ?v = "writeEndTag e (popElement w)"
  have "written received (popElement w) b" using assms(1) by (simp add: popElement_def)
  from written_writeEndTag[OF this, of e]
  have v: "written received ?v (b @ end_tag (indent w) (wroteNL w) (length es) e)"
    using assms(3,4) by (simp add: popElement_def)
  have f: "elemStack ?v = es" "depth ?v = int (length es)" "indent ?v = indent w" "stateStack ?v = stateStack w"
    "wroteNL ?v = (wroteNL w \<and> \<not> tag_line (indent w) e)"
    using assms(3,4) by (auto simp: writeEndTag_def popElement_def Let_def writeEndIndent_wroteNL tag_line_def)
  have "EndElement w = leaveElement ?v"
    using assms(2,3) written_err[OF assms(1)] by (simp add: EndElement_def Let_def) (simp add: popElement_def)
  then show ?thesis using v f written_err[OF v] by (auto simp: leaveElement_def finish_def Let_def)
qed

lemma closeElements_text:
  assumes "written received w b" "elemStack w \<noteq> [] \<longrightarrow> state w = StateText" "depth w = int (length (elemStack w))"
  shows "\<exists>w'. closeElements (length (elemStack w)) w = (None, w')
    \<and> written received w' (b @ end_tags (indent w) (wroteNL w) (elemStack w))
    \<and> indent w' = indent w \<and> stateStack w' = stateStack w"
  using assms
proof (induction "elemStack w" arbitrary: w b)
  case Nil
  then show ?case by (simp flip: Nil(1))
next
  case (Cons e es)
  obtain u where u: "EndElement w = (None, u)"
    "written received u (b @ end_tag (indent w) (wroteNL w) (length es) e)" "elemStack u = es"
    "depth u = int (length es)" "wroteNL u = (wroteNL w \<and> \<not> tag_line (indent w) e)"
    "indent u = indent w" "stateStack u = stateStack w" "es \<noteq> [] \<longrightarrow> state u = StateText"
    using EndElement_in_text[OF Cons.prems(1) _ Cons(2)[symmetric] Cons.prems(3)] Cons.prems(2) Cons(2) by auto
  from Cons(1)[of u, OF u(3)[symmetric] u(2)] u Cons(2)[symmetric] show ?case by simp
qed

text \<open>An element whose start tag is open, between attributes or in an attribute value.\<close>

lemma EndElement_in_tag:
  assumes "written received w b" "state w = StateName" "elemStack w = e # es" "depth w = int (length (elemStack w))"
    "length (nsStack w) = length (elemStack w)"
  shows "\<exists>w'. EndElement w = (None, w')
    \<and> written received w' (b @ pending_ns w @ (if ee_empty e then ''/>'' else CHR ''>'' # end_tag (indent w) (wroteNL w) (length es) e))
    \<and> map ee_name (elemStack w') = map ee_name es
    \<and> map (tag_line (indent w)) (elemStack w') = map (tag_line (indent w)) es
    \<and> depth w' = int (length es) \<and> wroteNL w' = (wroteNL w \<and> (ee_empty e \<or> \<not> tag_line (indent w) e))
    \<and> indent w' = indent w \<and> stateStack w' = stateStack w \<and> (es \<noteq> [] \<longrightarrow> state w' = StateText)"
proof (cases "ee_empty e")
  case True
  let ?v = "writeStr ''/>'' (emitPendingNS (popElement w))"
  have "written received (popElement w) b" using assms(1) by (simp add: popElement_def)
  from written_writeStr[OF written_emitPendingNS[OF this], of "''/>''"]
  have v: "written received ?v (b @ pending_ns w @ ''/>'')"
    by simp
  have "EndElement w = leaveElement ?v"
    using assms(2,3) True written_err[OF assms(1)] by (simp add: EndElement_def Let_def) (simp add: popElement_def)
  then show ?thesis using v True assms(3,4) written_err[OF v]
    by (auto simp: leaveElement_def finish_def Let_def popElement_def)
next
  case False
  let ?c = "closeTagIfOpen (popElement w)"
  let ?v = "writeEndTag e ?c"
  have "written received (popElement w) b" "state (popElement w) = StateName"
    using assms(1,2) by (simp_all add: popElement_def)
  from written_closeTag[OF this]
  have "written received ?c (b @ pending_ns w @ ''>'')" by simp
  moreover have c: "indent ?c = indent w" "wroteNL ?c = wroteNL w" "depth ?c = int (length es)" "stateStack ?c = stateStack w"
    "elemStack ?c = map_top (\<lambda>e. e\<lparr>ee_empty := False\<rparr>) es"
    using assms(2,3,4) by (simp_all add: closeTagIfOpen_def popElement_def Let_def)
  ultimately have v: "written received ?v (b @ pending_ns w @ CHR ''>'' # end_tag (indent w) (wroteNL w) (length es) e)"
    using written_writeEndTag[of ?c _ e] by fastforce
  have f: "elemStack ?v = map_top (\<lambda>e. e\<lparr>ee_empty := False\<rparr>) es" "depth ?v = int (length es)" "indent ?v = indent w"
    "stateStack ?v = stateStack w" "wroteNL ?v = (wroteNL w \<and> \<not> tag_line (indent w) e)"
    using c by (auto simp: writeEndTag_def Let_def writeEndIndent_wroteNL tag_line_def)
  have m: "map ee_name (map_top (\<lambda>e. e\<lparr>ee_empty := False\<rparr>) es) = map ee_name es"
    "map (tag_line i) (map_top (\<lambda>e. e\<lparr>ee_empty := False\<rparr>) es) = map (tag_line i) es" for i
    by (cases es; simp add: map_top_def tag_line_def)+
  have "EndElement w = leaveElement ?v"
    using assms(2,3) False written_err[OF assms(1)] by (simp add: EndElement_def Let_def) (simp add: popElement_def)
  then show ?thesis using v f m False written_err[OF v] by (auto simp: leaveElement_def finish_def Let_def)
qed

end

lemma end_tags_cong:
  "map ee_name es = map ee_name es' \<Longrightarrow> map (tag_line ind) es = map (tag_line ind) es' \<Longrightarrow> end_tags ind nl es = end_tags ind nl es'"
proof (induction es arbitrary: es' nl)
  case (Cons e es)
  then obtain e' t where "es' = e' # t" by (cases es') auto
  with Cons show ?case using map_eq_imp_length_eq[of ee_name es ee_name t] by (auto simp: end_tag_def)
qed simp

subsection \<open>All of it\<close>

lemma end_tags_plain: "end_tags '''' nl es = end_tags '''' nl' es"
  by (induction es arbitrary: nl nl') (auto simp: end_tag_def tag_line_def)

lemma EndElement_in_attribute:
  assumes "err w = None" "state w = StateAttribute" "EndAttribute w = (None, v)" "err v = None" "state v = StateName"
    "elemStack w \<noteq> []"
  shows "EndElement w = EndElement v"
proof -
  have "elemStack v = elemStack w" using EndAttribute_elem[of w] assms(3) by simp
  then show ?thesis using assms by (simp add: EndElement_def)
qed

text \<open>What closing the open construct leaves.\<close>

lemma ctl_popped:
  assumes "well_formed w" "state w \<in> {StatePI, StatePIText, StateComment, StateCDATA}"
  shows "stateStack w \<noteq> [] \<and> (elemStack w \<noteq> [] \<longrightarrow> hd (stateStack w) = StateText)"
  using assms by (auto simp: well_formed_def ctl_ok_def)

context reliable_sink
begin

lemma closeOpenConstruct_text:
  assumes "written received w b" "well_formed w" "\<not> (state w = StateComment \<and> commentDash w)"
    "state w \<notin> {StateName, StateAttribute}"
  shows "\<exists>v. closeOpenConstruct w = (None, v)
    \<and> written received v (b @ construct_end (state w) @ (if own_line (state w) \<and> indent w \<noteq> '''' then [CHR 0x0A] else ''''))
    \<and> (elemStack v \<noteq> [] \<longrightarrow> state v = StateText) \<and> elemStack v = elemStack w \<and> depth v = depth w \<and> indent v = indent w
    \<and> stateStack v = saved_after w \<and> (indent w \<noteq> '''' \<longrightarrow> wroteNL v = (wroteNL w \<or> own_line (state w)))"
proof -
  have e: "err w = None" using assms(1) by (rule written_err)
  note nl = written_trailing_NL[OF written_writeStr[OF assms(1)]] written_trailing_NL[OF written_writeByte[OF assms(1)]]
  have err [simp]: "err (writeTrailingNL (writeStr s w)) = None" "err (writeTrailingNL (writeByte c w)) = None"
    "err (writeStr s w) = None" for s c
    using nl written_writeStr[OF assms(1)] by (blast dest: written_err)+
  have fields: "wroteNL (writeTrailingNL u) = (wroteNL u \<or> indent u \<noteq> '''')" "depth (writeTrailingNL u) = depth u"
    "indent (writeTrailingNL u) = indent u" for u :: "'a writer"
    by (simp_all add: writeTrailingNL_def)
  show ?thesis
  proof (cases "state w \<in> {StatePI, StatePIText, StateComment, StateCDATA}")
    case True
    obtain s t where st: "stateStack w = s # t" "elemStack w \<noteq> [] \<longrightarrow> s = StateText"
      using ctl_popped[OF assms(2) True] by (cases "stateStack w") auto
    show ?thesis
      using True assms(3) e st nl(1)[of "''?>''"] nl(1)[of "''-->''"] written_writeStr[OF assms(1), of "'']]>''"]
      by (cases "indent w = ''''"; elim insertE emptyE)
        (simp_all add: closeOpenConstruct_def EndPI_def EndComment_def EndCDATA_def finish_def popState_def construct_end_def
          own_line_def saved_after_def fields)
  next
    case False
    then have "state w \<in> {StateNone, StateDocument, StateText, StateDTD, StateDTDText}"
      using assms(4) by (cases "state w") auto
    moreover have "elemStack w = []" if "state w \<noteq> StateText" using wf_closed[OF assms(2)] calculation that by auto
    ultimately show ?thesis
      using e assms(1) nl(1)[of "'']>''"] nl(2)[of "CHR ''>''"]
      by (cases "indent w = ''''"; elim insertE emptyE)
        (simp_all add: closeOpenConstruct_def EndDTD_def finish_def construct_end_def own_line_def saved_after_def fields Let_def)
  qed
qed

lemma elements_end_text:
  assumes "written received v b" "length (nsStack v) = length (elemStack v)" "depth v = int (length (elemStack v))"
    "elemStack v \<noteq> [] \<longrightarrow> state v \<in> {StateName, StateText}"
  shows "\<exists>u. closeElements (length (elemStack v)) v = (None, u) \<and> written received u (b @ elements_end v)
    \<and> indent u = indent v \<and> stateStack u = stateStack v"
proof (cases "elemStack v")
  case Nil
  then show ?thesis using assms(1) by (simp add: elements_end_def)
next
  case (Cons e es)
  show ?thesis
  proof (cases "state v = StateName")
    case True
    obtain u where u: "EndElement v = (None, u)"
      "written received u (b @ pending_ns v @ (if ee_empty e then ''/>'' else CHR ''>'' # end_tag (indent v) (wroteNL v) (length es) e))"
      "map ee_name (elemStack u) = map ee_name es" "map (tag_line (indent v)) (elemStack u) = map (tag_line (indent v)) es"
      "depth u = int (length es)" "wroteNL u = (wroteNL v \<and> (ee_empty e \<or> \<not> tag_line (indent v) e))"
      "indent u = indent v" "stateStack u = stateStack v" "es \<noteq> [] \<longrightarrow> state u = StateText"
      using EndElement_in_tag[OF assms(1) True Cons assms(3,2)] by blast
    have l: "length (elemStack u) = length es" using u(3) map_eq_imp_length_eq by blast
    then have t: "elemStack u \<noteq> [] \<longrightarrow> state u = StateText" "depth u = int (length (elemStack u))" using u(5,9) by auto
    obtain x where x: "closeElements (length es) u = (None, x)" "indent x = indent v" "stateStack x = stateStack v"
      "written received x ((b @ pending_ns v @ (if ee_empty e then ''/>'' else CHR ''>'' # end_tag (indent v) (wroteNL v) (length es) e))
         @ end_tags (indent v) (wroteNL u) es)"
      using closeElements_text[OF u(2) t] end_tags_cong[OF u(3,4)] u(7,8) unfolding l by auto
    have "closeElements (length (elemStack v)) v = (None, x)" using Cons u(1) x(1) by simp
    moreover have "written received x (b @ elements_end v)"
      using x(4) True Cons u(6) by (auto simp: elements_end_def)
    ultimately show ?thesis using x(2,3) by blast
  next
    case False
    then have t: "state v = StateText" using assms(4) Cons by auto
    then show ?thesis
      using closeElements_text[OF assms(1) _ assms(3)] Cons by (auto simp: elements_end_def own_line_def)
  qed
qed

lemma EndDocument_text:
  assumes "written received w b" "well_formed w" "\<not> (state w = StateComment \<and> commentDash w)"
  shows "\<exists>w'. EndDocument w = (None, w') \<and> written received w' (b @ closing w) \<and> stateStack w' = saved_after w"
proof -
  have e: "err w = None" using assms(1) by (rule written_err)
  have d: "depth w = int (length (elemStack w))" "length (nsStack w) = length (elemStack w)"
    using assms(2) by (simp_all add: well_formed_def)
  obtain u v where u: "closeOpenConstruct w = (None, v)" "closeElements (length (elemStack v)) v = (None, u)"
    "written received u (b @ construct_end (state w) @ (if own_line (state w) \<and> indent w \<noteq> '''' then [CHR 0x0A] else '''') @ elements_end w)"
    "indent u = indent w" "stateStack u = saved_after w"
  proof (cases "state w \<in> {StateName, StateAttribute}")
    case False
    obtain v where v: "closeOpenConstruct w = (None, v)"
      "written received v (b @ construct_end (state w) @ (if own_line (state w) \<and> indent w \<noteq> '''' then [CHR 0x0A] else ''''))"
      "elemStack v \<noteq> [] \<longrightarrow> state v = StateText" "elemStack v = elemStack w" "depth v = depth w" "indent v = indent w"
      "stateStack v = saved_after w" "indent w \<noteq> '''' \<longrightarrow> wroteNL v = (wroteNL w \<or> own_line (state w))"
      using closeOpenConstruct_text[OF assms False] by blast
    have "end_tags (indent w) (wroteNL v) (elemStack w) = elements_end w"
      using v(8) False end_tags_plain[of "wroteNL v" "elemStack w"]
      by (cases "indent w = ''''"; cases "elemStack w") (auto simp: elements_end_def)
    moreover have dv: "depth v = int (length (elemStack v))" using d(1) v(4,5) by simp
    ultimately obtain u where "closeElements (length (elemStack v)) v = (None, u)" "indent u = indent w"
      "written received u (b @ construct_end (state w) @ (if own_line (state w) \<and> indent w \<noteq> '''' then [CHR 0x0A] else '''') @ elements_end w)"
      "stateStack u = saved_after w"
      using closeElements_text[OF v(2,3) dv] v(4,6,7) by auto
    with v(1) show thesis by (intro that)
  next
    case True
    then have sec: "construct_end (state w) = ''''" "\<not> own_line (state w)" "closeOpenConstruct w = (None, w)"
      by (auto simp: construct_end_def own_line_def closeOpenConstruct_def)
    show thesis
    proof (cases "state w = StateName")
      case True
      then show thesis using elements_end_text[OF assms(1) d(2,1)] sec that by (auto simp: saved_after_def)
    next
      case False
      with True have st: "state w = StateAttribute" by simp
      then obtain t where t: "stateStack w = StateName # t" "elemStack w \<noteq> []"
        using assms(2) by (cases "stateStack w") (auto simp: well_formed_def ctl_ok_def)
      let ?v = "popState StateName (writeByte (quoteChar w) w)"
      have v: "written received ?v (b @ [quoteChar w])"
        using written_writeByte[OF assms(1), of "quoteChar w"] t by (simp add: popState_def)
      have a: "EndAttribute w = (None, ?v)" using e st written_err[OF v] by (simp add: EndAttribute_def finish_def)
      have f: "state ?v = StateName" "elemStack ?v = elemStack w" "nsStack ?v = nsStack w" "depth ?v = depth w"
        "stateStack ?v = t" "indent ?v = indent w" "wroteNL ?v = wroteNL w" "quoteChar ?v = quoteChar w" "xml11 ?v = xml11 w"
        using t by (simp_all add: popState_def)
      have c: "closeElements (length (elemStack w)) w = closeElements (length (elemStack ?v)) ?v"
        using EndElement_in_attribute[OF e st a written_err[OF v] f(1) t(2)] t(2) f(2) by (cases "elemStack w") auto
      have p: "pending_ns ?v = pending_ns w"
        using f by (cases "nsStack w") (simp_all add: pending_ns_def)
      have "elements_end w = [quoteChar w] @ elements_end ?v"
        using t(2) st f p by (cases "elemStack w") (simp_all add: elements_end_def)
      then show thesis
        using elements_end_text[OF v] d f c sec st t that by (auto simp: saved_after_def)
    qed
  qed
  let ?u = "(if indent u = '''' then writeStr [CHR 0x0A] u else u)\<lparr>state := StateNone\<rparr>"
  have "written received ?u (b @ closing w)"
    using u(3,4) written_writeStr[OF u(3), of "[CHR 0x0A]"]
    by (cases "own_line (state w)"; cases "indent w = ''''") (simp_all add: closing_def)
  from written_Flush[OF this] show ?thesis
    using u e by (auto simp: EndDocument_def Let_def)
qed

end

end
