(* ===== verification/StreamSticky.thy ===== *)
theory StreamSticky
  imports StreamState
begin

text \<open>
  The sticky error, seen from the destination.  \<open>logged d\<close> is the destination \<open>d\<close> with a log of what each
  of its methods returned.  The locale \<open>output_law\<close> is a law of the output and the error of a writer
  that a single call to the destination keeps; every method of the writer then keeps it.
\<close>

locale output_law =
  fixes P :: "'o sink option \<Rightarrow> goerr option \<Rightarrow> bool"
  assumes string_law: "P (Some k) None \<Longrightarrow> io_WriteString k s = (k', e) \<Longrightarrow> P (Some k') e"
    and byte_law: "P (Some k) None \<Longrightarrow> io_WriteByte k c = (k', e) \<Longrightarrow> P (Some k') e"
    and flush_law: "P (Some k) None \<Longrightarrow> sk_flush k = Some f \<Longrightarrow> f (sk_state k) = (st, e) \<Longrightarrow>
      P (Some (k\<lparr>sk_state := st\<rparr>)) e"
    and nil_law: "P None None \<Longrightarrow> P None (Some errNilOutputWriter)"

definition obeys :: "('o sink option \<Rightarrow> goerr option \<Rightarrow> bool) \<Rightarrow> 'o writer \<Rightarrow> bool" where
  "obeys P w \<longleftrightarrow> P (out w) (err w)"

lemma obeys_updates [simp]:
  "obeys P (w\<lparr>indent := a1\<rparr>) = obeys P w" "obeys P (w\<lparr>quoteChar := a2\<rparr>) = obeys P w"
  "obeys P (w\<lparr>state := a3\<rparr>) = obeys P w" "obeys P (w\<lparr>elemStack := a4\<rparr>) = obeys P w"
  "obeys P (w\<lparr>nsStack := a5\<rparr>) = obeys P w" "obeys P (w\<lparr>stateStack := a6\<rparr>) = obeys P w"
  "obeys P (w\<lparr>depth := a7\<rparr>) = obeys P w" "obeys P (w\<lparr>hasOutput := a8\<rparr>) = obeys P w"
  "obeys P (w\<lparr>wroteNL := a9\<rparr>) = obeys P w" "obeys P (w\<lparr>commentDash := a10\<rparr>) = obeys P w"
  "obeys P (w\<lparr>piQuestion := a11\<rparr>) = obeys P w" "obeys P (w\<lparr>cdataBrackets := a12\<rparr>) = obeys P w"
  "obeys P (w\<lparr>xml11 := a13\<rparr>) = obeys P w"
  by (simp_all add: obeys_def)

lemma obeys_marks [simp]:
  "obeys P (markParentChild w) = obeys P w" "obeys P (markText w) = obeys P w"
  "obeys P (pushState s w) = obeys P w" "obeys P (popState s w) = obeys P w"
  "obeys P (popElement w) = obeys P w" "obeys P (declareNS p u w) = obeys P w"
  by (auto simp: obeys_def pushState_def popState_def popElement_def split: list.split)

context output_law
begin

subsection \<open>Primitives\<close>

lemma obeys_writeStr [intro!]: "obeys P w \<Longrightarrow> obeys P (writeStr s w)"
  by (auto simp: obeys_def writeStr_def ensureWritable_def put_out_def nil_law
      split: option.split prod.split dest: string_law)

lemma obeys_writeByte [intro!]: "obeys P w \<Longrightarrow> obeys P (writeByte c w)"
  by (auto simp: obeys_def writeByte_def ensureWritable_def put_out_def nil_law
      split: option.split prod.split dest: byte_law)

lemma obeys_flush_slice [intro!]: "obeys P w \<Longrightarrow> obeys P (flush_slice s start i w)"
  by (auto simp: flush_slice_def)

lemma obeys_escaped_loop: "obeys P w \<Longrightarrow> obeys P (snd (writeEscapedLoop m s i start w))"
proof (induction "length s - i" arbitrary: i start w)
  case 0
  then show ?case by (simp add: loop_end)
next
  case (Suc k)
  then have i: "i < length s" and k: "k = length s - Suc i" by auto
  obtain r n where d: "decode_rune (drop i s) = (r, n)" by fastforce
  show ?case
    by (cases "escape_action m (quoteChar w) (s ! i)"; cases "charref_at w s i")
      (auto simp: loop_replace loop_raw loop_ref[OF _ _ _ d] loop_default i writeDecimalCharRef_def
        intro!: Suc.hyps(1)[OF k] Suc.prems)
qed

lemma obeys_writeEscaped [intro!]: "obeys P w \<Longrightarrow> obeys P (writeEscaped s m w)"
  using obeys_escaped_loop[of "w" m s 0 0] nil_law
  by (auto simp: writeEscaped_def Let_def ensureWritable_def put_out_def split: prod.split option.split)
    (auto simp: obeys_def dest: string_law)

lemma obeys_cdata_loop: "obeys P w \<Longrightarrow> obeys P (snd (writeCDATALoop s i start w))"
proof (induction "length s - i" arbitrary: i start w)
  case 0
  then show ?case by (simp add: cdata_loop_end)
next
  case (Suc k)
  then have i: "i < length s" and k: "k = length s - Suc i" by auto
  show ?case
    by (cases "s ! i = CHR ''>'' \<and> 2 \<le> cdataBrackets w")
      (auto simp: cdata_loop_split cdata_loop_skip i intro!: Suc.hyps(1)[OF k] Suc.prems)
qed

lemma obeys_writeCDATAEscaped [intro!]: "obeys P w \<Longrightarrow> obeys P (writeCDATAEscaped s w)"
  using obeys_cdata_loop[of w s 0 0] by (auto simp: writeCDATAEscaped_def Let_def split: prod.split)

lemma obeys_text [intro!]:
  "obeys P w \<Longrightarrow> obeys P (writeTextEscaped s w)" "obeys P w \<Longrightarrow> obeys P (writeAttrEscaped s w)"
  by (auto simp: writeTextEscaped_def writeAttrEscaped_def)

lemma obeys_seqw: "(\<And>f w. f \<in> set fs \<Longrightarrow> obeys P w \<Longrightarrow> obeys P (f w)) \<Longrightarrow> obeys P w \<Longrightarrow> obeys P (seqw fs w)"
  by (induction fs arbitrary: w) auto

lemma obeys_repeatw: "(\<And>w. obeys P w \<Longrightarrow> obeys P (f w)) \<Longrightarrow> obeys P w \<Longrightarrow> obeys P (repeatw n f w)"
  by (induction n arbitrary: w) (auto simp: repeatw_def funpow_swap1)

lemma obeys_steps [intro!]:
  "obeys P w \<Longrightarrow> obeys P (writeQuoted s w)" "obeys P w \<Longrightarrow> obeys P (writeQuotedID s w)"
  "obeys P w \<Longrightarrow> obeys P (emitNSDecl ns w)" "obeys P w \<Longrightarrow> obeys P (writeTrailingNL w)"
  "obeys P w \<Longrightarrow> obeys P (writeIndent w)" "obeys P w \<Longrightarrow> obeys P (writeEndIndent w)"
  "obeys P w \<Longrightarrow> obeys P (ensureDTDInternalSubset w)"
  by (auto simp: writeQuoted_def writeQuotedID_def emitNSDecl_def writeTrailingNL_def writeIndent_def
      writeEndIndent_def ensureDTDInternalSubset_def Let_def intro!: obeys_repeatw)

lemma obeys_emitPendingNS [intro!]: "obeys P w \<Longrightarrow> obeys P (emitPendingNS w)"
  by (auto simp: emitPendingNS_def Let_def split: list.split intro!: obeys_seqw)

lemma obeys_closeTagIfOpen [intro!]: "obeys P w \<Longrightarrow> obeys P (closeTagIfOpen w)"
  by (auto simp: closeTagIfOpen_def Let_def)

lemma obeys_writeEndTag [intro!]: "obeys P w \<Longrightarrow> obeys P (writeEndTag e w)"
  by (auto simp: writeEndTag_def Let_def)

subsection \<open>Calls\<close>

lemma obeys_try:
  "obeys P (snd r) \<Longrightarrow> (\<And>w. r = (None, w) \<Longrightarrow> obeys P w \<Longrightarrow> obeys P (snd (k w))) \<Longrightarrow> obeys P (snd (try_then r k))"
  by (cases r) (auto simp: try_then_def split: option.split)

lemma obeys_Flush: "obeys P w \<Longrightarrow> obeys P (snd (Flush w))"
  by (auto simp: Flush_def obeys_def finish_def split: option.split prod.split dest: flush_law)

lemma obeys_elements:
  "obeys P w \<Longrightarrow> obeys P (snd (StartElement n w))"
  "obeys P w \<Longrightarrow> obeys P (snd (EndAttribute w))"
  "obeys P w \<Longrightarrow> obeys P (snd (StartAttribute n w))"
  "obeys P w \<Longrightarrow> obeys P (snd (leaveElement w))"
  by (auto simp: StartElement_def EndAttribute_def StartAttribute_def leaveElement_def Let_def)

lemma obeys_ns:
  assumes "obeys P w"
  shows "obeys P (snd (StartElementNS p l u w))" "obeys P (snd (StartAttributeNS p l u w))"
  using assms by (auto simp: StartElementNS_def StartAttributeNS_def intro!: obeys_try obeys_elements)

lemma obeys_ends:
  assumes "obeys P w" shows "obeys P (snd (EndElement w))" "obeys P (snd (FullEndElement w))"
  using assms by (auto simp: EndElement_def FullEndElement_def Let_def intro!: obeys_try obeys_elements)

lemma obeys_WriteString: "obeys P w \<Longrightarrow> obeys P (snd (WriteString s w))"
  by (cases "state w") (auto simp: WriteString_def Let_def)

lemma obeys_WriteRaw: "obeys P w \<Longrightarrow> obeys P (snd (WriteRaw s w))"
  by (auto simp: WriteRaw_def)

lemma obeys_writes:
  assumes "obeys P w"
  shows "obeys P (snd (WriteElement n c w))" "obeys P (snd (WriteElementNS p l u c w))"
    "obeys P (snd (WriteAttribute n c w))" "obeys P (snd (WriteAttributeNS p l u c w))"
  using assms by (auto simp: WriteElement_def WriteElementNS_def WriteAttribute_def WriteAttributeNS_def
      intro!: obeys_try obeys_elements obeys_ns obeys_ends obeys_WriteString)

lemma obeys_constructs:
  assumes "obeys P w"
  shows "obeys P (snd (StartComment w))" "obeys P (snd (EndComment w))" "obeys P (snd (StartPI t w))"
    "obeys P (snd (EndPI w))" "obeys P (snd (StartCDATA w))" "obeys P (snd (EndCDATA w))"
  using assms by (auto simp: StartComment_def EndComment_def StartPI_def EndPI_def StartCDATA_def EndCDATA_def Let_def)

lemma obeys_cdata_sections: "obeys P w \<Longrightarrow> obeys P (snd (writeCDATASections s w))"
proof (induction s w rule: writeCDATASections.induct)
  case (1 s w)
  have "obeys P (snd (writeCDATASection t w))" if "obeys P w" for t w
    using that by (auto simp: writeCDATASection_def intro!: obeys_try obeys_constructs obeys_WriteString)
  then show ?case using 1 by (subst writeCDATASections.simps) (auto split: option.split intro!: obeys_try)
qed

lemma obeys_write_constructs:
  assumes "obeys P w"
  shows "obeys P (snd (WriteComment s w))" "obeys P (snd (WritePI t s w))" "obeys P (snd (WriteCDATA s w))"
  using assms by (auto simp: WriteComment_def WritePI_def WriteCDATA_def
      intro!: obeys_try obeys_constructs obeys_WriteString obeys_cdata_sections)

lemma obeys_DTD:
  assumes "obeys P w"
  shows "obeys P (snd (StartDTD n p s w))" "obeys P (snd (EndDTD w))" "obeys P (snd (WriteDTDElement n c w))"
    "obeys P (snd (WriteDTDAttlist n c w))" "obeys P (snd (WriteDTDEntity pe n c w))"
    "obeys P (snd (WriteDTDExternalEntity pe n p s d w))" "obeys P (snd (WriteDTDNotation n p s w))"
  using assms by (auto simp: StartDTD_def EndDTD_def WriteDTDElement_def WriteDTDAttlist_def WriteDTDEntity_def
      WriteDTDExternalEntity_def WriteDTDNotation_def Let_def)

lemma obeys_WriteDTD: "obeys P w \<Longrightarrow> obeys P (snd (WriteDTD n p s i w))"
  by (auto simp: WriteDTD_def intro!: obeys_try obeys_DTD)

lemma obeys_StartDocument: "obeys P w \<Longrightarrow> obeys P (snd (StartDocument v e s w))"
  by (auto simp: StartDocument_def Let_def)

lemma obeys_closeElements: "obeys P w \<Longrightarrow> obeys P (snd (closeElements n w))"
  by (induction n arbitrary: w) (auto intro!: obeys_try obeys_ends)

lemma obeys_EndDocument: "obeys P w \<Longrightarrow> obeys P (snd (EndDocument w))"
  by (auto simp: EndDocument_def closeOpenConstruct_def Let_def split: writerState.split
      intro!: obeys_try obeys_Flush obeys_closeElements obeys_constructs obeys_DTD)

lemma obeys_exec: "obeys P w \<Longrightarrow> obeys P (snd (exec c w))"
  by (cases c) (auto intro: obeys_Flush obeys_elements obeys_ns obeys_ends obeys_WriteString obeys_WriteRaw
      obeys_writes obeys_constructs obeys_write_constructs obeys_DTD obeys_WriteDTD obeys_StartDocument obeys_EndDocument)

lemma obeys_run: "obeys P w \<Longrightarrow> obeys P (run cs w)"
  by (induction cs arbitrary: w) (auto intro: obeys_exec)

end


subsection \<open>A call reports an error of the destination\<close>

definition honest :: "'o outcome \<Rightarrow> bool" where
  "honest r \<longleftrightarrow> (fst r = None \<longrightarrow> err (snd r) = None)"

lemma honest_basic [intro!]: "honest (finish w)" "honest (fail f a w)"
  by (simp_all add: honest_def finish_def fail_def)

lemma honest_try [intro!]: "(\<And>w. honest (k w)) \<Longrightarrow> honest (try_then r k)"
  by (cases r; cases "fst r") (auto simp: honest_def try_then_def)

lemma honest_if [intro!]: "honest x \<Longrightarrow> honest y \<Longrightarrow> honest (if b then x else y)"
  by simp

named_theorems reports

lemma honest_leaveElement [reports]: "honest (leaveElement w)"
  unfolding leaveElement_def Let_def by (intro honest_basic)

lemma honest_Flush [reports]: "honest (Flush w)"
  unfolding Flush_def by (auto simp: honest_def finish_def split: option.split prod.split)

lemma honest_ends [reports]:
  "honest (EndAttribute w)" "honest (EndElement w)" "honest (FullEndElement w)" "honest (EndComment w)"
  "honest (EndPI w)" "honest (EndCDATA w)" "honest (EndDTD w)"
  unfolding EndAttribute_def EndElement_def FullEndElement_def EndComment_def EndPI_def EndCDATA_def EndDTD_def Let_def
  by (intro honest_basic honest_try honest_if reports)+

lemma honest_starts [reports]:
  "honest (StartElement n w)" "honest (StartAttribute n w)" "honest (StartComment w)" "honest (StartPI t w)"
  "honest (StartCDATA w)" "honest (StartDTD n p s w)" "honest (StartDocument v e sa w)"
  unfolding StartElement_def StartAttribute_def StartComment_def StartPI_def StartCDATA_def StartDTD_def
    StartDocument_def Let_def
  by (intro honest_basic honest_try honest_if)+

lemma honest_ns [reports]: "honest (StartElementNS p l u w)" "honest (StartAttributeNS p l u w)"
  unfolding StartElementNS_def StartAttributeNS_def by (intro honest_basic honest_try honest_if reports)+

lemma honest_WriteString [reports]: "honest (WriteString s w)"
  unfolding WriteString_def Let_def by (cases "state w") (simp_all add: honest_basic honest_try honest_if)

lemma honest_writeCDATASection [reports]: "honest (writeCDATASection s w)"
  unfolding writeCDATASection_def by (intro honest_try reports)

lemma honest_writeCDATASections [reports]: "honest (writeCDATASections s w)"
proof (induction s w rule: writeCDATASections.induct)
  case (1 s w)
  then show ?case
    by (subst writeCDATASections.simps) (auto intro!: reports split: option.split)
qed

lemma honest_writes [reports]:
  "honest (WriteElement n c w)" "honest (WriteElementNS p l u c w)" "honest (WriteAttribute n c w)"
  "honest (WriteAttributeNS p l u c w)" "honest (WriteRaw s w)" "honest (WriteComment s w)"
  "honest (WritePI t s w)" "honest (WriteCDATA s w)"
  unfolding WriteElement_def WriteElementNS_def WriteAttribute_def WriteAttributeNS_def WriteRaw_def
    WriteComment_def WritePI_def WriteCDATA_def
  by (intro honest_basic honest_try honest_if reports)+

lemma honest_DTD [reports]:
  "honest (WriteDTD n p s i w)" "honest (WriteDTDElement n c w)" "honest (WriteDTDAttlist n c w)"
  "honest (WriteDTDEntity pe n c w)" "honest (WriteDTDExternalEntity pe n p s d w)"
  "honest (WriteDTDNotation n p s w)"
  unfolding WriteDTD_def WriteDTDElement_def WriteDTDAttlist_def WriteDTDEntity_def WriteDTDExternalEntity_def
    WriteDTDNotation_def
  by (intro honest_basic honest_try honest_if reports)+

lemma honest_EndDocument [reports]: "honest (EndDocument w)"
  unfolding EndDocument_def Let_def by (intro honest_basic honest_try honest_if reports)+

lemma exec_reports: "fst (exec c w) = None \<Longrightarrow> err (snd (exec c w)) = None"
proof -
  have "honest (exec c w)" by (cases c) (simp_all add: reports)
  then show "fst (exec c w) = None \<Longrightarrow> err (snd (exec c w)) = None" by (simp add: honest_def)
qed

subsection \<open>A destination with a log\<close>

definition log_call :: "('o \<Rightarrow> 'a \<Rightarrow> 'o \<times> goerr option) \<Rightarrow> 'o \<times> goerr option list \<Rightarrow> 'a
    \<Rightarrow> ('o \<times> goerr option list) \<times> goerr option" where
  "log_call f s a = (let (o', e) = f (fst s) a in ((o', snd s @ [e]), e))"

definition log_flush :: "('o \<Rightarrow> 'o \<times> goerr option) \<Rightarrow> 'o \<times> goerr option list
    \<Rightarrow> ('o \<times> goerr option list) \<times> goerr option" where
  "log_flush f s = (let (o', e) = f (fst s) in ((o', snd s @ [e]), e))"

definition logged :: "'o sink \<Rightarrow> ('o \<times> goerr option list) sink" where
  "logged d = \<lparr>sk_state = (sk_state d, []), sk_write = log_call (sk_write d),
     sk_writeString = map_option log_call (sk_writeString d),
     sk_writeByte = map_option log_call (sk_writeByte d), sk_flush = map_option log_flush (sk_flush d)\<rparr>"

text \<open>What each call to the destination returned, oldest first.\<close>

definition answers :: "('o \<times> goerr option list) writer \<Rightarrow> goerr option list" where
  "answers w = (case out w of Some k \<Rightarrow> snd (sk_state k) | None \<Rightarrow> [])"

text \<open>The law: only the last call may have failed, and its result is the error of the writer.\<close>

definition stopped :: "'o sink \<Rightarrow> ('o \<times> goerr option list) sink option \<Rightarrow> goerr option \<Rightarrow> bool" where
  "stopped d k e \<longleftrightarrow> (\<exists>st log. k = Some (logged d\<lparr>sk_state := (st, log)\<rparr>) \<and>
     list_all (\<lambda>r. r = None) (butlast log) \<and> e = (if log = [] then None else last log))"

lemma stoppedI: "list_all (\<lambda>r. r = None) log \<Longrightarrow> stopped d (Some (logged d\<lparr>sk_state := (st, log @ [e])\<rparr>)) e"
  unfolding stopped_def by (intro exI[of _ st] exI[of _ "log @ [e]"]) simp

lemma stopped_after:
  assumes "stopped d (Some k) None"
  shows "\<exists>st log. k = logged d\<lparr>sk_state := (st, log)\<rparr> \<and> list_all (\<lambda>r. r = None) log"
proof -
  obtain st log where k: "k = logged d\<lparr>sk_state := (st, log)\<rparr>" "list_all (\<lambda>r. r = None) (butlast log)"
    "log \<noteq> [] \<longrightarrow> last log = None"
    using assms by (auto simp: stopped_def split: if_splits)
  then have "list_all (\<lambda>r. r = None) log"
    by (cases log rule: rev_cases) auto
  with k show ?thesis by blast
qed

interpretation sticky: output_law "stopped d" for d
proof
  fix k k' s e
  assume "stopped d (Some k) None" and w: "io_WriteString k s = (k', e)"
  then obtain st log where k: "k = logged d\<lparr>sk_state := (st, log)\<rparr>" "list_all (\<lambda>r. r = None) log"
    using stopped_after by blast
  from w obtain st' where "k' = logged d\<lparr>sk_state := (st', log @ [e])\<rparr>"
    unfolding k(1) by (cases "sk_writeString d") (auto simp: io_WriteString_def logged_def log_call_def Let_def case_prod_unfold)
  with k(2) show "stopped d (Some k') e" by (simp add: stoppedI)
next
  fix k k' c e
  assume "stopped d (Some k) None" and w: "io_WriteByte k c = (k', e)"
  then obtain st log where k: "k = logged d\<lparr>sk_state := (st, log)\<rparr>" "list_all (\<lambda>r. r = None) log"
    using stopped_after by blast
  from w obtain st' where "k' = logged d\<lparr>sk_state := (st', log @ [e])\<rparr>"
    unfolding k(1) by (cases "sk_writeByte d") (auto simp: io_WriteByte_def logged_def log_call_def Let_def case_prod_unfold)
  with k(2) show "stopped d (Some k') e" by (simp add: stoppedI)
next
  fix k f s e
  assume "stopped d (Some k) None" and f: "sk_flush k = Some f" "f (sk_state k) = (s, e)"
  then obtain st log where k: "k = logged d\<lparr>sk_state := (st, log)\<rparr>" "list_all (\<lambda>r. r = None) log"
    using stopped_after by blast
  from f obtain st' where "s = (st', log @ [e])"
    unfolding k(1) by (cases "sk_flush d") (auto simp: logged_def log_flush_def Let_def case_prod_unfold)
  then have "k\<lparr>sk_state := s\<rparr> = logged d\<lparr>sk_state := (st', log @ [e])\<rparr>" by (simp add: k(1))
  with k(2) show "stopped d (Some (k\<lparr>sk_state := s\<rparr>)) e" by (simp add: stoppedI)
qed (simp add: stopped_def)

text \<open>The writers a caller makes from \<open>NewWriter\<close> on a destination, by any configuration and calls.\<close>

inductive writes_to :: "'o sink \<Rightarrow> 'o writer \<Rightarrow> bool" for k where
  new: "writes_to k (NewWriter (Some k))"
| indent: "writes_to k w \<Longrightarrow> writes_to k (Indent i w)"
| quote: "writes_to k w \<Longrightarrow> writes_to k (QuoteChar q w)"
| version: "writes_to k w \<Longrightarrow> writes_to k (XMLVersion v w)"
| call: "writes_to k w \<Longrightarrow> writes_to k (snd (exec c w))"

lemma writes_to_run: "writes_to k w \<Longrightarrow> writes_to k (run cs w)"
  by (induction cs arbitrary: w) (auto intro: writes_to.call)

lemma writes_to_stopped: "writes_to (logged d) w \<Longrightarrow> obeys (stopped d) w"
proof (induction rule: writes_to.induct)
  case new
  have "logged d = logged d\<lparr>sk_state := (sk_state d, [])\<rparr>" by (simp add: logged_def)
  then show ?case by (auto simp: obeys_def NewWriter_def stopped_def intro!: exI)
qed (auto simp: Indent_def QuoteChar_def XMLVersion_def intro: sticky.obeys_exec)

text \<open>C8: a failure of the destination is sticky.  For a writer made on any destination, with any
  configuration and calls, and any of the destination's calls failing: no call to the destination follows one that failed;
  the writer's error is what the last call to the destination returned; once it is set, every
  method returns an error and neither calls the destination nor changes the writer; and the method during
  which the destination fails returns an error itself.\<close>

theorem sticky_error:
  assumes "writes_to (logged d) w"
  shows "(\<forall>i. Suc i < length (answers w) \<longrightarrow> answers w ! i = None) \<and>
    err w = (if answers w = [] then None else last (answers w)) \<and>
    (\<forall>c. err w \<noteq> None \<longrightarrow> snd (exec c w) = w \<and> fst (exec c w) \<noteq> None) \<and>
    (\<forall>c. err (snd (exec c w)) \<noteq> None \<longrightarrow> fst (exec c w) \<noteq> None)"
proof -
  obtain st log where o: "out w = Some (logged d\<lparr>sk_state := (st, log)\<rparr>)"
    and l: "list_all (\<lambda>r. r = None) (butlast log)" "err w = (if log = [] then None else last log)"
    using writes_to_stopped[OF assms] by (auto simp: obeys_def stopped_def)
  have a: "answers w = log" using o by (simp add: answers_def)
  have "answers w ! i = None" if "Suc i < length (answers w)" for i
    using l(1) that unfolding a list_all_length by (auto simp: nth_butlast)
  then show ?thesis using l(2) a exec_sticky exec_reports by metis
qed

text \<open>A destination that accepts one call and fails from then on.\<close>

definition flaky :: "nat sink" where
  "flaky = \<lparr>sk_state = 0, sk_write = (\<lambda>n s. (Suc n, if n = 0 then None else Some (External ''disk full''))),
     sk_writeString = None, sk_writeByte = None, sk_flush = None\<rparr>"

definition flaky_writer :: "(nat \<times> goerr option list) writer" where
  "flaky_writer = run [CStartElement ''a''] (NewWriter (Some (logged flaky)))"

lemma flaky_answers: "answers flaky_writer = [None, Some (External ''disk full'')]"
proof -
  have "IsValidQName ''a''"
    by (rule IsValidQName_unprefixed)
      (simp add: IsValidNCName_def ncname_loop.simps decode_rune_ascii IsNCNameStartChar_def rune_error_def)
  then show ?thesis
    by (simp add: flaky_writer_def answers_def StartElement_def NewWriter_def markParentChild_def map_top_def
        writeIndent_def finish_def Let_def writeByte_def writeStr_def ensureWritable_def put_out_def io_WriteByte_def
        io_WriteString_def logged_def log_call_def flaky_def)
qed

theorem sticky_error_witness:
  "err flaky_writer = Some (External ''disk full'') \<and>
   snd (exec CEndElement flaky_writer) = flaky_writer \<and> fst (exec CEndElement flaky_writer) \<noteq> None"
proof -
  have "writes_to (logged flaky) flaky_writer"
    unfolding flaky_writer_def by (intro writes_to_run writes_to.new)
  from sticky_error[OF this] show ?thesis by (simp add: flaky_answers del: exec.simps)
qed

end
