(* ===== verification/StreamEnd.thy ===== *)
theory StreamEnd
  imports StreamClose StreamSticky
begin

text \<open>
  The end of a document, and call sequences the writer accepts although their output is not
  well formed.
\<close>

subsection \<open>\<open>EndDocument\<close>\<close>

lemma Flush_after: "Flush w = (None, w') \<Longrightarrow> elemStack w' = elemStack w \<and> state w' = state w"
  by (auto simp: Flush_def finish_def split: if_splits option.splits prod.splits)

lemma EndDocument_after:
  assumes "EndDocument w = (None, w')" shows "elemStack w' = [] \<and> state w' = StateNone"
proof -
  obtain u v where "closeElements (length (elemStack u)) u = (None, v)"
    and f: "Flush ((if indent v = '''' then writeStr [CHR 0x0A] v else v)\<lparr>state := StateNone\<rparr>) = (None, w')"
    using assms by (auto simp: EndDocument_def finish_def try_then_eq_None Let_def split: if_splits)
  then have "elemStack v = []" using closeElements_closes by blast
  with Flush_after[OF f] show ?thesis by auto
qed

text \<open>C38: \<open>EndDocument\<close> ends the document.  From every writer a caller can produce, on a
  destination that does not fail, \<open>EndDocument\<close> appends exactly the missing bytes: the end of the
  open comment, processing instruction, CDATA section or DTD, the quote of an open attribute value, the pending
  namespace declarations and the end of an open start tag, the end tags of the open elements from the innermost
  to the outermost, with the line ends and indentation of indented output.  It leaves no open element or namespace scope, takes
  the state saved by the open construct off the stack, and returns the writer to its initial state.  The one case it
  refuses is a comment whose last byte is a hyphen, and then nothing changes.\<close>

theorem EndDocument_ends:
  assumes "reachable w" "out w = Some (buffer ws wb b)" "err w = None"
  shows "if state w = StateComment \<and> commentDash w
     then EndDocument w = (Some (Errorf ''stream: comment content must not end with -'' []), w)
     else \<exists>w'. EndDocument w = (None, w') \<and> elemStack w' = [] \<and> nsStack w' = [] \<and> depth w' = 0
            \<and> state w' = StateNone \<and> stateStack w' = saved_after w \<and> written_bytes w' = b @ closing w"
proof (cases "state w = StateComment \<and> commentDash w")
  case True
  then show ?thesis using assms(3) by (simp add: EndDocument_def closeOpenConstruct_def EndComment_def fail_def)
next
  case False
  have "written buffer_received w b"
    using assms(2,3) by (auto simp: written_def buffer_received_def)
  from buf.EndDocument_text[OF this wf_reachable[OF assms(1)] False]
  obtain w' where w': "EndDocument w = (None, w')" "written buffer_received w' (b @ closing w)" "stateStack w' = saved_after w"
    by blast
  have "well_formed w'" using wf_EndDocument[OF wf_reachable[OF assms(1)]] w'(1) by simp
  moreover note EndDocument_after[OF w'(1)] written_buffer[OF w'(2)]
  ultimately show ?thesis using False w' by (simp add: well_formed_def)
qed

text \<open>A CDATA section is open in an element.\<close>

definition sample_open :: "string writer" where
  "sample_open = run [CStartElement ''a'', CStartCDATA] sample_start"

lemma sample_open_fields:
  "out sample_open = Some (buffer True True ''<a><![CDATA['')" "err sample_open = None"
  "state sample_open = StateCDATA" "closing sample_open = '']]></a>'' @ [CHR 0x0A]"
proof -
  have n: "IsValidQName ''a''" by (rule IsValidQName_unprefixed[OF sample_names(1)])
  note d = sample_open_def sample_start_def NewWriter_def StartElement_def StartCDATA_def markParentChild_def map_top_def
    closeTagIfOpen_def emitPendingNS_def pushState_def writeIndent_def finish_def Let_def writeByte_def writeStr_def
    ensureWritable_def put_out_def io_WriteByte_def io_WriteString_def buffer_def
  show "out sample_open = Some (buffer True True ''<a><![CDATA['')" "err sample_open = None"
    "state sample_open = StateCDATA"
    by (simp_all add: d n)
  show "closing sample_open = '']]></a>'' @ [CHR 0x0A]"
    by (simp add: d n closing_def construct_end_def own_line_def elements_end_def end_tag_def tag_line_def)
qed

theorem EndDocument_ends_witness:
  "\<exists>w'. EndDocument sample_open = (None, w') \<and> elemStack w' = [] \<and> state w' = StateNone
     \<and> written_bytes w' = ''<a><![CDATA[]]></a>'' @ [CHR 0x0A]"
proof -
  have "reachable sample_open"
    unfolding sample_open_def sample_start_def by (intro reachable_run reachable.new)
  from EndDocument_ends[OF this sample_open_fields(1,2)] show ?thesis
    by (auto simp: sample_open_fields)
qed

subsection \<open>Accepted but not well formed\<close>

text \<open>\<open>EndElement\<close> does not look at the state: in an open comment it writes the end tag into the
  comment and leaves the comment state, with the comment unclosed.\<close>

lemma EndElement_inside_comment:
  assumes "out w = Some (buffer ws wb b)" "err w = None" "state w = StateComment" "elemStack w = e # es"
    "indent w = ''''"
  shows "\<exists>w'. EndElement w = (None, w') \<and> written_bytes w' = b @ ''</'' @ ee_name e @ ''>''
     \<and> state w' \<noteq> StateComment"
proof -
  have w: "written buffer_received (popElement w) b"
    using assms(1,2) by (auto simp: written_def buffer_received_def popElement_def)
  let ?c = "writeByte CHR ''>'' (writeStr (ee_name e) (writeStr ''</'' (popElement w)))"
  have c: "written buffer_received ?c (b @ ''</'' @ ee_name e @ ''>'')"
    using buf.written_writeByte[OF buf.written_writeStr[OF buf.written_writeStr[OF w, of "''</''"], of "ee_name e"],
        of "CHR ''>''"] by simp
  have "EndElement w = leaveElement ?c"
    using assms by (simp add: EndElement_def Let_def writeEndTag_def writeEndIndent_def) (simp add: popElement_def)
  then show ?thesis using written_err[OF c] written_buffer[OF c]
    by (auto simp: leaveElement_def finish_def Let_def written_bytes_def)
qed

text \<open>After \<open>StartDTD\<close> an element may be started without \<open>EndDTD\<close>: the tag lands in the
  unclosed \<open><!DOCTYPE\<close>.\<close>

lemma StartElement_inside_DTD:
  assumes "out w = Some (buffer ws wb b)" "err w = None" "state w = StateDTD" "elemStack w = []"
    "indent w = ''''" "IsValidQName n"
  shows "\<exists>w'. StartElement n w = (None, w') \<and> written_bytes w' = b @ CHR ''<'' # n"
proof -
  have w: "written buffer_received (markParentChild w) b"
    using assms(1,2) by (auto simp: written_def buffer_received_def)
  let ?v = "writeStr n (writeByte CHR ''<'' (markParentChild w))"
  have v: "written buffer_received ?v (b @ CHR ''<'' # n)"
    using buf.written_writeStr[OF buf.written_writeByte[OF w, of "CHR ''<''"], of n] by simp
  then show ?thesis using assms qname_not_Nil[OF assms(6)]
    by (auto simp: StartElement_def writeIndent_def Let_def finish_def written_err written_updates dest!: written_buffer
        simp: written_bytes_def)
qed

text \<open>An external entity with neither identifier is accepted: the declaration has no definition.
  The same holds of a notation.\<close>

lemma external_entity_without_identifier:
  assumes "out w = Some (buffer ws wb b)" "err w = None" "state w = StateDTDText" "IsValidNCName n"
  shows "\<exists>w'. WriteDTDExternalEntity False n '''' '''' '''' w = (None, w')
    \<and> written_bytes w' = b @ ''<!ENTITY '' @ n @ ''>''"
proof -
  have w: "written buffer_received w b"
    using assms(1,2) by (auto simp: written_def buffer_received_def)
  let ?v = "writeByte CHR ''>'' (writeStr n (writeStr ''<!ENTITY '' w))"
  have v: "written buffer_received ?v (b @ ''<!ENTITY '' @ n @ ''>'')"
    using buf.written_writeByte[OF buf.written_writeStr[OF buf.written_writeStr[OF w, of "''<!ENTITY ''"], of n],
        of "CHR ''>''"] by simp
  have "WriteDTDExternalEntity False n '''' '''' '''' w = finish ?v"
    using assms by (simp add: WriteDTDExternalEntity_def ensureDTDState_def ensureDTDInternalSubset_def)
  then show ?thesis using written_err[OF v] written_buffer[OF v] by (simp add: finish_def)
qed

lemma notation_without_identifier:
  assumes "out w = Some (buffer ws wb b)" "err w = None" "state w = StateDTDText" "IsValidName n"
  shows "\<exists>w'. WriteDTDNotation n '''' '''' w = (None, w')
    \<and> written_bytes w' = b @ ''<!NOTATION '' @ n @ ''>''"
proof -
  have w: "written buffer_received w b"
    using assms(1,2) by (auto simp: written_def buffer_received_def)
  let ?v = "writeByte CHR ''>'' (writeStr n (writeStr ''<!NOTATION '' w))"
  have v: "written buffer_received ?v (b @ ''<!NOTATION '' @ n @ ''>'')"
    using buf.written_writeByte[OF buf.written_writeStr[OF buf.written_writeStr[OF w, of "''<!NOTATION ''"], of n],
        of "CHR ''>''"] by simp
  have "WriteDTDNotation n '''' '''' w = finish ?v"
    using assms by (simp add: WriteDTDNotation_def ensureDTDState_def ensureDTDInternalSubset_def)
  then show ?thesis using written_err[OF v] written_buffer[OF v] by (simp add: finish_def)
qed

end
