(* ===== verification/ContentModel.thy ===== *)
theory ContentModel
  imports GoLib "HOL-Library.Monad_Syntax"
begin

text \<open>
  DTD element content models: the tree of \<open>dtd_elem.go\<close>, its constructors in \<open>valid.go\<close> and
  the two matchers of \<open>valid.go\<close>, the greedy descent \<open>matchContent\<close> and the exact
  \<open>contentReacher\<close> with its memo table, combined in \<open>matchContentModel\<close>.

  A node is a value; its \<open>parent\<close> pointer, which no function here reads, is left out, and the memo
  table is keyed by the node's value where the code uses its address.  A Go set
  \<open>map[int]struct{}\<close> is the list of its elements without repetitions, in the order of insertion.
\<close>

subsection \<open>Content models\<close>

text \<open>The two enumerations are Go integers; the last constructor stands for all other values.\<close>

datatype ElementContentType = ElementContentPCDATA | ElementContentElement | ElementContentSeq
  | ElementContentOr | InvalidContentType int

datatype ElementContentOccur = ElementContentOnce | ElementContentOpt | ElementContentMult
  | ElementContentPlus | InvalidContentOccur int

datatype ElementContent = ElementContent (ctype: ElementContentType) (coccur: ElementContentOccur)
  (ec_name: string) (ec_prefix: string) (c1: "ElementContent option") (c2: "ElementContent option")

text \<open>The measure of every descent: the size of what a pointer points to.\<close>

definition psize :: "ElementContent option \<Rightarrow> nat" where
  "psize c = (case c of None \<Rightarrow> 0 | Some x \<Rightarrow> size x)"

lemma psize_simps [simp]: "psize None = 0" "psize (Some x) = size x"
  by (simp_all add: psize_def)

lemma size_pos [simp]: "0 < size (c :: ElementContent)"
  by (cases c) simp

lemma psize_child [simp]: "psize (c1 c) < size c" "psize (c2 c) < size c"
  by (cases c; cases "c1 c"; cases "c2 c"; simp)+

lemma size_child [simp]:
  "c1 c = Some x \<Longrightarrow> size x < size c" "c2 c = Some x \<Longrightarrow> size x < size c"
  using psize_child[of c] by simp_all

lemma size_child' [simp]:
  "Some x = c1 c \<Longrightarrow> size x < size c" "Some x = c2 c \<Longrightarrow> size x < size c"
  by (rule size_child; simp)+

definition splitDTDName :: "string \<Rightarrow> string \<times> string" where
  "splitDTDName name = (case index_of name '':'' of
     Some i \<Rightarrow> if i > 0 then (take i name, drop (i + 1) name) else ('''', name)
   | None \<Rightarrow> ('''', name))"

definition dtdName :: "string \<Rightarrow> string \<Rightarrow> string" where
  "dtdName prefix loc = (if prefix = '''' then loc else prefix @ '':'' @ loc)"

definition rawName :: "ElementContent \<Rightarrow> string" where
  "rawName c = dtdName (ec_prefix c) (ec_name c)"

definition newElementContent :: "string \<Rightarrow> ElementContentType \<Rightarrow> goerr + ElementContent" where
  "newElementContent name ty =
     (case ty of
        ElementContentElement \<Rightarrow>
          (if name = '''' then Inl (Errorf ''ElementContent (element) must have name'' [])
           else let (prefix, loc) = splitDTDName name
                in Inr (ElementContent ty ElementContentOnce loc prefix None None))
      | InvalidContentType _ \<Rightarrow> Inl (Errorf ''invalid element content type'' [])
      | _ \<Rightarrow>
          (if name \<noteq> '''' then Inl (Errorf ''ElementContent (element) must NOT have name'' [])
           else Inr (ElementContent ty ElementContentOnce '''' '''' None None)))"

definition isValidElementContentOccur :: "ElementContentOccur \<Rightarrow> bool" where
  "isValidElementContentOccur occur = (case occur of InvalidContentOccur _ \<Rightarrow> False | _ \<Rightarrow> True)"

text \<open>The argument is a pointer, \<^const>\<open>None\<close> for \<open>nil\<close>; the result is the error, if any.\<close>

function validateElementContentModel :: "ElementContent option \<Rightarrow> goerr option" where
  "validateElementContentModel None = Some (Errorf ''content model node must not be nil'' [])"
| "validateElementContentModel (Some c) =
     (if \<not> isValidElementContentOccur (coccur c)
      then Some (Errorf ''content model node has an invalid occurrence indicator'' [])
      else case ctype c of
        ElementContentPCDATA \<Rightarrow> None
      | ElementContentElement \<Rightarrow>
          (if ec_name c = '''' \<and> ec_prefix c = ''''
           then Some (Errorf ''element-reference content leaf must have a name'' []) else None)
      | InvalidContentType _ \<Rightarrow> Some (Errorf ''invalid element content type'' [])
      | _ \<Rightarrow>
          (case (c1 c, c2 c) of
             (Some x, Some y) \<Rightarrow>
               (case validateElementContentModel (Some x) of
                  Some e \<Rightarrow> Some e
                | None \<Rightarrow> validateElementContentModel (Some y))
           | _ \<Rightarrow> Some (Errorf ''sequence/choice content node must have both children'' [])))"
  by pat_completeness auto
termination
  by (relation "measure psize") auto

declare validateElementContentModel.simps(2) [simp del]

text \<open>\<open>fmt.Errorf("...%w", err)\<close>: the text of the wrapped error is the argument.\<close>

fun error_text :: "goerr \<Rightarrow> string" where
  "error_text (Errorf f args) = f"
| "error_text (External s) = s"

definition newElementContentBinary ::
  "ElementContentType \<Rightarrow> ElementContent option \<Rightarrow> ElementContent option \<Rightarrow> ElementContentOccur
     \<Rightarrow> goerr + ElementContent" where
  "newElementContentBinary ty x1 x2 occur =
     (if \<not> isValidElementContentOccur occur then Inl (Errorf ''invalid element content occurrence'' [])
      else case validateElementContentModel x1 of
        Some e \<Rightarrow> Inl (Errorf ''invalid first child: %w'' [error_text e])
      | None \<Rightarrow> (case validateElementContentModel x2 of
          Some e \<Rightarrow> Inl (Errorf ''invalid second child: %w'' [error_text e])
        | None \<Rightarrow> Inr (ElementContent ty occur '''' '''' x1 x2)))"

text \<open>\<open>copyElementContent\<close>: the first child recursively, the chain of second children in a
  loop.\<close>

function copyElementContent :: "ElementContent \<Rightarrow> ElementContent"
  and copy_chain :: "ElementContent option \<Rightarrow> ElementContent option" where
  "copyElementContent c =
     ElementContent (ctype c) (coccur c) (ec_name c) (ec_prefix c)
       (case c1 c of None \<Rightarrow> None | Some x \<Rightarrow> Some (copyElementContent x)) (copy_chain (c2 c))"
| "copy_chain None = None"
| "copy_chain (Some cur) =
     Some (ElementContent (ctype cur) (coccur cur) (ec_name cur) (ec_prefix cur)
       (case c1 cur of None \<Rightarrow> None | Some x \<Rightarrow> Some (copyElementContent x)) (copy_chain (c2 cur)))"
  by pat_completeness auto
termination
  by (relation "measure (\<lambda>x. case x of Inl c \<Rightarrow> size c | Inr c \<Rightarrow> psize c)") auto

declare copyElementContent.simps [simp del]

text \<open>Allowed names of mixed content.\<close>

function collectMixedNames :: "ElementContent option \<Rightarrow> string list \<Rightarrow> string list" where
  "collectMixedNames None names = names"
| "collectMixedNames (Some c) names =
     (if ctype c = ElementContentElement then List.insert (rawName c) names
      else collectMixedNames (c2 c) (collectMixedNames (c1 c) names))"
  by pat_completeness auto
termination
  by (relation "measure (\<lambda>(c, names). psize c)") auto

declare collectMixedNames.simps(2) [simp del]

subsection \<open>The parts of a sequence and the alternatives of a choice\<close>

function flattenSeq :: "ElementContent \<Rightarrow> ElementContent list" where
  "flattenSeq cur =
     (case c1 cur of None \<Rightarrow> [] | Some x \<Rightarrow> [x]) @
     (case c2 cur of
        None \<Rightarrow> []
      | Some y \<Rightarrow> if ctype y = ElementContentSeq \<and> coccur y = ElementContentOnce
                 then flattenSeq y else [y])"
  by pat_completeness auto
termination
  by (relation "measure size") auto

function flattenOr :: "ElementContent \<Rightarrow> ElementContent list" where
  "flattenOr cur =
     (case c1 cur of None \<Rightarrow> [] | Some x \<Rightarrow> [x]) @
     (case c2 cur of
        None \<Rightarrow> []
      | Some y \<Rightarrow> if ctype y = ElementContentOr \<and> coccur y = ElementContentOnce
                 then flattenOr y else [y])"
  by pat_completeness auto
termination
  by (relation "measure size") auto

declare flattenSeq.simps [simp del] flattenOr.simps [simp del]

lemma flattenSeq_size: "x \<in> set (flattenSeq c) \<Longrightarrow> size x < size c"
proof (induction c rule: flattenSeq.induct)
  case (1 c)
  then consider "c1 c = Some x" | "c2 c = Some x"
    | y where "c2 c = Some y" "ctype y = ElementContentSeq \<and> coccur y = ElementContentOnce"
        "x \<in> set (flattenSeq y)"
    using flattenSeq.simps[of c] by (auto split: option.splits if_splits)
  then show ?case
    by cases (use 1 in \<open>auto dest: size_child(2) intro: less_trans\<close>)
qed

lemma flattenOr_size: "x \<in> set (flattenOr c) \<Longrightarrow> size x < size c"
proof (induction c rule: flattenOr.induct)
  case (1 c)
  then consider "c1 c = Some x" | "c2 c = Some x"
    | y where "c2 c = Some y" "ctype y = ElementContentOr \<and> coccur y = ElementContentOnce"
        "x \<in> set (flattenOr y)"
    using flattenOr.simps[of c] by (auto split: option.splits if_splits)
  then show ?case
    by cases (use 1 in \<open>auto dest: size_child(2) intro: less_trans\<close>)
qed

subsection \<open>The exact matcher\<close>

type_synonym memo = "(ElementContent \<times> nat) \<Rightarrow> nat list option"

definition unionInto :: "nat list \<Rightarrow> nat list \<Rightarrow> nat list" where
  "unionInto dst src = fold (\<lambda>k dst. if k \<in> set dst then dst else dst @ [k]) src dst"

text \<open>
  The loops of \<open>reachOnce\<close> and \<open>closure\<close>, over the function they call at each position; a
  call passes the memo table on.  The frontier is a stack whose head is the last element of the
  slice.  \<open>closure_loop\<close> has one unit of fuel per element it pops; the result
  \<^const>\<open>None\<close> says that the fuel ran out, which \<open>ContentMatch\<close> shows never happens.
\<close>

fun each :: "(nat \<Rightarrow> memo \<Rightarrow> (nat list \<times> memo) option) \<Rightarrow> nat list \<Rightarrow> nat list \<Rightarrow> memo
    \<Rightarrow> (nat list \<times> memo) option" where
  "each f [] res m = Some (res, m)"
| "each f (p # ps) res m = do { (qs, m) \<leftarrow> f p m; each f ps (unionInto res qs) m }"

fun seq_loop :: "(ElementContent \<Rightarrow> nat \<Rightarrow> memo \<Rightarrow> (nat list \<times> memo) option)
    \<Rightarrow> ElementContent list \<Rightarrow> nat list \<Rightarrow> memo \<Rightarrow> (nat list \<times> memo) option" where
  "seq_loop g [] cur m = Some (cur, m)"
| "seq_loop g (part # parts) cur m = do {
     (next, m) \<leftarrow> each (g part) cur [] m;
     if next = [] then Some (next, m) else seq_loop g parts next m }"

fun alt_loop :: "(ElementContent \<Rightarrow> memo \<Rightarrow> (nat list \<times> memo) option)
    \<Rightarrow> ElementContent list \<Rightarrow> nat list \<Rightarrow> memo \<Rightarrow> (nat list \<times> memo) option" where
  "alt_loop g [] res m = Some (res, m)"
| "alt_loop g (alt # alts) res m = do { (qs, m) \<leftarrow> g alt m; alt_loop g alts (unionInto res qs) m }"

fun push_unseen :: "nat list \<Rightarrow> nat list \<Rightarrow> nat list \<Rightarrow> nat list \<times> nat list" where
  "push_unseen [] res frontier = (res, frontier)"
| "push_unseen (q # qs) res frontier =
     (if q \<in> set res then push_unseen qs res frontier
      else push_unseen qs (res @ [q]) (q # frontier))"

fun closure_loop :: "(nat \<Rightarrow> memo \<Rightarrow> (nat list \<times> memo) option) \<Rightarrow> nat \<Rightarrow> nat list \<Rightarrow> nat list
    \<Rightarrow> memo \<Rightarrow> (nat list \<times> memo) option" where
  "closure_loop f fuel res [] m = Some (res, m)"
| "closure_loop f 0 res (p # frontier) m = None"
| "closure_loop f (Suc fuel) res (p # frontier) m = do {
     (qs, m) \<leftarrow> f p m;
     let (res, frontier) = push_unseen qs res frontier;
     closure_loop f fuel res frontier m }"

definition closure :: "(nat \<Rightarrow> memo \<Rightarrow> (nat list \<times> memo) option) \<Rightarrow> nat \<Rightarrow> nat \<Rightarrow> bool
    \<Rightarrow> memo \<Rightarrow> (nat list \<times> memo) option" where
  "closure f fuel pos includeStart m =
     (if includeStart then closure_loop f fuel [pos] [pos] m
      else do {
        (qs, m) \<leftarrow> f pos m;
        let (res, frontier) = push_unseen qs [] [];
        closure_loop f fuel res frontier m })"

lemma each_cong [fundef_cong]:
  assumes "ps = ps'" and "res = res'" and "m = m'" and "\<And>p m. f p m = f' p m"
  shows "each f ps res m = each f' ps' res' m'"
proof -
  have "f = f'" using assms(4) by blast
  then show ?thesis using assms by simp
qed

lemma seq_loop_cong [fundef_cong]:
  assumes "parts = parts'" and "cur = cur'" and "m = m'"
    and "\<And>c p m. c \<in> set parts' \<Longrightarrow> g c p m = g' c p m"
  shows "seq_loop g parts cur m = seq_loop g' parts' cur' m'"
proof -
  have "seq_loop g parts cur m = seq_loop g' parts cur m" if "\<And>c. c \<in> set parts \<Longrightarrow> g c = g' c"
    using that by (induction parts arbitrary: cur m) (auto intro!: Option.bind_cong)
  moreover have "g c = g' c" if "c \<in> set parts" for c
    using assms(1) that by (intro ext) (simp add: assms(4))
  ultimately show ?thesis using assms(1-3) by simp
qed

lemma alt_loop_cong [fundef_cong]:
  assumes "alts = alts'" and "res = res'" and "m = m'"
    and "\<And>c m. c \<in> set alts' \<Longrightarrow> g c m = g' c m"
  shows "alt_loop g alts res m = alt_loop g' alts' res' m'"
proof -
  have "alt_loop g alts res m = alt_loop g' alts res m" if "\<And>c m. c \<in> set alts \<Longrightarrow> g c m = g' c m"
    using that by (induction alts arbitrary: res m) (auto intro!: Option.bind_cong)
  then show ?thesis using assms by simp
qed

lemma closure_cong [fundef_cong]:
  assumes "fuel = fuel'" and "pos = pos'" and "b = b'" and "m = m'" and "\<And>p m. f p m = f' p m"
  shows "closure f fuel pos b m = closure f' fuel' pos' b' m'"
proof -
  have "f = f'" using assms(5) by blast
  then show ?thesis using assms by simp
qed

function reach :: "string list \<Rightarrow> ElementContent option \<Rightarrow> nat \<Rightarrow> memo \<Rightarrow> (nat list \<times> memo) option"
  and reachOnce :: "string list \<Rightarrow> ElementContent \<Rightarrow> nat \<Rightarrow> memo \<Rightarrow> (nat list \<times> memo) option" where
  "reach children None pos m = Some ([pos], m)"
| "reach children (Some content) pos m =
     (case m (content, pos) of
        Some cached \<Rightarrow> Some (cached, m)
      | None \<Rightarrow> do {
          (res, m) \<leftarrow> (case coccur content of
              ElementContentOnce \<Rightarrow> reachOnce children content pos m
            | ElementContentOpt \<Rightarrow> do {
                (qs, m) \<leftarrow> reachOnce children content pos m;
                Some (unionInto [pos] qs, m) }
            | ElementContentMult \<Rightarrow>
                closure (\<lambda>p m. reachOnce children content p m) (length children + 1) pos True m
            | ElementContentPlus \<Rightarrow>
                closure (\<lambda>p m. reachOnce children content p m) (length children + 1) pos False m
            | InvalidContentOccur _ \<Rightarrow> Some ([], m));
          Some (res, m((content, pos) \<mapsto> res)) })"
| "reachOnce children content pos m =
     (case ctype content of
        ElementContentElement \<Rightarrow>
          Some (if pos < length children \<and> children ! pos = rawName content then [pos + 1] else [], m)
      | ElementContentSeq \<Rightarrow>
          seq_loop (\<lambda>part p m. reach children (Some part) p m) (flattenSeq content) [pos] m
      | ElementContentOr \<Rightarrow>
          alt_loop (\<lambda>alt m. reach children (Some alt) pos m) (flattenOr content) [] m
      | ElementContentPCDATA \<Rightarrow> Some ([pos], m)
      | InvalidContentType _ \<Rightarrow> Some ([], m))"
  by pat_completeness auto
termination
  by (relation "measure (\<lambda>x. case x of Inl (_, c, _) \<Rightarrow> 2 * psize c + 1 | Inr (_, c, _) \<Rightarrow> 2 * size c)")
    (auto dest: flattenSeq_size flattenOr_size)

declare reach.simps(2) [simp del] reachOnce.simps [simp del]

definition matchContentModelExact :: "ElementContent option \<Rightarrow> string list \<Rightarrow> bool option" where
  "matchContentModelExact content children =
     (if content = None then Some (length children = 0)
      else do {
        (ends, m) \<leftarrow> reach children content 0 (\<lambda>_. None);
        Some (length children \<in> set ends) })"

subsection \<open>Properties of the constructors\<close>

lemma dtdName_splitDTDName: "splitDTDName name = (p, l) \<Longrightarrow> dtdName p l = name"
  using index_of_Some[of name "'':''"]
  by (fastforce simp: splitDTDName_def dtdName_def split: option.splits if_splits)

text \<open>The qualified name of a new element leaf is the name it was declared with: rawName puts
  together what splitDTDName took apart, so matching a child by its raw name compares the name the
  DTD wrote.\<close>
theorem rawName_newElementContent:
  assumes "newElementContent name ElementContentElement = Inr c"
  shows "rawName c = name"
  using assms dtdName_splitDTDName
  by (auto simp: newElementContent_def rawName_def split: if_splits prod.splits)

theorem rawName_newElementContent_witness:
  "rawName (ElementContent ElementContentElement ElementContentOnce ''b:c'' ''a'' None None) = ''a:b:c''"
proof -
  have "newElementContent ''a:b:c'' ElementContentElement =
      Inr (ElementContent ElementContentElement ElementContentOnce ''b:c'' ''a'' None None)"
    by code_simp
  from rawName_newElementContent[OF this] show ?thesis by simp
qed

lemma copy_eq: "copyElementContent c = c" "copy_chain x = x"
proof (induction c and x rule: copyElementContent_copy_chain.induct)
  case (1 c)
  then show ?case
    by (subst copyElementContent.simps) (cases c; cases "c1 c"; auto)
next
  case (3 c)
  then show ?case
    by (cases c) (auto split: option.split)
qed simp

text \<open>copyElementContent, which recurses on the first child and loops along the chain of second
  children, builds a tree equal to the one it is given.\<close>
theorem copyElementContent_id: "copyElementContent c = c"
  by (rule copy_eq)

text \<open>The names at the element leaves.\<close>

fun leaf_names :: "ElementContent \<Rightarrow> string set" where
  "leaf_names (ElementContent ElementContentElement occ name prefix x y) = {dtdName prefix name}"
| "leaf_names (ElementContent t occ name prefix x y) =
     (case x of None \<Rightarrow> {} | Some c \<Rightarrow> leaf_names c) \<union> (case y of None \<Rightarrow> {} | Some c \<Rightarrow> leaf_names c)"

lemma leaf_names_rec:
  "leaf_names c = (if ctype c = ElementContentElement then {rawName c}
     else (case c1 c of None \<Rightarrow> {} | Some x \<Rightarrow> leaf_names x) \<union> (case c2 c of None \<Rightarrow> {} | Some x \<Rightarrow> leaf_names x))"
  by (cases c; cases "ctype c") (auto simp: rawName_def)

text \<open>The names a mixed content declaration allows are those of its element leaves.\<close>
theorem collectMixedNames_leaves:
  "set (collectMixedNames content names) =
     set names \<union> (case content of None \<Rightarrow> {} | Some c \<Rightarrow> leaf_names c)"
proof (induction content names rule: collectMixedNames.induct)
  case (2 c names)
  then show ?case
    by (subst collectMixedNames.simps) (auto simp: leaf_names_rec[of c] split: option.splits)
qed simp

end
