(* ===== verification/ContentMatch.thy ===== *)
theory ContentMatch
  imports ContentModel
begin

text \<open>
  The language of a content model and the exact matcher of \<open>valid.go\<close>: the set of end positions
  \<open>reach\<close> computes is the one the language gives, its memo table stays correct, and the fuel
  of the closure never runs out.
\<close>

subsection \<open>Languages\<close>

definition conc :: "string list set \<Rightarrow> string list set \<Rightarrow> string list set" where
  "conc A B = {xs @ ys | xs ys. xs \<in> A \<and> ys \<in> B}"

inductive_set star :: "string list set \<Rightarrow> string list set" for A where
  star_Nil: "[] \<in> star A"
| star_step: "xs \<in> A \<Longrightarrow> ys \<in> star A \<Longrightarrow> xs @ ys \<in> star A"

definition occurs :: "ElementContentOccur \<Rightarrow> string list set \<Rightarrow> string list set" where
  "occurs occur A = (case occur of
     ElementContentOnce \<Rightarrow> A
   | ElementContentOpt \<Rightarrow> {[]} \<union> A
   | ElementContentMult \<Rightarrow> star A
   | ElementContentPlus \<Rightarrow> conc A (star A)
   | InvalidContentOccur _ \<Rightarrow> {})"

text \<open>
  What a content model means (XML 1.0, section 3.2.1), read off its tree: a missing child of a
  sequence is empty, a missing alternative is no alternative, \<open>#PCDATA\<close> holds no element.
\<close>

function lang :: "ElementContent \<Rightarrow> string list set" where
  "lang c = occurs (coccur c) (case ctype c of
     ElementContentPCDATA \<Rightarrow> {[]}
   | ElementContentElement \<Rightarrow> {[rawName c]}
   | ElementContentSeq \<Rightarrow>
       conc (case c1 c of None \<Rightarrow> {[]} | Some x \<Rightarrow> lang x) (case c2 c of None \<Rightarrow> {[]} | Some x \<Rightarrow> lang x)
   | ElementContentOr \<Rightarrow>
       (case c1 c of None \<Rightarrow> {} | Some x \<Rightarrow> lang x) \<union> (case c2 c of None \<Rightarrow> {} | Some x \<Rightarrow> lang x)
   | InvalidContentType _ \<Rightarrow> {})"
  by pat_completeness auto
termination
  by (relation "measure size") auto

definition one :: "ElementContent \<Rightarrow> string list set" where
  "one c = (case ctype c of
     ElementContentPCDATA \<Rightarrow> {[]}
   | ElementContentElement \<Rightarrow> {[rawName c]}
   | ElementContentSeq \<Rightarrow>
       conc (case c1 c of None \<Rightarrow> {[]} | Some x \<Rightarrow> lang x) (case c2 c of None \<Rightarrow> {[]} | Some x \<Rightarrow> lang x)
   | ElementContentOr \<Rightarrow>
       (case c1 c of None \<Rightarrow> {} | Some x \<Rightarrow> lang x) \<union> (case c2 c of None \<Rightarrow> {} | Some x \<Rightarrow> lang x)
   | InvalidContentType _ \<Rightarrow> {})"

lemma lang_occurs: "lang c = occurs (coccur c) (one c)"
  by (subst lang.simps) (simp add: one_def)

declare lang.simps [simp del]

lemma conc_empty_word [simp]: "conc {[]} A = A" "conc A {[]} = A"
  by (auto simp: conc_def)

text \<open>Flattening keeps the language.\<close>

definition seq_lang :: "ElementContent list \<Rightarrow> string list set" where
  "seq_lang parts = foldr (\<lambda>x. conc (lang x)) parts {[]}"

lemma seq_lang_simps [simp]:
  "seq_lang [] = {[]}" "seq_lang (x # xs) = conc (lang x) (seq_lang xs)"
  by (simp_all add: seq_lang_def)

lemma lang_flattenSeq:
  "seq_lang (flattenSeq c) =
     conc (case c1 c of None \<Rightarrow> {[]} | Some x \<Rightarrow> lang x) (case c2 c of None \<Rightarrow> {[]} | Some x \<Rightarrow> lang x)"
proof (induction c rule: flattenSeq.induct)
  case (1 c)
  have "lang y = seq_lang (flattenSeq y)"
    if "c2 c = Some y" "ctype y = ElementContentSeq \<and> coccur y = ElementContentOnce" for y
    using 1[OF that] that by (simp add: lang_occurs[of y] one_def occurs_def)
  then show ?case
    by (subst flattenSeq.simps) (auto split: option.split)
qed

lemma lang_flattenOr:
  "(\<Union>x\<in>set (flattenOr c). lang x) =
     (case c1 c of None \<Rightarrow> {} | Some x \<Rightarrow> lang x) \<union> (case c2 c of None \<Rightarrow> {} | Some x \<Rightarrow> lang x)"
proof (induction c rule: flattenOr.induct)
  case (1 c)
  have "lang y = (\<Union>x\<in>set (flattenOr y). lang x)"
    if "c2 c = Some y" "ctype y = ElementContentOr \<and> coccur y = ElementContentOnce" for y
    using 1[OF that] that by (simp add: lang_occurs[of y] one_def occurs_def)
  then show ?case
    by (cases "c1 c"; cases "c2 c") (simp_all add: flattenOr.simps[of c])
qed

subsection \<open>End positions\<close>

definition ends :: "string list \<Rightarrow> string list set \<Rightarrow> nat \<Rightarrow> nat set" where
  "ends cs A p = {q. p \<le> q \<and> q \<le> length cs \<and> take (q - p) (drop p cs) \<in> A}"

lemma ends_bounds: "q \<in> ends cs A p \<Longrightarrow> p \<le> q \<and> q \<le> length cs"
  by (simp add: ends_def)

lemma ends_Un: "ends cs (A \<union> B) p = ends cs A p \<union> ends cs B p"
  by (auto simp: ends_def)

lemma ends_empty [simp]: "ends cs {} p = {}"
  by (simp add: ends_def)

lemma ends_eps: "p \<le> length cs \<Longrightarrow> ends cs {[]} p = {p}"
  by (auto simp: ends_def)

lemma ends_insert: "p \<le> length cs \<Longrightarrow> ends cs (insert [] A) p = insert p (ends cs A p)"
  by (auto simp: ends_def)

lemma ends_singleton:
  "ends cs {[a]} p = (if p < length cs \<and> cs ! p = a then {p + 1} else {})"
proof -
  have "take (q - p) (drop p cs) = [a] \<longleftrightarrow> q = p + 1 \<and> p < length cs \<and> cs ! p = a"
    if "p \<le> q" "q \<le> length cs" for q
  proof
    assume a: "take (q - p) (drop p cs) = [a]"
    then have "length (take (q - p) (drop p cs)) = 1" by simp
    then have "q = p + 1" using that by simp
    with a that show "q = p + 1 \<and> p < length cs \<and> cs ! p = a"
      by (simp add: take_Suc_conv_app_nth)
  next
    assume "q = p + 1 \<and> p < length cs \<and> cs ! p = a"
    then show "take (q - p) (drop p cs) = [a]" by (simp add: take_Suc_conv_app_nth)
  qed
  then show ?thesis
    by (auto simp: ends_def take_Suc_conv_app_nth)
qed

lemma take_drop_split:
  "p \<le> q \<Longrightarrow> q \<le> r \<Longrightarrow> take (r - p) (drop p cs) = take (q - p) (drop p cs) @ take (r - q) (drop q cs)"
  using take_add[of "q - p" "r - q" "drop p cs"] by (simp add: add.commute)

lemma ends_conc: "ends cs (conc A B) p = (\<Union>q\<in>ends cs A p. ends cs B q)"
proof (intro set_eqI iffI)
  fix r
  assume "r \<in> ends cs (conc A B) p"
  then obtain xs ys where r: "p \<le> r" "r \<le> length cs" "take (r - p) (drop p cs) = xs @ ys"
      "xs \<in> A" "ys \<in> B"
    by (auto simp: ends_def conc_def)
  define q where "q = p + length xs"
  have len: "length xs + length ys = r - p"
    using r(1-2) arg_cong[OF r(3), of length] by simp
  have "xs @ ys = take (q - p) (drop p cs) @ take (r - q) (drop q cs)"
    using r(3) take_drop_split[of p q r cs] len q_def r(1) by simp
  then have "xs = take (q - p) (drop p cs) \<and> ys = take (r - q) (drop q cs)"
    using len r(1,2) by (subst (asm) append_eq_append_conv) (auto simp: q_def)
  then have "q \<in> ends cs A p" "r \<in> ends cs B q"
    using r len by (auto simp: ends_def q_def)
  then show "r \<in> (\<Union>q\<in>ends cs A p. ends cs B q)" by blast
next
  fix r
  assume "r \<in> (\<Union>q\<in>ends cs A p. ends cs B q)"
  then obtain q where "q \<in> ends cs A p" "r \<in> ends cs B q" by blast
  then show "r \<in> ends cs (conc A B) p"
    using take_drop_split[of p q r cs] by (auto simp: ends_def conc_def)
qed

text \<open>The ends of a repetition are what the closure of one application reaches.\<close>

lemma ends_star_least:
  assumes "p \<in> R" and closed: "\<And>x. x \<in> R \<Longrightarrow> ends cs A x \<subseteq> R" and "p \<le> length cs"
  shows "ends cs (star A) p \<subseteq> R"
proof -
  have "ws \<in> star A \<Longrightarrow> p \<in> R \<Longrightarrow> p \<le> length cs \<Longrightarrow> ws = take (length ws) (drop p cs)
      \<Longrightarrow> p + length ws \<le> length cs \<Longrightarrow> p + length ws \<in> R" for ws
  proof (induction arbitrary: p rule: star.induct)
    case (star_step xs ys)
    have "xs @ ys = take (length xs) (drop p cs) @ take (length ys) (drop (p + length xs) cs)"
      using star_step.prems(3) take_drop_split[of p "p + length xs" "p + length xs + length ys" cs]
      by (simp add: add.commute)
    moreover have "length (take (length xs) (drop p cs)) = length xs"
      using star_step.prems(4) by simp
    ultimately have "xs = take (length xs) (drop p cs)"
        "ys = take (length ys) (drop (p + length xs) cs)"
      by (metis append_eq_append_conv)+
    moreover have "p + length xs \<in> ends cs A p"
      using star_step.hyps(1) star_step.prems(4) calculation(1) by (simp add: ends_def)
    moreover have "p + length xs + length ys \<le> length cs"
      using star_step.prems(4) by (simp only: length_append add.assoc)
    ultimately have "p + length xs + length ys \<in> R"
      using closed[OF star_step.prems(1)] by (intro star_step.IH) auto
    then show ?case
      by (simp only: length_append add.assoc)
  qed simp
  then show ?thesis
    using assms(1,3) by (fastforce simp: ends_def)
qed

lemma star_unfold: "star A = {[]} \<union> conc A (star A)"
  by (auto simp: conc_def intro: star.intros elim: star.cases)

lemma star_snoc: "xs \<in> star A \<Longrightarrow> ys \<in> A \<Longrightarrow> xs @ ys \<in> star A"
  by (induction rule: star.induct) (auto intro: star.intros dest: star_step[OF _ star_Nil])

lemma ends_star_self: "p \<le> length cs \<Longrightarrow> p \<in> ends cs (star A) p"
  by (simp add: ends_def star_Nil)

lemma ends_star_closed:
  assumes "x \<in> ends cs (star A) p"
  shows "ends cs A x \<subseteq> ends cs (star A) p"
proof
  fix y assume "y \<in> ends cs A x"
  then show "y \<in> ends cs (star A) p"
    using assms take_drop_split[of p x y cs]
      star_snoc[of "take (x - p) (drop p cs)" A "take (y - x) (drop x cs)"] by (simp add: ends_def)
qed

subsection \<open>The loops\<close>

lemma set_unionInto [simp]: "set (unionInto dst src) = set dst \<union> set src"
  unfolding unionInto_def by (induction src arbitrary: dst) auto

text \<open>An entry of the memo table is the set of ends of its node.\<close>

definition memo_ok :: "string list \<Rightarrow> memo \<Rightarrow> bool" where
  "memo_ok cs m \<longleftrightarrow> (\<forall>c p qs. m (c, p) = Some qs \<longrightarrow> p \<le> length cs \<longrightarrow> set qs = ends cs (lang c) p)"

text \<open>\<open>computes cs A p r\<close>: the run \<open>r\<close> returns the ends of \<open>A\<close> from \<open>p\<close>, whatever the table.\<close>

definition gives :: "string list \<Rightarrow> nat set \<Rightarrow> (memo \<Rightarrow> (nat list \<times> memo) option) \<Rightarrow> bool" where
  "gives cs Q r \<longleftrightarrow> (\<forall>m. memo_ok cs m \<longrightarrow> (\<exists>qs m'. r m = Some (qs, m') \<and> set qs = Q \<and> memo_ok cs m'))"

lemma givesE:
  assumes "gives cs Q r" and "memo_ok cs m"
  obtains qs m' where "r m = Some (qs, m')" "set qs = Q" "memo_ok cs m'"
  using assms unfolding gives_def by blast

lemma gives_const: "set qs = Q \<Longrightarrow> gives cs Q (\<lambda>m. Some (qs, m))"
  by (simp add: gives_def)

lemma gives_each:
  "(\<And>p. p \<in> set ps \<Longrightarrow> gives cs (F p) (f p)) \<Longrightarrow> gives cs (set res \<union> (\<Union>p\<in>set ps. F p)) (each f ps res)"
proof (induction ps arbitrary: res)
  case (Cons p ps)
  show ?case
    unfolding gives_def
  proof (intro allI impI)
    fix m assume "memo_ok cs m"
    then obtain qs m1 where 1: "f p m = Some (qs, m1)" "set qs = F p" "memo_ok cs m1"
      using Cons.prems[of p] by (auto elim: givesE)
    have "gives cs (set (unionInto res qs) \<union> (\<Union>p\<in>set ps. F p)) (each f ps (unionInto res qs))"
      using Cons.prems by (intro Cons.IH) simp
    then obtain qs' m2 where "each f ps (unionInto res qs) m1 = Some (qs', m2)"
        "set qs' = set (unionInto res qs) \<union> (\<Union>p\<in>set ps. F p)" "memo_ok cs m2"
      using 1(3) by (rule givesE)
    with 1(1,2)
    show "\<exists>qs m'. each f (p # ps) res m = Some (qs, m') \<and>
        set qs = set res \<union> (\<Union>p\<in>set (p # ps). F p) \<and> memo_ok cs m'"
      by (auto simp: Un_assoc)
  qed
qed (simp add: gives_def)

lemma gives_alt_loop:
  "(\<And>c. c \<in> set alts \<Longrightarrow> gives cs (F c) (g c)) \<Longrightarrow>
    gives cs (set res \<union> (\<Union>c\<in>set alts. F c)) (alt_loop g alts res)"
proof (induction alts arbitrary: res)
  case (Cons c alts)
  show ?case
    unfolding gives_def
  proof (intro allI impI)
    fix m assume "memo_ok cs m"
    then obtain qs m1 where 1: "g c m = Some (qs, m1)" "set qs = F c" "memo_ok cs m1"
      using Cons.prems[of c] by (auto elim: givesE)
    have "gives cs (set (unionInto res qs) \<union> (\<Union>c\<in>set alts. F c)) (alt_loop g alts (unionInto res qs))"
      using Cons.prems by (intro Cons.IH) simp
    then obtain qs' m2 where "alt_loop g alts (unionInto res qs) m1 = Some (qs', m2)"
        "set qs' = set (unionInto res qs) \<union> (\<Union>c\<in>set alts. F c)" "memo_ok cs m2"
      using 1(3) by (rule givesE)
    with 1(1,2)
    show "\<exists>qs m'. alt_loop g (c # alts) res m = Some (qs, m') \<and>
        set qs = set res \<union> (\<Union>c\<in>set (c # alts). F c) \<and> memo_ok cs m'"
      by (auto simp: Un_assoc)
  qed
qed (simp add: gives_def)

lemma gives_seq_loop:
  assumes "\<And>c p. c \<in> set parts \<Longrightarrow> p \<le> length cs \<Longrightarrow> gives cs (ends cs (lang c) p) (g c p)"
    and "\<And>p. p \<in> set cur \<Longrightarrow> p \<le> length cs"
  shows "gives cs (\<Union>p\<in>set cur. ends cs (seq_lang parts) p) (seq_loop g parts cur)"
  using assms
proof (induction parts arbitrary: cur)
  case Nil
  then show ?case by (auto simp: gives_def ends_eps)
next
  case (Cons c parts)
  have each: "gives cs (\<Union>p\<in>set cur. ends cs (lang c) p) (each (g c) cur [])"
    using gives_each[of cur cs "ends cs (lang c)" "g c" "[]"] Cons.prems by simp
  show ?case
    unfolding gives_def
  proof (intro allI impI)
    fix m assume "memo_ok cs m"
    then obtain nxt m1 where 1: "each (g c) cur [] m = Some (nxt, m1)"
        "set nxt = (\<Union>p\<in>set cur. ends cs (lang c) p)" "memo_ok cs m1"
      using each by (auto elim: givesE)
    have "gives cs (\<Union>p\<in>set nxt. ends cs (seq_lang parts) p) (seq_loop g parts nxt)"
      using Cons.prems 1(2) by (intro Cons.IH) (auto dest: ends_bounds)
    then obtain qs' m2 where "seq_loop g parts nxt m1 = Some (qs', m2)"
        "set qs' = (\<Union>p\<in>set nxt. ends cs (seq_lang parts) p)" "memo_ok cs m2"
      using 1(3) by (rule givesE)
    with 1(1,2)
    show "\<exists>qs m'. seq_loop g (c # parts) cur m = Some (qs, m') \<and>
        set qs = (\<Union>p\<in>set cur. ends cs (seq_lang (c # parts)) p) \<and> memo_ok cs m'"
      using 1 by (auto simp: ends_conc)
  qed
qed

lemma push_unseen:
  assumes "push_unseen qs res frontier = (res', frontier')"
  shows "set res' = set res \<union> set qs"
    and "set frontier' = set frontier \<union> (set qs - set res)"
    and "distinct res \<Longrightarrow> distinct res'"
    and "length res' + length frontier = length res + length frontier'"
  using assms by (induction qs res frontier rule: push_unseen.induct) (auto split: if_splits)

text \<open>
  The closure loop: \<open>R\<close> is closed under one application, what is seen is reachable, and what is
  seen and not in the frontier has been expanded.  The sum of the unseen positions and the frontier
  drops by one in each round.
\<close>

lemma gives_closure_loop:
  assumes "\<And>p. p \<le> length cs \<Longrightarrow> gives cs (ends cs A p) (f p)"
    and "\<And>x. x \<in> R \<Longrightarrow> ends cs A x \<subseteq> R" and "R \<subseteq> {..length cs}"
    and "distinct res" and "set frontier \<subseteq> set res" and "set res \<subseteq> R"
    and "\<And>x. x \<in> set res - set frontier \<Longrightarrow> ends cs A x \<subseteq> set res"
    and "length frontier + (length cs + 1) \<le> fuel + length res" and "memo_ok cs m"
  shows "\<exists>qs m'. closure_loop f fuel res frontier m = Some (qs, m') \<and> set res \<subseteq> set qs \<and> set qs \<subseteq> R \<and>
      (\<forall>x\<in>set qs. ends cs A x \<subseteq> set qs) \<and> memo_ok cs m'"
  using assms(4-9)
proof (induction fuel arbitrary: res frontier m)
  case 0
  have "length res \<le> length cs + 1"
    using 0(1,3) assms(3) card_mono[of "{..length cs}" "set res"] by (simp add: distinct_card)
  then have "length frontier = 0" using 0(5) by linarith
  then show ?case using 0 by simp
next
  case (Suc fuel)
  show ?case
  proof (cases frontier)
    case Nil
    then show ?thesis using Suc.prems by simp
  next
    case (Cons p frontier0)
    have p: "p \<in> R" "p \<le> length cs"
      using Suc.prems(2,3) Cons assms(3) by auto
    obtain qs m1 where 1: "f p m = Some (qs, m1)" "set qs = ends cs A p" "memo_ok cs m1"
      using assms(1)[OF p(2)] Suc.prems(6) by (rule givesE)
    obtain res' frontier' where 2: "push_unseen qs res frontier0 = (res', frontier')"
      by fastforce
    note push = push_unseen[OF 2]
    have "\<exists>qs m'. closure_loop f fuel res' frontier' m1 = Some (qs, m') \<and> set res' \<subseteq> set qs \<and> set qs \<subseteq> R \<and>
        (\<forall>x\<in>set qs. ends cs A x \<subseteq> set qs) \<and> memo_ok cs m'"
    proof (rule Suc.IH)
      show "distinct res'" using push(3) Suc.prems(1) .
      show "set frontier' \<subseteq> set res'" using push(1,2) Suc.prems(2) Cons by auto
      show "set res' \<subseteq> R" using push(1) 1(2) Suc.prems(3) assms(2)[OF p(1)] by auto
      show "ends cs A x \<subseteq> set res'" if "x \<in> set res' - set frontier'" for x
      proof (cases "x = p")
        case True
        then show ?thesis using push(1) 1(2) by simp
      next
        case False
        then show ?thesis using that push(1,2) Suc.prems(4)[of x] Cons by auto
      qed
      show "length frontier' + (length cs + 1) \<le> fuel + length res'"
        using push(4) Suc.prems(5) Cons by simp
      show "memo_ok cs m1" by fact
    qed
    then show ?thesis
      using Cons 1(1) 2 push(1) by auto
  qed
qed

lemma gives_closure:
  assumes f: "\<And>p. p \<le> length cs \<Longrightarrow> gives cs (ends cs A p) (f p)" and p: "p \<le> length cs"
  shows "gives cs (ends cs (star A) p) (closure f (length cs + 1) p True)"
    and "gives cs (ends cs (conc A (star A)) p) (closure f (length cs + 1) p False)"
proof -
  show "gives cs (ends cs (star A) p) (closure f (length cs + 1) p True)"
    unfolding gives_def
  proof (intro allI impI)
    fix m assume m: "memo_ok cs m"
    have "\<exists>qs m'. closure_loop f (length cs + 1) [p] [p] m = Some (qs, m') \<and> set [p] \<subseteq> set qs \<and>
        set qs \<subseteq> ends cs (star A) p \<and> (\<forall>x\<in>set qs. ends cs A x \<subseteq> set qs) \<and> memo_ok cs m'"
    proof (rule gives_closure_loop)
      show "ends cs A x \<subseteq> ends cs (star A) p" if "x \<in> ends cs (star A) p" for x
        using that by (rule ends_star_closed)
      show "set [p] \<subseteq> ends cs (star A) p"
        using p by (simp add: ends_star_self)
      show "ends cs (star A) p \<subseteq> {..length cs}"
        by (auto dest: ends_bounds)
    qed (use f m in auto)
    then obtain qs m' where 1: "closure_loop f (length cs + 1) [p] [p] m = Some (qs, m')" "p \<in> set qs"
        "set qs \<subseteq> ends cs (star A) p" "\<forall>x\<in>set qs. ends cs A x \<subseteq> set qs" "memo_ok cs m'"
      by auto
    have "ends cs (star A) p \<subseteq> set qs"
      using 1(2,4) p by (intro ends_star_least) auto
    then show "\<exists>qs m'. closure f (length cs + 1) p True m = Some (qs, m') \<and>
        set qs = ends cs (star A) p \<and> memo_ok cs m'"
      using 1 by (simp add: closure_def)
  qed
  show "gives cs (ends cs (conc A (star A)) p) (closure f (length cs + 1) p False)"
    unfolding gives_def
  proof (intro allI impI)
    fix m assume m: "memo_ok cs m"
    obtain qs m1 where 1: "f p m = Some (qs, m1)" "set qs = ends cs A p" "memo_ok cs m1"
      using f[OF p] m by (rule givesE)
    obtain res frontier where 2: "push_unseen qs [] [] = (res, frontier)"
      by fastforce
    note push = push_unseen[OF 2]
    let ?R = "ends cs (conc A (star A)) p"
    have R: "?R = (\<Union>q\<in>ends cs A p. ends cs (star A) q)"
      by (rule ends_conc)
    have "\<exists>qs' m'. closure_loop f (length cs + 1) res frontier m1 = Some (qs', m') \<and>
        set res \<subseteq> set qs' \<and> set qs' \<subseteq> ?R \<and> (\<forall>x\<in>set qs'. ends cs A x \<subseteq> set qs') \<and> memo_ok cs m'"
    proof (rule gives_closure_loop)
      show "ends cs A x \<subseteq> ?R" if x: "x \<in> ?R" for x
      proof -
        obtain q where q: "q \<in> ends cs A p" "x \<in> ends cs (star A) q"
          using x unfolding R by blast
        have "ends cs A x \<subseteq> ends cs (star A) q"
          using q(2) by (rule ends_star_closed)
        then show ?thesis
          using q(1) by (auto simp: R)
      qed
      show "set res \<subseteq> ?R"
      proof
        fix q assume "q \<in> set res"
        then have "q \<in> ends cs A p"
          using push(1) 1(2) by simp
        moreover from this have "q \<in> ends cs (star A) q"
          by (intro ends_star_self) (simp add: ends_def)
        ultimately show "q \<in> ?R"
          unfolding R by blast
      qed
      show "?R \<subseteq> {..length cs}"
        by (auto dest: ends_bounds)
      show "ends cs A x \<subseteq> set res" if "x \<in> set res - set frontier" for x
        using that push(1,2) by simp
      show "length frontier + (length cs + 1) \<le> length cs + 1 + length res"
        using push(4) by simp
    qed (use f push(1-3) 1(3) in auto)
    then obtain qs' m2 where 3: "closure_loop f (length cs + 1) res frontier m1 = Some (qs', m2)"
        "set res \<subseteq> set qs'" "set qs' \<subseteq> ?R" "\<forall>x\<in>set qs'. ends cs A x \<subseteq> set qs'" "memo_ok cs m2"
      by blast
    have "?R \<subseteq> set qs'"
      unfolding R
    proof (rule UN_least, rule ends_star_least)
      fix q assume "q \<in> ends cs A p"
      then show "q \<in> set qs'" "q \<le> length cs"
        using 3(2) push(1) 1(2) by (auto dest: ends_bounds)
    qed (use 3(4) in blast)
    then show "\<exists>qs m'. closure f (length cs + 1) p False m = Some (qs, m') \<and> set qs = ?R \<and> memo_ok cs m'"
      using 1(1) 2 3 by (auto simp: closure_def)
  qed
qed

subsection \<open>The exact matcher\<close>

lemma gives_reachOnce:
  assumes "\<And>c p. size c < size content \<Longrightarrow> p \<le> length cs \<Longrightarrow> gives cs (ends cs (lang c) p) (reach cs (Some c) p)"
    and p: "p \<le> length cs"
  shows "gives cs (ends cs (one content) p) (reachOnce cs content p)"
proof -
  have "gives cs (ends cs (seq_lang (flattenSeq content)) p)
      (seq_loop (\<lambda>part p m. reach cs (Some part) p m) (flattenSeq content) [p])"
    using gives_seq_loop[of "flattenSeq content" cs "\<lambda>part p m. reach cs (Some part) p m" "[p]"]
      assms flattenSeq_size[of _ content] by simp
  moreover have "gives cs (ends cs (\<Union>x\<in>set (flattenOr content). lang x) p)
      (alt_loop (\<lambda>alt m. reach cs (Some alt) p m) (flattenOr content) [])"
    using gives_alt_loop[of "flattenOr content" cs "\<lambda>c. ends cs (lang c) p" "\<lambda>alt m. reach cs (Some alt) p m" "[]"]
      assms flattenOr_size[of _ content] by (simp add: ends_def Collect_bex_eq[symmetric] del: Collect_bex_eq)
  ultimately show ?thesis
    using p by (cases "ctype content")
      (simp_all add: gives_def reachOnce.simps one_def ends_eps ends_singleton lang_flattenSeq lang_flattenOr)
qed

lemma gives_reach:
  "p \<le> length cs \<Longrightarrow> gives cs (ends cs (lang c) p) (reach cs (Some c) p)"
proof (induction c arbitrary: p rule: measure_induct_rule[of size])
  case (less c)
  have one: "gives cs (ends cs (one c) p) (reachOnce cs c p)" if "p \<le> length cs" for p
    using gives_reachOnce less.IH that by blast
  show ?case
    unfolding gives_def
  proof (intro allI impI)
    fix m assume m: "memo_ok cs m"
    let ?run = "(case coccur c of
              ElementContentOnce \<Rightarrow> reachOnce cs c p m
            | ElementContentOpt \<Rightarrow> do {
                (qs, m) \<leftarrow> reachOnce cs c p m;
                Some (unionInto [p] qs, m) }
            | ElementContentMult \<Rightarrow> closure (\<lambda>p m. reachOnce cs c p m) (length cs + 1) p True m
            | ElementContentPlus \<Rightarrow> closure (\<lambda>p m. reachOnce cs c p m) (length cs + 1) p False m
            | InvalidContentOccur _ \<Rightarrow> Some ([], m))"
    have run: "\<exists>qs m'. ?run = Some (qs, m') \<and> set qs = ends cs (lang c) p \<and> memo_ok cs m'"
      using one[OF less.prems] gives_closure[OF one less.prems] m less.prems
      by (cases "coccur c")
        (fastforce simp: gives_def lang_occurs occurs_def ends_insert)+
    show "\<exists>qs m'. reach cs (Some c) p m = Some (qs, m') \<and> set qs = ends cs (lang c) p \<and> memo_ok cs m'"
    proof (cases "m (c, p)")
      case None
      then show ?thesis
        using run by (auto simp: reach.simps(2) memo_ok_def)
    next
      case (Some qs)
      then show ?thesis
        using m less.prems by (auto simp: reach.simps(2) memo_ok_def)
    qed
  qed
qed

lemma matchContentModelExact_Some:
  "matchContentModelExact (Some c) cs = Some (cs \<in> lang c)"
proof -
  obtain qs m' where "reach cs (Some c) 0 (\<lambda>_. None) = Some (qs, m')" "set qs = ends cs (lang c) 0"
    using gives_reach[of 0 cs c] by (auto simp: gives_def memo_ok_def)
  then show ?thesis
    by (simp add: matchContentModelExact_def ends_def)
qed

end
