(* ===== verification/ContentGreedy.thy ===== *)
theory ContentGreedy
  imports ContentMatch
begin

text \<open>
  The greedy matcher of \<open>valid.go\<close> and \<open>matchContentModel\<close>, which tries it before the exact
  one.  What the greedy descent accepts is in the language, so the combination decides the language
  of every model \<open>validateElementContentModel\<close> accepts.
\<close>

subsection \<open>The greedy descent\<close>

text \<open>The results are \<open>(consumed, ok)\<close>.\<close>

function count_run :: "string \<Rightarrow> string list \<Rightarrow> nat \<Rightarrow> nat \<Rightarrow> nat" where
  "count_run name children pos count =
     (if pos + count < length children \<and> children ! (pos + count) = name
      then count_run name children pos (count + 1) else count)"
  by pat_completeness auto
termination
  by (relation "measure (\<lambda>(name, children, pos, count). length children - (pos + count))") auto

declare count_run.simps [simp del]

definition matchElement :: "ElementContent \<Rightarrow> string list \<Rightarrow> nat \<Rightarrow> nat \<times> bool" where
  "matchElement content children pos =
     (let name = rawName content; here = pos < length children \<and> children ! pos = name in
      case coccur content of
        ElementContentOnce \<Rightarrow> if here then (1, True) else (0, False)
      | ElementContentOpt \<Rightarrow> if here then (1, True) else (0, True)
      | ElementContentMult \<Rightarrow> (count_run name children pos 0, True)
      | ElementContentPlus \<Rightarrow> if \<not> here then (0, False) else (count_run name children pos 1, True)
      | InvalidContentOccur _ \<Rightarrow> (0, False))"

text \<open>The closures \<open>matchOnce\<close> of \<open>matchSeq\<close> and of \<open>matchOr\<close>.\<close>

fun once_seq :: "(ElementContent \<Rightarrow> nat \<Rightarrow> (nat \<times> bool) option) \<Rightarrow> ElementContent list \<Rightarrow> nat \<Rightarrow> nat
    \<Rightarrow> (nat \<times> bool) option" where
  "once_seq g [] current startPos = Some (current - startPos, True)"
| "once_seq g (part # parts) current startPos = do {
     (consumed, ok) \<leftarrow> g part current;
     if \<not> ok then Some (0, False) else once_seq g parts (current + consumed) startPos }"

fun first_match :: "(nat \<Rightarrow> bool) \<Rightarrow> (ElementContent \<Rightarrow> (nat \<times> bool) option) \<Rightarrow> ElementContent list
    \<Rightarrow> nat option option" where
  "first_match P g [] = Some None"
| "first_match P g (alt # alts) = do {
     (consumed, ok) \<leftarrow> g alt;
     if ok \<and> P consumed then Some (Some consumed) else first_match P g alts }"

definition once_or :: "(ElementContent \<Rightarrow> (nat \<times> bool) option) \<Rightarrow> ElementContent list
    \<Rightarrow> (nat \<times> bool) option" where
  "once_or g alts = do {
     r \<leftarrow> first_match (\<lambda>consumed. consumed > 0) g alts;
     case r of
       Some consumed \<Rightarrow> Some (consumed, True)
     | None \<Rightarrow> do {
         r \<leftarrow> first_match (\<lambda>consumed. consumed = 0) g alts;
         case r of Some _ \<Rightarrow> Some (0, True) | None \<Rightarrow> Some (0, False) } }"

text \<open>The repetitions; one unit of fuel per round.\<close>

fun repeat :: "nat \<Rightarrow> (nat \<Rightarrow> (nat \<times> bool) option) \<Rightarrow> nat \<Rightarrow> nat \<Rightarrow> nat option" where
  "repeat 0 once pos tot = None"
| "repeat (Suc fuel) once pos tot = do {
     (consumed, ok) \<leftarrow> once (pos + tot);
     if \<not> ok \<or> consumed = 0 then Some tot else repeat fuel once pos (tot + consumed) }"

fun repeat_or_plus :: "nat \<Rightarrow> (nat \<Rightarrow> (nat \<times> bool) option) \<Rightarrow> nat \<Rightarrow> nat \<Rightarrow> nat \<Rightarrow> nat option" where
  "repeat_or_plus fuel once pos tot 0 = Some tot"
| "repeat_or_plus 0 once pos tot (Suc consumed) = None"
| "repeat_or_plus (Suc fuel) once pos tot (Suc consumed) = do {
     (consumed, ok) \<leftarrow> once (pos + tot);
     if \<not> ok then Some tot else repeat_or_plus fuel once pos (tot + consumed) consumed }"

definition seq_occurs :: "nat \<Rightarrow> (nat \<Rightarrow> (nat \<times> bool) option) \<Rightarrow> ElementContentOccur \<Rightarrow> nat
    \<Rightarrow> (nat \<times> bool) option" where
  "seq_occurs fuel matchOnce occur pos = (case occur of
     ElementContentOnce \<Rightarrow> do {
       (consumed, ok) \<leftarrow> matchOnce pos;
       if \<not> ok then Some (0, False) else Some (consumed, True) }
   | ElementContentOpt \<Rightarrow> do {
       (consumed, ok) \<leftarrow> matchOnce pos;
       if \<not> ok then Some (0, True) else Some (consumed, True) }
   | ElementContentMult \<Rightarrow> do { tot \<leftarrow> repeat fuel matchOnce pos 0; Some (tot, True) }
   | ElementContentPlus \<Rightarrow> do {
       (consumed, ok) \<leftarrow> matchOnce pos;
       if \<not> ok then Some (0, False)
       else do { tot \<leftarrow> repeat fuel matchOnce pos consumed; Some (tot, True) } }
   | InvalidContentOccur _ \<Rightarrow> Some (0, False))"

definition or_occurs :: "nat \<Rightarrow> (nat \<Rightarrow> (nat \<times> bool) option) \<Rightarrow> ElementContentOccur \<Rightarrow> nat
    \<Rightarrow> (nat \<times> bool) option" where
  "or_occurs fuel matchOnce occur pos = (case occur of
     ElementContentOnce \<Rightarrow> matchOnce pos
   | ElementContentOpt \<Rightarrow> do {
       (consumed, ok) \<leftarrow> matchOnce pos;
       if \<not> ok then Some (0, True) else Some (consumed, True) }
   | ElementContentMult \<Rightarrow> do { tot \<leftarrow> repeat fuel matchOnce pos 0; Some (tot, True) }
   | ElementContentPlus \<Rightarrow> do {
       (consumed, ok) \<leftarrow> matchOnce pos;
       if \<not> ok then Some (0, False)
       else do { tot \<leftarrow> repeat_or_plus fuel matchOnce pos consumed consumed; Some (tot, True) } }
   | InvalidContentOccur _ \<Rightarrow> Some (0, False))"

lemma once_seq_cong [fundef_cong]:
  assumes "parts = parts'" and "p = p'" and "s = s'"
    and "\<And>c q. c \<in> set parts' \<Longrightarrow> g c q = g' c q"
  shows "once_seq g parts p s = once_seq g' parts' p' s'"
proof -
  have "once_seq g parts p s = once_seq g' parts p s" if "\<And>c q. c \<in> set parts \<Longrightarrow> g c q = g' c q"
    using that by (induction parts arbitrary: p) (auto intro!: Option.bind_cong)
  then show ?thesis using assms by simp
qed

lemma once_or_cong [fundef_cong]:
  assumes "alts = alts'" and "\<And>c. c \<in> set alts' \<Longrightarrow> g c = g' c"
  shows "once_or g alts = once_or g' alts'"
proof -
  have "first_match P g alts = first_match P g' alts" if "\<And>c. c \<in> set alts \<Longrightarrow> g c = g' c" for P
    using that by (induction alts) (auto intro!: Option.bind_cong)
  then have "first_match P g alts' = first_match P g' alts'" for P
    using assms by simp
  then show ?thesis using assms(1) by (simp add: once_or_def cong: option.case_cong)
qed

lemma occurs_cong [fundef_cong]:
  assumes "fuel = fuel'" and "occur = occur'" and "p = p'" and "\<And>q. f q = f' q"
  shows "seq_occurs fuel f occur p = seq_occurs fuel' f' occur' p'"
    and "or_occurs fuel f occur p = or_occurs fuel' f' occur' p'"
proof -
  have "f = f'" using assms(4) by blast
  then show "seq_occurs fuel f occur p = seq_occurs fuel' f' occur' p'"
    "or_occurs fuel f occur p = or_occurs fuel' f' occur' p'"
    using assms by simp_all
qed

function matchContent :: "ElementContent option \<Rightarrow> string list \<Rightarrow> nat \<Rightarrow> (nat \<times> bool) option"
  and matchSeq :: "ElementContent \<Rightarrow> string list \<Rightarrow> nat \<Rightarrow> (nat \<times> bool) option"
  and matchOr :: "ElementContent \<Rightarrow> string list \<Rightarrow> nat \<Rightarrow> (nat \<times> bool) option" where
  "matchContent None children pos = Some (0, pos \<ge> length children)"
| "matchContent (Some content) children pos =
     (case ctype content of
        ElementContentElement \<Rightarrow> Some (matchElement content children pos)
      | ElementContentSeq \<Rightarrow> matchSeq content children pos
      | ElementContentOr \<Rightarrow> matchOr content children pos
      | ElementContentPCDATA \<Rightarrow> Some (0, True)
      | InvalidContentType _ \<Rightarrow> Some (0, False))"
| "matchSeq content children pos =
     seq_occurs (length children + 1)
       (\<lambda>startPos. once_seq (\<lambda>part p. matchContent (Some part) children p) (flattenSeq content) startPos startPos)
       (coccur content) pos"
| "matchOr content children pos =
     or_occurs (length children + 1)
       (\<lambda>startPos. once_or (\<lambda>alt. matchContent (Some alt) children startPos) (flattenOr content))
       (coccur content) pos"
  by pat_completeness auto
termination
  by (relation "measure (\<lambda>x. case x of Inl (c, _) \<Rightarrow> 2 * psize c + 1
        | Inr (Inl (c, _)) \<Rightarrow> 2 * size c | Inr (Inr (c, _)) \<Rightarrow> 2 * size c)")
    (auto dest: flattenSeq_size flattenOr_size)

declare matchContent.simps(2) [simp del] matchSeq.simps [simp del] matchOr.simps [simp del]

definition matchContentModel :: "ElementContent option \<Rightarrow> string list \<Rightarrow> bool option" where
  "matchContentModel content children = do {
     (consumed, ok) \<leftarrow> matchContent content children 0;
     if ok \<and> consumed = length children then Some True
     else matchContentModelExact content children }"


subsection \<open>What the greedy descent accepts\<close>

lemma count_run_ends:
  "pos + count \<in> S \<Longrightarrow> (\<And>x. x \<in> S \<Longrightarrow> ends cs {[name]} x \<subseteq> S) \<Longrightarrow> pos + count_run name cs pos count \<in> S"
proof (induction name cs pos count rule: count_run.induct)
  case (1 name cs pos count)
  show ?case
  proof (cases "pos + count < length cs \<and> cs ! (pos + count) = name")
    case True
    then have "pos + (count + 1) \<in> S"
      using "1.prems"(2)[OF "1.prems"(1)] by (simp add: ends_singleton)
    then show ?thesis
      using "1.IH"[OF True] "1.prems"(2) True by (simp add: count_run.simps[of _ _ _ count])
  next
    case False
    then have "count_run name cs pos count = count"
      by (subst count_run.simps) (simp only: if_False)
    then show ?thesis
      using "1.prems"(1) by simp
  qed
qed

text \<open>\<open>sound cs A f\<close>: \<open>f\<close> returns, and what it accepts at \<open>p\<close> ends a word of \<open>A\<close>.\<close>

fun accepts :: "nat set \<Rightarrow> nat \<Rightarrow> (nat \<times> bool) option \<Rightarrow> bool" where
  "accepts Q s None \<longleftrightarrow> False"
| "accepts Q s (Some (k, ok)) \<longleftrightarrow> (ok \<longrightarrow> s + k \<in> Q)"

definition sound :: "string list \<Rightarrow> string list set \<Rightarrow> (nat \<Rightarrow> (nat \<times> bool) option) \<Rightarrow> bool" where
  "sound cs A f \<longleftrightarrow> (\<forall>p\<le>length cs. accepts (ends cs A p) p (f p))"

lemma acceptsE:
  assumes "accepts Q s r"
  obtains k ok where "r = Some (k, ok)" "ok \<longrightarrow> s + k \<in> Q"
  using assms by (cases "(Q, s, r)" rule: accepts.cases) auto

lemma soundE:
  assumes "sound cs A f" and "p \<le> length cs"
  obtains k ok where "f p = Some (k, ok)" "ok \<longrightarrow> p + k \<in> ends cs A p"
  using assms unfolding sound_def by (blast elim: acceptsE)

lemma sound_matchElement:
  "coccur c = occ \<Longrightarrow> sound cs (occurs occ {[rawName c]}) (\<lambda>p. Some (matchElement c cs p))"
proof (cases occ)
  case ElementContentMult
  have "p + count_run (rawName c) cs p 0 \<in> ends cs (star {[rawName c]}) p" if "p \<le> length cs" for p
    by (rule count_run_ends) (use that in \<open>simp_all add: ends_star_self ends_star_closed\<close>)
  then show "coccur c = occ \<Longrightarrow> ?thesis"
    using ElementContentMult by (simp add: sound_def matchElement_def occurs_def)
next
  case ElementContentPlus
  have "p + count_run (rawName c) cs p 1 \<in> ends cs (star {[rawName c]}) (p + 1)" if "p + 1 \<le> length cs" for p
    by (rule count_run_ends) (use that in \<open>simp_all add: ends_star_self ends_star_closed\<close>)
  then show "coccur c = occ \<Longrightarrow> ?thesis"
    using ElementContentPlus by (simp add: sound_def matchElement_def occurs_def ends_conc ends_singleton)
qed (auto simp: sound_def matchElement_def occurs_def ends_singleton ends_insert insert_commute[of "[_]"])

lemma sound_once_seq:
  assumes "\<And>c. c \<in> set parts \<Longrightarrow> sound cs (lang c) (g c)" and "p \<le> length cs" and "s \<le> p"
  shows "accepts (ends cs (seq_lang parts) p) s (once_seq g parts p s)"
  using assms
proof (induction parts arbitrary: p)
  case Nil
  then show ?case by (simp add: ends_eps)
next
  case (Cons c parts)
  have "sound cs (lang c) (g c)"
    using Cons.prems(1) by simp
  then obtain k ok where 1: "g c p = Some (k, ok)" "ok \<longrightarrow> p + k \<in> ends cs (lang c) p"
    using Cons.prems(2) by (rule soundE)
  show ?case
  proof (cases ok)
    case True
    then have k: "p + k \<in> ends cs (lang c) p" using 1(2) by simp
    have "accepts (ends cs (seq_lang parts) (p + k)) s (once_seq g parts (p + k) s)"
      using Cons.IH[of "p + k"] Cons.prems ends_bounds[OF k] by simp
    then show ?thesis
      using 1(1) True k by (auto simp: ends_conc elim!: acceptsE)
  next
    case False
    then show ?thesis using 1(1) by simp
  qed
qed

lemma first_match_ends:
  assumes "\<And>c. c \<in> set alts \<Longrightarrow> accepts (F c) p (g c)"
  shows "\<exists>r. first_match P g alts = Some r \<and>
    (\<forall>k. r = Some k \<longrightarrow> P k \<and> p + k \<in> (\<Union>c\<in>set alts. F c))"
  using assms
proof (induction alts)
  case (Cons c alts)
  obtain k ok where "g c = Some (k, ok)" "ok \<longrightarrow> p + k \<in> F c"
    using Cons.prems[of c] by (auto elim: acceptsE)
  moreover have "\<exists>r. first_match P g alts = Some r \<and>
      (\<forall>k. r = Some k \<longrightarrow> P k \<and> p + k \<in> (\<Union>c\<in>set alts. F c))"
    using Cons by simp
  ultimately show ?case by auto
qed simp

lemma sound_once_or:
  assumes "\<And>c. c \<in> set alts \<Longrightarrow> sound cs (lang c) (g c)"
  shows "sound cs (\<Union>c\<in>set alts. lang c) (\<lambda>p. once_or (\<lambda>c. g c p) alts)"
  unfolding sound_def
proof (intro allI impI)
  fix p assume p: "p \<le> length cs"
  have "accepts (ends cs (lang c) p) p (g c p)" if "c \<in> set alts" for c
    using assms[OF that] p by (simp add: sound_def)
  note first = first_match_ends[of alts "\<lambda>c. ends cs (lang c) p" p "\<lambda>c. g c p", OF this]
  obtain r where r: "first_match (\<lambda>k. k > 0) (\<lambda>c. g c p) alts = Some r"
      "\<And>k. r = Some k \<Longrightarrow> p + k \<in> (\<Union>c\<in>set alts. ends cs (lang c) p)"
    using first[of "\<lambda>k. k > 0"] by blast
  obtain r' where r': "first_match (\<lambda>k. k = 0) (\<lambda>c. g c p) alts = Some r'"
      "\<And>k. r' = Some k \<Longrightarrow> k = 0 \<and> p + k \<in> (\<Union>c\<in>set alts. ends cs (lang c) p)"
    using first[of "\<lambda>k. k = 0"] by blast
  have "(\<Union>c\<in>set alts. ends cs (lang c) p) = ends cs (\<Union>c\<in>set alts. lang c) p"
    by (auto simp: ends_def)
  then show "accepts (ends cs (\<Union>c\<in>set alts. lang c) p) p (once_or (\<lambda>c. g c p) alts)"
    using r r' by (cases r; cases r') (auto simp: once_or_def)
qed

lemma repeat_ends:
  assumes "sound cs A once" and "\<And>x. x \<in> S \<Longrightarrow> ends cs A x \<subseteq> S" and "S \<subseteq> {..length cs}"
    and "pos + tot \<in> S" and "length cs < fuel + (pos + tot)"
  shows "\<exists>t. repeat fuel once pos tot = Some t \<and> pos + t \<in> S"
  using assms(4,5)
proof (induction fuel arbitrary: tot)
  case 0
  then show ?case using assms(3) by auto
next
  case (Suc fuel)
  have "pos + tot \<le> length cs" using Suc.prems(1) assms(3) by auto
  with assms(1) obtain k ok where 1: "once (pos + tot) = Some (k, ok)"
      "ok \<longrightarrow> pos + tot + k \<in> ends cs A (pos + tot)"
    by (rule soundE)
  show ?case
  proof (cases "\<not> ok \<or> k = 0")
    case True
    then show ?thesis using 1(1) Suc.prems(1) by auto
  next
    case False
    then have "pos + (tot + k) \<in> S"
      using 1(2) assms(2)[OF Suc.prems(1)] by (auto simp: add.assoc)
    then show ?thesis
      using Suc.IH[of "tot + k"] Suc.prems(2) False 1(1) by simp
  qed
qed

lemma repeat_or_plus_ends:
  assumes "sound cs A once" and "\<And>x. x \<in> S \<Longrightarrow> ends cs A x \<subseteq> S" and "S \<subseteq> {..length cs}"
    and "pos + tot \<in> S" and "length cs < fuel + (pos + tot)"
  shows "\<exists>t. repeat_or_plus fuel once pos tot k = Some t \<and> pos + t \<in> S"
  using assms(4,5)
proof (induction fuel arbitrary: tot k)
  case 0
  then show ?case using assms(3) by auto
next
  case (Suc fuel)
  show ?case
  proof (cases k)
    case 0
    then show ?thesis using Suc.prems by simp
  next
    case (Suc k0)
    have "pos + tot \<le> length cs" using Suc.prems(1) assms(3) by auto
    with assms(1) obtain k' ok where 1: "once (pos + tot) = Some (k', ok)"
        "ok \<longrightarrow> pos + tot + k' \<in> ends cs A (pos + tot)"
      by (rule soundE)
    show ?thesis
    proof (cases ok)
      case False
      then show ?thesis using Suc 1(1) \<open>pos + tot \<in> S\<close> by simp
    next
      case True
      then have S: "pos + (tot + k') \<in> S"
        using 1(2) assms(2)[OF Suc.prems(1)] by (auto simp: add.assoc)
      show ?thesis
      proof (cases k')
        case 0
        then show ?thesis using Suc 1(1) True \<open>pos + tot \<in> S\<close> by (cases fuel) simp_all
      next
        case (Suc n)
        then show ?thesis
          using Suc.IH[of "tot + k'" k'] Suc.prems(2) S 1(1) True \<open>k = Suc k0\<close> by simp
      qed
    qed
  qed
qed

lemma sound_occurs:
  assumes once: "sound cs A once" and fuel: "length cs < fuel"
  shows "sound cs (occurs occ A) (seq_occurs fuel once occ)"
    and "sound cs (occurs occ A) (or_occurs fuel once occ)"
proof -
  have sub: "ends cs B p \<subseteq> {..length cs}" for B p
    by (auto dest: ends_bounds)
  have mult: "\<exists>t. repeat fuel once p 0 = Some t \<and> p + t \<in> ends cs (star A) p"
    if "p \<le> length cs" for p
    using that by (intro repeat_ends[OF once]) (use fuel in \<open>simp_all add: ends_star_closed ends_star_self sub\<close>)
  have conc_self: "q \<in> ends cs (conc A (star A)) p" if "q \<in> ends cs A p" for p q
    using that ends_star_self[of q cs A] ends_bounds[OF that] by (auto simp: ends_conc)
  have conc_closed: "ends cs A x \<subseteq> ends cs (conc A (star A)) p" if "x \<in> ends cs (conc A (star A)) p" for p x
    using that ends_star_closed[of x cs A] by (auto simp: ends_conc)
  have plus: "\<exists>t. repeat fuel once p k = Some t \<and> p + t \<in> ends cs (conc A (star A)) p"
    if "p + k \<in> ends cs A p" for p k
    using that by (intro repeat_ends[OF once]) (use fuel in \<open>auto simp: conc_self conc_closed sub\<close>)
  have orplus: "\<exists>t. repeat_or_plus fuel once p k k = Some t \<and> p + t \<in> ends cs (conc A (star A)) p"
    if "p + k \<in> ends cs A p" for p k
    using that by (intro repeat_or_plus_ends[OF once]) (use fuel in \<open>auto simp: conc_self conc_closed sub\<close>)
  show "sound cs (occurs occ A) (seq_occurs fuel once occ)"
    unfolding sound_def
  proof (intro allI impI)
    fix p assume p: "p \<le> length cs"
    with once obtain k ok where "once p = Some (k, ok)" "ok \<longrightarrow> p + k \<in> ends cs A p"
      by (rule soundE)
    then show "accepts (ends cs (occurs occ A) p) p (seq_occurs fuel once occ p)"
      using mult[OF p] plus[of p k] p
      by (cases occ; cases ok) (auto simp: seq_occurs_def occurs_def ends_insert)
  qed
  show "sound cs (occurs occ A) (or_occurs fuel once occ)"
    unfolding sound_def
  proof (intro allI impI)
    fix p assume p: "p \<le> length cs"
    with once obtain k ok where "once p = Some (k, ok)" "ok \<longrightarrow> p + k \<in> ends cs A p"
      by (rule soundE)
    then show "accepts (ends cs (occurs occ A) p) p (or_occurs fuel once occ p)"
      using mult[OF p] orplus[of p k] p
      by (cases occ; cases ok) (auto simp: or_occurs_def occurs_def ends_insert)
  qed
qed


subsection \<open>The combination\<close>

lemma validateElementContentModel_SomeD:
  assumes "validateElementContentModel (Some c) = None"
  shows "isValidElementContentOccur (coccur c)"
    and "ctype c = ElementContentSeq \<or> ctype c = ElementContentOr \<Longrightarrow>
      \<exists>x y. c1 c = Some x \<and> c2 c = Some y \<and> validateElementContentModel (Some x) = None \<and>
        validateElementContentModel (Some y) = None"
  using assms by (cases "c1 c"; cases "c2 c";
      auto simp: validateElementContentModel.simps(2)[of c] split: if_splits option.splits)+

lemma valid_flattenSeq:
  "ctype c = ElementContentSeq \<Longrightarrow> validateElementContentModel (Some c) = None \<Longrightarrow> x \<in> set (flattenSeq c) \<Longrightarrow>
    validateElementContentModel (Some x) = None"
proof (induction c rule: flattenSeq.induct)
  case (1 c)
  obtain a b where ab: "c1 c = Some a" "c2 c = Some b" "validateElementContentModel (Some a) = None"
      "validateElementContentModel (Some b) = None"
    using validateElementContentModel_SomeD(2)[OF 1(3)] 1(2) by blast
  with 1(4) consider "x = a" | "x = b"
    | "ctype b = ElementContentSeq \<and> coccur b = ElementContentOnce" "x \<in> set (flattenSeq b)"
    using flattenSeq.simps[of c] by (auto split: if_splits)
  then show ?case
    by cases (use ab 1(1)[of b] in auto)
qed

lemma valid_flattenOr:
  "ctype c = ElementContentOr \<Longrightarrow> validateElementContentModel (Some c) = None \<Longrightarrow> x \<in> set (flattenOr c) \<Longrightarrow>
    validateElementContentModel (Some x) = None"
proof (induction c rule: flattenOr.induct)
  case (1 c)
  obtain a b where ab: "c1 c = Some a" "c2 c = Some b" "validateElementContentModel (Some a) = None"
      "validateElementContentModel (Some b) = None"
    using validateElementContentModel_SomeD(2)[OF 1(3)] 1(2) by blast
  with 1(4) consider "x = a" | "x = b"
    | "ctype b = ElementContentOr \<and> coccur b = ElementContentOnce" "x \<in> set (flattenOr b)"
    using flattenOr.simps[of c] by (auto split: if_splits)
  then show ?case
    by cases (use ab 1(1)[of b] in auto)
qed

lemma sound_matchContent:
  "validateElementContentModel (Some c) = None \<Longrightarrow> sound cs (lang c) (matchContent (Some c) cs)"
proof (induction c rule: measure_induct_rule[of size])
  case (less c)
  note valid = validateElementContentModel_SomeD[OF less.prems]
  show ?case
  proof (cases "ctype c")
    case ElementContentPCDATA
    then show ?thesis
      using valid(1) by (auto simp: sound_def matchContent.simps(2) lang_occurs one_def occurs_def
          isValidElementContentOccur_def ends_eps ends_star_self ends_conc split: ElementContentOccur.splits)
  next
    case ElementContentElement
    then show ?thesis
      using sound_matchElement[of c "coccur c" cs] by (simp add: sound_def matchContent.simps(2) lang_occurs one_def)
  next
    case ElementContentSeq
    have "sound cs (seq_lang (flattenSeq c))
        (\<lambda>s. once_seq (\<lambda>part p. matchContent (Some part) cs p) (flattenSeq c) s s)"
      unfolding sound_def
      using less.IH[OF flattenSeq_size valid_flattenSeq[OF ElementContentSeq less.prems]]
      by (auto intro!: sound_once_seq)
    from sound_occurs(1)[OF this, of "length cs + 1" "coccur c"] show ?thesis
      using ElementContentSeq
      by (simp add: sound_def matchContent.simps(2)[of c] matchSeq.simps lang_occurs[of c] one_def lang_flattenSeq)
  next
    case ElementContentOr
    have "sound cs (\<Union>x\<in>set (flattenOr c). lang x)
        (\<lambda>s. once_or (\<lambda>alt. matchContent (Some alt) cs s) (flattenOr c))"
      using less.IH[OF flattenOr_size valid_flattenOr[OF ElementContentOr less.prems]]
      by (intro sound_once_or) blast
    from sound_occurs(2)[OF this, of "length cs + 1" "coccur c"] show ?thesis
      using ElementContentOr
      by (simp add: sound_def matchContent.simps(2)[of c] matchOr.simps lang_occurs[of c] one_def lang_flattenOr)
  next
    case (InvalidContentType i)
    then show ?thesis
      using less.prems by (simp add: validateElementContentModel.simps(2) split: if_splits)
  qed
qed


lemma matchContentModel_Some:
  assumes "validateElementContentModel (Some c) = None"
  shows "matchContentModel (Some c) cs = Some (cs \<in> lang c)"
proof -
  obtain k ok where 1: "matchContent (Some c) cs 0 = Some (k, ok)" "ok \<longrightarrow> 0 + k \<in> ends cs (lang c) 0"
    using sound_matchContent[OF assms, of cs] by (rule soundE[OF _ le0])
  show ?thesis
  proof (cases "ok \<and> k = length cs")
    case True
    then have "cs \<in> lang c" using 1(2) by (simp add: ends_def)
    then show ?thesis using True 1(1) by (simp add: matchContentModel_def)
  next
    case False
    then show ?thesis
      using 1(1) by (auto simp: matchContentModel_def matchContentModelExact_Some)
  qed
qed


subsection \<open>Properties\<close>

text \<open>C16: For every content model that passes validateElementContentModel, matchContentModel
  (greedy descent, then the exact matcher) terminates and accepts a sequence of child names exactly
  when it is in the regular language the model denotes: no valid document is rejected because the
  greedy descent consumed too much, and no invalid one is accepted.\<close>
theorem matchContentModel_language:
  assumes "validateElementContentModel (Some content) = None"
  shows "matchContentModel (Some content) children = Some (children \<in> lang content)"
  using assms by (rule matchContentModel_Some)

abbreviation leaf :: "string \<Rightarrow> ElementContentOccur \<Rightarrow> ElementContent" where
  "leaf name occ \<equiv> ElementContent ElementContentElement occ name '''' None None"

abbreviation seq2 :: "ElementContentOccur \<Rightarrow> ElementContent \<Rightarrow> ElementContent \<Rightarrow> ElementContent" where
  "seq2 occ x y \<equiv> ElementContent ElementContentSeq occ '''' '''' (Some x) (Some y)"

abbreviation or2 :: "ElementContentOccur \<Rightarrow> ElementContent \<Rightarrow> ElementContent \<Rightarrow> ElementContent" where
  "or2 occ x y \<equiv> ElementContent ElementContentOr occ '''' '''' (Some x) (Some y)"

theorem matchContentModel_language_witness:
  "matchContentModel (Some (seq2 ElementContentOnce (leaf ''a'' ElementContentMult) (leaf ''a'' ElementContentOnce))) [''a'', ''a'']
     = Some ([''a'', ''a''] \<in> lang (seq2 ElementContentOnce (leaf ''a'' ElementContentMult) (leaf ''a'' ElementContentOnce)))"
  by (rule matchContentModel_language)
    (simp add: validateElementContentModel.simps(2) isValidElementContentOccur_def)

text \<open>The exact matcher alone decides the language of every non-nil content model, with no
  assumption on the model (missing children and invalid occurrence indicators included); a nil
  model admits the empty sequence only.  In particular its closure loop always ends.\<close>
theorem matchContentModelExact_language:
  "matchContentModelExact content children =
     Some (case content of None \<Rightarrow> children = [] | Some c \<Rightarrow> children \<in> lang c)"
proof (cases content)
  case None
  then show ?thesis by (simp add: matchContentModelExact_def)
next
  case (Some c)
  then show ?thesis by (simp add: matchContentModelExact_Some)
qed

lemmas match_eval = matchContentModel_def matchContent.simps(2) matchSeq.simps matchOr.simps
  flattenSeq.simps flattenOr.simps seq_occurs_def or_occurs_def once_or_def matchElement_def
  count_run.simps rawName_def dtdName_def

text \<open>The greedy descent alone is not enough: on (a*, a) over a a it rejects a word of the
  language.  On the model that the comment of matchContentModel gives as an example of such a
  starvation, (lhs,(rhs,(com|wfc|vc)*)+) over lhs rhs com rhs vc, the greedy descent succeeds.\<close>
theorem greedy_descent_starves:
  "matchContent (Some (seq2 ElementContentOnce (leaf ''a'' ElementContentMult) (leaf ''a'' ElementContentOnce)))
     [''a'', ''a''] 0 = Some (0, False) \<and>
   [''a'', ''a''] \<in> lang (seq2 ElementContentOnce (leaf ''a'' ElementContentMult) (leaf ''a'' ElementContentOnce)) \<and>
   matchContent (Some (seq2 ElementContentOnce (leaf ''lhs'' ElementContentOnce)
       (seq2 ElementContentPlus (leaf ''rhs'' ElementContentOnce)
          (or2 ElementContentMult (leaf ''com'' ElementContentOnce)
             (or2 ElementContentOnce (leaf ''wfc'' ElementContentOnce) (leaf ''vc'' ElementContentOnce))))))
     [''lhs'', ''rhs'', ''com'', ''rhs'', ''vc''] 0 = Some (5, True)"
proof (intro conjI)
  show "matchContent (Some (seq2 ElementContentOnce (leaf ''a'' ElementContentMult) (leaf ''a'' ElementContentOnce)))
     [''a'', ''a''] 0 = Some (0, False)"
    by (simp add: match_eval)
  have "[''a''] @ [] \<in> star {[''a'']}"
    by (intro star.intros) simp
  then have "[''a''] @ [''a''] \<in> conc (star {[''a'']}) {[''a'']}"
    unfolding conc_def by blast
  then show "[''a'', ''a''] \<in> lang (seq2 ElementContentOnce (leaf ''a'' ElementContentMult) (leaf ''a'' ElementContentOnce))"
    by (simp add: lang_occurs one_def occurs_def rawName_def dtdName_def)
qed (simp add: match_eval)

text \<open>newElementContentBinary builds a sequence or choice exactly when the resulting tree
  passes validateElementContentModel, so the public constructors only produce models that the
  serializer and the matchers handle.\<close>
theorem newElementContentBinary_valid:
  assumes "ty = ElementContentSeq \<or> ty = ElementContentOr"
  shows "newElementContentBinary ty x1 x2 occur = Inr (ElementContent ty occur '''' '''' x1 x2) \<longleftrightarrow>
    validateElementContentModel (Some (ElementContent ty occur '''' '''' x1 x2)) = None"
  using assms by (cases x1; cases x2)
    (auto simp: newElementContentBinary_def validateElementContentModel.simps(2)[of "ElementContent _ _ _ _ _ _"]
      split: option.splits)

theorem newElementContentBinary_valid_witness:
  "newElementContentBinary ElementContentSeq (Some (leaf ''a'' ElementContentOnce)) None ElementContentOpt =
     Inr (ElementContent ElementContentSeq ElementContentOpt '''' '''' (Some (leaf ''a'' ElementContentOnce)) None) \<longleftrightarrow>
   validateElementContentModel
     (Some (ElementContent ElementContentSeq ElementContentOpt '''' '''' (Some (leaf ''a'' ElementContentOnce)) None)) = None"
  by (rule newElementContentBinary_valid) simp

end
