(* ===== verification/EncodingStrict.thy ===== *)
theory EncodingStrict
  imports GoLib
begin

unbundle bit_operations_syntax

text \<open>
  The strict decoders of \<open>internal/encoding\<close>: the validator of fixed-width Unicode encodings
  that runs beside a decoder of \<open>golang.org/x/text\<close> (\<open>strict.go\<close>), the byte swap of
  the two unusual UCS-4 orders (\<open>ucs4.go\<close>) and the US-ASCII decoder (\<open>ascii.go\<close>).

  A \<open>Transform\<close> call is given the capacity of its destination and returns the bytes it writes
  there (so \<open>nDst\<close> is their number), \<open>nSrc\<close> and the error.  The decoders of
  \<open>golang.org/x/text\<close> are a parameter.  The main loop of \<open>validate\<close> has fuel, one unit
  per byte of its buffer and one more, and returns \<^const>\<open>None\<close> when it runs out.
\<close>

subsection \<open>Byte orders\<close>

type_synonym byteOrder = "nat list"

definition orderBE2 :: byteOrder where "orderBE2 = [0, 1]"
definition orderLE2 :: byteOrder where "orderLE2 = [1, 0]"
definition orderBE4 :: byteOrder where "orderBE4 = [0, 1, 2, 3]"
definition orderLE4 :: byteOrder where "orderLE4 = [3, 2, 1, 0]"
definition order2143 :: byteOrder where "order2143 = [1, 0, 3, 2]"
definition order3412 :: byteOrder where "order3412 = [2, 3, 0, 1]"

lemmas orders = orderBE2_def orderLE2_def orderBE4_def orderLE4_def order2143_def order3412_def

definition scalar :: "byteOrder \<Rightarrow> string \<Rightarrow> 32 word" where
  "scalar order unit = fold (\<lambda>idx v. push_bit 8 v OR of_nat (byte (unit ! idx))) order 0"

subsection \<open>The validator\<close>

datatype terror = ErrShortSrc | ErrShortDst | ErrInvalidEncodedChar | ErrInvalidASCII | BaseError string

record strictDecoder =
  width :: nat
  order :: byteOrder
  useBOM :: bool
  bomResolved :: bool
  resolved :: byteOrder
  carry :: string

definition NewDecoder :: "nat \<Rightarrow> byteOrder \<Rightarrow> bool \<Rightarrow> strictDecoder" where
  "NewDecoder w ord bom =
     \<lparr>width = w, order = ord, useBOM = bom, bomResolved = False, resolved = [], carry = []\<rparr>"

definition Reset :: "strictDecoder \<Rightarrow> strictDecoder" where
  "Reset t = t\<lparr>bomResolved := False, resolved := [], carry := []\<rparr>"

definition resolveBOM :: "strictDecoder \<Rightarrow> string \<Rightarrow> byteOrder \<times> bool" where
  "resolveBOM t bom =
     (if width t = 2 then
        (if byte (bom ! 0) = 0xFF \<and> byte (bom ! 1) = 0xFE then (orderLE2, True)
         else if byte (bom ! 0) = 0xFE \<and> byte (bom ! 1) = 0xFF then (orderBE2, True)
         else (order t, False))
      else
        (if byte (bom ! 0) = 0xFF \<and> byte (bom ! 1) = 0xFE \<and> byte (bom ! 2) = 0x00 \<and> byte (bom ! 3) = 0x00
         then (orderLE4, True)
         else if byte (bom ! 0) = 0x00 \<and> byte (bom ! 1) = 0x00 \<and> byte (bom ! 2) = 0xFE \<and> byte (bom ! 3) = 0xFF
         then (orderBE4, True)
         else (order t, False)))"

datatype unitStatus = unitGood | unitBad | unitIncomplete

definition unitOK :: "strictDecoder \<Rightarrow> string \<Rightarrow> nat \<Rightarrow> byteOrder \<Rightarrow> nat \<times> unitStatus" where
  "unitOK t buf off ord =
     (let v = scalar ord (take (width t) (drop off buf)) in
      if width t = 4 then
        (if v = 0xFFFD then (off + 4, unitGood)
         else if v > 0x10FFFF \<or> (v \<ge> 0xD800 \<and> v \<le> 0xDFFF) then (off, unitBad)
         else (off + 4, unitGood))
      else if v \<ge> 0xD800 \<and> v \<le> 0xDBFF then
        (if off + 2 * width t > length buf then (off, unitIncomplete)
         else let lo = scalar ord (take (width t) (drop (off + width t) buf)) in
              if lo < 0xDC00 \<or> lo > 0xDFFF then (off, unitBad)
              else (off + 2 * width t, unitGood))
      else if v \<ge> 0xDC00 \<and> v \<le> 0xDFFF then (off, unitBad)
      else (off + width t, unitGood))"

fun validate_loop :: "nat \<Rightarrow> strictDecoder \<Rightarrow> string \<Rightarrow> bool \<Rightarrow> nat \<Rightarrow> byteOrder
    \<Rightarrow> (terror option \<times> strictDecoder) option" where
  "validate_loop 0 t buf atEOF off ord = None"
| "validate_loop (Suc fuel) t buf atEOF off ord =
     (if off + width t \<le> length buf then
        (case unitOK t buf off ord of
           (nxt, unitBad) \<Rightarrow> Some (Some ErrInvalidEncodedChar, t)
         | (nxt, unitIncomplete) \<Rightarrow>
             if atEOF then Some (Some ErrInvalidEncodedChar, t)
             else Some (None, t\<lparr>carry := carry t @ drop off buf\<rparr>)
         | (nxt, unitGood) \<Rightarrow> validate_loop fuel t buf atEOF nxt ord)
      else if off < length buf then
        (if atEOF then Some (Some ErrInvalidEncodedChar, t)
         else Some (None, t\<lparr>carry := carry t @ drop off buf\<rparr>))
      else Some (None, t))"

definition validate :: "strictDecoder \<Rightarrow> string \<Rightarrow> bool \<Rightarrow> (terror option \<times> strictDecoder) option" where
  "validate t src atEOF =
     (let buf = carry t @ src; t = t\<lparr>carry := []\<rparr>; fuel = length buf + 1 in
      if useBOM t then
        (if \<not> bomResolved t then
           (if length buf < width t then
              (if atEOF then Some (if length buf > 0 then Some ErrInvalidEncodedChar else None, t)
               else Some (None, t\<lparr>carry := carry t @ buf\<rparr>))
            else
              (let (res, isBOM) = resolveBOM t (take (width t) buf);
                   t = t\<lparr>resolved := res, bomResolved := True\<rparr>
               in validate_loop fuel t buf atEOF (if isBOM then width t else 0) (resolved t)))
         else validate_loop fuel t buf atEOF 0 (resolved t))
      else validate_loop fuel t buf atEOF 0 (order t))"

text \<open>\<open>Transform\<close>, around the decoder \<open>base\<close> of the wrapped encoding, whose state is
  \<open>'b\<close>; it returns the written bytes, \<open>nSrc\<close> and the error.\<close>

definition Transform ::
  "('b \<Rightarrow> nat \<Rightarrow> string \<Rightarrow> bool \<Rightarrow> (string \<times> nat \<times> terror option) \<times> 'b) \<Rightarrow> strictDecoder \<times> 'b
     \<Rightarrow> nat \<Rightarrow> string \<Rightarrow> bool \<Rightarrow> ((string \<times> nat \<times> terror option) \<times> strictDecoder \<times> 'b) option" where
  "Transform base t dst src atEOF =
     (let ((out, nSrc, err), b) = base (snd t) dst src atEOF in
      if err \<noteq> None \<and> err \<noteq> Some ErrShortSrc \<and> err \<noteq> Some ErrShortDst
      then Some ((out, nSrc, err), fst t, b)
      else case validate (fst t) (take nSrc src) atEOF of
        None \<Rightarrow> None
      | Some (Some verr, t') \<Rightarrow> Some ((out, nSrc, Some verr), t', b)
      | Some (None, t') \<Rightarrow> Some ((out, nSrc, err), t', b))"

subsection \<open>The UCS-4 swap and US-ASCII\<close>

definition swap2143 :: "string \<Rightarrow> string" where
  "swap2143 src = [src ! 1, src ! 0, src ! 3, src ! 2]"

definition swap3412 :: "string \<Rightarrow> string" where
  "swap3412 src = [src ! 2, src ! 3, src ! 0, src ! 1]"

function ucs4Transform :: "(string \<Rightarrow> string) \<Rightarrow> nat \<Rightarrow> string \<Rightarrow> bool \<Rightarrow> nat \<Rightarrow> string \<times> nat \<times> terror option" where
  "ucs4Transform swap dst src atEOF nSrc =
     (if nSrc + 4 \<le> length src then
        (if nSrc + 4 > dst then ([], nSrc, Some ErrShortDst)
         else (let (out, n, err) = ucs4Transform swap dst src atEOF (nSrc + 4)
               in (swap (drop nSrc src) @ out, n, err)))
      else if nSrc < length src then
        ([], nSrc, Some (if atEOF then ErrInvalidEncodedChar else ErrShortSrc))
      else ([], nSrc, None))"
  by pat_completeness auto
termination
  by (relation "measure (\<lambda>(swap, dst, src, atEOF, nSrc). length src - nSrc)") auto

declare ucs4Transform.simps [simp del]

function asciiTransform :: "nat \<Rightarrow> string \<Rightarrow> nat \<Rightarrow> string \<times> nat \<times> terror option" where
  "asciiTransform dst src nSrc =
     (if nSrc < length src then
        (let b = src ! nSrc in
         if byte b \<ge> 0x80 then ([], nSrc, Some ErrInvalidASCII)
         else if nSrc \<ge> dst then ([], nSrc, Some ErrShortDst)
         else (let (out, n, err) = asciiTransform dst src (nSrc + 1) in (b # out, n, err)))
      else ([], nSrc, None))"
  by pat_completeness auto
termination
  by (relation "measure (\<lambda>(dst, src, nSrc). length src - nSrc)") auto

declare asciiTransform.simps [simp del]

end
