(* ===== verification/EncodingStream.thy ===== *)
theory EncodingStream
  imports EncodingStrict
begin

text \<open>
  What the strict decoders accept.  The reference is the encoding direction: a stream is well formed
  when it is the concatenation of the UTF-16 (or UTF-32) code units of Unicode scalar values in
  the byte order at hand.  The validator accepts exactly these streams, however the stream is cut
  into \<open>Transform\<close> calls.
\<close>

subsection \<open>Reference: encoding\<close>

lemma scalar_value_alt: "scalar_value n \<longleftrightarrow> n \<le> 0x10FFFF \<and> \<not> (0xD800 \<le> n \<and> n \<le> 0xDFFF)"
  unfolding scalar_value_def by linarith

definition utf16_units :: "nat \<Rightarrow> nat list" where
  "utf16_units n = (if n < 0x10000 then [n]
     else [0xD800 + (n - 0x10000) div 1024, 0xDC00 + (n - 0x10000) mod 1024])"

text \<open>The bytes of a unit; every byte order of \<open>strict.go\<close> is its own inverse.\<close>

definition unit_bytes :: "byteOrder \<Rightarrow> nat \<Rightarrow> string" where
  "unit_bytes ord u = map (\<lambda>i. char_of (u div 256 ^ (length ord - 1 - i))) ord"

definition encode :: "byteOrder \<Rightarrow> nat \<Rightarrow> string" where
  "encode ord n = (if length ord = 4 then unit_bytes ord n else concat (map (unit_bytes ord) (utf16_units n)))"

definition encodes :: "byteOrder \<Rightarrow> nat list \<Rightarrow> string" where
  "encodes ord ns = concat (map (encode ord) ns)"

lemma encodes_simps [simp]: "encodes ord [] = []" "encodes ord (n # ns) = encode ord n @ encodes ord ns"
  by (simp_all add: encodes_def)

text \<open>The configurations \<open>Load\<close> uses.\<close>

definition known_order :: "nat \<Rightarrow> byteOrder \<Rightarrow> bool" where
  "known_order w ord \<longleftrightarrow> (w = 2 \<and> ord \<in> {orderBE2, orderLE2}) \<or>
     (w = 4 \<and> ord \<in> {orderBE4, orderLE4, order2143, order3412})"

lemma known_length: "known_order w ord \<Longrightarrow> length ord = w"
  by (auto simp: known_order_def orders)

lemma known_width: "known_order w ord \<Longrightarrow> w = 2 \<or> w = 4"
  by (auto simp: known_order_def)

subsection \<open>The scalar of a unit\<close>

lemma push_or:
  assumes "unat (v :: 32 word) < 2 ^ 24" and "b < 256"
  shows "unat (push_bit 8 v OR of_nat b) = 256 * unat v + b"
proof -
  have b: "take_bit 8 b = b" using assms(2) by (simp add: take_bit_nat_eq_self)
  then have "\<not> bit (push_bit 8 (unat v)) n \<or> \<not> bit b n" for n
    by (metis bit_push_bit_iff_nat bit_take_bit_iff not_le)
  then have "push_bit 8 (unat v) OR b = push_bit 8 (unat v) + b"
    by (simp add: disjunctive_add)
  moreover have "unat (of_nat b :: 32 word) = b"
    using assms(2) by (simp add: unat_of_nat)
  moreover have "take_bit 32 (push_bit 8 (unat v)) = push_bit 8 (unat v)"
    using assms(1) by (simp add: take_bit_nat_eq_self push_bit_eq_mult)
  then have "unat (push_bit 8 v) = push_bit 8 (unat v)"
    by (simp only: unsigned_push_bit_eq) simp
  ultimately have "unat (push_bit 8 v OR of_nat b) = push_bit 8 (unat v) + b"
    by (simp only: unsigned_or_eq)
  then show ?thesis
    by (simp only: push_bit_eq_mult) simp
qed

text \<open>The four bytes never overflow 32 bits.\<close>

definition number :: "byteOrder \<Rightarrow> string \<Rightarrow> nat" where
  "number ord u = foldl (\<lambda>v idx. 256 * v + byte (u ! idx)) 0 ord"

lemma number_less: "number ord u < 256 ^ length ord"
proof (induction ord rule: rev_induct)
  case (snoc idx ord)
  then have "256 * Suc (number ord u) \<le> 256 * 256 ^ length ord"
    by (intro mult_le_mono2) simp
  then have "256 * number ord u + 256 \<le> 256 ^ Suc (length ord)"
    by simp
  then have "256 * number ord u + byte (u ! idx) < 256 ^ Suc (length ord)"
    by (rule less_le_trans[OF add_strict_left_mono[OF byte_less]])
  then show ?case by (simp add: number_def)
qed (simp add: number_def)

lemma scalar_number: "length ord \<le> 4 \<Longrightarrow> unat (scalar ord u) = number ord u"
proof (induction ord rule: rev_induct)
  case (snoc idx ord)
  then have "unat (scalar ord u) = number ord u" by simp
  moreover have "number ord u < 2 ^ 24"
  proof -
    have "(256::nat) ^ length ord \<le> 256 ^ 3"
      using snoc.prems by (intro power_increasing) auto
    then show ?thesis using number_less[of ord u] by simp
  qed
  ultimately have "unat (push_bit 8 (scalar ord u) OR of_nat (byte (u ! idx))) = 256 * number ord u + byte (u ! idx)"
    by (subst push_or) simp_all
  then show ?case by (simp add: scalar_def number_def)
qed (simp add: scalar_def number_def)

lemma digits2: "256 * (u div 256) + u mod 256 = (u :: nat)"
  by simp

lemma digits4:
  "16777216 * (u div 16777216) + 65536 * (u div 65536 mod 256) + 256 * (u div 256 mod 256) + u mod 256 = (u :: nat)"
  using mod_mult2_eq[of u 256 256] mod_mult2_eq[of u 65536 256] mult_div_mod_eq[of 16777216 u] by simp

lemma number_inj:
  "number ord u = number ord v \<Longrightarrow> idx \<in> set ord \<Longrightarrow> u ! idx = v ! idx"
proof (induction ord rule: rev_induct)
  case (snoc i ord)
  have eq: "256 * number ord u + byte (u ! i) = 256 * number ord v + byte (v ! i)"
    using snoc.prems(1) by (simp add: number_def)
  have "number ord u = number ord v"
    using arg_cong[OF eq, of "\<lambda>x. x div 256"] by simp
  with eq snoc show ?case by auto
qed simp

lemma known_cases:
  assumes "known_order w ord"
  obtains "w = 2" "ord = orderBE2" | "w = 2" "ord = orderLE2" | "w = 4" "ord = orderBE4"
    | "w = 4" "ord = orderLE4" | "w = 4" "ord = order2143" | "w = 4" "ord = order3412"
  using assms by (auto simp: known_order_def)

lemma known_number:
  assumes "known_order w ord"
  shows "unat (scalar ord u) = number ord u"
  using known_length[OF assms] known_width[OF assms] by (intro scalar_number) auto

lemma scalar_unit_bytes:
  assumes "known_order w ord" and "u < 256 ^ w"
  shows "unat (scalar ord (unit_bytes ord u)) = u"
  unfolding known_number[OF assms(1)]
  by (rule known_cases[OF assms(1)];
      use assms(2) digits2[of u] digits4[of u] in \<open>simp add: number_def orders unit_bytes_def\<close>)

lemma unit_bytes_scalar:
  assumes "known_order w ord" and "length u = w"
  shows "unit_bytes ord (unat (scalar ord u)) = u"
proof -
  have len: "length (unit_bytes ord n) = w" for n
    using known_length[OF assms(1)] by (simp add: unit_bytes_def)
  have "number ord u < 256 ^ w"
    using number_less[of ord u] known_length[OF assms(1)] by simp
  then have "number ord (unit_bytes ord (number ord u)) = number ord u"
    using scalar_unit_bytes[OF assms(1)] by (simp add: known_number[OF assms(1)])
  then have "unit_bytes ord (number ord u) ! i = u ! i" if "i \<in> set ord" for i
    using that by (rule number_inj)
  moreover have "i \<in> set ord" if "i < w" for i
    using that by (rule_tac known_cases[OF assms(1)]) (auto simp: orders)
  ultimately show ?thesis
    unfolding known_number[OF assms(1)] using assms(2) by (intro nth_equalityI) (simp_all add: len)
qed

lemma length_unit_bytes [simp]: "length (unit_bytes ord u) = length ord"
  by (simp add: unit_bytes_def)

subsection \<open>One unit\<close>

text \<open>\<open>unitOK\<close> at the head of a buffer, and the loop of \<open>validate\<close> as a function of the bytes
  that are left: the bytes after the last complete unit, or \<^const>\<open>None\<close> on a malformed one.\<close>

definition head_unit :: "nat \<Rightarrow> byteOrder \<Rightarrow> string \<Rightarrow> nat \<times> unitStatus" where
  "head_unit w ord buf =
     (let v = unat (scalar ord (take w buf)) in
      if w = 4 then (if scalar_value v then (4, unitGood) else (0, unitBad))
      else if 0xD800 \<le> v \<and> v \<le> 0xDBFF then
        (if length buf < 2 * w then (0, unitIncomplete)
         else let lo = unat (scalar ord (take w (drop w buf))) in
              if lo < 0xDC00 \<or> lo > 0xDFFF then (0, unitBad) else (2 * w, unitGood))
      else if 0xDC00 \<le> v \<and> v \<le> 0xDFFF then (0, unitBad)
      else (w, unitGood))"

lemma word_bounds:
  "(v :: 32 word) = 0xFFFD \<longleftrightarrow> unat v = 0xFFFD" "v > 0x10FFFF \<longleftrightarrow> unat v > 0x10FFFF"
  "v \<ge> 0xD800 \<longleftrightarrow> unat v \<ge> 0xD800" "v \<le> 0xDFFF \<longleftrightarrow> unat v \<le> 0xDFFF"
  "v \<le> 0xDBFF \<longleftrightarrow> unat v \<le> 0xDBFF" "v \<ge> 0xDC00 \<longleftrightarrow> unat v \<ge> 0xDC00"
  "v < 0xDC00 \<longleftrightarrow> unat v < 0xDC00" "v > 0xDFFF \<longleftrightarrow> unat v > 0xDFFF"
  by (simp_all add: word_unat_eq_iff word_le_nat_alt word_less_nat_alt)

lemma unitOK_head:
  "off + width t \<le> length buf \<Longrightarrow>
    unitOK t buf off ord = (off + fst (head_unit (width t) ord (drop off buf)), snd (head_unit (width t) ord (drop off buf)))"
  unfolding unitOK_def head_unit_def Let_def word_bounds
  by (auto simp: scalar_value_alt add.commute[of off "width t"])

function scan :: "nat \<Rightarrow> byteOrder \<Rightarrow> string \<Rightarrow> string option" where
  "scan w ord buf =
     (if w = 0 \<or> length buf < w then Some buf
      else case head_unit w ord buf of
        (n, unitBad) \<Rightarrow> None
      | (n, unitIncomplete) \<Rightarrow> Some buf
      | (n, unitGood) \<Rightarrow> if n = 0 then None else scan w ord (drop n buf))"
  by pat_completeness auto
termination
  by (relation "measure (\<lambda>(w, ord, buf). length buf)") auto

declare scan.simps [simp del]

lemma head_unit_append:
  "w \<le> length a \<Longrightarrow> snd (head_unit w ord a) \<noteq> unitIncomplete \<Longrightarrow> head_unit w ord (a @ b) = head_unit w ord a"
  by (auto simp: head_unit_def Let_def split: if_splits)

lemma head_unit_good:
  assumes "head_unit w ord a = (n, unitGood)" and "w = 2 \<or> w = 4" and "w \<le> length a"
  shows "0 < n \<and> n \<le> length a"
  using assms by (auto simp: head_unit_def Let_def split: if_splits)

lemma scan_append:
  assumes "w = 2 \<or> w = 4"
  shows "scan w ord (a @ b) = (case scan w ord a of None \<Rightarrow> None | Some r \<Rightarrow> scan w ord (r @ b))"
proof (induction a rule: length_induct)
  case (1 a)
  show ?case
  proof (cases "length a < w")
    case True
    then show ?thesis by (simp add: scan.simps[of w ord a])
  next
    case False
    obtain n st where h: "head_unit w ord a = (n, st)" by fastforce
    show ?thesis
    proof (cases st)
      case unitGood
      then have n: "0 < n" "n \<le> length a"
        using head_unit_good[of w ord a n] h assms False by auto
      then have "scan w ord (drop n a @ b) =
          (case scan w ord (drop n a) of None \<Rightarrow> None | Some r \<Rightarrow> scan w ord (r @ b))"
        using 1[rule_format, of "drop n a"] by simp
      then show ?thesis
        using head_unit_append[of w a ord b] h unitGood False n assms
        by (auto simp: scan.simps[of w ord a] scan.simps[of w ord "a @ b"])
    next
      case unitBad
      then show ?thesis
        using head_unit_append[of w a ord b] h False assms
        by (auto simp: scan.simps[of w ord a] scan.simps[of w ord "a @ b"])
    next
      case unitIncomplete
      then show ?thesis
        using h False by (simp add: scan.simps[of w ord a])
    qed
  qed
qed

subsection \<open>Units and code points\<close>

lemma encode_length:
  "known_order w ord \<Longrightarrow> length (encode ord c) = (if w = 4 then 4 else if c < 0x10000 then 2 else 4)"
  using known_length[of w ord] known_width[of w ord] by (auto simp: encode_def utf16_units_def)

lemma head_unit_encode:
  assumes k: "known_order w ord" and c: "scalar_value c"
  shows "head_unit w ord (encode ord c @ rest) = (length (encode ord c), unitGood)"
proof (cases "w = 4")
  case True
  have "c < 256 ^ w" using c True by (simp add: scalar_value_alt)
  then have "unat (scalar ord (unit_bytes ord c)) = c"
    using k by (intro scalar_unit_bytes)
  then show ?thesis
    using True k c known_length[OF k] by (simp add: head_unit_def encode_def)
next
  case False
  then have w: "w = 2" "length ord = 2" using known_width[OF k] known_length[OF k] by auto
  have u: "unat (scalar ord (unit_bytes ord x)) = x" if "x < 65536" for x
    using scalar_unit_bytes[OF k] that w by simp
  show ?thesis
  proof (cases "c < 0x10000")
    case True
    then show ?thesis
      using w c u[of c] by (auto simp: head_unit_def encode_def utf16_units_def scalar_value_alt)
  next
    case False
    let ?h = "0xD800 + (c - 0x10000) div 1024" and ?l = "0xDC00 + (c - 0x10000) mod 1024"
    have "(c - 0x10000) div 1024 < 1024" "(c - 0x10000) mod 1024 < 1024"
      using c by (auto simp: scalar_value_alt less_mult_imp_div_less)
    then show ?thesis
      using w False u[of ?h] u[of ?l] by (auto simp: head_unit_def encode_def utf16_units_def)
  qed
qed

lemma head_unit_decode:
  assumes k: "known_order w ord" and h: "head_unit w ord buf = (n, unitGood)" and len: "w \<le> length buf"
  shows "\<exists>c. scalar_value c \<and> buf = encode ord c @ drop n buf"
proof -
  let ?u = "\<lambda>b. unat (scalar ord (take w b))"
  have unit: "unit_bytes ord (?u b) = take w b" if "w \<le> length b" for b
    using that k by (intro unit_bytes_scalar) auto
  show ?thesis
  proof (cases "w = 4")
    case True
    then have "n = 4" "scalar_value (?u buf)"
      using h by (auto simp: head_unit_def Let_def split: if_splits)
    then show ?thesis
      using unit[OF len] True known_length[OF k]
      by (intro exI[of _ "?u buf"]) (simp add: encode_def)
  next
    case False
    then have w: "w = 2" "length ord = 2" using known_width[OF k] known_length[OF k] by auto
    have small: "?u b < 65536" if "length b \<ge> w" for b
      using number_less[of ord "take w b"] w by (simp add: known_number[OF k])
    show ?thesis
    proof (cases "0xD800 \<le> ?u buf \<and> ?u buf \<le> 0xDBFF")
      case False
      then have "n = 2" "scalar_value (?u buf)"
        using h w small[OF len] by (auto simp: head_unit_def Let_def scalar_value_alt split: if_splits)
      then show ?thesis
        using unit[OF len] w small[OF len]
        by (intro exI[of _ "?u buf"]) (simp add: encode_def utf16_units_def)
    next
      case True
      let ?h = "?u buf" and ?l = "?u (drop w buf)"
      have n: "n = 4" "4 \<le> length buf" "0xDC00 \<le> ?l" "?l \<le> 0xDFFF"
        using h w True by (auto simp: head_unit_def Let_def split: if_splits)
      obtain x where x: "?h = 0xD800 + x" "x < 1024"
        using True le_Suc_ex[of "0xD800" ?h] by auto
      obtain y where y: "?l = 0xDC00 + y" "y < 1024"
        using n(3,4) le_Suc_ex[of "0xDC00" ?l] by auto
      define c where "c = 0x10000 + (1024 * x + y)"
      have "utf16_units c = [?h, ?l]"
        using x y by (simp add: utf16_units_def c_def)
      moreover have "scalar_value c"
        using x(2) y(2) by (auto simp: scalar_value_alt c_def)
      moreover have "buf = take 2 buf @ take 2 (drop 2 buf) @ drop 4 buf"
        by (metis add_2_eq_Suc' append_take_drop_id drop_drop numeral_Bit0 numeral_code(1) one_add_one)
      ultimately show ?thesis
        using n unit[of buf] unit[of "drop w buf"] w
        by (intro exI[of _ c]) (simp add: encode_def)
    qed
  qed
qed

subsection \<open>Streams\<close>

lemma scan_encodes:
  assumes k: "known_order w ord"
  shows "scan w ord buf = Some [] \<longleftrightarrow> (\<exists>ns. (\<forall>n\<in>set ns. scalar_value n) \<and> buf = encodes ord ns)"
proof
  show "scan w ord buf = Some [] \<Longrightarrow> \<exists>ns. (\<forall>n\<in>set ns. scalar_value n) \<and> buf = encodes ord ns"
  proof (induction buf rule: length_induct)
    case (1 buf)
    show ?case
    proof (cases "length buf < w")
      case True
      then show ?thesis
        using 1(2) by (intro exI[of _ "[]"]) (simp add: scan.simps)
    next
      case False
      then obtain n where h: "head_unit w ord buf = (n, unitGood)" and s: "scan w ord (drop n buf) = Some []"
        using 1(2) known_width[OF k]
        by (subst (asm) scan.simps) (auto split: prod.splits unitStatus.splits if_splits)
      have n: "0 < n" "n \<le> length buf"
        using head_unit_good[OF h known_width[OF k]] False by auto
      obtain c where c: "scalar_value c" "buf = encode ord c @ drop n buf"
        using head_unit_decode[OF k h] False by auto
      obtain ns where ns: "\<forall>n\<in>set ns. scalar_value n" "drop n buf = encodes ord ns"
      proof -
        have "length (drop n buf) < length buf" using n by simp
        then show ?thesis using 1(1) s that by blast
      qed
      have "buf = encodes ord (c # ns)"
        using c(2) ns(2) by simp
      then show ?thesis
        using c(1) ns(1) by (intro exI[of _ "c # ns"]) simp
    qed
  qed
next
  have "\<forall>n\<in>set ns. scalar_value n \<Longrightarrow> scan w ord (encodes ord ns) = Some []" for ns
  proof (induction ns)
    case Nil
    then show ?case using known_width[OF k] by (auto simp: scan.simps)
  next
    case (Cons c ns)
    then show ?case
      using head_unit_encode[OF k, of c "encodes ord ns"] encode_length[OF k, of c] known_width[OF k]
      by (subst scan.simps) auto
  qed
  then show "\<exists>ns. (\<forall>n\<in>set ns. scalar_value n) \<and> buf = encodes ord ns \<Longrightarrow> scan w ord buf = Some []"
    by blast
qed

lemma validate_loop_scan:
  assumes "width t = 2 \<or> width t = 4" and "carry t = []"
  shows "length buf < fuel + off \<Longrightarrow> off \<le> length buf \<Longrightarrow>
    validate_loop fuel t buf atEOF off ord =
      Some (case scan (width t) ord (drop off buf) of
              None \<Rightarrow> (Some ErrInvalidEncodedChar, t)
            | Some r \<Rightarrow> if atEOF \<and> r \<noteq> [] then (Some ErrInvalidEncodedChar, t) else (None, t\<lparr>carry := r\<rparr>))"
proof (induction fuel arbitrary: off)
  case 0
  then show ?case by simp
next
  case (Suc fuel)
  have t: "t\<lparr>carry := []\<rparr> = t" using assms(2) by simp
  show ?case
  proof (cases "off + width t \<le> length buf")
    case False
    then show ?thesis
      using t assms(2) by (auto simp: scan.simps[of "width t" ord "drop off buf"])
  next
    case True
    obtain n st where h: "head_unit (width t) ord (drop off buf) = (n, st)" by fastforce
    then have u: "unitOK t buf off ord = (off + n, st)"
      using unitOK_head[OF True] by simp
    show ?thesis
    proof (cases st)
      case unitGood
      then have n: "0 < n \<and> n \<le> length (drop off buf)"
        using head_unit_good[of "width t" ord "drop off buf" n] h assms(1) True by simp
      have sc: "scan (width t) ord (drop off buf) = scan (width t) ord (drop (off + n) buf)"
      proof -
        have "scan (width t) ord (drop off buf) = scan (width t) ord (drop n (drop off buf))"
          using h unitGood n True assms(1) by (subst scan.simps) auto
        then show ?thesis by (simp add: add.commute)
      qed
      have "validate_loop (Suc fuel) t buf atEOF off ord = validate_loop fuel t buf atEOF (off + n) ord"
        using True u unitGood by simp
      also have "\<dots> = Some (case scan (width t) ord (drop (off + n) buf) of
              None \<Rightarrow> (Some ErrInvalidEncodedChar, t)
            | Some r \<Rightarrow> if atEOF \<and> r \<noteq> [] then (Some ErrInvalidEncodedChar, t) else (None, t\<lparr>carry := r\<rparr>))"
        by (rule Suc.IH) (use Suc.prems n in auto)
      finally show ?thesis
        by (simp only: sc)
    next
      case unitBad
      then show ?thesis
        using True u h assms(1) by (auto simp: scan.simps[of "width t" ord "drop off buf"])
    next
      case unitIncomplete
      then show ?thesis
        using True u h assms by (auto simp: scan.simps[of "width t" ord "drop off buf"])
    qed
  qed
qed

text \<open>The \<open>validate\<close> calls of a run over the chunks of a stream, the last one at the end of the
  input; a run stops at the first error.\<close>

fun feed :: "strictDecoder \<Rightarrow> string list \<Rightarrow> string \<Rightarrow> terror option option" where
  "feed t [] final = map_option fst (validate t final True)"
| "feed t (c # cs) final =
     (case validate t c False of
        None \<Rightarrow> None
      | Some (Some e, t') \<Rightarrow> Some (Some e)
      | Some (None, t') \<Rightarrow> feed t' cs final)"

text \<open>The order a stream is read in and its bytes after the byte order mark.\<close>

definition after_bom :: "nat \<Rightarrow> byteOrder \<Rightarrow> bool \<Rightarrow> string \<Rightarrow> byteOrder \<times> string" where
  "after_bom w ord bom s =
     (let le = (if w = 2 then [CHR 0xFF, CHR 0xFE] else [CHR 0xFF, CHR 0xFE, CHR 0x00, CHR 0x00]);
          be = (if w = 2 then [CHR 0xFE, CHR 0xFF] else [CHR 0x00, CHR 0x00, CHR 0xFE, CHR 0xFF]);
          dflt = (ord, s)
      in if \<not> bom then dflt
         else if has_prefix s le then (if w = 2 then orderLE2 else orderLE4, drop w s)
         else if has_prefix s be then (if w = 2 then orderBE2 else orderBE4, drop w s)
         else dflt)"

definition verdict :: "nat \<Rightarrow> byteOrder \<Rightarrow> string \<Rightarrow> terror option option" where
  "verdict w ord s = Some (if scan w ord s = Some [] then None else Some ErrInvalidEncodedChar)"

text \<open>The order of a decoder that has passed the byte order mark.\<close>

definition settled :: "strictDecoder \<Rightarrow> bool" where
  "settled t \<longleftrightarrow> (useBOM t \<longrightarrow> bomResolved t)"

definition current :: "strictDecoder \<Rightarrow> byteOrder" where
  "current t = (if useBOM t then resolved t else order t)"

lemma validate_settled:
  assumes "width t = 2 \<or> width t = 4" and "settled t"
  shows "validate t src atEOF =
    Some (case scan (width t) (current t) (carry t @ src) of
            None \<Rightarrow> (Some ErrInvalidEncodedChar, t\<lparr>carry := []\<rparr>)
          | Some r \<Rightarrow> if atEOF \<and> r \<noteq> [] then (Some ErrInvalidEncodedChar, t\<lparr>carry := []\<rparr>)
                      else (None, t\<lparr>carry := r\<rparr>))"
  using assms validate_loop_scan[of "t\<lparr>carry := []\<rparr>" "carry t @ src" "length (carry t @ src) + 1" 0]
  by (auto simp: validate_def Let_def settled_def current_def simp del: validate_loop.simps split: option.split)

lemma scan_Some_append:
  assumes "w = 2 \<or> w = 4" and "scan w ord a = Some r"
  shows "scan w ord (r @ b) = scan w ord (a @ b)"
  using scan_append[OF assms(1), of ord a b] assms(2) by simp

lemma scan_None_append:
  assumes "w = 2 \<or> w = 4" and "scan w ord a = None"
  shows "scan w ord (a @ b) = None"
  using scan_append[OF assms(1), of ord a b] assms(2) by simp

lemma feed_settled:
  assumes "width t = 2 \<or> width t = 4" and "settled t"
  shows "feed t chunks final = verdict (width t) (current t) (carry t @ concat chunks @ final)"
  using assms
proof (induction chunks arbitrary: t)
  case Nil
  then show ?case
    by (auto simp: validate_settled verdict_def split: option.split)
next
  case (Cons c chunks)
  show ?case
  proof (cases "scan (width t) (current t) (carry t @ c)")
    case None
    then show ?thesis
      using Cons.prems scan_None_append[OF Cons.prems(1) None, of "concat chunks @ final"]
      by (simp add: validate_settled verdict_def)
  next
    case (Some r)
    have "feed (t\<lparr>carry := r\<rparr>) chunks final = verdict (width t) (current t) (r @ concat chunks @ final)"
      using Cons.IH[of "t\<lparr>carry := r\<rparr>"] Cons.prems by (simp add: settled_def current_def)
    then show ?thesis
      using Cons.prems Some scan_Some_append[OF Cons.prems(1) Some, of "concat chunks @ final"]
      by (simp add: validate_settled verdict_def)
  qed
qed

lemma after_bom_resolve:
  assumes w: "width t = 2 \<or> width t = 4" and "width t \<le> length buf" and "resolveBOM t (take (width t) buf) = (res, isBOM)"
  shows "after_bom (width t) (order t) True (buf @ x) = (res, drop (if isBOM then width t else 0) buf @ x)"
proof -
  have byte: "byte c = 0xFF \<longleftrightarrow> c = CHR 0xFF" "byte c = 0xFE \<longleftrightarrow> c = CHR 0xFE" "byte c = 0 \<longleftrightarrow> c = CHR 0x00" for c
    by (simp_all flip: byte_inject)
  from w show ?thesis
  proof
    assume w: "width t = 2"
    then obtain a b r where "buf = a # b # r"
      using assms(2) by (cases buf; cases "tl buf") auto
    then show ?thesis
      using assms(3) w by (auto simp: resolveBOM_def after_bom_def byte split: if_splits)
  next
    assume w: "width t = 4"
    then obtain a b c d r where "buf = a # b # c # d # r"
      using assms(2) by (auto simp: numeral_eq_Suc Suc_le_length_iff)
    then show ?thesis
      using assms(3) w by (auto simp: resolveBOM_def after_bom_def byte split: if_splits)
  qed
qed

lemma has_prefix_length: "has_prefix s p \<Longrightarrow> length p \<le> length s"
  by (auto simp: has_prefix_iff)

lemma after_bom_short:
  assumes "w = 2 \<or> w = 4" and "length s < w"
  shows "after_bom w ord bom s = (ord, s)"
  using assms by (auto simp: after_bom_def Let_def dest!: has_prefix_length)

text \<open>The first \<open>validate\<close> call with a full unit settles the order.\<close>

lemma validate_resolves:
  assumes "width t = 2 \<or> width t = 4" and "useBOM t" and "\<not> bomResolved t"
    and "width t \<le> length (carry t @ src)"
    and "resolveBOM t (take (width t) (carry t @ src)) = (res, isBOM)"
  shows "validate t src atEOF =
    Some (case scan (width t) res (drop (if isBOM then width t else 0) (carry t @ src)) of
            None \<Rightarrow> (Some ErrInvalidEncodedChar, t\<lparr>carry := [], resolved := res, bomResolved := True\<rparr>)
          | Some r \<Rightarrow> if atEOF \<and> r \<noteq> []
                      then (Some ErrInvalidEncodedChar, t\<lparr>carry := [], resolved := res, bomResolved := True\<rparr>)
                      else (None, t\<lparr>carry := r, resolved := res, bomResolved := True\<rparr>))"
proof -
  let ?buf = "carry t @ src" and ?t = "t\<lparr>carry := [], resolved := res, bomResolved := True\<rparr>"
  let ?off = "if isBOM then width t else 0"
  have "resolveBOM (t\<lparr>carry := []\<rparr>) u = resolveBOM t u" for u
    by (simp add: resolveBOM_def)
  then have "validate t src atEOF = validate_loop (length ?buf + 1) ?t ?buf atEOF ?off res"
    using assms(2-5) by (simp add: validate_def Let_def del: validate_loop.simps)
  also have "\<dots> = Some (case scan (width ?t) res (drop ?off ?buf) of
              None \<Rightarrow> (Some ErrInvalidEncodedChar, ?t)
            | Some r \<Rightarrow> if atEOF \<and> r \<noteq> [] then (Some ErrInvalidEncodedChar, ?t) else (None, ?t\<lparr>carry := r\<rparr>))"
    using assms(1,4) by (intro validate_loop_scan) auto
  finally show ?thesis by (auto split: option.split)
qed

lemma validate_waits:
  assumes "useBOM t" and "\<not> bomResolved t" and "length (carry t @ src) < width t"
  shows "validate t src atEOF =
    Some (if atEOF then (if carry t @ src = [] then None else Some ErrInvalidEncodedChar, t\<lparr>carry := []\<rparr>)
          else (None, t\<lparr>carry := carry t @ src\<rparr>))"
  using assms by (auto simp: validate_def Let_def)

lemma feed_unsettled:
  assumes "width t = 2 \<or> width t = 4" and "useBOM t" and "\<not> bomResolved t" and "length (carry t) < width t"
  shows "feed t chunks final = (case after_bom (width t) (order t) True (carry t @ concat chunks @ final) of
     (ord, rest) \<Rightarrow> verdict (width t) ord rest)"
  using assms
proof (induction chunks arbitrary: t)
  case Nil
  show ?case
  proof (cases "length (carry t @ final) < width t")
    case True
    then show ?thesis
      using Nil after_bom_short[OF Nil(1) True]
      by (auto simp: validate_waits[OF Nil(2,3) True] verdict_def scan.simps)
  next
    case False
    obtain res isBOM where r: "resolveBOM t (take (width t) (carry t @ final)) = (res, isBOM)"
      by fastforce
    show ?thesis
      using validate_resolves[OF Nil(1-3) _ r] after_bom_resolve[OF Nil(1) _ r, of "[]"] False
      by (auto simp: verdict_def split: option.split)
  qed
next
  case (Cons c chunks)
  show ?case
  proof (cases "length (carry t @ c) < width t")
    case True
    then show ?thesis
      using Cons.IH[of "t\<lparr>carry := carry t @ c\<rparr>"] Cons.prems
      by (simp add: validate_waits[OF Cons.prems(2,3) True])
  next
    case False
    obtain res isBOM where r: "resolveBOM t (take (width t) (carry t @ c)) = (res, isBOM)"
      by fastforce
    let ?t = "\<lambda>x. t\<lparr>carry := x, resolved := res, bomResolved := True\<rparr>"
    let ?seen = "drop (if isBOM then width t else 0) (carry t @ c)"
    have v: "validate t c False = Some (case scan (width t) res ?seen of
        None \<Rightarrow> (Some ErrInvalidEncodedChar, ?t []) | Some r \<Rightarrow> (None, ?t r))"
      using validate_resolves[OF Cons.prems(1-3) _ r, of False] False by (simp cong: option.case_cong)
    have b: "after_bom (width t) (order t) True ((carry t @ c) @ concat chunks @ final) =
        (res, ?seen @ concat chunks @ final)"
      using after_bom_resolve[OF Cons.prems(1) _ r] False by simp
    show ?thesis
    proof (cases "scan (width t) res ?seen")
      case None
      then show ?thesis
        using v b scan_None_append[OF Cons.prems(1) None, of "concat chunks @ final"]
        by (simp add: verdict_def)
    next
      case (Some x)
      have "feed (?t x) chunks final = verdict (width t) res (x @ concat chunks @ final)"
        using feed_settled[of "?t x"] Cons.prems(1,2) by (simp add: settled_def current_def)
      then show ?thesis
        using v b Some scan_Some_append[OF Cons.prems(1) Some, of "concat chunks @ final"]
        by (simp add: verdict_def)
    qed
  qed
qed

lemma after_bom_known:
  "known_order w ord \<Longrightarrow> after_bom w ord bom s = (ord', rest) \<Longrightarrow> known_order w ord'"
  by (auto simp: after_bom_def Let_def known_order_def split: if_splits)

text \<open>C23: A strict decoder accepts a byte stream exactly when, after an optional byte order mark, it
  is the UTF-16 (UTF-32) encoding of a sequence of Unicode scalar values in the selected byte order;
  otherwise it reports ErrInvalidEncodedChar.  The verdict does not depend on how the stream is cut
  into chunks, which may split units, surrogate pairs and the mark itself.\<close>
theorem strict_decoder_exact:
  assumes "known_order w ord"
  shows "feed (NewDecoder w ord bom) chunks final =
    Some (case after_bom w ord bom (concat chunks @ final) of (ord', rest) \<Rightarrow>
      if \<exists>ns. (\<forall>n\<in>set ns. scalar_value n) \<and> rest = encodes ord' ns then None else Some ErrInvalidEncodedChar)"
proof -
  have "feed (NewDecoder w ord bom) chunks final = (case after_bom w ord bom (concat chunks @ final) of
      (ord', rest) \<Rightarrow> verdict w ord' rest)"
  proof (cases bom)
    case True
    then show ?thesis
      using feed_unsettled[of "NewDecoder w ord bom"] known_width[OF assms] by (auto simp: NewDecoder_def)
  next
    case False
    then show ?thesis
      using feed_settled[of "NewDecoder w ord bom"] known_width[OF assms]
      by (simp add: NewDecoder_def settled_def current_def after_bom_def)
  qed
  then show ?thesis
    using after_bom_known[OF assms] by (simp add: verdict_def scan_encodes split: prod.split)
qed

theorem strict_decoder_exact_witness:
  "feed (NewDecoder 2 orderLE2 True) [[CHR 0xFE], [CHR 0xFF, CHR 0xD8]] [CHR 0x3D, CHR 0xDE, CHR 0x00] =
    Some (case after_bom 2 orderLE2 True (concat [[CHR 0xFE], [CHR 0xFF, CHR 0xD8]] @ [CHR 0x3D, CHR 0xDE, CHR 0x00]) of
      (ord', rest) \<Rightarrow> if \<exists>ns. (\<forall>n\<in>set ns. scalar_value n) \<and> rest = encodes ord' ns then None
        else Some ErrInvalidEncodedChar)"
  by (rule strict_decoder_exact) (simp add: known_order_def)

subsection \<open>The byte swap and US-ASCII\<close>

lemma swap_units:
  "swap2143 (unit_bytes order2143 u @ r) = unit_bytes orderBE4 u"
  "swap3412 (unit_bytes order3412 u @ r) = unit_bytes orderBE4 u"
  by (simp_all add: swap2143_def swap3412_def unit_bytes_def orders)

lemma ucs4Transform_units:
  assumes swap: "\<And>u r. swap (unit_bytes ord u @ r) = unit_bytes orderBE4 u" and ord: "length ord = 4"
  shows "nSrc = length pre \<Longrightarrow> src = pre @ encodes ord ns \<Longrightarrow> length src \<le> dst \<Longrightarrow>
    ucs4Transform swap dst src atEOF nSrc = (encodes orderBE4 ns, length src, None)"
proof (induction ns arbitrary: pre nSrc)
  case Nil
  then show ?case by (simp add: ucs4Transform.simps)
next
  case (Cons n ns)
  have len: "length (encode ord n) = 4" using ord by (simp add: encode_def)
  have "ucs4Transform swap dst src atEOF (nSrc + 4) = (encodes orderBE4 ns, length src, None)"
    using Cons.IH[of "nSrc + 4" "pre @ encode ord n"] Cons.prems len by simp
  moreover have "swap (drop nSrc src) = encode orderBE4 n"
    using swap[of n "encodes ord ns"] Cons.prems ord by (simp add: encode_def orderBE4_def)
  moreover have "nSrc + 4 \<le> length src"
    using Cons.prems len by simp
  ultimately show ?case
    using Cons.prems(3) by (subst ucs4Transform.simps) simp
qed

text \<open>The two swap transformers turn a stream in UCS-4 order 2143 (3412) into the big-endian
  stream of the same code points, given room for it, and each swap undoes itself.\<close>
theorem ucs4_swap:
  assumes "length (encodes order2143 ns) \<le> dst" and "length (encodes order3412 ns) \<le> dst"
    and "length unit = 4"
  shows "ucs4Transform swap2143 dst (encodes order2143 ns) atEOF 0 = (encodes orderBE4 ns, length (encodes order2143 ns), None)
    \<and> ucs4Transform swap3412 dst (encodes order3412 ns) atEOF 0 = (encodes orderBE4 ns, length (encodes order3412 ns), None)
    \<and> swap2143 (swap2143 unit) = unit \<and> swap3412 (swap3412 unit) = unit"
proof -
  obtain a b c d where "unit = [a, b, c, d]"
    using assms(3) by (auto simp: numeral_eq_Suc length_Suc_conv)
  then have "swap2143 (swap2143 unit) = unit \<and> swap3412 (swap3412 unit) = unit"
    by (simp add: swap2143_def swap3412_def)
  moreover have "ucs4Transform swap2143 dst (encodes order2143 ns) atEOF 0 =
      (encodes orderBE4 ns, length (encodes order2143 ns), None)"
    by (rule ucs4Transform_units[OF swap_units(1), where pre = "[]"]) (use assms(1) in \<open>simp_all add: orders\<close>)
  moreover have "ucs4Transform swap3412 dst (encodes order3412 ns) atEOF 0 =
      (encodes orderBE4 ns, length (encodes order3412 ns), None)"
    by (rule ucs4Transform_units[OF swap_units(2), where pre = "[]"]) (use assms(2) in \<open>simp_all add: orders\<close>)
  ultimately show ?thesis by simp
qed

theorem ucs4_swap_witness:
  "ucs4Transform swap2143 8 (encodes order2143 [0x41, 0x1F63D]) True 0 =
     (encodes orderBE4 [0x41, 0x1F63D], length (encodes order2143 [0x41, 0x1F63D]), None)"
  using ucs4_swap[of "[0x41, 0x1F63D]" 8 "''abcd''" True]
  by (simp add: encode_def unit_bytes_def orders)

text \<open>The US-ASCII decoder copies a prefix of its input, all of it 7-bit, within its capacity.
  It reports ErrInvalidASCII exactly at a byte above 0x7F, ErrShortDst exactly when a 7-bit byte has
  no room left, and no error exactly when it has copied everything.\<close>
theorem asciiTransform_copies:
  assumes "asciiTransform dst src 0 = (out, nSrc, err)"
  shows "out = take nSrc src \<and> nSrc \<le> length src \<and> (\<forall>c\<in>set out. byte c < 0x80)
    \<and> (err = None \<longleftrightarrow> nSrc = length src)
    \<and> (err = Some ErrInvalidASCII \<longleftrightarrow> nSrc < length src \<and> byte (src ! nSrc) \<ge> 0x80)
    \<and> (err = Some ErrShortDst \<longleftrightarrow> nSrc < length src \<and> byte (src ! nSrc) < 0x80 \<and> nSrc \<ge> dst)
    \<and> length out \<le> dst"
proof -
  have "asciiTransform dst src i = (out, nSrc, err) \<Longrightarrow> i \<le> length src \<Longrightarrow> i \<le> dst \<Longrightarrow>
    i \<le> nSrc \<and> nSrc \<le> dst \<and> out = take (nSrc - i) (drop i src) \<and> nSrc \<le> length src \<and> (\<forall>c\<in>set out. byte c < 0x80)
    \<and> (err = None \<longleftrightarrow> nSrc = length src)
    \<and> (err = Some ErrInvalidASCII \<longleftrightarrow> nSrc < length src \<and> byte (src ! nSrc) \<ge> 0x80)
    \<and> (err = Some ErrShortDst \<longleftrightarrow> nSrc < length src \<and> byte (src ! nSrc) < 0x80 \<and> nSrc \<ge> dst)" for i
  proof (induction dst src i arbitrary: out rule: asciiTransform.induct)
    case (1 dst src i)
    show ?case
    proof (cases "i < length src \<and> byte (src ! i) < 0x80 \<and> i < dst")
      case True
      then obtain out' where o: "asciiTransform dst src (i + 1) = (out', nSrc, err)" "out = src ! i # out'"
        using "1.prems"(1) by (subst (asm) asciiTransform.simps) (auto split: prod.splits)
      have ih: "i + 1 \<le> nSrc \<and> nSrc \<le> dst \<and> out' = take (nSrc - (i + 1)) (drop (i + 1) src) \<and> nSrc \<le> length src
        \<and> (\<forall>c\<in>set out'. byte c < 0x80) \<and> (err = None \<longleftrightarrow> nSrc = length src)
        \<and> (err = Some ErrInvalidASCII \<longleftrightarrow> nSrc < length src \<and> byte (src ! nSrc) \<ge> 0x80)
        \<and> (err = Some ErrShortDst \<longleftrightarrow> nSrc < length src \<and> byte (src ! nSrc) < 0x80 \<and> nSrc \<ge> dst)"
        by (rule "1.IH"[OF _ refl _ _ o(1)]) (use True in auto)
      have "nSrc - i = Suc (nSrc - (i + 1))" using conjunct1[OF ih] by linarith
      moreover have "drop i src = src ! i # drop (i + 1) src"
        using True Cons_nth_drop_Suc[of i src] by simp
      ultimately have "out = take (nSrc - i) (drop i src)"
        using o(2) ih by (simp only: take_Suc_Cons)
      moreover have "\<forall>c\<in>set out. byte c < 0x80"
        using o(2) ih True by simp
      moreover have "i \<le> nSrc"
        using conjunct1[OF ih] by linarith
      ultimately show ?thesis
        using ih by blast
    next
      case False
      then show ?thesis
        using "1.prems" by (auto simp: asciiTransform.simps[of dst src i] Let_def split: if_splits)
    qed
  qed
  from this[of 0] assms show ?thesis by auto
qed

theorem asciiTransform_copies_witness:
  "asciiTransform 5 [CHR 0x41, CHR 0x80] 0 = ([CHR 0x41], 1, Some ErrInvalidASCII) \<and> length [CHR 0x41] \<le> (5::nat)"
proof -
  have e: "asciiTransform 5 [CHR 0x41, CHR 0x80] 0 = ([CHR 0x41], 1, Some ErrInvalidASCII)"
    by (subst asciiTransform.simps, simp, subst asciiTransform.simps, simp)
  from asciiTransform_copies[OF e] e show ?thesis by simp
qed

end
