(* ===== verification/NameClass.thy ===== *)
theory NameClass
  imports GoLib
begin

text \<open>
  RELAX NG name classes (\<open>relaxng/grammar.go\<close>): when a name class matches a name, and the
  compile-time analysis that decides whether two attribute name classes may match the same name.
  A \<open>*nameClass\<close> is an option, \<^const>\<open>None\<close> for \<open>nil\<close>.
\<close>

subsection \<open>Name classes\<close>

datatype nameClassKind = ncName | ncAnyName | ncNsName | ncChoice | ncNoMatch

datatype nameClass = NameClass (nckind: nameClassKind) (ncname: string) (ncns: string)
  (left: "nameClass option") (right: "nameClass option") (except: "nameClass option")

definition ncsize :: "nameClass option \<Rightarrow> nat" where
  "ncsize c = (case c of None \<Rightarrow> 0 | Some x \<Rightarrow> size x)"

lemma ncsize_simps [simp]: "ncsize None = 0" "ncsize (Some x) = size x"
  by (simp_all add: ncsize_def)

lemma ncsize_child [simp]: "ncsize (left c) < size c" "ncsize (right c) < size c" "ncsize (except c) < size c"
  by (cases c; cases "left c"; cases "right c"; cases "except c"; simp)+

lemma ncsize_child_less [simp]:
  "Some x = left c \<Longrightarrow> size x < size c" "Some x = right c \<Longrightarrow> size x < size c"
  "Some x = except c \<Longrightarrow> size x < size c"
  using ncsize_child[of c] by (metis ncsize_simps(2))+

function nameClassMatches :: "nameClass option \<Rightarrow> string \<Rightarrow> string \<Rightarrow> bool" where
  "nameClassMatches None loc ns = False"
| "nameClassMatches (Some nc) loc ns =
     (case nckind nc of
        ncName \<Rightarrow> ncname nc = loc \<and> ncns nc = ns
      | ncAnyName \<Rightarrow> if except nc \<noteq> None \<and> nameClassMatches (except nc) loc ns then False else True
      | ncNsName \<Rightarrow> if ns \<noteq> ncns nc then False
          else if except nc \<noteq> None \<and> nameClassMatches (except nc) loc ns then False else True
      | ncChoice \<Rightarrow> nameClassMatches (left nc) loc ns \<or> nameClassMatches (right nc) loc ns
      | ncNoMatch \<Rightarrow> False)"
  by pat_completeness auto
termination
  by (relation "measure (\<lambda>(c, loc, ns). ncsize c)") auto

declare nameClassMatches.simps(2) [simp del]

subsection \<open>Containment\<close>

function nameClassCoversAll :: "nameClass option \<Rightarrow> bool" where
  "nameClassCoversAll None = False"
| "nameClassCoversAll (Some outer) =
     (case nckind outer of
        ncAnyName \<Rightarrow> except outer = None
      | ncChoice \<Rightarrow> nameClassCoversAll (left outer) \<or> nameClassCoversAll (right outer)
      | _ \<Rightarrow> False)"
  by pat_completeness auto
termination
  by (relation "measure ncsize") auto

declare nameClassCoversAll.simps(2) [simp del]

function flattenChoiceBranches :: "nameClass option \<Rightarrow> nameClass list" where
  "flattenChoiceBranches None = []"
| "flattenChoiceBranches (Some nc) =
     (if nckind nc \<noteq> ncChoice then [nc]
      else flattenChoiceBranches (left nc) @ flattenChoiceBranches (right nc))"
  by pat_completeness auto
termination
  by (relation "measure ncsize") auto

declare flattenChoiceBranches.simps(2) [simp del]

text \<open>A \<open>ncQName\<close> is the pair of its name and namespace.\<close>

function collectFiniteNames :: "nameClass option \<Rightarrow> (string \<times> string) list option" where
  "collectFiniteNames None = Some []"
| "collectFiniteNames (Some nc) =
     (case nckind nc of
        ncName \<Rightarrow> Some [(ncname nc, ncns nc)]
      | ncChoice \<Rightarrow>
          (case collectFiniteNames (left nc) of
             None \<Rightarrow> None
           | Some l \<Rightarrow> (case collectFiniteNames (right nc) of None \<Rightarrow> None | Some r \<Rightarrow> Some (l @ r)))
      | _ \<Rightarrow> None)"
  by pat_completeness auto
termination
  by (relation "measure ncsize") auto

declare collectFiniteNames.simps(2) [simp del]

text \<open>The loops of \<open>choiceCoversNSByUnion\<close>, over the gap of one branch and over the branches.\<close>

fun gap_covered :: "nameClass option \<Rightarrow> string \<Rightarrow> nameClass option \<Rightarrow> (string \<times> string) list \<Rightarrow> bool" where
  "gap_covered choice ns innerExcept [] = True"
| "gap_covered choice ns innerExcept ((nname, nns) # gap) =
     (if nns \<noteq> ns then gap_covered choice ns innerExcept gap
      else if innerExcept \<noteq> None \<and> nameClassMatches innerExcept nname nns
      then gap_covered choice ns innerExcept gap
      else if \<not> nameClassMatches choice nname nns then False
      else gap_covered choice ns innerExcept gap)"

fun union_loop :: "nameClass option \<Rightarrow> string \<Rightarrow> nameClass option \<Rightarrow> nameClass list \<Rightarrow> bool" where
  "union_loop choice ns innerExcept [] = False"
| "union_loop choice ns innerExcept (branch # branches) =
     (if nckind branch \<noteq> ncNsName \<or> ncns branch \<noteq> ns then union_loop choice ns innerExcept branches
      else if except branch = None then True
      else case collectFiniteNames (except branch) of
        None \<Rightarrow> union_loop choice ns innerExcept branches
      | Some gap \<Rightarrow> if gap_covered choice ns innerExcept gap then True
                    else union_loop choice ns innerExcept branches)"

definition choiceCoversNSByUnion :: "nameClass option \<Rightarrow> string \<Rightarrow> nameClass option \<Rightarrow> bool" where
  "choiceCoversNSByUnion choice ns innerExcept =
     union_loop choice ns innerExcept (flattenChoiceBranches choice)"

function nameClassCoversNSExcept :: "nameClass option \<Rightarrow> string \<Rightarrow> nameClass option \<Rightarrow> bool"
  and nameClassCoversWithinNS :: "nameClass option \<Rightarrow> nameClass option \<Rightarrow> string \<Rightarrow> bool" where
  "nameClassCoversNSExcept None ns innerExcept = False"
| "nameClassCoversNSExcept (Some outer) ns innerExcept =
     (case nckind outer of
        ncAnyName \<Rightarrow> if except outer = None then True
          else nameClassCoversWithinNS innerExcept (except outer) ns
      | ncNsName \<Rightarrow> if ncns outer \<noteq> ns then False else if except outer = None then True
          else nameClassCoversWithinNS innerExcept (except outer) ns
      | ncChoice \<Rightarrow>
          if nameClassCoversNSExcept (left outer) ns innerExcept \<or>
             nameClassCoversNSExcept (right outer) ns innerExcept then True
          else choiceCoversNSByUnion (Some outer) ns innerExcept
      | _ \<Rightarrow> False)"
| "nameClassCoversWithinNS cover None ns = True"
| "nameClassCoversWithinNS cover (Some sub) ns =
     (case nckind sub of
        ncChoice \<Rightarrow> nameClassCoversWithinNS cover (left sub) ns \<and> nameClassCoversWithinNS cover (right sub) ns
      | ncName \<Rightarrow> if ncns sub \<noteq> ns then True
          else cover \<noteq> None \<and> nameClassMatches cover (ncname sub) (ncns sub)
      | ncNsName \<Rightarrow> if ncns sub \<noteq> ns then True else nameClassCoversNSExcept cover ns (except sub)
      | ncAnyName \<Rightarrow> nameClassCoversNSExcept cover ns (except sub)
      | ncNoMatch \<Rightarrow> False)"
  by pat_completeness auto
termination
  by (relation "measure (\<lambda>x. case x of Inl (a, ns, b) \<Rightarrow> ncsize a + ncsize b | Inr (a, b, ns) \<Rightarrow> ncsize a + ncsize b)")
    (auto simp: add.commute)

declare nameClassCoversNSExcept.simps(2) [simp del] nameClassCoversWithinNS.simps(2) [simp del]

function nameClassContains :: "nameClass option \<Rightarrow> nameClass option \<Rightarrow> bool" where
  "nameClassContains outer None = False"
| "nameClassContains outer (Some inner) =
     (if outer = None then False
      else case nckind inner of
        ncChoice \<Rightarrow> nameClassContains outer (left inner) \<and> nameClassContains outer (right inner)
      | ncName \<Rightarrow> nameClassMatches outer (ncname inner) (ncns inner)
      | ncNsName \<Rightarrow> nameClassCoversNSExcept outer (ncns inner) (except inner)
      | ncAnyName \<Rightarrow> nameClassCoversAll outer
      | ncNoMatch \<Rightarrow> False)"
  by pat_completeness auto
termination
  by (relation "measure (\<lambda>(a, b). ncsize b)") auto

declare nameClassContains.simps(2) [simp del]

subsection \<open>Overlap\<close>

function nameClassesOverlap :: "nameClass option \<Rightarrow> nameClass option \<Rightarrow> bool" where
  "nameClassesOverlap None b = False"
| "nameClassesOverlap (Some a) None = False"
| "nameClassesOverlap (Some a) (Some b) =
     (if nckind a = ncChoice then
        nameClassesOverlap (left a) (Some b) \<or> nameClassesOverlap (right a) (Some b)
      else if nckind b = ncChoice then
        nameClassesOverlap (Some a) (left b) \<or> nameClassesOverlap (Some a) (right b)
      else if nckind a = ncAnyName then
        (if except a \<noteq> None \<and> nameClassContains (except a) (Some b) then False else True)
      else if nckind b = ncAnyName then
        (if except b \<noteq> None \<and> nameClassContains (except b) (Some a) then False else True)
      else if nckind a = ncNsName \<and> nckind b = ncNsName then ncns a = ncns b
      else if nckind a = ncNsName \<and> nckind b = ncName then
        (if ncns a \<noteq> ncns b then False
         else if except a \<noteq> None \<and> nameClassMatches (except a) (ncname b) (ncns b) then False else True)
      else if nckind a = ncName \<and> nckind b = ncNsName then
        (if ncns a \<noteq> ncns b then False
         else if except b \<noteq> None \<and> nameClassMatches (except b) (ncname a) (ncns a) then False else True)
      else if nckind a = ncName \<and> nckind b = ncName then ncname a = ncname b \<and> ncns a = ncns b
      else False)"
  by pat_completeness auto
termination
  by (relation "measure (\<lambda>(a, b). ncsize a + ncsize b)") auto

declare nameClassesOverlap.simps(3) [simp del]

function nameClassContainsNoMatch :: "nameClass option \<Rightarrow> bool" where
  "nameClassContainsNoMatch None = False"
| "nameClassContainsNoMatch (Some nc) =
     (case nckind nc of
        ncNoMatch \<Rightarrow> True
      | ncChoice \<Rightarrow> nameClassContainsNoMatch (left nc) \<or> nameClassContainsNoMatch (right nc)
      | ncAnyName \<Rightarrow> nameClassContainsNoMatch (except nc)
      | ncNsName \<Rightarrow> nameClassContainsNoMatch (except nc)
      | ncName \<Rightarrow> False)"
  by pat_completeness auto
termination
  by (relation "measure ncsize") auto

declare nameClassContainsNoMatch.simps(2) [simp del]

subsection \<open>Soundness\<close>

text \<open>One rule per kind, so that no proof unfolds a function into its own recursive calls.\<close>

lemma matches_kind:
  "nckind nc = ncName \<Longrightarrow> nameClassMatches (Some nc) l ns \<longleftrightarrow> ncname nc = l \<and> ncns nc = ns"
  "nckind nc = ncAnyName \<Longrightarrow> nameClassMatches (Some nc) l ns \<longleftrightarrow> \<not> nameClassMatches (except nc) l ns"
  "nckind nc = ncNsName \<Longrightarrow> nameClassMatches (Some nc) l ns \<longleftrightarrow> ns = ncns nc \<and> \<not> nameClassMatches (except nc) l ns"
  "nckind nc = ncChoice \<Longrightarrow> nameClassMatches (Some nc) l ns \<longleftrightarrow>
     nameClassMatches (left nc) l ns \<or> nameClassMatches (right nc) l ns"
  "nckind nc = ncNoMatch \<Longrightarrow> \<not> nameClassMatches (Some nc) l ns"
  by (auto simp: nameClassMatches.simps(2)[of nc])

lemma collectFiniteNames_sound:
  "collectFiniteNames nc = Some names \<Longrightarrow> nameClassMatches nc l ns \<longleftrightarrow> (l, ns) \<in> set names"
proof (induction nc arbitrary: names rule: collectFiniteNames.induct)
  case (2 nc)
  then show ?case
    by (cases "nckind nc") (auto simp: collectFiniteNames.simps(2)[of nc] matches_kind split: option.splits)
qed simp

lemma flattenChoiceBranches_matches:
  "nameClassMatches nc l ns \<longleftrightarrow> (\<exists>b\<in>set (flattenChoiceBranches nc). nameClassMatches (Some b) l ns)"
proof (induction nc rule: flattenChoiceBranches.induct)
  case (2 nc)
  show ?case
  proof (cases "nckind nc = ncChoice")
    case True
    then show ?thesis using 2 by (auto simp: flattenChoiceBranches.simps(2) matches_kind(4))
  next
    case False
    then show ?thesis by (simp add: flattenChoiceBranches.simps(2))
  qed
qed simp

lemma gap_covered_iff:
  "gap_covered choice ns inner gap \<longleftrightarrow>
    (\<forall>l. (l, ns) \<in> set gap \<longrightarrow> nameClassMatches inner l ns \<or> nameClassMatches choice l ns)"
  by (induction choice ns inner gap rule: gap_covered.induct) auto

lemma union_loop_iff:
  "union_loop choice ns inner branches \<longleftrightarrow>
    (\<exists>b\<in>set branches. nckind b = ncNsName \<and> ncns b = ns \<and>
       (except b = None \<or> (\<exists>gap. collectFiniteNames (except b) = Some gap \<and> gap_covered choice ns inner gap)))"
  by (induction choice ns inner branches rule: union_loop.induct) (auto split: option.splits)

lemma choiceCoversNSByUnion_sound:
  assumes "choiceCoversNSByUnion choice ns inner"
  shows "nameClassMatches inner l ns \<or> nameClassMatches choice l ns"
proof -
  from assms obtain b where b: "b \<in> set (flattenChoiceBranches choice)" "nckind b = ncNsName" "ncns b = ns"
      "except b = None \<or> (\<exists>gap. collectFiniteNames (except b) = Some gap \<and> gap_covered choice ns inner gap)"
    by (auto simp: choiceCoversNSByUnion_def union_loop_iff)
  show ?thesis
  proof (cases "nameClassMatches (except b) l ns")
    case True
    then obtain gap where "collectFiniteNames (except b) = Some gap" "gap_covered choice ns inner gap"
      using b(4) by auto
    then show ?thesis using True by (auto simp: collectFiniteNames_sound gap_covered_iff)
  next
    case False
    then have "nameClassMatches (Some b) l ns" using b(2,3) by (simp add: matches_kind(3))
    then show ?thesis using b(1) by (auto simp: flattenChoiceBranches_matches[of choice])
  qed
qed

lemma covers_kind:
  "nckind c = ncName \<Longrightarrow> \<not> nameClassCoversNSExcept (Some c) ns i"
  "nckind c = ncAnyName \<Longrightarrow> nameClassCoversNSExcept (Some c) ns i \<longleftrightarrow>
     except c = None \<or> nameClassCoversWithinNS i (except c) ns"
  "nckind c = ncNsName \<Longrightarrow> nameClassCoversNSExcept (Some c) ns i \<longleftrightarrow>
     ncns c = ns \<and> (except c = None \<or> nameClassCoversWithinNS i (except c) ns)"
  "nckind c = ncChoice \<Longrightarrow> nameClassCoversNSExcept (Some c) ns i \<longleftrightarrow>
     nameClassCoversNSExcept (left c) ns i \<or> nameClassCoversNSExcept (right c) ns i \<or>
     choiceCoversNSByUnion (Some c) ns i"
  "nckind c = ncNoMatch \<Longrightarrow> \<not> nameClassCoversNSExcept (Some c) ns i"
  by (auto simp: nameClassCoversNSExcept.simps(2)[of c])

lemma within_kind:
  "nckind s = ncName \<Longrightarrow> nameClassCoversWithinNS c (Some s) ns \<longleftrightarrow>
     ncns s \<noteq> ns \<or> nameClassMatches c (ncname s) (ncns s)"
  "nckind s = ncAnyName \<Longrightarrow> nameClassCoversWithinNS c (Some s) ns \<longleftrightarrow> nameClassCoversNSExcept c ns (except s)"
  "nckind s = ncNsName \<Longrightarrow> nameClassCoversWithinNS c (Some s) ns \<longleftrightarrow>
     ncns s \<noteq> ns \<or> nameClassCoversNSExcept c ns (except s)"
  "nckind s = ncChoice \<Longrightarrow> nameClassCoversWithinNS c (Some s) ns \<longleftrightarrow>
     nameClassCoversWithinNS c (left s) ns \<and> nameClassCoversWithinNS c (right s) ns"
  "nckind s = ncNoMatch \<Longrightarrow> \<not> nameClassCoversWithinNS c (Some s) ns"
  by (cases c; auto simp: nameClassCoversWithinNS.simps(2)[of _ s])+

lemma covers_sound:
  "nameClassCoversNSExcept outer ns inner \<Longrightarrow> nameClassMatches inner l ns \<or> nameClassMatches outer l ns"
  "nameClassCoversWithinNS cover sub ns \<Longrightarrow> nameClassMatches sub l ns \<Longrightarrow> nameClassMatches cover l ns"
proof (induction outer ns inner and cover sub ns rule: nameClassCoversNSExcept_nameClassCoversWithinNS.induct)
  case (2 outer ns inner)
  then show ?case
    by (cases "nckind outer"; cases "except outer")
      (auto simp: covers_kind matches_kind dest: choiceCoversNSByUnion_sound[of _ _ _ l])
next
  case (4 cover sub ns)
  then show ?case
    by (cases "nckind sub") (auto simp: within_kind matches_kind)
qed simp_all

lemma coversAll_sound: "nameClassCoversAll outer \<Longrightarrow> nameClassMatches outer l ns"
proof (induction outer rule: nameClassCoversAll.induct)
  case (2 outer)
  then show ?case
    by (cases "nckind outer") (auto simp: nameClassCoversAll.simps(2)[of outer] matches_kind)
qed simp

lemma contains_kind:
  "nckind i = ncName \<Longrightarrow> nameClassContains (Some c) (Some i) \<longleftrightarrow> nameClassMatches (Some c) (ncname i) (ncns i)"
  "nckind i = ncAnyName \<Longrightarrow> nameClassContains (Some c) (Some i) \<longleftrightarrow> nameClassCoversAll (Some c)"
  "nckind i = ncNsName \<Longrightarrow> nameClassContains (Some c) (Some i) \<longleftrightarrow> nameClassCoversNSExcept (Some c) (ncns i) (except i)"
  "nckind i = ncChoice \<Longrightarrow> nameClassContains (Some c) (Some i) \<longleftrightarrow>
     nameClassContains (Some c) (left i) \<and> nameClassContains (Some c) (right i)"
  "nckind i = ncNoMatch \<Longrightarrow> \<not> nameClassContains (Some c) (Some i)"
  by (auto simp: nameClassContains.simps(2)[of _ i])

lemma contains_sound:
  "nameClassContains outer inner \<Longrightarrow> nameClassMatches inner l ns \<Longrightarrow> nameClassMatches outer l ns"
proof (induction outer inner rule: nameClassContains.induct)
  case (2 outer inner)
  then obtain c where "outer = Some c"
    by (cases outer) (auto simp: nameClassContains.simps(2))
  then show ?case
    using 2 by (cases "nckind inner")
      (auto simp: contains_kind matches_kind coversAll_sound dest: covers_sound(1)[of _ _ _ l])
qed simp

lemma overlap_sound:
  "nameClassMatches a l ns \<Longrightarrow> nameClassMatches b l ns \<Longrightarrow> nameClassesOverlap a b"
proof (induction a b rule: nameClassesOverlap.induct)
  case (3 a b)
  have "\<not> nameClassContains (except a) (Some b)" if "nckind a = ncAnyName"
    using 3(5,6) that contains_sound[of "except a" "Some b"] by (auto simp: matches_kind)
  moreover have "\<not> nameClassContains (except b) (Some a)" if "nckind b = ncAnyName"
    using 3(5,6) that contains_sound[of "except b" "Some a"] by (auto simp: matches_kind)
  ultimately show ?case
    using 3 by (cases "nckind a"; cases "nckind b") (auto simp: nameClassesOverlap.simps(3)[of a b] matches_kind)
qed simp_all

subsection \<open>Exactness on legal name classes\<close>

text \<open>The restrictions of RELAX NG (section 4.16): an \<open>nsName\<close> excludes names only, an
  \<open>anyName\<close> excludes names and \<open>nsName\<close>s.\<close>

function finite_class :: "nameClass option \<Rightarrow> bool" where
  "finite_class None = True"
| "finite_class (Some nc) =
     (case nckind nc of ncName \<Rightarrow> True | ncChoice \<Rightarrow> finite_class (left nc) \<and> finite_class (right nc) | _ \<Rightarrow> False)"
  by pat_completeness auto
termination
  by (relation "measure ncsize") auto

function ns_class :: "nameClass option \<Rightarrow> bool" where
  "ns_class None = True"
| "ns_class (Some nc) =
     (case nckind nc of
        ncName \<Rightarrow> True
      | ncNsName \<Rightarrow> finite_class (except nc)
      | ncChoice \<Rightarrow> ns_class (left nc) \<and> ns_class (right nc)
      | _ \<Rightarrow> False)"
  by pat_completeness auto
termination
  by (relation "measure ncsize") auto

function legal_class :: "nameClass option \<Rightarrow> bool" where
  "legal_class None = True"
| "legal_class (Some nc) =
     (case nckind nc of
        ncName \<Rightarrow> True
      | ncAnyName \<Rightarrow> ns_class (except nc)
      | ncNsName \<Rightarrow> finite_class (except nc)
      | ncChoice \<Rightarrow> legal_class (left nc) \<and> legal_class (right nc)
      | ncNoMatch \<Rightarrow> False)"
  by pat_completeness auto
termination
  by (relation "measure ncsize") auto

declare finite_class.simps(2) [simp del] ns_class.simps(2) [simp del] legal_class.simps(2) [simp del]

lemma class_kind:
  "nckind c = ncNsName \<Longrightarrow> \<not> finite_class (Some c)" "nckind c = ncAnyName \<Longrightarrow> \<not> finite_class (Some c)"
  "nckind c = ncNoMatch \<Longrightarrow> \<not> finite_class (Some c)"
  "nckind c = ncChoice \<Longrightarrow> finite_class (Some c) \<longleftrightarrow> finite_class (left c) \<and> finite_class (right c)"
  "nckind c = ncNsName \<Longrightarrow> ns_class (Some c) \<longleftrightarrow> finite_class (except c)"
  "nckind c = ncAnyName \<Longrightarrow> \<not> ns_class (Some c)" "nckind c = ncNoMatch \<Longrightarrow> \<not> ns_class (Some c)"
  "nckind c = ncChoice \<Longrightarrow> ns_class (Some c) \<longleftrightarrow> ns_class (left c) \<and> ns_class (right c)"
  "nckind c = ncNsName \<Longrightarrow> legal_class (Some c) \<longleftrightarrow> finite_class (except c)"
  "nckind c = ncAnyName \<Longrightarrow> legal_class (Some c) \<longleftrightarrow> ns_class (except c)"
  "nckind c = ncNoMatch \<Longrightarrow> \<not> legal_class (Some c)"
  "nckind c = ncChoice \<Longrightarrow> legal_class (Some c) \<longleftrightarrow> legal_class (left c) \<and> legal_class (right c)"
  by (simp_all add: finite_class.simps(2)[of c] ns_class.simps(2)[of c] legal_class.simps(2)[of c])

lemma finite_class_collects: "finite_class c \<Longrightarrow> \<exists>names. collectFiniteNames c = Some names"
proof (induction c rule: finite_class.induct)
  case (2 nc)
  then show ?case
    by (cases "nckind nc") (auto simp: class_kind collectFiniteNames.simps(2)[of nc])
qed simp

lemma finite_class_finite: "finite_class c \<Longrightarrow> finite {l. nameClassMatches c l ns}"
proof -
  assume "finite_class c"
  then obtain names where "collectFiniteNames c = Some names" using finite_class_collects by blast
  then have "{l. nameClassMatches c l ns} \<subseteq> fst ` set names"
    by (force simp: collectFiniteNames_sound)
  then show ?thesis by (rule finite_subset) simp
qed

lemma finite_class_within:
  "finite_class g \<Longrightarrow> (\<And>l. nameClassMatches g l ns \<Longrightarrow> nameClassMatches c l ns) \<Longrightarrow> nameClassCoversWithinNS c g ns"
proof (induction g rule: finite_class.induct)
  case (2 g)
  show ?case
  proof (cases "nckind g")
    case ncName
    then show ?thesis using 2(4)[of "ncname g"] by (auto simp: within_kind matches_kind)
  next
    case ncChoice
    then show ?thesis using 2 by (simp add: within_kind matches_kind class_kind)
  qed (use 2(3) in \<open>simp_all add: class_kind\<close>)
qed simp

lemma ns_class_branches:
  "ns_class c \<Longrightarrow> b \<in> set (flattenChoiceBranches c) \<Longrightarrow>
    nckind b = ncName \<or> (nckind b = ncNsName \<and> finite_class (except b))"
proof (induction c rule: ns_class.induct)
  case (2 c)
  then show ?case
    by (cases "nckind c") (auto simp: flattenChoiceBranches.simps(2)[of c] class_kind)
qed simp

text \<open>An \<open>ns_class\<close> without a branch for the namespace matches finitely many names of it, and
  only finitely many namespaces.\<close>

lemma ns_class_finite:
  assumes "ns_class c" and "\<not> (\<exists>b\<in>set (flattenChoiceBranches c). nckind b = ncNsName \<and> ncns b = ns)"
  shows "finite {l. nameClassMatches c l ns}"
proof -
  have "{l. nameClassMatches c l ns} \<subseteq> ncname ` set (flattenChoiceBranches c)"
    using assms ns_class_branches[OF assms(1)]
    by (fastforce simp: flattenChoiceBranches_matches[of c] matches_kind)
  then show ?thesis by (rule finite_subset) simp
qed

lemma ns_class_namespaces:
  assumes "ns_class c"
  shows "finite {ns. \<exists>l. nameClassMatches c l ns}"
proof -
  have "{ns. \<exists>l. nameClassMatches c l ns} \<subseteq> ncns ` set (flattenChoiceBranches c)"
    using ns_class_branches[OF assms]
    by (fastforce simp: flattenChoiceBranches_matches[of c] matches_kind)
  then show ?thesis by (rule finite_subset) simp
qed

lemma infinite_names: "finite A \<Longrightarrow> \<exists>l :: string. l \<notin> A"
  by (rule ex_new_if_finite) (rule infinite_UNIV_listI)

lemma covers_complete:
  assumes e: "ns_class (Some e)" and f: "finite_class f"
    and cover: "\<And>l. nameClassMatches f l ns \<or> nameClassMatches (Some e) l ns"
  shows "nameClassCoversNSExcept (Some e) ns f"
proof -
  have "finite {l. nameClassMatches f l ns}" using f by (rule finite_class_finite)
  then have "infinite {l. nameClassMatches (Some e) l ns}"
    using infinite_names[of "{l. nameClassMatches f l ns} \<union> {l. nameClassMatches (Some e) l ns}"] cover by blast
  then obtain b where b: "b \<in> set (flattenChoiceBranches (Some e))" "nckind b = ncNsName" "ncns b = ns"
    using ns_class_finite[OF e] by blast
  have fin: "finite_class (except b)"
    using ns_class_branches[OF e b(1)] b(2) by simp
  show ?thesis
  proof (cases "nckind e")
    case ncNsName
    then have eb: "b = e" using b(1) by (simp add: flattenChoiceBranches.simps(2))
    have "nameClassCoversWithinNS f (except e) ns"
      using fin cover ncNsName eb by (intro finite_class_within) (auto simp: matches_kind)
    then show ?thesis using ncNsName b(3) eb by (simp add: covers_kind)
  next
    case ncChoice
    obtain gap where "collectFiniteNames (except b) = Some gap"
      using finite_class_collects[OF fin] by blast
    moreover have "gap_covered (Some e) ns f gap"
      using cover by (simp add: gap_covered_iff)
    ultimately have "choiceCoversNSByUnion (Some e) ns f"
      using b by (auto simp: choiceCoversNSByUnion_def union_loop_iff)
    then show ?thesis using ncChoice by (simp add: covers_kind)
  next
    case ncName
    then show ?thesis using b by (simp add: flattenChoiceBranches.simps(2))
  qed (use e in \<open>simp_all add: class_kind\<close>)
qed

lemma any_name_meets:
  assumes e: "ns_class e" and b: "legal_class (Some b)" "nckind b \<noteq> ncChoice"
    and "\<not> (e \<noteq> None \<and> nameClassContains e (Some b))"
  shows "\<exists>l ns. \<not> nameClassMatches e l ns \<and> nameClassMatches (Some b) l ns"
proof (cases "nckind b")
  case ncName
  then show ?thesis using assms(4) by (cases e) (auto simp: contains_kind matches_kind)
next
  case ncAnyName
  then have "finite ({ns. \<exists>l. nameClassMatches e l ns} \<union> {ns. \<exists>l. nameClassMatches (except b) l ns})"
    using e b(1) by (simp add: ns_class_namespaces class_kind)
  then obtain ns where "ns \<notin> {ns. \<exists>l. nameClassMatches e l ns} \<union> {ns. \<exists>l. nameClassMatches (except b) l ns}"
    using infinite_names by blast
  then show ?thesis using ncAnyName by (auto simp: matches_kind)
next
  case ncNsName
  then have fin: "finite_class (except b)" using b(1) by (simp add: class_kind)
  show ?thesis
  proof (cases e)
    case None
    then show ?thesis
      using infinite_names[OF finite_class_finite[OF fin, of "ncns b"]] ncNsName
      by (auto simp: matches_kind)
  next
    case (Some c)
    then have "\<not> nameClassCoversNSExcept (Some c) (ncns b) (except b)"
      using assms(4) ncNsName by (simp add: contains_kind)
    then show ?thesis
      using covers_complete[of c "except b" "ncns b"] e fin Some ncNsName by (auto simp: matches_kind)
  qed
qed (use b in \<open>simp_all add: class_kind\<close>)

lemma ns_names_meet:
  assumes "finite_class (except a)" "finite_class (except b)" "nckind a = ncNsName" "nckind b = ncNsName"
    and "ncns a = ncns b"
  shows "\<exists>l ns. nameClassMatches (Some a) l ns \<and> nameClassMatches (Some b) l ns"
proof -
  have "finite ({l. nameClassMatches (except a) l (ncns b)} \<union> {l. nameClassMatches (except b) l (ncns b)})"
    using assms by (simp add: finite_class_finite)
  then obtain l where "l \<notin> {l. nameClassMatches (except a) l (ncns b)} \<union> {l. nameClassMatches (except b) l (ncns b)}"
    using infinite_names by blast
  then show ?thesis using assms(3-5) by (auto simp: matches_kind)
qed

lemma overlap_complete:
  "legal_class a \<Longrightarrow> legal_class b \<Longrightarrow> nameClassesOverlap a b \<Longrightarrow>
    \<exists>l ns. nameClassMatches a l ns \<and> nameClassMatches b l ns"
proof (induction a b rule: nameClassesOverlap.induct)
  case (3 a b)
  note ov = "3.prems"(3)[unfolded nameClassesOverlap.simps(3)[of a b]]
  consider "nckind a = ncChoice" | "nckind a \<noteq> ncChoice" "nckind b = ncChoice"
    | "nckind a = ncAnyName" "nckind b \<noteq> ncChoice"
    | "nckind b = ncAnyName" "nckind a \<noteq> ncChoice" "nckind a \<noteq> ncAnyName"
    | "nckind a = ncNsName" "nckind b = ncNsName"
    | "nckind a = ncName \<or> nckind b = ncName" "nckind a \<in> {ncName, ncNsName}" "nckind b \<in> {ncName, ncNsName}"
    using ov by (cases "nckind a"; cases "nckind b") simp_all
  then show ?case
  proof cases
    case 1
    then show ?thesis using 3 ov by (auto simp: class_kind matches_kind)
  next
    case 2
    then show ?thesis using 3 ov by (auto simp: class_kind matches_kind)
  next
    case c: 3
    then show ?thesis
      using any_name_meets[of "except a" b] 3(5,6) ov by (auto simp: class_kind matches_kind split: if_splits)
  next
    case 4
    then show ?thesis
      using any_name_meets[of "except b" a] 3(5,6) ov by (cases "nckind a") (auto simp: class_kind matches_kind split: if_splits)
  next
    case 5
    then show ?thesis
      using ns_names_meet[of a b] 3(5,6) ov by (simp add: class_kind)
  next
    case 6
    then show ?thesis
      using ov by (auto simp: matches_kind split: if_splits)
  qed
qed simp_all

subsection \<open>Properties\<close>

text \<open>Whatever the two name classes are, if some name is matched by both, nameClassesOverlap says
  so: a schema in which two attribute patterns can match the same attribute is never accepted.\<close>
theorem overlap_is_conservative:
  assumes "nameClassMatches a loc ns" and "nameClassMatches b loc ns"
  shows "nameClassesOverlap a b"
  using assms by (rule overlap_sound)

theorem overlap_is_conservative_witness:
  "nameClassesOverlap (Some (NameClass ncAnyName '''' '''' None None (Some (NameClass ncNsName '''' ''x'' None None None))))
     (Some (NameClass ncName ''a'' ''y'' None None None))"
  by (rule overlap_is_conservative[of _ "''a''" "''y''"]) (simp_all add: nameClassMatches.simps(2))

text \<open>C39: On the name classes RELAX NG allows (an nsName excludes finitely many names, an anyName
  excludes names and nsNames), nameClassesOverlap is exact: it answers true only when some name is in
  both classes, so no legal schema is rejected by this check.\<close>
theorem overlap_exact:
  assumes "legal_class a" and "legal_class b"
  shows "nameClassesOverlap a b \<longleftrightarrow> (\<exists>loc ns. nameClassMatches a loc ns \<and> nameClassMatches b loc ns)"
  using overlap_complete[OF assms] overlap_sound by blast

theorem overlap_exact_witness:
  "\<not> (\<exists>loc ns. nameClassMatches (Some (NameClass ncAnyName '''' '''' None None (Some (NameClass ncNsName '''' ''x'' None None None)))) loc ns
     \<and> nameClassMatches (Some (NameClass ncName ''a'' ''x'' None None None)) loc ns)"
proof -
  let ?a = "Some (NameClass ncAnyName '''' '''' None None (Some (NameClass ncNsName '''' ''x'' None None None)))"
  and ?b = "Some (NameClass ncName ''a'' ''x'' None None None)"
  have "\<not> nameClassesOverlap ?a ?b"
    by (simp add: nameClassesOverlap.simps(3) nameClassContains.simps(2) nameClassMatches.simps(2))
  then show ?thesis
    using overlap_exact[of ?a ?b] by (simp add: legal_class.simps(2) ns_class.simps(2))
qed

text \<open>When nameClassContains answers true, every name the inner class matches is matched by the
  outer one; the answer is only an under-approximation of containment.\<close>
theorem contains_is_certain:
  assumes "nameClassContains outer inner" and "nameClassMatches inner loc ns"
  shows "nameClassMatches outer loc ns"
  using assms by (rule contains_sound)

theorem contains_is_certain_witness:
  "nameClassMatches (Some (NameClass ncAnyName '''' '''' None None (Some (NameClass ncName ''a'' ''x'' None None None)))) ''b'' ''x''"
  by (rule contains_is_certain[of _ "Some (NameClass ncNsName '''' ''x'' None None (Some (NameClass ncName ''a'' ''x'' None None None)))"])
    (simp_all add: nameClassContains.simps(2) nameClassCoversNSExcept.simps(2) nameClassCoversWithinNS.simps(2)
      nameClassMatches.simps(2))

end
