(* ===== verification/GoPath.thy ===== *)
theory GoPath
  imports GoLib
begin

text \<open>
  The functions of Go's package \<open>path\<close> that the sources use.  \<open>path_clean\<close> is
  \<open>path.Clean\<close>: it walks the elements between the slashes with a stack, drops empty elements and
  \<open>.\<close>, and lets \<open>..\<close> remove the element before it.  A path is characterised by whether it is
  rooted and by the stack, and the lemmas below reduce joining and cleaning to these.
\<close>

abbreviation slash :: char where
  "slash \<equiv> CHR 0x2F"

definition rooted :: "string \<Rightarrow> bool" where
  "rooted p \<longleftrightarrow> p \<noteq> [] \<and> hd p = slash"

definition push_elem :: "bool \<Rightarrow> string list \<Rightarrow> string \<Rightarrow> string list" where
  "push_elem r stack s =
     (if s = [] \<or> s = ''.'' then stack
      else if s = ''..'' then
        (case stack of [] \<Rightarrow> (if r then [] else [s])
         | t # ts \<Rightarrow> (if t = ''..'' then s # stack else ts))
      else s # stack)"

definition elements :: "string \<Rightarrow> string list" where
  "elements p = rev (foldl (push_elem (rooted p)) [] (split_byte slash p))"

definition show_path :: "bool \<Rightarrow> string list \<Rightarrow> string" where
  "show_path r xs =
     (if r then slash # str_join xs [slash] else if xs = [] then ''.'' else str_join xs [slash])"

definition path_clean :: "string \<Rightarrow> string" where
  "path_clean p = (if p = [] then ''.'' else show_path (rooted p) (elements p))"

text \<open>\<open>path.Join\<close>: leading empty elements are dropped, the others are joined and cleaned.\<close>

definition path_join :: "string list \<Rightarrow> string" where
  "path_join elems =
     (let es = dropWhile (\<lambda>e. e = []) elems in if es = [] then [] else path_clean (str_join es [slash]))"

text \<open>\<open>path.Dir\<close> and \<open>path.Base\<close>.\<close>

definition path_dir :: "string \<Rightarrow> string" where
  "path_dir p = path_clean (rev (dropWhile (\<lambda>c. c \<noteq> slash) (rev p)))"

definition path_base :: "string \<Rightarrow> string" where
  "path_base p =
     (if p = [] then ''.''
      else let q = rev (dropWhile (\<lambda>c. c = slash) (rev p)) in
           let b = rev (takeWhile (\<lambda>c. c \<noteq> slash) (rev q)) in
           if b = [] then [slash] else b)"

subsection \<open>Normal paths\<close>

text \<open>What the stack holds, from the top: proper elements above \<open>..\<close>s, which only an unrooted path
  has.\<close>

definition proper :: "string \<Rightarrow> bool" where
  "proper s \<longleftrightarrow> s \<noteq> [] \<and> s \<noteq> ''.'' \<and> s \<noteq> ''..'' \<and> slash \<notin> set s"

definition normal :: "bool \<Rightarrow> string list \<Rightarrow> bool" where
  "normal r xs \<longleftrightarrow> (\<exists>n ys. xs = replicate n ''..'' @ ys \<and> list_all proper ys \<and> (r \<longrightarrow> n = 0))"

lemma normal_Nil [simp]: "normal r []"
  by (simp add: normal_def)

lemma normalI: "list_all proper ys \<Longrightarrow> (r \<Longrightarrow> n = 0) \<Longrightarrow> normal r (replicate n ''..'' @ ys)"
  by (auto simp: normal_def)

lemma push_elem_normal:
  assumes "normal r (rev st)" and "slash \<notin> set s"
  shows "normal r (rev (push_elem r st s))"
proof -
  obtain n ys where n: "rev st = replicate n ''..'' @ ys" "list_all proper ys" "r \<longrightarrow> n = 0"
    using assms(1) by (auto simp: normal_def)
  then have st: "st = rev ys @ replicate n ''..''"
    by (metis rev_append rev_replicate rev_rev_ident)
  show ?thesis
  proof (cases "s = [] \<or> s = ''.''")
    case True
    then show ?thesis using assms(1) by (auto simp: push_elem_def)
  next
    case False
    show ?thesis
    proof (cases "s = ''..''")
      case False
      then have "proper s" using assms(2) \<open>\<not> (s = [] \<or> s = ''.'')\<close> by (simp add: proper_def)
      then have "normal r (replicate n ''..'' @ (ys @ [s]))"
        using n by (intro normalI) auto
      then show ?thesis
        using False \<open>\<not> (s = [] \<or> s = ''.'')\<close> n(1) by (simp add: push_elem_def)
    next
      case dd: True
      show ?thesis
      proof (cases ys rule: rev_cases)
        case (snoc zs z)
        then have "z \<noteq> ''..''" using n(2) by (simp add: proper_def)
        moreover have "normal r (replicate n ''..'' @ zs)"
          using n snoc by (intro normalI) auto
        ultimately show ?thesis using st snoc dd by (simp add: push_elem_def)
      next
        case Nil
        have "normal r (replicate (Suc n) ''..'' @ [])" if "\<not> r"
          using that by (intro normalI) auto
        then show ?thesis
          using st Nil dd n(3) by (cases n) (auto simp: push_elem_def replicate_append_same)
      qed
    qed
  qed
qed

lemma foldl_push_normal:
  "normal r (rev st) \<Longrightarrow> \<forall>s\<in>set xs. slash \<notin> set s \<Longrightarrow> normal r (rev (foldl (push_elem r) st xs))"
proof (induction xs arbitrary: st)
  case (Cons s xs)
  then show ?case using push_elem_normal[of r st s] by simp
qed simp

lemma elements_normal: "normal (rooted p) (elements p)"
  using foldl_push_normal[of "rooted p" "[]" "split_byte slash p"] split_byte_no_sep[of _ slash p]
  by (auto simp: elements_def)

lemma push_proper: "proper s \<Longrightarrow> push_elem r st s = s # st"
  by (simp add: push_elem_def proper_def)

lemma foldl_push_proper: "list_all proper ys \<Longrightarrow> foldl (push_elem r) st ys = rev ys @ st"
  by (induction ys arbitrary: st) (simp_all add: push_proper)

lemma foldl_push_up:
  "foldl (push_elem False) (replicate m ''..'') (replicate n ''..'') = replicate (n + m) ''..''"
proof (induction n arbitrary: m)
  case (Suc n)
  have "push_elem False (replicate m ''..'') ''..'' = replicate (Suc m) ''..''"
    by (cases m) (simp_all add: push_elem_def)
  then show ?case using Suc[of "Suc m"] by simp
qed simp

lemma foldl_push_pop:
  "list_all proper ys \<Longrightarrow> foldl (push_elem r) (rev ys @ st) (replicate (length ys) ''..'') = st"
proof (induction ys rule: rev_induct)
  case (snoc y ys)
  then have "push_elem r (y # rev ys @ st) ''..'' = rev ys @ st"
    by (simp add: push_elem_def proper_def)
  then show ?case using snoc by simp
qed simp

lemma foldl_push_id: "normal r xs \<Longrightarrow> foldl (push_elem r) [] xs = rev xs"
proof -
  assume "normal r xs"
  then obtain n ys where n: "xs = replicate n ''..'' @ ys" "list_all proper ys" "r \<longrightarrow> n = 0"
    by (auto simp: normal_def)
  then show ?thesis
    using foldl_push_up[of 0 n] by (cases r) (simp_all add: foldl_push_proper)
qed

subsection \<open>Splitting and joining\<close>

lemma split_byte_append: "split_byte d (a @ d # b) = split_byte d a @ split_byte d b"
proof (induction a)
  case (Cons c a)
  then show ?case by (cases "split_byte d a") auto
qed simp

lemma split_byte_single: "d \<notin> set s \<Longrightarrow> split_byte d s = [s]"
  by (induction s) auto

lemma split_join: "xs \<noteq> [] \<Longrightarrow> \<forall>x\<in>set xs. d \<notin> set x \<Longrightarrow> split_byte d (str_join xs [d]) = xs"
proof (induction xs)
  case (Cons x xs)
  then show ?case
    by (cases xs) (simp_all add: split_byte_single split_byte_append)
qed simp

lemma proper_no_slash: "normal r xs \<Longrightarrow> x \<in> set xs \<Longrightarrow> slash \<notin> set x \<and> x \<noteq> [] \<and> x \<noteq> ''.''"
proof -
  assume "normal r xs" "x \<in> set xs"
  then obtain n ys where "xs = replicate n ''..'' @ ys" "list_all proper ys" "x \<in> set xs"
    unfolding normal_def by blast
  then have "x = ''..'' \<or> proper x"
    by (auto simp: list_all_iff)
  then show ?thesis by (auto simp: proper_def)
qed

lemma hd_join: "x \<noteq> [] \<Longrightarrow> hd (str_join (x # xs) sep) = hd x \<and> str_join (x # xs) sep \<noteq> []"
  by (cases xs) simp_all

lemma show_path_split:
  assumes "normal r xs"
  shows "rooted (show_path r xs) = r \<and> elements (show_path r xs) = xs \<and> show_path r xs \<noteq> []"
proof (cases r)
  case True
  have "split_byte slash (show_path r xs) = [] # (if xs = [] then [[]] else xs)"
    using True split_join[of xs slash] proper_no_slash[OF assms] by (auto simp: show_path_def)
  moreover have "push_elem True [] [] = []" by (simp add: push_elem_def)
  moreover have "rooted (show_path r xs)" using True by (simp add: rooted_def show_path_def)
  ultimately show ?thesis
    using True foldl_push_id[OF assms] by (auto simp: elements_def show_path_def)
next
  case False
  show ?thesis
  proof (cases xs)
    case Nil
    then show ?thesis using False
      by (simp add: show_path_def rooted_def elements_def push_elem_def)
  next
    case (Cons x ys)
    have x: "x \<noteq> []" "slash \<notin> set x"
      using proper_no_slash[OF assms, of x] Cons by auto
    then have "hd x \<noteq> slash" by (cases x) auto
    then have "\<not> rooted (show_path r xs)" "show_path r xs \<noteq> []"
      using hd_join[of x ys "[slash]"] x Cons False by (auto simp: show_path_def rooted_def)
    moreover have "split_byte slash (show_path r xs) = xs"
      using False Cons split_join[of xs slash] proper_no_slash[OF assms] by (auto simp: show_path_def)
    ultimately show ?thesis
      using foldl_push_id[OF assms] False by (simp add: elements_def)
  qed
qed

lemma path_clean_split:
  "rooted (path_clean p) = rooted p" "elements (path_clean p) = elements p" "path_clean p \<noteq> []"
proof -
  have "rooted (path_clean p) = rooted p \<and> elements (path_clean p) = elements p \<and> path_clean p \<noteq> []"
  proof (cases "p = []")
    case True
    then show ?thesis by (simp add: path_clean_def rooted_def elements_def push_elem_def)
  next
    case False
    then show ?thesis using show_path_split[OF elements_normal[of p]] by (simp add: path_clean_def)
  qed
  then show "rooted (path_clean p) = rooted p" "elements (path_clean p) = elements p" "path_clean p \<noteq> []"
    by auto
qed

lemma path_clean_cong:
  "rooted p = rooted q \<Longrightarrow> elements p = elements q \<Longrightarrow> path_clean p = path_clean q"
  by (auto simp: path_clean_def show_path_def rooted_def elements_def push_elem_def)

lemma path_clean_idem: "path_clean (path_clean p) = path_clean p"
  by (rule path_clean_cong) (simp_all add: path_clean_split)

lemma rooted_append: "a \<noteq> [] \<Longrightarrow> rooted (a @ b) = rooted a"
  by (simp add: rooted_def)

lemma elements_append:
  "a \<noteq> [] \<Longrightarrow> elements (a @ slash # b) =
    rev (foldl (push_elem (rooted a)) (rev (elements a)) (split_byte slash b))"
  by (simp add: elements_def rooted_append split_byte_append)

end
