(* ===== verification/Uripath.thy ===== *)
theory Uripath
  imports GoPath "HOL-Library.Sublist"
begin

text \<open>
  The package \<open>internal/uripath\<close>: shapes of native paths and URI references, and relative paths
  in slash form.
\<close>

subsection \<open>Shapes\<close>

definition IsWindowsDriveLetter :: "char \<Rightarrow> bool" where
  "IsWindowsDriveLetter b \<longleftrightarrow> (byte b \<ge> 97 \<and> byte b \<le> 122) \<or> (byte b \<ge> 65 \<and> byte b \<le> 90)"

definition HasWindowsDrivePrefix :: "string \<Rightarrow> bool" where
  "HasWindowsDrivePrefix s =
     (if length s < 2 then False
      else if \<not> IsWindowsDriveLetter (s ! 0) \<or> s ! 1 \<noteq> CHR '':'' then False
      else if length s = 2 then True
      else s ! 2 = slash \<or> s ! 2 = CHR 0x5C)"

definition scheme_char :: "char \<Rightarrow> bool" where
  "scheme_char c \<longleftrightarrow> IsWindowsDriveLetter c \<or> ascii_digit c \<or> c = CHR ''+'' \<or> c = CHR ''-'' \<or> c = CHR ''.''"

text \<open>The loop of \<open>URIScheme\<close>, at position \<open>i\<close> with the rest of the string.\<close>

fun scheme_loop :: "string \<Rightarrow> nat \<Rightarrow> string \<Rightarrow> string" where
  "scheme_loop s i [] = []"
| "scheme_loop s i (c # r) =
     (if scheme_char c then scheme_loop s (i + 1) r
      else if c = CHR '':'' then (if i < 2 then [] else map ascii_lower (take i s))
      else [])"

definition URIScheme :: "string \<Rightarrow> string" where
  "URIScheme s =
     (if length s < 2 \<or> \<not> IsWindowsDriveLetter (s ! 0) then [] else scheme_loop s 1 (drop 1 s))"

definition HasURIScheme :: "string \<Rightarrow> bool" where
  "HasURIScheme s \<longleftrightarrow> URIScheme s \<noteq> []"

definition IsWindowsAbsolute :: "string \<Rightarrow> bool" where
  "IsWindowsAbsolute s \<longleftrightarrow> (if HasWindowsDrivePrefix s then True else length s > 0 \<and> s ! 0 = CHR 0x5C)"

definition IsPOSIXAbsolute :: "string \<Rightarrow> bool" where
  "IsPOSIXAbsolute s \<longleftrightarrow> length s > 0 \<and> s ! 0 = slash"

definition IsAbsolutePath :: "string \<Rightarrow> bool" where
  "IsAbsolutePath s \<longleftrightarrow> IsPOSIXAbsolute s \<or> IsWindowsAbsolute s"

definition ToSlash :: "string \<Rightarrow> string" where
  "ToSlash s = map (\<lambda>c. if c = CHR 0x5C then slash else c) s"

definition WindowsToFileURI :: "string \<Rightarrow> string" where
  "WindowsToFileURI s =
     (let slashed = ToSlash s in
      if HasWindowsDrivePrefix s then ''file:///'' @ slashed else ''file:'' @ slashed)"

text \<open>\<open>HasScheme\<close> of the catalog package (\<open>internal/catalog/uri.go\<close>).\<close>

fun has_scheme_loop :: "nat \<Rightarrow> string \<Rightarrow> bool" where
  "has_scheme_loop i [] = True"
| "has_scheme_loop i (c # s) =
     (if \<not> IsWindowsDriveLetter c \<and>
         (i = 0 \<or> \<not> ascii_digit c \<and> c \<noteq> CHR ''+'' \<and> c \<noteq> CHR ''-'' \<and> c \<noteq> CHR ''.'')
      then False else has_scheme_loop (i + 1) s)"

definition HasScheme :: "string \<Rightarrow> bool" where
  "HasScheme s =
     (if HasWindowsDrivePrefix s then False
      else case index_of s '':'' of
        None \<Rightarrow> False
      | Some colon \<Rightarrow> if colon < 1 then False else has_scheme_loop 0 (take colon s))"

subsection \<open>Paths in slash form\<close>

definition JoinLocalBaseDir :: "string \<Rightarrow> string \<Rightarrow> string" where
  "JoinLocalBaseDir baseDir ref = path_join [ToSlash baseDir, ToSlash ref]"

definition containsDot :: "string \<Rightarrow> bool" where
  "containsDot s \<longleftrightarrow> list_ex (\<lambda>c. c = CHR ''.'') s"

function trim_slashes :: "string \<Rightarrow> string" where
  "trim_slashes t = (if length t > 1 \<and> last t = slash then trim_slashes (butlast t) else t)"
  by pat_completeness auto
termination
  by (relation "measure length") auto

declare trim_slashes.simps [simp del]

definition LocalBaseDir :: "string \<Rightarrow> string" where
  "LocalBaseDir base =
     (let slashed = ToSlash base in
      if length slashed > 0 \<and> last slashed = slash then trim_slashes slashed
      else let l = path_base slashed in
           if \<not> containsDot l then slashed else path_dir slashed)"

definition SlashDir :: "string \<Rightarrow> string" where
  "SlashDir p = path_dir (ToSlash p)"

definition SlashClean :: "string \<Rightarrow> string" where
  "SlashClean p = path_clean (ToSlash p)"

definition splitSlash :: "string \<Rightarrow> string list" where
  "splitSlash p =
     (if p = [] \<or> p = ''.'' then []
      else let r = (p ! 0 = slash);
               trimmed = dropWhile (\<lambda>c. c = slash) p;
               segs = filter (\<lambda>s. s \<noteq> []) (split_byte slash trimmed)
           in if r then [] # segs else segs)"

fun common_segments :: "string list \<Rightarrow> string list \<Rightarrow> nat" where
  "common_segments (x # xs) (y # ys) = (if x = y then Suc (common_segments xs ys) else 0)"
| "common_segments _ _ = 0"

text \<open>The loop that climbs out of the rest of the base; \<^const>\<open>None\<close> at a \<open>..\<close> in it.\<close>

fun climb :: "string list \<Rightarrow> string list option" where
  "climb [] = Some []"
| "climb (b # bs) = (if b = ''..'' then None else map_option (\<lambda>out. ''..'' # out) (climb bs))"

definition SlashRel :: "string \<Rightarrow> string \<Rightarrow> string" where
  "SlashRel baseDir tgt =
     (let base = SlashClean baseDir; targ = SlashClean tgt in
      if base = targ then ''.''
      else if IsPOSIXAbsolute base \<noteq> IsPOSIXAbsolute targ then targ
      else let baseSeg = splitSlash base; targSeg = splitSlash targ;
               i = common_segments baseSeg targSeg
           in case climb (drop i baseSeg) of
                None \<Rightarrow> targ
              | Some up \<Rightarrow> let out = up @ drop i targSeg in
                           if out = [] then ''.'' else path_join out)"

definition joinSlashSegments :: "string list \<Rightarrow> string" where
  "joinSlashSegments segs =
     (if segs = [] then ''.''
      else if segs ! 0 = [] then
        (if length segs = 1 then [slash] else slash # path_join (drop 1 segs))
      else path_join segs)"

definition SlashCommonDir :: "string \<Rightarrow> string \<Rightarrow> string" where
  "SlashCommonDir a b =
     (let aParts = splitSlash (SlashDir (SlashClean a)); bParts = splitSlash (SlashDir (SlashClean b));
          common = common_segments aParts bParts
      in if common = 0 then ''.'' else joinSlashSegments (take common aParts))"

subsection \<open>Schemes\<close>

lemma colon_not_scheme: "\<not> scheme_char CHR '':''"
  by (simp add: scheme_char_def IsWindowsDriveLetter_def ascii_digit_def)

lemma scheme_loop_prefix:
  "list_all scheme_char u \<Longrightarrow> i + length u \<ge> 2 \<Longrightarrow>
    scheme_loop s i (u @ CHR '':'' # v) = map ascii_lower (take (i + length u) s)"
  by (induction u arbitrary: i) (auto simp: colon_not_scheme)

lemma scheme_loop_form:
  "scheme_loop s i r \<noteq> [] \<Longrightarrow> \<exists>u v. r = u @ CHR '':'' # v \<and> list_all scheme_char u \<and> i + length u \<ge> 2"
proof (induction s i r rule: scheme_loop.induct)
  case (2 s i c r)
  show ?case
  proof (cases "scheme_char c")
    case True
    then obtain u v where "r = u @ CHR '':'' # v" "list_all scheme_char u" "i + 1 + length u \<ge> 2"
      using 2 by auto
    then show ?thesis using True by (intro exI[of _ "c # u"] exI[of _ v]) simp
  next
    case False
    then show ?thesis using 2(2) by (intro exI[of _ "[]"] exI[of _ r]) (auto split: if_splits)
  qed
qed simp

lemma URIScheme_scheme:
  assumes "s = u @ CHR '':'' # v" and "length u \<ge> 2" and "IsWindowsDriveLetter (hd u)" and "list_all scheme_char u"
  shows "URIScheme s = map ascii_lower u"
proof -
  obtain c w where u: "u = c # w" using assms(2) by (cases u) auto
  have "scheme_loop s 1 (w @ CHR '':'' # v) = map ascii_lower (take (1 + length w) s)"
    using assms(2,4) u by (intro scheme_loop_prefix) auto
  then show ?thesis using assms u by (simp add: URIScheme_def)
qed

lemma URIScheme_form:
  assumes "URIScheme s \<noteq> []"
  shows "\<exists>u v. s = u @ CHR '':'' # v \<and> length u \<ge> 2 \<and> IsWindowsDriveLetter (hd u) \<and> list_all scheme_char u"
proof -
  from assms have s: "length s \<ge> 2" "IsWindowsDriveLetter (s ! 0)" "scheme_loop s 1 (drop 1 s) \<noteq> []"
    by (auto simp: URIScheme_def split: if_splits)
  then obtain u v where "drop 1 s = u @ CHR '':'' # v" "list_all scheme_char u" "1 + length u \<ge> 2"
    using scheme_loop_form by blast
  moreover obtain c t where "s = c # t" using s(1) by (cases s) auto
  ultimately show ?thesis
    using s(2) by (intro exI[of _ "c # u"] exI[of _ v]) (auto simp: scheme_char_def)
qed

lemma has_scheme_loop_iff:
  "i > 0 \<Longrightarrow> has_scheme_loop i s \<longleftrightarrow> list_all scheme_char s"
  by (induction i s rule: has_scheme_loop.induct) (auto simp: scheme_char_def)

lemma index_of_colon: "CHR '':'' \<notin> set u \<Longrightarrow> index_of (u @ CHR '':'' # v) '':'' = Some (length u)"
  by (induction u) (auto simp: has_prefix_def)

lemma HasScheme_iff:
  "HasScheme s \<longleftrightarrow> \<not> HasWindowsDrivePrefix s \<and>
    (\<exists>u v. s = u @ CHR '':'' # v \<and> u \<noteq> [] \<and> IsWindowsDriveLetter (hd u) \<and> list_all scheme_char u)"
  (is "_ \<longleftrightarrow> _ \<and> ?form")
proof (cases "HasWindowsDrivePrefix s")
  case True
  then show ?thesis by (simp add: HasScheme_def)
next
  case False
  have loop: "has_scheme_loop 0 u \<longleftrightarrow> IsWindowsDriveLetter (hd u) \<and> list_all scheme_char u" if "u \<noteq> []" for u
    using that by (cases u) (auto simp: has_scheme_loop_iff scheme_char_def)
  show ?thesis
  proof (cases "index_of s '':''")
    case None
    then have "\<not> ?form" by (auto simp: index_of_None)
    then show ?thesis using None False by (simp add: HasScheme_def)
  next
    case (Some n)
    have s: "n + 1 \<le> length s" "s = take n s @ CHR '':'' # drop (n + 1) s"
      using index_of_Some[OF Some] by auto
    have "CHR '':'' \<notin> set (take n s)"
      using index_of_first[OF Some] by simp
    then have "?form \<longleftrightarrow> take n s \<noteq> [] \<and> IsWindowsDriveLetter (hd (take n s)) \<and> list_all scheme_char (take n s)"
    proof (intro iffI)
      assume ?form
      then obtain u v where u: "s = u @ CHR '':'' # v" "u \<noteq> []" "IsWindowsDriveLetter (hd u)" "list_all scheme_char u"
        by blast
      have "CHR '':'' \<notin> set u"
        using u(4) colon_not_scheme by (auto simp: list_all_iff)
      then have "n = length u" using Some u(1) index_of_colon[of u v] by simp
      then show "take n s \<noteq> [] \<and> IsWindowsDriveLetter (hd (take n s)) \<and> list_all scheme_char (take n s)"
        using u by simp
    qed (use s(2) in blast)
    moreover have "take n s \<noteq> [] \<longleftrightarrow> \<not> n < 1"
      using s(1) by (cases n) auto
    ultimately show ?thesis
      using Some False loop[of "take n s"] by (auto simp: HasScheme_def)
  qed
qed

text \<open>URIScheme returns the lower-cased prefix before the first colon exactly when that prefix is
  an RFC 3986 scheme of at least two characters, and the empty string otherwise; a path with a drive
  letter has no URI scheme.\<close>
theorem URIScheme_exact:
  "(URIScheme s = sch \<and> sch \<noteq> [] \<longleftrightarrow>
     (\<exists>u v. s = u @ CHR '':'' # v \<and> length u \<ge> 2 \<and> IsWindowsDriveLetter (hd u) \<and> list_all scheme_char u
        \<and> sch = map ascii_lower u))
   \<and> \<not> (HasWindowsDrivePrefix s \<and> HasURIScheme s)"
proof (intro conjI)
  show "URIScheme s = sch \<and> sch \<noteq> [] \<longleftrightarrow>
     (\<exists>u v. s = u @ CHR '':'' # v \<and> length u \<ge> 2 \<and> IsWindowsDriveLetter (hd u) \<and> list_all scheme_char u
        \<and> sch = map ascii_lower u)"
  proof
    assume "URIScheme s = sch \<and> sch \<noteq> []"
    then show "\<exists>u v. s = u @ CHR '':'' # v \<and> length u \<ge> 2 \<and> IsWindowsDriveLetter (hd u) \<and> list_all scheme_char u
        \<and> sch = map ascii_lower u"
      using URIScheme_form[of s] URIScheme_scheme[of s] by metis
  qed (auto simp: URIScheme_scheme)
  show "\<not> (HasWindowsDrivePrefix s \<and> HasURIScheme s)"
  proof
    assume a: "HasWindowsDrivePrefix s \<and> HasURIScheme s"
    then obtain u v where "s = u @ CHR '':'' # v" "length u \<ge> 2" "list_all scheme_char u"
      using URIScheme_form[of s] by (auto simp: HasURIScheme_def)
    moreover have "s ! 1 = CHR '':''" using a by (auto simp: HasWindowsDrivePrefix_def split: if_splits)
    moreover from calculation have "scheme_char (u ! 1)" by (simp add: list_all_length)
    ultimately show False
      using colon_not_scheme by (simp add: nth_append)
  qed
qed

text \<open>The two scheme tests of the code base agree but for drive-relative names: the catalog's
  HasScheme also takes a single letter before a colon for a scheme, unless a path separator or the
  end follows, where uripath.HasURIScheme does not.\<close>
theorem HasScheme_HasURIScheme:
  "HasScheme s \<longleftrightarrow> HasURIScheme s \<or>
    (\<exists>l v. s = l # CHR '':'' # v \<and> IsWindowsDriveLetter l \<and> v \<noteq> [] \<and> hd v \<noteq> slash \<and> hd v \<noteq> CHR 0x5C)"
proof
  assume "HasScheme s"
  then obtain u v where u: "\<not> HasWindowsDrivePrefix s" "s = u @ CHR '':'' # v" "u \<noteq> []"
      "IsWindowsDriveLetter (hd u)" "list_all scheme_char u"
    using HasScheme_iff[of s] by auto
  show "HasURIScheme s \<or> (\<exists>l v. s = l # CHR '':'' # v \<and> IsWindowsDriveLetter l \<and> v \<noteq> [] \<and> hd v \<noteq> slash \<and> hd v \<noteq> CHR 0x5C)"
  proof (cases "length u \<ge> 2")
    case True
    then show ?thesis
      using URIScheme_scheme[OF u(2) True u(4,5)] u(3) by (simp add: HasURIScheme_def)
  next
    case False
    then obtain l where "u = [l]" using u(3) by (cases u; cases "tl u") auto
    then show ?thesis
      using u by (cases v) (auto simp: HasWindowsDrivePrefix_def)
  qed
next
  assume "HasURIScheme s \<or> (\<exists>l v. s = l # CHR '':'' # v \<and> IsWindowsDriveLetter l \<and> v \<noteq> [] \<and> hd v \<noteq> slash \<and> hd v \<noteq> CHR 0x5C)"
  then show "HasScheme s"
  proof
    assume h: "HasURIScheme s"
    then obtain u v where u: "s = u @ CHR '':'' # v" "length u \<ge> 2" "IsWindowsDriveLetter (hd u)" "list_all scheme_char u"
      using URIScheme_form[of s] by (auto simp: HasURIScheme_def)
    have "s ! 1 = u ! 1" using u(1,2) by (simp add: nth_append)
    moreover have "scheme_char (u ! 1)" using u(2,4) by (simp add: list_all_length)
    ultimately have "s ! 1 \<noteq> CHR '':''" using colon_not_scheme by metis
    then have "\<not> HasWindowsDrivePrefix s"
      by (auto simp: HasWindowsDrivePrefix_def)
    then show ?thesis
      using u by (auto simp: HasScheme_iff)
  next
    assume "\<exists>l v. s = l # CHR '':'' # v \<and> IsWindowsDriveLetter l \<and> v \<noteq> [] \<and> hd v \<noteq> slash \<and> hd v \<noteq> CHR 0x5C"
    then obtain l v where s: "s = [l] @ CHR '':'' # v" "IsWindowsDriveLetter l" "v \<noteq> []" "hd v \<noteq> slash" "hd v \<noteq> CHR 0x5C"
      by auto
    then have "\<not> HasWindowsDrivePrefix s" by (cases v) (auto simp: HasWindowsDrivePrefix_def)
    moreover have "\<exists>u v. s = u @ CHR '':'' # v \<and> u \<noteq> [] \<and> IsWindowsDriveLetter (hd u) \<and> list_all scheme_char u"
      by (rule exI[of _ "[l]"], rule exI[of _ v]) (use s(1,2) in \<open>simp add: scheme_char_def\<close>)
    ultimately show ?thesis
      by (simp add: HasScheme_iff)
  qed
qed

subsection \<open>Relative paths\<close>

lemma IsPOSIXAbsolute_rooted: "IsPOSIXAbsolute p \<longleftrightarrow> rooted p"
  by (cases p) (auto simp: IsPOSIXAbsolute_def rooted_def)

lemma filter_nonempty: "normal r xs \<Longrightarrow> filter (\<lambda>s. s \<noteq> []) xs = xs"
  using proper_no_slash[of r xs] by (simp add: filter_id_conv)

lemma splitSlash_show:
  assumes "normal r xs"
  shows "splitSlash (show_path r xs) = (if r then [] # xs else xs)"
proof (cases r)
  case True
  have "dropWhile (\<lambda>c. c = slash) (str_join xs [slash]) = str_join xs [slash]"
  proof (cases xs)
    case (Cons x ys)
    then have "x \<noteq> []" "slash \<notin> set x" using proper_no_slash[OF assms, of x] by auto
    then show ?thesis
      using Cons hd_join[of x ys "[slash]"] by (cases x) (auto simp: dropWhile_eq_self_iff)
  qed simp
  moreover have "filter (\<lambda>s. s \<noteq> []) (split_byte slash (str_join xs [slash])) = xs"
    using split_join[of xs slash] proper_no_slash[OF assms] filter_nonempty[OF assms] by (cases xs) auto
  ultimately show ?thesis
    using True by (simp add: splitSlash_def show_path_def Let_def)
next
  case False
  show ?thesis
  proof (cases xs)
    case Nil
    then show ?thesis using False by (simp add: splitSlash_def show_path_def)
  next
    case (Cons x ys)
    then have x: "x \<noteq> []" "slash \<notin> set x" using proper_no_slash[OF assms, of x] by auto
    let ?p = "str_join xs [slash]"
    have p: "?p \<noteq> []" "?p ! 0 \<noteq> slash" "hd ?p = hd x"
      using Cons x hd_join[of x ys "[slash]"] by (auto simp: hd_conv_nth[symmetric]) (metis hd_conv_nth hd_in_set)+
    have "split_byte slash ?p = xs"
      using split_join[of xs slash] proper_no_slash[OF assms] Cons by auto
    moreover have "split_byte slash ''.'' = [''.'']" by simp
    moreover have "xs \<noteq> [''.'']"
      using proper_no_slash[OF assms, of "''.''"] by auto
    ultimately have "?p \<noteq> ''.''" by metis
    moreover have "dropWhile (\<lambda>c. c = slash) ?p = ?p"
      using p(1,2) by (cases ?p) auto
    ultimately show ?thesis
      using False Cons p \<open>split_byte slash ?p = xs\<close> filter_nonempty[OF assms]
      by (simp add: splitSlash_def show_path_def Let_def)
  qed
qed

lemma path_clean_show: "\<exists>xs. normal (rooted p) xs \<and> path_clean p = show_path (rooted p) xs"
proof (cases "p = []")
  case True
  then show ?thesis by (intro exI[of _ "[]"]) (simp add: path_clean_def show_path_def rooted_def)
next
  case False
  then show ?thesis using elements_normal[of p] by (auto simp: path_clean_def)
qed

lemma climb_Some: "climb bs = Some up \<Longrightarrow> up = replicate (length bs) ''..'' \<and> ''..'' \<notin> set bs"
  by (induction bs arbitrary: up) (auto split: if_splits)

lemma climb_total: "''..'' \<notin> set bs \<Longrightarrow> climb bs = Some (replicate (length bs) ''..'')"
  by (induction bs) auto

lemma common_segments_take:
  "take (common_segments xs ys) xs = take (common_segments xs ys) ys
    \<and> common_segments xs ys \<le> length xs \<and> common_segments xs ys \<le> length ys"
  by (induction xs ys rule: common_segments.induct) auto

text \<open>The normal form of the relative path, and its effect on the base.\<close>

lemma normal_drop: "normal r xs \<Longrightarrow> normal r (drop n xs)"
proof -
  assume "normal r xs"
  then obtain k ys where k: "xs = replicate k ''..'' @ ys" "list_all proper ys" "r \<longrightarrow> k = 0"
    unfolding normal_def by blast
  have "normal r (replicate (k - n) ''..'' @ drop (n - k) ys)"
    using k(2,3) by (intro normalI) (auto simp: list_all_iff dest: in_set_dropD)
  then show ?thesis using k(1) by simp
qed

lemma normal_no_up: "normal r xs \<Longrightarrow> ''..'' \<notin> set xs \<Longrightarrow> list_all proper xs"
proof -
  assume "normal r xs" "''..'' \<notin> set xs"
  then obtain n ys where "xs = replicate n ''..'' @ ys" "list_all proper ys" "n = 0"
    unfolding normal_def by fastforce
  then show ?thesis by simp
qed

lemma foldl_push_up_tops:
  "st = [] \<or> hd st = ''..'' \<Longrightarrow> foldl (push_elem False) st (replicate n ''..'') = replicate n ''..'' @ st"
proof (induction n arbitrary: st)
  case (Suc n)
  have "push_elem False st ''..'' = ''..'' # st"
    using Suc.prems by (cases st) (auto simp: push_elem_def)
  then show ?case using Suc.IH[of "''..'' # st"] by (simp add: replicate_app_Cons_same)
qed simp

text \<open>Climbing from \<open>pre @ bs\<close> to \<open>pre\<close> and going down \<open>ts\<close> from there.\<close>

lemma elements_climb:
  assumes "normal r (pre @ bs)" and "list_all proper bs" and t: "normal r (pre @ ts)"
  shows "foldl (push_elem r) (rev (pre @ bs)) (replicate (length bs) ''..'' @ ts) = rev (pre @ ts)"
proof -
  have "foldl (push_elem r) (rev bs @ rev pre) (replicate (length bs) ''..'') = rev pre"
    using assms(2) by (rule foldl_push_pop)
  moreover have "foldl (push_elem r) (rev pre) ts = rev ts @ rev pre"
  proof -
    have "rev (pre @ ts) = foldl (push_elem r) [] (pre @ ts)"
      using foldl_push_id[OF t] by simp
    moreover have "normal r pre"
    proof -
      obtain n ys where n: "pre @ ts = replicate n ''..'' @ ys" "list_all proper ys" "r \<longrightarrow> n = 0"
        using t unfolding normal_def by blast
      have "pre = take (length pre) (replicate n ''..'' @ ys)"
        using arg_cong[OF n(1), of "take (length pre)"] by simp
      then have "pre = replicate (min (length pre) n) ''..'' @ take (length pre - n) ys"
        by (simp add: take_replicate)
      moreover have "list_all proper (take (length pre - n) ys)"
        using n(2) by (auto simp: list_all_iff dest: in_set_takeD)
      ultimately show ?thesis
        using n(3) normalI[of "take (length pre - n) ys" r "min (length pre) n"] by simp
    qed
    ultimately show ?thesis using foldl_push_id[of r pre] by simp
  qed
  ultimately show ?thesis by simp
qed

lemma path_join_elements:
  assumes "xs \<noteq> []" and "\<forall>x\<in>set xs. x \<noteq> [] \<and> slash \<notin> set x"
  shows "path_join xs = show_path False (rev (foldl (push_elem False) [] xs))"
proof -
  obtain x ys where xs: "xs = x # ys" using assms(1) by (cases xs) auto
  then have x: "x \<noteq> []" "slash \<notin> set x" using assms(2) by auto
  then have "hd x \<noteq> slash" by (cases x) auto
  then have "\<not> rooted (str_join xs [slash])" "str_join xs [slash] \<noteq> []"
    using hd_join[of x ys "[slash]"] x xs by (auto simp: rooted_def)
  moreover have "dropWhile (\<lambda>e. e = []) xs = xs" using xs x by simp
  ultimately show ?thesis
    using split_join[OF assms(1), of slash] assms by (simp add: path_join_def path_clean_def elements_def)
qed

text \<open>What a relative path of shape \<open>../..\<close> and then \<open>ts\<close> does to a base.\<close>

lemma resolve_relative:
  assumes b: "normal r (pre @ bs)" "list_all proper bs" and t: "normal r (pre @ ts)"
    and ne: "replicate (length bs) ''..'' @ ts \<noteq> []"
  shows "path_clean (show_path r (pre @ bs) @ slash # path_join (replicate (length bs) ''..'' @ ts)) = show_path r (pre @ ts)"
proof -
  let ?out = "replicate (length bs) ''..'' @ ts" and ?p = "show_path r (pre @ bs)"
  have p: "rooted ?p = r" "elements ?p = pre @ bs" "?p \<noteq> []"
    using show_path_split[OF b(1)] by auto
  have ts: "normal r ts" using normal_drop[OF t, of "length pre"] by simp
  then obtain n ys where n: "ts = replicate n ''..'' @ ys" "list_all proper ys"
    unfolding normal_def by blast
  have no: "\<forall>x\<in>set ?out. x \<noteq> [] \<and> slash \<notin> set x"
    using proper_no_slash[OF ts] by auto
  have out: "?out = replicate (length bs + n) ''..'' @ ys"
    using n(1) by (simp add: replicate_add)
  have "normal False ?out"
    unfolding out using n(2) by (intro normalI) simp_all
  then have rel: "path_join ?out = show_path False ?out"
    using path_join_elements[OF ne no] foldl_push_id[of False ?out] by simp
  have split: "split_byte slash (show_path False ?out) = ?out"
    using ne split_join[OF ne, of slash] no by (simp add: show_path_def)
  have "elements (?p @ slash # path_join ?out) = rev (foldl (push_elem r) (rev (pre @ bs)) ?out)"
    unfolding rel using elements_append[OF p(3)] p(1,2) split by simp
  also have "\<dots> = pre @ ts"
    using elements_climb[OF b t] by simp
  finally have "elements (?p @ slash # path_join ?out) = elements (show_path r (pre @ ts))"
    using show_path_split[OF t] by simp
  moreover have "rooted (?p @ slash # path_join ?out) = rooted (show_path r (pre @ ts))"
    using show_path_split[OF t] p rooted_append[OF p(3)] by simp
  moreover have "path_clean (show_path r (pre @ ts)) = show_path r (pre @ ts)"
    using show_path_split[OF t] by (simp add: path_clean_def)
  ultimately show ?thesis
    using path_clean_cong[of "?p @ slash # path_join ?out" "show_path r (pre @ ts)"] by simp
qed

text \<open>C40: Resolved against its base directory, the path SlashRel computes yields the cleaned target:
  for a base and a target that are both absolute or both relative, where the cleaned base does not
  climb above its start.\<close>
theorem SlashRel_resolves:
  assumes "IsPOSIXAbsolute (SlashClean baseDir) = IsPOSIXAbsolute (SlashClean tgt)"
    and "''..'' \<notin> set (splitSlash (SlashClean baseDir))"
  shows "path_clean (SlashClean baseDir @ ''/'' @ SlashRel baseDir tgt) = SlashClean tgt"
proof -
  define r where "r = rooted (ToSlash baseDir)"
  obtain bs where bs: "normal r bs" "SlashClean baseDir = show_path r bs"
    using path_clean_show[of "ToSlash baseDir"] by (auto simp: SlashClean_def r_def)
  have "rooted (ToSlash tgt) = r"
    using assms(1) by (simp add: IsPOSIXAbsolute_rooted SlashClean_def path_clean_split r_def)
  then obtain ts where ts: "normal r ts" "SlashClean tgt = show_path r ts"
    using path_clean_show[of "ToSlash tgt"] by (auto simp: SlashClean_def)
  let ?s = "\<lambda>xs. if r then [] # xs else xs"
  have seg: "splitSlash (SlashClean baseDir) = ?s bs" "splitSlash (SlashClean tgt) = ?s ts"
    using splitSlash_show[OF bs(1)] splitSlash_show[OF ts(1)] bs(2) ts(2) by simp_all
  define i where "i = common_segments bs ts"
  have i: "take i bs = take i ts" "i \<le> length bs" "i \<le> length ts"
    using common_segments_take[of bs ts] by (auto simp: i_def)
  have rest: "drop (common_segments (?s bs) (?s ts)) (?s bs) = drop i bs"
      "drop (common_segments (?s bs) (?s ts)) (?s ts) = drop i ts"
    by (simp_all add: i_def)
  have noup: "''..'' \<notin> set bs"
    using assms(2) seg(1) by (auto split: if_splits)
  then have up: "climb (drop i bs) = Some (replicate (length (drop i bs)) ''..'')"
    by (intro climb_total) (auto dest: in_set_dropD)
  have proper: "list_all proper (drop i bs)"
    using normal_no_up[OF bs(1) noup] by (auto simp: list_all_iff dest: in_set_dropD)
  have split: "bs = take i bs @ drop i bs" "ts = take i bs @ drop i ts"
    by simp (simp add: i(1))
  show ?thesis
  proof (cases "bs = ts")
    case True
    have "split_byte slash ''.'' = [''.'']" by simp
    then have "elements (show_path r bs @ slash # ''.'') = elements (show_path r bs)"
      using show_path_split[OF bs(1)] elements_append[of "show_path r bs" "''.''"]
      by (simp add: push_elem_def)
    moreover have "rooted (show_path r bs @ slash # ''.'') = rooted (show_path r bs)"
      using show_path_split[OF bs(1)] by (simp add: rooted_append)
    moreover have "path_clean (show_path r bs) = show_path r bs"
      using show_path_split[OF bs(1)] by (simp add: path_clean_def)
    ultimately have "path_clean (show_path r bs @ slash # ''.'') = show_path r bs"
      using path_clean_cong[of "show_path r bs @ slash # ''.''" "show_path r bs"] by simp
    then show ?thesis using True bs ts by (simp add: SlashRel_def)
  next
    case False
    then have "show_path r bs \<noteq> show_path r ts"
      using show_path_split[OF bs(1)] show_path_split[OF ts(1)] by metis
    moreover have ne: "replicate (length (drop i bs)) ''..'' @ drop i ts \<noteq> []"
    proof
      assume "replicate (length (drop i bs)) ''..'' @ drop i ts = []"
      then have "drop i bs = []" "drop i ts = []" by simp_all
      then show False using False split by simp
    qed
    ultimately have "SlashRel baseDir tgt = path_join (replicate (length (drop i bs)) ''..'' @ drop i ts)"
      using assms(1) seg rest up bs(2) ts(2) by (auto simp: SlashRel_def Let_def)
    moreover have "path_clean (show_path r (take i bs @ drop i bs) @ slash # path_join (replicate (length (drop i bs)) ''..'' @ drop i ts))
        = show_path r (take i bs @ drop i ts)"
      by (rule resolve_relative[OF _ proper _ ne]) (use bs(1) ts(1) split in simp_all)
    ultimately show ?thesis
      using split bs(2) ts(2) by simp
  qed
qed

theorem SlashRel_resolves_witness:
  "path_clean (SlashClean ''/a/b/c'' @ ''/'' @ SlashRel ''/a/b/c'' ''/a/x/../d'') = SlashClean ''/a/x/../d''"
  by (rule SlashRel_resolves) code_simp+

text \<open>SlashClean is idempotent and keeps a path absolute or relative.\<close>
theorem SlashClean_stable:
  "path_clean (SlashClean p) = SlashClean p \<and> IsPOSIXAbsolute (SlashClean p) = IsPOSIXAbsolute (ToSlash p)"
  by (simp add: SlashClean_def path_clean_idem IsPOSIXAbsolute_rooted path_clean_split)

lemma common_segments_longest:
  "prefix qs xs \<Longrightarrow> prefix qs ys \<Longrightarrow> length qs \<le> common_segments xs ys"
proof (induction xs ys arbitrary: qs rule: common_segments.induct)
  case (1 x xs y ys)
  then show ?case by (cases qs) auto
qed (auto simp: prefix_def)

lemma normal_take: "normal r xs \<Longrightarrow> normal r (take n xs)"
proof -
  assume "normal r xs"
  then obtain k ys where k: "xs = replicate k ''..'' @ ys" "list_all proper ys" "r \<longrightarrow> k = 0"
    unfolding normal_def by blast
  have "normal r (replicate (min n k) ''..'' @ take (n - k) ys)"
    using k(2,3) by (intro normalI) (auto simp: list_all_iff dest: in_set_takeD)
  then show ?thesis using k(1) by (simp add: take_replicate)
qed

lemma path_join_normal: "normal r xs \<Longrightarrow> xs \<noteq> [] \<Longrightarrow> path_join xs = str_join xs [slash]"
proof -
  assume n: "normal r xs" and ne: "xs \<noteq> []"
  have "normal False xs"
    using n unfolding normal_def by blast
  then have "foldl (push_elem False) [] xs = rev xs" by (rule foldl_push_id)
  then show ?thesis
    using path_join_elements[OF ne] proper_no_slash[OF n] ne by (simp add: show_path_def)
qed

lemma joinSlashSegments_split:
  assumes "normal r xs"
  shows "splitSlash (joinSlashSegments (if r then [] # xs else xs)) = (if r then [] # xs else xs)"
proof -
  have "joinSlashSegments (if r then [] # xs else xs) = show_path r xs"
  proof (cases xs)
    case Nil
    then show ?thesis by (simp add: joinSlashSegments_def show_path_def)
  next
    case (Cons x ys)
    then have "x \<noteq> []" using proper_no_slash[OF assms, of x] by simp
    then show ?thesis
      using Cons path_join_normal[OF assms] by (simp add: joinSlashSegments_def show_path_def)
  qed
  then show ?thesis using splitSlash_show[OF assms] by simp
qed

text \<open>The segments of SlashCommonDir are the longest common prefix of the segments of the two
  directories.\<close>
theorem SlashCommonDir_longest:
  "prefix (splitSlash (SlashCommonDir a b)) (splitSlash (SlashDir (SlashClean a)))
   \<and> prefix (splitSlash (SlashCommonDir a b)) (splitSlash (SlashDir (SlashClean b)))
   \<and> \<not> (\<exists>qs. prefix qs (splitSlash (SlashDir (SlashClean a))) \<and> prefix qs (splitSlash (SlashDir (SlashClean b)))
        \<and> length qs > length (splitSlash (SlashCommonDir a b)))"
proof -
  let ?a = "splitSlash (SlashDir (SlashClean a))" and ?b = "splitSlash (SlashDir (SlashClean b))"
  define n where "n = common_segments ?a ?b"
  obtain p where p: "SlashDir (SlashClean a) = path_clean p"
    by (simp add: SlashDir_def path_dir_def)
  obtain xs where xs: "normal (rooted p) xs" "path_clean p = show_path (rooted p) xs"
    using path_clean_show[of p] by blast
  then have a: "?a = (if rooted p then [] # xs else xs)"
    using splitSlash_show p by simp
  have "splitSlash (SlashCommonDir a b) = take n ?a"
  proof (cases n)
    case 0
    then have "SlashCommonDir a b = ''.''"
      unfolding SlashCommonDir_def Let_def n_def[symmetric] by simp
    moreover have "splitSlash ''.'' = []" by (simp add: splitSlash_def)
    ultimately show ?thesis using 0 by simp
  next
    case (Suc m)
    have "take n ?a = (if rooted p then [] # take m xs else take n xs)"
      using a Suc by simp
    moreover have "SlashCommonDir a b = joinSlashSegments (take n ?a)"
      using Suc by (simp add: SlashCommonDir_def n_def[symmetric])
    ultimately show ?thesis
      using joinSlashSegments_split[OF normal_take[OF xs(1), of m]] joinSlashSegments_split[OF normal_take[OF xs(1), of n]]
      by (cases "rooted p") simp_all
  qed
  moreover have "take n ?a = take n ?b" "n \<le> length ?a" "n \<le> length ?b"
    using common_segments_take[of ?a ?b] by (simp_all add: n_def)
  moreover have "length qs \<le> n" if "prefix qs ?a" "prefix qs ?b" for qs
    using common_segments_longest[OF that] by (simp add: n_def)
  ultimately show ?thesis
    using take_is_prefix[of n ?a] take_is_prefix[of n ?b] by (auto simp: not_less)
qed

end
