(* ===== verification/CatalogNames.thy ===== *)
theory CatalogNames
  imports GoLib
begin

text \<open>
  The identifiers of the catalog package (\<open>internal/catalog\<close>): public identifier
  normalization (\<open>normalize.go\<close>), \<open>urn:publicid:\<close> URNs (\<open>urn.go\<close>) and the scheme test of
  \<open>uri.go\<close>.
\<close>

subsection \<open>Public identifiers\<close>

definition is_blank :: "char \<Rightarrow> bool" where
  "is_blank c \<longleftrightarrow> c = CHR 0x20 \<or> c = CHR 0x09 \<or> c = CHR 0x0A \<or> c = CHR 0x0D"

text \<open>The loop of \<open>NormalizePublicID\<close>, over the state of the builder and of \<open>inSpace\<close>.\<close>

fun normalize_loop :: "string \<Rightarrow> bool \<Rightarrow> string \<Rightarrow> string" where
  "normalize_loop b inSpace [] = b"
| "normalize_loop b inSpace (c # s) =
     (if is_blank c then normalize_loop b True s
      else normalize_loop ((if inSpace \<and> length b > 0 then b @ [CHR 0x20] else b) @ [c]) False s)"

definition NormalizePublicID :: "string \<Rightarrow> string" where
  "NormalizePublicID pubID = normalize_loop [] True pubID"

text \<open>The words of an identifier.\<close>

fun words :: "string \<Rightarrow> string list" where
  "words [] = []"
| "words (c # s) =
     (if is_blank c then words s
      else (case s of
          [] \<Rightarrow> [[c]]
        | d # _ \<Rightarrow> if is_blank d then [c] # words s
                   else (case words s of w # ws \<Rightarrow> (c # w) # ws | [] \<Rightarrow> [[c]])))"

lemma words_blank: "is_blank c \<Longrightarrow> words (c # s) = words s"
  by simp

lemma words_not_blank:
  "\<not> is_blank c \<Longrightarrow> words (c # s) =
    (if s = [] \<or> is_blank (hd s) then [c] # words s else (c # hd (words s)) # tl (words s))"
proof (induction s arbitrary: c)
  case (Cons d s)
  show ?case
  proof (cases "is_blank d")
    case False
    then have "words (d # s) \<noteq> []" using Cons.IH[of d] by simp
    then show ?thesis using Cons.prems False by (cases "words (d # s)") simp_all
  qed (use Cons.prems in simp)
qed simp

declare words.simps(2) [simp del]

lemma words_not_Nil: "s \<noteq> [] \<Longrightarrow> \<not> is_blank (hd s) \<Longrightarrow> words s \<noteq> []"
  by (cases s) (simp_all add: words_not_blank)

lemma normalize_loop_words:
  "b \<noteq> [] \<Longrightarrow> normalize_loop b True s = b @ concat (map (\<lambda>w. CHR 0x20 # w) (words s))"
  "b \<noteq> [] \<Longrightarrow> normalize_loop b False s =
     b @ (if s = [] \<or> is_blank (hd s) then concat (map (\<lambda>w. CHR 0x20 # w) (words s))
          else hd (words s) @ concat (map (\<lambda>w. CHR 0x20 # w) (tl (words s))))"
proof (induction s arbitrary: b)
  case (Cons c s)
  { case 1
    then show ?case
      using Cons.IH(1)[of b] Cons.IH(2)[of "b @ [CHR 0x20, c]"]
      by (auto simp: words_blank words_not_blank)
  next
    case 2
    then show ?case
      using Cons.IH(1)[of b] Cons.IH(2)[of "b @ [c]"]
      by (auto simp: words_blank words_not_blank) }
qed simp_all

lemma str_join_concat: "str_join (w # ws) sep = w @ concat (map (\<lambda>w. sep @ w) ws)"
  by (induction ws arbitrary: w) simp_all

lemma NormalizePublicID_words: "NormalizePublicID s = str_join (words s) [CHR 0x20]"
proof (induction s)
  case (Cons c s)
  show ?case
  proof (cases "is_blank c")
    case True
    then show ?thesis using Cons by (simp add: NormalizePublicID_def words_blank)
  next
    case False
    then have "NormalizePublicID (c # s) = normalize_loop [c] False s"
      by (simp add: NormalizePublicID_def)
    then show ?thesis
      using False normalize_loop_words(2)[of "[c]" s] by (simp add: words_not_blank str_join_concat)
  qed
qed (simp add: NormalizePublicID_def)

lemma words_clean: "w \<in> set (words s) \<Longrightarrow> w \<noteq> [] \<and> (\<forall>c\<in>set w. \<not> is_blank c)"
proof (induction s arbitrary: w)
  case (Cons c s)
  show ?case
  proof (cases "is_blank c")
    case True
    then show ?thesis using Cons by (simp add: words_blank)
  next
    case False
    show ?thesis
    proof (cases "s = [] \<or> is_blank (hd s)")
      case True
      then show ?thesis using Cons False by (auto simp: words_not_blank)
    next
      case f: False
      then have "words s \<noteq> []" by (simp add: words_not_Nil)
      then have "hd (words s) \<in> set (words s)" "set (tl (words s)) \<subseteq> set (words s)"
        by (cases "words s"; auto)+
      then show ?thesis using Cons False f by (auto simp: words_not_blank)
    qed
  qed
qed simp

lemma words_prepend:
  "w \<noteq> [] \<Longrightarrow> \<forall>c\<in>set w. \<not> is_blank c \<Longrightarrow> s = [] \<or> is_blank (hd s) \<Longrightarrow> words (w @ s) = w # words s"
proof (induction w)
  case (Cons c w)
  then show ?case by (cases w) (auto simp: words_not_blank)
qed simp

lemma words_join:
  "\<forall>w\<in>set ws. w \<noteq> [] \<and> (\<forall>c\<in>set w. \<not> is_blank c) \<Longrightarrow> words (str_join ws [CHR 0x20]) = ws"
proof (induction ws)
  case (Cons w ws)
  show ?case
  proof (cases ws)
    case Nil
    then show ?thesis using words_prepend[of w "[]"] Cons.prems by simp
  next
    case (Cons v vs)
    then have "str_join (w # ws) [CHR 0x20] = w @ CHR 0x20 # str_join ws [CHR 0x20]"
      by simp
    moreover have "words (w @ CHR 0x20 # str_join ws [CHR 0x20]) = w # words (str_join ws [CHR 0x20])"
      using words_prepend[of w "CHR 0x20 # str_join ws [CHR 0x20]"] Cons.prems by (simp add: is_blank_def words_blank)
    ultimately show ?thesis using Cons.IH Cons.prems by simp
  qed
qed simp

text \<open>Normalizing a public identifier joins its words, the maximal runs without blanks, by single
  spaces, so the result has no blank at its ends and is unchanged by a second normalization.\<close>
theorem NormalizePublicID_normal:
  "NormalizePublicID s = str_join (words s) [CHR 0x20] \<and> NormalizePublicID (NormalizePublicID s) = NormalizePublicID s"
  using words_join[of "words s"] words_clean by (simp add: NormalizePublicID_words)

subsection \<open>URNs\<close>

definition urnPrefix :: string where
  "urnPrefix = ''urn:publicid:''"

definition ascii_upper :: "char \<Rightarrow> char" where
  "ascii_upper c = (if 97 \<le> byte c \<and> byte c \<le> 122 then char_of (byte c - 32) else c)"

text \<open>The switch over the escapes of a \<open>%\<close> followed by two bytes.\<close>

definition urn_escape :: "char \<Rightarrow> char \<Rightarrow> char option" where
  "urn_escape a b =
     (let esc = [ascii_upper a, ascii_upper b] in
      if esc = ''2B'' then Some CHR 0x2B
      else if esc = ''3A'' then Some CHR 0x3A
      else if esc = ''2F'' then Some CHR 0x2F
      else if esc = ''3B'' then Some CHR 0x3B
      else if esc = ''27'' then Some CHR 0x27
      else if esc = ''3F'' then Some CHR 0x3F
      else if esc = ''23'' then Some CHR 0x23
      else if esc = ''25'' then Some CHR 0x25
      else None)"

fun urn_decode :: "string \<Rightarrow> string" where
  "urn_decode [] = []"
| "urn_decode (c # s) =
     (if c = CHR 0x2B then CHR 0x20 # urn_decode s
      else if c = CHR 0x3A then ''//'' @ urn_decode s
      else if c = CHR 0x3B then ''::'' @ urn_decode s
      else if c = CHR 0x25 then
        (case s of
           a # b # r \<Rightarrow> (case urn_escape a b of
               Some d \<Rightarrow> d # urn_decode r
             | None \<Rightarrow> CHR 0x25 # urn_decode (a # b # r))
         | _ \<Rightarrow> CHR 0x25 # urn_decode s)
      else c # urn_decode s)"

declare urn_decode.simps(2) [simp del]

definition urn_prefixed :: "string \<Rightarrow> bool" where
  "urn_prefixed urn \<longleftrightarrow> \<not> (length urn < length urnPrefix \<or> \<not> equal_fold (take (length urnPrefix) urn) urnPrefix)"

definition UnwrapURN :: "string \<Rightarrow> string" where
  "UnwrapURN urn =
     (if length urn < length urnPrefix \<or> \<not> equal_fold (take (length urnPrefix) urn) urnPrefix then []
      else urn_decode (drop (length urnPrefix) urn))"

text \<open>The transcription of RFC 3151, the other direction.\<close>

fun urn_encode :: "string \<Rightarrow> string" where
  "urn_encode [] = []"
| "urn_encode (c # s) =
     (if c = CHR 0x20 then CHR 0x2B # urn_encode s
      else if c = CHR 0x2F then (case s of d # r \<Rightarrow> if d = CHR 0x2F then CHR 0x3A # urn_encode r
          else ''%2F'' @ urn_encode s | [] \<Rightarrow> ''%2F'')
      else if c = CHR 0x3A then (case s of d # r \<Rightarrow> if d = CHR 0x3A then CHR 0x3B # urn_encode r
          else ''%3A'' @ urn_encode s | [] \<Rightarrow> ''%3A'')
      else if c = CHR 0x2B then ''%2B'' @ urn_encode s
      else if c = CHR 0x3B then ''%3B'' @ urn_encode s
      else if c = CHR 0x27 then ''%27'' @ urn_encode s
      else if c = CHR 0x3F then ''%3F'' @ urn_encode s
      else if c = CHR 0x23 then ''%23'' @ urn_encode s
      else if c = CHR 0x25 then ''%25'' @ urn_encode s
      else c # urn_encode s)"

lemma urn_escape_eval:
  "urn_escape CHR ''2'' CHR ''B'' = Some CHR 0x2B" "urn_escape CHR ''3'' CHR ''A'' = Some CHR 0x3A"
  "urn_escape CHR ''2'' CHR ''F'' = Some CHR 0x2F" "urn_escape CHR ''3'' CHR ''B'' = Some CHR 0x3B"
  "urn_escape CHR ''2'' CHR ''7'' = Some CHR 0x27" "urn_escape CHR ''3'' CHR ''F'' = Some CHR 0x3F"
  "urn_escape CHR ''2'' CHR ''3'' = Some CHR 0x23" "urn_escape CHR ''2'' CHR ''5'' = Some CHR 0x25"
  by code_simp+

lemma urn_decode_escape:
  "urn_escape a b = Some d \<Longrightarrow> urn_decode (CHR 0x25 # a # b # r) = d # urn_decode r"
  by (simp add: urn_decode.simps(2)[of "CHR 0x25"])

lemma urn_decode_percent:
  "\<forall>a b r d. s = a # b # r \<longrightarrow> urn_escape a b = None \<Longrightarrow> urn_decode (CHR 0x25 # s) = CHR 0x25 # urn_decode s"
  by (auto simp: urn_decode.simps(2)[of "CHR 0x25"] split: list.split)

lemma urn_decode_other:
  "c \<noteq> CHR 0x25 \<Longrightarrow> urn_decode (c # s) =
     (if c = CHR 0x2B then '' '' else if c = CHR 0x3A then ''//'' else if c = CHR 0x3B then ''::'' else [c]) @ urn_decode s"
  by (simp add: urn_decode.simps(2)[of c])

lemma urn_induct [case_names Nil escape percent other]:
  assumes "P []" and "\<And>a b d r. urn_escape a b = Some d \<Longrightarrow> P r \<Longrightarrow> P (CHR 0x25 # a # b # r)"
    and "\<And>s. \<forall>a b r d. s = a # b # r \<longrightarrow> urn_escape a b = None \<Longrightarrow> P s \<Longrightarrow> P (CHR 0x25 # s)"
    and "\<And>c s. c \<noteq> CHR 0x25 \<Longrightarrow> P s \<Longrightarrow> P (c # s)"
  shows "P s"
proof (induction s rule: length_induct)
  case (1 s)
  show ?case
  proof (cases s)
    case Nil
    then show ?thesis using assms(1) by simp
  next
    case (Cons c t)
    show ?thesis
    proof (cases "c = CHR 0x25")
      case False
      then show ?thesis using assms(4)[of c t] 1 Cons by simp
    next
      case c: True
      show ?thesis
      proof (cases "\<exists>a b r d. t = a # b # r \<and> urn_escape a b = Some d")
        case True
        then obtain a b r d where "t = a # b # r" "urn_escape a b = Some d" by blast
        then show ?thesis using assms(2)[of a b d r] 1 Cons c by simp
      next
        case False
        then show ?thesis using assms(3)[of t] 1 Cons c by auto
      qed
    qed
  qed
qed

lemma urn_encode_plain:
  "c \<notin> {CHR 0x20, CHR 0x2F, CHR 0x3A, CHR 0x2B, CHR 0x3B, CHR 0x27, CHR 0x3F, CHR 0x23, CHR 0x25} \<Longrightarrow>
    urn_encode (c # s) = c # urn_encode s"
  by (subst urn_encode.simps(2)) (simp only: insert_iff empty_iff if_False simp_thms de_Morgan_disj)

lemma urn_decode_encode: "urn_decode (urn_encode s) = s"
proof (induction s rule: urn_encode.induct)
  case (2 c s)
  show ?case
  proof (cases "c \<in> {CHR 0x20, CHR 0x2F, CHR 0x3A, CHR 0x2B, CHR 0x3B, CHR 0x27, CHR 0x3F, CHR 0x23, CHR 0x25}")
    case False
    then have "c \<noteq> CHR 0x25 \<and> c \<noteq> CHR 0x2B \<and> c \<noteq> CHR 0x3A \<and> c \<noteq> CHR 0x3B"
      by (simp only: insert_iff empty_iff simp_thms de_Morgan_disj)
    moreover have "urn_decode (urn_encode s) = s"
      using 2 False by (simp only: insert_iff empty_iff simp_thms de_Morgan_disj)
    ultimately show ?thesis
      using False by (simp only: urn_encode_plain urn_decode_other if_False simp_thms append_Cons append_Nil)
  next
    case True
    then show ?thesis
      using 2 by (simp only: insert_iff empty_iff simp_thms, elim disjE; cases s;
        simp add: urn_decode_other urn_decode_escape urn_escape_eval)
  qed
qed simp

text \<open>Unwrapping is the inverse of the transcription of RFC 3151: the URN of any public identifier
  unwraps to the identifier.\<close>
theorem UnwrapURN_encode: "UnwrapURN (''urn:publicid:'' @ urn_encode p) = p"
  by (simp add: UnwrapURN_def urnPrefix_def equal_fold_def urn_decode_encode)

subsection \<open>Why unwrapping ends\<close>

text \<open>
  An unwrapped identifier is unwrapped again when it is a URN itself.  A single colon in it comes from
  the escape \<open>%3A\<close>, so the number of percent signs drops each time.  \<open>colons q s\<close> follows the
  parity of the current run of colons, \<^const>\<open>None\<close> after an odd run.
\<close>

abbreviation pct :: "string \<Rightarrow> nat" where
  "pct s \<equiv> length (filter (\<lambda>c. c = CHR 0x25) s)"

fun colons :: "bool \<Rightarrow> string \<Rightarrow> bool option" where
  "colons q [] = Some q"
| "colons q (c # s) = (if c = CHR 0x3A then colons (\<not> q) s else if q then None else colons False s)"

lemma colons_append: "colons q (a @ s) = (case colons q a of None \<Rightarrow> None | Some q' \<Rightarrow> colons q' s)"
  by (induction q a rule: colons.induct) simp_all

lemma colons_normalize_loop:
  "colons False b = Some q \<Longrightarrow> (sp \<longrightarrow> \<not> q) \<Longrightarrow> colons q s = Some False \<Longrightarrow>
    colons False (normalize_loop b sp s) = Some False"
proof (induction b sp s arbitrary: q rule: normalize_loop.induct)
  case (2 b sp c s)
  show ?case
  proof (cases "is_blank c")
    case True
    then show ?thesis using 2 by (auto simp: is_blank_def split: if_splits)
  next
    case False
    then show ?thesis
      using 2 by (auto simp: colons_append split: if_splits)
  qed
qed simp

lemma pct_normalize_loop: "pct (normalize_loop b sp s) = pct b + pct s"
  by (induction b sp s rule: normalize_loop.induct) (auto simp: is_blank_def)

lemma pct_NormalizePublicID [simp]: "pct (NormalizePublicID s) = pct s"
  by (simp add: NormalizePublicID_def pct_normalize_loop)

lemma urn_escape_no_percent: "urn_escape a b = Some d \<Longrightarrow> a \<noteq> CHR 0x25 \<and> b \<noteq> CHR 0x25"
  by (auto simp: urn_escape_def Let_def ascii_upper_def split: if_splits)

lemma pct_urn_decode: "pct (urn_decode s) \<le> pct s"
  by (induction s rule: urn_induct)
    (auto simp: urn_decode_escape urn_decode_percent urn_decode_other dest: urn_escape_no_percent)

lemma urn_decode_colons:
  "pct (urn_decode s) = pct s \<Longrightarrow> colons False (urn_decode s) = Some False"
proof (induction s rule: urn_induct)
  case (escape a b d r)
  then have "d = CHR 0x25 \<and> pct (urn_decode r) = pct r"
    using urn_escape_no_percent[OF escape(1)] pct_urn_decode[of r]
    by (auto simp: urn_decode_escape split: if_splits)
  then show ?case using escape by (simp add: urn_decode_escape)
qed (auto simp: urn_decode_percent urn_decode_other)

lemma prefix_has_single_colon:
  assumes "urn_prefixed s"
  shows "colons False s = None"
proof -
  have lit: "map ascii_lower urnPrefix = ''urn:publicid:''" "length urnPrefix = 13"
    by code_simp+
  from assms have "map ascii_lower (take 13 s) = ''urn:publicid:''" "13 \<le> length s"
    unfolding urn_prefixed_def equal_fold_def lit by simp_all
  then obtain u r n k p t where s: "s = u # r # n # k # p # t" and
      low: "ascii_lower u = CHR ''u''" "ascii_lower r = CHR ''r''" "ascii_lower n = CHR ''n''"
        "ascii_lower k = CHR '':''" "ascii_lower p = CHR ''p''"
    by (auto simp: numeral_eq_Suc Suc_le_length_iff)
  have "ascii_lower CHR '':'' = CHR '':''" by (simp add: ascii_lower_def)
  moreover have "k = CHR '':''"
    using low(4) by (auto simp: ascii_lower_def split: if_splits dest: arg_cong[where f = byte])
  ultimately show ?thesis
    using s low by auto
qed

text \<open>The weight of an identifier drops when it is unwrapped.\<close>

definition urn_weight :: "string \<Rightarrow> nat" where
  "urn_weight s = 2 * pct s + (if urn_prefixed (NormalizePublicID s) then 1 else 0)"

lemma pct_take_drop: "pct (drop n s) \<le> pct s"
  by (metis append_take_drop_id filter_append le_add2 length_append)

lemma urn_prefix_no_blank: "urn_prefixed s \<Longrightarrow> urn_prefixed (NormalizePublicID s)"
proof -
  assume s: "urn_prefixed s"
  have lit: "map ascii_lower urnPrefix = ''urn:publicid:''" "length urnPrefix = 13"
    by code_simp+
  have pre: "map ascii_lower (take 13 s) = ''urn:publicid:''" "13 \<le> length s"
    using s unfolding urn_prefixed_def equal_fold_def lit by simp_all
  have blank: "ascii_lower c = c" if "is_blank c" for c
    using that by (auto simp: is_blank_def ascii_lower_def)
  have "\<not> is_blank c" if "c \<in> set (take 13 s)" for c
  proof
    assume "is_blank c"
    moreover have "ascii_lower c \<in> set (map ascii_lower (take 13 s))"
      using that by simp
    ultimately have "c \<in> set ''urn:publicid:''"
      using pre(1) blank by metis
    then show False using \<open>is_blank c\<close> by (auto simp: is_blank_def)
  qed
  moreover have "\<forall>c\<in>set w. \<not> is_blank c \<Longrightarrow> normalize_loop b False (w @ t) = normalize_loop (b @ w) False t" for b w t
    by (induction w arbitrary: b) simp_all
  moreover have "normalize_loop [] True (c # w) = normalize_loop [c] False w" if "\<not> is_blank c" for c w
    using that by simp
  moreover obtain c w where "take 13 s = c # w"
    using pre(2) by (cases s) auto
  ultimately have "NormalizePublicID (take 13 s @ drop 13 s) = normalize_loop (take 13 s) False (drop 13 s)"
    by (simp add: NormalizePublicID_def)
  then have n: "NormalizePublicID s = normalize_loop (take 13 s) False (drop 13 s)"
    by simp
  have "\<exists>t. normalize_loop b sp u = b @ t" for b sp u
    by (induction b sp u rule: normalize_loop.induct) auto
  then obtain t where "NormalizePublicID s = take 13 s @ t"
    using n by metis
  then show "urn_prefixed (NormalizePublicID s)"
    using pre unfolding urn_prefixed_def equal_fold_def lit by simp
qed

lemma NormalizePublicID_idem [simp]: "NormalizePublicID (NormalizePublicID s) = NormalizePublicID s"
  using words_join[of "words s"] words_clean by (simp add: NormalizePublicID_words)

lemma urn_weight_normalize [simp]: "urn_weight (NormalizePublicID s) = urn_weight s"
  by (simp add: urn_weight_def)

lemma urn_weight_Nil [simp]: "urn_weight [] = 0"
  by (simp add: urn_weight_def NormalizePublicID_def urn_prefixed_def urnPrefix_def)

lemma UnwrapURN_weight:
  assumes "UnwrapURN s \<noteq> []"
  shows "urn_weight (UnwrapURN s) < urn_weight s"
proof -
  have pre: "urn_prefixed s" and u: "UnwrapURN s = urn_decode (drop (length urnPrefix) s)"
    using assms by (auto simp: UnwrapURN_def urn_prefixed_def split: if_splits)
  let ?r = "drop (length urnPrefix) s"
  have le: "pct (urn_decode ?r) \<le> pct ?r" "pct ?r \<le> pct s"
    by (rule pct_urn_decode, rule pct_take_drop)
  have "pct (urn_decode ?r) < pct ?r" if "urn_prefixed (NormalizePublicID (urn_decode ?r))"
  proof (rule ccontr)
    assume "\<not> pct (urn_decode ?r) < pct ?r"
    then have "colons False (urn_decode ?r) = Some False"
      using le(1) by (intro urn_decode_colons) simp
    then have "colons False (NormalizePublicID (urn_decode ?r)) = Some False"
      unfolding NormalizePublicID_def by (intro colons_normalize_loop[where q = False]) simp_all
    then show False using prefix_has_single_colon[OF that] by simp
  qed
  then show ?thesis
    using le urn_prefix_no_blank[OF pre] by (auto simp: urn_weight_def u)
qed

lemma UnwrapURN_positive: "UnwrapURN s = t \<Longrightarrow> t \<noteq> [] \<Longrightarrow> 0 < urn_weight s"
  using UnwrapURN_weight[of s] by simp

end
