(* ===== verification/CatalogResolve.thy ===== *)
theory CatalogResolve
  imports CatalogNames
begin

text \<open>
  Catalog resolution (\<open>internal/catalog/catalog.go\<close> and \<open>resolve.go\<close>).  A catalog holds its
  entries and the number of its loader; an entry may hold an inlined sub-catalog.  The loaders are a
  parameter: \<open>load l url\<close> is the catalog the loader \<open>l\<close> returns for a URL, \<^const>\<open>None\<close> when
  it fails or returns nothing.  \<open>cancelled\<close> says that the context of the resolution is done.

  The depth of \<open>resolveState\<close> goes up and down with the calls of \<open>resolve\<close>; here it is the
  first argument, counted down from \<open>MaxDepth + 1\<close>, so \<open>st.depth > MaxDepth\<close> is \<open>0\<close>.
  The other counters are threaded through the calls, with the entries whose catalog was asked of a loader so far.

  The success of a load is cached by the code in the entry (component \<open>CatalogLoad\<close>); a loader
  returns the same catalog for the same URL, so the cache changes which loads happen and not what
  they return.
\<close>

subsection \<open>Catalogs\<close>

datatype Prefer = PreferNone | PreferPublic | PreferSystem

datatype EntryType = EntryPublic | EntrySystem | EntryRewriteSystem | EntryDelegatePublic
  | EntryDelegateSystem | EntryURI | EntryRewriteURI | EntryDelegateURI | EntryNextCatalog

datatype Catalog = Catalog (Entries: "Entry list") (catPrefer: Prefer) (BaseURI: string) (Loader: "nat option")
  and Entry = Entry (Type: EntryType) (Name: string) (URL: string) (entPrefer: Prefer) (EntryCatalog: "Catalog option")

definition MaxDepth :: nat where "MaxDepth = 50"
definition MaxDelegates :: nat where "MaxDelegates = 50"
definition MaxNextCatalogs :: nat where "MaxNextCatalogs = 50"

definition CatalogBreak :: string where
  "CatalogBreak = CHR 0x00 # ''CATAL_BREAK''"

definition ParsePrefer :: "string \<Rightarrow> Prefer" where
  "ParsePrefer v = (if map ascii_lower v = ''system'' then PreferSystem
     else if map ascii_lower v = ''public'' then PreferPublic else PreferPublic)"

fun HasNextCatalog :: "Entry list \<Rightarrow> string \<Rightarrow> bool" where
  "HasNextCatalog [] url = False"
| "HasNextCatalog (e # es) url = (if Type e = EntryNextCatalog \<and> URL e = url then True else HasNextCatalog es url)"

text \<open>The stable sort by decreasing length of the start string.\<close>

definition matchingDelegates :: "Catalog \<Rightarrow> EntryType \<Rightarrow> string \<Rightarrow> Entry list" where
  "matchingDelegates c typ ident =
     sort_key (\<lambda>e. - int (length (Name e))) (filter (\<lambda>e. Type e = typ \<and> has_prefix ident (Name e)) (Entries c))"

record resolveState =
  visited :: "(string \<times> string \<times> string) list"
  delegates :: nat
  nextCatalogs :: nat
  loads :: "Entry list"

definition checkVisited :: "resolveState \<Rightarrow> string \<Rightarrow> string \<Rightarrow> string \<Rightarrow> bool \<times> resolveState" where
  "checkVisited s url id1 id2 =
     (if (url, id1, id2) \<in> set (visited s) then (True, s)
      else (False, s\<lparr>visited := visited s @ [(url, id1, id2)]\<rparr>))"

type_synonym loaders = "nat \<Rightarrow> string \<Rightarrow> Catalog option"

definition lazyLoad :: "loaders \<Rightarrow> bool \<Rightarrow> Catalog \<Rightarrow> Entry \<Rightarrow> resolveState \<Rightarrow> Catalog option \<times> resolveState" where
  "lazyLoad load cancelled c e st =
     (if cancelled then (None, st)
      else case EntryCatalog e of
        Some cat \<Rightarrow> (Some cat, st)
      | None \<Rightarrow> (case Loader c of
          None \<Rightarrow> (None, st)
        | Some l \<Rightarrow> (load l (URL e), st\<lparr>loads := loads st @ [e]\<rparr>)))"

subsection \<open>The loops over delegates and next catalogs\<close>

text \<open>
  The three loops over delegates differ in the test that skips an entry, the key of the visited cache
  and the resolution of the sub-catalog.
\<close>

fun delegate_loop :: "loaders \<Rightarrow> bool \<Rightarrow> Catalog \<Rightarrow> (Entry \<Rightarrow> bool) \<Rightarrow> string \<Rightarrow> string
    \<Rightarrow> (Catalog \<Rightarrow> resolveState \<Rightarrow> string \<times> resolveState) \<Rightarrow> string list \<Rightarrow> Entry list \<Rightarrow> resolveState
    \<Rightarrow> string \<times> resolveState" where
  "delegate_loop load cancelled c skip id1 id2 sub seen [] st = ([], st)"
| "delegate_loop load cancelled c skip id1 id2 sub seen (e # es) st =
     (if skip e then delegate_loop load cancelled c skip id1 id2 sub seen es st
      else if URL e \<in> set seen then delegate_loop load cancelled c skip id1 id2 sub seen es st
      else if delegates st \<ge> MaxDelegates then ([], st)
      else (case lazyLoad load cancelled c e (st\<lparr>delegates := delegates st + 1\<rparr>) of
          (None, st) \<Rightarrow> delegate_loop load cancelled c skip id1 id2 sub (URL e # seen) es st
        | (Some cat, st) \<Rightarrow>
            (case checkVisited st (URL e) id1 id2 of
               (True, st) \<Rightarrow> delegate_loop load cancelled c skip id1 id2 sub (URL e # seen) es st
             | (False, st) \<Rightarrow>
                 (case sub cat st of (ret, st) \<Rightarrow>
                    if ret \<noteq> [] \<and> ret \<noteq> CatalogBreak then (ret, st)
                    else delegate_loop load cancelled c skip id1 id2 sub (URL e # seen) es st))))"

fun next_loop :: "loaders \<Rightarrow> bool \<Rightarrow> Catalog \<Rightarrow> string \<Rightarrow> string
    \<Rightarrow> (Catalog \<Rightarrow> resolveState \<Rightarrow> string \<times> resolveState) \<Rightarrow> bool \<Rightarrow> Entry list \<Rightarrow> resolveState
    \<Rightarrow> string \<times> resolveState" where
  "next_loop load cancelled c id1 id2 sub deep [] st = ([], st)"
| "next_loop load cancelled c id1 id2 sub deep (e # es) st =
     (if Type e \<noteq> EntryNextCatalog then next_loop load cancelled c id1 id2 sub deep es st
      else if nextCatalogs st \<ge> MaxNextCatalogs then ([], st)
      else (case lazyLoad load cancelled c e (st\<lparr>nextCatalogs := nextCatalogs st + 1\<rparr>) of
          (None, st) \<Rightarrow> next_loop load cancelled c id1 id2 sub deep es st
        | (Some cat, st) \<Rightarrow>
            (case checkVisited st (URL e) id1 id2 of
               (True, st) \<Rightarrow> next_loop load cancelled c id1 id2 sub deep es st
             | (False, st) \<Rightarrow>
                 (case sub cat st of (ret, st) \<Rightarrow>
                    if ret \<noteq> [] \<and> ret \<noteq> CatalogBreak then (ret, st)
                    else if deep then ([], st)
                    else next_loop load cancelled c id1 id2 sub deep es st))))"

definition resolveDelegateSystem :: "loaders \<Rightarrow> bool \<Rightarrow> (Catalog \<Rightarrow> resolveState \<Rightarrow> string \<Rightarrow> string \<Rightarrow> string \<times> resolveState)
    \<Rightarrow> Catalog \<Rightarrow> resolveState \<Rightarrow> string \<Rightarrow> string \<times> resolveState" where
  "resolveDelegateSystem load cancelled rec c st sysID =
     delegate_loop load cancelled c (\<lambda>e. False) [] sysID (\<lambda>cat st. rec cat st [] sysID) []
       (matchingDelegates c EntryDelegateSystem sysID) st"

definition resolveDelegatePublic :: "loaders \<Rightarrow> bool \<Rightarrow> (Catalog \<Rightarrow> resolveState \<Rightarrow> string \<Rightarrow> string \<Rightarrow> string \<times> resolveState)
    \<Rightarrow> Catalog \<Rightarrow> resolveState \<Rightarrow> string \<Rightarrow> string \<times> resolveState" where
  "resolveDelegatePublic load cancelled rec c st pubID =
     delegate_loop load cancelled c (\<lambda>e. entPrefer e \<noteq> PreferPublic) pubID [] (\<lambda>cat st. rec cat st pubID []) []
       (matchingDelegates c EntryDelegatePublic pubID) st"

definition resolveDelegateURI :: "loaders \<Rightarrow> bool \<Rightarrow> (Catalog \<Rightarrow> resolveState \<Rightarrow> string \<Rightarrow> string \<times> resolveState)
    \<Rightarrow> Catalog \<Rightarrow> resolveState \<Rightarrow> string \<Rightarrow> string \<times> resolveState" where
  "resolveDelegateURI load cancelled rec c st uri =
     delegate_loop load cancelled c (\<lambda>e. False) uri [] (\<lambda>cat st. rec cat st uri) []
       (matchingDelegates c EntryDelegateURI uri) st"

definition resolveNextCatalogs :: "loaders \<Rightarrow> bool \<Rightarrow> (Catalog \<Rightarrow> resolveState \<Rightarrow> string \<Rightarrow> string \<Rightarrow> string \<times> resolveState)
    \<Rightarrow> bool \<Rightarrow> Catalog \<Rightarrow> resolveState \<Rightarrow> string \<Rightarrow> string \<Rightarrow> string \<times> resolveState" where
  "resolveNextCatalogs load cancelled rec deep c st pubID sysID =
     next_loop load cancelled c pubID sysID (\<lambda>cat st. rec cat st pubID sysID) deep (Entries c) st"

definition resolveNextCatalogsURI :: "loaders \<Rightarrow> bool \<Rightarrow> (Catalog \<Rightarrow> resolveState \<Rightarrow> string \<Rightarrow> string \<times> resolveState)
    \<Rightarrow> bool \<Rightarrow> Catalog \<Rightarrow> resolveState \<Rightarrow> string \<Rightarrow> string \<times> resolveState" where
  "resolveNextCatalogsURI load cancelled rec deep c st uri =
     next_loop load cancelled c uri [] (\<lambda>cat st. rec cat st uri) deep (Entries c) st"

subsection \<open>The core algorithm\<close>

text \<open>The scans of a catalog's entries: an exact match, or the longest rewrite, the number of
  delegates and the number of next catalogs.\<close>

fun scan_system :: "string \<Rightarrow> Entry list \<Rightarrow> Entry option \<Rightarrow> nat \<Rightarrow> nat \<Rightarrow> nat
    \<Rightarrow> string + Entry option \<times> nat \<times> nat \<times> nat" where
  "scan_system sysID [] rewrite lenRewrite haveDelegate haveNext = Inr (rewrite, lenRewrite, haveDelegate, haveNext)"
| "scan_system sysID (e # es) rewrite lenRewrite haveDelegate haveNext =
     (case Type e of
        EntrySystem \<Rightarrow> if Name e = sysID then Inl (URL e)
          else scan_system sysID es rewrite lenRewrite haveDelegate haveNext
      | EntryRewriteSystem \<Rightarrow>
          if has_prefix sysID (Name e) \<and> length (Name e) > lenRewrite
          then scan_system sysID es (Some e) (length (Name e)) haveDelegate haveNext
          else scan_system sysID es rewrite lenRewrite haveDelegate haveNext
      | EntryDelegateSystem \<Rightarrow>
          if has_prefix sysID (Name e)
          then scan_system sysID es rewrite lenRewrite (haveDelegate + 1) haveNext
          else scan_system sysID es rewrite lenRewrite haveDelegate haveNext
      | EntryNextCatalog \<Rightarrow> scan_system sysID es rewrite lenRewrite haveDelegate (haveNext + 1)
      | _ \<Rightarrow> scan_system sysID es rewrite lenRewrite haveDelegate haveNext)"

fun scan_public :: "string \<Rightarrow> string \<Rightarrow> Entry list \<Rightarrow> nat \<Rightarrow> nat \<Rightarrow> string + nat \<times> nat" where
  "scan_public pubID sysID [] haveDelegate haveNext = Inr (haveDelegate, haveNext)"
| "scan_public pubID sysID (e # es) haveDelegate haveNext =
     (case Type e of
        EntryPublic \<Rightarrow> if Name e = pubID then Inl (URL e) else scan_public pubID sysID es haveDelegate haveNext
      | EntryDelegatePublic \<Rightarrow>
          if has_prefix pubID (Name e) \<and> entPrefer e = PreferPublic
          then scan_public pubID sysID es (haveDelegate + 1) haveNext
          else scan_public pubID sysID es haveDelegate haveNext
      | EntryNextCatalog \<Rightarrow>
          if sysID = [] then scan_public pubID sysID es haveDelegate (haveNext + 1)
          else scan_public pubID sysID es haveDelegate haveNext
      | _ \<Rightarrow> scan_public pubID sysID es haveDelegate haveNext)"

fun scan_uri :: "string \<Rightarrow> Entry list \<Rightarrow> Entry option \<Rightarrow> nat \<Rightarrow> nat \<Rightarrow> nat
    \<Rightarrow> string + Entry option \<times> nat \<times> nat \<times> nat" where
  "scan_uri uri [] rewrite lenRewrite haveDelegate haveNext = Inr (rewrite, lenRewrite, haveDelegate, haveNext)"
| "scan_uri uri (e # es) rewrite lenRewrite haveDelegate haveNext =
     (case Type e of
        EntryURI \<Rightarrow> if Name e = uri then Inl (URL e)
          else scan_uri uri es rewrite lenRewrite haveDelegate haveNext
      | EntryRewriteURI \<Rightarrow>
          if has_prefix uri (Name e) \<and> length (Name e) > lenRewrite
          then scan_uri uri es (Some e) (length (Name e)) haveDelegate haveNext
          else scan_uri uri es rewrite lenRewrite haveDelegate haveNext
      | EntryDelegateURI \<Rightarrow>
          if has_prefix uri (Name e)
          then scan_uri uri es rewrite lenRewrite (haveDelegate + 1) haveNext
          else scan_uri uri es rewrite lenRewrite haveDelegate haveNext
      | EntryNextCatalog \<Rightarrow> scan_uri uri es rewrite lenRewrite haveDelegate (haveNext + 1)
      | _ \<Rightarrow> scan_uri uri es rewrite lenRewrite haveDelegate haveNext)"

text \<open>A delegate that fails cuts the search.\<close>

definition cut :: "string \<times> resolveState \<Rightarrow> string \<times> resolveState" where
  "cut r = (if fst r \<noteq> [] then r else (CatalogBreak, snd r))"

primrec resolve :: "nat \<Rightarrow> loaders \<Rightarrow> bool \<Rightarrow> Catalog \<Rightarrow> resolveState \<Rightarrow> string \<Rightarrow> string \<Rightarrow> string \<times> resolveState" where
  "resolve 0 load cancelled c st pubID sysID = ([], st)"
| "resolve (Suc n) load cancelled c st pubID sysID =
     (case (if sysID \<noteq> [] then scan_system sysID (Entries c) None 0 0 0 else Inr (None, 0, 0, 0)) of
        Inl url \<Rightarrow> (url, st)
      | Inr (Some e, lenRewrite, _) \<Rightarrow> (URL e @ drop lenRewrite sysID, st)
      | Inr (None, _, haveDelegate, haveNext) \<Rightarrow>
          if haveDelegate > 0 then cut (resolveDelegateSystem load cancelled (resolve n load cancelled) c st sysID)
          else
            (case (if pubID \<noteq> [] then scan_public pubID sysID (Entries c) 0 haveNext else Inr (0, haveNext)) of
               Inl url \<Rightarrow> (url, st)
             | Inr (haveDelegate, haveNext) \<Rightarrow>
                 if haveDelegate > 0 then cut (resolveDelegatePublic load cancelled (resolve n load cancelled) c st pubID)
                 else if haveNext > 0
                 then resolveNextCatalogs load cancelled (resolve n load cancelled) (n = 0) c st pubID sysID
                 else ([], st)))"

primrec resolveURI :: "nat \<Rightarrow> loaders \<Rightarrow> bool \<Rightarrow> Catalog \<Rightarrow> resolveState \<Rightarrow> string \<Rightarrow> string \<times> resolveState" where
  "resolveURI 0 load cancelled c st uri = ([], st)"
| "resolveURI (Suc n) load cancelled c st uri =
     (case scan_uri uri (Entries c) None 0 0 0 of
        Inl url \<Rightarrow> (url, st)
      | Inr (Some e, lenRewrite, _) \<Rightarrow> (URL e @ drop lenRewrite uri, st)
      | Inr (None, _, haveDelegate, haveNext) \<Rightarrow>
          if haveDelegate > 0 then cut (resolveDelegateURI load cancelled (resolveURI n load cancelled) c st uri)
          else if haveNext > 0
          then resolveNextCatalogsURI load cancelled (resolveURI n load cancelled) (n = 0) c st uri
          else ([], st))"

subsection \<open>The entry points\<close>

function resolveTop :: "loaders \<Rightarrow> bool \<Rightarrow> Catalog \<Rightarrow> resolveState \<Rightarrow> string \<Rightarrow> string \<Rightarrow> string \<times> resolveState" where
  "resolveTop load cancelled c st pub sysID =
     (let pubID = (if pub \<noteq> [] then NormalizePublicID pub else pub) in
      if pubID \<noteq> [] \<and> UnwrapURN pubID \<noteq> [] then resolveTop load cancelled c st (UnwrapURN pubID) sysID
      else if sysID \<noteq> [] \<and> UnwrapURN sysID \<noteq> [] then
        (if pubID = [] then resolveTop load cancelled c st (UnwrapURN sysID) []
         else if pubID = UnwrapURN sysID then resolveTop load cancelled c st pubID []
         else resolveTop load cancelled c st pubID (UnwrapURN sysID))
      else resolve (MaxDepth + 1) load cancelled c st pubID sysID)"
  by pat_completeness auto
termination
proof (relation "measure (\<lambda>(load, cancelled, c, st, pub, sysID). urn_weight pub + urn_weight sysID)")
qed (auto dest!: UnwrapURN_weight intro: UnwrapURN_positive)

declare resolveTop.simps [simp del]

definition start :: resolveState where
  "start = \<lparr>visited = [], delegates = 0, nextCatalogs = 0, loads = []\<rparr>"

text \<open>The results are the URI and whether the search was cut; the last component is the final state.\<close>

definition finish :: "string \<times> resolveState \<Rightarrow> (string \<times> bool) \<times> resolveState" where
  "finish r = (if fst r = CatalogBreak then (([], True), snd r) else ((fst r, False), snd r))"

definition ResolveResult :: "loaders \<Rightarrow> bool \<Rightarrow> Catalog option \<Rightarrow> string \<Rightarrow> string \<Rightarrow> (string \<times> bool) \<times> resolveState" where
  "ResolveResult load cancelled c pubID sysID =
     (case c of
        None \<Rightarrow> (([], False), start)
      | Some c \<Rightarrow>
          if pubID = [] \<and> sysID = [] then (([], False), start)
          else finish (resolveTop load cancelled c start pubID sysID))"

definition Resolve :: "loaders \<Rightarrow> bool \<Rightarrow> Catalog option \<Rightarrow> string \<Rightarrow> string \<Rightarrow> string" where
  "Resolve load cancelled c pubID sysID =
     (if c = None then [] else if pubID = [] \<and> sysID = [] then []
      else fst (fst (ResolveResult load cancelled c pubID sysID)))"

definition ResolveURIResult :: "loaders \<Rightarrow> bool \<Rightarrow> Catalog option \<Rightarrow> string \<Rightarrow> (string \<times> bool) \<times> resolveState" where
  "ResolveURIResult load cancelled c uri =
     (case c of
        None \<Rightarrow> (([], False), start)
      | Some c \<Rightarrow>
          if uri = [] then (([], False), start)
          else if UnwrapURN uri \<noteq> [] then finish (resolveTop load cancelled c start (UnwrapURN uri) [])
          else finish (resolveURI (MaxDepth + 1) load cancelled c start uri))"

definition ResolveURI :: "loaders \<Rightarrow> bool \<Rightarrow> Catalog option \<Rightarrow> string \<Rightarrow> string" where
  "ResolveURI load cancelled c uri = fst (fst (ResolveURIResult load cancelled c uri))"

end
