(* ===== verification/CatalogBounds.thy ===== *)
theory CatalogBounds
  imports CatalogResolve
begin

text \<open>
  What a resolution keeps and what it finds.  The locale \<open>resolution_invariant\<close> is the contract of
  a property of the resolution state: it survives counting and loading a delegate or a next catalog
  and marking a visit.  Every resolution then keeps it.  Its interpretations are the bounds on the
  loads and the absence of repeated visits.
\<close>

subsection \<open>Invariants of a resolution\<close>

definition is_delegate :: "Entry \<Rightarrow> bool" where
  "is_delegate e \<longleftrightarrow> Type e \<in> {EntryDelegatePublic, EntryDelegateSystem, EntryDelegateURI}"

definition is_next :: "Entry \<Rightarrow> bool" where
  "is_next e \<longleftrightarrow> Type e = EntryNextCatalog"

locale resolution_invariant =
  fixes P :: "resolveState \<Rightarrow> bool"
  assumes delegate_load: "P st \<Longrightarrow> delegates st < MaxDelegates \<Longrightarrow> is_delegate e \<Longrightarrow>
      P (snd (lazyLoad load cancelled c e (st\<lparr>delegates := delegates st + 1\<rparr>)))"
    and next_load: "P st \<Longrightarrow> nextCatalogs st < MaxNextCatalogs \<Longrightarrow> is_next e \<Longrightarrow>
      P (snd (lazyLoad load cancelled c e (st\<lparr>nextCatalogs := nextCatalogs st + 1\<rparr>)))"
    and visit: "P st \<Longrightarrow> P (snd (checkVisited st url id1 id2))"
begin

definition keeps :: "('a \<Rightarrow> resolveState \<Rightarrow> 'b \<times> resolveState) \<Rightarrow> bool" where
  "keeps f \<longleftrightarrow> (\<forall>x st. P st \<longrightarrow> P (snd (f x st)))"

lemma keepsD: "keeps f \<Longrightarrow> P st \<Longrightarrow> f x st = (r, st') \<Longrightarrow> P st'"
  unfolding keeps_def by (metis snd_conv)

lemma delegate_loop:
  assumes sub: "keeps sub"
  shows "P st \<Longrightarrow> list_all is_delegate es \<Longrightarrow> P (snd (delegate_loop load cancelled c skip id1 id2 sub seen es st))"
proof (induction es arbitrary: seen st)
  case (Cons e es)
  from Cons.prems(2) have all: "list_all is_delegate es" and e: "is_delegate e" by simp_all
  show ?case
  proof (cases "skip e \<or> URL e \<in> set seen \<or> delegates st \<ge> MaxDelegates")
    case True
    then show ?thesis using Cons by auto
  next
    case go: False
    obtain r st1 where l: "lazyLoad load cancelled c e (st\<lparr>delegates := delegates st + 1\<rparr>) = (r, st1)"
      by fastforce
    then have 1: "P st1" using delegate_load[OF Cons.prems(1) _ e, of load cancelled c] go by simp
    obtain seen' st2 where v: "checkVisited st1 (URL e) id1 id2 = (seen', st2)" by fastforce
    then have 2: "P st2" using visit[OF 1, of "URL e" id1 id2] by simp
    show ?thesis
    proof (cases r)
      case None
      then show ?thesis using go l Cons.IH[OF 1 all] by simp
    next
      case (Some cat)
      obtain ret st3 where s: "sub cat st2 = (ret, st3)" by fastforce
      then have "P st3" using keepsD[OF sub 2] by blast
      then show ?thesis
        using go l v s Some Cons.IH[OF 2 all] Cons.IH[of st3] all by (cases seen') auto
    qed
  qed
qed simp

lemma next_loop:
  assumes sub: "keeps sub"
  shows "P st \<Longrightarrow> P (snd (next_loop load cancelled c id1 id2 sub deep es st))"
proof (induction es arbitrary: st)
  case (Cons e es)
  show ?case
  proof (cases "Type e \<noteq> EntryNextCatalog \<or> nextCatalogs st \<ge> MaxNextCatalogs")
    case True
    then show ?thesis using Cons by auto
  next
    case go: False
    obtain r st1 where l: "lazyLoad load cancelled c e (st\<lparr>nextCatalogs := nextCatalogs st + 1\<rparr>) = (r, st1)"
      by fastforce
    then have 1: "P st1" using next_load[OF Cons.prems, of e load cancelled c] go by (simp add: is_next_def)
    obtain seen' st2 where v: "checkVisited st1 (URL e) id1 id2 = (seen', st2)" by fastforce
    then have 2: "P st2" using visit[OF 1, of "URL e" id1 id2] by simp
    show ?thesis
    proof (cases r)
      case None
      then show ?thesis using go l Cons.IH[OF 1] by simp
    next
      case (Some cat)
      obtain ret st3 where s: "sub cat st2 = (ret, st3)" by fastforce
      then have "P st3" using keepsD[OF sub 2] by blast
      then show ?thesis
        using go l v s Some Cons.IH[OF 2] Cons.IH[of st3] by (cases seen') auto
    qed
  qed
qed simp

lemma matching_delegates:
  "typ \<in> {EntryDelegatePublic, EntryDelegateSystem, EntryDelegateURI} \<Longrightarrow> list_all is_delegate (matchingDelegates c typ ident)"
  by (auto simp: matchingDelegates_def list_all_iff is_delegate_def)

lemma cut: "P (snd r) \<Longrightarrow> P (snd (cut r))"
  by (simp add: cut_def)

lemma resolve: "P st \<Longrightarrow> P (snd (resolve n load cancelled c st pubID sysID))"
proof (induction n arbitrary: c st pubID sysID)
  case (Suc n)
  have sub: "keeps (\<lambda>cat st. resolve n load cancelled cat st p s)" for p s
    using Suc.IH by (simp add: keeps_def)
  have "P (snd (resolveDelegateSystem load cancelled (resolve n load cancelled) c st sysID))"
    "P (snd (resolveDelegatePublic load cancelled (resolve n load cancelled) c st pubID))"
    "P (snd (resolveNextCatalogs load cancelled (resolve n load cancelled) (n = 0) c st pubID sysID))"
    unfolding resolveDelegateSystem_def resolveDelegatePublic_def resolveNextCatalogs_def
    by (rule delegate_loop[OF sub Suc.prems] next_loop[OF sub Suc.prems], (rule matching_delegates, simp)?)+
  then show ?case
    using Suc.prems by (auto split: sum.split prod.split option.split intro!: cut)
qed simp

lemma resolveURI: "P st \<Longrightarrow> P (snd (resolveURI n load cancelled c st uri))"
proof (induction n arbitrary: c st uri)
  case (Suc n)
  have sub: "keeps (\<lambda>cat st. resolveURI n load cancelled cat st u)" for u
    using Suc.IH by (simp add: keeps_def)
  have "P (snd (resolveDelegateURI load cancelled (resolveURI n load cancelled) c st uri))"
    "P (snd (resolveNextCatalogsURI load cancelled (resolveURI n load cancelled) (n = 0) c st uri))"
    unfolding resolveDelegateURI_def resolveNextCatalogsURI_def
    by (rule delegate_loop[OF sub Suc.prems] next_loop[OF sub Suc.prems], (rule matching_delegates, simp)?)+
  then show ?case
    using Suc.prems by (auto split: sum.split prod.split option.split intro!: cut)
qed simp

lemma resolveTop: "P st \<Longrightarrow> P (snd (resolveTop load cancelled c st pub sysID))"
proof (induction load cancelled c st pub sysID rule: resolveTop.induct)
  case (1 load cancelled c st pub sysID)
  then show ?case
    by (subst resolveTop.simps) (auto simp: Let_def resolve simp del: resolve.simps)
qed

lemma entry_points:
  assumes "P start"
  shows "P (snd (ResolveResult load cancelled c pubID sysID))"
    and "P (snd (ResolveURIResult load cancelled c uri))"
  using assms resolveTop[OF assms] resolveURI[OF assms]
  by (auto simp: ResolveResult_def ResolveURIResult_def finish_def simp del: resolveURI.simps split: option.split)

end

text \<open>The bounds, and the visited cache without repetitions.\<close>

definition delegate_loads :: "resolveState \<Rightarrow> Entry list" where
  "delegate_loads st = filter is_delegate (loads st)"

definition next_loads :: "resolveState \<Rightarrow> Entry list" where
  "next_loads st = filter is_next (loads st)"

definition bounded :: "resolveState \<Rightarrow> bool" where
  "bounded st \<longleftrightarrow> length (delegate_loads st) \<le> delegates st \<and> delegates st \<le> MaxDelegates \<and>
     length (next_loads st) \<le> nextCatalogs st \<and> nextCatalogs st \<le> MaxNextCatalogs \<and>
     list_all (\<lambda>e. is_delegate e \<or> is_next e) (loads st)"

lemma delegate_not_next: "is_delegate e \<Longrightarrow> \<not> is_next e"
  by (auto simp: is_delegate_def is_next_def)

interpretation bound: resolution_invariant bounded
  by unfold_locales
    (auto simp: bounded_def lazyLoad_def checkVisited_def delegate_loads_def next_loads_def delegate_not_next
      dest: delegate_not_next split: option.split)

interpretation fresh: resolution_invariant "\<lambda>st. distinct (visited st)"
  by unfold_locales (auto simp: lazyLoad_def checkVisited_def split: option.split)

text \<open>Both bounds are attained, together: a catalog whose loads all fail asks for as many as there are entries,
  up to the bound.\<close>

definition unloadable :: "loaders \<Rightarrow> nat \<Rightarrow> Entry \<Rightarrow> bool" where
  "unloadable load l e \<longleftrightarrow> EntryCatalog e = None \<and> load l (URL e) = None"

lemma delegate_loop_unloadable:
  "Loader c = Some l \<Longrightarrow> list_all (unloadable load l) es \<Longrightarrow> distinct (map URL es) \<Longrightarrow> set seen \<inter> URL ` set es = {} \<Longrightarrow>
   delegates st + length es \<le> MaxDelegates \<Longrightarrow>
   delegate_loop load False c (\<lambda>e. False) id1 id2 sub seen es st =
     ([], st\<lparr>delegates := delegates st + length es, loads := loads st @ es\<rparr>)"
proof (induction es arbitrary: seen st)
  case (Cons e es)
  have l: "lazyLoad load False c e u = (None, u\<lparr>loads := loads u @ [e]\<rparr>)" for u
    using Cons.prems(1,2) by (simp add: lazyLoad_def unloadable_def)
  have "set (URL e # seen) \<inter> URL ` set es = {}" using Cons.prems(3,4) by auto
  from Cons.IH[OF Cons.prems(1) _ _ this, of "st\<lparr>delegates := delegates st + 1, loads := loads st @ [e]\<rparr>"]
  show ?case using Cons.prems l by simp
qed simp

lemma next_loop_unloadable:
  "Loader c = Some l \<Longrightarrow> list_all (unloadable load l) es \<Longrightarrow> list_all is_next es \<Longrightarrow>
   nextCatalogs st + length es \<le> MaxNextCatalogs \<Longrightarrow>
   next_loop load False c id1 id2 sub deep es st =
     ([], st\<lparr>nextCatalogs := nextCatalogs st + length es, loads := loads st @ es\<rparr>)"
proof (induction es arbitrary: st)
  case (Cons e es)
  have "lazyLoad load False c e u = (None, u\<lparr>loads := loads u @ [e]\<rparr>)" for u
    using Cons.prems(1,2) by (simp add: lazyLoad_def unloadable_def)
  then show ?case using Cons.prems Cons.IH[of "st\<lparr>nextCatalogs := nextCatalogs st + 1, loads := loads st @ [e]\<rparr>"]
    by (simp add: is_next_def)
qed simp

text \<open>The catalog \<open>n\<close>, the first of fifty next catalogs, has fifty delegates.\<close>

definition wide_delegates :: "Entry list" where
  "wide_delegates = map (\<lambda>i. Entry EntryDelegateURI [] (replicate i CHR ''d'') PreferPublic None) [0..<MaxDelegates]"

definition wide_nexts :: "Entry list" where
  "wide_nexts = Entry EntryNextCatalog [] ''n'' PreferPublic None
     # replicate (MaxNextCatalogs - 1) (Entry EntryNextCatalog [] ''m'' PreferPublic None)"

definition wide_loader :: loaders where
  "wide_loader l url = (if url = ''n'' then Some (Catalog wide_delegates PreferPublic [] (Some 0)) else None)"

definition wide_catalog :: Catalog where
  "wide_catalog = Catalog wide_nexts PreferPublic [] (Some 0)"

lemma scan_uri_delegates:
  "list_all (\<lambda>e. Type e = EntryDelegateURI \<and> Name e = []) es \<Longrightarrow> scan_uri u es r k d n = Inr (r, k, d + length es, n)"
  by (induction es arbitrary: d) (auto simp: has_prefix_def)

lemma scan_uri_nexts: "list_all is_next es \<Longrightarrow> scan_uri u es r k d n = Inr (r, k, d, n + length es)"
  by (induction es arbitrary: n) (auto simp: is_next_def)

lemma wide_delegates_all:
  "list_all (\<lambda>e. Type e = EntryDelegateURI \<and> Name e = []) wide_delegates" "length wide_delegates = MaxDelegates"
  "list_all (unloadable wide_loader 0) wide_delegates" "distinct (map URL wide_delegates)"
proof -
  have "replicate i CHR ''d'' \<noteq> ''n''" for i
    by (cases i) simp_all
  then show "list_all (unloadable wide_loader 0) wide_delegates"
    by (auto simp: wide_delegates_def list_all_iff unloadable_def wide_loader_def)
qed (auto simp: wide_delegates_def list_all_iff distinct_map inj_on_def)

lemma wide_matching: "matchingDelegates (Catalog wide_delegates PreferPublic [] l) EntryDelegateURI ''x'' = wide_delegates"
proof -
  have "filter (\<lambda>e. Type e = EntryDelegateURI \<and> has_prefix ''x'' (Name e)) wide_delegates = wide_delegates"
    using wide_delegates_all(1) by (auto simp: list_all_iff has_prefix_def filter_id_conv)
  moreover have "sorted (map (\<lambda>e. - int (length (Name e))) wide_delegates)"
    by (simp add: wide_delegates_def sorted_iff_nth_mono)
  ultimately show ?thesis
    by (simp add: matchingDelegates_def sort_key_id_if_sorted)
qed

lemma wide_delegates_loop:
  assumes "delegates st = 0"
  shows "resolveURI (Suc n) wide_loader False (Catalog wide_delegates PreferPublic [] (Some 0)) st ''x'' =
     (CatalogBreak, st\<lparr>delegates := MaxDelegates, loads := loads st @ wide_delegates\<rparr>)"
proof -
  have "0 < MaxDelegates" by (simp add: MaxDelegates_def)
  then show ?thesis
    using assms wide_delegates_all
    by (simp add: scan_uri_delegates resolveDelegateURI_def wide_matching delegate_loop_unloadable cut_def)
qed

lemma wide_loads:
  "loads (snd (ResolveURIResult wide_loader False (Some wide_catalog) ''x'')) =
     hd wide_nexts # wide_delegates @ tl wide_nexts"
proof -
  let ?e = "Entry EntryNextCatalog [] ''n'' PreferPublic None"
  let ?m = "replicate (MaxNextCatalogs - 1) (Entry EntryNextCatalog [] ''m'' PreferPublic None)"
  let ?sub = "\<lambda>cat st. resolveURI MaxDepth wide_loader False cat st ''x''"
  let ?st = "\<lparr>visited = [(''n'', ''x'', [])], delegates = MaxDelegates, nextCatalogs = 1, loads = ?e # wide_delegates\<rparr>"
  have nexts: "list_all is_next wide_nexts" "length wide_nexts = MaxNextCatalogs" "wide_nexts = ?e # ?m"
    by (auto simp: wide_nexts_def is_next_def list_all_iff MaxNextCatalogs_def)
  have m: "list_all (unloadable wide_loader 0) ?m" "list_all is_next ?m" "1 + length ?m \<le> MaxNextCatalogs"
    by (auto simp: list_all_iff unloadable_def wide_loader_def is_next_def MaxNextCatalogs_def)
  have d: "MaxDepth = Suc 49" "0 < MaxNextCatalogs" by (simp_all add: MaxDepth_def MaxNextCatalogs_def)
  have n: "Loader wide_catalog = Some 0" "Entries wide_catalog = ?e # ?m"
    by (simp_all add: wide_catalog_def nexts(3))
  have sub: "?sub (Catalog wide_delegates PreferPublic [] (Some 0)) (\<lparr>visited = [(''n'', ''x'', [])], delegates = 0, nextCatalogs = 1, loads = [?e]\<rparr>)
      = (CatalogBreak, ?st)"
    unfolding d(1) by (subst wide_delegates_loop) simp_all
  have "next_loop wide_loader False wide_catalog ''x'' [] ?sub False (?e # ?m) start
      = next_loop wide_loader False wide_catalog ''x'' [] ?sub False ?m ?st"
    using d(2) sub by (simp add: start_def lazyLoad_def n wide_loader_def checkVisited_def)
  also have "\<dots> = ([], ?st\<lparr>nextCatalogs := 1 + length ?m, loads := loads ?st @ ?m\<rparr>)"
    using next_loop_unloadable[OF n(1) m(1,2), of ?st] m(3) by simp
  finally have "next_loop wide_loader False wide_catalog ''x'' [] ?sub False (?e # ?m) start
      = ([], ?st\<lparr>nextCatalogs := 1 + length ?m, loads := loads ?st @ ?m\<rparr>)" .
  moreover have "resolveURI (MaxDepth + 1) wide_loader False wide_catalog start ''x''
      = next_loop wide_loader False wide_catalog ''x'' [] ?sub False (?e # ?m) start"
    unfolding nexts(3)[symmetric] using nexts(1,2) d
    by (simp add: scan_uri_nexts resolveNextCatalogsURI_def wide_catalog_def del: next_loop.simps)
  moreover have "UnwrapURN ''x'' = []" by (simp add: UnwrapURN_def urnPrefix_def)
  ultimately show ?thesis
    by (simp add: ResolveURIResult_def finish_def nexts(3) del: resolveURI.simps)
qed

lemma wide_counts:
  "length (delegate_loads (snd (ResolveURIResult wide_loader False (Some wide_catalog) ''x''))) = MaxDelegates"
  "length (next_loads (snd (ResolveURIResult wide_loader False (Some wide_catalog) ''x''))) = MaxNextCatalogs"
proof -
  have f: "filter is_delegate wide_delegates = wide_delegates" "filter is_next wide_delegates = []"
    "filter is_delegate (tl wide_nexts) = []" "filter is_next (tl wide_nexts) = tl wide_nexts"
    by (auto simp: wide_delegates_def wide_nexts_def is_delegate_def is_next_def filter_id_conv filter_empty_conv)
  have "is_next (hd wide_nexts)" "\<not> is_delegate (hd wide_nexts)" "Suc (length (tl wide_nexts)) = MaxNextCatalogs"
    by (simp_all add: wide_nexts_def is_next_def is_delegate_def MaxNextCatalogs_def)
  then show "length (delegate_loads (snd (ResolveURIResult wide_loader False (Some wide_catalog) ''x''))) = MaxDelegates"
    "length (next_loads (snd (ResolveURIResult wide_loader False (Some wide_catalog) ''x''))) = MaxNextCatalogs"
    by (simp_all add: delegate_loads_def next_loads_def wide_loads f wide_delegates_all(2))
qed

text \<open>C30: Resolving an identifier or a URI asks the loaders for at most MaxDelegates catalogs of delegate
  entries and at most MaxNextCatalogs next catalogs, and for no other, whatever the catalogs contain
  and however they refer to each other.  The two budgets are separate: a resolution that has used up the
  delegates in the first of fifty next catalogs still loads the other forty-nine.\<close>
theorem loads_are_bounded:
  "length (delegate_loads (snd (ResolveResult load cancelled c pubID sysID))) \<le> MaxDelegates
   \<and> length (next_loads (snd (ResolveResult load cancelled c pubID sysID))) \<le> MaxNextCatalogs
   \<and> list_all (\<lambda>e. is_delegate e \<or> is_next e) (loads (snd (ResolveResult load cancelled c pubID sysID)))
   \<and> length (delegate_loads (snd (ResolveURIResult load cancelled c uri))) \<le> MaxDelegates
   \<and> length (next_loads (snd (ResolveURIResult load cancelled c uri))) \<le> MaxNextCatalogs
   \<and> list_all (\<lambda>e. is_delegate e \<or> is_next e) (loads (snd (ResolveURIResult load cancelled c uri)))
   \<and> length (delegate_loads (snd (ResolveURIResult wide_loader False (Some wide_catalog) ''x''))) = MaxDelegates
   \<and> length (next_loads (snd (ResolveURIResult wide_loader False (Some wide_catalog) ''x''))) = MaxNextCatalogs"
proof -
  have "bounded start" by (simp add: bounded_def start_def delegate_loads_def next_loads_def)
  note b = bound.entry_points[OF this, unfolded bounded_def]
  then show ?thesis using wide_counts b by (meson le_trans)
qed

text \<open>No resolution enters the same catalog twice for the same identifiers, so catalogs that
  refer to each other are not searched in a circle.\<close>
theorem visits_are_distinct:
  "distinct (visited (snd (ResolveResult load cancelled c pubID sysID)))
   \<and> distinct (visited (snd (ResolveURIResult load cancelled c uri)))"
proof -
  have "distinct (visited start)" by (simp add: start_def)
  from fresh.entry_points[OF this] show ?thesis by simp
qed

subsection \<open>What a catalog answers\<close>

text \<open>The first of the entries with the longest start string among those that satisfy a test.\<close>

fun longest :: "(Entry \<Rightarrow> bool) \<Rightarrow> Entry list \<Rightarrow> Entry option" where
  "longest T [] = None"
| "longest T (e # es) =
     (if T e then (case longest T es of
          Some e' \<Rightarrow> if length (Name e') > length (Name e) then Some e' else Some e
        | None \<Rightarrow> Some e)
      else longest T es)"

lemma longest_None: "longest T es = None \<longleftrightarrow> (\<forall>x\<in>set es. \<not> T x)"
  by (induction es) (auto split: option.splits)

lemma longest_max:
  "longest T es = Some e \<Longrightarrow> e \<in> set es \<and> T e \<and> (\<forall>x\<in>set es. T x \<longrightarrow> length (Name x) \<le> length (Name e))"
proof (induction es arbitrary: e)
  case (Cons x es)
  show ?case
  proof (cases "longest T es")
    case None
    then show ?thesis using Cons.prems longest_None[of T es] by (auto split: if_splits)
  next
    case (Some y)
    then show ?thesis using Cons.prems Cons.IH[OF Some] by (fastforce split: if_splits)
  qed
qed simp

text \<open>The choice of a rewrite, given the one found so far.\<close>

definition better :: "Entry option \<Rightarrow> Entry option \<times> nat \<Rightarrow> Entry option \<times> nat" where
  "better found sofar = (case found of
     Some e \<Rightarrow> if length (Name e) > snd sofar then (Some e, length (Name e)) else sofar
   | None \<Rightarrow> sofar)"

definition exact :: "EntryType \<Rightarrow> string \<Rightarrow> Entry \<Rightarrow> bool" where
  "exact typ ident e \<longleftrightarrow> Type e = typ \<and> Name e = ident"

definition starts :: "EntryType \<Rightarrow> string \<Rightarrow> Entry \<Rightarrow> bool" where
  "starts typ ident e \<longleftrightarrow> Type e = typ \<and> has_prefix ident (Name e)"

definition number_of :: "(Entry \<Rightarrow> bool) \<Rightarrow> Entry list \<Rightarrow> nat" where
  "number_of T es = length (filter T es)"

lemma number_of_simps [simp]:
  "number_of T [] = 0" "number_of T (e # es) = (if T e then Suc (number_of T es) else number_of T es)"
  by (simp_all add: number_of_def)

lemma number_of_pos: "0 < number_of T es \<longleftrightarrow> (\<exists>e\<in>set es. T e)"
  by (auto simp: number_of_def filter_empty_conv)

lemma better_Cons:
  "better (longest T (e # es)) (rw, len) =
    (if T e then better (longest T es) (better (Some e) (rw, len)) else better (longest T es) (rw, len))"
  by (auto simp: better_def split: option.splits)

lemma scan_system_eq:
  "scan_system sysID es rw len nd nn =
    (case find (exact EntrySystem sysID) es of
       Some e \<Rightarrow> Inl (URL e)
     | None \<Rightarrow> (case better (longest (starts EntryRewriteSystem sysID) es) (rw, len) of (rw', len') \<Rightarrow>
         Inr (rw', len', nd + number_of (starts EntryDelegateSystem sysID) es,
              nn + number_of (\<lambda>e. Type e = EntryNextCatalog) es)))"
proof (induction sysID es rw len nd nn rule: scan_system.induct)
  case (2 sysID e es rw len nd nn)
  then show ?case
    by (cases "Type e") (auto simp: exact_def starts_def better_Cons better_def[of "Some e"]
        simp del: longest.simps split: option.split prod.split)
qed (simp add: better_def)

lemma scan_uri_eq:
  "scan_uri uri es rw len nd nn =
    (case find (exact EntryURI uri) es of
       Some e \<Rightarrow> Inl (URL e)
     | None \<Rightarrow> (case better (longest (starts EntryRewriteURI uri) es) (rw, len) of (rw', len') \<Rightarrow>
         Inr (rw', len', nd + number_of (starts EntryDelegateURI uri) es,
              nn + number_of (\<lambda>e. Type e = EntryNextCatalog) es)))"
proof (induction uri es rw len nd nn rule: scan_uri.induct)
  case (2 uri e es rw len nd nn)
  then show ?case
    by (cases "Type e") (auto simp: exact_def starts_def better_Cons better_def[of "Some e"]
        simp del: longest.simps split: option.split prod.split)
qed (simp add: better_def)

lemma scan_public_eq:
  "scan_public pubID sysID es nd nn =
    (case find (exact EntryPublic pubID) es of
       Some e \<Rightarrow> Inl (URL e)
     | None \<Rightarrow> Inr (nd + number_of (\<lambda>e. starts EntryDelegatePublic pubID e \<and> entPrefer e = PreferPublic) es,
         nn + (if sysID = [] then number_of (\<lambda>e. Type e = EntryNextCatalog) es else 0)))"
proof (induction pubID sysID es nd nn rule: scan_public.induct)
  case (2 pubID sysID e es nd nn)
  then show ?case
    by (cases "Type e") (auto simp: exact_def starts_def split: option.split)
qed simp

text \<open>The answer of a catalog's own entries.\<close>

definition rewritten :: "EntryType \<Rightarrow> string \<Rightarrow> Entry list \<Rightarrow> string option" where
  "rewritten typ ident es = (case longest (\<lambda>e. starts typ ident e \<and> Name e \<noteq> []) es of
     Some e \<Rightarrow> Some (URL e @ drop (length (Name e)) ident) | None \<Rightarrow> None)"

definition system_answer :: "Entry list \<Rightarrow> string \<Rightarrow> string option" where
  "system_answer es sysID = (if sysID = [] then None
     else case find (exact EntrySystem sysID) es of
       Some e \<Rightarrow> Some (URL e) | None \<Rightarrow> rewritten EntryRewriteSystem sysID es)"

definition public_answer :: "Entry list \<Rightarrow> string \<Rightarrow> string option" where
  "public_answer es pubID = (if pubID = [] then None else map_option URL (find (exact EntryPublic pubID) es))"

lemma longest_nonempty:
  "longest (\<lambda>e. T e \<and> Name e \<noteq> []) es =
    (case longest T es of Some e \<Rightarrow> if Name e = [] then None else Some e | None \<Rightarrow> None)"
proof (induction es)
  case (Cons e es)
  then show ?case
    using longest_max[of T es] by (auto split: option.splits if_splits)
qed simp

lemma better_start:
  "better (longest (starts typ ident) es) (None, 0) =
    (case longest (\<lambda>e. starts typ ident e \<and> Name e \<noteq> []) es of
       Some e \<Rightarrow> (Some e, length (Name e)) | None \<Rightarrow> (None, 0))"
  by (auto simp: longest_nonempty better_def split: option.split)

lemma resolve_system:
  assumes "system_answer (Entries c) sysID = Some url"
  shows "resolve (Suc n) load cancelled c st pubID sysID = (url, st)"
  using assms by (auto simp: system_answer_def rewritten_def scan_system_eq better_start
      split: option.splits if_splits)

lemma resolve_delegate_system:
  assumes "system_answer (Entries c) sysID = None" and "sysID \<noteq> []"
    and "\<exists>e\<in>set (Entries c). starts EntryDelegateSystem sysID e"
  shows "resolve (Suc n) load cancelled c st pubID sysID =
    cut (resolveDelegateSystem load cancelled (resolve n load cancelled) c st sysID)"
proof -
  have "0 < number_of (starts EntryDelegateSystem sysID) (Entries c)"
    using assms(3) by (simp add: number_of_pos)
  then show ?thesis
    using assms(1,2) by (auto simp: system_answer_def rewritten_def scan_system_eq better_start
        split: option.splits if_splits)
qed

lemma resolve_public:
  assumes "system_answer (Entries c) sysID = None"
    and "\<not> (sysID \<noteq> [] \<and> (\<exists>e\<in>set (Entries c). starts EntryDelegateSystem sysID e))"
    and "public_answer (Entries c) pubID = Some url"
  shows "resolve (Suc n) load cancelled c st pubID sysID = (url, st)"
proof -
  have "sysID \<noteq> [] \<Longrightarrow> number_of (starts EntryDelegateSystem sysID) (Entries c) = 0"
    using assms(2) number_of_pos[of "starts EntryDelegateSystem sysID" "Entries c"] by auto
  then show ?thesis
    using assms(1,3) by (auto simp: system_answer_def public_answer_def rewritten_def scan_system_eq scan_public_eq
        better_start split: option.splits if_splits)
qed

lemma resolveTop_plain:
  assumes "NormalizePublicID pubID = pubID" and "UnwrapURN pubID = []" and "UnwrapURN sysID = []"
  shows "resolveTop load cancelled c st pubID sysID = resolve (MaxDepth + 1) load cancelled c st pubID sysID"
  using assms by (subst resolveTop.simps) (simp add: Let_def del: resolve.simps)

text \<open>C31: For a normalized public identifier and a system identifier, neither a publicid URN, the
  system identifier is decided first, by an exact system entry, then by the rewriteSystem entry
  with the longest start string; only then, when no delegateSystem entry matches, by an exact public
  entry.  Such an answer needs no other catalog.\<close>
theorem own_entries_answer:
  assumes "NormalizePublicID pubID = pubID" and "UnwrapURN pubID = []" and "UnwrapURN sysID = []"
    and "pubID \<noteq> [] \<or> sysID \<noteq> []" and "url \<noteq> CatalogBreak"
    and "system_answer (Entries c) sysID = Some url \<or>
      system_answer (Entries c) sysID = None \<and> public_answer (Entries c) pubID = Some url \<and>
        (sysID = [] \<or> \<not> (\<exists>e\<in>set (Entries c). starts EntryDelegateSystem sysID e))"
  shows "ResolveResult load cancelled (Some c) pubID sysID = ((url, False), start)"
proof -
  have "resolve (Suc MaxDepth) load cancelled c start pubID sysID = (url, start)"
    using assms(6) resolve_system[of c sysID url] resolve_public[of c sysID pubID url] by blast
  then show ?thesis
    using assms(4,5) resolveTop_plain[OF assms(1-3)]
    by (auto simp: ResolveResult_def finish_def simp del: resolve.simps)
qed

definition sample_catalog :: Catalog where
  "sample_catalog = Catalog
     [Entry EntryRewriteSystem ''http://x/'' ''file:///y/'' PreferPublic None,
      Entry EntryRewriteSystem ''http://x/a/'' ''file:///z/'' PreferPublic None] PreferPublic [] None"

theorem own_entries_answer_witness:
  "ResolveResult (\<lambda>l url. None) False (Some sample_catalog) [] ''http://x/a/b'' = ((''file:///z/b'', False), start)"
proof (rule own_entries_answer)
  show "system_answer (Entries sample_catalog) ''http://x/a/b'' = Some ''file:///z/b'' \<or>
      system_answer (Entries sample_catalog) ''http://x/a/b'' = None \<and> public_answer (Entries sample_catalog) [] = Some ''file:///z/b'' \<and>
        (''http://x/a/b'' = [] \<or> \<not> (\<exists>e\<in>set (Entries sample_catalog). starts EntryDelegateSystem ''http://x/a/b'' e))"
    by (simp add: sample_catalog_def system_answer_def rewritten_def exact_def starts_def)
qed (simp_all add: NormalizePublicID_def UnwrapURN_def urnPrefix_def equal_fold_def CatalogBreak_def)

text \<open>The result of a loop over delegates is empty or comes from the resolution of a sub-catalog.\<close>

lemma delegate_loop_result:
  "fst (delegate_loop load cancelled c skip id1 id2 sub seen es st) = [] \<or>
   (\<exists>cat st'. fst (sub cat st') = fst (delegate_loop load cancelled c skip id1 id2 sub seen es st)
      \<and> fst (sub cat st') \<noteq> CatalogBreak)"
proof (induction es arbitrary: seen st)
  case (Cons e es)
  show ?case
  proof (cases "skip e \<or> URL e \<in> set seen \<or> delegates st \<ge> MaxDelegates")
    case True
    then show ?thesis using Cons by auto
  next
    case go: False
    obtain r st1 where l: "lazyLoad load cancelled c e (st\<lparr>delegates := delegates st + 1\<rparr>) = (r, st1)"
      by fastforce
    obtain seen' st2 where v: "checkVisited st1 (URL e) id1 id2 = (seen', st2)" by fastforce
    show ?thesis
    proof (cases r)
      case None
      then show ?thesis using go l Cons.IH by simp
    next
      case (Some cat)
      obtain ret st3 where s: "sub cat st2 = (ret, st3)" by fastforce
      show ?thesis
      proof (cases "\<not> seen' \<and> ret \<noteq> [] \<and> ret \<noteq> CatalogBreak")
        case True
        then have "fst (delegate_loop load cancelled c skip id1 id2 sub seen (e # es) st) = ret"
          using go l v s Some by simp
        then show ?thesis using s True by (intro disjI2 exI[of _ cat] exI[of _ st2]) simp
      next
        case False
        then show ?thesis using go l v s Some Cons.IH by (cases seen') auto
      qed
    qed
  qed
qed simp

text \<open>Once a delegateSystem entry matches and the catalog's own system and rewrite entries do
  not, the search is committed: the answer is a cut, or the answer of a sub-catalog that was asked
  with the system identifier alone.  The catalog's public entries and next catalogs are not used.\<close>
theorem delegation_commits:
  assumes "system_answer (Entries c) sysID = None" and "sysID \<noteq> []"
    and "\<exists>e\<in>set (Entries c). starts EntryDelegateSystem sysID e"
  shows "fst (resolve (Suc n) load cancelled c st pubID sysID) = CatalogBreak \<or>
    (\<exists>cat st'. fst (resolve n load cancelled cat st' [] sysID) = fst (resolve (Suc n) load cancelled c st pubID sysID)
       \<and> fst (resolve n load cancelled cat st' [] sysID) \<noteq> [])"
  unfolding resolve_delegate_system[OF assms] cut_def resolveDelegateSystem_def
  using delegate_loop_result[of load cancelled c "\<lambda>e. False" "[]" sysID "\<lambda>cat st. resolve n load cancelled cat st [] sysID" "[]"
      "matchingDelegates c EntryDelegateSystem sysID" st]
  by auto

theorem delegation_commits_witness:
  "fst (resolve (Suc 0) (\<lambda>l url. None) False
      (Catalog [Entry EntryDelegateSystem ''http://'' ''d.xml'' PreferPublic None,
                Entry EntryPublic ''P'' ''p.dtd'' PreferPublic None] PreferPublic [] None) start ''P'' ''http://x'') = CatalogBreak
   \<or> (\<exists>cat st'. fst (resolve 0 (\<lambda>l url. None) False cat st' [] ''http://x'') =
        fst (resolve (Suc 0) (\<lambda>l url. None) False
          (Catalog [Entry EntryDelegateSystem ''http://'' ''d.xml'' PreferPublic None,
                Entry EntryPublic ''P'' ''p.dtd'' PreferPublic None] PreferPublic [] None) start ''P'' ''http://x'')
       \<and> fst (resolve 0 (\<lambda>l url. None) False cat st' [] ''http://x'') \<noteq> [])"
  by (rule delegation_commits) (simp_all add: system_answer_def rewritten_def exact_def starts_def)

text \<open>Delegates are tried in order of decreasing length of their start strings, those of equal
  length in document order, and they are exactly the entries of the type whose start string
  begins the identifier.\<close>
theorem matchingDelegates_order:
  "sorted (map (\<lambda>e. - int (length (Name e))) (matchingDelegates c typ ident))
   \<and> filter (\<lambda>e. length (Name e) = k) (matchingDelegates c typ ident) =
       filter (\<lambda>e. length (Name e) = k) (filter (starts typ ident) (Entries c))
   \<and> set (matchingDelegates c typ ident) = {e \<in> set (Entries c). starts typ ident e}"
proof -
  let ?f = "\<lambda>e. - int (length (Name e))"
  have "(\<lambda>e. length (Name e) = k) = (\<lambda>e. ?f e = - int k)" by auto
  then have "filter (\<lambda>e. length (Name e) = k) (sort_key ?f xs) = filter (\<lambda>e. length (Name e) = k) xs" for xs
    using sort_key_stable[of ?f "- int k" xs] by simp
  moreover have "(\<lambda>e. Type e = typ \<and> has_prefix ident (Name e)) = starts typ ident"
    by (auto simp: starts_def fun_eq_iff)
  ultimately show ?thesis
    by (auto simp: matchingDelegates_def)
qed

end
