(* ===== verification/CatalogLoad.thy ===== *)
theory CatalogLoad
  imports CatalogResolve
begin

text \<open>
  \<open>lazyLoad\<close> of \<open>internal/catalog/resolve.go\<close> under concurrency: the goroutines that resolve
  through the same entry share its fields \<open>loaded\<close>, \<open>Catalog\<close> and \<open>loading\<close>.  A step is
  one critical section of \<open>loadMu\<close>, one wait, one call of the loader or one \<open>close\<close>.  A
  channel is the number of its creation; \<open>closed\<close> are the closed ones.  \<open>successes\<close> counts the
  loads that returned a catalog.
\<close>

subsection \<open>States and steps\<close>

text \<open>What a call of \<open>lazyLoad\<close> returns: the catalog pointer \<open>Got\<close> with no
  error, or one of its errors; and what a call of the
  loader returns: an error, or no error and a catalog that may be nil.\<close>

datatype outcome = Got "Catalog option" | CtxErr | NoLoader | LoadErr

datatype load_result = Err | Value "Catalog option"

fun outcome_of :: "load_result \<Rightarrow> outcome" where
  "outcome_of Err = LoadErr"
| "outcome_of (Value None) = NoLoader"
| "outcome_of (Value (Some cat)) = Got (Some cat)"

datatype pc =
    Enter \<comment> \<open>about to check the context\<close>
  | Lock \<comment> \<open>about to take the lock\<close>
  | Waiting nat \<comment> \<open>on the channel of a load in flight\<close>
  | Loading nat \<comment> \<open>in the loader\<close>
  | Closing nat load_result \<comment> \<open>has published the result, about to close its channel\<close>
  | Done outcome

record entry =
  loaded :: bool
  cached :: "Catalog option"
  loading :: "nat option"
  closed :: "nat set"
  fresh :: nat
  successes :: nat
  cancelled :: "nat \<Rightarrow> bool"
  pcs :: "nat \<Rightarrow> pc"

abbreviation goto :: "entry \<Rightarrow> nat \<Rightarrow> pc \<Rightarrow> entry" where
  "goto s t p \<equiv> s\<lparr>pcs := (pcs s)(t := p)\<rparr>"

text \<open>The critical section a goroutine enters to claim or observe the load.\<close>

definition locked :: "bool \<Rightarrow> entry \<Rightarrow> nat \<Rightarrow> entry" where
  "locked hasLoader s t =
     (if loaded s then goto s t (Done (Got (cached s)))
      else if cached s \<noteq> None then goto (s\<lparr>loaded := True\<rparr>) t (Done (Got (cached s)))
      else if \<not> hasLoader then goto s t (Done NoLoader)
      else case loading s of
        Some ch \<Rightarrow> goto s t (Waiting ch)
      | None \<Rightarrow> goto (s\<lparr>loading := Some (fresh s), fresh := fresh s + 1\<rparr>) t (Loading (fresh s)))"

text \<open>The critical section after the loader returned \<open>r\<close>.\<close>

definition publish :: "entry \<Rightarrow> nat \<Rightarrow> nat \<Rightarrow> load_result \<Rightarrow> entry" where
  "publish s t ch r =
     (let s = s\<lparr>loading := None\<rparr>;
          s = (case r of Value (Some cat) \<Rightarrow> s\<lparr>cached := Some cat, loaded := True, successes := successes s + 1\<rparr> | _ \<Rightarrow> s)
      in goto s t (Closing ch r))"

inductive step :: "bool \<Rightarrow> entry \<Rightarrow> nat \<Rightarrow> entry \<Rightarrow> bool" for hasLoader where
  ctx_done: "pcs s t = Enter \<Longrightarrow> cancelled s t \<Longrightarrow> step hasLoader s t (goto s t (Done CtxErr))"
| ctx_ok: "pcs s t = Enter \<Longrightarrow> \<not> cancelled s t \<Longrightarrow> step hasLoader s t (goto s t Lock)"
| lock: "pcs s t = Lock \<Longrightarrow> step hasLoader s t (locked hasLoader s t)"
| wake: "pcs s t = Waiting ch \<Longrightarrow> ch \<in> closed s \<Longrightarrow> step hasLoader s t (goto s t Enter)"
| give_up: "pcs s t = Waiting ch \<Longrightarrow> cancelled s t \<Longrightarrow> step hasLoader s t (goto s t (Done CtxErr))"
| return: "pcs s t = Loading ch \<Longrightarrow> step hasLoader s t (publish s t ch r)"
| close: "pcs s t = Closing ch r \<Longrightarrow> step hasLoader s t (goto (s\<lparr>closed := insert ch (closed s)\<rparr>) t (Done (outcome_of r)))"

inductive_cases step_cases: "step hasLoader s t s'"

definition initial :: "Catalog option \<Rightarrow> entry" where
  "initial cat = \<lparr>loaded = False, cached = cat, loading = None, closed = {}, fresh = 0, successes = 0,
     cancelled = (\<lambda>t. False), pcs = (\<lambda>t. Enter)\<rparr>"

text \<open>Contexts are cancelled at any time, by the environment; a goroutine that is done may resolve
  again.\<close>

inductive reachable :: "bool \<Rightarrow> Catalog option \<Rightarrow> entry \<Rightarrow> bool" for hasLoader cat where
  init: "reachable hasLoader cat (initial cat)"
| step: "reachable hasLoader cat s \<Longrightarrow> step hasLoader s t s' \<Longrightarrow> reachable hasLoader cat s'"
| cancel: "reachable hasLoader cat s \<Longrightarrow> reachable hasLoader cat (s\<lparr>cancelled := (cancelled s)(t := True)\<rparr>)"
| again: "reachable hasLoader cat s \<Longrightarrow> pcs s t = Done r \<Longrightarrow>
    reachable hasLoader cat (goto (s\<lparr>cancelled := (cancelled s)(t := False)\<rparr>) t Enter)"

subsection \<open>The invariant\<close>

text \<open>The parts of the invariant are stated over the fields they are about: \<open>l\<close> is the load in
  flight, \<open>c\<close> the cached catalog, \<open>f\<close> the goroutines.\<close>

primrec holds :: "nat \<Rightarrow> pc \<Rightarrow> bool" where
  "holds ch Enter \<longleftrightarrow> False"
| "holds ch Lock \<longleftrightarrow> False"
| "holds ch (Waiting c) \<longleftrightarrow> False"
| "holds ch (Loading c) \<longleftrightarrow> c = ch"
| "holds ch (Closing c r) \<longleftrightarrow> c = ch"
| "holds ch (Done r) \<longleftrightarrow> False"

definition idle :: "nat set \<Rightarrow> (nat \<Rightarrow> pc) \<Rightarrow> bool" where
  "idle T f \<longleftrightarrow> (\<forall>t\<in>T. \<forall>ch. f t \<noteq> Loading ch)"

primrec flight :: "bool \<Rightarrow> (nat \<Rightarrow> pc) \<Rightarrow> nat option \<Rightarrow> bool" where
  "flight ready f None \<longleftrightarrow> idle UNIV f"
| "flight ready f (Some ch) \<longleftrightarrow> \<not> ready \<and> (\<exists>t. f t = Loading ch \<and> idle (- {t}) f)"

primrec below :: "nat option \<Rightarrow> nat \<Rightarrow> pc \<Rightarrow> bool" where
  "below l n Enter \<longleftrightarrow> True"
| "below l n Lock \<longleftrightarrow> True"
| "below l n (Waiting ch) \<longleftrightarrow> ch < n"
| "below l n (Loading ch) \<longleftrightarrow> True"
| "below l n (Closing ch r) \<longleftrightarrow> ch < n \<and> l \<noteq> Some ch"
| "below l n (Done r) \<longleftrightarrow> True"

definition channels :: "nat option \<Rightarrow> nat \<Rightarrow> nat set \<Rightarrow> (nat \<Rightarrow> pc) \<Rightarrow> bool" where
  "channels l n cl f \<longleftrightarrow> (\<forall>ch\<in>cl. ch < n \<and> l \<noteq> Some ch) \<and> (\<forall>ch. l = Some ch \<longrightarrow> ch < n) \<and> (\<forall>t. below l n (f t))"

text \<open>A goroutine that waits has somebody to wake it: its channel is closed, or is held by the
  goroutine that will close it.\<close>

definition held :: "nat set \<Rightarrow> (nat \<Rightarrow> pc) \<Rightarrow> nat \<Rightarrow> bool" where
  "held cl f ch \<longleftrightarrow> ch \<in> cl \<or> (\<exists>u. holds ch (f u))"

definition woken :: "nat set \<Rightarrow> (nat \<Rightarrow> pc) \<Rightarrow> bool" where
  "woken cl f \<longleftrightarrow> (\<forall>t ch. f t = Waiting ch \<longrightarrow> held cl f ch)"

definition agrees :: "Catalog option \<Rightarrow> pc \<Rightarrow> bool" where
  "agrees c p \<longleftrightarrow> (\<forall>d. p = Done (Got d) \<longrightarrow> d = c \<and> d \<noteq> None) \<and> (\<forall>ch d. p = Closing ch (Value (Some d)) \<longrightarrow> c = Some d)"

definition results :: "Catalog option \<Rightarrow> entry \<Rightarrow> bool" where
  "results cat s \<longleftrightarrow>
     (loaded s \<longrightarrow> cached s \<noteq> None) \<and>
     successes s \<le> 1 \<and> (cached s = None \<longrightarrow> successes s = 0) \<and>
     (cat \<noteq> None \<longrightarrow> cached s = cat \<and> successes s = 0) \<and>
     (\<forall>t. agrees (cached s) (pcs s t))"

definition invariant :: "Catalog option \<Rightarrow> entry \<Rightarrow> bool" where
  "invariant cat s \<longleftrightarrow>
     flight (loaded s \<or> cached s \<noteq> None) (pcs s) (loading s) \<and>
     channels (loading s) (fresh s) (closed s) (pcs s) \<and> woken (closed s) (pcs s) \<and> results cat s"

subsection \<open>Preservation\<close>

lemma publish_simps [simp]:
  "pcs (publish s t ch r) = (pcs s)(t := Closing ch r)"
  "loading (publish s t ch r) = None"
  "closed (publish s t ch r) = closed s"
  "fresh (publish s t ch r) = fresh s"
  by (simp_all add: publish_def Let_def split: load_result.split option.split)

lemma fun_upd_exists: "P (f u) \<Longrightarrow> (P (f t) \<Longrightarrow> P p) \<Longrightarrow> \<exists>u. P ((f(t := p)) u)"
  by (cases "u = t") auto

lemma flight_upd:
  assumes "flight b f l" and "\<And>ch. p \<noteq> Loading ch" and "\<And>ch. f t \<noteq> Loading ch" and "b' \<Longrightarrow> b"
  shows "flight b' (f(t := p)) l"
proof (cases l)
  case (Some ch)
  then obtain u where "f u = Loading ch" and "idle (- {u}) f"
    using assms(1) by auto
  then have "(f(t := p)) u = Loading ch \<and> idle (- {u}) (f(t := p))"
    using assms(2,3) by (auto simp: idle_def)
  then have "\<exists>u. (f(t := p)) u = Loading ch \<and> idle (- {u}) (f(t := p))" ..
  then show ?thesis
    using assms(1,4) Some by (auto simp del: fun_upd_apply)
qed (use assms in \<open>auto simp: idle_def\<close>)

lemma flight_start: "flight b f None \<Longrightarrow> \<not> b \<Longrightarrow> flight b (f(t := Loading ch)) (Some ch)"
  by (auto simp: idle_def)

lemma flight_end: "flight b f l \<Longrightarrow> f t = Loading ch \<Longrightarrow> (\<And>c. p \<noteq> Loading c) \<Longrightarrow> flight b' (f(t := p)) None"
  by (cases l) (auto simp: idle_def)

lemma flight_owner: "flight b f l \<Longrightarrow> f t = Loading ch \<Longrightarrow> l = Some ch \<and> \<not> b"
  by (cases l) (auto simp: idle_def)

lemma channels_upd: "channels l n cl f \<Longrightarrow> below l n p \<Longrightarrow> channels l n cl (f(t := p))"
  by (simp add: channels_def)

lemma channels_start: "channels None n cl f \<Longrightarrow> channels (Some n) (Suc n) cl (f(t := Loading n))"
proof -
  assume c: "channels None n cl f"
  have "below (Some n) (Suc n) p" if "below None n p" for p
    using that by (cases p) auto
  then show ?thesis
    using c by (auto simp: channels_def)
qed

lemma channels_end:
  assumes "channels l n cl f" and "l = Some ch"
  shows "channels None n cl (f(t := Closing ch r))"
proof -
  have "below None n p" if "below l n p" for p
    using that by (cases p) auto
  then show ?thesis
    using assms by (auto simp: channels_def)
qed

lemma channels_close:
  assumes "channels l n cl f" and "f t = Closing ch r"
  shows "channels l n (insert ch cl) (f(t := Done d))"
proof -
  have "below l n (Closing ch r)"
    using assms unfolding channels_def by metis
  then show ?thesis
    using assms by (simp add: channels_def)
qed

lemma held_upd: "held cl f ch \<Longrightarrow> (holds ch (f t) \<Longrightarrow> holds ch p \<or> ch \<in> cl') \<Longrightarrow> cl \<subseteq> cl' \<Longrightarrow> held cl' (f(t := p)) ch"
  unfolding held_def by (metis fun_upd_exists subsetD)

lemma woken_upd:
  assumes "woken cl f" and "cl \<subseteq> cl'" and "\<And>ch. holds ch (f t) \<Longrightarrow> holds ch p \<or> ch \<in> cl'"
    and "\<And>ch. p = Waiting ch \<Longrightarrow> held cl' (f(t := p)) ch"
  shows "woken cl' (f(t := p))"
  unfolding woken_def using assms held_upd[OF _ assms(3) assms(2)]
  by (metis fun_upd_def woken_def)

lemma agrees_simps [simp]:
  "agrees c Enter" "agrees c Lock" "agrees c (Waiting ch)" "agrees c (Loading ch)" "agrees c (Done CtxErr)"
  "agrees c (Done NoLoader)" "agrees c (Done LoadErr)" "agrees c (Done (Got d)) \<longleftrightarrow> d = c \<and> d \<noteq> None"
  "agrees c (Closing ch Err)" "agrees c (Closing ch (Value None))" "agrees c (Closing ch (Value (Some e))) \<longleftrightarrow> c = Some e"
  by (auto simp: agrees_def)

lemma agrees_outcome: "agrees c (Closing ch r) \<Longrightarrow> agrees c (Done (outcome_of r))"
  by (cases r rule: outcome_of.cases) auto

lemma agrees_None: "agrees None p \<Longrightarrow> agrees c p"
  by (auto simp: agrees_def)

lemma invariant_step:
  assumes inv: "invariant cat s" and "step h s t s'"
  shows "invariant cat s'"
  using assms(2)
proof (cases rule: step.cases)
  case lock
  consider (ready) "loaded s \<or> cached s \<noteq> None" | (none) "\<not> loaded s" "cached s = None" "\<not> h"
    | (wait) ch where "\<not> loaded s" "cached s = None" "h" "loading s = Some ch"
    | (own) "\<not> loaded s" "cached s = None" "h" "loading s = None"
    by fastforce
  then show ?thesis
  proof cases
    case ready
    then show ?thesis
      using inv lock by (auto simp: invariant_def results_def locked_def intro!: flight_upd channels_upd woken_upd)
  next
    case none
    then show ?thesis
      using inv lock by (auto simp: invariant_def results_def locked_def intro!: flight_upd channels_upd woken_upd)
  next
    case wait
    obtain u where "pcs s u = Loading ch"
      using inv wait by (auto simp: invariant_def)
    then have "held (closed s) (pcs s) ch"
      unfolding held_def by (metis holds.simps(4))
    then have "woken (closed s) ((pcs s)(t := Waiting ch))"
      using inv lock by (auto simp: invariant_def intro!: woken_upd held_upd)
    moreover have "flight False ((pcs s)(t := Waiting ch)) (loading s)"
      using inv lock by (auto simp: invariant_def intro!: flight_upd)
    moreover have "ch < fresh s"
      using inv wait by (simp add: invariant_def channels_def)
    ultimately show ?thesis
      using inv lock wait by (simp add: invariant_def results_def locked_def channels_upd)
  next
    case own
    then show ?thesis
      using inv lock channels_start[of "fresh s"] flight_start[of "loaded s \<or> cached s \<noteq> None" "pcs s" t "fresh s"]
      by (auto simp: invariant_def results_def locked_def intro!: woken_upd)
  qed
next
  case (return ch r)
  have owner: "loading s = Some ch" "\<not> loaded s" "cached s = None"
    using inv return(2) flight_owner[of "loaded s \<or> cached s \<noteq> None" "pcs s" "loading s"] unfolding invariant_def by blast+
  have "woken (closed s) ((pcs s)(t := Closing ch r))"
    using inv return by (auto simp: invariant_def intro!: woken_upd)
  moreover have "flight b ((pcs s)(t := Closing ch r)) None" for b
    using inv return flight_end unfolding invariant_def by blast
  moreover have "channels None (fresh s) (closed s) ((pcs s)(t := Closing ch r))"
    using inv owner channels_end by (auto simp: invariant_def)
  moreover have "results cat (publish s t ch r)"
    using inv owner by (auto simp: invariant_def results_def publish_def Let_def intro: agrees_None
        split: load_result.splits option.splits)
  ultimately show ?thesis
    using return by (simp add: invariant_def)
next
  case (close ch r)
  have "agrees (cached s) (Done (outcome_of r))"
    using inv close agrees_outcome unfolding invariant_def results_def by metis
  then show ?thesis
    using inv close
    by (auto simp: invariant_def results_def intro!: flight_upd channels_close woken_upd)
qed (use inv in \<open>auto simp: invariant_def results_def intro!: flight_upd channels_upd woken_upd\<close>)

lemma reachable_invariant: "reachable h cat s \<Longrightarrow> invariant cat s"
proof (induction rule: reachable.induct)
  case init
  show ?case
    by (simp add: initial_def invariant_def idle_def channels_def woken_def results_def)
next
  case step
  then show ?case
    by (blast intro: invariant_step)
next
  case cancel
  then show ?case
    by (simp add: invariant_def results_def)
next
  case again
  then show ?case
    by (auto simp: invariant_def results_def intro!: flight_upd channels_upd woken_upd)
qed

subsection \<open>Every call can finish\<close>

abbreviation moves :: "bool \<Rightarrow> entry \<Rightarrow> entry \<Rightarrow> bool" where
  "moves h \<equiv> (\<lambda>s s'. \<exists>u. step h s u s')\<^sup>*\<^sup>*"

definition finishes :: "bool \<Rightarrow> entry \<Rightarrow> nat \<Rightarrow> bool" where
  "finishes h s t \<longleftrightarrow> (\<exists>s' r. moves h s s' \<and> pcs s' t = Done r)"

lemma moves_step: "step h s u s' \<Longrightarrow> moves h s s'"
  by blast

lemma moves_invariant: "moves h s s' \<Longrightarrow> invariant cat s \<Longrightarrow> invariant cat s'"
  by (induction rule: rtranclp_induct) (auto intro: invariant_step)

lemma finishes_moves: "moves h s s' \<Longrightarrow> finishes h s' t \<Longrightarrow> finishes h s t"
  unfolding finishes_def by (meson rtranclp_trans)

lemma finishes_step: "step h s u s' \<Longrightarrow> finishes h s' t \<Longrightarrow> finishes h s t"
  by (blast intro: finishes_moves moves_step)

lemma finishes_Done: "pcs s t = Done r \<Longrightarrow> finishes h s t"
  unfolding finishes_def by blast

lemma finishes_Closing: "pcs s t = Closing ch r \<Longrightarrow> finishes h s t"
  by (rule finishes_step[OF step.close]) (auto intro: finishes_Done)

lemma finishes_Loading: "pcs s t = Loading ch \<Longrightarrow> finishes h s t"
  by (rule finishes_step[OF step.return]) (auto intro: finishes_Closing)

lemma finishes_Lock: "pcs s t = Lock \<Longrightarrow> loading s = None \<Longrightarrow> finishes h s t"
  by (rule finishes_step[OF step.lock])
    (auto simp: locked_def intro: finishes_Done finishes_Loading)

lemma finishes_Enter: "pcs s t = Enter \<Longrightarrow> loading s = None \<Longrightarrow> finishes h s t"
  using finishes_step[OF step.ctx_done, of s t h t] finishes_Done[of "goto s t (Done CtxErr)" t CtxErr h]
    finishes_step[OF step.ctx_ok, of s t h t] finishes_Lock[of "goto s t Lock" t h]
  by (cases "cancelled s t") simp_all

text \<open>Any load in flight can end, and it disturbs no other goroutine.\<close>

lemma load_ends:
  assumes "invariant cat s" and "\<And>ch. pcs s t \<noteq> Loading ch"
  obtains s' where "moves h s s'" and "invariant cat s'" and "loading s' = None" and "pcs s' t = pcs s t"
proof (cases "loading s")
  case None
  show ?thesis
    by (rule that[of s]) (use None assms in auto)
next
  case (Some ch)
  then obtain u where u: "pcs s u = Loading ch"
    using assms(1) by (auto simp: invariant_def)
  have "step h s u (publish s u ch Err)"
    by (rule step.return[OF u])
  then show ?thesis
    using assms u by (intro that[of "publish s u ch Err"]) (auto intro: invariant_step)
qed

lemma finishes_Waiting:
  assumes "invariant cat s" and "pcs s t = Waiting ch" and "loading s = None"
  shows "finishes h s t"
proof -
  have wake: "finishes h s' t" if "pcs s' t = Waiting ch" "ch \<in> closed s'" "loading s' = None" for s'
    by (rule finishes_step[OF step.wake[OF that(1,2)]]) (use that(3) in \<open>auto intro: finishes_Enter\<close>)
  have "held (closed s) (pcs s) ch"
    using assms(1,2) by (auto simp: invariant_def woken_def)
  then consider "ch \<in> closed s" | u where "holds ch (pcs s u)"
    by (auto simp: held_def)
  then show ?thesis
  proof cases
    case 1
    then show ?thesis
      using assms by (intro wake) auto
  next
    case 2
    have "pcs s u \<noteq> Loading ch"
      using assms(1,3) by (auto simp: invariant_def idle_def)
    with 2 obtain r where u: "pcs s u = Closing ch r"
      by (cases "pcs s u") auto
    show ?thesis
      by (rule finishes_step[OF step.close[OF u]]) (use assms u in \<open>auto intro!: wake\<close>)
  qed
qed

lemma invariant_finishes:
  assumes "invariant cat s"
  shows "finishes h s t"
proof (cases "\<exists>ch. pcs s t = Loading ch")
  case True
  then show ?thesis
    by (auto intro: finishes_Loading)
next
  case False
  then obtain s' where s': "moves h s s'" "invariant cat s'" "loading s' = None"
    using load_ends[OF assms, of t] by metis
  have "finishes h s' t"
    using s'(2,3) by (cases "pcs s' t")
      (auto intro: finishes_Enter finishes_Lock finishes_Waiting finishes_Loading finishes_Closing finishes_Done)
  then show ?thesis
    by (rule finishes_moves[OF s'(1)])
qed

subsection \<open>The properties of lazyLoad\<close>

text \<open>A state in which one goroutine loads and a second one waits, and the state after the load
  succeeded and the second one has picked it up.\<close>

definition contended :: entry where
  "contended = locked True (goto (locked True (goto (initial None) 0 Lock) 0) 1 Lock) 1"

definition shared :: "Catalog \<Rightarrow> entry" where
  "shared cat =
     (let s = publish contended 0 0 (Value (Some cat));
          s = goto (s\<lparr>closed := insert 0 (closed s)\<rparr>) 0 (Done (Got (Some cat)));
          s = goto (goto s 1 Enter) 1 Lock
      in locked True s 1)"

lemmas example_simps = contended_def shared_def initial_def locked_def publish_def

lemma reachable_ctx: "reachable h cat s \<Longrightarrow> pcs s t = Enter \<Longrightarrow> \<not> cancelled s t \<Longrightarrow> reachable h cat (goto s t Lock)"
  by (rule reachable.step[OF _ step.ctx_ok])

lemma reachable_lock: "reachable h cat s \<Longrightarrow> pcs s t = Lock \<Longrightarrow> reachable h cat (locked h s t)"
  by (rule reachable.step[OF _ step.lock])

lemma reachable_contended: "reachable True None contended"
proof -
  have "reachable True None (goto (initial None) 0 Lock)"
    by (rule reachable_ctx[OF reachable.init]) (simp_all add: initial_def)
  then have 1: "reachable True None (locked True (goto (initial None) 0 Lock) 0)"
    by (rule reachable_lock) simp
  have "reachable True None (goto (locked True (goto (initial None) 0 Lock) 0) 1 Lock)"
    by (rule reachable_ctx[OF 1]) (simp_all add: initial_def locked_def)
  then show ?thesis
    unfolding contended_def by (rule reachable_lock) simp
qed

lemma contended_pcs: "pcs contended 0 = Loading 0" "pcs contended 1 = Waiting 0"
  by (simp_all add: example_simps)

lemma reachable_shared: "reachable True None (shared cat)"
proof -
  let ?s = "publish contended 0 0 (Value (Some cat))"
  let ?s1 = "goto (?s\<lparr>closed := insert 0 (closed ?s)\<rparr>) 0 (Done (Got (Some cat)))"
  have p: "pcs ?s 0 = Closing 0 (Value (Some cat))" "pcs ?s1 1 = Waiting 0" "0 \<in> closed ?s1" "\<not> cancelled ?s1 1"
    by (simp_all add: example_simps)
  have 1: "reachable True None ?s"
    by (rule reachable.step[OF reachable_contended], rule step.return) (rule contended_pcs)
  have 2: "reachable True None ?s1"
    using reachable.step[OF 1 step.close[OF p(1)]] by simp
  have 3: "reachable True None (goto ?s1 1 Enter)"
    by (rule reachable.step[OF 2 step.wake[OF p(2,3)]])
  have 4: "reachable True None (goto (goto ?s1 1 Enter) 1 Lock)"
    by (rule reachable_ctx[OF 3]) (use p(4) in simp_all)
  show ?thesis
    unfolding shared_def Let_def by (rule reachable_lock[OF 4]) simp
qed

text \<open>C25: The load is single-flight: however the goroutines that resolve through an entry interleave
  and however their contexts are cancelled, at most one of them is in the loader.\<close>

theorem single_flight:
  assumes "reachable h cat s" and "pcs s t = Loading ch" and "pcs s u = Loading ch'"
  shows "t = u"
proof -
  have "flight (loaded s \<or> cached s \<noteq> None) (pcs s) (loading s)"
    using reachable_invariant[OF assms(1)] by (simp add: invariant_def)
  then show ?thesis
    using assms(2,3) by (cases "loading s") (auto simp: idle_def)
qed

theorem single_flight_witness: "reachable True None contended \<and> pcs contended 0 = Loading 0 \<and> (0::nat) = 0"
  using single_flight[OF reachable_contended contended_pcs(1) contended_pcs(1)] reachable_contended contended_pcs(1)
  by simp

text \<open>C26: All calls that return without an error, now or earlier, return one and the same catalog,
  never nil: the one the entry came with, or the one that the single successful load produced.\<close>

theorem loads_agree:
  assumes "reachable h cat s" and "pcs s t = Done (Got c)" and "pcs s u = Done (Got d)"
  shows "c = d \<and> c \<noteq> None \<and> successes s \<le> 1 \<and> (cat \<noteq> None \<longrightarrow> c = cat \<and> successes s = 0)"
proof -
  have r: "results cat s"
    using reachable_invariant[OF assms(1)] by (simp add: invariant_def)
  then have "agrees (cached s) (pcs s t)" and "agrees (cached s) (pcs s u)"
    by (simp_all add: results_def)
  with r show ?thesis
    using assms(2,3) by (auto simp: results_def)
qed

theorem loads_agree_witness:
  "pcs (shared (Catalog [] PreferPublic [] None)) 0 = Done (Got (Some (Catalog [] PreferPublic [] None))) \<and>
   pcs (shared (Catalog [] PreferPublic [] None)) 1 = Done (Got (Some (Catalog [] PreferPublic [] None))) \<and>
   successes (shared (Catalog [] PreferPublic [] None)) \<le> 1"
  using loads_agree[OF reachable_shared, of "Catalog [] PreferPublic [] None" 0 _ 1]
  by (simp add: example_simps)

text \<open>C27: No goroutine is ever stuck: from every reachable state, every call of \<open>lazyLoad\<close> has
  a continuation in which it returns; a waiter always has the goroutine that will wake it.\<close>

theorem calls_can_finish:
  assumes "reachable h cat s"
  shows "\<exists>s' r. (\<lambda>s s'. \<exists>u. step h s u s')\<^sup>*\<^sup>* s s' \<and> pcs s' t = Done r"
  using invariant_finishes[OF reachable_invariant[OF assms]] by (simp add: finishes_def)

theorem calls_can_finish_witness:
  "pcs contended 1 = Waiting 0 \<and> (\<exists>s' r. (\<lambda>s s'. \<exists>u. step True s u s')\<^sup>*\<^sup>* contended s' \<and> pcs s' 1 = Done r)"
  using calls_can_finish[OF reachable_contended, of 1] contended_pcs(2) by simp

end
