(* ===== verification/GoNum.thy ===== *)
theory GoNum
  imports Complex_Main GoLib
begin

text \<open>
  The functions of Go's packages \<open>strconv\<close>, \<open>fmt\<close>, \<open>math/big\<close>, \<open>encoding/hex\<close>,
  \<open>encoding/base64\<close>, \<open>bytes\<close> and \<open>strings\<close> that the XSD value code uses.  \<open>big.Int\<close> is \<open>int\<close>
  and \<open>big.Rat\<close> is \<open>rat\<close>.  \<open>rat_SetString\<close> is \<open>big.Rat.SetString\<close> on decimal notation,
  the only one that reaches it; \<open>sscanf_d\<close> is \<open>fmt.Sscanf\<close> with the format \<open>%d\<close> on ASCII text.
\<close>

subsection \<open>Three-way comparison\<close>

definition cmp :: "'a::linorder \<Rightarrow> 'a \<Rightarrow> int" where
  "cmp a b = (if a < b then -1 else if a > b then 1 else 0)"

lemma cmp_simps [simp]: "cmp a b = 0 \<longleftrightarrow> a = b" "cmp a b = -1 \<longleftrightarrow> a < b" "cmp a b = 1 \<longleftrightarrow> b < a" "cmp a a = 0"
  by (auto simp: cmp_def)

lemma cmp_swap: "cmp b a = - cmp a b"
  by (auto simp: cmp_def)

lemma cmp_sign [simp]: "cmp a b < 0 \<longleftrightarrow> a < b" "0 < cmp a b \<longleftrightarrow> b < a"
  by (auto simp: cmp_def)

lemma cmp_cong: "(a < b \<longleftrightarrow> c < d) \<Longrightarrow> (b < a \<longleftrightarrow> d < c) \<Longrightarrow> cmp a b = cmp c d"
  by (auto simp: cmp_def)

subsection \<open>Strings\<close>

definition trim_left :: "string \<Rightarrow> string \<Rightarrow> string" where
  "trim_left s cutset = dropWhile (\<lambda>c. c \<in> set cutset) s"

definition trim_right :: "string \<Rightarrow> string \<Rightarrow> string" where
  "trim_right s cutset = rev (dropWhile (\<lambda>c. c \<in> set cutset) (rev s))"

definition trim :: "string \<Rightarrow> string \<Rightarrow> string" where
  "trim s cutset = trim_right (trim_left s cutset) cutset"

text \<open>\<open>strings.Map\<close>: runes are decoded, mapped or dropped, and encoded again.\<close>

definition str_map :: "(nat \<Rightarrow> nat option) \<Rightarrow> string \<Rightarrow> string" where
  "str_map f s = concat (map (\<lambda>r. case f r of None \<Rightarrow> [] | Some q \<Rightarrow> encode_rune q) (runes s))"

text \<open>\<open>strings.SplitN (s, sep, n)\<close> for a separator of one byte and \<open>0 < n\<close>.\<close>

fun split_n :: "char \<Rightarrow> nat \<Rightarrow> string \<Rightarrow> string list" where
  "split_n d 0 s = []"
| "split_n d (Suc 0) s = [s]"
| "split_n d (Suc (Suc n)) s = (case str_cut s [d] of None \<Rightarrow> [s] | Some (u, v) \<Rightarrow> u # split_n d (Suc n) v)"

fun bytes_compare :: "string \<Rightarrow> string \<Rightarrow> int" where
  "bytes_compare [] [] = 0"
| "bytes_compare [] (b # bs) = -1"
| "bytes_compare (a # as) [] = 1"
| "bytes_compare (a # as) (b # bs) =
     (if byte a < byte b then -1 else if byte b < byte a then 1 else bytes_compare as bs)"

subsection \<open>Numbers\<close>

definition digits :: "string \<Rightarrow> bool" where
  "digits s \<longleftrightarrow> list_all ascii_digit s"

definition nat_of :: "string \<Rightarrow> nat" where
  "nat_of s = foldl (\<lambda>n c. 10 * n + (byte c - 48)) 0 s"

text \<open>An optional sign: whether it is a minus, and the rest.\<close>

fun take_sign :: "string \<Rightarrow> bool \<times> string" where
  "take_sign [] = (False, [])"
| "take_sign (c # s) = (if c = CHR ''-'' then (True, s) else if c = CHR ''+'' then (False, s) else (False, c # s))"

definition signed :: "bool \<Rightarrow> 'a::ab_group_add \<Rightarrow> 'a" where
  "signed neg x = (if neg then - x else x)"

definition int_SetString :: "string \<Rightarrow> int option" where
  "int_SetString s =
     (let (neg, d) = take_sign s in
      if d \<noteq> [] \<and> digits d then Some (signed neg (int (nat_of d))) else None)"

definition in_int64 :: "int \<Rightarrow> bool" where
  "in_int64 n \<longleftrightarrow> - (2 ^ 63) \<le> n \<and> n < 2 ^ 63"

definition atoi :: "string \<Rightarrow> int option" where
  "atoi s = (case int_SetString s of None \<Rightarrow> None | Some n \<Rightarrow> if in_int64 n then Some n else None)"

definition sscanf_d :: "string \<Rightarrow> int option" where
  "sscanf_d s =
     (let (neg, d) = take_sign (dropWhile (\<lambda>c. c = CHR '' '' \<or> c = CHR 0x09) s);
          n = takeWhile ascii_digit d
      in if n \<noteq> [] \<and> in_int64 (signed neg (int (nat_of n))) then Some (signed neg (int (nat_of n))) else None)"

definition rat_SetString :: "string \<Rightarrow> rat option" where
  "rat_SetString s =
     (let (neg, d) = take_sign s;
          (i, f) = (case str_cut d ''.'' of None \<Rightarrow> (d, []) | Some p \<Rightarrow> p)
      in if i @ f \<noteq> [] \<and> digits (i @ f)
         then Some (signed neg (of_nat (nat_of (i @ f)) / 10 ^ length f)) else None)"

fun show_nat :: "nat \<Rightarrow> string" where
  "show_nat n = (if n < 10 then [char_of (48 + n)] else show_nat (n div 10) @ [char_of (48 + n mod 10)])"

declare show_nat.simps [simp del]

definition show_int :: "int \<Rightarrow> string" where
  "show_int i = (if i < 0 then CHR ''-'' # show_nat (nat (- i)) else show_nat (nat i))"

definition RatString :: "rat \<Rightarrow> string" where
  "RatString r = (let (n, d) = quotient_of r in if d = 1 then show_int n else show_int n @ CHR ''/'' # show_int d)"

subsection \<open>Binary data\<close>

definition hex_value :: "char \<Rightarrow> nat option" where
  "hex_value c = (let b = byte c in
     if 48 \<le> b \<and> b \<le> 57 then Some (b - 48)
     else if 97 \<le> b \<and> b \<le> 102 then Some (b - 87)
     else if 65 \<le> b \<and> b \<le> 70 then Some (b - 55)
     else None)"

fun hex_decode :: "string \<Rightarrow> string option" where
  "hex_decode [] = Some []"
| "hex_decode [c] = None"
| "hex_decode (c # d # s) =
     (case (hex_value c, hex_value d) of
        (Some h, Some l) \<Rightarrow> map_option ((#) (char_of (16 * h + l))) (hex_decode s)
      | _ \<Rightarrow> None)"

definition hex_digit :: "nat \<Rightarrow> char" where
  "hex_digit n = char_of (if n < 10 then 48 + n else 87 + n)"

definition hex_encode :: "string \<Rightarrow> string" where
  "hex_encode s = concat (map (\<lambda>c. [hex_digit (byte c div 16), hex_digit (byte c mod 16)]) s)"

definition base64_value :: "char \<Rightarrow> nat option" where
  "base64_value c = (let b = byte c in
     if 65 \<le> b \<and> b \<le> 90 then Some (b - 65)
     else if 97 \<le> b \<and> b \<le> 122 then Some (b - 71)
     else if 48 \<le> b \<and> b \<le> 57 then Some (b + 4)
     else if c = CHR ''+'' then Some 62
     else if c = CHR ''/'' then Some 63
     else None)"

text \<open>The strict decoder of the padded alphabet: a padded group is the last one, and its unused bits
  are zero.\<close>

fun base64_quads :: "string \<Rightarrow> string option" where
  "base64_quads [] = Some []"
| "base64_quads (a # b # c # d # s) =
     (case (base64_value a, base64_value b) of
        (Some x, Some y) \<Rightarrow>
          (if c = CHR ''='' then
             (if d = CHR ''='' \<and> s = [] \<and> y mod 16 = 0 then Some [char_of (x * 4 + y div 16)] else None)
           else (case base64_value c of None \<Rightarrow> None
             | Some z \<Rightarrow>
               if d = CHR ''='' then
                 (if s = [] \<and> z mod 4 = 0 then Some [char_of (x * 4 + y div 16), char_of ((y mod 16) * 16 + z div 4)] else None)
               else (case base64_value d of None \<Rightarrow> None
                 | Some v \<Rightarrow> map_option (\<lambda>r. [char_of (x * 4 + y div 16), char_of ((y mod 16) * 16 + z div 4), char_of ((z mod 4) * 64 + v)] @ r)
                     (base64_quads s))))
      | _ \<Rightarrow> None)"
| "base64_quads s = None"

definition base64_decode :: "string \<Rightarrow> string option" where
  "base64_decode s = base64_quads (filter (\<lambda>c. c \<noteq> CHR 0x0A \<and> c \<noteq> CHR 0x0D) s)"

subsection \<open>Facts\<close>

lemma digits_simps [simp]: "digits []" "digits (c # s) \<longleftrightarrow> ascii_digit c \<and> digits s" "digits (s @ t) \<longleftrightarrow> digits s \<and> digits t"
  by (simp_all add: digits_def)

lemma digits_set: "digits s \<longleftrightarrow> (\<forall>c\<in>set s. ascii_digit c)"
  by (simp add: digits_def list_all_iff)

lemma nat_of_acc: "foldl (\<lambda>n c. 10 * n + (byte c - 48)) a s = a * 10 ^ length s + nat_of s"
  unfolding nat_of_def
proof (induction s arbitrary: a)
  case (Cons c s)
  show ?case
    using Cons[of "10 * a + (byte c - 48)"] Cons[of "byte c - 48"] by (simp add: algebra_simps)
qed simp

lemma nat_of_Nil [simp]: "nat_of [] = 0"
  by (simp add: nat_of_def)

lemma nat_of_Cons: "nat_of (c # s) = (byte c - 48) * 10 ^ length s + nat_of s"
  using nat_of_acc[of "byte c - 48" s] by (simp add: nat_of_def)

lemma nat_of_append: "nat_of (s @ t) = nat_of s * 10 ^ length t + nat_of t"
  using nat_of_acc[of "nat_of s" t] by (simp add: nat_of_def)

lemma nat_of_less: "digits s \<Longrightarrow> nat_of s < 10 ^ length s"
proof (induction s)
  case (Cons c s)
  have "(byte c - 48) * 10 ^ length s + nat_of s < 10 * 10 ^ length s"
  proof -
    have "byte c - 48 \<le> 9"
      using Cons.prems by (auto simp: ascii_digit_def)
    then have "(byte c - 48) * 10 ^ length s \<le> 9 * 10 ^ length s"
      by (rule mult_le_mono1)
    moreover have "nat_of s < 10 ^ length s"
      using Cons by simp
    ultimately show ?thesis
      by linarith
  qed
  then show ?case
    by (simp add: nat_of_Cons)
qed simp

lemma show_nat_digits: "digits (show_nat n) \<and> show_nat n \<noteq> [] \<and> nat_of (show_nat n) = n"
proof (induction n rule: show_nat.induct)
  case (1 n)
  show ?case
  proof (cases "n < 10")
    case True
    then show ?thesis
      by (simp add: show_nat.simps[of n] ascii_digit_def nat_of_Cons)
  next
    case False
    have "ascii_digit (char_of (48 + n mod 10))"
      by (simp add: ascii_digit_def)
    then show ?thesis
      using False 1[OF False] by (simp add: show_nat.simps[of n] nat_of_append nat_of_Cons)
  qed
qed

lemma show_nat_inject [simp]: "show_nat m = show_nat n \<longleftrightarrow> m = n"
  by (metis show_nat_digits)

lemma show_nat_hd: "hd (show_nat n) \<noteq> CHR ''-''"
proof -
  have "ascii_digit (hd (show_nat n))"
    using show_nat_digits[of n] by (cases "show_nat n") auto
  then show ?thesis
    by (auto simp: ascii_digit_def)
qed

lemma show_int_inject [simp]: "show_int i = show_int j \<longleftrightarrow> i = j"
proof -
  have "CHR ''-'' # u \<noteq> show_nat n" for u n
    using show_nat_hd[of n] by (metis list.sel(1))
  then show ?thesis
    by (auto simp: show_int_def dest: sym)
qed

lemma show_int_chars: "c \<in> set (show_int i) \<Longrightarrow> c = CHR ''-'' \<or> ascii_digit c"
  using show_nat_digits[of "nat i"] show_nat_digits[of "nat (- i)"]
  by (auto simp: show_int_def digits_set split: if_splits)

lemma show_int_no_slash: "CHR ''/'' \<notin> set (show_int i)" "CHR ''|'' \<notin> set (show_int i)"
  using show_int_chars[of "CHR ''/''" i] show_int_chars[of "CHR ''|''" i] by (auto simp: ascii_digit_def)

lemma append_sep_inject: "d \<notin> set u \<Longrightarrow> d \<notin> set v \<Longrightarrow> u @ d # s = v @ d # t \<longleftrightarrow> u = v \<and> s = t"
  by (auto simp: append_eq_append_conv2 append_eq_Cons_conv Cons_eq_append_conv)

lemma RatString_inject [simp]: "RatString r = RatString q \<longleftrightarrow> r = q"
proof
  assume eq: "RatString r = RatString q"
  obtain a b where r: "quotient_of r = (a, b)" by fastforce
  obtain c d where q: "quotient_of q = (c, d)" by fastforce
  note no = show_int_no_slash(1)
  have "a = c \<and> b = d"
    using eq append_sep_inject[OF no[of a] no[of c]] no[of a] no[of c]
    by (auto simp: RatString_def r q split: if_splits) (metis in_set_conv_decomp show_int_no_slash(1))+
  then show "r = q"
    using r q quotient_of_inject by metis
qed simp

lemma RatString_no_bar: "CHR ''|'' \<notin> set (RatString r)"
  using show_int_no_slash(2) by (auto simp: RatString_def split: prod.splits)

lemma bytes_compare_eq [simp]: "bytes_compare a b = 0 \<longleftrightarrow> a = b"
  by (induction a b rule: bytes_compare.induct) auto

end
