(* ===== verification/XsdTime.thy ===== *)
theory XsdTime
  imports GoNum
begin

text \<open>
  The date and time arithmetic of \<open>internal/xsd/value/compare.go\<close>: the Gregorian calendar, the
  normalisation of a parsed date/time to UTC, the comparison of date/times with and without a
  timezone, and the comparison of durations at the four reference dates of XSD.  A nil \<open>*big.Int\<close>
  or \<open>*big.Rat\<close> is \<^const>\<open>None\<close>.  The specification is the timeline: the day number of a
  date, and the instant, in seconds, of a date/time.
\<close>

subsection \<open>The calendar\<close>

definition isLeapYearBig :: "int \<Rightarrow> bool" where
  "isLeapYearBig y =
     (if y mod 4 \<noteq> 0 then False
      else if y mod 100 \<noteq> 0 then True
      else y mod 400 = 0)"

definition daysInMonth :: "int \<Rightarrow> int \<Rightarrow> int" where
  "daysInMonth y m =
     (if m \<in> {1, 3, 5, 7, 8, 10, 12} then 31
      else if m \<in> {4, 6, 9, 11} then 30
      else if m = 2 then (if isLeapYearBig y then 29 else 28)
      else 30)"

definition floorDivInt :: "int \<Rightarrow> int \<Rightarrow> int" where
  "floorDivInt n d = n div d"

definition daysBeforeYear :: "int \<Rightarrow> int" where
  "daysBeforeYear y =
     y * 365 + floorDivInt (y + 3) 4 - floorDivInt (y + 99) 100 + floorDivInt (y + 399) 400"

definition daysBeforeMonth :: "int \<Rightarrow> int \<Rightarrow> int" where
  "daysBeforeMonth y m =
     (let common = [0, 31, 59, 90, 120, 151, 181, 212, 243, 273, 304, 334];
          leap = [0, 31, 60, 91, 121, 152, 182, 213, 244, 274, 305, 335]
      in if m < 1 then 0
         else let m = (if m > 12 then 12 else m)
              in if isLeapYearBig y then leap ! nat (m - 1) else common ! nat (m - 1))"

definition daysBeforeDate :: "int \<Rightarrow> int \<Rightarrow> int \<Rightarrow> int" where
  "daysBeforeDate y m d = daysBeforeYear y + (daysBeforeMonth y m + d - 1)"

subsection \<open>Date/times\<close>

record xsdDateTime =
  year :: "int option"
  month :: int
  day :: int
  hour :: int
  minutes :: int
  sec :: "rat option"
  hasTZ :: bool
  tzMin :: int

definition secVal :: "xsdDateTime \<Rightarrow> rat" where
  "secVal dt = (case sec dt of None \<Rightarrow> 0 | Some s \<Rightarrow> s)"

definition yearVal :: "xsdDateTime \<Rightarrow> int" where
  "yearVal dt = (case year dt of None \<Rightarrow> 0 | Some y \<Rightarrow> y)"

text \<open>The loops of \<open>normalizeToUTC\<close>, in its order.\<close>

function min_borrow :: "int \<Rightarrow> int \<Rightarrow> int \<times> int" where
  "min_borrow h m = (if m < 0 then min_borrow (h - 1) (m + 60) else (h, m))"
  by pat_completeness auto
termination by (relation "measure (\<lambda>(h, m). nat (- m))") auto

function min_carry :: "int \<Rightarrow> int \<Rightarrow> int \<times> int" where
  "min_carry h m = (if m \<ge> 60 then min_carry (h + 1) (m - 60) else (h, m))"
  by pat_completeness auto
termination by (relation "measure (\<lambda>(h, m). nat m)") auto

function hour_borrow :: "int \<Rightarrow> int \<Rightarrow> int \<times> int" where
  "hour_borrow d h = (if h < 0 then hour_borrow (d - 1) (h + 24) else (d, h))"
  by pat_completeness auto
termination by (relation "measure (\<lambda>(d, h). nat (- h))") auto

function hour_carry :: "int \<Rightarrow> int \<Rightarrow> int \<times> int" where
  "hour_carry d h = (if h \<ge> 24 then hour_carry (d + 1) (h - 24) else (d, h))"
  by pat_completeness auto
termination by (relation "measure (\<lambda>(d, h). nat h)") auto

definition prev_month :: "int \<Rightarrow> int \<Rightarrow> int \<times> int" where
  "prev_month y m = (if m - 1 < 1 then (y - 1, 12) else (y, m - 1))"

definition next_month :: "int \<Rightarrow> int \<Rightarrow> int \<times> int" where
  "next_month y m = (if m + 1 > 12 then (y + 1, 1) else (y, m + 1))"

lemma daysInMonth_bounds: "28 \<le> daysInMonth y m" "daysInMonth y m \<le> 31"
  by (simp_all add: daysInMonth_def)

lemma daysInMonth_pos: "0 < daysInMonth y m"
  using daysInMonth_bounds(1)[of y m] by linarith

function day_borrow :: "int \<Rightarrow> int \<Rightarrow> int \<Rightarrow> int \<times> int \<times> int" where
  "day_borrow y m d =
     (if d < 1 then let (y', m') = prev_month y m in day_borrow y' m' (d + daysInMonth y' m')
      else (y, m, d))"
  by pat_completeness auto
termination
proof (relation "measure (\<lambda>(y, m, d). nat (1 - d))")
  fix y m d :: int and p y' m'
  assume "d < 1"
  then show "((y', m', d + daysInMonth y' m'), (y, m, d)) \<in> measure (\<lambda>(y, m, d). nat (1 - d))"
    using daysInMonth_pos[of y' m'] by simp
qed simp

function day_carry :: "int \<Rightarrow> int \<Rightarrow> int \<Rightarrow> int \<times> int \<times> int" where
  "day_carry y m d =
     (if m > 0 \<and> d > daysInMonth y m
      then let (y', m') = next_month y m in day_carry y' m' (d - daysInMonth y m)
      else (y, m, d))"
  by pat_completeness auto
termination
proof (relation "measure (\<lambda>(y, m, d). nat d)")
  fix y m d :: int and p y' m'
  assume "m > 0 \<and> d > daysInMonth y m"
  then show "((y', m', d - daysInMonth y m), (y, m, d)) \<in> measure (\<lambda>(y, m, d). nat d)"
    using daysInMonth_pos[of y m] by simp
qed simp

declare min_borrow.simps [simp del] min_carry.simps [simp del] hour_borrow.simps [simp del]
  hour_carry.simps [simp del] day_borrow.simps [simp del] day_carry.simps [simp del]

definition normalizeToUTC :: "xsdDateTime \<Rightarrow> xsdDateTime" where
  "normalizeToUTC dt =
     (if \<not> hasTZ dt \<or> tzMin dt = 0 then dt
      else let (h, mi) = min_borrow (hour dt) (minutes dt - tzMin dt);
               (h, mi) = min_carry h mi;
               (d, h) = hour_borrow (day dt) h;
               (d, h) = hour_carry d h;
               (y, mo, d) = day_borrow (yearVal dt) (month dt) d;
               (y, mo, d) = day_carry y mo d
           in dt\<lparr>year := Some y, month := mo, day := d, hour := h, minutes := mi, tzMin := 0\<rparr>)"

definition normalizeHour24 :: "xsdDateTime \<Rightarrow> xsdDateTime" where
  "normalizeHour24 dt =
     (if hour dt \<noteq> 24 then dt
      else let r = dt\<lparr>hour := 0\<rparr> in
        if day r < 1 \<or> month r < 1 then r
        else let r = r\<lparr>day := day r + 1\<rparr> in
          if day r \<le> daysInMonth (yearVal r) (month r) then r
          else let r = r\<lparr>day := 1, month := month r + 1\<rparr> in
            if month r \<le> 12 then r
            else r\<lparr>month := 1, year := Some (yearVal r + 1)\<rparr>)"

definition compareDateTimeFields :: "xsdDateTime \<Rightarrow> xsdDateTime \<Rightarrow> int" where
  "compareDateTimeFields a b =
     (if cmp (yearVal a) (yearVal b) \<noteq> 0 then cmp (yearVal a) (yearVal b)
      else if month a \<noteq> month b then (if month a < month b then -1 else 1)
      else if day a \<noteq> day b then (if day a < day b then -1 else 1)
      else if hour a \<noteq> hour b then (if hour a < hour b then -1 else 1)
      else if minutes a \<noteq> minutes b then (if minutes a < minutes b then -1 else 1)
      else cmp (secVal a) (secVal b))"

definition compareDateTimeMixedTZ :: "xsdDateTime \<Rightarrow> xsdDateTime \<Rightarrow> int \<times> bool" where
  "compareDateTimeMixedTZ a b =
     (if year a = None \<or> year b = None \<or> month a < 1 \<or> month b < 1 \<or> day a < 1 \<or> day b < 1 then (0, False)
      else let (tz, plain, swapped) = (if \<not> hasTZ a then (b, a, True) else (a, b, False));
               tz = normalizeToUTC tz;
               low = normalizeToUTC (plain\<lparr>hasTZ := True, tzMin := 14 * 60\<rparr>);
               high = normalizeToUTC (plain\<lparr>hasTZ := True, tzMin := -14 * 60\<rparr>);
               cmpLow = compareDateTimeFields low tz;
               cmpHigh = compareDateTimeFields high tz;
               orient = (\<lambda>c. if swapped then c else - c)
           in if cmpLow > 0 \<and> cmpHigh > 0 then (orient 1, True)
              else if cmpLow < 0 \<and> cmpHigh < 0 then (orient (-1), True)
              else (0, False))"

definition compareDateTimeParsed :: "xsdDateTime \<Rightarrow> xsdDateTime \<Rightarrow> int \<times> bool" where
  "compareDateTimeParsed a b =
     (let a = normalizeHour24 a; b = normalizeHour24 b in
      if hasTZ a \<noteq> hasTZ b then compareDateTimeMixedTZ a b
      else let (a, b) = (if hasTZ a then (normalizeToUTC a, normalizeToUTC b) else (a, b))
           in (compareDateTimeFields a b, True))"

subsection \<open>Durations\<close>

record xsdDuration =
  negative :: bool
  months :: "int option"
  seconds :: "rat option"

definition durSecVal :: "xsdDuration \<Rightarrow> rat" where
  "durSecVal d = (case seconds d of None \<Rightarrow> 0 | Some s \<Rightarrow> s)"

definition monVal :: "xsdDuration \<Rightarrow> int" where
  "monVal d = (case months d of None \<Rightarrow> 0 | Some m \<Rightarrow> m)"

definition durationReferenceDates :: "(int \<times> int \<times> int) list" where
  "durationReferenceDates = [(1696, 9, 1), (1697, 2, 1), (1903, 3, 1), (1903, 7, 1)]"

definition signedDurationComponents :: "xsdDuration \<Rightarrow> int \<times> rat" where
  "signedDurationComponents d =
     (if negative d then (- monVal d, - durSecVal d) else (monVal d, durSecVal d))"

definition addMonthsToDate :: "int \<Rightarrow> int \<Rightarrow> int \<Rightarrow> int \<Rightarrow> int \<times> int \<times> int" where
  "addMonthsToDate y m d delta =
     (let totalMonths = y * 12 + (m - 1) + delta;
          newYear = totalMonths div 12;
          newMonth = totalMonths mod 12 + 1;
          maxDay = daysInMonth newYear newMonth
      in (newYear, newMonth, if d > maxDay then maxDay else d))"

definition splitSecondsInDay :: "rat \<Rightarrow> int \<times> rat" where
  "splitSecondsInDay s =
     (let (num, den) = quotient_of s;
          divisor = den * 86400
      in (num div divisor, Fract (num mod divisor) den))"

definition durationPointAtReference :: "int \<times> int \<times> int \<Rightarrow> int \<Rightarrow> rat \<Rightarrow> int \<times> rat" where
  "durationPointAtReference ref ms ss =
     (let (ry, rm, rd) = ref;
          (y, m, d) = addMonthsToDate ry rm rd ms;
          ordinal = daysBeforeDate y m d;
          (dayOffset, secondOfDay) = splitSecondsInDay ss
      in (ordinal + dayOffset, secondOfDay))"

definition compareDurationTimelinePoint :: "int \<times> rat \<Rightarrow> int \<times> rat \<Rightarrow> int" where
  "compareDurationTimelinePoint a b = (if cmp (fst a) (fst b) \<noteq> 0 then cmp (fst a) (fst b) else cmp (snd a) (snd b))"

text \<open>The loop over the reference dates; the first one sets the result, the others must agree.\<close>

fun reference_loop :: "int \<Rightarrow> rat \<Rightarrow> int \<Rightarrow> rat \<Rightarrow> int option \<Rightarrow> (int \<times> int \<times> int) list \<Rightarrow> int \<times> bool" where
  "reference_loop am as bm bs result [] = (case result of None \<Rightarrow> 0 | Some c \<Rightarrow> c, True)"
| "reference_loop am as bm bs result (ref # refs) =
     (let c = compareDurationTimelinePoint (durationPointAtReference ref am as) (durationPointAtReference ref bm bs)
      in case result of
           None \<Rightarrow> reference_loop am as bm bs (Some c) refs
         | Some r \<Rightarrow> if c \<noteq> r then (0, False) else reference_loop am as bm bs (Some r) refs)"

definition compareDurationComponents :: "int \<Rightarrow> rat \<Rightarrow> int \<Rightarrow> rat \<Rightarrow> int \<times> bool" where
  "compareDurationComponents am as bm bs = reference_loop am as bm bs None durationReferenceDates"

subsection \<open>The timeline\<close>

text \<open>Rounding up: the multiples of \<open>n\<close> below the year.\<close>

lemma div_next: "0 < (n::int) \<Longrightarrow> (y + 1 + (n - 1)) div n = (y + (n - 1)) div n + (if n dvd y then 1 else 0)"
proof -
  assume n: "0 < n"
  obtain q r where y: "y = q * n + r" "0 \<le> r" "r < n"
    using n by (metis div_mult_mod_eq pos_mod_bound pos_mod_sign)
  have "(y + 1 + (n - 1)) div n = q + 1"
    using y n by (simp add: div_pos_pos_trivial)
  moreover have "(y + (n - 1)) div n = (if r = 0 then q else q + 1)"
  proof (cases "r = 0")
    case True
    have "(q * n + (n - 1)) div n = q + (n - 1) div n"
      using n by simp
    then show ?thesis
      using True y n by (simp add: div_pos_pos_trivial)
  next
    case False
    have "y + (n - 1) = (q + 1) * n + (r - 1)"
      using y by (simp add: algebra_simps)
    then have "(y + (n - 1)) div n = ((r - 1) + (q + 1) * n) div n"
      by (simp only: add.commute)
    then have "(y + (n - 1)) div n = q + 1 + (r - 1) div n"
      using n by (simp only: div_mult_self1)
    then show ?thesis
      using False y n by (simp add: div_pos_pos_trivial)
  qed
  moreover have "n dvd y \<longleftrightarrow> r = 0"
    using y n by (metis add_diff_cancel_left' dvd_minus_mod dvd_triv_right mod_pos_pos_trivial dvd_imp_mod_0 mod_mult_self3 add_0_right)
  ultimately show ?thesis
    by simp
qed

lemma leap_iff: "isLeapYearBig y \<longleftrightarrow> 4 dvd y \<and> (\<not> 100 dvd y \<or> 400 dvd y)"
proof -
  have "400 dvd y \<Longrightarrow> 4 dvd y" by (rule dvd_trans[of 4 400]) simp_all
  then show ?thesis
    by (auto simp: isLeapYearBig_def dvd_eq_mod_eq_0)
qed

lemma daysBeforeYear_next: "daysBeforeYear (y + 1) = daysBeforeYear y + (if isLeapYearBig y then 366 else 365)"
proof -
  have imp: "400 dvd y \<Longrightarrow> 100 dvd y" "100 dvd y \<Longrightarrow> 4 dvd y"
    by (rule dvd_trans[of 100 400] dvd_trans[of 4 100]; simp)+
  have sum: "a' = a + p \<Longrightarrow> c' = c + q \<Longrightarrow> d' = d + r \<Longrightarrow>
      (y + 1) * 365 + a' - c' + d' = y * 365 + a - c + d + (365 + (p - q + r))" for a a' c c' d d' p q r :: int
    by simp
  define b where "b n = (if n dvd y then 1 else (0::int))" for n
  have "(y + 1 + 3) div 4 = (y + 3) div 4 + b 4"
    using div_next[of 4 y] unfolding b_def by (simp only: zero_less_numeral simp_thms) simp
  moreover have "(y + 1 + 99) div 100 = (y + 99) div 100 + b 100"
    using div_next[of 100 y] unfolding b_def by (simp only: zero_less_numeral simp_thms) simp
  moreover have "(y + 1 + 399) div 400 = (y + 399) div 400 + b 400"
    using div_next[of 400 y] unfolding b_def by (simp only: zero_less_numeral simp_thms) simp
  ultimately have "daysBeforeYear (y + 1) = daysBeforeYear y + (365 + (b 4 - b 100 + b 400))"
    unfolding daysBeforeYear_def floorDivInt_def by (rule sum)
  also have "365 + (b 4 - b 100 + b 400) = (if isLeapYearBig y then 366 else (365::int))"
    unfolding leap_iff b_def using imp by (cases "4 dvd y"; cases "100 dvd y"; cases "400 dvd y") simp_all
  finally show ?thesis .
qed

lemma daysBeforeYear_step: "daysBeforeYear y + 365 \<le> daysBeforeYear (y + 1)"
  by (simp add: daysBeforeYear_next)

lemma daysBeforeYear_mono: "a < b \<Longrightarrow> daysBeforeYear (a + 1) \<le> daysBeforeYear b"
proof (induction b rule: int_gr_induct[where k = a])
  case (step i)
  then show ?case
    using daysBeforeYear_step[of i] by linarith
qed simp_all

lemma month_cases:
  assumes "1 \<le> m" "m \<le> (12::int)"
  shows "m \<in> {1, 2, 3, 4, 5, 6, 7, 8, 9, 10, 11, 12}"
proof -
  have "m \<in> {1..12}" using assms by simp
  moreover have "{1..12::int} = {1, 2, 3, 4, 5, 6, 7, 8, 9, 10, 11, 12}" by (simp add: set_eq_iff) arith
  ultimately show ?thesis by simp
qed

lemma daysBeforeMonth_next:
  assumes "1 \<le> m" "m \<le> 12"
  shows "daysBeforeMonth y m + daysInMonth y m =
    (if m = 12 then (if isLeapYearBig y then 366 else 365) else daysBeforeMonth y (m + 1))"
  using month_cases[OF assms] by (auto simp: daysBeforeMonth_def daysInMonth_def)

lemma daysBeforeMonth_pos:
  assumes "1 \<le> m" "m \<le> 12" shows "0 \<le> daysBeforeMonth y m"
  using month_cases[OF assms] by (auto simp: daysBeforeMonth_def)

lemma daysBeforeMonth_1: "daysBeforeMonth y 1 = 0"
  by (simp add: daysBeforeMonth_def)

lemma daysBeforeMonth_mono:
  assumes "1 \<le> m" "m < k" "k \<le> 12"
  shows "daysBeforeMonth y (m + 1) \<le> daysBeforeMonth y k"
  using assms(2,3)
proof (induction k rule: int_gr_induct[where k = m])
  case (step i)
  then show ?case
    using daysBeforeMonth_next[of i y] daysInMonth_pos[of y i] assms(1) by simp
qed simp_all

text \<open>A calendar date.\<close>

definition date_ok :: "int \<Rightarrow> int \<Rightarrow> int \<Rightarrow> bool" where
  "date_ok y m d \<longleftrightarrow> 1 \<le> m \<and> m \<le> 12 \<and> 1 \<le> d \<and> d \<le> daysInMonth y m"

lemma daysBeforeDate_year:
  assumes "date_ok y m d"
  shows "daysBeforeYear y \<le> daysBeforeDate y m d" "daysBeforeDate y m d < daysBeforeYear (y + 1)"
proof -
  have m: "1 \<le> m" "m \<le> 12" "1 \<le> d" "d \<le> daysInMonth y m"
    using assms by (auto simp: date_ok_def)
  show "daysBeforeYear y \<le> daysBeforeDate y m d"
    using daysBeforeMonth_pos[OF m(1,2), of y] m(3) by (simp add: daysBeforeDate_def)
  have "daysBeforeMonth y m + daysInMonth y m \<le> (if isLeapYearBig y then 366 else 365)"
  proof (cases "m = 12")
    case False
    then show ?thesis
      using daysBeforeMonth_next[OF m(1,2), of y] daysBeforeMonth_mono[of m 12 y] m daysBeforeMonth_next[of 12 y] daysInMonth_pos[of y 12]
      by simp
  qed (use daysBeforeMonth_next[OF m(1,2), of y] in simp)
  then show "daysBeforeDate y m d < daysBeforeYear (y + 1)"
    using m(4) by (auto simp: daysBeforeDate_def daysBeforeYear_next)
qed

lemma daysBeforeDate_less_year: "date_ok y m d \<Longrightarrow> date_ok y' m' d' \<Longrightarrow> y < y' \<Longrightarrow> daysBeforeDate y m d < daysBeforeDate y' m' d'"
  using daysBeforeDate_year(2)[of y m d] daysBeforeDate_year(1)[of y' m' d'] daysBeforeYear_mono[of y y'] by linarith

lemma daysBeforeDate_less_month: "date_ok y m d \<Longrightarrow> date_ok y m' d' \<Longrightarrow> m < m' \<Longrightarrow> daysBeforeDate y m d < daysBeforeDate y m' d'"
  using daysBeforeMonth_mono[of m m' y] daysBeforeMonth_next[of m y]
  by (auto simp: date_ok_def daysBeforeDate_def)

text \<open>Dates are ordered by year, month and day as their day numbers are.\<close>

lemma date_order:
  assumes "date_ok y m d" "date_ok y' m' d'"
  shows "daysBeforeDate y m d < daysBeforeDate y' m' d' \<longleftrightarrow> y < y' \<or> y = y' \<and> (m < m' \<or> m = m' \<and> d < d')"
proof -
  note less = daysBeforeDate_less_year[OF assms] daysBeforeDate_less_year[OF assms(2,1)]
  note less_m = daysBeforeDate_less_month[of y m d m' d'] daysBeforeDate_less_month[of y m' d' m d]
  consider "y < y'" | "y' < y" | "y = y'" "m < m'" | "y = y'" "m' < m" | "y = y'" "m = m'"
    by linarith
  then show ?thesis
    by cases (use assms less less_m in \<open>auto simp: daysBeforeDate_def\<close>)
qed

lemma date_inject:
  assumes "date_ok y m d" "date_ok y' m' d'" "daysBeforeDate y m d = daysBeforeDate y' m' d'"
  shows "y = y' \<and> m = m' \<and> d = d'"
  using date_order[OF assms(1,2)] date_order[OF assms(2,1)] assms(3) by force

lemma next_month_days:
  assumes "1 \<le> m" "m \<le> 12" "next_month y m = (y', m')"
  shows "daysBeforeDate y' m' d = daysBeforeDate y m d + daysInMonth y m" "1 \<le> m'" "m' \<le> 12"
  using assms daysBeforeMonth_next[OF assms(1,2), of y]
  by (auto simp: next_month_def daysBeforeDate_def daysBeforeMonth_1 daysBeforeYear_next split: if_splits)

lemma prev_month_next: "1 \<le> m \<Longrightarrow> m \<le> 12 \<Longrightarrow> prev_month y m = (y', m') \<Longrightarrow> next_month y' m' = (y, m) \<and> 1 \<le> m' \<and> m' \<le> 12"
  by (auto simp: prev_month_def next_month_def split: if_splits)

subsection \<open>Normalisation keeps the instant\<close>

definition instant :: "xsdDateTime \<Rightarrow> rat" where
  "instant dt = of_int (daysBeforeDate (yearVal dt) (month dt) (day dt) * 86400
     + (hour dt * 60 + minutes dt - tzMin dt) * 60) + secVal dt"

definition in_range :: "xsdDateTime \<Rightarrow> bool" where
  "in_range dt \<longleftrightarrow> date_ok (yearVal dt) (month dt) (day dt) \<and> 0 \<le> hour dt \<and> hour dt < 24
     \<and> 0 \<le> minutes dt \<and> minutes dt < 60 \<and> 0 \<le> secVal dt \<and> secVal dt < 60"

lemma min_borrow_spec: "min_borrow h m = (h', m') \<Longrightarrow> h' * 60 + m' = h * 60 + m \<and> 0 \<le> m'"
proof (induction h m rule: min_borrow.induct)
  case (1 h m)
  then show ?case
    by (cases "m < 0") (auto simp: min_borrow.simps[of h m])
qed

lemma min_carry_spec: "min_carry h m = (h', m') \<Longrightarrow> 0 \<le> m \<Longrightarrow> h' * 60 + m' = h * 60 + m \<and> 0 \<le> m' \<and> m' < 60"
proof (induction h m rule: min_carry.induct)
  case (1 h m)
  then show ?case
    by (cases "m \<ge> 60") (auto simp: min_carry.simps[of h m])
qed

lemma hour_borrow_spec: "hour_borrow d h = (d', h') \<Longrightarrow> d' * 24 + h' = d * 24 + h \<and> 0 \<le> h'"
proof (induction d h rule: hour_borrow.induct)
  case (1 d h)
  then show ?case
    by (cases "h < 0") (auto simp: hour_borrow.simps[of d h])
qed

lemma hour_carry_spec: "hour_carry d h = (d', h') \<Longrightarrow> 0 \<le> h \<Longrightarrow> d' * 24 + h' = d * 24 + h \<and> 0 \<le> h' \<and> h' < 24"
proof (induction d h rule: hour_carry.induct)
  case (1 d h)
  then show ?case
    by (cases "h \<ge> 24") (auto simp: hour_carry.simps[of d h])
qed

lemma daysBeforeDate_add: "daysBeforeDate y m (d + k) = daysBeforeDate y m d + k"
  by (simp add: daysBeforeDate_def)

lemma day_borrow_spec:
  "day_borrow y m d = (y', m', d') \<Longrightarrow> 1 \<le> m \<Longrightarrow> m \<le> 12 \<Longrightarrow>
     1 \<le> m' \<and> m' \<le> 12 \<and> 1 \<le> d' \<and> daysBeforeDate y' m' d' = daysBeforeDate y m d"
proof (induction y m d rule: day_borrow.induct)
  case (1 y m d)
  obtain py pm where p: "prev_month y m = (py, pm)"
    by fastforce
  have n: "next_month py pm = (y, m)" "1 \<le> pm" "pm \<le> 12"
    using prev_month_next[OF "1.prems"(2,3) p] by auto
  show ?case
  proof (cases "d < 1")
    case True
    then have "day_borrow py pm (d + daysInMonth py pm) = (y', m', d')"
      using "1.prems"(1) p by (simp add: day_borrow.simps[of y m d])
    then show ?thesis
      using "1.IH"[OF True p[symmetric] refl] n next_month_days(1)[OF n(2,3,1), of d] by (simp add: daysBeforeDate_add)
  qed (use "1.prems" in \<open>auto simp: day_borrow.simps[of y m d]\<close>)
qed

lemma day_carry_spec:
  "day_carry y m d = (y', m', d') \<Longrightarrow> 1 \<le> m \<Longrightarrow> m \<le> 12 \<Longrightarrow> 1 \<le> d \<Longrightarrow>
     date_ok y' m' d' \<and> daysBeforeDate y' m' d' = daysBeforeDate y m d"
proof (induction y m d rule: day_carry.induct)
  case (1 y m d)
  obtain ny nm where p: "next_month y m = (ny, nm)"
    by fastforce
  note n = next_month_days[OF "1.prems"(2,3) p]
  show ?case
  proof (cases "m > 0 \<and> d > daysInMonth y m")
    case True
    then have "day_carry ny nm (d - daysInMonth y m) = (y', m', d')"
      using "1.prems"(1) p by (simp add: day_carry.simps[of y m d])
    then show ?thesis
      using "1.IH"[OF True p[symmetric] refl] n True daysBeforeDate_add[of ny nm "d - daysInMonth y m" "daysInMonth y m"]
      by simp
  qed (use "1.prems" in \<open>auto simp: day_carry.simps[of y m d] date_ok_def\<close>)
qed

lemma normalizeToUTC_same: "\<not> hasTZ dt \<or> tzMin dt = 0 \<Longrightarrow> normalizeToUTC dt = dt"
  by (auto simp: normalizeToUTC_def)

lemma normalizeToUTC_spec:
  assumes "in_range dt" and "hasTZ dt"
  shows "in_range (normalizeToUTC dt)" "instant (normalizeToUTC dt) = instant dt" "tzMin (normalizeToUTC dt) = 0"
proof -
  have "in_range (normalizeToUTC dt) \<and> instant (normalizeToUTC dt) = instant dt \<and> tzMin (normalizeToUTC dt) = 0"
  proof (cases "tzMin dt = 0")
    case True
    then show ?thesis
      using assms by (simp add: normalizeToUTC_same)
  next
    case False
    obtain h1 m1 where 1: "min_borrow (hour dt) (minutes dt - tzMin dt) = (h1, m1)" by fastforce
    obtain h2 m2 where 2: "min_carry h1 m1 = (h2, m2)" by fastforce
    obtain d3 h3 where 3: "hour_borrow (day dt) h2 = (d3, h3)" by fastforce
    obtain d4 h4 where 4: "hour_carry d3 h3 = (d4, h4)" by fastforce
    obtain y5 m5 d5 where 5: "day_borrow (yearVal dt) (month dt) d4 = (y5, m5, d5)" by (metis prod_cases3)
    obtain y6 m6 d6 where 6: "day_carry y5 m5 d5 = (y6, m6, d6)" by (metis prod_cases3)
    note minute = min_borrow_spec[OF 1] min_carry_spec[OF 2]
    note hours = hour_borrow_spec[OF 3] hour_carry_spec[OF 4]
    have "1 \<le> month dt" "month dt \<le> 12"
      using assms by (auto simp: in_range_def date_ok_def)
    then have date: "date_ok y6 m6 d6" "daysBeforeDate y6 m6 d6 = daysBeforeDate (yearVal dt) (month dt) d4"
      using day_borrow_spec[OF 5] day_carry_spec[OF 6] by auto
    have n: "normalizeToUTC dt = dt\<lparr>year := Some y6, month := m6, day := d6, hour := h4, minutes := m2, tzMin := 0\<rparr>"
      using False assms(2) by (simp add: normalizeToUTC_def 1 2 3 4 5 6)
    have "daysBeforeDate (yearVal dt) (month dt) d4 = daysBeforeDate (yearVal dt) (month dt) (day dt) + (d4 - day dt)"
      using daysBeforeDate_add[of _ _ "day dt" "d4 - day dt"] by simp
    then have "daysBeforeDate y6 m6 d6 * 86400 + (h4 * 60 + m2) * 60 =
        daysBeforeDate (yearVal dt) (month dt) (day dt) * 86400 + (hour dt * 60 + minutes dt - tzMin dt) * 60"
      using date(2) minute hours by simp
    then show ?thesis
      using n date(1) minute hours assms by (simp add: in_range_def instant_def yearVal_def secVal_def)
  qed
  then show "in_range (normalizeToUTC dt)" "instant (normalizeToUTC dt) = instant dt" "tzMin (normalizeToUTC dt) = 0"
    by auto
qed

text \<open>A date/time as the lexical rules admit it: a calendar date, a time of day up to 24:00:00, and
  an offset only with a timezone.\<close>

definition lexical_range :: "xsdDateTime \<Rightarrow> bool" where
  "lexical_range dt \<longleftrightarrow> year dt \<noteq> None \<and> date_ok (yearVal dt) (month dt) (day dt) \<and> 0 \<le> hour dt \<and> hour dt \<le> 24
     \<and> 0 \<le> minutes dt \<and> minutes dt < 60 \<and> 0 \<le> secVal dt \<and> secVal dt < 60
     \<and> (hour dt = 24 \<longrightarrow> minutes dt = 0 \<and> secVal dt = 0) \<and> (\<not> hasTZ dt \<longrightarrow> tzMin dt = 0)"

lemma normalizeHour24_spec:
  assumes "lexical_range dt"
  shows "in_range (normalizeHour24 dt) \<and> instant (normalizeHour24 dt) = instant dt \<and> year (normalizeHour24 dt) \<noteq> None
    \<and> hasTZ (normalizeHour24 dt) = hasTZ dt \<and> tzMin (normalizeHour24 dt) = tzMin dt"
proof (cases "hour dt = 24")
  case False
  then show ?thesis
    using assms by (auto simp: normalizeHour24_def lexical_range_def in_range_def)
next
  case True
  let ?y = "yearVal dt" and ?m = "month dt" and ?d = "day dt"
  have ok: "1 \<le> ?m" "?m \<le> 12" "1 \<le> ?d" "?d \<le> daysInMonth ?y ?m"
    using assms by (auto simp: lexical_range_def date_ok_def)
  have sec: "secVal dt = 0" "minutes dt = 0" "year dt \<noteq> None"
    using assms True by (auto simp: lexical_range_def)
  show ?thesis
  proof (cases "?d + 1 \<le> daysInMonth ?y ?m")
    case True
    then have "normalizeHour24 dt = dt\<lparr>hour := 0, day := ?d + 1\<rparr>"
      using \<open>hour dt = 24\<close> ok by (simp add: normalizeHour24_def Let_def yearVal_def)
    then show ?thesis
      using \<open>hour dt = 24\<close> ok True sec
      by (auto simp: in_range_def instant_def date_ok_def yearVal_def secVal_def daysBeforeDate_add)
  next
    case False
    obtain ny nm where p: "next_month ?y ?m = (ny, nm)"
      by fastforce
    note n = next_month_days(1)[OF ok(1,2) p, of 1] next_month_days(2,3)[OF ok(1,2) p]
    have last: "?d = daysInMonth ?y ?m"
      using False ok by simp
    have "yearVal (normalizeHour24 dt) = ny \<and> month (normalizeHour24 dt) = nm \<and> day (normalizeHour24 dt) = 1
        \<and> hour (normalizeHour24 dt) = 0 \<and> minutes (normalizeHour24 dt) = minutes dt \<and> secVal (normalizeHour24 dt) = secVal dt
        \<and> hasTZ (normalizeHour24 dt) = hasTZ dt \<and> tzMin (normalizeHour24 dt) = tzMin dt \<and> year (normalizeHour24 dt) \<noteq> None"
      using \<open>hour dt = 24\<close> ok False p sec
      by (auto simp: normalizeHour24_def Let_def yearVal_def secVal_def next_month_def split: if_splits)
    moreover have "daysBeforeDate ny nm 1 = daysBeforeDate ?y ?m ?d + 1"
      using n last daysBeforeDate_add[of ?y ?m 1 "?d - 1"] by simp
    ultimately show ?thesis
      using \<open>hour dt = 24\<close> sec n daysInMonth_bounds(1)[of ny nm] by (simp add: in_range_def instant_def date_ok_def)
  qed
qed

lemma day_seconds_order:
  assumes "0 \<le> h" "h < 24" "0 \<le> m" "m < 60" "0 \<le> (s::rat)" "s < 60"
    and "0 \<le> h'" "h' < 24" "0 \<le> m'" "m' < 60" "0 \<le> s'" "s' < 60"
  shows "of_int (n * 86400 + (h * 60 + m) * 60) + s < of_int (n' * 86400 + (h' * 60 + m') * 60) + s' \<longleftrightarrow>
     n < n' \<or> n = n' \<and> (h < h' \<or> h = h' \<and> (m < m' \<or> m = m' \<and> s < s'))"
    (is "?l < ?r \<longleftrightarrow> ?lex")
proof -
  have aux: "of_int a + s < of_int b + s' \<longleftrightarrow> a < b \<or> a = b \<and> s < s'" if "60 dvd a" "60 dvd b" for a b :: int
  proof (cases rule: linorder_cases[of a b])
    case less
    then have "a + 60 \<le> b"
      using that by (auto simp: dvd_def)
    then have "of_int a + (60::rat) \<le> of_int b"
      by (metis of_int_add of_int_le_iff of_int_numeral)
    then show ?thesis
      using less assms(5,6,11,12) by auto
  next
    case greater
    then have "b + 60 \<le> a"
      using that by (auto simp: dvd_def)
    then have "of_int b + (60::rat) \<le> of_int a"
      by (metis of_int_add of_int_le_iff of_int_numeral)
    then show ?thesis
      using greater assms(5,6,11,12) by auto
  qed auto
  have "?l < ?r \<longleftrightarrow> n * 86400 + (h * 60 + m) * 60 < n' * 86400 + (h' * 60 + m') * 60
      \<or> n * 86400 + (h * 60 + m) * 60 = n' * 86400 + (h' * 60 + m') * 60 \<and> s < s'"
    by (rule aux) (simp_all add: dvd_add dvd_mult)
  also have "\<dots> \<longleftrightarrow> ?lex"
    using assms(1-4,7-10) by auto
  finally show ?thesis .
qed

lemma compareDateTimeFields_instant:
  assumes "in_range a" "in_range b" "tzMin a = 0" "tzMin b = 0"
  shows "compareDateTimeFields a b = cmp (instant a) (instant b)"
proof -
  have d: "date_ok (yearVal a) (month a) (day a)" "date_ok (yearVal b) (month b) (day b)"
    using assms by (simp_all add: in_range_def)
  have lt: "instant x < instant y \<longleftrightarrow>
      daysBeforeDate (yearVal x) (month x) (day x) < daysBeforeDate (yearVal y) (month y) (day y)
      \<or> daysBeforeDate (yearVal x) (month x) (day x) = daysBeforeDate (yearVal y) (month y) (day y) \<and>
        (hour x < hour y \<or> hour x = hour y \<and> (minutes x < minutes y \<or> minutes x = minutes y \<and> secVal x < secVal y))"
    if "in_range x" "in_range y" "tzMin x = 0" "tzMin y = 0" for x y
    using that unfolding instant_def in_range_def by (simp only: diff_zero) (rule day_seconds_order; simp)
  have eq: "daysBeforeDate (yearVal x) (month x) (day x) = daysBeforeDate (yearVal y) (month y) (day y) \<longleftrightarrow>
      yearVal x = yearVal y \<and> month x = month y \<and> day x = day y"
    if "in_range x" "in_range y" for x y
    using that date_inject by (auto simp: in_range_def)
  note order = lt[OF assms] lt[OF assms(2,1,4,3)] eq[OF assms(1,2)] eq[OF assms(2,1)] date_order[OF d] date_order[OF d(2,1)]
  show ?thesis
    unfolding cmp_def[of "instant a"] order compareDateTimeFields_def by (auto simp: cmp_def)
qed

text \<open>The comparison of admitted date/times follows the timeline; a date/time without a timezone stands
  for the 28 hours in which it may fall.\<close>

lemma compareDateTimeParsed_same:
  assumes "lexical_range a" "lexical_range b" "hasTZ a = hasTZ b"
  shows "compareDateTimeParsed a b = (cmp (instant a) (instant b), True)"
proof -
  let ?a = "normalizeHour24 a" and ?b = "normalizeHour24 b"
  have a: "in_range ?a" "instant ?a = instant a" "hasTZ ?a = hasTZ a" "tzMin ?a = tzMin a"
    and b: "in_range ?b" "instant ?b = instant b" "hasTZ ?b = hasTZ b" "tzMin ?b = tzMin b"
    using normalizeHour24_spec assms by auto
  show ?thesis
  proof (cases "hasTZ a")
    case True
    then show ?thesis
      using a b assms(3) normalizeToUTC_spec[of ?a] normalizeToUTC_spec[of ?b]
      by (simp add: compareDateTimeParsed_def Let_def compareDateTimeFields_instant)
  next
    case False
    then have "tzMin ?a = 0" "tzMin ?b = 0"
      using a b assms by (simp_all add: lexical_range_def)
    then show ?thesis
      using False a b assms(3) by (simp add: compareDateTimeParsed_def Let_def compareDateTimeFields_instant)
  qed
qed

lemma instant_shift: "instant (dt\<lparr>hasTZ := t, tzMin := z\<rparr>) = instant dt + of_int ((tzMin dt - z) * 60)"
  by (simp add: instant_def yearVal_def secVal_def algebra_simps)

lemma compareDateTimeParsed_mixed:
  assumes "lexical_range a" "lexical_range b" "hasTZ a \<noteq> hasTZ b"
  defines "tz \<equiv> if hasTZ a then instant a else instant b"
    and "plain \<equiv> if hasTZ a then instant b else instant a"
    and "orient \<equiv> if hasTZ a then uminus else (\<lambda>c::int. c)"
  shows "compareDateTimeParsed a b =
    (if tz < plain - 14 * 3600 then (orient 1, True)
     else if plain + 14 * 3600 < tz then (orient (-1), True)
     else (0, False))"
proof -
  let ?a = "normalizeHour24 a" and ?b = "normalizeHour24 b"
  have a: "in_range ?a" "instant ?a = instant a" "hasTZ ?a = hasTZ a" "tzMin ?a = tzMin a" "year ?a \<noteq> None"
    and b: "in_range ?b" "instant ?b = instant b" "hasTZ ?b = hasTZ b" "tzMin ?b = tzMin b" "year ?b \<noteq> None"
    using normalizeHour24_spec assms by auto
  have full: "\<not> (month dt < 1 \<or> day dt < 1)" if "in_range dt" for dt
    using that by (auto simp: in_range_def date_ok_def)
  define t where "t = (if hasTZ a then ?a else ?b)"
  define p where "p = (if hasTZ a then ?b else ?a)"
  have t: "in_range t" "hasTZ t" "instant t = tz"
    using a b assms(3) by (auto simp: t_def tz_def)
  have p: "in_range p" "instant p = plain" "tzMin p = 0"
    using a b assms(1-3) by (auto simp: p_def plain_def lexical_range_def)
  have shifted: "in_range (p\<lparr>hasTZ := True, tzMin := z\<rparr>)" for z
    using p(1) by (simp add: in_range_def yearVal_def secVal_def)
  have cmps: "compareDateTimeFields (normalizeToUTC (p\<lparr>hasTZ := True, tzMin := z\<rparr>)) (normalizeToUTC t) =
      cmp (plain - of_int (z * 60)) tz" for z
    using normalizeToUTC_spec[OF shifted[of z]] normalizeToUTC_spec[OF t(1,2)] p t(3)
    by (simp add: compareDateTimeFields_instant instant_shift)
  have "compareDateTimeParsed a b = compareDateTimeMixedTZ ?a ?b"
    using assms(3) a(3) b(3) by (simp add: compareDateTimeParsed_def Let_def)
  also have "\<dots> = (let cmpLow = compareDateTimeFields (normalizeToUTC (p\<lparr>hasTZ := True, tzMin := 14 * 60\<rparr>)) (normalizeToUTC t);
      cmpHigh = compareDateTimeFields (normalizeToUTC (p\<lparr>hasTZ := True, tzMin := -14 * 60\<rparr>)) (normalizeToUTC t)
    in if cmpLow > 0 \<and> cmpHigh > 0 then (orient 1, True) else if cmpLow < 0 \<and> cmpHigh < 0 then (orient (-1), True) else (0, False))"
    using a(1,3,5) b(1,3,5) full[OF a(1)] full[OF b(1)] assms(3)
    by (auto simp: compareDateTimeMixedTZ_def t_def p_def orient_def Let_def)
  finally show ?thesis
    unfolding cmps Let_def by (auto simp: algebra_simps)
qed

subsection \<open>Durations on the timeline\<close>

text \<open>The day number of the first day of a month, months counted from year 0.\<close>

definition month_start :: "int \<Rightarrow> int" where
  "month_start t = daysBeforeDate (t div 12) (t mod 12 + 1) 1"

lemma month_start_next: "month_start (t + 1) = month_start t + daysInMonth (t div 12) (t mod 12 + 1)"
proof -
  have m: "1 \<le> t mod 12 + 1" "t mod 12 + 1 \<le> 12"
    by simp_all
  obtain q r where t: "t = r + q * 12" "0 \<le> r" "r < 12"
    by (metis add.commute div_mult_mod_eq pos_mod_bound pos_mod_sign zero_less_numeral)
  have "next_month q (r + 1) = ((t + 1) div 12, (t + 1) mod 12 + 1)"
  proof (cases "r = 11")
    case True
    then have "t + 1 = (q + 1) * 12"
      using t by simp
    then show ?thesis
      using True by (simp add: next_month_def)
  next
    case False
    then have "t + 1 = (r + 1) + q * 12" "r + 1 < 12"
      using t by simp_all
    then show ?thesis
      using t(2) by (simp only: div_mult_self1 mod_mult_self1) (simp add: next_month_def)
  qed
  then have "next_month (t div 12) (t mod 12 + 1) = ((t + 1) div 12, (t + 1) mod 12 + 1)"
    using t by simp
  from next_month_days(1)[OF m this, of 1] show ?thesis
    by (simp add: month_start_def)
qed

lemma month_start_mono: "a < b \<Longrightarrow> month_start a < month_start b"
proof (induction b rule: int_gr_induct[where k = a])
  case base
  then show ?case
    using month_start_next[of a] daysInMonth_pos by simp
next
  case (step i)
  then show ?case
    using month_start_next[of i] daysInMonth_pos[of "i div 12" "i mod 12 + 1"] by linarith
qed

lemma month_start_cmp: "month_start a < month_start b \<longleftrightarrow> a < b" "month_start a = month_start b \<longleftrightarrow> a = b"
  using month_start_mono[of a b] month_start_mono[of b a] by (cases a b rule: linorder_cases; force)+

lemma splitSecondsInDay_spec:
  assumes "splitSecondsInDay s = (d, t)"
  shows "of_int (d * 86400) + t = s" "0 \<le> t" "t < 86400"
proof -
  obtain n k where q: "quotient_of s = (n, k)" by fastforce
  have k: "0 < k" and s: "s = of_int n / of_int k"
    using quotient_of_denom_pos[OF q] quotient_of_div[OF q] by auto
  have d: "d = n div (k * 86400)" and t: "t = of_int (n mod (k * 86400)) / of_int k"
    using assms q by (auto simp: splitSecondsInDay_def Fract_of_int_quotient Let_def)
  have "of_int n = of_int (d * (k * 86400)) + (of_int (n mod (k * 86400)) :: rat)"
    unfolding d of_int_add[symmetric] by (simp only: div_mult_mod_eq)
  then show "of_int (d * 86400) + t = s"
    using k unfolding s t by (simp add: field_simps)
  show "0 \<le> t"
    using k unfolding t by simp
  have "of_int (n mod (k * 86400)) < (of_int (k * 86400) :: rat)"
    using k by (simp only: of_int_less_iff) simp
  then show "t < 86400"
    using k unfolding t by (simp add: field_simps)
qed

text \<open>A duration added to a reference date.\<close>

definition duration_point :: "int \<times> int \<times> int \<Rightarrow> int \<Rightarrow> rat \<Rightarrow> rat" where
  "duration_point ref ms ss = (case addMonthsToDate (fst ref) (fst (snd ref)) (snd (snd ref)) ms of
     (y, m, d) \<Rightarrow> of_int (daysBeforeDate y m d * 86400) + ss)"

lemma compare_points:
  "compareDurationTimelinePoint (durationPointAtReference ref am as) (durationPointAtReference ref bm bs) =
     cmp (duration_point ref am as) (duration_point ref bm bs)"
proof -
  obtain ry rm rd where ref: "ref = (ry, rm, rd)" by (cases ref)
  obtain ya ma da where a: "addMonthsToDate ry rm rd am = (ya, ma, da)" by (metis prod_cases3)
  obtain yb mb db where b: "addMonthsToDate ry rm rd bm = (yb, mb, db)" by (metis prod_cases3)
  obtain ka ta where as: "splitSecondsInDay as = (ka, ta)" by fastforce
  obtain kb tb where bs: "splitSecondsInDay bs = (kb, tb)" by fastforce
  note sa = splitSecondsInDay_spec[OF as] and sb = splitSecondsInDay_spec[OF bs]
  let ?u = "daysBeforeDate ya ma da + ka" and ?v = "daysBeforeDate yb mb db + kb"
  have pa: "duration_point ref am as = of_int (?u * 86400) + ta" and pb: "duration_point ref bm bs = of_int (?v * 86400) + tb"
    using sa(1) sb(1) by (simp_all add: duration_point_def ref a b algebra_simps)
  have less: "of_int (u * 86400) + x < of_int (v * 86400) + y" if "u < v" "x < 86400" "0 \<le> y" for u v :: int and x y :: rat
  proof -
    have "of_int (u * 86400 + 86400) \<le> (of_int (v * 86400) :: rat)"
      using that(1) by (simp only: of_int_le_iff)
    then show ?thesis
      using that by simp
  qed
  show ?thesis
    unfolding pa pb by (cases ?u ?v rule: linorder_cases)
      (use less[of ?u ?v ta tb] less[of ?v ?u tb ta] sa sb in
        \<open>auto simp: compareDurationTimelinePoint_def durationPointAtReference_def ref a b as bs cmp_def\<close>)
qed

lemma reference_loop_spec:
  "reference_loop am as bm bs (Some r) refs =
     (if \<forall>ref\<in>set refs. cmp (duration_point ref am as) (duration_point ref bm bs) = r then (r, True) else (0, False))"
  by (induction refs) (auto simp: compare_points Let_def)

lemma compareDurationComponents_spec:
  "compareDurationComponents am as bm bs =
     (let c = cmp (duration_point (1696, 9, 1) am as) (duration_point (1696, 9, 1) bm bs)
      in if \<forall>ref\<in>set durationReferenceDates. cmp (duration_point ref am as) (duration_point ref bm bs) = c
         then (c, True) else (0, False))"
  by (simp add: compareDurationComponents_def durationReferenceDates_def compare_points reference_loop_spec Let_def
      del: cmp_simps)

lemma duration_point_first:
  assumes "snd (snd ref) = 1"
  shows "duration_point ref ms ss = of_int (month_start (fst ref * 12 + (fst (snd ref) - 1) + ms) * 86400) + ss"
proof -
  have "\<not> daysInMonth y m < 1" for y m
    using daysInMonth_bounds(1)[of y m] by linarith
  then show ?thesis
    using assms by (simp add: duration_point_def addMonthsToDate_def month_start_def Let_def)
qed

lemma reference_first: "ref \<in> set durationReferenceDates \<Longrightarrow> snd (snd ref) = 1"
  by (auto simp: durationReferenceDates_def)

lemma compare_equal_months: "compareDurationComponents m as m bs = (cmp as bs, True)"
proof -
  have "cmp (duration_point ref m as) (duration_point ref m bs) = cmp as bs" for ref
    by (rule cmp_cong) (auto simp: duration_point_def split: prod.splits)
  then show ?thesis
    by (simp add: compareDurationComponents_spec Let_def del: cmp_simps)
qed

lemma compare_equal_seconds: "compareDurationComponents am s bm s = (cmp am bm, True)"
proof -
  have "cmp (duration_point ref am s) (duration_point ref bm s) = cmp am bm" if "ref \<in> set durationReferenceDates" for ref
    unfolding duration_point_first[OF reference_first[OF that]] by (rule cmp_cong) (simp_all add: month_start_cmp)
  moreover have "(1696, 9, 1) \<in> set durationReferenceDates"
    by (simp add: durationReferenceDates_def)
  ultimately show ?thesis
    by (simp add: compareDurationComponents_spec Let_def del: cmp_simps)
qed

lemma compareDurationComponents_swap:
  "compareDurationComponents bm bs am as = (- fst (compareDurationComponents am as bm bs), snd (compareDurationComponents am as bm bs))"
  unfolding compareDurationComponents_spec Let_def
  by (simp add: cmp_swap[of "duration_point _ am as"] del: cmp_simps)

text \<open>The calendar repeats after 400 years of 146097 days, whatever the reference date.\<close>

lemma month_start_cycle: "month_start (t + 4800) = month_start t + 146097"
proof -
  have shift: "(y + k * n) div n = y div n + k" "(y + k * n) mod n = y mod n" if "0 < n" for y k n :: int
    using that by (simp_all add: add.commute)
  have 1: "(t + 4800) div 12 = t div 12 + 400" "(t + 4800) mod 12 = t mod 12"
    using shift[of 12 t 400] by simp_all
  have "(y + 400) mod 4 = y mod 4" "(y + 400) mod 100 = y mod 100" "(y + 400) mod 400 = y mod 400" for y :: int
    using shift(2)[of 4 y 100] shift(2)[of 100 y 4] shift(2)[of 400 y 1] by simp_all
  then have leap: "isLeapYearBig (y + 400) = isLeapYearBig y" for y
    by (simp only: isLeapYearBig_def)
  have "daysBeforeYear (y + 400) = daysBeforeYear y + 146097" for y
  proof -
    have "(y + 400 + 3) div 4 = (y + 3) div 4 + 100" "(y + 400 + 99) div 100 = (y + 99) div 100 + 4" "(y + 400 + 399) div 400 = (y + 399) div 400 + 1"
      using shift(1)[of 4 "y + 3" 100] shift(1)[of 100 "y + 99" 4] shift(1)[of 400 "y + 399" 1] by (simp_all add: algebra_simps)
    then show ?thesis
      unfolding daysBeforeYear_def floorDivInt_def by (simp only: distrib_right)
  qed
  then show ?thesis
    unfolding month_start_def 1 daysBeforeDate_def daysBeforeMonth_def leap by simp
qed

lemma compare_cycle: "compareDurationComponents (m + 4800) s m (s + 146097 * 86400) = (0, True)"
proof -
  have "duration_point ref (m + 4800) s = duration_point ref m (s + 146097 * 86400)" if "ref \<in> set durationReferenceDates" for ref
    unfolding duration_point_first[OF reference_first[OF that]] add.assoc[symmetric] month_start_cycle by simp
  moreover have "(1696, 9, 1) \<in> set durationReferenceDates"
    by (simp add: durationReferenceDates_def)
  ultimately show ?thesis
    by (simp add: compareDurationComponents_spec Let_def)
qed

end
