(* ===== verification/GoRegexp.thy ===== *)
theory GoRegexp
  imports GoLib
begin

text \<open>
  The anchored regular expressions of Go's package \<open>regexp\<close> that the sources use:
  \<open>MatchString\<close> on \<open>^r$\<close> decides whether the whole string is in the language of \<open>r\<close>.  All
  their character classes are ASCII, so that matching bytes is matching characters.  The matcher
  is executable (derivatives with the trivial simplifications); \<open>matches_iff\<close> relates it to the
  language, and the language lemmas take a matched string apart.
\<close>

subsection \<open>Expressions and their matcher\<close>

datatype rexp =
    Never
  | Eps
  | Cls string \<comment> \<open>one character of the class\<close>
  | Alt rexp rexp
  | Cat rexp rexp
  | Star rexp

definition Opt :: "rexp \<Rightarrow> rexp" where "Opt r = Alt Eps r"
definition Plus :: "rexp \<Rightarrow> rexp" where "Plus r = Cat r (Star r)"

primrec Times :: "nat \<Rightarrow> rexp \<Rightarrow> rexp" where
  "Times 0 r = Eps"
| "Times (Suc n) r = Cat r (Times n r)"

primrec UpTo :: "nat \<Rightarrow> rexp \<Rightarrow> rexp" where
  "UpTo 0 r = Eps"
| "UpTo (Suc n) r = Opt (Cat r (UpTo n r))"

primrec Lit :: "string \<Rightarrow> rexp" where
  "Lit [] = Eps"
| "Lit (c # s) = Cat (Cls [c]) (Lit s)"

primrec Seqs :: "rexp list \<Rightarrow> rexp" where
  "Seqs [] = Eps"
| "Seqs (r # rs) = Cat r (Seqs rs)"

primrec nullable :: "rexp \<Rightarrow> bool" where
  "nullable Never = False"
| "nullable Eps = True"
| "nullable (Cls cs) = False"
| "nullable (Alt r s) = (nullable r \<or> nullable s)"
| "nullable (Cat r s) = (nullable r \<and> nullable s)"
| "nullable (Star r) = True"

definition alt :: "rexp \<Rightarrow> rexp \<Rightarrow> rexp" where
  "alt r s = (if r = Never then s else if s = Never then r else Alt r s)"

definition cat :: "rexp \<Rightarrow> rexp \<Rightarrow> rexp" where
  "cat r s = (if r = Never then Never else if r = Eps then s else Cat r s)"

primrec deriv :: "char \<Rightarrow> rexp \<Rightarrow> rexp" where
  "deriv c Never = Never"
| "deriv c Eps = Never"
| "deriv c (Cls cs) = (if c \<in> set cs then Eps else Never)"
| "deriv c (Alt r s) = alt (deriv c r) (deriv c s)"
| "deriv c (Cat r s) = (if nullable r then alt (cat (deriv c r) s) (deriv c s) else cat (deriv c r) s)"
| "deriv c (Star r) = cat (deriv c r) (Star r)"

primrec matches :: "rexp \<Rightarrow> string \<Rightarrow> bool" where
  "matches r [] = nullable r"
| "matches r (c # s) = matches (deriv c r) s"

subsection \<open>Languages\<close>

inductive_set repeated :: "string set \<Rightarrow> string set" for A where
  none: "[] \<in> repeated A"
| more: "u \<in> A \<Longrightarrow> v \<in> repeated A \<Longrightarrow> u @ v \<in> repeated A"

primrec rlang :: "rexp \<Rightarrow> string set" where
  "rlang Never = {}"
| "rlang Eps = {[]}"
| "rlang (Cls cs) = {[c] | c. c \<in> set cs}"
| "rlang (Alt r s) = rlang r \<union> rlang s"
| "rlang (Cat r s) = {u @ v | u v. u \<in> rlang r \<and> v \<in> rlang s}"
| "rlang (Star r) = repeated (rlang r)"

lemma nullable_iff: "nullable r \<longleftrightarrow> [] \<in> rlang r"
  by (induction r) (auto intro: repeated.none)

lemma rlang_alt [simp]: "rlang (alt r s) = rlang r \<union> rlang s"
  by (simp add: alt_def)

lemma rlang_cat [simp]: "rlang (cat r s) = {u @ v | u v. u \<in> rlang r \<and> v \<in> rlang s}"
  by (simp add: cat_def)

lemma repeated_Cons: "c # w \<in> repeated A \<longleftrightarrow> (\<exists>u v. w = u @ v \<and> c # u \<in> A \<and> v \<in> repeated A)"
proof
  show "\<exists>u v. w = u @ v \<and> c # u \<in> A \<and> v \<in> repeated A" if "c # w \<in> repeated A"
    using that by (induction "c # w" arbitrary: w rule: repeated.induct) (fastforce simp: append_eq_Cons_conv)
  show "c # w \<in> repeated A" if "\<exists>u v. w = u @ v \<and> c # u \<in> A \<and> v \<in> repeated A"
    using that repeated.more[of "c # _" A] by auto
qed

lemma rlang_deriv: "rlang (deriv c r) = {w. c # w \<in> rlang r}"
proof (induction r)
  case (Cat r s)
  then show ?case
    by (auto simp: nullable_iff append_eq_Cons_conv Cons_eq_append_conv)
qed (auto simp: repeated_Cons)

lemma matches_iff: "matches r s \<longleftrightarrow> s \<in> rlang r"
  by (induction s arbitrary: r) (simp_all add: nullable_iff rlang_deriv)

subsection \<open>Taking matched strings apart\<close>

lemma in_Cat: "s \<in> rlang (Cat r q) \<longleftrightarrow> (\<exists>u v. s = u @ v \<and> u \<in> rlang r \<and> v \<in> rlang q)"
  by auto

lemma in_Opt: "s \<in> rlang (Opt r) \<longleftrightarrow> s = [] \<or> s \<in> rlang r"
  by (simp add: Opt_def)

lemma in_Cls: "s \<in> rlang (Cls cs) \<longleftrightarrow> (\<exists>c\<in>set cs. s = [c])"
  by auto

lemma in_Lit [simp]: "rlang (Lit t) = {t}"
  by (induction t) auto

lemma repeated_Cls: "repeated {[c] | c. c \<in> set cs} = {s. set s \<subseteq> set cs}"
proof (intro set_eqI iffI)
  fix s
  show "s \<in> {s. set s \<subseteq> set cs}" if "s \<in> repeated {[c] | c. c \<in> set cs}"
    using that by induction auto
  show "s \<in> repeated {[c] | c. c \<in> set cs}" if "s \<in> {s. set s \<subseteq> set cs}"
    using that by (induction s) (auto simp: repeated_Cons intro: repeated.none)
qed

lemma in_Cat_Cls: "s \<in> rlang (Cat (Cls cs) r) \<longleftrightarrow> (\<exists>c t. s = c # t \<and> c \<in> set cs \<and> t \<in> rlang r)"
proof
  show "\<exists>c t. s = c # t \<and> c \<in> set cs \<and> t \<in> rlang r" if "s \<in> rlang (Cat (Cls cs) r)"
    using that by auto
  show "s \<in> rlang (Cat (Cls cs) r)" if "\<exists>c t. s = c # t \<and> c \<in> set cs \<and> t \<in> rlang r"
    unfolding in_Cat in_Cls using that by (metis append_Cons append_Nil)
qed

lemma in_Star_Cls: "s \<in> rlang (Star (Cls cs)) \<longleftrightarrow> set s \<subseteq> set cs"
  by (simp add: repeated_Cls)

lemma in_Plus_Cls: "s \<in> rlang (Plus (Cls cs)) \<longleftrightarrow> s \<noteq> [] \<and> set s \<subseteq> set cs"
  unfolding Plus_def in_Cat_Cls in_Star_Cls by (cases s) auto

lemma in_Times_Cls: "s \<in> rlang (Times n (Cls cs)) \<longleftrightarrow> length s = n \<and> set s \<subseteq> set cs"
proof (induction n arbitrary: s)
  case (Suc n)
  then show ?case
    unfolding Times.simps in_Cat_Cls by (cases s) auto
qed auto

lemma in_UpTo_Cls: "s \<in> rlang (UpTo n (Cls cs)) \<longleftrightarrow> length s \<le> n \<and> set s \<subseteq> set cs"
proof (induction n arbitrary: s)
  case (Suc n)
  then show ?case
    unfolding UpTo.simps in_Opt in_Cat_Cls by (cases s) auto
qed auto

lemma in_Seqs_Cons: "s \<in> rlang (Seqs (r # rs)) \<longleftrightarrow> (\<exists>u v. s = u @ v \<and> u \<in> rlang r \<and> v \<in> rlang (Seqs rs))"
  by auto

lemmas rlang_parts = in_Cat in_Opt in_Cls in_Lit in_Star_Cls in_Plus_Cls in_Times_Cls in_UpTo_Cls

end
