(* ===== verification/XsdValidate.thy ===== *)
theory XsdValidate
  imports GoNum GoRegexp XmlChar CatalogNames
begin

text \<open>
  \<open>internal/xsd/value/validate.go\<close> and \<open>facets.go\<close>: the lexical spaces of the builtin XSD
  datatypes and the digit counts of the facets.  A validator returns \<^const>\<open>None\<close> for a
  valid value and the message of the error otherwise.  The regular expressions are those of the
  code; \<open>xsdFields\<close> splits at the four XSD blanks, as \<^const>\<open>words\<close> does.
\<close>

subsection \<open>Blanks\<close>

definition xsdWhitespace :: string where
  "xsdWhitespace = [CHR 0x20, CHR 0x09, CHR 0x0D, CHR 0x0A]"

definition trimXSDSpace :: "string \<Rightarrow> string" where
  "trimXSDSpace s = trim s xsdWhitespace"

definition xsdFields :: "string \<Rightarrow> string list" where
  "xsdFields s = words s"

definition containsAny :: "string \<Rightarrow> string \<Rightarrow> bool" where
  "containsAny s chars \<longleftrightarrow> (\<exists>c\<in>set s. c \<in> set chars)"

subsection \<open>Regular expressions\<close>

definition D :: rexp where "D = Cls ''0123456789''"

definition Sign :: rexp where "Sign = Opt (Cls ''+-'')"

definition Numeral :: rexp where
  "Numeral = Alt (Cat (Plus D) (Cat (Opt (Lit ''.'')) (Star D))) (Cat (Lit ''.'') (Plus D))"

definition decimalRegex :: rexp where "decimalRegex = Cat Sign Numeral"

definition integerRegex :: rexp where "integerRegex = Cat Sign (Plus D)"

definition hexBinaryRegex :: rexp where
  "hexBinaryRegex = Star (Times 2 (Cls ''0123456789abcdefABCDEF''))"

definition offsetRegex :: rexp where
  "offsetRegex = Seqs [Cls ''+-'', Times 2 D, Lit '':'', Times 2 D]"

definition tzSuffix :: rexp where
  "tzSuffix = Opt (Alt (Lit ''Z'') offsetRegex)"

definition yearFrag :: rexp where
  "yearFrag = Cat (Opt (Lit ''-'')) (Alt (Times 4 D) (Cat (Cls ''123456789'') (Cat (Times 4 D) (Star D))))"

definition fracFrag :: rexp where "fracFrag = Opt (Cat (Lit ''.'') (Plus D))"

definition dateFrag :: rexp where
  "dateFrag = Seqs [yearFrag, Lit ''-'', Times 2 D, Lit ''-'', Times 2 D]"

definition timeFrag :: rexp where
  "timeFrag = Seqs [Times 2 D, Lit '':'', Times 2 D, Lit '':'', Times 2 D, fracFrag]"

definition dateRegex :: rexp where "dateRegex = Cat dateFrag tzSuffix"

definition timeRegex :: rexp where "timeRegex = Cat timeFrag tzSuffix"

definition dateTimeRegex :: rexp where
  "dateTimeRegex = Cat dateFrag (Cat (Lit ''T'') (Cat timeFrag tzSuffix))"

definition dateTimeStampRegex :: rexp where
  "dateTimeStampRegex = Cat dateFrag (Cat (Lit ''T'') (Cat timeFrag (Alt (Lit ''Z'') offsetRegex)))"

definition Alpha :: string where "Alpha = ''abcdefghijklmnopqrstuvwxyzABCDEFGHIJKLMNOPQRSTUVWXYZ''"

definition languageRegex :: rexp where
  "languageRegex = Cat (Cat (Cls Alpha) (UpTo 7 (Cls Alpha)))
     (Star (Cat (Lit ''-'') (Cat (Cls (Alpha @ ''0123456789'')) (UpTo 7 (Cls (Alpha @ ''0123456789''))))))"

definition exponentFrag :: rexp where
  "exponentFrag = Opt (Seqs [Cls ''eE'', Sign, Plus D])"

definition floatRegex :: rexp where
  "floatRegex = Alt (Cat Sign (Alt (Cat Numeral exponentFrag) (Lit ''INF''))) (Lit ''NaN'')"

definition floatRegex10 :: rexp where
  "floatRegex10 = Alt (Alt (Cat Sign (Cat Numeral exponentFrag)) (Cat (Opt (Lit ''-'')) (Lit ''INF''))) (Lit ''NaN'')"

definition unitFrag :: "char \<Rightarrow> rexp" where
  "unitFrag c = Opt (Cat (Plus D) (Lit [c]))"

definition secondsFrag :: rexp where
  "secondsFrag = Opt (Seqs [Plus D, fracFrag, Lit ''S''])"

definition timeUnits :: rexp where
  "timeUnits = Opt (Seqs [Lit ''T'', unitFrag CHR ''H'', unitFrag CHR ''M'', secondsFrag])"

definition durationRegex :: rexp where
  "durationRegex = Seqs [Opt (Lit ''-''), Lit ''P'', unitFrag CHR ''Y'', unitFrag CHR ''M'', unitFrag CHR ''D'', timeUnits]"

definition dayTimeDurationRegex :: rexp where
  "dayTimeDurationRegex = Seqs [Opt (Lit ''-''), Lit ''P'', unitFrag CHR ''D'', timeUnits]"

definition yearMonthDurationRegex :: rexp where
  "yearMonthDurationRegex = Seqs [Opt (Lit ''-''), Lit ''P'', unitFrag CHR ''Y'', unitFrag CHR ''M'']"

definition gYearRegex :: rexp where "gYearRegex = Cat yearFrag tzSuffix"
definition gYearMonthRegex :: rexp where "gYearMonthRegex = Seqs [yearFrag, Lit ''-'', Times 2 D, tzSuffix]"
definition gMonthRegex :: rexp where "gMonthRegex = Seqs [Lit ''--'', Times 2 D, tzSuffix]"
definition gDayRegex :: rexp where "gDayRegex = Seqs [Lit ''---'', Times 2 D, tzSuffix]"
definition gMonthDayRegex :: rexp where "gMonthDayRegex = Seqs [Lit ''--'', Times 2 D, Lit ''-'', Times 2 D, tzSuffix]"

definition base64Regex :: rexp where
  "base64Regex = Star (Cls (Alpha @ ''0123456789+/= '' @ [CHR 0x09, CHR 0x0D, CHR 0x0A]))"

subsection \<open>Numbers\<close>

datatype Version = Version10 | Version11

definition validateDecimal :: "string \<Rightarrow> string option" where
  "validateDecimal v = (if \<not> matches decimalRegex v then Some ''invalid decimal'' else None)"

definition validateInteger :: "string \<Rightarrow> string option" where
  "validateInteger v = (if \<not> matches integerRegex v then Some ''invalid integer'' else None)"

definition integerRanges :: "(string \<times> int option \<times> int option) list" where
  "integerRanges =
    [(''byte'', Some (-128), Some 127),
     (''short'', Some (-32768), Some 32767),
     (''int'', Some (-2147483648), Some 2147483647),
     (''long'', Some (-9223372036854775808), Some 9223372036854775807),
     (''unsignedByte'', Some 0, Some 255),
     (''unsignedShort'', Some 0, Some 65535),
     (''unsignedInt'', Some 0, Some 4294967295),
     (''unsignedLong'', Some 0, Some 18446744073709551615),
     (''nonNegativeInteger'', Some 0, None),
     (''nonPositiveInteger'', None, Some 0),
     (''positiveInteger'', Some 1, None),
     (''negativeInteger'', None, Some (-1))]"

definition out_of_range :: "string \<Rightarrow> string \<Rightarrow> string" where
  "out_of_range v t = ''value '' @ v @ '' is out of range for '' @ t"

definition validateIntegerWithRange :: "string \<Rightarrow> string \<Rightarrow> string option" where
  "validateIntegerWithRange v t =
     (case validateInteger v of Some e \<Rightarrow> Some e
      | None \<Rightarrow> (case map_of integerRanges t of None \<Rightarrow> None
        | Some (lo, hi) \<Rightarrow> (case int_SetString v of None \<Rightarrow> Some ''invalid integer''
          | Some n \<Rightarrow>
            if (case lo of Some l \<Rightarrow> n < l | None \<Rightarrow> False) then Some (out_of_range v t)
            else if (case hi of Some h \<Rightarrow> n > h | None \<Rightarrow> False) then Some (out_of_range v t)
            else None)))"

definition validateHexBinary :: "string \<Rightarrow> string option" where
  "validateHexBinary v = (if \<not> matches hexBinaryRegex v then Some ''invalid hexBinary'' else None)"

definition validateLanguage :: "string \<Rightarrow> string option" where
  "validateLanguage v = (if \<not> matches languageRegex v then Some ''invalid language'' else None)"

definition validateBoolean :: "string \<Rightarrow> string option" where
  "validateBoolean v = (if v \<in> {''true'', ''false'', ''1'', ''0''} then None else Some ''invalid boolean'')"

definition validateFloat :: "string \<Rightarrow> Version \<Rightarrow> string option" where
  "validateFloat v ver =
     (let re = (if ver = Version10 then floatRegex10 else floatRegex)
      in if \<not> matches re v then Some ''invalid float'' else None)"

subsection \<open>Dates and times\<close>

definition trimPrefix :: "string \<Rightarrow> string \<Rightarrow> string" where
  "trimPrefix s p = (case cut_prefix s p of None \<Rightarrow> s | Some t \<Rightarrow> t)"

definition isZeroFraction :: "string \<Rightarrow> bool" where
  "isZeroFraction fs \<longleftrightarrow> trim fs ''0'' = []"

text \<open>\<^const>\<open>None\<close> stands for no timezone.\<close>

definition splitTimezone :: "string \<Rightarrow> string option" where
  "splitTimezone v =
     (if v = [] then None
      else if last v = CHR ''Z'' then Some (drop (length v - 1) v)
      else if length v \<ge> 6 \<and> (v ! (length v - 6) = CHR ''+'' \<or> v ! (length v - 6) = CHR ''-'') \<and> v ! (length v - 3) = CHR '':''
        then Some (drop (length v - 6) v)
      else None)"

definition validateTimezone :: "string \<Rightarrow> string option" where
  "validateTimezone tz =
     (if tz = ''Z'' then None
      else case str_cut (drop 1 tz) '':'' of None \<Rightarrow> Some ''invalid timezone''
      | Some (hourStr, minStr) \<Rightarrow> (case sscanf_d hourStr of None \<Rightarrow> Some ''invalid timezone''
        | Some h \<Rightarrow> (case sscanf_d minStr of None \<Rightarrow> Some ''invalid timezone''
          | Some mi \<Rightarrow>
            if mi < 0 \<or> mi > 59 then Some (''invalid timezone: minute '' @ show_int mi @ '' out of range'')
            else if h < 0 \<or> h > 14 then Some (''invalid timezone: hour '' @ show_int h @ '' out of range'')
            else if h = 14 \<and> mi \<noteq> 0 then Some ''invalid timezone: offset exceeds 14:00''
            else None)))"

definition yearForbiddenInXSD10 :: "string \<Rightarrow> bool" where
  "yearForbiddenInXSD10 yearStr \<longleftrightarrow> trim yearStr ''0'' = []"

text \<open>Go's remainder takes the sign of the dividend.\<close>

definition go_rem :: "int \<Rightarrow> int \<Rightarrow> int" where
  "go_rem a b = (if a < 0 then - ((- a) mod b) else a mod b)"

definition isLeapYearStr :: "string \<Rightarrow> bool" where
  "isLeapYearStr y =
     (let m = (\<lambda>n. foldl (\<lambda>v r. go_rem (v * 10 + (int r - 48)) n) 0 (runes y))
      in if m 4 \<noteq> 0 then False else if m 100 \<noteq> 0 then True else m 400 = 0)"

definition validateDateComponents :: "string \<Rightarrow> Version \<Rightarrow> string option" where
  "validateDateComponents value ver =
     (let s = (if length value > 0 \<and> hd value = CHR ''-'' then tl value else value)
      in case str_cut s ''-'' of None \<Rightarrow> Some ''invalid date''
      | Some (yearStr, rest) \<Rightarrow>
        if ver = Version10 \<and> yearForbiddenInXSD10 yearStr
        then Some ''invalid date: year 0000 is not valid in XSD 1.0''
        else case str_cut rest ''-'' of None \<Rightarrow> Some ''invalid date''
        | Some (monthStr, dayStr) \<Rightarrow>
          if length dayStr < 2 then Some ''invalid date''
          else (case sscanf_d monthStr of None \<Rightarrow> Some ''invalid date''
            | Some mo \<Rightarrow> (case sscanf_d (take 2 dayStr) of None \<Rightarrow> Some ''invalid date''
              | Some d \<Rightarrow>
                if mo < 1 \<or> mo > 12 then Some (''invalid date: month '' @ show_int mo @ '' out of range'')
                else let maxDays = [0, 31, 28, 31, 30, 31, 30, 31, 31, 30, 31, 30, 31];
                         maxDays = (if mo = 2 \<and> isLeapYearStr yearStr then maxDays[2 := 29] else maxDays)
                     in if d < 1 \<or> d > maxDays ! nat mo
                        then Some (''invalid date: day '' @ show_int d @ '' out of range for month '' @ show_int mo)
                        else None)))"

definition validateTimeComponents :: "string \<Rightarrow> string option" where
  "validateTimeComponents value =
     (let tz = splitTimezone value;
          timeOnly = (case tz of None \<Rightarrow> value | Some z \<Rightarrow> take (length value - length z) value)
      in case (case tz of None \<Rightarrow> None | Some z \<Rightarrow> validateTimezone z) of Some e \<Rightarrow> Some e
      | None \<Rightarrow> (case str_cut timeOnly '':'' of None \<Rightarrow> Some ''invalid time''
        | Some (hourStr, rest) \<Rightarrow> (case str_cut rest '':'' of None \<Rightarrow> Some ''invalid time''
          | Some (minStr, secStr) \<Rightarrow> (case sscanf_d hourStr of None \<Rightarrow> Some ''invalid time''
            | Some h \<Rightarrow> (case sscanf_d minStr of None \<Rightarrow> Some ''invalid time''
              | Some mi \<Rightarrow>
                let (intSecStr, fracStr) = (case str_cut secStr ''.'' of None \<Rightarrow> (secStr, []) | Some p \<Rightarrow> p)
                in case sscanf_d intSecStr of None \<Rightarrow> Some ''invalid time''
                | Some se \<Rightarrow>
                  if mi < 0 \<or> mi > 59 then Some (''invalid time: minute '' @ show_int mi @ '' out of range'')
                  else if se < 0 \<or> se > 59 then Some (''invalid time: second '' @ show_int se @ '' out of range'')
                  else if h < 0 \<or> h > 24 then Some (''invalid time: hour '' @ show_int h @ '' out of range'')
                  else if h = 24 \<and> (mi \<noteq> 0 \<or> se \<noteq> 0 \<or> \<not> isZeroFraction fracStr)
                  then Some ''invalid time: 24:00:00 is the only allowed value with hour 24''
                  else None)))))"

definition validateDate :: "string \<Rightarrow> Version \<Rightarrow> string option" where
  "validateDate v ver =
     (if \<not> matches dateRegex v then Some ''invalid date''
      else case (case splitTimezone v of None \<Rightarrow> None | Some tz \<Rightarrow> validateTimezone tz) of
        Some e \<Rightarrow> Some e
      | None \<Rightarrow> validateDateComponents v ver)"

definition validateTime :: "string \<Rightarrow> string option" where
  "validateTime v = (if \<not> matches timeRegex v then Some ''invalid time'' else validateTimeComponents v)"

definition validateDateTime :: "string \<Rightarrow> Version \<Rightarrow> string option" where
  "validateDateTime v ver =
     (if \<not> matches dateTimeRegex v then Some ''invalid dateTime''
      else case validateDateComponents v ver of Some e \<Rightarrow> Some e
      | None \<Rightarrow> (case str_cut v ''T'' of None \<Rightarrow> Some ''invalid dateTime''
        | Some (_, timePart) \<Rightarrow> validateTimeComponents timePart))"

definition validateDateTimeStamp :: "string \<Rightarrow> Version \<Rightarrow> string option" where
  "validateDateTimeStamp v ver =
     (if \<not> matches dateTimeStampRegex v then Some ''invalid dateTimeStamp'' else validateDateTime v ver)"

definition validateDuration :: "string \<Rightarrow> string option" where
  "validateDuration v =
     (if \<not> matches durationRegex v then Some ''invalid duration''
      else let s = (if length v > 0 \<and> hd v = CHR ''-'' then tl v else v);
               s = tl s
           in if s = [] \<or> s = ''T'' then Some ''invalid duration''
              else case str_cut s ''T'' of
                Some (_, after) \<Rightarrow> if \<not> containsAny after ''HMS'' then Some ''invalid duration'' else None
              | None \<Rightarrow> None)"

definition validateDayTimeDuration :: "string \<Rightarrow> string option" where
  "validateDayTimeDuration v =
     (if \<not> matches dayTimeDurationRegex v then Some ''invalid dayTimeDuration'' else validateDuration v)"

definition validateYearMonthDuration :: "string \<Rightarrow> string option" where
  "validateYearMonthDuration v =
     (if \<not> matches yearMonthDurationRegex v then Some ''invalid yearMonthDuration''
      else if v = ''P'' \<or> v = ''-P'' then Some ''invalid yearMonthDuration''
      else validateDuration v)"

definition stripAndCheckTimezone :: "string \<Rightarrow> string + string" where
  "stripAndCheckTimezone v =
     (case splitTimezone v of None \<Rightarrow> Inr v
      | Some tz \<Rightarrow> (case validateTimezone tz of Some e \<Rightarrow> Inl e
        | None \<Rightarrow> Inr (take (length v - length tz) v)))"

definition gMonthRange :: "string \<Rightarrow> string \<Rightarrow> string option" where
  "gMonthRange s typeName =
     (case sscanf_d s of None \<Rightarrow> Some (''invalid '' @ typeName)
      | Some mo \<Rightarrow> if mo < 1 \<or> mo > 12 then Some (''invalid '' @ typeName @ '': month '' @ show_int mo @ '' out of range'') else None)"

definition gDayRange :: "string \<Rightarrow> string \<Rightarrow> string option" where
  "gDayRange s typeName =
     (case sscanf_d s of None \<Rightarrow> Some (''invalid '' @ typeName)
      | Some d \<Rightarrow> if d < 1 \<or> d > 31 then Some (''invalid '' @ typeName @ '': day '' @ show_int d @ '' out of range'') else None)"

text \<open>The slice of a string between two indices.\<close>

definition slice :: "nat \<Rightarrow> nat \<Rightarrow> string \<Rightarrow> string" where
  "slice i j s = take (j - i) (drop i s)"

definition validateGYear :: "string \<Rightarrow> Version \<Rightarrow> string option" where
  "validateGYear v ver =
     (if \<not> matches gYearRegex v then Some ''invalid gYear''
      else case stripAndCheckTimezone v of Inl e \<Rightarrow> Some e
      | Inr body \<Rightarrow> if ver = Version10 \<and> yearForbiddenInXSD10 (trimPrefix body ''-'')
          then Some ''invalid gYear: year 0000 is not valid in XSD 1.0'' else None)"

definition validateGYearMonth :: "string \<Rightarrow> Version \<Rightarrow> string option" where
  "validateGYearMonth v ver =
     (if \<not> matches gYearMonthRegex v then Some ''invalid gYearMonth''
      else case stripAndCheckTimezone v of Inl e \<Rightarrow> Some e
      | Inr body \<Rightarrow>
          let yearStr = (case str_cut (trimPrefix body ''-'') ''-'' of None \<Rightarrow> trimPrefix body ''-'' | Some (y, _) \<Rightarrow> y)
          in if ver = Version10 \<and> yearForbiddenInXSD10 yearStr
             then Some ''invalid gYearMonth: year 0000 is not valid in XSD 1.0''
             else gMonthRange (drop (length body - 2) body) ''gYearMonth'')"

definition validateGMonth :: "string \<Rightarrow> string option" where
  "validateGMonth v =
     (if \<not> matches gMonthRegex v then Some ''invalid gMonth''
      else case stripAndCheckTimezone v of Inl e \<Rightarrow> Some e
      | Inr body \<Rightarrow> gMonthRange (slice 2 4 body) ''gMonth'')"

definition validateGDay :: "string \<Rightarrow> string option" where
  "validateGDay v =
     (if \<not> matches gDayRegex v then Some ''invalid gDay''
      else case stripAndCheckTimezone v of Inl e \<Rightarrow> Some e
      | Inr body \<Rightarrow> gDayRange (slice 3 5 body) ''gDay'')"

definition validateGMonthDay :: "string \<Rightarrow> string option" where
  "validateGMonthDay v =
     (if \<not> matches gMonthDayRegex v then Some ''invalid gMonthDay''
      else case stripAndCheckTimezone v of Inl e \<Rightarrow> Some e
      | Inr body \<Rightarrow> (case gMonthRange (slice 2 4 body) ''gMonthDay'' of Some e \<Rightarrow> Some e
        | None \<Rightarrow> (case gDayRange (slice 5 7 body) ''gMonthDay'' of Some e \<Rightarrow> Some e
          | None \<Rightarrow> (case sscanf_d (slice 2 4 body) of None \<Rightarrow> Some ''invalid gMonthDay''
            | Some mo \<Rightarrow> (case sscanf_d (slice 5 7 body) of None \<Rightarrow> Some ''invalid gMonthDay''
              | Some d \<Rightarrow>
                let maxDays = [0, 31, 29, 31, 30, 31, 30, 31, 31, 30, 31, 30, 31]
                in if d > maxDays ! nat mo
                   then Some (''invalid gMonthDay: day '' @ show_int d @ '' out of range for month '' @ show_int mo)
                   else None)))))"

subsection \<open>Names, strings and lists\<close>

definition validateNCName :: "string \<Rightarrow> string option" where
  "validateNCName v = (if \<not> IsValidNCName v then Some ''invalid NCName'' else None)"

definition validateName :: "string \<Rightarrow> string option" where
  "validateName v = (if \<not> IsValidName v then Some ''invalid Name'' else None)"

definition isNMTOKEN :: "string \<Rightarrow> bool" where
  "isNMTOKEN v =
     (if v = [] then False else if \<not> valid_utf8 v then False
      else list_all (\<lambda>r. r = 58 \<or> IsNCNameChar r) (runes v))"

definition validateNMTOKEN :: "string \<Rightarrow> string option" where
  "validateNMTOKEN v = (if \<not> isNMTOKEN v then Some ''invalid NMTOKEN'' else None)"

definition validateNormalizedString :: "string \<Rightarrow> string option" where
  "validateNormalizedString v =
     (if containsAny v [CHR 0x09, CHR 0x0A, CHR 0x0D] then Some ''invalid normalizedString'' else None)"

definition validateToken :: "string \<Rightarrow> string option" where
  "validateToken v =
     (if containsAny v [CHR 0x09, CHR 0x0A, CHR 0x0D] then Some ''invalid token''
      else if v \<noteq> trimXSDSpace v then Some ''invalid token''
      else if contains v ''  '' then Some ''invalid token''
      else None)"

definition isHexDigit :: "char \<Rightarrow> bool" where
  "isHexDigit c \<longleftrightarrow> (48 \<le> byte c \<and> byte c \<le> 57) \<or> (65 \<le> byte c \<and> byte c \<le> 70) \<or> (97 \<le> byte c \<and> byte c \<le> 102)"

fun anyURI_loop :: "string \<Rightarrow> bool" where
  "anyURI_loop [] = True"
| "anyURI_loop (c # s) =
     (if byte c \<ge> 0x80 then anyURI_loop s
      else if byte c < 0x20 \<or> byte c = 0x7F \<or> c \<in> {CHR 0x5C, CHR 0x5E, CHR 0x60} then False
      else if c = CHR 0x25 then
        (case s of a # b # r \<Rightarrow> if \<not> isHexDigit a \<or> \<not> isHexDigit b then False else anyURI_loop r
         | _ \<Rightarrow> False)
      else anyURI_loop s)"

definition validateAnyURI :: "string \<Rightarrow> Version \<Rightarrow> string option" where
  "validateAnyURI v ver =
     (if ver = Version11 then None
      else if v = [] then None
      else if has_prefix v '':'' \<or> has_suffix v '':'' then Some ''invalid anyURI''
      else if anyURI_loop v then None else Some ''invalid anyURI'')"

definition validateQName :: "string \<Rightarrow> string option" where
  "validateQName v =
     (case split_n CHR '':'' 2 v of
        [p, q] \<Rightarrow> if validateNCName p \<noteq> None then Some ''invalid QName''
                 else if validateNCName q \<noteq> None then Some ''invalid QName'' else None
      | _ \<Rightarrow> validateNCName v)"

text \<open>The regular expression leaves only ASCII bytes, so that dropping blank runes is dropping blank
  bytes.\<close>

definition validateBase64Binary :: "string \<Rightarrow> string option" where
  "validateBase64Binary v =
     (if \<not> matches base64Regex v then Some ''invalid base64Binary''
      else case base64_decode (filter (\<lambda>c. c \<notin> set xsdWhitespace) v) of
        None \<Rightarrow> Some ''invalid base64Binary'' | Some _ \<Rightarrow> None)"

fun first_error :: "(string \<Rightarrow> string option) \<Rightarrow> string list \<Rightarrow> string option" where
  "first_error f [] = None"
| "first_error f (x # xs) = (case f x of Some e \<Rightarrow> Some e | None \<Rightarrow> first_error f xs)"

definition validateSpaceSeparatedList :: "string \<Rightarrow> (string \<Rightarrow> string option) \<Rightarrow> string option" where
  "validateSpaceSeparatedList v validateItem =
     (if v = [] then Some ''empty list''
      else if xsdFields v = [] then Some ''empty list''
      else first_error validateItem (xsdFields v))"

subsection \<open>The dispatch on the builtin types\<close>

definition ValidateBuiltin :: "string \<Rightarrow> string \<Rightarrow> Version \<Rightarrow> string option" where
  "ValidateBuiltin v t ver =
     (if t = ''decimal'' then validateDecimal v
      else if t = ''integer'' then validateInteger v
      else if t \<in> {''nonPositiveInteger'', ''negativeInteger'', ''long'', ''int'', ''short'', ''byte'',
          ''nonNegativeInteger'', ''unsignedLong'', ''unsignedInt'', ''unsignedShort'', ''unsignedByte'', ''positiveInteger''}
        then validateIntegerWithRange v t
      else if t = ''hexBinary'' then validateHexBinary v
      else if t = ''date'' then validateDate v ver
      else if t = ''boolean'' then validateBoolean v
      else if t = ''language'' then validateLanguage v
      else if t \<in> {''float'', ''double''} then validateFloat v ver
      else if t = ''dateTime'' then validateDateTime v ver
      else if t = ''dateTimeStamp'' then validateDateTimeStamp v ver
      else if t = ''time'' then validateTime v
      else if t = ''duration'' then validateDuration v
      else if t = ''dayTimeDuration'' then validateDayTimeDuration v
      else if t = ''yearMonthDuration'' then validateYearMonthDuration v
      else if t = ''anyAtomicType'' then None
      else if t = ''error'' then Some ''xs:error has an empty value space''
      else if t = ''gYear'' then validateGYear v ver
      else if t = ''gYearMonth'' then validateGYearMonth v ver
      else if t = ''gMonth'' then validateGMonth v
      else if t = ''gDay'' then validateGDay v
      else if t = ''gMonthDay'' then validateGMonthDay v
      else if t \<in> {''NCName'', ''ID'', ''IDREF'', ''ENTITY''} then validateNCName v
      else if t = ''Name'' then validateName v
      else if t = ''NMTOKEN'' then validateNMTOKEN v
      else if t \<in> {''QName'', ''NOTATION''} then validateQName v
      else if t = ''base64Binary'' then validateBase64Binary v
      else if t = ''normalizedString'' then validateNormalizedString v
      else if t = ''token'' then validateToken v
      else if t \<in> {''IDREFS'', ''ENTITIES''} then validateSpaceSeparatedList v validateNCName
      else if t = ''NMTOKENS'' then validateSpaceSeparatedList v validateNMTOKEN
      else if t = ''anyURI'' then validateAnyURI v ver
      else None)"

subsection \<open>Facets\<close>

definition numericComparableTypes :: "string list" where
  "numericComparableTypes =
    [''decimal'', ''integer'', ''nonPositiveInteger'', ''negativeInteger'', ''long'', ''int'', ''short'', ''byte'',
     ''nonNegativeInteger'', ''unsignedLong'', ''unsignedInt'', ''unsignedShort'', ''unsignedByte'', ''positiveInteger'']"

definition orderedRangeFacetTypes :: "string list" where
  "orderedRangeFacetTypes = numericComparableTypes @
    [''float'', ''double'', ''dateTime'', ''dateTimeStamp'', ''date'', ''time'', ''duration'', ''dayTimeDuration'',
     ''yearMonthDuration'', ''gYear'', ''gYearMonth'', ''gMonth'', ''gDay'', ''gMonthDay'']"

definition Orderable :: "string \<Rightarrow> bool" where
  "Orderable t \<longleftrightarrow> t \<in> set orderedRangeFacetTypes"

definition lengthApplicableTypes :: "string list" where
  "lengthApplicableTypes =
    [''string'', ''normalizedString'', ''token'', ''language'', ''Name'', ''NCName'', ''ID'', ''IDREF'', ''IDREFS'',
     ''ENTITY'', ''ENTITIES'', ''NMTOKEN'', ''NMTOKENS'', ''anyURI'', ''QName'', ''NOTATION'', ''hexBinary'', ''base64Binary'']"

definition LengthApplicable :: "string \<Rightarrow> bool" where
  "LengthApplicable t \<longleftrightarrow> t \<in> set lengthApplicableTypes"

definition IsDecimalFamily :: "string \<Rightarrow> bool" where
  "IsDecimalFamily t \<longleftrightarrow> t \<in> set numericComparableTypes"

definition IsIntegerFamily :: "string \<Rightarrow> bool" where
  "IsIntegerFamily t \<longleftrightarrow> IsDecimalFamily t \<and> t \<noteq> ''decimal''"

definition strip_sign :: "string \<Rightarrow> string" where
  "strip_sign v = (if length v > 0 \<and> (hd v = CHR ''+'' \<or> hd v = CHR ''-'') then tl v else v)"

definition CountTotalDigits :: "string \<Rightarrow> nat" where
  "CountTotalDigits value =
     (let s = strip_sign value in
      case index_of s ''.'' of
        None \<Rightarrow> let s = trim_left s ''0'' in if s = [] then 1 else length s
      | Some dotIdx \<Rightarrow>
          let intPart = trim_left (take dotIdx s) ''0'';
              fracPart = trim_right (drop (dotIdx + 1) s) ''0'';
              n = length intPart + length fracPart
          in if n = 0 then 1 else n)"

definition CountFractionDigits :: "string \<Rightarrow> nat" where
  "CountFractionDigits value =
     (case str_cut (strip_sign value) ''.'' of
        None \<Rightarrow> 0
      | Some (_, fs) \<Rightarrow> length (trim_right fs ''0''))"

end
