(* ===== verification/XsdCompare.thy ===== *)
theory XsdCompare
  imports XsdTime XsdValidate "HOL-Library.Log_Nat"
begin

text \<open>
  \<open>internal/xsd/value/compare.go\<close>: the parsers of the date/time types, durations and floats,
  \<open>Compare\<close> and \<open>CanonicalKey\<close> over all builtin types, and the whitespace functions.  A
  failed parse is \<^const>\<open>None\<close>; a comparison returns its sign and whether it is defined.  A
  \<open>float64\<close> is NaN, an infinity or a rational (the two zeros, which the code never tells apart, are
  one).  \<open>ParseFloat\<close> and the conversion to \<open>float32\<close> round to nearest, ties to even, as
  IEEE 754 and Go do; \<open>strconv.FormatFloat (f, 'g', -1, bitSize)\<close> is the argument \<open>fmt\<close>.
\<close>

subsection \<open>Whitespace\<close>

definition whitespaceReplace :: "string \<Rightarrow> string" where
  "whitespaceReplace s = str_map (\<lambda>r. Some (if r = 9 \<or> r = 10 \<or> r = 13 then 32 else r)) s"

fun collapse_loop :: "string \<Rightarrow> bool \<Rightarrow> string \<Rightarrow> string" where
  "collapse_loop b inSpace [] = b"
| "collapse_loop b inSpace (c # s) =
     (if c = CHR 0x20 then collapse_loop b True s
      else collapse_loop ((if inSpace \<and> length b > 0 then b @ [CHR 0x20] else b) @ [c]) False s)"

definition whitespaceCollapse :: "string \<Rightarrow> string" where
  "whitespaceCollapse s = collapse_loop [] True (whitespaceReplace s)"

definition WhiteSpace :: "string \<Rightarrow> string" where
  "WhiteSpace t = (if t = ''string'' then ''preserve'' else if t = ''normalizedString'' then ''replace'' else ''collapse'')"

definition Normalize :: "string \<Rightarrow> string \<Rightarrow> string" where
  "Normalize s t =
     (if WhiteSpace t = ''preserve'' then s
      else if WhiteSpace t = ''replace'' then whitespaceReplace s
      else whitespaceCollapse s)"

subsection \<open>Decimals, booleans and binary data\<close>

definition validBuiltinOperands :: "string \<Rightarrow> string \<Rightarrow> string \<Rightarrow> bool" where
  "validBuiltinOperands a b t \<longleftrightarrow>
     ValidateBuiltin (trimXSDSpace a) t Version11 = None \<and> ValidateBuiltin (trimXSDSpace b) t Version11 = None"

definition validDateTimeOperands :: "string \<Rightarrow> string \<Rightarrow> string \<Rightarrow> bool" where
  "validDateTimeOperands a b t \<longleftrightarrow> ValidateBuiltin a t Version11 = None \<and> ValidateBuiltin b t Version11 = None"

definition CompareDecimal :: "string \<Rightarrow> string \<Rightarrow> int" where
  "CompareDecimal a b =
     (case (rat_SetString a, rat_SetString b) of
        (Some x, Some y) \<Rightarrow> cmp x y
      | _ \<Rightarrow> -2)"

definition parseXSDBoolean :: "string \<Rightarrow> bool option" where
  "parseXSDBoolean s =
     (if s \<in> {''true'', ''1''} then Some True else if s \<in> {''false'', ''0''} then Some False else None)"

definition compareBoolean :: "string \<Rightarrow> string \<Rightarrow> int \<times> bool" where
  "compareBoolean a b =
     (if \<not> validBuiltinOperands a b ''boolean'' then (0, False)
      else case (parseXSDBoolean (trimXSDSpace a), parseXSDBoolean (trimXSDSpace b)) of
        (Some x, Some y) \<Rightarrow> if x = y then (0, True) else if \<not> x then (-1, True) else (1, True)
      | _ \<Rightarrow> (0, False))"

definition compareHexBinary :: "string \<Rightarrow> string \<Rightarrow> int \<times> bool" where
  "compareHexBinary a b =
     (if \<not> validBuiltinOperands a b ''hexBinary'' then (0, False)
      else case (hex_decode (trimXSDSpace a), hex_decode (trimXSDSpace b)) of
        (Some x, Some y) \<Rightarrow> (bytes_compare x y, True)
      | _ \<Rightarrow> (0, False))"

definition decodeBase64Binary :: "string \<Rightarrow> string option" where
  "decodeBase64Binary s =
     base64_decode (str_map (\<lambda>r. if r = 32 \<or> r = 10 \<or> r = 13 \<or> r = 9 then None else Some r) s)"

definition compareBase64Binary :: "string \<Rightarrow> string \<Rightarrow> int \<times> bool" where
  "compareBase64Binary a b =
     (if \<not> validBuiltinOperands a b ''base64Binary'' then (0, False)
      else case (decodeBase64Binary (trimXSDSpace a), decodeBase64Binary (trimXSDSpace b)) of
        (Some x, Some y) \<Rightarrow> (bytes_compare x y, True)
      | _ \<Rightarrow> (0, False))"

subsection \<open>Floating point numbers\<close>

datatype float = NaN | Inf bool | Fin rat

definition round_half_even :: "rat \<Rightarrow> int" where
  "round_half_even x =
     (let n = floor x; f = x - of_int n in
      if f < 1 / 2 then n else if f > 1 / 2 then n + 1 else if even n then n else n + 1)"

text \<open>The exponent of the leading bit of a positive rational.\<close>

definition ilog2 :: "rat \<Rightarrow> int" where
  "ilog2 r =
     (let (n, d) = quotient_of r;
          e = int (floorlog 2 (nat n)) - int (floorlog 2 (nat d))
      in if 2 powi e \<le> r then e else e - 1)"

text \<open>A format with \<open>p\<close> significant bits, least exponent \<open>q\<close>, and overflow at \<open>2 ^ m\<close>.\<close>

definition round_magnitude :: "int \<Rightarrow> int \<Rightarrow> rat \<Rightarrow> rat" where
  "round_magnitude p q a =
     (let e = max q (ilog2 a - (p - 1)) in of_int (round_half_even (a / 2 powi e)) * 2 powi e)"

definition round_float :: "int \<Rightarrow> int \<Rightarrow> nat \<Rightarrow> rat \<Rightarrow> float" where
  "round_float p q m r =
     (if r = 0 then Fin 0
      else let v = round_magnitude p q \<bar>r\<bar> in
        if v \<ge> 2 ^ m then Inf (r < 0) else Fin (if r < 0 then - v else v))"

definition to_double :: "rat \<Rightarrow> float" where
  "to_double r = round_float 53 (-1074) 1024 r"

text \<open>\<open>float64 (float32 (f))\<close>\<close>

fun to_single :: "float \<Rightarrow> float" where
  "to_single (Fin r) = round_float 24 (-149) 128 r"
| "to_single f = f"

text \<open>The exact value of a numeral with an optional exponent.\<close>

definition numeral_value :: "string \<Rightarrow> rat option" where
  "numeral_value s =
     (let i = length (takeWhile (\<lambda>c. c \<noteq> CHR ''e'' \<and> c \<noteq> CHR ''E'') s) in
      case rat_SetString (take i s) of None \<Rightarrow> None
      | Some x \<Rightarrow> if i = length s then Some x
          else (case int_SetString (drop (i + 1) s) of None \<Rightarrow> None
            | Some e \<Rightarrow> Some (x * 10 powi e)))"

definition ParseFloat :: "string \<Rightarrow> float option" where
  "ParseFloat s = map_option to_double (numeral_value s)"

definition parseXSDFloat :: "string \<Rightarrow> float option" where
  "parseXSDFloat s =
     (if s = ''INF'' \<or> s = ''+INF'' then Some (Inf False)
      else if s = ''-INF'' then Some (Inf True)
      else if s = ''NaN'' then Some NaN
      else ParseFloat s)"

definition IsFloatNaN :: "string \<Rightarrow> bool" where
  "IsFloatNaN s \<longleftrightarrow> parseXSDFloat s = Some NaN"

fun float_less :: "float \<Rightarrow> float \<Rightarrow> bool" where
  "float_less NaN b = False"
| "float_less a NaN = False"
| "float_less (Inf n) (Inf k) = (n \<and> \<not> k)"
| "float_less (Inf n) (Fin r) = n"
| "float_less (Fin r) (Inf n) = (\<not> n)"
| "float_less (Fin r) (Fin q) = (r < q)"

definition compareFloat :: "string \<Rightarrow> string \<Rightarrow> bool \<Rightarrow> int \<times> bool" where
  "compareFloat a b single =
     (let floatType = (if single then ''float'' else ''double'') in
      if \<not> validBuiltinOperands a b floatType then (0, False)
      else case (parseXSDFloat (trimXSDSpace a), parseXSDFloat (trimXSDSpace b)) of
        (Some fa, Some fb) \<Rightarrow>
          if fa = NaN \<or> fb = NaN then (0, False)
          else let (fa, fb) = (if single then (to_single fa, to_single fb) else (fa, fb)) in
            if float_less fa fb then (-1, True)
            else if float_less fb fa then (1, True)
            else (0, True)
      | _ \<Rightarrow> (0, False))"

definition CompareFloatFacetBound :: "string \<Rightarrow> string \<Rightarrow> string \<Rightarrow> int \<times> bool" where
  "CompareFloatFacetBound a b t =
     (if t \<noteq> ''float'' \<and> t \<noteq> ''double'' then (0, False)
      else if \<not> validBuiltinOperands a b t then (0, False)
      else case (parseXSDFloat (trimXSDSpace a), parseXSDFloat (trimXSDSpace b)) of
        (Some fa, Some fb) \<Rightarrow>
          if fa = NaN \<or> fb = NaN
          then (if fa = NaN \<and> fb = NaN then (0, True) else if fa = NaN then (1, True) else (-1, True))
          else compareFloat a b (t = ''float'')
      | _ \<Rightarrow> (0, False))"

subsection \<open>Parsing dates and times\<close>

definition parseYearBig :: "string \<Rightarrow> bool \<Rightarrow> int option" where
  "parseYearBig s neg =
     (if s = [] then None
      else if \<not> list_all ascii_digit s then None
      else case int_SetString s of None \<Rightarrow> None | Some n \<Rightarrow> Some (if neg then - n else n))"

definition parseTZ :: "string \<Rightarrow> bool \<times> int" where
  "parseTZ s =
     (if s = [] then (False, 0)
      else if hd s = CHR ''Z'' then (True, 0)
      else if (hd s = CHR ''+'' \<or> hd s = CHR ''-'') \<and> length s \<ge> 6 \<and> s ! 3 = CHR '':''
      then (case (atoi (slice 1 3 s), atoi (slice 4 6 s)) of
          (Some hh, Some mm) \<Rightarrow> (True, if hd s = CHR ''-'' then - (hh * 60 + mm) else hh * 60 + mm)
        | _ \<Rightarrow> (False, 0))
      else (False, 0))"

definition zeroDateTime :: xsdDateTime where
  "zeroDateTime = \<lparr>year = None, month = 0, day = 0, hour = 0, minutes = 0, sec = None, hasTZ = False, tzMin = 0\<rparr>"

definition withTZ :: "string \<Rightarrow> xsdDateTime \<Rightarrow> xsdDateTime" where
  "withTZ s dt = dt\<lparr>hasTZ := fst (parseTZ s), tzMin := snd (parseTZ s)\<rparr>"

text \<open>The sign of the year.\<close>

definition takeMinus :: "string \<Rightarrow> bool \<times> string" where
  "takeMinus s = (if length s > 0 \<and> hd s = CHR ''-'' then (True, tl s) else (False, s))"

definition parseTimeFields :: "string \<Rightarrow> (int \<times> int \<times> rat \<times> string) option" where
  "parseTimeFields s =
     (if length s < 8 \<or> s ! 2 \<noteq> CHR '':'' \<or> s ! 5 \<noteq> CHR '':'' then None
      else case (atoi (slice 0 2 s), atoi (slice 3 5 s)) of
        (Some hh, Some mm) \<Rightarrow>
          let rest = drop 6 s;
              secs = takeWhile (\<lambda>c. ascii_digit c \<or> c = CHR ''.'') rest
          in (case rat_SetString secs of None \<Rightarrow> None
            | Some x \<Rightarrow> Some (hh, mm, x, drop (length secs) rest))
      | _ \<Rightarrow> None)"

definition parseTimeInto :: "xsdDateTime \<Rightarrow> string \<Rightarrow> xsdDateTime option" where
  "parseTimeInto dt s =
     (case parseTimeFields s of None \<Rightarrow> None
      | Some (hh, mm, x, rest) \<Rightarrow> Some (withTZ rest (dt\<lparr>hour := hh, minutes := mm, sec := Some x\<rparr>)))"

definition parseXSDDateTime :: "string \<Rightarrow> xsdDateTime option" where
  "parseXSDDateTime s =
     (let (neg, s) = takeMinus s in
      case str_cut s ''T'' of None \<Rightarrow> None
      | Some (datePart, timePart) \<Rightarrow>
        (case split_n CHR ''-'' 3 datePart of
           [ys, ms, ds] \<Rightarrow>
             (case (parseYearBig ys neg, atoi ms, atoi ds) of
                (Some y, Some m, Some d) \<Rightarrow> parseTimeInto (zeroDateTime\<lparr>year := Some y, month := m, day := d\<rparr>) timePart
              | _ \<Rightarrow> None)
         | _ \<Rightarrow> None))"

definition parseXSDDate :: "string \<Rightarrow> xsdDateTime option" where
  "parseXSDDate s =
     (let (neg, s) = takeMinus s in
      if length s < 10 then None
      else case index_of s ''-'' of None \<Rightarrow> None
      | Some dashIdx \<Rightarrow>
        if dashIdx < 4 then None
        else case parseYearBig (take dashIdx s) neg of None \<Rightarrow> None
        | Some y \<Rightarrow>
          let rest = drop (dashIdx + 1) s in
          if length rest < 5 \<or> rest ! 2 \<noteq> CHR ''-'' then None
          else case (atoi (slice 0 2 rest), atoi (slice 3 5 rest)) of
            (Some m, Some d) \<Rightarrow> Some (withTZ (drop 5 rest) (zeroDateTime\<lparr>year := Some y, month := m, day := d\<rparr>))
          | _ \<Rightarrow> None)"

definition parseXSDTime :: "string \<Rightarrow> xsdDateTime option" where
  "parseXSDTime s = parseTimeInto zeroDateTime s"

definition parseXSDGYear :: "string \<Rightarrow> xsdDateTime option" where
  "parseXSDGYear s =
     (let (neg, s) = takeMinus s;
          ds = takeWhile ascii_digit s
      in if length ds < 4 then None
         else case parseYearBig ds neg of None \<Rightarrow> None
         | Some y \<Rightarrow> Some (withTZ (drop (length ds) s) (zeroDateTime\<lparr>year := Some y\<rparr>)))"

definition parseXSDGYearMonth :: "string \<Rightarrow> xsdDateTime option" where
  "parseXSDGYearMonth s =
     (let (neg, s) = takeMinus s;
          ds = takeWhile ascii_digit s;
          i = length ds
      in if i < 4 \<or> i \<ge> length s \<or> s ! i \<noteq> CHR ''-'' then None
         else case parseYearBig ds neg of None \<Rightarrow> None
         | Some y \<Rightarrow>
           let rest = drop (i + 1) s in
           if length rest < 2 then None
           else case atoi (take 2 rest) of None \<Rightarrow> None
           | Some m \<Rightarrow> Some (withTZ (drop 2 rest) (zeroDateTime\<lparr>year := Some y, month := m\<rparr>)))"

definition parseXSDGMonth :: "string \<Rightarrow> xsdDateTime option" where
  "parseXSDGMonth s =
     (if length s < 4 \<or> s ! 0 \<noteq> CHR ''-'' \<or> s ! 1 \<noteq> CHR ''-'' then None
      else case atoi (slice 2 4 s) of None \<Rightarrow> None
      | Some m \<Rightarrow> Some (withTZ (drop 4 s) (zeroDateTime\<lparr>month := m\<rparr>)))"

definition parseXSDGDay :: "string \<Rightarrow> xsdDateTime option" where
  "parseXSDGDay s =
     (if length s < 5 \<or> s ! 0 \<noteq> CHR ''-'' \<or> s ! 1 \<noteq> CHR ''-'' \<or> s ! 2 \<noteq> CHR ''-'' then None
      else case atoi (slice 3 5 s) of None \<Rightarrow> None
      | Some d \<Rightarrow> Some (withTZ (drop 5 s) (zeroDateTime\<lparr>day := d\<rparr>)))"

definition parseXSDGMonthDay :: "string \<Rightarrow> xsdDateTime option" where
  "parseXSDGMonthDay s =
     (if length s < 7 \<or> s ! 0 \<noteq> CHR ''-'' \<or> s ! 1 \<noteq> CHR ''-'' \<or> s ! 4 \<noteq> CHR ''-'' then None
      else case (atoi (slice 2 4 s), atoi (slice 5 7 s)) of
        (Some m, Some d) \<Rightarrow> Some (withTZ (drop 7 s) (zeroDateTime\<lparr>month := m, day := d\<rparr>))
      | _ \<Rightarrow> None)"

subsection \<open>Parsing durations\<close>

definition addMonths :: "int \<Rightarrow> xsdDuration \<Rightarrow> xsdDuration" where
  "addMonths n d = d\<lparr>months := Some (monVal d + n)\<rparr>"

definition addSeconds :: "rat \<Rightarrow> xsdDuration \<Rightarrow> xsdDuration" where
  "addSeconds x d = d\<lparr>seconds := Some (durSecVal d + x)\<rparr>"

text \<open>One component, with its designator: the effect on the duration.\<close>

definition dateComponent :: "char \<Rightarrow> string \<Rightarrow> xsdDuration \<Rightarrow> xsdDuration option" where
  "dateComponent designator numStr d =
     (case int_SetString numStr of None \<Rightarrow> None
      | Some n \<Rightarrow>
        if designator = CHR ''Y'' then Some (addMonths (n * 12) d)
        else if designator = CHR ''M'' then Some (addMonths n d)
        else if designator = CHR ''D'' then Some (addSeconds (of_int n * 86400) d)
        else None)"

definition timeComponent :: "char \<Rightarrow> string \<Rightarrow> xsdDuration \<Rightarrow> xsdDuration option" where
  "timeComponent designator numStr d =
     (if designator = CHR ''H'' then map_option (\<lambda>n. addSeconds (of_int n * 3600) d) (int_SetString numStr)
      else if designator = CHR ''M'' then map_option (\<lambda>n. addSeconds (of_int n * 60) d) (int_SetString numStr)
      else if designator = CHR ''S'' then map_option (\<lambda>x. addSeconds x d) (rat_SetString numStr)
      else None)"

definition numChar :: "char \<Rightarrow> bool" where
  "numChar c \<longleftrightarrow> ascii_digit c \<or> c = CHR ''.''"

text \<open>The loop over the components; the first one sets nil months and seconds to zero.\<close>

function duration_loop :: "bool \<Rightarrow> xsdDuration \<Rightarrow> string \<Rightarrow> xsdDuration option" where
  "duration_loop inTime d s =
     (if s = [] then Some d
      else if hd s = CHR ''T'' then duration_loop True d (tl s)
      else let numStr = takeWhile numChar s; rest = dropWhile numChar s in
        if numStr = [] \<or> rest = [] then None
        else let d = d\<lparr>months := Some (monVal d), seconds := Some (durSecVal d)\<rparr> in
          case (if \<not> inTime then dateComponent (hd rest) numStr d else timeComponent (hd rest) numStr d) of
            None \<Rightarrow> None
          | Some d' \<Rightarrow> duration_loop inTime d' (tl rest))"
  by pat_completeness auto
termination
proof (relation "measure (\<lambda>(inTime, d, s). length s)")
  show "((inTime, x2, tl r), (inTime, d, s)) \<in> measure (\<lambda>(inTime, d, s). length s)"
    if "\<not> s = []" "u = takeWhile numChar s" "r = dropWhile numChar s" "\<not> (u = [] \<or> r = [])"
    for inTime d s x2 u r
  proof -
    have "length r \<le> length s"
      using that(3) by (simp add: length_dropWhile_le)
    then show ?thesis
      using that(4) by (cases r) auto
  qed
qed auto

declare duration_loop.simps [simp del]

definition parseXSDDurationValue :: "string \<Rightarrow> xsdDuration option" where
  "parseXSDDurationValue s =
     (if length s = 0 then None
      else let (neg, s) = takeMinus s in
        if length s = 0 \<or> hd s \<noteq> CHR ''P'' then None
        else let s = tl s in
          if s = [] \<or> s = ''T'' then None
          else duration_loop False \<lparr>negative = neg, months = None, seconds = None\<rparr> s)"

subsection \<open>Compare\<close>

text \<open>The functions \<open>compareDateTime\<close> to \<open>compareGMonthDay\<close> differ in their parser only.\<close>

definition compareParsed :: "(string \<Rightarrow> xsdDateTime option) \<Rightarrow> string \<Rightarrow> string \<Rightarrow> string \<Rightarrow> int \<times> bool" where
  "compareParsed parse a b t =
     (let a = trimXSDSpace a; b = trimXSDSpace b in
      if \<not> validDateTimeOperands a b t then (0, False)
      else case (parse a, parse b) of
        (Some da, Some db) \<Rightarrow> compareDateTimeParsed da db
      | _ \<Rightarrow> (0, False))"

definition compareDateTime :: "string \<Rightarrow> string \<Rightarrow> string \<Rightarrow> int \<times> bool" where
  "compareDateTime = compareParsed parseXSDDateTime"

definition compareDate :: "string \<Rightarrow> string \<Rightarrow> string \<Rightarrow> int \<times> bool" where
  "compareDate = compareParsed parseXSDDate"

definition referenceDay :: "xsdDateTime \<Rightarrow> xsdDateTime" where
  "referenceDay dt = dt\<lparr>year := Some 2000, month := 1, day := 15\<rparr>"

definition compareTime :: "string \<Rightarrow> string \<Rightarrow> string \<Rightarrow> int \<times> bool" where
  "compareTime a b t =
     (let a = trimXSDSpace a; b = trimXSDSpace b in
      if \<not> validDateTimeOperands a b t then (0, False)
      else case (parseXSDTime a, parseXSDTime b) of
        (Some da, Some db) \<Rightarrow>
          compareDateTimeParsed (referenceDay (normalizeHour24 da)) (referenceDay (normalizeHour24 db))
      | _ \<Rightarrow> (0, False))"

definition compareGYear :: "string \<Rightarrow> string \<Rightarrow> string \<Rightarrow> int \<times> bool" where
  "compareGYear = compareParsed parseXSDGYear"

definition compareGYearMonth :: "string \<Rightarrow> string \<Rightarrow> string \<Rightarrow> int \<times> bool" where
  "compareGYearMonth = compareParsed parseXSDGYearMonth"

definition compareGMonth :: "string \<Rightarrow> string \<Rightarrow> string \<Rightarrow> int \<times> bool" where
  "compareGMonth = compareParsed parseXSDGMonth"

definition compareGDay :: "string \<Rightarrow> string \<Rightarrow> string \<Rightarrow> int \<times> bool" where
  "compareGDay = compareParsed parseXSDGDay"

definition compareGMonthDay :: "string \<Rightarrow> string \<Rightarrow> string \<Rightarrow> int \<times> bool" where
  "compareGMonthDay = compareParsed parseXSDGMonthDay"

definition compareDuration :: "string \<Rightarrow> string \<Rightarrow> int \<times> bool" where
  "compareDuration a b =
     (if \<not> validBuiltinOperands a b ''duration'' then (0, False)
      else case (parseXSDDurationValue (trimXSDSpace a), parseXSDDurationValue (trimXSDSpace b)) of
        (Some da, Some db) \<Rightarrow>
          let (am, as) = signedDurationComponents da; (bm, bs) = signedDurationComponents db
          in compareDurationComponents am as bm bs
      | _ \<Rightarrow> (0, False))"

definition Compare :: "string \<Rightarrow> string \<Rightarrow> string \<Rightarrow> int \<times> bool" where
  "Compare a b t =
     (if t = ''boolean'' then compareBoolean a b
      else if t = ''float'' then compareFloat a b True
      else if t = ''double'' then compareFloat a b False
      else if t \<in> {''dateTime'', ''dateTimeStamp''} then compareDateTime a b ''dateTime''
      else if t = ''date'' then compareDate a b t
      else if t = ''time'' then compareTime a b t
      else if t = ''gYear'' then compareGYear a b t
      else if t = ''gYearMonth'' then compareGYearMonth a b t
      else if t = ''gMonth'' then compareGMonth a b t
      else if t = ''gDay'' then compareGDay a b t
      else if t = ''gMonthDay'' then compareGMonthDay a b t
      else if t \<in> {''duration'', ''dayTimeDuration'', ''yearMonthDuration''} then compareDuration a b
      else if t = ''hexBinary'' then compareHexBinary a b
      else if t = ''base64Binary'' then compareBase64Binary a b
      else if t \<notin> set numericComparableTypes then (0, False)
      else if \<not> validBuiltinOperands a b t then (0, False)
      else let c = CompareDecimal (trimXSDSpace a) (trimXSDSpace b)
           in if c = -2 then (0, False) else (c, True))"

subsection \<open>Canonical keys\<close>

definition show_bool :: "bool \<Rightarrow> string" where
  "show_bool b = (if b then ''true'' else ''false'')"

definition dateTimeKey :: "xsdDateTime \<Rightarrow> string" where
  "dateTimeKey dt = str_join [show_int (yearVal dt), show_int (month dt), show_int (day dt), show_int (hour dt),
     show_int (minutes dt), RatString (secVal dt), show_bool (hasTZ dt)] ''|''"

definition canonicalDateTimeKey :: "string \<Rightarrow> string \<Rightarrow> string \<times> bool" where
  "canonicalDateTimeKey s t =
     (if ValidateBuiltin s t Version11 \<noteq> None then (s, False)
      else case
        (if t = ''dateTime'' then parseXSDDateTime s
         else if t = ''date'' then parseXSDDate s
         else if t = ''time'' then parseXSDTime s
         else if t = ''gYear'' then parseXSDGYear s
         else if t = ''gYearMonth'' then parseXSDGYearMonth s
         else if t = ''gMonth'' then parseXSDGMonth s
         else if t = ''gDay'' then parseXSDGDay s
         else if t = ''gMonthDay'' then parseXSDGMonthDay s
         else None) of
        None \<Rightarrow> (s, False)
      | Some dt \<Rightarrow>
        let dt = normalizeHour24 dt;
            dt = (if t = ''time'' then referenceDay dt else dt);
            dt = (if hasTZ dt then normalizeToUTC dt else dt)
        in (dateTimeKey dt, True))"

definition canonicalFloatKey :: "(bool \<Rightarrow> rat \<Rightarrow> string) \<Rightarrow> string \<Rightarrow> bool \<Rightarrow> string \<times> bool" where
  "canonicalFloatKey fmt s single =
     (let trimmed = trimXSDSpace s in
      if ValidateBuiltin trimmed ''double'' Version11 \<noteq> None then (trimmed, False)
      else case parseXSDFloat trimmed of None \<Rightarrow> (trimmed, False)
      | Some f \<Rightarrow>
        (case (if single then to_single f else f) of
           NaN \<Rightarrow> (''NaN'', True)
         | Inf neg \<Rightarrow> (if neg then ''-INF'' else ''INF'', True)
         | Fin r \<Rightarrow> (fmt single r, True)))"

definition CanonicalKey :: "(bool \<Rightarrow> rat \<Rightarrow> string) \<Rightarrow> string \<Rightarrow> string \<Rightarrow> string \<times> bool" where
  "CanonicalKey fmt s t =
     (let trimmed = trimXSDSpace s in
      if t = ''boolean'' then
        (if ValidateBuiltin trimmed ''boolean'' Version11 \<noteq> None then (trimmed, False)
         else if trimmed = ''true'' \<or> trimmed = ''1'' then (''1'', True) else (''0'', True))
      else if t = ''float'' then canonicalFloatKey fmt s True
      else if t = ''double'' then canonicalFloatKey fmt s False
      else if t \<in> {''dateTime'', ''date'', ''time'', ''gYear'', ''gYearMonth'', ''gMonth'', ''gDay'', ''gMonthDay''}
        then canonicalDateTimeKey trimmed t
      else if t = ''dateTimeStamp'' then canonicalDateTimeKey trimmed ''dateTime''
      else if t = ''hexBinary'' then
        (if ValidateBuiltin trimmed ''hexBinary'' Version11 \<noteq> None then (trimmed, False)
         else case hex_decode trimmed of None \<Rightarrow> (trimmed, False) | Some d \<Rightarrow> (hex_encode d, True))
      else if t = ''base64Binary'' then
        (if ValidateBuiltin trimmed ''base64Binary'' Version11 \<noteq> None then (trimmed, False)
         else case decodeBase64Binary trimmed of None \<Rightarrow> (trimmed, False) | Some d \<Rightarrow> (hex_encode d, True))
      else if t \<in> {''duration'', ''dayTimeDuration'', ''yearMonthDuration''} then
        (if ValidateBuiltin trimmed ''duration'' Version11 \<noteq> None then (trimmed, False)
         else case parseXSDDurationValue trimmed of None \<Rightarrow> (trimmed, False)
         | Some d \<Rightarrow> let (m, x) = signedDurationComponents d in (show_int m @ ''|'' @ RatString x, True))
      else if t \<in> set numericComparableTypes then
        (if ValidateBuiltin trimmed t Version11 \<noteq> None then (trimmed, False)
         else case rat_SetString trimmed of None \<Rightarrow> (trimmed, False) | Some r \<Rightarrow> (RatString r, True))
      else if t = ''string'' then (s, False)
      else if t = ''normalizedString'' then (whitespaceReplace s, False)
      else (str_join (xsdFields s) '' '', False))"

end
