(* ===== verification/XsdLexical.thy ===== *)
theory XsdLexical
  imports XsdCompare
begin

text \<open>
  What the date/time validators guarantee: the parts of a validated string, their ranges, and that the
  lenient parsers of \<open>compare.go\<close> read exactly these parts.  The result for each type is that a
  validated string parses, and to a date/time in the range on which the order is the timeline.
\<close>

subsection \<open>Digits\<close>

lemma set_bytes: "c \<in> set cs \<longleftrightarrow> byte c \<in> set (map byte cs)"
  by (simp add: inj_image_mem_iff inj_def)

lemma D_set: "c \<in> set ''0123456789'' \<longleftrightarrow> ascii_digit c"
proof -
  have "map byte ''0123456789'' = [48..<58]"
    by (simp add: upt_rec)
  then show ?thesis
    unfolding set_bytes[of c] by (simp only: set_upt ascii_digit_def) auto
qed

lemma in_D: "s \<in> rlang D \<longleftrightarrow> (\<exists>c. s = [c] \<and> ascii_digit c)"
  unfolding D_def in_Cls D_set[symmetric] by blast

lemma in_digits: "set s \<subseteq> set ''0123456789'' \<longleftrightarrow> digits s"
  by (simp only: subset_iff D_set digits_set Ball_def)

lemma in_Star_D: "s \<in> rlang (Star D) \<longleftrightarrow> digits s"
  unfolding D_def in_Star_Cls in_digits ..

lemma in_Plus_D: "s \<in> rlang (Plus D) \<longleftrightarrow> s \<noteq> [] \<and> digits s"
  unfolding D_def in_Plus_Cls in_digits ..

lemma in_Times_D: "s \<in> rlang (Times n D) \<longleftrightarrow> length s = n \<and> digits s"
  unfolding D_def in_Times_Cls in_digits ..

lemma in_two_D: "s \<in> rlang (Times 2 D) \<longleftrightarrow> (\<exists>a b. s = [a, b] \<and> ascii_digit a \<and> ascii_digit b)"
  unfolding in_Times_D by (auto simp: length_Suc_conv numeral_2_eq_2)

lemma not_digit [simp]:
  "\<not> ascii_digit CHR ''-''" "\<not> ascii_digit CHR ''+''" "\<not> ascii_digit CHR '':''" "\<not> ascii_digit CHR ''.''"
  "\<not> ascii_digit CHR ''T''" "\<not> ascii_digit CHR ''Z''" "\<not> ascii_digit CHR '' ''" "\<not> ascii_digit CHR 0x09"
  by (simp_all add: ascii_digit_def)

lemma digits_notin: "digits s \<Longrightarrow> \<not> ascii_digit c \<Longrightarrow> c \<notin> set s"
  by (auto simp: digits_set)

lemma digit_neq: "ascii_digit a \<Longrightarrow> \<not> ascii_digit c \<Longrightarrow> a \<noteq> c"
  by blast

lemma take_sign_digits: "digits s \<Longrightarrow> take_sign s = (False, s)"
  by (cases s) (auto dest: digit_neq)

lemma int_SetString_digits: "digits s \<Longrightarrow> s \<noteq> [] \<Longrightarrow> int_SetString s = Some (int (nat_of s))"
  by (simp add: int_SetString_def take_sign_digits signed_def)

lemma in_int64_small: "digits s \<Longrightarrow> length s \<le> 18 \<Longrightarrow> in_int64 (int (nat_of s))"
proof -
  assume "digits s" "length s \<le> 18"
  then have "nat_of s < 10 ^ 18"
    using nat_of_less[of s] power_increasing[of "length s" 18 "10::nat"] by linarith
  then have "int (nat_of s) < 10 ^ 18"
    by (metis of_nat_less_iff of_nat_numeral of_nat_power)
  then show ?thesis
    by (simp add: in_int64_def)
qed

lemma atoi_digits: "digits s \<Longrightarrow> s \<noteq> [] \<Longrightarrow> length s \<le> 18 \<Longrightarrow> atoi s = Some (int (nat_of s))"
  by (simp add: atoi_def int_SetString_digits in_int64_small)

lemma sscanf_digits: "digits s \<Longrightarrow> s \<noteq> [] \<Longrightarrow> length s \<le> 18 \<Longrightarrow> sscanf_d s = Some (int (nat_of s))"
proof -
  assume s: "digits s" "s \<noteq> []" "length s \<le> 18"
  then obtain c t where c: "s = c # t" "ascii_digit c"
    by (cases s) auto
  then have "c \<noteq> CHR '' ''" "c \<noteq> CHR 0x09"
    by (auto dest: digit_neq)
  then have "dropWhile (\<lambda>c. c = CHR '' '' \<or> c = CHR 0x09) s = s"
    using c by simp
  moreover have "takeWhile ascii_digit s = s"
    using s(1) by (simp add: digits_set takeWhile_eq_all_conv)
  ultimately show ?thesis
    using s in_int64_small[OF s(1,3)] by (simp add: sscanf_d_def take_sign_digits signed_def Let_def del: takeWhile_eq_all_conv)
qed

definition two :: "char \<Rightarrow> char \<Rightarrow> int" where
  "two a b = 10 * (int (byte a) - 48) + (int (byte b) - 48)"

lemma nat_of_two: "ascii_digit a \<Longrightarrow> ascii_digit b \<Longrightarrow> int (nat_of [a, b]) = two a b"
  by (auto simp: nat_of_Cons two_def ascii_digit_def)

lemma two_bounds: "ascii_digit a \<Longrightarrow> ascii_digit b \<Longrightarrow> 0 \<le> two a b \<and> two a b \<le> 99"
  by (auto simp: two_def ascii_digit_def)

lemma atoi_two [simp]: "ascii_digit a \<Longrightarrow> ascii_digit b \<Longrightarrow> atoi [a, b] = Some (two a b)"
  using atoi_digits[of "[a, b]"] by (simp add: nat_of_two)

lemma sscanf_two [simp]: "ascii_digit a \<Longrightarrow> ascii_digit b \<Longrightarrow> sscanf_d [a, b] = Some (two a b)"
  using sscanf_digits[of "[a, b]"] by (simp add: nat_of_two)

lemma trim_zeros: "digits s \<Longrightarrow> trim s ''0'' = [] \<longleftrightarrow> nat_of s = 0"
proof -
  assume s: "digits s"
  have "trim s ''0'' = [] \<longleftrightarrow> (\<forall>c\<in>set s. c = CHR ''0'')"
  proof -
    have "trim s ''0'' = [] \<longleftrightarrow> dropWhile (\<lambda>c. c = CHR ''0'') (rev (dropWhile (\<lambda>c. c = CHR ''0'') s)) = []"
      by (simp add: trim_def trim_left_def trim_right_def)
    also have "\<dots> \<longleftrightarrow> dropWhile (\<lambda>c. c = CHR ''0'') s = []"
    proof (cases "dropWhile (\<lambda>c. c = CHR ''0'') s")
      case (Cons c t)
      then have "c \<noteq> CHR ''0''"
        using hd_dropWhile[of "\<lambda>c. c = CHR ''0''" s] by simp
      then show ?thesis
        unfolding Cons dropWhile_eq_Nil_conv by auto
    next
      case Nil
      then show ?thesis
        unfolding Nil by simp
    qed
    finally show ?thesis
      by (simp add: dropWhile_eq_Nil_conv)
  qed
  also have "\<dots> \<longleftrightarrow> nat_of s = 0"
    using s
  proof (induction s)
    case (Cons c s)
    have "c = CHR ''0'' \<longleftrightarrow> byte c = byte CHR ''0''"
      by (rule byte_inject[symmetric])
    then have "c = CHR ''0'' \<longleftrightarrow> byte c - 48 = 0"
      using Cons.prems by (auto simp: ascii_digit_def)
    then show ?case
      using Cons by (simp add: nat_of_Cons)
  qed simp
  finally show ?thesis .
qed

subsection \<open>Cutting\<close>

lemma index_of_char: "c \<notin> set u \<Longrightarrow> index_of (u @ c # v) [c] = Some (length u)"
  by (induction u) auto

lemma str_cut_char: "c \<notin> set u \<Longrightarrow> str_cut (u @ c # v) [c] = Some (u, v)"
  by (simp add: str_cut_def index_of_char)

lemma str_cut_none: "c \<notin> set u \<Longrightarrow> str_cut u [c] = None"
  by (induction u) (auto simp: str_cut_def)

subsection \<open>Timezones\<close>

text \<open>The timezone suffixes of the regular expressions, their offset, and their range.\<close>

datatype tz = NoTZ | UTC | Offset bool char char char char

primrec tz_text :: "tz \<Rightarrow> string" where
  "tz_text NoTZ = []"
| "tz_text UTC = ''Z''"
| "tz_text (Offset neg a b c d) = [if neg then CHR ''-'' else CHR ''+'', a, b, CHR '':'', c, d]"

primrec tz_digits :: "tz \<Rightarrow> bool" where
  "tz_digits NoTZ \<longleftrightarrow> True"
| "tz_digits UTC \<longleftrightarrow> True"
| "tz_digits (Offset neg a b c d) \<longleftrightarrow> digits [a, b, c, d]"

primrec tz_range :: "tz \<Rightarrow> bool" where
  "tz_range NoTZ \<longleftrightarrow> True"
| "tz_range UTC \<longleftrightarrow> True"
| "tz_range (Offset neg a b c d) \<longleftrightarrow> two c d \<le> 59 \<and> two a b \<le> 14 \<and> (two a b = 14 \<longrightarrow> two c d = 0)"

primrec tz_minutes :: "tz \<Rightarrow> int" where
  "tz_minutes NoTZ = 0"
| "tz_minutes UTC = 0"
| "tz_minutes (Offset neg a b c d) = (if neg then - (two a b * 60 + two c d) else two a b * 60 + two c d)"

lemma in_offset: "s \<in> rlang offsetRegex \<longleftrightarrow> (\<exists>neg a b c d. tz_digits (Offset neg a b c d) \<and> s = tz_text (Offset neg a b c d))"
proof
  show "\<exists>neg a b c d. tz_digits (Offset neg a b c d) \<and> s = tz_text (Offset neg a b c d)" if "s \<in> rlang offsetRegex"
  proof -
    from that obtain g a b c d where "g \<in> set ''+-''" "digits [a, b, c, d]" "s = [g, a, b, CHR '':'', c, d]"
      unfolding offsetRegex_def Seqs.simps in_Cat in_two_D in_Lit in_Cls rlang.simps(2) by fastforce
    then show ?thesis
      by (intro exI[of _ "g = CHR ''-''"] exI[of _ a] exI[of _ b] exI[of _ c] exI[of _ d]) auto
  qed
  show "s \<in> rlang offsetRegex" if "\<exists>neg a b c d. tz_digits (Offset neg a b c d) \<and> s = tz_text (Offset neg a b c d)"
  proof -
    from that obtain neg a b c d where s: "digits [a, b, c, d]" "s = [if neg then CHR ''-'' else CHR ''+''] @ [a, b] @ '':'' @ [c, d] @ []"
      by auto
    show ?thesis
      unfolding offsetRegex_def Seqs.simps in_Cat in_two_D in_Lit in_Cls rlang.simps(2) s(2) using s(1)
      by (intro exI conjI) (auto split: if_splits)
  qed
qed

lemma in_tzSuffix: "s \<in> rlang tzSuffix \<longleftrightarrow> (\<exists>z. tz_digits z \<and> s = tz_text z)"
proof -
  have "s \<in> rlang tzSuffix \<longleftrightarrow> s = [] \<or> s = ''Z'' \<or> s \<in> rlang offsetRegex"
    unfolding tzSuffix_def in_Opt rlang.simps(4) in_Lit by simp
  also have "\<dots> \<longleftrightarrow> (\<exists>z. tz_digits z \<and> s = tz_text z)"
    unfolding in_offset by (metis tz.exhaust tz_digits.simps(1,2) tz_text.simps(1,2))
  finally show ?thesis .
qed

lemma parseTZ_text: "tz_digits z \<Longrightarrow> parseTZ (tz_text z) = (z \<noteq> NoTZ, tz_minutes z)"
  by (cases z) (simp_all add: parseTZ_def slice_def)

lemma validateTimezone_text:
  assumes "tz_digits z" "z \<noteq> NoTZ"
  shows "validateTimezone (tz_text z) = None \<longleftrightarrow> tz_range z"
proof (cases z)
  case (Offset neg a b c d)
  have dg: "ascii_digit a" "ascii_digit b" "ascii_digit c" "ascii_digit d"
    using assms(1) Offset by simp_all
  have "str_cut [a, b, CHR '':'', c, d] '':'' = Some ([a, b], [c, d])"
    using str_cut_char[of "CHR '':''" "[a, b]" "[c, d]"] digits_notin[of "[a, b]" "CHR '':''"] dg by simp
  then show ?thesis
    using Offset dg two_bounds[OF dg(1,2)] two_bounds[OF dg(3,4)] by (auto simp: validateTimezone_def)
qed (use assms in \<open>simp_all add: validateTimezone_def\<close>)

lemma tz_minutes_range: "tz_digits z \<Longrightarrow> tz_range z \<Longrightarrow> \<bar>tz_minutes z\<bar> \<le> 840"
proof (cases z)
  case (Offset neg a b c d)
  moreover assume "tz_digits z" "tz_range z"
  ultimately show ?thesis
    using two_bounds[of a b] two_bounds[of c d] by auto
qed simp_all

text \<open>Without a timezone a date/time ends with a digit and has a sign or a colon, not both.\<close>

definition plain_end :: "string \<Rightarrow> bool" where
  "plain_end u \<longleftrightarrow> u \<noteq> [] \<and> ascii_digit (last u) \<and>
     (CHR '':'' \<notin> set u \<or> CHR ''+'' \<notin> set u \<and> CHR ''-'' \<notin> set u)"

lemma splitTimezone_plain: "plain_end u \<Longrightarrow> splitTimezone u = None"
proof -
  assume u: "plain_end u"
  have "\<not> (length u \<ge> 6 \<and> (u ! (length u - 6) = CHR ''+'' \<or> u ! (length u - 6) = CHR ''-'') \<and> u ! (length u - 3) = CHR '':'')"
  proof
    assume a: "length u \<ge> 6 \<and> (u ! (length u - 6) = CHR ''+'' \<or> u ! (length u - 6) = CHR ''-'') \<and> u ! (length u - 3) = CHR '':''"
    then have "u ! (length u - 6) \<in> set u" "u ! (length u - 3) \<in> set u"
      by (simp_all only: nth_mem diff_less) (metis diff_less length_greater_0_conv nth_mem u plain_end_def zero_less_numeral)+
    then show False
      using a u unfolding plain_end_def by metis
  qed
  moreover have "last u \<noteq> CHR ''Z''"
    using u by (auto simp: plain_end_def)
  ultimately show ?thesis
    unfolding splitTimezone_def by auto
qed

lemma splitTimezone_text:
  assumes "plain_end u" "tz_digits z"
  shows "splitTimezone (u @ tz_text z) = (if z = NoTZ then None else Some (tz_text z))"
proof (cases z)
  case NoTZ
  then show ?thesis
    using splitTimezone_plain[OF assms(1)] by simp
next
  case UTC
  then show ?thesis
    by (simp add: splitTimezone_def)
next
  case (Offset neg a b c d)
  then have "d \<noteq> CHR ''Z''"
    using assms(2) by auto
  then show ?thesis
    using Offset by (simp add: splitTimezone_def nth_append)
qed

subsection \<open>Calendar dates\<close>

definition year_text :: "bool \<Rightarrow> string \<Rightarrow> string" where
  "year_text neg ys = (if neg then CHR ''-'' # ys else ys)"

definition year_value :: "bool \<Rightarrow> string \<Rightarrow> int" where
  "year_value neg ys = (if neg then - int (nat_of ys) else int (nat_of ys))"

lemma in_yearFrag:
  assumes "s \<in> rlang yearFrag"
  obtains neg ys where "s = year_text neg ys" "digits ys" "4 \<le> length ys"
proof -
  obtain u v where s: "s = u @ v" "u = [] \<or> u = ''-''" "v \<in> rlang (Alt (Times 4 D) (Cat (Cls ''123456789'') (Cat (Times 4 D) (Star D))))"
    using assms unfolding yearFrag_def in_Cat in_Opt in_Lit singleton_iff by blast
  have "digits v \<and> 4 \<le> length v"
  proof (cases "v \<in> rlang (Times 4 D)")
    case True
    then show ?thesis
      by (simp add: in_Times_D)
  next
    case False
    then obtain c w x where v: "v = c # w @ x" "c \<in> set ''123456789''" "length w = 4" "digits w" "digits x"
      using s(3) unfolding rlang.simps(4) Un_iff in_Cat_Cls unfolding in_Cat in_Times_D in_Star_D by blast
    have "ascii_digit c"
      unfolding D_set[symmetric] using v(2) by auto
    then show ?thesis
      using v(1,3-5) by simp
  qed
  then show thesis
    using that[of "u = ''-''" v] s(1,2) by (auto simp: year_text_def)
qed

lemma takeMinus_year: "digits ys \<Longrightarrow> 4 \<le> length ys \<Longrightarrow> takeMinus (year_text neg ys @ r) = (neg, ys @ r)"
  by (cases ys) (auto simp: takeMinus_def year_text_def)

lemma parseYearBig_digits: "digits ys \<Longrightarrow> ys \<noteq> [] \<Longrightarrow> parseYearBig ys neg = Some (year_value neg ys)"
  by (simp add: parseYearBig_def int_SetString_digits year_value_def digits_def)

lemma runes_digits: "digits s \<Longrightarrow> runes s = map byte s"
  by (induction s) (auto simp: ascii_digit_def)

lemma go_rem_nonneg: "0 \<le> a \<Longrightarrow> go_rem a b = a mod b"
  by (simp add: go_rem_def)

text \<open>The remainder computed digit by digit is that of the year.\<close>

lemma digit_mod:
  assumes "digits s" "0 \<le> v" "0 < n"
  shows "foldl (\<lambda>v r. go_rem (v * 10 + (int r - 48)) n) v (runes s) mod n = (v * 10 ^ length s + int (nat_of s)) mod n
    \<and> 0 \<le> foldl (\<lambda>v r. go_rem (v * 10 + (int r - 48)) n) v (runes s)
    \<and> (s \<noteq> [] \<longrightarrow> foldl (\<lambda>v r. go_rem (v * 10 + (int r - 48)) n) v (runes s) < n)"
  using assms(1,2)
proof (induction s arbitrary: v)
  case (Cons c s)
  have c: "48 \<le> byte c" "byte c < 128" "digits s"
    using Cons.prems by (auto simp: ascii_digit_def)
  let ?v = "(v * 10 + (int (byte c) - 48)) mod n"
  have g: "go_rem (v * 10 + (int (byte c) - 48)) n = ?v"
    using c Cons.prems by (simp add: go_rem_nonneg)
  have v: "0 \<le> ?v" "?v < n"
    using assms(3) by simp_all
  have "(?v * 10 ^ length s + int (nat_of s)) mod n = ((v * 10 + (int (byte c) - 48)) * 10 ^ length s + int (nat_of s)) mod n"
    by (intro mod_add_cong mod_mult_cong) simp_all
  also have "(v * 10 + (int (byte c) - 48)) * 10 ^ length s + int (nat_of s) = v * 10 ^ length (c # s) + int (nat_of (c # s))"
  proof -
    obtain k where "byte c = 48 + k"
      using c(1) le_iff_add by blast
    then show ?thesis
      by (simp add: nat_of_Cons algebra_simps)
  qed
  finally show ?case
    using Cons.IH[OF c(3) v(1)] v c by (cases s) (simp_all add: g)
qed simp

lemma isLeapYearStr_year: "digits ys \<Longrightarrow> ys \<noteq> [] \<Longrightarrow> isLeapYearStr ys = isLeapYearBig (year_value neg ys)"
proof -
  assume ys: "digits ys" "ys \<noteq> []"
  have r: "foldl (\<lambda>v r. go_rem (v * 10 + (int r - 48)) n) 0 (runes ys) = int (nat_of ys) mod n" if "0 < n" for n
  proof -
    let ?f = "foldl (\<lambda>v r. go_rem (v * 10 + (int r - 48)) n) 0 (runes ys)"
    have "?f mod n = int (nat_of ys) mod n" "0 \<le> ?f" "?f < n"
      using digit_mod[OF ys(1), of 0 n] ys(2) that by simp_all
    moreover from this(2,3) have "?f mod n = ?f"
      by (rule mod_pos_pos_trivial)
    ultimately show ?thesis
      by (simp only:)
  qed
  have "isLeapYearStr ys = isLeapYearBig (int (nat_of ys))"
    by (simp only: isLeapYearStr_def isLeapYearBig_def r Let_def zero_less_numeral)
  then show ?thesis
    by (cases neg) (simp_all only: year_value_def leap_iff dvd_minus_iff if_True if_False)
qed

definition date_text :: "bool \<Rightarrow> string \<Rightarrow> char \<Rightarrow> char \<Rightarrow> char \<Rightarrow> char \<Rightarrow> string" where
  "date_text neg ys m n d e = year_text neg ys @ [CHR ''-'', m, n, CHR ''-'', d, e]"

definition date_digits :: "string \<Rightarrow> char \<Rightarrow> char \<Rightarrow> char \<Rightarrow> char \<Rightarrow> bool" where
  "date_digits ys m n d e \<longleftrightarrow> digits ys \<and> 4 \<le> length ys \<and> digits [m, n, d, e]"

lemma in_dateFrag:
  assumes "s \<in> rlang dateFrag"
  obtains neg ys m n d e where "s = date_text neg ys m n d e" "date_digits ys m n d e"
proof -
  from assms obtain y md where s: "s = y @ md" "y \<in> rlang yearFrag" "\<exists>m n d e. digits [m, n, d, e] \<and> md = [CHR ''-'', m, n, CHR ''-'', d, e]"
    unfolding dateFrag_def Seqs.simps in_Cat in_two_D in_Lit rlang.simps(2) by fastforce
  then show thesis
    using that in_yearFrag by (metis date_digits_def date_text_def)
qed

lemma month_table:
  assumes "1 \<le> m" "m \<le> 12"
  shows "(let t = [0, 31, 28, 31, 30, 31, 30, 31, 31, 30, 31, 30, 31]; t = (if m = 2 \<and> isLeapYearBig y then t[2 := 29] else t)
     in t ! nat m) = daysInMonth y m"
  using month_cases[OF assms] by (auto simp: daysInMonth_def)

lemma validateDateComponents_text:
  assumes "date_digits ys m n d e"
  shows "validateDateComponents (date_text neg ys m n d e @ r) ver = None \<longleftrightarrow>
    (ver = Version10 \<longrightarrow> nat_of ys \<noteq> 0) \<and> date_ok (year_value neg ys) (two m n) (two d e)"
proof -
  have ds: "digits ys" "ys \<noteq> []" "ascii_digit m" "ascii_digit n" "ascii_digit d" "ascii_digit e"
    using assms by (auto simp: date_digits_def)
  let ?v = "date_text neg ys m n d e @ r"
  have strip: "(if length ?v > 0 \<and> hd ?v = CHR ''-'' then tl ?v else ?v) = ys @ CHR ''-'' # [m, n] @ CHR ''-'' # [d, e] @ r"
    using takeMinus_year[of ys neg "[CHR ''-'', m, n, CHR ''-'', d, e] @ r"] assms
    by (auto simp: takeMinus_def date_text_def date_digits_def split: if_splits)
  have cut1: "str_cut (ys @ CHR ''-'' # [m, n] @ CHR ''-'' # [d, e] @ r) ''-'' = Some (ys, [m, n] @ CHR ''-'' # [d, e] @ r)"
    by (rule str_cut_char) (simp add: digits_notin[OF ds(1)])
  have cut2: "str_cut ([m, n] @ CHR ''-'' # [d, e] @ r) ''-'' = Some ([m, n], [d, e] @ r)"
    by (rule str_cut_char) (use ds digits_notin[of "[m, n]" "CHR ''-''"] in simp)
  have bounds: "0 \<le> two m n" "0 \<le> two d e"
    using two_bounds ds by blast+
  have leap: "isLeapYearStr ys = isLeapYearBig (year_value neg ys)"
    by (rule isLeapYearStr_year[OF ds(1,2)])
  show ?thesis
    unfolding validateDateComponents_def Let_def strip cut1 option.case prod.case cut2
    using ds bounds month_table[of "two m n" "year_value neg ys"]
    by (auto simp: yearForbiddenInXSD10_def trim_zeros leap date_ok_def Let_def split: if_splits)
qed

subsection \<open>Times of day\<close>

definition time_text :: "char \<Rightarrow> char \<Rightarrow> char \<Rightarrow> char \<Rightarrow> char \<Rightarrow> char \<Rightarrow> string \<Rightarrow> string" where
  "time_text h i m n s t fs = [h, i, CHR '':'', m, n, CHR '':'', s, t] @ fs"

text \<open>The fraction of the seconds, with its point.\<close>

definition fraction :: "string \<Rightarrow> bool" where
  "fraction fs \<longleftrightarrow> fs = [] \<or> (\<exists>ds. fs = CHR ''.'' # ds \<and> ds \<noteq> [] \<and> digits ds)"

definition seconds_value :: "char \<Rightarrow> char \<Rightarrow> string \<Rightarrow> rat" where
  "seconds_value s t fs = of_int (two s t) + of_nat (nat_of (tl fs)) / 10 ^ length (tl fs)"

lemma in_fracFrag: "s \<in> rlang fracFrag \<longleftrightarrow> fraction s"
  unfolding fracFrag_def in_Opt in_Cat in_Lit in_Plus_D fraction_def by auto

lemma in_timeFrag:
  assumes "x \<in> rlang timeFrag"
  obtains h i m n s t fs where "x = time_text h i m n s t fs" "digits [h, i, m, n, s, t]" "fraction fs"
proof -
  from assms obtain h i m n s t fs where "x = [h, i] @ '':'' @ [m, n] @ '':'' @ [s, t] @ fs @ []" "digits [h, i, m, n, s, t]" "fraction fs"
    unfolding timeFrag_def Seqs.simps in_Cat in_two_D in_Lit in_fracFrag rlang.simps(2) by fastforce
  then show thesis
    using that by (simp add: time_text_def)
qed

lemma fraction_cases:
  assumes "fraction fs"
  obtains "fs = []" | ds where "fs = CHR ''.'' # ds" "ds \<noteq> []" "digits ds"
  using assms by (auto simp: fraction_def)

lemma seconds_bounds:
  assumes "ascii_digit s" "ascii_digit t" "fraction fs"
  shows "of_int (two s t) \<le> seconds_value s t fs" "seconds_value s t fs < of_int (two s t) + 1"
    "seconds_value s t fs = of_int (two s t) \<longleftrightarrow> nat_of (tl fs) = 0"
proof -
  have "digits (tl fs)"
    using assms(3) by (cases rule: fraction_cases) simp_all
  then have "nat_of (tl fs) < 10 ^ length (tl fs)"
    by (rule nat_of_less)
  then have "(of_nat (nat_of (tl fs)) :: rat) < of_nat (10 ^ length (tl fs))"
    by (simp only: of_nat_less_iff)
  then have "(of_nat (nat_of (tl fs)) :: rat) / 10 ^ length (tl fs) < 1"
    by simp
  then show "of_int (two s t) \<le> seconds_value s t fs" "seconds_value s t fs < of_int (two s t) + 1"
    "seconds_value s t fs = of_int (two s t) \<longleftrightarrow> nat_of (tl fs) = 0"
    by (simp_all add: seconds_value_def)
qed

lemma rat_SetString_digits:
  assumes "digits ds" "ds \<noteq> []"
  shows "rat_SetString ds = Some (of_nat (nat_of ds))"
    "digits es \<Longrightarrow> rat_SetString (ds @ CHR ''.'' # es) = Some (of_nat (nat_of ds) + of_nat (nat_of es) / 10 ^ length es)"
proof -
  have "str_cut ds ''.'' = None"
    by (rule str_cut_none) (simp add: digits_notin[OF assms(1)])
  then show "rat_SetString ds = Some (of_nat (nat_of ds))"
    using assms by (simp add: rat_SetString_def take_sign_digits signed_def)
  assume es: "digits es"
  have "str_cut (ds @ CHR ''.'' # es) ''.'' = Some (ds, es)"
    by (rule str_cut_char) (simp add: digits_notin[OF assms(1)])
  moreover have "take_sign (ds @ CHR ''.'' # es) = (False, ds @ CHR ''.'' # es)"
    using assms by (cases ds) (auto dest: digit_neq)
  ultimately show "rat_SetString (ds @ CHR ''.'' # es) = Some (of_nat (nat_of ds) + of_nat (nat_of es) / 10 ^ length es)"
    using assms es by (simp add: rat_SetString_def signed_def nat_of_append add_divide_distrib)
qed

lemma seconds_parse:
  assumes "ascii_digit s" "ascii_digit t" "fraction fs"
  shows "rat_SetString ([s, t] @ fs) = Some (seconds_value s t fs)"
proof -
  have two: "(of_nat (nat_of [s, t]) :: rat) = of_int (two s t)"
    using nat_of_two[OF assms(1,2)] by (metis of_int_of_nat_eq)
  show ?thesis
    using assms(3)
  proof (cases rule: fraction_cases)
    case 1
    then show ?thesis
      using assms two rat_SetString_digits(1)[of "[s, t]"] by (simp add: seconds_value_def)
  next
    case (2 ds)
    then show ?thesis
      using assms two rat_SetString_digits(2)[of "[s, t]" ds] by (simp add: seconds_value_def)
  qed
qed

lemma tz_text_start: "z \<noteq> NoTZ \<Longrightarrow> tz_text z \<noteq> [] \<and> \<not> ascii_digit (hd (tz_text z)) \<and> hd (tz_text z) \<noteq> CHR ''.''"
  by (cases z) auto

lemma takeWhile_seconds:
  assumes "ascii_digit s" "ascii_digit t" "fraction fs"
  shows "takeWhile (\<lambda>c. ascii_digit c \<or> c = CHR ''.'') ([s, t] @ fs @ tz_text z) = [s, t] @ fs"
proof -
  have "\<forall>c\<in>set ([s, t] @ fs). ascii_digit c \<or> c = CHR ''.''"
    using assms by (auto elim!: fraction_cases simp: digits_set)
  moreover have "takeWhile (\<lambda>c. ascii_digit c \<or> c = CHR ''.'') (tz_text z) = []"
    using tz_text_start[of z] by (cases "tz_text z"; cases "z = NoTZ") auto
  ultimately show ?thesis
    using takeWhile_append2[of "[s, t] @ fs" "\<lambda>c. ascii_digit c \<or> c = CHR ''.''" "tz_text z"] by (simp only: append_assoc append_Nil2)
qed

lemma parseTimeFields_text:
  assumes "digits [h, i, m, n, s, t]" "fraction fs"
  shows "parseTimeFields (time_text h i m n s t fs @ tz_text z) = Some (two h i, two m n, seconds_value s t fs, tz_text z)"
proof -
  have d: "ascii_digit h" "ascii_digit i" "ascii_digit m" "ascii_digit n" "ascii_digit s" "ascii_digit t"
    using assms(1) by simp_all
  have "drop 6 (time_text h i m n s t fs @ tz_text z) = [s, t] @ fs @ tz_text z"
    by (simp add: time_text_def)
  moreover have "drop (length ([s, t] @ fs)) ([s, t] @ fs @ tz_text z) = tz_text z"
    by simp
  ultimately show ?thesis
    using d takeWhile_seconds[OF d(5,6) assms(2), of z] seconds_parse[OF d(5,6) assms(2)]
    unfolding parseTimeFields_def Let_def by (simp add: time_text_def slice_def del: append_Cons append_Nil)
      (simp add: time_text_def slice_def)
qed

text \<open>The range of a time of day.\<close>

definition time_ok :: "int \<Rightarrow> int \<Rightarrow> rat \<Rightarrow> bool" where
  "time_ok h m s \<longleftrightarrow> 0 \<le> h \<and> h \<le> 24 \<and> 0 \<le> m \<and> m < 60 \<and> 0 \<le> s \<and> s < 60 \<and> (h = 24 \<longrightarrow> m = 0 \<and> s = 0)"

lemma plain_end_time:
  assumes "digits [h, i, m, n, s, t]" "fraction fs"
  shows "plain_end (time_text h i m n s t fs)"
  using assms(2)
proof (cases rule: fraction_cases)
  case 1
  then show ?thesis
    using assms(1) by (auto simp: plain_end_def time_text_def)
next
  case (2 ds)
  then have "ascii_digit (last ds)"
    by (simp add: digits_set)
  then show ?thesis
    using assms(1) 2 digits_notin[OF 2(3)] by (auto simp: plain_end_def time_text_def)
qed

lemma fraction_cut:
  assumes "ascii_digit s" "ascii_digit t" "fraction fs"
  shows "(case str_cut ([s, t] @ fs) ''.'' of None \<Rightarrow> ([s, t] @ fs, []) | Some p \<Rightarrow> p) = ([s, t], tl fs)"
  using assms(3)
proof (cases rule: fraction_cases)
  case 1
  then show ?thesis
    using str_cut_none[of "CHR ''.''" "[s, t]"] digits_notin[of "[s, t]" "CHR ''.''"] assms by simp
next
  case (2 ds)
  then show ?thesis
    using str_cut_char[of "CHR ''.''" "[s, t]" ds] digits_notin[of "[s, t]" "CHR ''.''"] assms by simp
qed

lemma validateTimeComponents_text:
  assumes d: "digits [h, i, m, n, s, t]" and fs: "fraction fs" and z: "tz_digits z"
  shows "validateTimeComponents (time_text h i m n s t fs @ tz_text z) = None \<longleftrightarrow>
    tz_range z \<and> time_ok (two h i) (two m n) (seconds_value s t fs)"
proof -
  let ?v = "time_text h i m n s t fs @ tz_text z"
  have dg: "ascii_digit h" "ascii_digit i" "ascii_digit m" "ascii_digit n" "ascii_digit s" "ascii_digit t"
    using d by simp_all
  have split: "splitTimezone ?v = (if z = NoTZ then None else Some (tz_text z))"
    by (rule splitTimezone_text[OF plain_end_time[OF d fs] z])
  have only: "(case splitTimezone ?v of None \<Rightarrow> ?v | Some y \<Rightarrow> take (length ?v - length y) ?v) =
      [h, i] @ CHR '':'' # [m, n] @ CHR '':'' # [s, t] @ fs"
  proof -
    have "(case splitTimezone ?v of None \<Rightarrow> ?v | Some y \<Rightarrow> take (length ?v - length y) ?v) = time_text h i m n s t fs"
      unfolding split by (cases "z = NoTZ") simp_all
    then show ?thesis
      by (simp only: time_text_def) simp
  qed
  have tz: "(case splitTimezone ?v of None \<Rightarrow> None | Some y \<Rightarrow> validateTimezone y) = None \<longleftrightarrow> tz_range z"
    using validateTimezone_text[OF z] by (auto simp: split)
  have cut1: "str_cut ([h, i] @ CHR '':'' # [m, n] @ CHR '':'' # [s, t] @ fs) '':'' = Some ([h, i], [m, n] @ CHR '':'' # [s, t] @ fs)"
    by (rule str_cut_char) (use digits_notin[of "[h, i]" "CHR '':''"] dg in simp)
  have cut2: "str_cut ([m, n] @ CHR '':'' # [s, t] @ fs) '':'' = Some ([m, n], [s, t] @ fs)"
    by (rule str_cut_char) (use digits_notin[of "[m, n]" "CHR '':''"] dg in simp)
  have zero: "isZeroFraction (tl fs) \<longleftrightarrow> seconds_value s t fs = of_int (two s t)"
    using fs trim_zeros seconds_bounds(3)[OF dg(5,6) fs] by (auto simp: isZeroFraction_def elim!: fraction_cases)
  have b: "0 \<le> two h i" "0 \<le> two m n" "0 \<le> two s t"
    using two_bounds dg by blast+
  have sec: "seconds_value s t fs < 60 \<longleftrightarrow> two s t \<le> 59" "0 \<le> seconds_value s t fs"
    using seconds_bounds(1,2)[OF dg(5,6) fs] b(3)
    by (auto simp: not_le)
  have eq0: "seconds_value s t fs = 0 \<longleftrightarrow> two s t = 0 \<and> isZeroFraction (tl fs)"
    using zero seconds_bounds(1)[OF dg(5,6) fs] b(3) by auto
  show ?thesis
    using tz b sec eq0
    unfolding validateTimeComponents_def Let_def only cut1 option.case prod.case cut2 fraction_cut[OF dg(5,6) fs]
      sscanf_two[OF dg(1,2)] sscanf_two[OF dg(3,4)] sscanf_two[OF dg(5,6)] time_ok_def
    by (auto split: option.splits)
qed

subsection \<open>Validated dates and times parse\<close>

definition admitted :: "xsdDateTime \<Rightarrow> bool" where
  "admitted dt \<longleftrightarrow> lexical_range dt \<and> \<bar>tzMin dt\<bar> \<le> 840"

lemma parseTZ_Nil [simp]: "parseTZ [] = (False, 0)"
  by (simp add: parseTZ_def)

lemma admittedI:
  assumes "date_ok y mo d" "time_ok h mi x" "tz_digits z" "tz_range z"
  shows "admitted (withTZ (tz_text z) (zeroDateTime\<lparr>year := Some y, month := mo, day := d, hour := h, minutes := mi, sec := Some x\<rparr>))"
  using assms tz_minutes_range[of z]
  by (cases "z = NoTZ")
    (auto simp: admitted_def lexical_range_def withTZ_def parseTZ_text zeroDateTime_def yearVal_def secVal_def time_ok_def)

lemma dateTime_valid:
  assumes "validateDateTime v ver = None"
  obtains dt where "parseXSDDateTime v = Some dt" "admitted dt"
proof -
  have m: "v \<in> rlang dateTimeRegex"
    using assms by (auto simp: validateDateTime_def matches_iff split: if_splits)
  then obtain u x z where v: "v = u @ ''T'' @ x @ tz_text z" "u \<in> rlang dateFrag" "x \<in> rlang timeFrag" "tz_digits z"
    unfolding dateTimeRegex_def in_Cat in_Lit in_tzSuffix by auto
  obtain neg ys mo n d e where u: "u = date_text neg ys mo n d e" "date_digits ys mo n d e"
    using in_dateFrag[OF v(2)] .
  obtain h i mi k s t fs where x: "x = time_text h i mi k s t fs" "digits [h, i, mi, k, s, t]" "fraction fs"
    using in_timeFrag[OF v(3)] .
  have ds: "digits ys" "ys \<noteq> []" "4 \<le> length ys" "ascii_digit mo" "ascii_digit n" "ascii_digit d" "ascii_digit e"
    using u(2) by (auto simp: date_digits_def)
  have noT: "CHR ''T'' \<notin> set u" "CHR ''T'' \<notin> set (ys @ [CHR ''-'', mo, n, CHR ''-'', d, e])"
    using digits_notin[OF ds(1), of "CHR ''T''"] digits_notin[of "[mo, n, d, e]" "CHR ''T''"] ds
    by (auto simp: u(1) date_text_def year_text_def)
  have "v = u @ CHR ''T'' # x @ tz_text z"
    using v(1) by simp
  then have cutv: "str_cut v ''T'' = Some (u, x @ tz_text z)"
    using str_cut_char[OF noT(1)] by simp
  have valid: "validateDateComponents (date_text neg ys mo n d e @ ''T'' @ x @ tz_text z) ver = None" "validateTimeComponents (x @ tz_text z) = None"
    using assms v(1) u(1) cutv by (auto simp: validateDateTime_def split: if_splits option.splits)
  have range: "date_ok (year_value neg ys) (two mo n) (two d e)" "time_ok (two h i) (two mi k) (seconds_value s t fs)" "tz_range z"
    using valid(1) unfolding validateDateComponents_text[OF u(2)] apply simp
    using valid(2) unfolding x(1) validateTimeComponents_text[OF x(2,3) v(4)] by simp_all
  have tm: "takeMinus v = (neg, (ys @ [CHR ''-'', mo, n, CHR ''-'', d, e]) @ CHR ''T'' # x @ tz_text z)"
    using takeMinus_year[OF ds(1,3), of neg] v(1) u(1) by (simp add: date_text_def)
  have cut: "str_cut ((ys @ [CHR ''-'', mo, n, CHR ''-'', d, e]) @ CHR ''T'' # x @ tz_text z) ''T'' =
      Some (ys @ [CHR ''-'', mo, n, CHR ''-'', d, e], x @ tz_text z)"
    by (rule str_cut_char[OF noT(2)])
  have cut1: "str_cut (ys @ [CHR ''-'', mo, n, CHR ''-'', d, e]) ''-'' = Some (ys, [mo, n, CHR ''-'', d, e])"
    using str_cut_char[OF digits_notin[OF ds(1)], of "CHR ''-''" "[mo, n, CHR ''-'', d, e]"] by simp
  have cut2: "str_cut [mo, n, CHR ''-'', d, e] ''-'' = Some ([mo, n], [d, e])"
    using str_cut_char[OF digits_notin[of "[mo, n]"], of "CHR ''-''" "[d, e]"] ds by simp
  have split: "split_n CHR ''-'' 3 (ys @ [CHR ''-'', mo, n, CHR ''-'', d, e]) = [ys, [mo, n], [d, e]]"
    by (simp add: numeral_3_eq_3 cut1 cut2)
  have "parseXSDDateTime v = Some (withTZ (tz_text z) (zeroDateTime\<lparr>year := Some (year_value neg ys), month := two mo n,
      day := two d e, hour := two h i, minutes := two mi k, sec := Some (seconds_value s t fs)\<rparr>))"
    using ds parseTimeFields_text[OF x(2,3), of z] x(1)
    by (simp add: parseXSDDateTime_def tm[unfolded x(1)] cut[unfolded x(1)] split parseYearBig_digits parseTimeInto_def del: append_assoc)
  then show thesis
    by (rule that) (rule admittedI[OF range(1,2) v(4) range(3)])
qed

lemma date_valid:
  assumes "validateDate v ver = None"
  obtains dt where "parseXSDDate v = Some dt" "admitted dt"
proof -
  have m: "v \<in> rlang dateRegex"
    using assms by (auto simp: validateDate_def matches_iff split: if_splits)
  then obtain u z where v: "v = u @ tz_text z" "u \<in> rlang dateFrag" "tz_digits z"
    unfolding dateRegex_def in_Cat in_tzSuffix by auto
  obtain neg ys mo n d e where u: "u = date_text neg ys mo n d e" "date_digits ys mo n d e"
    using in_dateFrag[OF v(2)] .
  have ds: "digits ys" "ys \<noteq> []" "4 \<le> length ys" "ascii_digit mo" "ascii_digit n" "ascii_digit d" "ascii_digit e"
    using u(2) by (auto simp: date_digits_def)
  have "plain_end u"
    using ds digits_notin[OF ds(1), of "CHR '':''"] digits_notin[of "[mo, n, d, e]" "CHR '':''"]
    by (auto simp: plain_end_def u(1) date_text_def year_text_def)
  then have split: "splitTimezone v = (if z = NoTZ then None else Some (tz_text z))"
    using splitTimezone_text v(1,3) by simp
  have "validateDateComponents v ver = None" "z \<noteq> NoTZ \<Longrightarrow> validateTimezone (tz_text z) = None"
    using assms by (auto simp: validateDate_def split split: if_splits option.splits)
  then have range: "date_ok (year_value neg ys) (two mo n) (two d e)" "tz_range z"
    unfolding v(1) u(1) validateDateComponents_text[OF u(2)] using validateTimezone_text[OF v(3)] by (cases "z = NoTZ"; simp)+
  have tm: "takeMinus v = (neg, ys @ CHR ''-'' # [mo, n, CHR ''-'', d, e] @ tz_text z)"
    using takeMinus_year[OF ds(1,3), of neg] v(1) u(1) by (simp add: date_text_def)
  have idx: "index_of (ys @ CHR ''-'' # [mo, n, CHR ''-'', d, e] @ tz_text z) ''-'' = Some (length ys)"
    by (rule index_of_char) (simp add: digits_notin[OF ds(1)])
  have "parseXSDDate v = Some (withTZ (tz_text z) (zeroDateTime\<lparr>year := Some (year_value neg ys), month := two mo n, day := two d e\<rparr>))"
    using ds idx by (simp add: parseXSDDate_def tm parseYearBig_digits slice_def)
  moreover have "admitted (withTZ (tz_text z) (zeroDateTime\<lparr>year := Some (year_value neg ys), month := two mo n, day := two d e\<rparr>))"
    using range v(3) tz_minutes_range[of z] by (cases "z = NoTZ")
      (auto simp: admitted_def lexical_range_def withTZ_def parseTZ_text zeroDateTime_def yearVal_def secVal_def)
  ultimately show thesis
    by (rule that)
qed

lemma time_valid:
  assumes "validateTime v = None"
  obtains dt where "parseXSDTime v = Some dt" "admitted (referenceDay dt)" "day dt = 0"
proof -
  have m: "v \<in> rlang timeRegex"
    using assms by (auto simp: validateTime_def matches_iff split: if_splits)
  then obtain x z where v: "v = x @ tz_text z" "x \<in> rlang timeFrag" "tz_digits z"
    unfolding timeRegex_def in_Cat in_tzSuffix by auto
  obtain h i mi k s t fs where x: "x = time_text h i mi k s t fs" "digits [h, i, mi, k, s, t]" "fraction fs"
    using in_timeFrag[OF v(2)] .
  have range: "time_ok (two h i) (two mi k) (seconds_value s t fs)" "tz_range z"
    using assms validateTimeComponents_text[OF x(2,3) v(3)] v(1) x(1) by (auto simp: validateTime_def split: if_splits)
  let ?dt = "withTZ (tz_text z) (zeroDateTime\<lparr>hour := two h i, minutes := two mi k, sec := Some (seconds_value s t fs)\<rparr>)"
  have p: "parseXSDTime v = Some ?dt"
    using parseTimeFields_text[OF x(2,3), of z] v(1) x(1) by (simp add: parseXSDTime_def parseTimeInto_def)
  have "date_ok 2000 1 15"
    by (simp add: date_ok_def daysInMonth_def)
  then have "admitted (referenceDay ?dt)"
    using range v(3) tz_minutes_range[of z] by (cases "z = NoTZ")
      (auto simp: referenceDay_def admitted_def lexical_range_def withTZ_def parseTZ_text zeroDateTime_def yearVal_def secVal_def time_ok_def)
  then show thesis
    using that[OF p] by (simp add: withTZ_def zeroDateTime_def)
qed

end
