(* ===== verification/XsdOrder.thy ===== *)
theory XsdOrder
  imports XsdLexical "HOL-Library.List_Lexorder"
begin

text \<open>
  What \<open>Compare\<close> and \<open>CanonicalKey\<close> promise together: on a value space, \<open>Compare\<close> is the
  order of the values and two lexical forms have the same key exactly when they have the same value.
  The locale states this interface and derives the laws its clients (facets, enumerations,
  identity constraints) rely on; it is interpreted by the decimal family, booleans, binary data and
  the date/time types.  Durations are ordered only partially.
\<close>

subsection \<open>Value spaces\<close>

locale value_space =
  fixes types :: "string set"
    and valid :: "string \<Rightarrow> string \<Rightarrow> bool"
    and val :: "string \<Rightarrow> string \<Rightarrow> 'v::linorder"
    and fmt :: "bool \<Rightarrow> rat \<Rightarrow> string"
  assumes Compare_val: "t \<in> types \<Longrightarrow> valid t a \<Longrightarrow> valid t b \<Longrightarrow> Compare a b t = (cmp (val t a) (val t b), True)"
    and key_defined: "t \<in> types \<Longrightarrow> valid t a \<Longrightarrow> snd (CanonicalKey fmt a t)"
    and key_val: "t \<in> types \<Longrightarrow> valid t a \<Longrightarrow> valid t b \<Longrightarrow>
      fst (CanonicalKey fmt a t) = fst (CanonicalKey fmt b t) \<longleftrightarrow> val t a = val t b"
begin

lemma Compare_key:
  assumes "t \<in> types" "valid t a" "valid t b"
  shows "Compare a b t = (0, True) \<longleftrightarrow> CanonicalKey fmt a t = CanonicalKey fmt b t"
  using Compare_val[OF assms] key_val[OF assms] key_defined[OF assms(1,2)] key_defined[OF assms(1,3)]
  by (cases "CanonicalKey fmt a t"; cases "CanonicalKey fmt b t") simp

lemma Compare_swap:
  assumes "t \<in> types" "valid t a" "valid t b"
  shows "Compare b a t = (- fst (Compare a b t), True)"
  using Compare_val[OF assms] Compare_val[OF assms(1,3,2)] cmp_swap[of "val t b" "val t a"] by simp

lemma Compare_defined:
  assumes "t \<in> types" "valid t a" "valid t b"
  shows "snd (Compare a b t)"
  using Compare_val[OF assms] by simp

lemma Compare_trans:
  assumes "t \<in> types" "valid t a" "valid t b" "valid t c" and "fst (Compare a b t) \<le> 0" "fst (Compare b c t) \<le> 0"
  shows "fst (Compare a c t) \<le> 0"
proof -
  have le: "cmp x y \<le> 0 \<longleftrightarrow> x \<le> y" for x y :: 'v
    by (auto simp: cmp_def)
  show ?thesis
    using assms(5,6) Compare_val[OF assms(1,2,3)] Compare_val[OF assms(1,3,4)] Compare_val[OF assms(1,2,4)]
    by (simp add: le)
qed

lemmas order_laws = Compare_defined Compare_swap Compare_trans

end

subsection \<open>Decimals\<close>

definition valid_lexical :: "string \<Rightarrow> string \<Rightarrow> bool" where
  "valid_lexical t s \<longleftrightarrow> ValidateBuiltin (trimXSDSpace s) t Version11 = None"

definition decimal_value :: "string \<Rightarrow> rat" where
  "decimal_value s = the (rat_SetString (trimXSDSpace s))"

lemma in_Sign: "s \<in> rlang Sign \<longleftrightarrow> s = [] \<or> s = ''+'' \<or> s = ''-''"
  unfolding Sign_def in_Opt in_Cls by auto

text \<open>The parts of a numeral: integer digits, whether there is a point, fraction digits.\<close>

lemma in_Numeral:
  "s \<in> rlang Numeral \<longleftrightarrow> (\<exists>i p f. s = i @ (if p then ''.'' else []) @ f \<and> digits i \<and> digits f \<and> i @ f \<noteq> [] \<and> (p \<or> f = []))"
proof
  assume "s \<in> rlang Numeral"
  then consider (int) i q f where "s = i @ q @ f" "i \<noteq> []" "digits i" "q = [] \<or> q = ''.''" "digits f"
    | (frac) f where "s = ''.'' @ f" "f \<noteq> []" "digits f"
    unfolding Numeral_def rlang.simps(4) Un_iff in_Cat in_Opt in_Lit in_Plus_D in_Star_D by blast
  then show "\<exists>i p f. s = i @ (if p then ''.'' else []) @ f \<and> digits i \<and> digits f \<and> i @ f \<noteq> [] \<and> (p \<or> f = [])"
  proof cases
    case int
    then show ?thesis
      by (cases "q = []") (intro exI[of _ "i @ f"] exI[of _ False] exI[of _ "[]"], simp, intro exI[of _ i] exI[of _ True] exI[of _ f], simp)
  next
    case frac
    then show ?thesis
      by (intro exI[of _ "[]"] exI[of _ True] exI[of _ f]) simp
  qed
next
  assume "\<exists>i p f. s = i @ (if p then ''.'' else []) @ f \<and> digits i \<and> digits f \<and> i @ f \<noteq> [] \<and> (p \<or> f = [])"
  then obtain i p f where s: "s = i @ (if p then ''.'' else []) @ f" "digits i" "digits f" "i @ f \<noteq> []" "p \<or> f = []"
    by blast
  show "s \<in> rlang Numeral"
  proof (cases "i = []")
    case True
    then show ?thesis
      using s unfolding Numeral_def rlang.simps(4) Un_iff in_Cat in_Opt in_Lit in_Plus_D in_Star_D by auto
  next
    case False
    moreover define w where "w = (if p then ''.'' else [])"
    ultimately have "s = i @ w @ f" "i \<noteq> []" "digits i" "w = [] \<or> w = ''.''" "digits f"
      using s by simp_all
    then show ?thesis
      unfolding Numeral_def rlang.simps(4) Un_iff in_Cat in_Opt in_Lit in_Plus_D in_Star_D singleton_iff by blast
  qed
qed

lemma take_sign_text: "g \<in> {[], ''+'', ''-''} \<Longrightarrow> s \<noteq> [] \<Longrightarrow> hd s \<noteq> CHR ''-'' \<Longrightarrow> hd s \<noteq> CHR ''+'' \<Longrightarrow> take_sign (g @ s) = (g = ''-'', s)"
  by (cases s) auto

lemma rat_SetString_text:
  assumes "g \<in> {[], ''+'', ''-''}" "digits i" "digits f" "i @ f \<noteq> []" "p \<or> f = []"
  shows "rat_SetString (g @ i @ (if p then ''.'' else []) @ f) = Some (signed (g = ''-'') (of_nat (nat_of (i @ f)) / 10 ^ length f))"
proof -
  let ?s = "i @ (if p then ''.'' else []) @ f"
  have ne: "?s \<noteq> []" "hd ?s \<noteq> CHR ''-''" "hd ?s \<noteq> CHR ''+''"
    using assms by (cases i; auto split: if_splits)+
  have no: "CHR ''.'' \<notin> set i"
    by (simp add: digits_notin[OF assms(2)])
  have "(case str_cut ?s ''.'' of None \<Rightarrow> (?s, []) | Some q \<Rightarrow> q) = (i, f)"
    using str_cut_char[OF no, of f] str_cut_none[OF no] assms(5) by (cases p) auto
  then show ?thesis
    using assms take_sign_text[OF assms(1) ne] unfolding rat_SetString_def Let_def by simp
qed

lemma decimal_parse:
  assumes "s \<in> rlang decimalRegex"
  obtains g i p f where "s = g @ i @ (if p then ''.'' else []) @ f" "g \<in> {[], ''+'', ''-''}" "digits i" "digits f" "i @ f \<noteq> []" "p \<or> f = []"
    "rat_SetString s = Some (signed (g = ''-'') (of_nat (nat_of (i @ f)) / 10 ^ length f))"
proof -
  from assms obtain g i p f where s: "s = g @ i @ (if p then ''.'' else []) @ f" "g \<in> {[], ''+'', ''-''}" "digits i" "digits f" "i @ f \<noteq> []" "p \<or> f = []"
    unfolding decimalRegex_def in_Cat in_Sign in_Numeral by blast
  show thesis
    by (rule that[OF s]) (simp only: s(1) rat_SetString_text[OF s(2-6)])
qed

lemma integer_decimal: "s \<in> rlang integerRegex \<Longrightarrow> s \<in> rlang decimalRegex"
proof -
  assume "s \<in> rlang integerRegex"
  then obtain g d where s: "s = g @ d" "g \<in> rlang Sign" "d \<noteq> []" "digits d"
    unfolding integerRegex_def in_Cat in_Plus_D by blast
  have "d \<in> rlang Numeral"
    unfolding in_Numeral using s(3,4) by (intro exI[of _ d] exI[of _ False] exI[of _ "[]"]) simp
  then show ?thesis
    using s unfolding decimalRegex_def in_Cat by blast
qed

lemma ValidateBuiltin_numeric:
  assumes "t \<in> set numericComparableTypes"
  shows "ValidateBuiltin s t ver = (if t = ''decimal'' then validateDecimal s else if t = ''integer'' then validateInteger s
    else validateIntegerWithRange s t)"
  using assms unfolding numericComparableTypes_def by (simp; elim disjE; simp add: ValidateBuiltin_def)

lemma integer_range_lexical: "validateIntegerWithRange s t = None \<Longrightarrow> s \<in> rlang integerRegex"
  by (auto simp: validateIntegerWithRange_def validateInteger_def matches_iff split: option.splits if_splits)

lemma valid_decimal_parse:
  assumes "t \<in> set numericComparableTypes" "ValidateBuiltin s t Version11 = None"
  shows "s \<in> rlang decimalRegex" "rat_SetString s \<noteq> None"
proof -
  have "s \<in> rlang decimalRegex \<or> s \<in> rlang integerRegex"
    using assms(2) integer_range_lexical[of s t] unfolding ValidateBuiltin_numeric[OF assms(1)]
    by (simp add: validateDecimal_def validateInteger_def matches_iff split: if_splits)
  then show "s \<in> rlang decimalRegex"
    using integer_decimal by blast
  then show "rat_SetString s \<noteq> None"
    by (rule decimal_parse) simp
qed

lemma numeric_dispatch:
  assumes "t \<in> set numericComparableTypes"
  shows "Compare a b t = (if \<not> validBuiltinOperands a b t then (0, False)
      else let c = CompareDecimal (trimXSDSpace a) (trimXSDSpace b) in if c = -2 then (0, False) else (c, True))"
    "CanonicalKey fmt a t = (if ValidateBuiltin (trimXSDSpace a) t Version11 \<noteq> None then (trimXSDSpace a, False)
         else case rat_SetString (trimXSDSpace a) of None \<Rightarrow> (trimXSDSpace a, False) | Some r \<Rightarrow> (RatString r, True))"
  using assms unfolding numericComparableTypes_def by (simp; elim disjE; simp add: Compare_def CanonicalKey_def numericComparableTypes_def Let_def)+

interpretation decimals: value_space "set numericComparableTypes" valid_lexical "\<lambda>t. decimal_value" fmt for fmt
proof unfold_locales
  fix t a b
  assume t: "t \<in> set numericComparableTypes" and a: "valid_lexical t a"
  from valid_decimal_parse(2)[OF t] a obtain x where x: "rat_SetString (trimXSDSpace a) = Some x"
    by (auto simp: valid_lexical_def)
  show "snd (CanonicalKey fmt a t)"
    using a x by (simp add: numeric_dispatch[OF t] valid_lexical_def)
  assume b: "valid_lexical t b"
  from valid_decimal_parse(2)[OF t] b obtain y where y: "rat_SetString (trimXSDSpace b) = Some y"
    by (auto simp: valid_lexical_def)
  show "Compare a b t = (cmp (decimal_value a) (decimal_value b), True)"
    using a b x y by (auto simp: numeric_dispatch[OF t] valid_lexical_def validBuiltinOperands_def CompareDecimal_def decimal_value_def cmp_def)
  show "fst (CanonicalKey fmt a t) = fst (CanonicalKey fmt b t) \<longleftrightarrow> decimal_value a = decimal_value b"
    using a b x y by (simp add: numeric_dispatch[OF t] valid_lexical_def decimal_value_def)
qed

subsection \<open>Booleans and binary data\<close>

definition boolean_value :: "string \<Rightarrow> bool" where
  "boolean_value s = the (parseXSDBoolean (trimXSDSpace s))"

definition hex_bytes :: "string \<Rightarrow> nat list" where
  "hex_bytes s = map byte (the (hex_decode (trimXSDSpace s)))"

definition base64_bytes :: "string \<Rightarrow> nat list" where
  "base64_bytes s = map byte (the (decodeBase64Binary (trimXSDSpace s)))"

lemma valid_boolean_cases: "valid_lexical ''boolean'' s \<Longrightarrow> trimXSDSpace s \<in> {''true'', ''false'', ''1'', ''0''}"
  by (simp add: valid_lexical_def ValidateBuiltin_def validateBoolean_def split: if_splits)

interpretation booleans: value_space "{''boolean''}" valid_lexical "\<lambda>t. boolean_value" fmt for fmt
proof unfold_locales
  fix t a b
  assume t: "t \<in> {''boolean''}" and a: "valid_lexical t a"
  then have a': "trimXSDSpace a \<in> {''true'', ''false'', ''1'', ''0''}" "ValidateBuiltin (trimXSDSpace a) ''boolean'' Version11 = None"
    using valid_boolean_cases by (auto simp: valid_lexical_def)
  show "snd (CanonicalKey fmt a t)"
    using t a' by (auto simp: CanonicalKey_def Let_def)
  assume b: "valid_lexical t b"
  then have b': "trimXSDSpace b \<in> {''true'', ''false'', ''1'', ''0''}" "ValidateBuiltin (trimXSDSpace b) ''boolean'' Version11 = None"
    using valid_boolean_cases t by (auto simp: valid_lexical_def)
  show "Compare a b t = (cmp (boolean_value a) (boolean_value b), True)"
    using t a' b' by (auto simp: Compare_def compareBoolean_def validBuiltinOperands_def parseXSDBoolean_def boolean_value_def cmp_def)
  show "fst (CanonicalKey fmt a t) = fst (CanonicalKey fmt b t) \<longleftrightarrow> boolean_value a = boolean_value b"
    using t a' b' by (auto simp: CanonicalKey_def Let_def parseXSDBoolean_def boolean_value_def)
qed

text \<open>The order of \<open>bytes.Compare\<close> is the lexicographic order of the bytes.\<close>

lemma bytes_compare_cmp: "bytes_compare a b = cmp (map byte a) (map byte b)"
proof (induction a b rule: bytes_compare.induct)
  case (4 x a y b)
  then show ?case
    by (cases "byte x" "byte y" rule: linorder_cases) (auto simp: cmp_def split: if_splits)
qed (auto simp: cmp_def)

lemma hex_digit_inject: "m < 16 \<Longrightarrow> n < 16 \<Longrightarrow> hex_digit m = hex_digit n \<longleftrightarrow> m = n"
proof
  assume "m < 16" "n < 16" "hex_digit m = hex_digit n"
  then have "byte (hex_digit m) = byte (hex_digit n)"
    by simp
  then show "m = n"
    using \<open>m < 16\<close> \<open>n < 16\<close> by (auto simp: hex_digit_def split: if_splits)
qed simp

lemma hex_encode_inject [simp]: "hex_encode s = hex_encode u \<longleftrightarrow> s = u"
proof
  show "hex_encode s = hex_encode u \<Longrightarrow> s = u"
  proof (induction s arbitrary: u)
    case Nil
    then show ?case
      by (cases u) (auto simp: hex_encode_def)
  next
    case (Cons c s)
    then obtain d v where u: "u = d # v"
      by (cases u) (auto simp: hex_encode_def)
    have small: "byte x div 16 < 16" "byte x mod 16 < 16" for x
      using byte_less[of x] by linarith+
    have "byte c div 16 = byte d div 16" "byte c mod 16 = byte d mod 16" "hex_encode s = hex_encode v"
      using Cons.prems u small by (auto simp: hex_encode_def hex_digit_inject)
    then show ?case
      using Cons.IH u by (metis byte_inject div_mult_mod_eq)
  qed
qed simp

lemma hex_value_class: "c \<in> set ''0123456789abcdefABCDEF'' \<Longrightarrow> hex_value c \<noteq> None"
  unfolding set_bytes by (auto simp: hex_value_def Let_def)

lemma hex_decode_valid: "s \<in> rlang hexBinaryRegex \<Longrightarrow> hex_decode s \<noteq> None"
proof -
  assume "s \<in> rlang hexBinaryRegex"
  then have "s \<in> repeated (rlang (Times 2 (Cls ''0123456789abcdefABCDEF'')))"
    by (simp only: hexBinaryRegex_def rlang.simps)
  then show ?thesis
  proof induction
    case (more u v)
    from more(1) obtain c d where "u = [c, d]" "c \<in> set ''0123456789abcdefABCDEF''" "d \<in> set ''0123456789abcdefABCDEF''"
      unfolding in_Times_Cls numeral_2_eq_2 length_Suc_conv length_0_conv by (elim conjE exE) (simp only: list.set insert_subset)
    moreover from this have "hex_value c \<noteq> None" "hex_value d \<noteq> None"
      using hex_value_class by blast+
    ultimately show ?case
      using more(3) by (auto simp del: set_simps)
  qed simp
qed

interpretation hexBinaries: value_space "{''hexBinary''}" valid_lexical "\<lambda>t. hex_bytes" fmt for fmt
proof unfold_locales
  have dec: "\<exists>x. hex_decode (trimXSDSpace s) = Some x \<and> ValidateBuiltin (trimXSDSpace s) ''hexBinary'' Version11 = None"
    if "valid_lexical ''hexBinary'' s" for s
    using that hex_decode_valid[of "trimXSDSpace s"]
    by (auto simp: valid_lexical_def ValidateBuiltin_def validateHexBinary_def matches_iff split: if_splits)
  fix t a b
  assume t: "t \<in> {''hexBinary''}" and a: "valid_lexical t a"
  then obtain x where x: "hex_decode (trimXSDSpace a) = Some x" "ValidateBuiltin (trimXSDSpace a) ''hexBinary'' Version11 = None"
    using dec by auto
  show "snd (CanonicalKey fmt a t)"
    using t x by (simp add: CanonicalKey_def Let_def)
  assume b: "valid_lexical t b"
  then obtain y where y: "hex_decode (trimXSDSpace b) = Some y" "ValidateBuiltin (trimXSDSpace b) ''hexBinary'' Version11 = None"
    using t dec by auto
  show "Compare a b t = (cmp (hex_bytes a) (hex_bytes b), True)"
    using t x y by (simp add: Compare_def compareHexBinary_def validBuiltinOperands_def hex_bytes_def bytes_compare_cmp)
  show "fst (CanonicalKey fmt a t) = fst (CanonicalKey fmt b t) \<longleftrightarrow> hex_bytes a = hex_bytes b"
    using t x y by (simp add: CanonicalKey_def Let_def hex_bytes_def inj_map_eq_map inj_def)
qed

lemma str_map_ascii:
  assumes "\<forall>c\<in>set s. byte c < 128"
  shows "str_map f s = concat (map (\<lambda>c. case f (byte c) of None \<Rightarrow> [] | Some q \<Rightarrow> encode_rune q) s)"
  using assms unfolding str_map_def by (induction s) simp_all

lemma encode_rune_ascii: "byte c < 128 \<Longrightarrow> encode_rune (byte c) = [c]"
  by (simp add: encode_rune_def)

lemma base64_class: "s \<in> rlang base64Regex \<Longrightarrow> c \<in> set s \<Longrightarrow> byte c < 128"
proof -
  assume "s \<in> rlang base64Regex" "c \<in> set s"
  then have "c \<in> set (Alpha @ ''0123456789+/= '' @ [CHR 0x09, CHR 0x0D, CHR 0x0A])"
    unfolding base64Regex_def in_Star_Cls by (rule subsetD)
  then have "byte c \<in> set (map byte (Alpha @ ''0123456789+/= '' @ [CHR 0x09, CHR 0x0D, CHR 0x0A]))"
    by (simp only: set_bytes)
  moreover have "list_all (\<lambda>n. n < 128) (map byte (Alpha @ ''0123456789+/= '' @ [CHR 0x09, CHR 0x0D, CHR 0x0A]))"
    by (simp add: Alpha_def)
  ultimately show ?thesis
    by (simp only: list_all_iff)
qed

lemma decodeBase64_filter:
  assumes "s \<in> rlang base64Regex"
  shows "decodeBase64Binary s = base64_decode (filter (\<lambda>c. c \<notin> set xsdWhitespace) s)"
proof -
  have a: "\<forall>c\<in>set s. byte c < 128"
    using base64_class[OF assms] by blast
  have w: "c \<in> set xsdWhitespace \<longleftrightarrow> byte c = 32 \<or> byte c = 10 \<or> byte c = 13 \<or> byte c = 9" for c
    unfolding set_bytes xsdWhitespace_def by auto
  have "str_map (\<lambda>r. if r = 32 \<or> r = 10 \<or> r = 13 \<or> r = 9 then None else Some r) s = filter (\<lambda>c. c \<notin> set xsdWhitespace) s"
    unfolding str_map_ascii[OF a] w using a by (induction s) (simp_all add: encode_rune_ascii)
  then show ?thesis
    by (simp add: decodeBase64Binary_def)
qed

interpretation base64Binaries: value_space "{''base64Binary''}" valid_lexical "\<lambda>t. base64_bytes" fmt for fmt
proof unfold_locales
  have dec: "\<exists>x. decodeBase64Binary (trimXSDSpace s) = Some x \<and> ValidateBuiltin (trimXSDSpace s) ''base64Binary'' Version11 = None"
    if "valid_lexical ''base64Binary'' s" for s
    using that decodeBase64_filter[of "trimXSDSpace s"]
    by (auto simp: valid_lexical_def ValidateBuiltin_def validateBase64Binary_def matches_iff split: if_splits option.splits)
  fix t a b
  assume t: "t \<in> {''base64Binary''}" and a: "valid_lexical t a"
  then obtain x where x: "decodeBase64Binary (trimXSDSpace a) = Some x" "ValidateBuiltin (trimXSDSpace a) ''base64Binary'' Version11 = None"
    using dec by auto
  show "snd (CanonicalKey fmt a t)"
    using t x by (simp add: CanonicalKey_def Let_def)
  assume b: "valid_lexical t b"
  then obtain y where y: "decodeBase64Binary (trimXSDSpace b) = Some y" "ValidateBuiltin (trimXSDSpace b) ''base64Binary'' Version11 = None"
    using t dec by auto
  show "Compare a b t = (cmp (base64_bytes a) (base64_bytes b), True)"
    using t x y by (simp add: Compare_def compareBase64Binary_def validBuiltinOperands_def base64_bytes_def bytes_compare_cmp)
  show "fst (CanonicalKey fmt a t) = fst (CanonicalKey fmt b t) \<longleftrightarrow> base64_bytes a = base64_bytes b"
    using t x y by (simp add: CanonicalKey_def Let_def base64_bytes_def inj_map_eq_map inj_def)
qed

subsection \<open>Dates and times\<close>

definition calendar_types :: "string set" where
  "calendar_types = {''dateTime'', ''dateTimeStamp'', ''date'', ''time''}"

definition lexical_type :: "string \<Rightarrow> string" where
  "lexical_type t = (if t = ''dateTimeStamp'' then ''dateTime'' else t)"

text \<open>The date/time a lexical form denotes; a time of day is put on the code's reference day.\<close>

definition denoted :: "string \<Rightarrow> string \<Rightarrow> xsdDateTime" where
  "denoted t s = the (if t = ''date'' then parseXSDDate (trimXSDSpace s)
     else if t = ''time'' then map_option (referenceDay \<circ> normalizeHour24) (parseXSDTime (trimXSDSpace s))
     else parseXSDDateTime (trimXSDSpace s))"

definition valid_calendar :: "string \<Rightarrow> string \<Rightarrow> bool" where
  "valid_calendar t s \<longleftrightarrow> valid_lexical (lexical_type t) s"

lemma referenceDay_hour24:
  assumes "admitted (referenceDay dt)" "day dt = 0"
  shows "admitted (referenceDay (normalizeHour24 dt))" "normalizeHour24 (referenceDay (normalizeHour24 dt)) = referenceDay (normalizeHour24 dt)"
proof -
  have n: "normalizeHour24 dt = (if hour dt = 24 then dt\<lparr>hour := 0\<rparr> else dt)"
    using assms(2) by (simp add: normalizeHour24_def)
  show "admitted (referenceDay (normalizeHour24 dt))"
    using assms(1) unfolding n by (auto simp: admitted_def lexical_range_def referenceDay_def yearVal_def secVal_def)
  show "normalizeHour24 (referenceDay (normalizeHour24 dt)) = referenceDay (normalizeHour24 dt)"
    unfolding n by (auto simp: normalizeHour24_def referenceDay_def)
qed

lemma calendar_cases:
  assumes "t \<in> calendar_types" "valid_calendar t s"
  obtains (dateTime) dt where "t = ''dateTime'' \<or> t = ''dateTimeStamp''" "parseXSDDateTime (trimXSDSpace s) = Some dt" "denoted t s = dt" "admitted dt"
  | (date) dt where "t = ''date''" "parseXSDDate (trimXSDSpace s) = Some dt" "denoted t s = dt" "admitted dt"
  | (time) dt where "t = ''time''" "parseXSDTime (trimXSDSpace s) = Some dt" "denoted t s = referenceDay (normalizeHour24 dt)"
      "admitted (referenceDay dt)" "day dt = 0"
proof -
  consider (1) "t = ''dateTime'' \<or> t = ''dateTimeStamp''" | (2) "t = ''date''" | (3) "t = ''time''"
    using assms(1) by (auto simp: calendar_types_def)
  then show thesis
  proof cases
    case 1
    then have "lexical_type t = ''dateTime''"
      by (auto simp: lexical_type_def)
    then have "validateDateTime (trimXSDSpace s) Version11 = None"
      using assms(2) by (simp add: valid_calendar_def valid_lexical_def ValidateBuiltin_def)
    then obtain dt where "parseXSDDateTime (trimXSDSpace s) = Some dt" "admitted dt"
      by (rule dateTime_valid)
    then show thesis
      using 1 by (intro dateTime) (auto simp: denoted_def)
  next
    case 2
    then have "validateDate (trimXSDSpace s) Version11 = None"
      using assms(2) by (simp add: valid_calendar_def valid_lexical_def lexical_type_def ValidateBuiltin_def)
    then obtain dt where "parseXSDDate (trimXSDSpace s) = Some dt" "admitted dt"
      by (rule date_valid)
    then show thesis
      using 2 by (intro date) (auto simp: denoted_def)
  next
    case 3
    then have "validateTime (trimXSDSpace s) = None"
      using assms(2) by (simp add: valid_calendar_def valid_lexical_def lexical_type_def ValidateBuiltin_def)
    then obtain dt where "parseXSDTime (trimXSDSpace s) = Some dt" "admitted (referenceDay dt)" "day dt = 0"
      by (rule time_valid)
    then show thesis
      using 3 by (intro time) (auto simp: denoted_def)
  qed
qed

lemma Compare_calendar_simps:
  "Compare a b ''dateTime'' = compareDateTime a b ''dateTime''" "Compare a b ''dateTimeStamp'' = compareDateTime a b ''dateTime''"
  "Compare a b ''date'' = compareDate a b ''date''" "Compare a b ''time'' = compareTime a b ''time''"
  by (simp_all add: Compare_def)

lemma CanonicalKey_calendar_simps:
  "CanonicalKey fmt s ''dateTime'' = canonicalDateTimeKey (trimXSDSpace s) ''dateTime''"
  "CanonicalKey fmt s ''dateTimeStamp'' = canonicalDateTimeKey (trimXSDSpace s) ''dateTime''"
  "CanonicalKey fmt s ''date'' = canonicalDateTimeKey (trimXSDSpace s) ''date''"
  "CanonicalKey fmt s ''time'' = canonicalDateTimeKey (trimXSDSpace s) ''time''"
  by (simp_all add: CanonicalKey_def Let_def)

lemma lexical_type_simps [simp]:
  "lexical_type ''dateTime'' = ''dateTime''" "lexical_type ''dateTimeStamp'' = ''dateTime''"
  "lexical_type ''date'' = ''date''" "lexical_type ''time'' = ''time''"
  by (simp_all add: lexical_type_def)

lemma denoted_admitted: "t \<in> calendar_types \<Longrightarrow> valid_calendar t s \<Longrightarrow> admitted (denoted t s)"
  by (erule (1) calendar_cases) (simp_all add: referenceDay_hour24)

lemma Compare_calendar:
  assumes "t \<in> calendar_types" "valid_calendar t a" "valid_calendar t b"
  shows "Compare a b t = compareDateTimeParsed (denoted t a) (denoted t b)"
proof -
  have v: "validDateTimeOperands (trimXSDSpace a) (trimXSDSpace b) (lexical_type t)"
    using assms(2,3) by (simp add: valid_calendar_def valid_lexical_def validDateTimeOperands_def)
  show ?thesis
    using assms(1,2)
  proof (cases rule: calendar_cases)
    case (dateTime x)
    obtain y where "parseXSDDateTime (trimXSDSpace b) = Some y" "denoted t b = y"
      using dateTime(1) by (cases rule: calendar_cases[OF assms(1,3)]) auto
    moreover have "Compare a b t = compareDateTime a b ''dateTime''" "lexical_type t = ''dateTime''"
      using dateTime(1) by (elim disjE; simp add: Compare_calendar_simps)+
    ultimately show ?thesis
      using dateTime v by (simp add: compareDateTime_def compareParsed_def Let_def)
  next
    case (date x)
    obtain y where "parseXSDDate (trimXSDSpace b) = Some y" "denoted t b = y"
      using date(1) by (cases rule: calendar_cases[OF assms(1,3)]) auto
    then show ?thesis
      using date v by (simp add: Compare_calendar_simps compareDate_def compareParsed_def Let_def)
  next
    case (time x)
    obtain y where "parseXSDTime (trimXSDSpace b) = Some y" "denoted t b = referenceDay (normalizeHour24 y)"
      using time(1) by (cases rule: calendar_cases[OF assms(1,3)]) auto
    then show ?thesis
      using time v by (simp add: Compare_calendar_simps compareTime_def Let_def)
  qed
qed

definition normalized :: "xsdDateTime \<Rightarrow> xsdDateTime" where
  "normalized dt = (if hasTZ (normalizeHour24 dt) then normalizeToUTC (normalizeHour24 dt) else normalizeHour24 dt)"

lemma key_calendar:
  assumes "t \<in> calendar_types" "valid_calendar t s"
  shows "CanonicalKey fmt s t = (dateTimeKey (normalized (denoted t s)), True)"
proof -
  have v: "ValidateBuiltin (trimXSDSpace s) (lexical_type t) Version11 = None"
    using assms(2) by (simp add: valid_calendar_def valid_lexical_def)
  show ?thesis
    using assms
  proof (cases rule: calendar_cases)
    case (dateTime x)
    then have "CanonicalKey fmt s t = canonicalDateTimeKey (trimXSDSpace s) ''dateTime''" "lexical_type t = ''dateTime''"
      by (elim disjE; simp add: CanonicalKey_calendar_simps)+
    then show ?thesis
      using v dateTime by (simp add: canonicalDateTimeKey_def normalized_def Let_def)
  next
    case date
    then show ?thesis
      using v by (simp add: CanonicalKey_calendar_simps canonicalDateTimeKey_def normalized_def Let_def)
  next
    case time
    then show ?thesis
      using v referenceDay_hour24[OF time(4,5)]
      by (simp add: CanonicalKey_calendar_simps canonicalDateTimeKey_def normalized_def Let_def)
  qed
qed

lemma dateTimeKey_inject:
  "dateTimeKey a = dateTimeKey b \<longleftrightarrow> yearVal a = yearVal b \<and> month a = month b \<and> day a = day b \<and> hour a = hour b
     \<and> minutes a = minutes b \<and> secVal a = secVal b \<and> hasTZ a = hasTZ b"
  by (simp add: dateTimeKey_def append_sep_inject show_int_no_slash(2) RatString_no_bar) (auto simp: show_bool_def)

lemma normalized_spec:
  assumes "admitted dt"
  shows "in_range (normalized dt)" "instant (normalized dt) = instant dt" "tzMin (normalized dt) = 0" "hasTZ (normalized dt) = hasTZ dt"
proof -
  have l: "lexical_range dt"
    using assms by (simp add: admitted_def)
  note h = normalizeHour24_spec[OF l]
  have "hasTZ (normalizeToUTC x) = hasTZ x" for x
    by (simp add: normalizeToUTC_def split: prod.splits)
  then show "in_range (normalized dt)" "instant (normalized dt) = instant dt" "tzMin (normalized dt) = 0" "hasTZ (normalized dt) = hasTZ dt"
    using h l normalizeToUTC_spec[of "normalizeHour24 dt"] by (auto simp: normalized_def lexical_range_def)
qed

lemma key_instant:
  assumes "admitted a" "admitted b" "hasTZ a = hasTZ b"
  shows "dateTimeKey (normalized a) = dateTimeKey (normalized b) \<longleftrightarrow> instant a = instant b"
proof -
  note na = normalized_spec[OF assms(1)] and nb = normalized_spec[OF assms(2)]
  have "compareDateTimeFields (normalized a) (normalized b) = 0 \<longleftrightarrow> dateTimeKey (normalized a) = dateTimeKey (normalized b)"
    using na(4) nb(4) assms(3) by (auto simp: compareDateTimeFields_def dateTimeKey_inject)
  moreover have "compareDateTimeFields (normalized a) (normalized b) = 0 \<longleftrightarrow> instant a = instant b"
    using compareDateTimeFields_instant[OF na(1) nb(1) na(3) nb(3)] na(2) nb(2) by simp
  ultimately show ?thesis
    by simp
qed

text \<open>With a timezone, and without one, the calendar types are value spaces.\<close>

definition valid_zone :: "bool \<Rightarrow> string \<Rightarrow> string \<Rightarrow> bool" where
  "valid_zone zoned t s \<longleftrightarrow> valid_calendar t s \<and> hasTZ (denoted t s) = zoned"

interpretation calendar: value_space calendar_types "valid_zone zoned" "\<lambda>t s. instant (denoted t s)" fmt for zoned fmt
proof unfold_locales
  fix t a b
  assume t: "t \<in> calendar_types" and a: "valid_zone zoned t a"
  then have va: "valid_calendar t a" and ad: "admitted (denoted t a)" and za: "hasTZ (denoted t a) = zoned"
    using denoted_admitted by (auto simp: valid_zone_def)
  show "snd (CanonicalKey fmt a t)"
    by (simp add: key_calendar[OF t va])
  assume b: "valid_zone zoned t b"
  then have vb: "valid_calendar t b" and bd: "admitted (denoted t b)" and zb: "hasTZ (denoted t b) = zoned"
    using t denoted_admitted by (auto simp: valid_zone_def)
  show "Compare a b t = (cmp (instant (denoted t a)) (instant (denoted t b)), True)"
    using ad bd za zb by (simp add: Compare_calendar[OF t va vb] compareDateTimeParsed_same admitted_def)
  show "fst (CanonicalKey fmt a t) = fst (CanonicalKey fmt b t) \<longleftrightarrow> instant (denoted t a) = instant (denoted t b)"
    using ad bd za zb by (simp add: key_calendar[OF t va] key_calendar[OF t vb] key_instant)
qed

end
