(* ===== verification/XsdDuration.thy ===== *)
theory XsdDuration
  imports XsdOrder
begin

text \<open>
  Durations: every validated duration parses, to the months and seconds its components say;
  \<open>xs:dayTimeDuration\<close> and \<open>xs:yearMonthDuration\<close> are totally ordered value spaces,
  \<open>xs:duration\<close> is not, and on it the keys are finer than the comparison.
\<close>

subsection \<open>Reading the components\<close>

definition adds :: "xsdDuration \<Rightarrow> int \<Rightarrow> rat \<Rightarrow> xsdDuration \<Rightarrow> bool" where
  "adds d m x d' \<longleftrightarrow> negative d' = negative d \<and> monVal d' = monVal d + m \<and> durSecVal d' = durSecVal d + x"

lemma adds_refl: "adds d 0 0 d"
  by (simp add: adds_def)

lemma adds_trans: "adds d m x d1 \<Longrightarrow> adds d1 n y d2 \<Longrightarrow> adds d (m + n) (x + y) d2"
  by (simp add: adds_def)

definition unit_text :: "char \<Rightarrow> string \<Rightarrow> string" where
  "unit_text c ds = (if ds = [] then [] else ds @ [c])"

lemma in_unitFrag: "s \<in> rlang (unitFrag c) \<longleftrightarrow> (\<exists>ds. digits ds \<and> s = unit_text c ds)"
proof -
  have "s \<in> rlang (unitFrag c) \<longleftrightarrow> s = [] \<or> (\<exists>ds. ds \<noteq> [] \<and> digits ds \<and> s = ds @ [c])"
    unfolding unitFrag_def in_Opt in_Cat in_Plus_D in_Lit by blast
  also have "\<dots> \<longleftrightarrow> (\<exists>ds. digits ds \<and> s = unit_text c ds)"
    unfolding unit_text_def by (metis digits_simps(1))
  finally show ?thesis .
qed

lemma numChar_digits: "digits ds \<Longrightarrow> \<forall>c\<in>set ds. numChar c"
  by (simp add: digits_set numChar_def)

lemma loop_component:
  assumes "\<forall>c\<in>set num. numChar c" "num \<noteq> []" "\<not> numChar c" "hd num \<noteq> CHR ''T''"
  defines "d0 \<equiv> \<lambda>d. d\<lparr>months := Some (monVal d), seconds := Some (durSecVal d)\<rparr>"
  shows "duration_loop inTime d (num @ c # r) =
    (case (if \<not> inTime then dateComponent c num (d0 d) else timeComponent c num (d0 d)) of
       None \<Rightarrow> None | Some d' \<Rightarrow> duration_loop inTime d' r)"
proof -
  have t: "takeWhile numChar (num @ c # r) = num" "dropWhile numChar (num @ c # r) = c # r"
    using assms(1,3) by (simp_all add: takeWhile_append2 dropWhile_append2)
  have h: "hd (num @ c # r) = hd num"
    using assms(2) by simp
  show ?thesis
    using assms(2,4) by (subst duration_loop.simps) (simp add: t h d0_def Let_def cong: option.case_cong)
qed

lemma numChar_T [simp]: "\<not> numChar CHR ''T''" "\<not> numChar CHR ''Y''" "\<not> numChar CHR ''M''" "\<not> numChar CHR ''D''"
  "\<not> numChar CHR ''H''" "\<not> numChar CHR ''S''"
  by (simp_all add: numChar_def ascii_digit_def)

lemma hd_num: "\<forall>c\<in>set num. numChar c \<Longrightarrow> num \<noteq> [] \<Longrightarrow> hd num \<noteq> CHR ''T''"
  by (metis hd_in_set numChar_T(1))

lemma component_adds:
  "monVal (d\<lparr>months := Some (monVal d), seconds := Some (durSecVal d)\<rparr>) = monVal d"
  "durSecVal (d\<lparr>months := Some (monVal d), seconds := Some (durSecVal d)\<rparr>) = durSecVal d"
  "adds (d\<lparr>months := Some (monVal d), seconds := Some (durSecVal d)\<rparr>) m x d' \<longleftrightarrow> adds d m x d'"
  "adds d m 0 (addMonths m d)" "adds d 0 x (addSeconds x d)"
  by (simp_all add: adds_def addMonths_def addSeconds_def monVal_def durSecVal_def)

text \<open>What a unit adds, before and after the \<open>T\<close>.\<close>

definition unit_months :: "char \<Rightarrow> int" where
  "unit_months c = (if c = CHR ''Y'' then 12 else if c = CHR ''M'' then 1 else 0)"

definition unit_seconds :: "bool \<Rightarrow> char \<Rightarrow> rat" where
  "unit_seconds inTime c = (if \<not> inTime then (if c = CHR ''D'' then 86400 else 0)
     else if c = CHR ''H'' then 3600 else 60)"

lemma loop_unit:
  assumes "digits ds" and "if inTime then c \<in> {CHR ''H'', CHR ''M''} else c \<in> {CHR ''Y'', CHR ''M'', CHR ''D''}"
  obtains d' where "duration_loop inTime d (unit_text c ds @ r) = duration_loop inTime d' r"
    "adds d (if inTime then 0 else int (nat_of ds) * unit_months c) (of_nat (nat_of ds) * unit_seconds inTime c) d'"
proof (cases "ds = []")
  case True
  then show thesis
    by (intro that[of d]) (simp_all add: unit_text_def adds_refl)
next
  case False
  let ?d = "d\<lparr>months := Some (monVal d), seconds := Some (durSecVal d)\<rparr>"
  have c: "\<not> numChar c"
    using assms(2) by (auto split: if_splits)
  note step = loop_component[OF numChar_digits[OF assms(1)] False c hd_num[OF numChar_digits[OF assms(1)] False], of inTime d r]
  have i: "int_SetString ds = Some (int (nat_of ds))"
    by (rule int_SetString_digits[OF assms(1) False])
  define e where "e = (if inTime then addSeconds (of_nat (nat_of ds) * unit_seconds inTime c) ?d
    else if c = CHR ''D'' then addSeconds (of_nat (nat_of ds) * 86400) ?d else addMonths (int (nat_of ds) * unit_months c) ?d)"
  have "(if \<not> inTime then dateComponent c ds ?d else timeComponent c ds ?d) = Some e"
    using assms(2) by (auto simp: e_def dateComponent_def timeComponent_def i unit_months_def unit_seconds_def split: if_splits)
  then have "duration_loop inTime d (unit_text c ds @ r) = duration_loop inTime e r"
    using step False by (simp add: unit_text_def)
  moreover have "adds ?d (if inTime then 0 else int (nat_of ds) * unit_months c) (of_nat (nat_of ds) * unit_seconds inTime c) e"
    using assms(2) component_adds(4,5) unfolding e_def by (auto simp: unit_months_def unit_seconds_def adds_def addMonths_def addSeconds_def monVal_def durSecVal_def split: if_splits)
  ultimately show thesis
    using that by (simp add: component_adds)
qed

text \<open>The seconds, with their fraction.\<close>

definition seconds_text :: "string \<Rightarrow> string \<Rightarrow> string" where
  "seconds_text ds fs = (if ds = [] then [] else ds @ fs @ ''S'')"

definition seconds_of :: "string \<Rightarrow> string \<Rightarrow> rat" where
  "seconds_of ds fs = (if ds = [] then 0 else of_nat (nat_of ds) + of_nat (nat_of (tl fs)) / 10 ^ length (tl fs))"

lemma in_secondsFrag: "s \<in> rlang secondsFrag \<longleftrightarrow> (\<exists>ds fs. digits ds \<and> fraction fs \<and> s = seconds_text ds fs)"
proof -
  have "s \<in> rlang secondsFrag \<longleftrightarrow> s = [] \<or> (\<exists>ds fs. ds \<noteq> [] \<and> digits ds \<and> fraction fs \<and> s = ds @ fs @ ''S'' @ [])"
    unfolding secondsFrag_def in_Opt Seqs.simps in_Cat in_Plus_D in_fracFrag in_Lit rlang.simps(2) by blast
  also have "\<dots> \<longleftrightarrow> (\<exists>ds fs. digits ds \<and> fraction fs \<and> s = seconds_text ds fs)"
    unfolding seconds_text_def by (auto simp: fraction_def)
  finally show ?thesis .
qed

lemma loop_seconds:
  assumes "digits ds" "fraction fs"
  obtains d' where "duration_loop True d (seconds_text ds fs) = Some d'" "adds d 0 (seconds_of ds fs) d'"
proof (cases "ds = []")
  case True
  then show thesis
    by (intro that[of d]) (simp_all add: seconds_text_def seconds_of_def adds_refl duration_loop.simps)
next
  case False
  let ?d = "d\<lparr>months := Some (monVal d), seconds := Some (durSecVal d)\<rparr>"
  have num: "\<forall>c\<in>set (ds @ fs). numChar c"
    using numChar_digits[OF assms(1)] assms(2) numChar_digits by (auto elim!: fraction_cases simp: numChar_def digits_set)
  have rat: "rat_SetString (ds @ fs) = Some (seconds_of ds fs)"
    using assms(2)
  proof (cases rule: fraction_cases)
    case 1
    then show ?thesis
      using rat_SetString_digits(1)[OF assms(1) False] False by (simp add: seconds_of_def)
  next
    case (2 es)
    then show ?thesis
      using rat_SetString_digits(2)[OF assms(1) False 2(3)] False by (simp add: seconds_of_def)
  qed
  have "duration_loop True d ((ds @ fs) @ CHR ''S'' # []) = Some (addSeconds (seconds_of ds fs) ?d)"
    using False num hd_num[OF num] by (subst loop_component) (auto simp: timeComponent_def rat duration_loop.simps)
  then show thesis
    using that component_adds(5)[of ?d "seconds_of ds fs"] False by (simp add: seconds_text_def component_adds(3))
qed

definition timeUnits_text :: "string \<Rightarrow> string \<Rightarrow> string \<Rightarrow> string \<Rightarrow> string" where
  "timeUnits_text hs ms ds fs = CHR ''T'' # unit_text CHR ''H'' hs @ unit_text CHR ''M'' ms @ seconds_text ds fs"

lemma in_timeUnits:
  assumes "s \<in> rlang timeUnits"
  obtains "s = []" | hs ms ds fs where "s = timeUnits_text hs ms ds fs" "digits hs" "digits ms" "digits ds" "fraction fs"
proof -
  from assms consider "s = []" | hs ms ds fs where "s = ''T'' @ unit_text CHR ''H'' hs @ unit_text CHR ''M'' ms @ seconds_text ds fs @ []"
    "digits hs" "digits ms" "digits ds" "fraction fs"
    unfolding timeUnits_def in_Opt Seqs.simps in_Cat in_unitFrag in_secondsFrag in_Lit rlang.simps(2) by blast
  then show thesis
    by cases (use that in \<open>auto simp: timeUnits_text_def\<close>)
qed

lemma loop_timeUnits:
  assumes "s \<in> rlang timeUnits"
  obtains d' x where "duration_loop False d s = Some d'" "adds d 0 x d'"
  using assms
proof (cases rule: in_timeUnits)
  case 1
  then show thesis
    by (intro that[of d 0]) (simp_all add: adds_refl duration_loop.simps)
next
  case (2 hs ms ds fs)
  obtain d1 where 1: "duration_loop True d (unit_text CHR ''H'' hs @ unit_text CHR ''M'' ms @ seconds_text ds fs) =
      duration_loop True d1 (unit_text CHR ''M'' ms @ seconds_text ds fs)" "adds d 0 (of_nat (nat_of hs) * unit_seconds True CHR ''H'') d1"
    using loop_unit[OF 2(2), of True "CHR ''H''" d] by auto
  obtain d2 where 2: "duration_loop True d1 (unit_text CHR ''M'' ms @ seconds_text ds fs) = duration_loop True d2 (seconds_text ds fs)"
    "adds d1 0 (of_nat (nat_of ms) * unit_seconds True CHR ''M'') d2"
    using loop_unit[OF 2(3), of True "CHR ''M''" d1] by auto
  obtain d3 where 3: "duration_loop True d2 (seconds_text ds fs) = Some d3" "adds d2 0 (seconds_of ds fs) d3"
    by (rule loop_seconds[OF \<open>digits ds\<close> \<open>fraction fs\<close>])
  have "duration_loop False d s = duration_loop True d (unit_text CHR ''H'' hs @ unit_text CHR ''M'' ms @ seconds_text ds fs)"
    by (subst duration_loop.simps) (simp add: \<open>s = _\<close> timeUnits_text_def)
  then show thesis
    using that 1 2 3 adds_trans[OF adds_trans[OF 1(2) 2(2)] 3(2)] by simp
qed

subsection \<open>Validated durations\<close>

text \<open>The components of a validated duration; the parts before the \<open>T\<close> may be absent.\<close>

lemma parse_duration:
  assumes v: "v = (if neg then ''-'' else []) @ ''P'' @ unit_text CHR ''Y'' ys @ unit_text CHR ''M'' ms @ unit_text CHR ''D'' ds @ r"
    and "digits ys" "digits ms" "digits ds" "r \<in> rlang timeUnits"
    and body: "unit_text CHR ''Y'' ys @ unit_text CHR ''M'' ms @ unit_text CHR ''D'' ds @ r \<notin> {[], ''T''}"
  obtains d x where "parseXSDDurationValue v = Some d" "negative d = neg" "monVal d = int (nat_of ys) * 12 + int (nat_of ms)"
    "durSecVal d = of_nat (nat_of ds) * 86400 + x"
    "duration_loop False \<lparr>negative = neg, months = None, seconds = None\<rparr> r = None \<or> r \<noteq> [] \<or> x = 0"
proof -
  let ?d = "\<lparr>negative = neg, months = None, seconds = None\<rparr>"
  let ?b = "unit_text CHR ''Y'' ys @ unit_text CHR ''M'' ms @ unit_text CHR ''D'' ds @ r"
  obtain d1 where 1: "duration_loop False ?d ?b = duration_loop False d1 (unit_text CHR ''M'' ms @ unit_text CHR ''D'' ds @ r)"
    "adds ?d (int (nat_of ys) * 12) 0 d1"
    using loop_unit[OF assms(2), of False "CHR ''Y''" ?d] by (auto simp: unit_months_def unit_seconds_def)
  obtain d2 where 2: "duration_loop False d1 (unit_text CHR ''M'' ms @ unit_text CHR ''D'' ds @ r) = duration_loop False d2 (unit_text CHR ''D'' ds @ r)"
    "adds d1 (int (nat_of ms)) 0 d2"
    using loop_unit[OF assms(3), of False "CHR ''M''" d1] by (auto simp: unit_months_def unit_seconds_def)
  obtain d3 where 3: "duration_loop False d2 (unit_text CHR ''D'' ds @ r) = duration_loop False d3 r"
    "adds d2 0 (of_nat (nat_of ds) * 86400) d3"
    using loop_unit[OF assms(4), of False "CHR ''D''" d2] by (auto simp: unit_months_def unit_seconds_def)
  obtain d4 x where 4: "duration_loop False d3 r = Some d4" "adds d3 0 x d4"
    by (rule loop_timeUnits[OF assms(5)])
  have "parseXSDDurationValue ((if neg then ''-'' else []) @ ''P'' @ b) = duration_loop False ?d b" if "b \<notin> {[], ''T''}" for b
    using that by (cases neg) (simp_all add: parseXSDDurationValue_def takeMinus_def)
  from this[of ?b] have p: "parseXSDDurationValue v = duration_loop False ?d ?b"
    using v body by blast
  have z: "x = 0" if "r = []"
    using 4 that by (simp add: duration_loop.simps adds_def)
  have "negative ?d = neg" "monVal ?d = 0" "durSecVal ?d = 0"
    by (simp_all add: monVal_def durSecVal_def)
  then show thesis
    using that[of d4 x] p 1 2 3 4 z by (auto simp: adds_def)
qed

lemma duration_regex:
  assumes "v \<in> rlang durationRegex"
  obtains neg ys ms ds r where "v = (if neg then ''-'' else []) @ ''P'' @ unit_text CHR ''Y'' ys @ unit_text CHR ''M'' ms @ unit_text CHR ''D'' ds @ r"
    "digits ys" "digits ms" "digits ds" "r \<in> rlang timeUnits"
proof -
  from assms obtain g ys ms ds r where "v = g @ ''P'' @ unit_text CHR ''Y'' ys @ unit_text CHR ''M'' ms @ unit_text CHR ''D'' ds @ r @ []"
    "g = [] \<or> g = ''-''" "digits ys" "digits ms" "digits ds" "r \<in> rlang timeUnits"
    unfolding durationRegex_def Seqs.simps in_Cat in_unitFrag in_Opt in_Lit singleton_iff rlang.simps(2) by blast
  then show thesis
    by (intro that[of "g = ''-''" ys ms ds r]) auto
qed

lemma dayTime_regex:
  assumes "v \<in> rlang dayTimeDurationRegex"
  obtains neg ds r where "v = (if neg then ''-'' else []) @ ''P'' @ unit_text CHR ''Y'' [] @ unit_text CHR ''M'' [] @ unit_text CHR ''D'' ds @ r"
    "digits ds" "r \<in> rlang timeUnits"
proof -
  from assms obtain g ds r where "v = g @ ''P'' @ unit_text CHR ''D'' ds @ r @ []" "g = [] \<or> g = ''-''" "digits ds" "r \<in> rlang timeUnits"
    unfolding dayTimeDurationRegex_def Seqs.simps in_Cat in_unitFrag in_Opt in_Lit singleton_iff rlang.simps(2) by blast
  then show thesis
    by (intro that[of "g = ''-''" ds r]) (auto simp: unit_text_def)
qed

lemma yearMonth_regex:
  assumes "v \<in> rlang yearMonthDurationRegex"
  obtains neg ys ms where "v = (if neg then ''-'' else []) @ ''P'' @ unit_text CHR ''Y'' ys @ unit_text CHR ''M'' ms @ unit_text CHR ''D'' [] @ []"
    "digits ys" "digits ms"
proof -
  from assms obtain g ys ms where "v = g @ ''P'' @ unit_text CHR ''Y'' ys @ unit_text CHR ''M'' ms @ []" "g = [] \<or> g = ''-''" "digits ys" "digits ms"
    unfolding yearMonthDurationRegex_def Seqs.simps in_Cat in_unitFrag in_Opt in_Lit singleton_iff rlang.simps(2) by blast
  then show thesis
    by (intro that[of "g = ''-''" ys ms]) (auto simp: unit_text_def)
qed

lemma valid_body:
  assumes "validateDuration v = None" "v = (if neg then ''-'' else []) @ ''P'' @ s"
  shows "s \<notin> {[], ''T''}"
  using assms by (cases neg) (auto simp: validateDuration_def split: if_splits)

lemma duration_valid:
  assumes "validateDuration v = None"
  obtains d where "parseXSDDurationValue v = Some d"
proof -
  have m: "v \<in> rlang durationRegex"
    using assms by (auto simp: validateDuration_def matches_iff split: if_splits)
  obtain neg ys ms ds r where v: "v = (if neg then ''-'' else []) @ ''P'' @ unit_text CHR ''Y'' ys @ unit_text CHR ''M'' ms @ unit_text CHR ''D'' ds @ r"
    "digits ys" "digits ms" "digits ds" "r \<in> rlang timeUnits"
    by (rule duration_regex[OF m])
  show thesis
    by (rule parse_duration[OF v valid_body[OF assms v(1)]]) (rule that)
qed

lemma dayTime_valid:
  assumes "validateDayTimeDuration v = None"
  obtains d where "parseXSDDurationValue v = Some d" "monVal d = 0" "validateDuration v = None"
proof -
  have m: "v \<in> rlang dayTimeDurationRegex" and vd: "validateDuration v = None"
    using assms by (auto simp: validateDayTimeDuration_def matches_iff split: if_splits)
  obtain neg ds r where v: "v = (if neg then ''-'' else []) @ ''P'' @ unit_text CHR ''Y'' [] @ unit_text CHR ''M'' [] @ unit_text CHR ''D'' ds @ r"
    "digits ds" "r \<in> rlang timeUnits"
    by (rule dayTime_regex[OF m])
  show thesis
    by (rule parse_duration[OF v(1) _ _ v(2,3) valid_body[OF vd v(1)]]) (use that vd in auto)
qed

lemma yearMonth_valid:
  assumes "validateYearMonthDuration v = None"
  obtains d where "parseXSDDurationValue v = Some d" "durSecVal d = 0" "validateDuration v = None"
proof -
  have m: "v \<in> rlang yearMonthDurationRegex" and vd: "validateDuration v = None"
    using assms by (auto simp: validateYearMonthDuration_def matches_iff split: if_splits)
  obtain neg ys ms where v: "v = (if neg then ''-'' else []) @ ''P'' @ unit_text CHR ''Y'' ys @ unit_text CHR ''M'' ms @ unit_text CHR ''D'' [] @ []"
    "digits ys" "digits ms"
    by (rule yearMonth_regex[OF m])
  have t: "[] \<in> rlang timeUnits"
    by (simp add: timeUnits_def in_Opt)
  obtain d x where d: "parseXSDDurationValue v = Some d" "durSecVal d = of_nat (nat_of []) * 86400 + x"
    "duration_loop False \<lparr>negative = neg, months = None, seconds = None\<rparr> [] = None \<or> [] \<noteq> ([]::string) \<or> x = 0"
    by (rule parse_duration[OF v _ t valid_body[OF vd v(1)]]) auto
  then have "durSecVal d = 0"
    by (simp add: duration_loop.simps)
  then show thesis
    using that d vd by blast
qed

subsection \<open>The ordered subtypes\<close>

definition duration_value :: "string \<Rightarrow> int \<times> rat" where
  "duration_value s = signedDurationComponents (the (parseXSDDurationValue (trimXSDSpace s)))"

lemma duration_simps:
  assumes "t \<in> {''duration'', ''dayTimeDuration'', ''yearMonthDuration''}"
  shows "Compare a b t = compareDuration a b"
    "CanonicalKey fmt s t = (if ValidateBuiltin (trimXSDSpace s) ''duration'' Version11 \<noteq> None then (trimXSDSpace s, False)
         else case parseXSDDurationValue (trimXSDSpace s) of None \<Rightarrow> (trimXSDSpace s, False)
         | Some d \<Rightarrow> let (m, x) = signedDurationComponents d in (show_int m @ ''|'' @ RatString x, True))"
  using assms by (simp; elim disjE; simp add: Compare_def CanonicalKey_def Let_def)+

lemma validate_duration_simps:
  "ValidateBuiltin v ''duration'' ver = validateDuration v"
  "ValidateBuiltin v ''dayTimeDuration'' ver = validateDayTimeDuration v"
  "ValidateBuiltin v ''yearMonthDuration'' ver = validateYearMonthDuration v"
  by (simp_all add: ValidateBuiltin_def)

lemma valid_duration_any:
  assumes "t \<in> {''duration'', ''dayTimeDuration'', ''yearMonthDuration''}" "valid_lexical t s"
  obtains d where "parseXSDDurationValue (trimXSDSpace s) = Some d" "validateDuration (trimXSDSpace s) = None"
    "t = ''dayTimeDuration'' \<Longrightarrow> monVal d = 0" "t = ''yearMonthDuration'' \<Longrightarrow> durSecVal d = 0"
proof -
  consider "t = ''duration''" | "t = ''dayTimeDuration''" | "t = ''yearMonthDuration''"
    using assms(1) by blast
  then show thesis
    by cases (use assms(2) that in \<open>auto simp: valid_lexical_def validate_duration_simps
        elim: duration_valid[of "trimXSDSpace s"] dayTime_valid[of "trimXSDSpace s"] yearMonth_valid[of "trimXSDSpace s"]\<close>)
qed

lemma Compare_durations:
  assumes "t \<in> {''duration'', ''dayTimeDuration'', ''yearMonthDuration''}" "valid_lexical t a" "valid_lexical t b"
  shows "Compare a b t = compareDurationComponents (fst (duration_value a)) (snd (duration_value a)) (fst (duration_value b)) (snd (duration_value b))"
proof -
  obtain x where "parseXSDDurationValue (trimXSDSpace a) = Some x" "validateDuration (trimXSDSpace a) = None"
    using valid_duration_any[OF assms(1,2)] by blast
  moreover obtain y where "parseXSDDurationValue (trimXSDSpace b) = Some y" "validateDuration (trimXSDSpace b) = None"
    using valid_duration_any[OF assms(1,3)] by blast
  ultimately show ?thesis
    by (simp add: duration_simps[OF assms(1)] compareDuration_def validBuiltinOperands_def validate_duration_simps duration_value_def
        split: prod.splits)
qed

lemma key_durations:
  assumes "t \<in> {''duration'', ''dayTimeDuration'', ''yearMonthDuration''}" "valid_lexical t s"
  shows "CanonicalKey fmt s t = (show_int (fst (duration_value s)) @ ''|'' @ RatString (snd (duration_value s)), True)"
proof -
  obtain x where "parseXSDDurationValue (trimXSDSpace s) = Some x" "validateDuration (trimXSDSpace s) = None"
    using valid_duration_any[OF assms] by blast
  then show ?thesis
    by (simp add: duration_simps[OF assms(1)] validate_duration_simps duration_value_def split: prod.splits)
qed

lemma duration_key_inject: "show_int m @ ''|'' @ RatString x = show_int n @ ''|'' @ RatString y \<longleftrightarrow> m = n \<and> x = y"
  by (simp add: append_sep_inject show_int_no_slash(2))

lemma fst_duration_value: "t = ''dayTimeDuration'' \<Longrightarrow> valid_lexical t s \<Longrightarrow> fst (duration_value s) = 0"
  by (rule valid_duration_any[of t s]) (auto simp: duration_value_def signedDurationComponents_def)

lemma snd_duration_value: "t = ''yearMonthDuration'' \<Longrightarrow> valid_lexical t s \<Longrightarrow> snd (duration_value s) = 0"
  by (rule valid_duration_any[of t s]) (auto simp: duration_value_def signedDurationComponents_def)

interpretation dayTimes: value_space "{''dayTimeDuration''}" valid_lexical "\<lambda>t s. snd (duration_value s)" fmt for fmt
proof unfold_locales
  fix t a b
  assume t: "t \<in> {''dayTimeDuration''}" and a: "valid_lexical t a"
  then have t': "t \<in> {''duration'', ''dayTimeDuration'', ''yearMonthDuration''}" by simp
  show "snd (CanonicalKey fmt a t)"
    by (simp add: key_durations[OF t' a])
  assume b: "valid_lexical t b"
  have "fst (duration_value a) = 0" "fst (duration_value b) = 0"
    using t a b fst_duration_value by auto
  then show "Compare a b t = (cmp (snd (duration_value a)) (snd (duration_value b)), True)"
    "fst (CanonicalKey fmt a t) = fst (CanonicalKey fmt b t) \<longleftrightarrow> snd (duration_value a) = snd (duration_value b)"
    unfolding Compare_durations[OF t' a b] key_durations[OF t' a] key_durations[OF t' b] fst_conv duration_key_inject
    by (simp_all add: compare_equal_months)
qed

interpretation yearMonths: value_space "{''yearMonthDuration''}" valid_lexical "\<lambda>t s. fst (duration_value s)" fmt for fmt
proof unfold_locales
  fix t a b
  assume t: "t \<in> {''yearMonthDuration''}" and a: "valid_lexical t a"
  then have t': "t \<in> {''duration'', ''dayTimeDuration'', ''yearMonthDuration''}" by simp
  show "snd (CanonicalKey fmt a t)"
    by (simp add: key_durations[OF t' a])
  assume b: "valid_lexical t b"
  have "snd (duration_value a) = 0" "snd (duration_value b) = 0"
    using t a b snd_duration_value by auto
  then show "Compare a b t = (cmp (fst (duration_value a)) (fst (duration_value b)), True)"
    "fst (CanonicalKey fmt a t) = fst (CanonicalKey fmt b t) \<longleftrightarrow> fst (duration_value a) = fst (duration_value b)"
    unfolding Compare_durations[OF t' a b] key_durations[OF t' a] key_durations[OF t' b] fst_conv duration_key_inject
    by (simp_all add: compare_equal_seconds)
qed

end
