(* ===== verification/XsdValues.thy ===== *)
theory XsdValues
  imports XsdDuration "HOL-Library.Word"
begin

text \<open>
  The properties of the XSD value code: \<open>Compare\<close> and \<open>CanonicalKey\<close> agree and order every value
  space, dates follow the timeline, durations the four reference dates, and the derived
  integer types are the machine words they are named after.
\<close>

subsection \<open>The totally ordered types\<close>

definition plain_types :: "string set" where
  "plain_types = set numericComparableTypes \<union>
     {''boolean'', ''hexBinary'', ''base64Binary'', ''dayTimeDuration'', ''yearMonthDuration''}"

text \<open>The lexical forms of a type; those of a calendar type with, or without, a timezone.\<close>

definition lexical_space :: "string \<Rightarrow> bool \<Rightarrow> string \<Rightarrow> bool" where
  "lexical_space t zoned s \<longleftrightarrow>
     (if t \<in> calendar_types then valid_zone zoned t s else t \<in> plain_types \<and> valid_lexical t s)"

lemma not_calendar: "t \<in> plain_types \<Longrightarrow> t \<notin> calendar_types"
  unfolding plain_types_def calendar_types_def numericComparableTypes_def by auto

lemma space_cases:
  assumes "lexical_space t zoned s"
  obtains (decimal) "t \<in> set numericComparableTypes" "lexical_space t zoned = valid_lexical t"
  | (boolean) "t \<in> {''boolean''}" "lexical_space t zoned = valid_lexical t"
  | (hex) "t \<in> {''hexBinary''}" "lexical_space t zoned = valid_lexical t"
  | (base64) "t \<in> {''base64Binary''}" "lexical_space t zoned = valid_lexical t"
  | (dayTime) "t \<in> {''dayTimeDuration''}" "lexical_space t zoned = valid_lexical t"
  | (yearMonth) "t \<in> {''yearMonthDuration''}" "lexical_space t zoned = valid_lexical t"
  | (calendar) "t \<in> calendar_types" "lexical_space t zoned = valid_zone zoned t"
proof (cases "t \<in> calendar_types")
  case True
  then show thesis
    by (intro calendar) (simp_all add: lexical_space_def fun_eq_iff)
next
  case False
  moreover from this have "t \<in> plain_types"
    using assms by (simp add: lexical_space_def)
  ultimately have "lexical_space t zoned = valid_lexical t"
    by (simp add: lexical_space_def fun_eq_iff)
  note L = this
  have "t \<in> set numericComparableTypes \<or> t \<in> {''boolean''} \<or> t \<in> {''hexBinary''} \<or> t \<in> {''base64Binary''}
      \<or> t \<in> {''dayTimeDuration''} \<or> t \<in> {''yearMonthDuration''}"
    using \<open>t \<in> plain_types\<close> by (simp only: plain_types_def Un_iff insert_iff empty_iff simp_thms)
  then show thesis
    by (elim disjE decimal[OF _ L] boolean[OF _ L] hex[OF _ L] base64[OF _ L] dayTime[OF _ L] yearMonth[OF _ L])
qed

text \<open>C6: On the decimal family, booleans, binary data, day-time and year-month durations, and dates
  and times that agree on having a timezone, two valid lexical forms compare equal exactly when
  they have the same canonical key, whatever the number formatter.\<close>

theorem Compare_equal_iff_same_key:
  assumes "lexical_space t zoned a" "lexical_space t zoned b"
  shows "Compare a b t = (0, True) \<longleftrightarrow> CanonicalKey fmt a t = CanonicalKey fmt b t"
  using assms(1)
proof (cases rule: space_cases)
  case decimal with assms show ?thesis by (simp only: decimals.Compare_key)
next
  case boolean with assms show ?thesis by (simp only: booleans.Compare_key)
next
  case hex with assms show ?thesis by (simp only: hexBinaries.Compare_key)
next
  case base64 with assms show ?thesis by (simp only: base64Binaries.Compare_key)
next
  case dayTime with assms show ?thesis by (simp only: dayTimes.Compare_key)
next
  case yearMonth with assms show ?thesis by (simp only: yearMonths.Compare_key)
next
  case calendar with assms show ?thesis by (simp only: calendar.Compare_key)
qed

theorem Compare_equal_iff_same_key_witness:
  "lexical_space ''dayTimeDuration'' False ''PT24H'' \<and> lexical_space ''dayTimeDuration'' False ''P1D'' \<and>
   (Compare ''PT24H'' ''P1D'' ''dayTimeDuration'' = (0, True) \<longleftrightarrow>
    CanonicalKey (\<lambda>_. RatString) ''PT24H'' ''dayTimeDuration'' = CanonicalKey (\<lambda>_. RatString) ''P1D'' ''dayTimeDuration'')"
proof -
  have "valid_lexical ''dayTimeDuration'' ''PT24H''" "valid_lexical ''dayTimeDuration'' ''P1D''"
    by code_simp+
  then have "lexical_space ''dayTimeDuration'' False ''PT24H''" "lexical_space ''dayTimeDuration'' False ''P1D''"
    by (simp_all add: lexical_space_def not_calendar plain_types_def)
  then show ?thesis
    using Compare_equal_iff_same_key by blast
qed

text \<open>On those types the comparison is a total order: always defined, antisymmetric and
  transitive.\<close>

theorem Compare_total_order:
  assumes "lexical_space t zoned a" "lexical_space t zoned b" "lexical_space t zoned c"
  shows "snd (Compare a b t) \<and> Compare b a t = (- fst (Compare a b t), True) \<and>
    (fst (Compare a b t) \<le> 0 \<longrightarrow> fst (Compare b c t) \<le> 0 \<longrightarrow> fst (Compare a c t) \<le> 0)"
  using assms(1)
proof (cases rule: space_cases)
  case decimal
  with assms show ?thesis using decimals.Compare_defined decimals.Compare_swap decimals.Compare_trans by metis
next
  case boolean
  with assms show ?thesis using booleans.Compare_defined booleans.Compare_swap booleans.Compare_trans by metis
next
  case hex
  with assms show ?thesis using hexBinaries.Compare_defined hexBinaries.Compare_swap hexBinaries.Compare_trans by metis
next
  case base64
  with assms show ?thesis using base64Binaries.Compare_defined base64Binaries.Compare_swap base64Binaries.Compare_trans by metis
next
  case dayTime
  with assms show ?thesis using dayTimes.Compare_defined dayTimes.Compare_swap dayTimes.Compare_trans by metis
next
  case yearMonth
  with assms show ?thesis using yearMonths.Compare_defined yearMonths.Compare_swap yearMonths.Compare_trans by metis
next
  case calendar
  with assms show ?thesis using calendar.Compare_defined calendar.Compare_swap calendar.Compare_trans by metis
qed

theorem Compare_total_order_witness:
  "snd (Compare ''1.50'' ''2'' ''decimal'') \<and> Compare ''2'' ''1.50'' ''decimal'' = (- fst (Compare ''1.50'' ''2'' ''decimal''), True)"
proof -
  have "valid_lexical ''decimal'' ''1.50''" "valid_lexical ''decimal'' ''2''" "valid_lexical ''decimal'' ''+3.''"
    by code_simp+
  then have "lexical_space ''decimal'' False ''1.50''" "lexical_space ''decimal'' False ''2''" "lexical_space ''decimal'' False ''+3.''"
    by (simp_all add: lexical_space_def not_calendar plain_types_def numericComparableTypes_def)
  from Compare_total_order[OF this] show ?thesis
    by blast
qed

subsection \<open>Dates and times\<close>

definition parsed_as :: "string \<Rightarrow> string \<Rightarrow> xsdDateTime option" where
  "parsed_as t s = (if t = ''date'' then parseXSDDate s
     else if t = ''time'' then map_option (referenceDay \<circ> normalizeHour24) (parseXSDTime s)
     else parseXSDDateTime s)"

lemma denoted_parsed: "denoted t s = the (parsed_as t (trimXSDSpace s))"
  by (simp add: denoted_def parsed_as_def)

text \<open>C32: A dateTime, dateTimeStamp, date or time that the validator accepts is parsed by the
  comparison code, to a month, a day of that month and that year, a time of day (24:00:00 at most)
  and an offset of at most 14 hours.\<close>

theorem validated_dates_parse:
  assumes "t \<in> calendar_types" "valid_calendar t s"
  shows "\<exists>dt. parsed_as t (trimXSDSpace s) = Some dt \<and> 1 \<le> month dt \<and> month dt \<le> 12 \<and>
    1 \<le> day dt \<and> day dt \<le> daysInMonth (yearVal dt) (month dt) \<and>
    0 \<le> hour dt \<and> 0 \<le> minutes dt \<and> minutes dt < 60 \<and> 0 \<le> secVal dt \<and> secVal dt < 60 \<and>
    (hour dt < 24 \<or> hour dt = 24 \<and> minutes dt = 0 \<and> secVal dt = 0) \<and> \<bar>tzMin dt\<bar> \<le> 14 * 60"
proof -
  obtain dt where "parsed_as t (trimXSDSpace s) = Some dt" "admitted dt"
    using assms denoted_admitted[OF assms]
    by (cases rule: calendar_cases) (auto simp: parsed_as_def)
  then show ?thesis
    by (auto simp: admitted_def lexical_range_def date_ok_def)
qed

theorem validated_dates_parse_witness:
  "\<exists>dt. parsed_as ''date'' (trimXSDSpace '' 2024-02-29-14:00 '') = Some dt \<and> 1 \<le> month dt \<and> month dt \<le> 12 \<and>
    1 \<le> day dt \<and> day dt \<le> daysInMonth (yearVal dt) (month dt) \<and>
    0 \<le> hour dt \<and> 0 \<le> minutes dt \<and> minutes dt < 60 \<and> 0 \<le> secVal dt \<and> secVal dt < 60 \<and>
    (hour dt < 24 \<or> hour dt = 24 \<and> minutes dt = 0 \<and> secVal dt = 0) \<and> \<bar>tzMin dt\<bar> \<le> 14 * 60"
proof (rule validated_dates_parse)
  show "''date'' \<in> calendar_types"
    by (simp add: calendar_types_def)
  show "valid_calendar ''date'' '' 2024-02-29-14:00 ''"
    by code_simp
qed

text \<open>C28: Two dates or times that both have a timezone, or both lack one, compare as their
  instants on the timeline, after the offset is applied and 24:00:00 is moved to the next day.\<close>

theorem Compare_timeline:
  assumes "t \<in> calendar_types" "valid_zone zoned t a" "valid_zone zoned t b"
  shows "Compare a b t = (cmp (instant (denoted t a)) (instant (denoted t b)), True)"
  by (rule calendar.Compare_val[OF assms])

theorem Compare_timeline_witness:
  "Compare ''2024-02-29T24:00:00-01:00'' ''2024-03-01T00:59:59.9Z'' ''dateTime'' =
    (cmp (instant (denoted ''dateTime'' ''2024-02-29T24:00:00-01:00'')) (instant (denoted ''dateTime'' ''2024-03-01T00:59:59.9Z'')), True)"
proof (rule Compare_timeline)
  show "''dateTime'' \<in> calendar_types"
    by (simp add: calendar_types_def)
  show "valid_zone True ''dateTime'' ''2024-02-29T24:00:00-01:00''" "valid_zone True ''dateTime'' ''2024-03-01T00:59:59.9Z''"
    by code_simp+
qed

text \<open>C7: A date or time without a timezone may stand for any instant within 14 hours of its UTC
  reading, so a zoned one compares with it only when it lies outside that window, in either
  order of the operands.\<close>

theorem Compare_mixed_zones:
  assumes "t \<in> calendar_types" "valid_zone True t a" "valid_zone False t b"
  defines "d \<equiv> instant (denoted t a) - instant (denoted t b)"
  shows "Compare a b t = (if d < - (14 * 3600) then (-1, True) else if d > 14 * 3600 then (1, True) else (0, False)) \<and>
    Compare b a t = (- fst (Compare a b t), snd (Compare a b t))"
proof -
  have a: "valid_calendar t a" "hasTZ (denoted t a)" and b: "valid_calendar t b" "\<not> hasTZ (denoted t b)"
    using assms(2,3) by (auto simp: valid_zone_def)
  have "lexical_range (denoted t a)" "lexical_range (denoted t b)"
    using denoted_admitted[OF assms(1)] a b by (auto simp: admitted_def)
  then have "compareDateTimeParsed (denoted t a) (denoted t b) =
      (if d < - (14 * 3600) then (-1, True) else if d > 14 * 3600 then (1, True) else (0, False))"
    "compareDateTimeParsed (denoted t b) (denoted t a) =
      (if d < - (14 * 3600) then (1, True) else if d > 14 * 3600 then (-1, True) else (0, False))"
    using a b compareDateTimeParsed_mixed[of "denoted t a" "denoted t b"] compareDateTimeParsed_mixed[of "denoted t b" "denoted t a"]
    by (auto simp: d_def)
  then show ?thesis
    using Compare_calendar[OF assms(1)] a b by auto
qed

theorem Compare_mixed_zones_witness:
  "(let d = instant (denoted ''date'' ''2024-03-02Z'') - instant (denoted ''date'' ''2024-03-01'') in
    Compare ''2024-03-02Z'' ''2024-03-01'' ''date'' = (if d < - (14 * 3600) then (-1, True) else if d > 14 * 3600 then (1, True) else (0, False)) \<and>
    Compare ''2024-03-01'' ''2024-03-02Z'' ''date'' =
      (- fst (Compare ''2024-03-02Z'' ''2024-03-01'' ''date''), snd (Compare ''2024-03-02Z'' ''2024-03-01'' ''date'')))"
proof -
  have "''date'' \<in> calendar_types" "valid_zone True ''date'' ''2024-03-02Z''" "valid_zone False ''date'' ''2024-03-01''"
    by (simp add: calendar_types_def) code_simp+
  from Compare_mixed_zones[OF this] show ?thesis
    unfolding Let_def .
qed

text \<open>On a gYear the offset is applied to month 0 and day 0, so the day borrow of an eastern offset
  leaves the year while a western one keeps it: \<open>2020-14:00\<close>, which starts 14 hours after
  \<open>2020Z\<close>, compares as less.\<close>

lemma gYear_zone_inverted:
  "Compare ''2020-14:00'' ''2020Z'' ''gYear'' = (-1, True)" "Compare ''2020+14:00'' ''2020Z'' ''gYear'' = (-1, True)"
  by code_simp+

subsection \<open>Durations\<close>

text \<open>A reference date, the first of a month, moved by months and seconds, in seconds since year 0.\<close>

definition moved :: "int \<times> rat \<Rightarrow> int \<times> int \<Rightarrow> rat" where
  "moved d ref = of_int (month_start (fst ref * 12 + (snd ref - 1) + fst d) * 86400) + snd d"

definition reference_months :: "(int \<times> int) list" where
  "reference_months = [(1696, 9), (1697, 2), (1903, 3), (1903, 7)]"

text \<open>C34: Two valid durations compare as the specification's four reference dates say: added to
  each, they must give the same order, otherwise the comparison is undefined.\<close>

theorem Compare_duration_reference:
  assumes "valid_lexical ''duration'' a" "valid_lexical ''duration'' b"
  shows "Compare a b ''duration'' =
    (let cs = map (\<lambda>ref. cmp (moved (duration_value a) ref) (moved (duration_value b) ref)) reference_months
     in if list_all (\<lambda>c. c = hd cs) cs then (hd cs, True) else (0, False))"
proof -
  have p: "duration_point (y, m, 1) (fst d) (snd d) = moved d (y, m)" for y m d
    by (simp add: duration_point_first moved_def)
  show ?thesis
    unfolding Compare_durations[of "''duration''", OF _ assms, simplified] compareDurationComponents_spec durationReferenceDates_def p
    by (auto simp add: p reference_months_def Let_def simp del: cmp_simps)
qed

theorem Compare_duration_reference_witness:
  "Compare ''P1M'' ''P30D'' ''duration'' =
    (let cs = map (\<lambda>ref. cmp (moved (duration_value ''P1M'') ref) (moved (duration_value ''P30D'') ref)) reference_months
     in if list_all (\<lambda>c. c = hd cs) cs then (hd cs, True) else (0, False))"
proof -
  have "valid_lexical ''duration'' ''P1M''" "valid_lexical ''duration'' ''P30D''"
    by code_simp+
  then show ?thesis
    by (rule Compare_duration_reference)
qed

text \<open>Durations with the same canonical key compare equal, and exchanging the operands of a
  comparison of durations negates its sign.\<close>

theorem duration_same_key:
  assumes "valid_lexical ''duration'' a" "valid_lexical ''duration'' b"
  shows "(CanonicalKey fmt a ''duration'' = CanonicalKey fmt b ''duration'' \<longrightarrow> Compare a b ''duration'' = (0, True)) \<and>
    Compare b a ''duration'' = (- fst (Compare a b ''duration''), snd (Compare a b ''duration''))"
proof -
  have t: "''duration'' \<in> {''duration'', ''dayTimeDuration'', ''yearMonthDuration''}"
    by simp
  have "Compare a b ''duration'' = (0, True)" if "CanonicalKey fmt a ''duration'' = CanonicalKey fmt b ''duration''"
  proof -
    have "duration_value a = duration_value b"
      using that unfolding key_durations[OF t assms(1)] key_durations[OF t assms(2)] prod.inject duration_key_inject
      by (elim conjE) (rule prod_eqI)
    then show ?thesis
      by (simp add: Compare_durations[OF t assms] compare_equal_months)
  qed
  moreover have "Compare b a ''duration'' = (- fst (Compare a b ''duration''), snd (Compare a b ''duration''))"
    unfolding Compare_durations[OF t assms] Compare_durations[OF t assms(2,1)] by (rule compareDurationComponents_swap)
  ultimately show ?thesis
    by blast
qed

theorem duration_same_key_witness:
  "Compare ''P12M'' ''P1Y'' ''duration'' = (- fst (Compare ''P1Y'' ''P12M'' ''duration''), snd (Compare ''P1Y'' ''P12M'' ''duration''))"
proof -
  have "valid_lexical ''duration'' ''P1Y''" "valid_lexical ''duration'' ''P12M''"
    by code_simp+
  from duration_same_key[OF this] show ?thesis
    by blast
qed

lemma duration_values:
  "parseXSDDurationValue ''P400Y'' = Some \<lparr>negative = False, months = Some 4800, seconds = Some 0\<rparr>"
  "parseXSDDurationValue ''P146097D'' = Some \<lparr>negative = False, months = Some 0, seconds = Some (146097 * 86400)\<rparr>"
  by (simp_all add: parseXSDDurationValue_def takeMinus_def duration_loop.simps numChar_def ascii_digit_def dateComponent_def
      int_SetString_def nat_of_def digits_def signed_def addMonths_def addSeconds_def monVal_def durSecVal_def)

lemma duration_values_valid:
  "valid_lexical ''duration'' ''P400Y''" "valid_lexical ''duration'' ''P146097D''"
  by code_simp+

text \<open>Equal durations with different keys: 400 years and 146097 days.\<close>

lemma duration_key_finer:
  "Compare ''P400Y'' ''P146097D'' ''duration'' = (0, True)"
  "CanonicalKey fmt ''P400Y'' ''duration'' \<noteq> CanonicalKey fmt ''P146097D'' ''duration''"
proof -
  have t: "''duration'' \<in> {''duration'', ''dayTimeDuration'', ''yearMonthDuration''}"
    by simp
  have trim: "trimXSDSpace ''P400Y'' = ''P400Y''" "trimXSDSpace ''P146097D'' = ''P146097D''"
    by code_simp+
  have v: "duration_value ''P400Y'' = (4800, 0)" "duration_value ''P146097D'' = (0, 146097 * 86400)"
    by (simp_all add: duration_value_def trim duration_values(1,2) signedDurationComponents_def monVal_def durSecVal_def)
  show "Compare ''P400Y'' ''P146097D'' ''duration'' = (0, True)"
    unfolding Compare_durations[OF t duration_values_valid] v fst_conv snd_conv
    using compare_cycle[of 0 0] by simp
  show "CanonicalKey fmt ''P400Y'' ''duration'' \<noteq> CanonicalKey fmt ''P146097D'' ''duration''"
    unfolding key_durations[OF t duration_values_valid(1)] key_durations[OF t duration_values_valid(2)] v fst_conv snd_conv prod.inject duration_key_inject
    by simp
qed

subsection \<open>The integer types\<close>

lemma validate_range:
  assumes "map_of integerRanges t = Some (Some l, Some h)"
  shows "validateIntegerWithRange v t = None \<longleftrightarrow> matches integerRegex v \<and> (\<exists>n. int_SetString v = Some n \<and> l \<le> n \<and> n \<le> h)"
  using assms by (auto simp: validateIntegerWithRange_def validateInteger_def out_of_range_def split: option.splits if_splits)

lemma sint_values: "(\<exists>w::'a::len word. n = sint w) \<longleftrightarrow> - (2 ^ (LENGTH('a) - 1)) \<le> n \<and> n \<le> 2 ^ (LENGTH('a) - 1) - 1"
proof
  assume "\<exists>w::'a word. n = sint w"
  then obtain w :: "'a word" where "n = sint w" by blast
  then show "- (2 ^ (LENGTH('a) - 1)) \<le> n \<and> n \<le> 2 ^ (LENGTH('a) - 1) - 1"
    using sint_greater_eq[of w] sint_less[of w] by simp
next
  assume "- (2 ^ (LENGTH('a) - 1)) \<le> n \<and> n \<le> 2 ^ (LENGTH('a) - 1) - 1"
  then have "signed_take_bit (LENGTH('a) - 1) n = n"
    by (simp add: signed_take_bit_int_eq_self)
  then have "sint (word_of_int n :: 'a word) = n"
    by (simp only: sint_sbintrunc')
  then show "\<exists>w::'a word. n = sint w"
    by metis
qed

lemma uint_values: "(\<exists>w::'a::len word. n = uint w) \<longleftrightarrow> 0 \<le> n \<and> n \<le> 2 ^ LENGTH('a) - 1"
proof
  assume "0 \<le> n \<and> n \<le> 2 ^ LENGTH('a) - 1"
  then have "uint (word_of_int n :: 'a word) = n"
    by (simp add: uint_word_of_int)
  then show "\<exists>w::'a word. n = uint w"
    by metis
qed (use uint_lt2p in \<open>auto simp: zle_diff1_eq\<close>)

lemma Some_word: "(\<exists>w::'a::len word. x = Some (f w)) \<longleftrightarrow> (\<exists>n. x = Some n \<and> (\<exists>w. n = f w))"
  by blast

lemmas machine_ranges =
  validate_range[of "''byte''" "-128" 127] validate_range[of "''short''" "-32768" 32767]
  validate_range[of "''int''" "-2147483648" 2147483647] validate_range[of "''long''" "-9223372036854775808" 9223372036854775807]
  validate_range[of "''unsignedByte''" 0 255] validate_range[of "''unsignedShort''" 0 65535]
  validate_range[of "''unsignedInt''" 0 4294967295] validate_range[of "''unsignedLong''" 0 18446744073709551615]

text \<open>The bounded integer types accept exactly the integer numerals whose value a signed or
  unsigned machine word of the type's width can hold.\<close>

theorem integer_types_are_words:
  "(ValidateBuiltin v ''byte'' ver = None \<longleftrightarrow> matches integerRegex v \<and> (\<exists>w::8 word. int_SetString v = Some (sint w))) \<and>
   (ValidateBuiltin v ''short'' ver = None \<longleftrightarrow> matches integerRegex v \<and> (\<exists>w::16 word. int_SetString v = Some (sint w))) \<and>
   (ValidateBuiltin v ''int'' ver = None \<longleftrightarrow> matches integerRegex v \<and> (\<exists>w::32 word. int_SetString v = Some (sint w))) \<and>
   (ValidateBuiltin v ''long'' ver = None \<longleftrightarrow> matches integerRegex v \<and> (\<exists>w::64 word. int_SetString v = Some (sint w))) \<and>
   (ValidateBuiltin v ''unsignedByte'' ver = None \<longleftrightarrow> matches integerRegex v \<and> (\<exists>w::8 word. int_SetString v = Some (uint w))) \<and>
   (ValidateBuiltin v ''unsignedShort'' ver = None \<longleftrightarrow> matches integerRegex v \<and> (\<exists>w::16 word. int_SetString v = Some (uint w))) \<and>
   (ValidateBuiltin v ''unsignedInt'' ver = None \<longleftrightarrow> matches integerRegex v \<and> (\<exists>w::32 word. int_SetString v = Some (uint w))) \<and>
   (ValidateBuiltin v ''unsignedLong'' ver = None \<longleftrightarrow> matches integerRegex v \<and> (\<exists>w::64 word. int_SetString v = Some (uint w)))"
  unfolding Some_word sint_values uint_values by (simp add: ValidateBuiltin_def machine_ranges integerRanges_def)

subsection \<open>Whitespace\<close>

definition blank_to_space :: "char \<Rightarrow> char" where
  "blank_to_space c = (if is_blank c then CHR 0x20 else c)"

lemma encode_rune_blank:
  assumes "scalar_value r"
  shows "encode_rune (if r = 9 \<or> r = 10 \<or> r = 13 then 32 else r) = map blank_to_space (encode_rune r)"
proof (cases "r < 128")
  case True
  have "is_blank (char_of r) \<longleftrightarrow> r = 32 \<or> r = 9 \<or> r = 10 \<or> r = 13"
    using True unfolding is_blank_def by (simp add: char_of_eq_iff take_bit_nat_eq_self)
  moreover have "char_of (32 :: nat) = CHR 0x20"
    by code_simp
  ultimately show ?thesis
    using True by (auto simp: encode_rune_def blank_to_space_def)
next
  case False
  have hi: "\<not> is_blank c" if "128 \<le> byte c" for c
    using that unfolding is_blank_def by auto
  have "128 \<le> byte c" if "c \<in> set (encode_rune r)" for c
    using that False assms by (auto simp: encode_rune_def scalar_value_def split: if_splits)
  then have "map blank_to_space (encode_rune r) = encode_rune r"
    using hi by (intro map_idI) (simp add: blank_to_space_def)
  then show ?thesis
    using False by simp
qed

lemma whitespaceReplace_map: "valid_utf8 s \<Longrightarrow> whitespaceReplace s = map blank_to_space s"
proof -
  assume "valid_utf8 s"
  then have "map blank_to_space s = map blank_to_space (concat (map encode_rune (runes s)))"
    by (simp add: encode_runes)
  also have "\<dots> = concat (map (\<lambda>r. map blank_to_space (encode_rune r)) (runes s))"
    by (simp add: map_concat comp_def)
  also have "\<dots> = concat (map (\<lambda>r. encode_rune (if r = 9 \<or> r = 10 \<or> r = 13 then 32 else r)) (runes s))"
    using encode_rune_blank runes_scalar by (intro arg_cong[of _ _ concat] map_cong) auto
  finally show ?thesis
    by (simp add: whitespaceReplace_def str_map_def)
qed

lemma collapse_normalize: "collapse_loop b inSpace (map blank_to_space s) = normalize_loop b inSpace s"
  by (induction s arbitrary: b inSpace) (auto simp: blank_to_space_def is_blank_def)
text \<open>The value of a type after its whiteSpace facet: a string is kept, in a normalized string
  every tab, line feed and carriage return is a space, and any other value is its
  whitespace-separated fields joined by single spaces.\<close>

theorem Normalize_whitespace:
  assumes "valid_utf8 s"
  shows "Normalize s t =
    (if t = ''string'' then s
     else if t = ''normalizedString'' then map (\<lambda>c. if is_blank c then CHR 0x20 else c) s
     else str_join (xsdFields s) '' '')"
proof -
  have "whitespaceCollapse s = NormalizePublicID s"
    by (simp add: whitespaceCollapse_def whitespaceReplace_map[OF assms] collapse_normalize NormalizePublicID_def)
  then show ?thesis
    by (simp add: Normalize_def WhiteSpace_def whitespaceReplace_map[OF assms] NormalizePublicID_words xsdFields_def blank_to_space_def[abs_def])
qed

theorem Normalize_whitespace_witness:
  "Normalize (CHR 0x09 # '' a  b '') ''token'' =
    (if ''token'' = ''string'' then CHR 0x09 # '' a  b ''
     else if ''token'' = ''normalizedString'' then map (\<lambda>c. if is_blank c then CHR 0x20 else c) (CHR 0x09 # '' a  b '')
     else str_join (xsdFields (CHR 0x09 # '' a  b '')) '' '')"
  by (rule Normalize_whitespace) simp

end
