(* ===== verification/XsdFloat.thy ===== *)
theory XsdFloat
  imports XsdOrder
begin

text \<open>
  Comparison of \<open>xs:float\<close> and \<open>xs:double\<close>: rounding is monotone and keeps the values of the type, so the
  comparison never contradicts the order of the exact values and tells them apart as far as the type can,
  validated floats always parse, and on facet bounds the comparison is a total order with NaN on top.
\<close>

subsection \<open>Rounding\<close>

lemma round_half_even_bounds: "of_int (round_half_even x) \<le> x + 1 / 2" "x - 1 / 2 \<le> of_int (round_half_even x)"
  by (auto simp: round_half_even_def Let_def) (linarith | simp add: algebra_simps)+

lemma round_half_even_mono:
  assumes "x \<le> y"
  shows "round_half_even x \<le> round_half_even y"
proof (cases "floor x = floor y")
  case True
  then show ?thesis
    using assms by (auto simp: round_half_even_def Let_def)
next
  case False
  then have "floor x + 1 \<le> floor y"
    using floor_mono[OF assms] by linarith
  moreover have "round_half_even x \<le> floor x + 1" "floor y \<le> round_half_even y"
    by (auto simp: round_half_even_def Let_def)
  ultimately show ?thesis
    by linarith
qed

lemma round_half_even_int: "round_half_even (of_int n) = n"
  by (simp add: round_half_even_def)

lemma powi_mono: "m \<le> n \<Longrightarrow> (2::rat) powi m \<le> 2 powi n"
  by (simp add: power_int_increasing)

lemma powi_split: "(2::rat) powi (m + n) = 2 powi m * 2 powi n"
  by (simp add: power_int_add)

lemma ilog2_spec:
  assumes "0 < r"
  shows "2 powi ilog2 r \<le> r" "r < 2 powi (ilog2 r + 1)"
proof -
  obtain n d where q: "quotient_of r = (n, d)"
    by fastforce
  have d: "0 < d"
    using quotient_of_denom_pos[OF q] .
  have r: "r = of_int n / of_int d"
    using quotient_of_div[OF q] .
  then have n: "0 < n"
    using assms d by (simp add: zero_less_divide_iff)
  have log: "(2::rat) powi (int (floorlog 2 (nat k)) - 1) \<le> of_int k \<and> of_int k < (2::rat) powi int (floorlog 2 (nat k))" if "0 < k" for k
  proof -
    have "2 ^ (floorlog 2 (nat k) - 1) \<le> nat k \<and> nat k < 2 ^ floorlog 2 (nat k)"
      using floorlog_bounds[of "nat k" 2] that by simp
    moreover have "0 < floorlog 2 (nat k)"
      using that by (simp add: floorlog_def)
    moreover have "of_int k = (of_nat (nat k) :: rat)"
      using that by simp
    ultimately have "(2::rat) ^ (floorlog 2 (nat k) - 1) \<le> of_int k \<and> of_int k < (2::rat) ^ floorlog 2 (nat k)"
      by (metis of_nat_le_iff of_nat_less_iff of_nat_numeral of_nat_power)
    moreover have "int (floorlog 2 (nat k)) - 1 = int (floorlog 2 (nat k) - 1)"
      using \<open>0 < floorlog 2 (nat k)\<close> by simp
    ultimately show ?thesis
      by (metis power_int_of_nat)
  qed
  define e where "e = int (floorlog 2 (nat n)) - int (floorlog 2 (nat d))"
  have "2 powi (e - 1) * of_int d \<le> (2::rat) powi (e - 1) * 2 powi int (floorlog 2 (nat d))"
    using log[OF d] by (intro mult_left_mono) auto
  also have "\<dots> = 2 powi (int (floorlog 2 (nat n)) - 1)"
    unfolding powi_split[symmetric] e_def by (simp add: algebra_simps)
  also have "\<dots> \<le> of_int n"
    using log[OF n] by simp
  finally have lo: "2 powi (e - 1) \<le> r"
    using d by (simp add: r pos_le_divide_eq)
  have "of_int n < (2::rat) powi int (floorlog 2 (nat n))"
    using log[OF n] by simp
  also have "\<dots> = 2 powi (e + 1) * 2 powi (int (floorlog 2 (nat d)) - 1)"
    unfolding powi_split[symmetric] e_def by (simp add: algebra_simps)
  also have "\<dots> \<le> 2 powi (e + 1) * of_int d"
    using log[OF d] by (intro mult_left_mono) auto
  finally have hi: "r < 2 powi (e + 1)"
    using d by (simp add: r pos_divide_less_eq)
  have "ilog2 r = (if 2 powi e \<le> r then e else e - 1)"
    by (simp add: ilog2_def q e_def Let_def)
  then show "2 powi ilog2 r \<le> r" "r < 2 powi (ilog2 r + 1)"
    using lo hi by (auto split: if_splits)
qed

lemma ilog2_mono: "0 < a \<Longrightarrow> a \<le> b \<Longrightarrow> ilog2 a \<le> ilog2 b"
proof (rule ccontr)
  assume "0 < a" "a \<le> b" "\<not> ilog2 a \<le> ilog2 b"
  then have "(2::rat) powi (ilog2 b + 1) \<le> 2 powi ilog2 a"
    by (intro powi_mono) simp
  then show False
    using ilog2_spec[of a] ilog2_spec[of b] \<open>0 < a\<close> \<open>a \<le> b\<close> by linarith
qed

text \<open>A value below a power of two that is a multiple of the spacing is rounded to at most that power.\<close>

lemma round_le_power:
  assumes "a \<le> 2 powi k" "e \<le> k"
  shows "of_int (round_half_even (a / 2 powi e)) * 2 powi e \<le> (2::rat) powi k"
proof -
  have "a / 2 powi e \<le> 2 powi (k - e)"
    using assms(1) by (simp add: power_int_diff divide_right_mono)
  moreover have p: "(2::rat) powi (k - e) = of_int (2 ^ nat (k - e))"
    using assms(2) by (simp add: power_int_def)
  ultimately have "round_half_even (a / 2 powi e) \<le> 2 ^ nat (k - e)"
    using round_half_even_mono[of "a / 2 powi e" "of_int (2 ^ nat (k - e))"] round_half_even_int[of "2 ^ nat (k - e)"] by simp
  then have "(of_int (round_half_even (a / 2 powi e)) :: rat) \<le> 2 powi (k - e)"
    unfolding p of_int_le_iff .
  then have "of_int (round_half_even (a / 2 powi e)) * 2 powi e \<le> (2::rat) powi (k - e) * 2 powi e"
    by (intro mult_right_mono) auto
  then show ?thesis
    by (simp flip: powi_split)
qed

lemma round_ge_power:
  assumes "2 powi k \<le> b" "e \<le> k"
  shows "(2::rat) powi k \<le> of_int (round_half_even (b / 2 powi e)) * 2 powi e"
proof -
  have "2 powi (k - e) \<le> b / 2 powi e"
    using assms(1) by (simp add: power_int_diff divide_right_mono)
  moreover have p: "(2::rat) powi (k - e) = of_int (2 ^ nat (k - e))"
    using assms(2) by (simp add: power_int_def)
  ultimately have "2 ^ nat (k - e) \<le> round_half_even (b / 2 powi e)"
    using round_half_even_mono[of "of_int (2 ^ nat (k - e))" "b / 2 powi e"] round_half_even_int[of "2 ^ nat (k - e)"] by simp
  then have "(2::rat) powi (k - e) \<le> of_int (round_half_even (b / 2 powi e))"
    unfolding p of_int_le_iff .
  then have "(2::rat) powi (k - e) * 2 powi e \<le> of_int (round_half_even (b / 2 powi e)) * 2 powi e"
    by (intro mult_right_mono) auto
  then show ?thesis
    by (simp flip: powi_split)
qed

lemma round_magnitude_mono:
  assumes "0 < a" "a \<le> b" "1 \<le> p"
  shows "round_magnitude p q a \<le> round_magnitude p q b"
proof -
  define ea where "ea = max q (ilog2 a - (p - 1))"
  define eb where "eb = max q (ilog2 b - (p - 1))"
  have le: "ilog2 a \<le> ilog2 b"
    by (rule ilog2_mono[OF assms(1,2)])
  show ?thesis
  proof (cases "ea = eb")
    case True
    have "a / 2 powi eb \<le> b / 2 powi eb"
      using assms(2) by (simp add: divide_right_mono)
    then have "of_int (round_half_even (a / 2 powi eb)) * 2 powi eb \<le> (of_int (round_half_even (b / 2 powi eb)) :: rat) * 2 powi eb"
      by (intro mult_right_mono) (auto intro: round_half_even_mono)
    then show ?thesis
      using True by (simp add: round_magnitude_def flip: ea_def eb_def)
  next
    case False
    then have e: "eb = ilog2 b - (p - 1)" "ea < eb"
      using le by (auto simp: ea_def eb_def)
    have "ilog2 a + 1 \<le> ilog2 b"
      using e le False by (auto simp: ea_def eb_def)
    then have "a \<le> 2 powi ilog2 b"
      using ilog2_spec(2)[OF assms(1)] powi_mono[of "ilog2 a + 1" "ilog2 b"] by linarith
    then have "of_int (round_half_even (a / 2 powi ea)) * 2 powi ea \<le> (2::rat) powi ilog2 b"
      using e assms(3) by (intro round_le_power) simp_all
    also have "\<dots> \<le> of_int (round_half_even (b / 2 powi eb)) * 2 powi eb"
      using e assms ilog2_spec(1)[of b] by (intro round_ge_power) simp_all
    finally show ?thesis
      by (simp add: round_magnitude_def flip: ea_def eb_def)
  qed
qed

lemma round_magnitude_nonneg: "0 \<le> a \<Longrightarrow> 0 \<le> round_magnitude p q a"
  using round_half_even_mono[of 0 "a / 2 powi max q (ilog2 a - (p - 1))"] round_half_even_int[of 0]
  by (simp add: round_magnitude_def Let_def)

lemma round_float_pos:
  "0 < r \<Longrightarrow> round_float p q m r = (if 2 ^ m \<le> round_magnitude p q r then Inf False else Fin (round_magnitude p q r))"
  "r < 0 \<Longrightarrow> round_float p q m r = (if 2 ^ m \<le> round_magnitude p q (- r) then Inf True else Fin (- round_magnitude p q (- r)))"
  by (simp_all add: round_float_def)

lemma round_float_not_NaN: "round_float p q m r \<noteq> NaN"
  by (simp add: round_float_def Let_def)

lemma round_float_sign:
  "0 \<le> r \<Longrightarrow> round_float p q m r = Inf False \<or> (\<exists>v\<ge>0. round_float p q m r = Fin v)"
  "r \<le> 0 \<Longrightarrow> round_float p q m r = Inf True \<or> (\<exists>v\<le>0. round_float p q m r = Fin v)"
  using round_magnitude_nonneg[of "\<bar>r\<bar>" p q] by (auto simp: round_float_def Let_def)

lemma round_float_mono:
  assumes "x \<le> y" "1 \<le> p"
  shows "\<not> float_less (round_float p q m y) (round_float p q m x)"
proof -
  consider "0 < x" | "y < 0" | "x \<le> 0" "0 \<le> y"
    by linarith
  then show ?thesis
  proof cases
    case 1
    then show ?thesis
      using round_magnitude_mono[OF 1 assms, of q] assms(1) by (auto simp: round_float_pos(1))
  next
    case 2
    then show ?thesis
      using round_magnitude_mono[of "- y" "- x" p q] assms by (auto simp: round_float_pos(2))
  next
    case 3
    show ?thesis
      using round_float_sign(1)[OF 3(2), of p q m] round_float_sign(2)[OF 3(1), of p q m] by auto
  qed
qed

lemma float_less_irrefl: "\<not> float_less f f"
  by (cases f) auto

lemma float_less_trans: "float_less f g \<Longrightarrow> float_less g h \<Longrightarrow> float_less f h"
  by (cases f; cases g; cases h) auto

lemma float_less_total: "f \<noteq> NaN \<Longrightarrow> g \<noteq> NaN \<Longrightarrow> float_less f g \<or> f = g \<or> float_less g f"
  by (cases f; cases g) auto

text \<open>Rounding twice, to \<open>float64\<close> and on to \<open>float32\<close>, is monotone as well.\<close>

lemma to_single_mono:
  assumes "\<not> float_less g f" "f \<noteq> NaN" "g \<noteq> NaN"
  shows "\<not> float_less (to_single g) (to_single f)"
proof (cases f)
  case (Fin x)
  show ?thesis
  proof (cases g)
    case (Fin y)
    then have "x \<le> y"
      using assms(1) \<open>f = Fin x\<close> by simp
    then show ?thesis
      using round_float_mono[of x y 24] \<open>f = Fin x\<close> Fin by simp
  next
    case (Inf n)
    then show ?thesis
      using assms(1) \<open>f = Fin x\<close> by (cases "round_float 24 (-149) 128 x") auto
  qed (use assms in simp)
next
  case (Inf n)
  then show ?thesis
    using assms by (cases g; cases "to_single g") (auto simp: round_float_def)
qed (use assms in simp)

lemma to_single_not_NaN: "f \<noteq> NaN \<Longrightarrow> to_single f \<noteq> NaN"
  by (cases f) (simp_all add: round_float_not_NaN)

subsection \<open>Validated floats parse\<close>

lemma exponent_text:
  assumes "e \<in> rlang exponentFrag"
  obtains "e = []" | c g d where "e = c # g @ d" "c = CHR ''e'' \<or> c = CHR ''E''" "g = [] \<or> g = ''+'' \<or> g = ''-''" "d \<noteq> []" "digits d"
proof -
  have u: "u \<in> rlang (Cls ''eE'') \<longleftrightarrow> u = ''e'' \<or> u = ''E''" for u
    by (auto simp: in_Cls)
  from assms consider "e = []" | u g d where "e = u @ g @ d @ []" "u = ''e'' \<or> u = ''E''" "g = [] \<or> g = ''+'' \<or> g = ''-''" "d \<noteq> []" "digits d"
    unfolding exponentFrag_def in_Opt Seqs.simps in_Cat u in_Sign in_Plus_D rlang.simps(2) singleton_iff by blast
  then show thesis
  proof cases
    case (2 u g d)
    then have "e = hd u # g @ d" "hd u = CHR ''e'' \<or> hd u = CHR ''E''"
      by auto
    then show thesis
      using that(2) 2 by metis
  qed (rule that(1))
qed

lemma int_SetString_signed:
  assumes "g = [] \<or> g = ''+'' \<or> g = ''-''" "d \<noteq> []" "digits d"
  shows "int_SetString (g @ d) \<noteq> None"
  using assms by (cases d) (auto simp: int_SetString_def)

lemma decimal_no_exponent:
  assumes "s \<in> rlang decimalRegex" "c \<in> set s"
  shows "c \<noteq> CHR ''e'' \<and> c \<noteq> CHR ''E''"
proof (rule decimal_parse[OF assms(1)])
  fix g i p f
  assume "s = g @ i @ (if p then ''.'' else []) @ f" "g \<in> {[], ''+'', ''-''}" "digits i" "digits f"
  moreover have "c \<noteq> CHR ''e'' \<and> c \<noteq> CHR ''E''" if "digits w" "c \<in> set w" for w
    using that by (auto simp: digits_set ascii_digit_def)
  ultimately show ?thesis
    using assms(2) by (auto split: if_splits)
qed

lemma numeral_value_parts:
  assumes m: "m \<in> rlang decimalRegex" and "e \<in> rlang exponentFrag"
  obtains x where "numeral_value (m @ e) = Some x"
proof -
  obtain x where x: "rat_SetString m = Some x"
    by (rule decimal_parse[OF m])
  have tw: "takeWhile (\<lambda>c. c \<noteq> CHR ''e'' \<and> c \<noteq> CHR ''E'') (m @ r) = m @ takeWhile (\<lambda>c. c \<noteq> CHR ''e'' \<and> c \<noteq> CHR ''E'') r" for r
    using decimal_no_exponent[OF m] by (simp add: takeWhile_append2)
  show thesis
    using assms(2)
  proof (cases rule: exponent_text)
    case 1
    have w: "takeWhile (\<lambda>c. c \<noteq> CHR ''e'' \<and> c \<noteq> CHR ''E'') m = m"
      using decimal_no_exponent[OF m] by (simp add: takeWhile_eq_all_conv)
    have "numeral_value m = Some x"
      unfolding numeral_value_def Let_def w using x by simp
    then show thesis
      using that 1 by simp
  next
    case (2 c h d)
    obtain k where "int_SetString (h @ d) = Some k"
      using int_SetString_signed[OF 2(3-5)] by blast
    moreover have "takeWhile (\<lambda>c. c \<noteq> CHR ''e'' \<and> c \<noteq> CHR ''E'') e = []"
      using 2(1,2) by auto
    ultimately show thesis
      using that x tw[of e] 2(1) by (simp add: numeral_value_def Let_def)
  qed
qed

lemma numeral_value_valid:
  assumes "s \<in> rlang (Cat Sign (Cat Numeral exponentFrag))"
  obtains x where "numeral_value s = Some x"
proof -
  from assms obtain g n e where s: "s = (g @ n) @ e" "g \<in> rlang Sign" "n \<in> rlang Numeral" "e \<in> rlang exponentFrag"
    unfolding in_Cat append_assoc by blast
  have "g @ n \<in> rlang decimalRegex"
    using s unfolding decimalRegex_def in_Cat by blast
  then show thesis
    by (rule numeral_value_parts[OF _ s(4)]) (rule that, simp only: s(1))
qed

definition float_types :: "string set" where
  "float_types = {''float'', ''double''}"

lemma parseXSDFloat_value: "numeral_value s = Some x \<Longrightarrow> parseXSDFloat s = Some (to_double x)"
proof -
  have "numeral_value ''INF'' = None" "numeral_value ''+INF'' = None" "numeral_value ''-INF'' = None" "numeral_value ''NaN'' = None"
    by code_simp+
  moreover assume "numeral_value s = Some x"
  ultimately have "s \<noteq> ''INF''" "s \<noteq> ''+INF''" "s \<noteq> ''-INF''" "s \<noteq> ''NaN''"
    by (metis option.distinct(1))+
  then show ?thesis
    using \<open>numeral_value s = Some x\<close> by (simp add: parseXSDFloat_def ParseFloat_def)
qed

lemma valid_float_regex:
  assumes "t \<in> float_types" "valid_lexical t s"
  shows "trimXSDSpace s \<in> rlang floatRegex"
proof -
  have "ValidateBuiltin (trimXSDSpace s) t Version11 = validateFloat (trimXSDSpace s) Version11"
    using assms(1) unfolding float_types_def by (elim insertE emptyE) (simp_all add: ValidateBuiltin_def)
  then show ?thesis
    using assms(2) by (simp add: valid_lexical_def validateFloat_def matches_iff split: if_splits)
qed

lemma floatRegex_cases:
  assumes "s \<in> rlang floatRegex"
  obtains "s \<in> rlang (Cat Sign (Cat Numeral exponentFrag))" | "s = ''INF'' \<or> s = ''+INF'' \<or> s = ''-INF'' \<or> s = ''NaN''"
proof -
  from assms consider "s \<in> rlang (Cat Sign (Cat Numeral exponentFrag))" | g where "s = g @ ''INF''" "g \<in> rlang Sign" | "s = ''NaN''"
    unfolding floatRegex_def rlang.simps(4) Un_iff in_Cat in_Lit by blast
  then show thesis
    by cases (use that in \<open>auto simp: in_Sign\<close>)
qed

lemma valid_float_parses:
  assumes "t \<in> float_types" "valid_lexical t s"
  obtains f where "parseXSDFloat (trimXSDSpace s) = Some f"
proof -
  have "trimXSDSpace s \<in> rlang floatRegex"
    by (rule valid_float_regex[OF assms])
  then show thesis
  proof (cases rule: floatRegex_cases)
    case 1
    then obtain x where "numeral_value (trimXSDSpace s) = Some x"
      by (rule numeral_value_valid)
    then show thesis
      using that parseXSDFloat_value by blast
  next
    case 2
    then have "parseXSDFloat (trimXSDSpace s) \<noteq> None"
      by (elim disjE) (simp_all add: parseXSDFloat_def)
    then show thesis
      using that by blast
  qed
qed

text \<open>The float of a lexical form, in the precision of its type.\<close>

definition float_value :: "string \<Rightarrow> string \<Rightarrow> float" where
  "float_value t s = (if t = ''float'' then to_single else id) (the (parseXSDFloat (trimXSDSpace s)))"

lemma valid_both: "t \<in> float_types \<Longrightarrow> valid_lexical t a \<Longrightarrow> valid_lexical t b \<Longrightarrow> validBuiltinOperands a b t"
  by (simp add: valid_lexical_def validBuiltinOperands_def)

lemma NaN_single: "float_value t s = NaN \<longleftrightarrow> the (parseXSDFloat (trimXSDSpace s)) = NaN"
  by (cases "the (parseXSDFloat (trimXSDSpace s))") (simp_all add: float_value_def round_float_not_NaN)

lemma Compare_float_value:
  assumes "t \<in> float_types" "valid_lexical t a" "valid_lexical t b"
  shows "Compare a b t = (if float_value t a = NaN \<or> float_value t b = NaN then (0, False)
    else if float_less (float_value t a) (float_value t b) then (-1, True)
    else if float_less (float_value t b) (float_value t a) then (1, True) else (0, True))"
proof -
  obtain x y where p: "parseXSDFloat (trimXSDSpace a) = Some x" "parseXSDFloat (trimXSDSpace b) = Some y"
    using valid_float_parses[OF assms(1,2)] valid_float_parses[OF assms(1,3)] by metis
  consider "t = ''float''" | "t = ''double''"
    using assms(1) unfolding float_types_def by blast
  then show ?thesis
  proof cases
    case 1
    then have "Compare a b t = compareFloat a b True"
      by (simp add: Compare_def)
    then show ?thesis
      using 1 p valid_both[OF assms] unfolding NaN_single by (simp add: compareFloat_def float_value_def)
  next
    case 2
    then have "Compare a b t = compareFloat a b False"
      by (simp add: Compare_def)
    then show ?thesis
      using 2 p valid_both[OF assms] unfolding NaN_single by (simp add: compareFloat_def float_value_def)
  qed
qed

lemma facet_bound_value:
  assumes "t \<in> float_types" "valid_lexical t a" "valid_lexical t b"
  shows "CompareFloatFacetBound a b t = (if float_value t a = NaN \<or> float_value t b = NaN
      then (of_bool (float_value t a = NaN) - of_bool (float_value t b = NaN), True) else Compare a b t)"
proof -
  obtain x y where p: "parseXSDFloat (trimXSDSpace a) = Some x" "parseXSDFloat (trimXSDSpace b) = Some y"
    using valid_float_parses[OF assms(1,2)] valid_float_parses[OF assms(1,3)] by metis
  consider "t = ''float''" | "t = ''double''"
    using assms(1) unfolding float_types_def by blast
  then show ?thesis
  proof cases
    case 1
    then have "Compare a b t = compareFloat a b True"
      by (simp add: Compare_def)
    then show ?thesis
      using 1 p valid_both[OF assms] unfolding NaN_single by (simp add: CompareFloatFacetBound_def)
  next
    case 2
    then have "Compare a b t = compareFloat a b False"
      by (simp add: Compare_def)
    then show ?thesis
      using 2 p valid_both[OF assms] unfolding NaN_single by (simp add: CompareFloatFacetBound_def)
  qed
qed

subsection \<open>Double rounding\<close>

lemma ilog2_eq:
  assumes "2 powi e \<le> r" "r < 2 powi (e + 1)"
  shows "ilog2 r = e"
proof -
  have r: "0 < r"
    using assms(1) zero_less_power_int[of "2::rat" e] by linarith
  have lt: "m < n" if "(2::rat) powi m < 2 powi n" for m n
    using that powi_mono[of n m] by linarith
  have "e < ilog2 r + 1" "ilog2 r < e + 1"
    using ilog2_spec[OF r] assms by (intro lt; linarith)+
  then show ?thesis
    by linarith
qed

lemma round_half_even_near:
  assumes "\<bar>x - of_int n\<bar> < 1 / 2"
  shows "round_half_even x = n"
proof -
  have "of_int (round_half_even x) < of_int n + (1::rat)" "of_int n < of_int (round_half_even x) + (1::rat)"
    using assms round_half_even_bounds[of x] by linarith+
  then show ?thesis
    by linarith
qed

lemma round_half_even_tie: "even n \<Longrightarrow> round_half_even (of_int n + 1 / 2) = n"
proof -
  have "floor (of_int n + 1 / 2 :: rat) = n"
    by linarith
  moreover assume "even n"
  ultimately show ?thesis
    by (simp add: round_half_even_def Let_def)
qed

text \<open>The least bit above the halfway point between 1 and the next float is lost in the rounding to
  \<open>float64\<close>, and the tie then goes to 1, although the float nearest to the numeral is above 1.\<close>

definition above_half :: rat where
  "above_half = 1 + 1 / 2 ^ 24 + 1 / 10 ^ 29"

lemma double_rounding:
  "to_single (to_double above_half) = Fin 1" "round_float 24 (-149) 128 above_half = Fin (1 + 1 / 2 ^ 23)"
proof -
  have l: "ilog2 above_half = 0" "ilog2 (16777217 / 16777216) = 0"
    by (rule ilog2_eq; simp add: above_half_def)+
  have f: "round_half_even (above_half * 2 ^ 52) = 2 ^ 52 + 2 ^ 28" "round_half_even ((1 + 1 / 2 ^ 24) * 2 ^ 23) = 2 ^ 23"
    "round_half_even (above_half * 2 ^ 23) = 2 ^ 23 + 1"
    using round_half_even_near[of "above_half * 2 ^ 52" "2 ^ 52 + 2 ^ 28"] round_half_even_tie[of "2 ^ 23"]
      round_half_even_near[of "above_half * 2 ^ 23" "2 ^ 23 + 1"]
    by (simp_all add: above_half_def)
  have p: "(2::rat) powi (-52) = 1 / 2 ^ 52" "(2::rat) powi (-23) = 1 / 2 ^ 23"
    by (simp_all add: power_int_def power_one_over)
  have pos: "0 < above_half"
    by (simp add: above_half_def)
  have "to_double above_half = Fin (16777217 / 16777216)"
    using f(1) pos by (simp add: to_double_def round_float_def round_magnitude_def l p)
  then show "to_single (to_double above_half) = Fin 1"
    using f(2) by (simp add: round_float_def round_magnitude_def l p)
  show "round_float 24 (-149) 128 above_half = Fin (1 + 1 / 2 ^ 23)"
    using f(3) pos by (simp add: round_float_def round_magnitude_def l p)
qed

subsection \<open>Values of the type are kept\<close>

text \<open>The finite values of the type, as XML Schema defines them: \<open>m * 2 ^ k\<close> with 24 or 53 bits for \<open>m\<close>.\<close>

definition representable :: "string \<Rightarrow> rat \<Rightarrow> bool" where
  "representable t u \<longleftrightarrow> (if t = ''float''
     then \<bar>u\<bar> < 2 ^ 128 \<and> (\<exists>m k. u = of_int m * 2 powi k \<and> \<bar>m\<bar> < 2 ^ 24 \<and> - 149 \<le> k)
     else \<bar>u\<bar> < 2 ^ 1024 \<and> (\<exists>m k. u = of_int m * 2 powi k \<and> \<bar>m\<bar> < 2 ^ 53 \<and> - 1074 \<le> k))"

lemma round_magnitude_exact:
  assumes "u = of_int m * 2 powi k" "0 < u" "m < 2 ^ p" "q \<le> k"
  shows "round_magnitude (int p) q u = u"
proof -
  define e where "e = max q (ilog2 u - (int p - 1))"
  have "u < 2 powi (int p) * 2 powi k"
    unfolding assms(1) using assms(3) by (intro mult_strict_right_mono) (simp_all flip: of_int_power_less_of_int_cancel_iff)
  then have "(2::rat) powi ilog2 u < 2 powi (int p + k)"
    using ilog2_spec(1)[OF assms(2)] by (simp add: powi_split)
  then have "ilog2 u < int p + k"
    using powi_mono[of "int p + k" "ilog2 u"] by linarith
  then have e: "e \<le> k"
    using assms(4) by (simp add: e_def)
  then have "(2::rat) powi (k - e) = of_int (2 ^ nat (k - e))"
    by (simp add: power_int_def)
  then have i: "u / 2 powi e = of_int (m * 2 ^ nat (k - e))"
    by (simp add: assms(1) power_int_diff flip: times_divide_eq_right)
  have "round_magnitude (int p) q u = of_int (round_half_even (u / 2 powi e)) * 2 powi e"
    by (simp add: round_magnitude_def flip: e_def)
  also have "\<dots> = u / 2 powi e * 2 powi e"
    by (simp only: i round_half_even_int)
  finally show ?thesis by simp
qed

lemma round_float_exact:
  assumes "u = of_int m * 2 powi k" "\<bar>m\<bar> < 2 ^ p" "q \<le> k" "\<bar>u\<bar> < 2 ^ n"
  shows "round_float (int p) q n u = Fin u"
proof -
  consider "u = 0" | "0 < u" | "0 < - u" by linarith
  then show ?thesis
  proof cases
    case 2
    then show ?thesis
      using round_magnitude_exact[OF assms(1) 2, of p q] assms by (simp add: round_float_def)
  next
    case 3
    have "- u = of_int (- m) * 2 powi k" using assms(1) by simp
    from round_magnitude_exact[OF this 3, of p q] 3 assms show ?thesis by (simp add: round_float_def)
  qed (simp add: round_float_def)
qed

text \<open>The value of a numeral in the type.\<close>

definition rounded :: "string \<Rightarrow> rat \<Rightarrow> float" where
  "rounded t x = (if t = ''float'' then to_single else id) (to_double x)"

lemma rounded_exact: "representable t u \<Longrightarrow> rounded t u = Fin u"
proof (cases "t = ''float''")
  case True
  assume "representable t u"
  then obtain m k where u: "u = of_int m * 2 powi k" "\<bar>m\<bar> < 2 ^ 24" "- 149 \<le> k" "\<bar>u\<bar> < 2 ^ 128"
    using True by (auto simp: representable_def)
  have "\<bar>m\<bar> < 2 ^ 53" "\<bar>u\<bar> < 2 ^ 1024"
    using u(2) order_less_le_trans[OF u(4) power_increasing[of 128 1024 "2::rat"]] by simp_all
  then show ?thesis
    using True u round_float_exact[OF u(1,2,3,4)] round_float_exact[OF u(1), of 53 "- 1074" 1024]
    by (simp add: rounded_def to_double_def)
next
  case False
  assume "representable t u"
  then obtain m k where u: "u = of_int m * 2 powi k" "\<bar>m\<bar> < 2 ^ 53" "- 1074 \<le> k" "\<bar>u\<bar> < 2 ^ 1024"
    using False by (auto simp: representable_def)
  then show ?thesis
    using False round_float_exact[OF u] by (simp add: rounded_def to_double_def)
qed

lemma rounded_mono: "x \<le> y \<Longrightarrow> \<not> float_less (rounded t y) (rounded t x)"
  using round_float_mono[of x y 53] to_single_mono[of "to_double y" "to_double x"]
  by (auto simp: rounded_def to_double_def round_float_not_NaN)

lemma rounded_not_NaN: "rounded t x \<noteq> NaN"
  by (simp add: rounded_def to_double_def round_float_not_NaN to_single_not_NaN)

lemma rounded_less:
  assumes "representable t u" "representable t v" "x \<le> u" "u < v" "v \<le> y"
  shows "float_less (rounded t x) (rounded t y)"
  using rounded_mono[OF assms(3), of t] rounded_mono[OF assms(5), of t] rounded_not_NaN[of t x] rounded_not_NaN[of t y] assms(4)
  unfolding rounded_exact[OF assms(1)] rounded_exact[OF assms(2)]
  by (cases "rounded t x"; cases "rounded t y") auto

lemma float_value_rounded:
  "numeral_value (trimXSDSpace s) = Some x \<Longrightarrow> float_value t s = rounded t x"
  by (simp add: float_value_def rounded_def parseXSDFloat_value)

subsection \<open>Properties\<close>

text \<open>C35: The comparison of two floats or doubles written as numerals is the order of their exact values, as
  far as the type can tell them apart.  It is always defined; it never contradicts the order of the exact
  values (in particular equal values are equal); and when the type has two values between
  the numerals (the lower one may be the lower numeral itself, the upper one the upper numeral) it says less, or greater.\<close>

theorem Compare_float_order:
  assumes "t \<in> {''float'', ''double''}" "valid_lexical t a" "valid_lexical t b"
    and "numeral_value (trimXSDSpace a) = Some x" "numeral_value (trimXSDSpace b) = Some y"
  shows "(\<exists>s \<in> {-1, 0, 1}. Compare a b t = (s, True)) \<and>
    (x \<le> y \<longrightarrow> Compare a b t \<noteq> (1, True)) \<and> (y \<le> x \<longrightarrow> Compare a b t \<noteq> (-1, True)) \<and>
    (\<forall>u v. representable t u \<and> representable t v \<and> u < v \<longrightarrow>
       (x \<le> u \<and> v \<le> y \<longrightarrow> Compare a b t = (-1, True)) \<and> (y \<le> u \<and> v \<le> x \<longrightarrow> Compare a b t = (1, True)))"
proof -
  have t: "t \<in> float_types"
    using assms(1) by (simp only: float_types_def)
  have c: "Compare a b t = (if float_less (rounded t x) (rounded t y) then (-1, True)
      else if float_less (rounded t y) (rounded t x) then (1, True) else (0, True))"
    unfolding Compare_float_value[OF t assms(2,3)] float_value_rounded[OF assms(4)] float_value_rounded[OF assms(5)]
    by (simp add: rounded_not_NaN)
  have n: "\<not> (float_less (rounded t x) (rounded t y) \<and> float_less (rounded t y) (rounded t x))"
    using float_less_trans float_less_irrefl by blast
  show ?thesis
    unfolding c using n rounded_mono[of x y t] rounded_mono[of y x t] rounded_less[of t _ _ x y] rounded_less[of t _ _ y x]
    by auto
qed

theorem Compare_float_order_witness: "Compare ''1e3'' ''1000.5'' ''float'' = (-1, True)"
proof -
  have t: "trimXSDSpace ''1e3'' = ''1e3''" "trimXSDSpace ''1000.5'' = ''1000.5''"
    by code_simp+
  have n: "numeral_value (trimXSDSpace ''1e3'') = Some 1000" "numeral_value (trimXSDSpace ''1000.5'') = Some (10005 / 10)"
    unfolding t by (simp_all add: numeral_value_def rat_SetString_def int_SetString_def str_cut_def digits_def ascii_digit_def nat_of_def signed_def)
  have v: "valid_lexical ''float'' ''1e3''" "valid_lexical ''float'' ''1000.5''"
    by code_simp+
  have "representable ''float'' 1000" "representable ''float'' (2001 / 2)"
    unfolding representable_def
    by (simp_all, rule exI[of _ 1000], rule exI[of _ 0], simp, rule exI[of _ 2001], rule exI[of _ "- 1"], simp add: power_int_minus)
  with Compare_float_order[OF _ v n, THEN conjunct2, THEN conjunct2, THEN conjunct2, THEN spec[of _ 1000], THEN spec[of _ "2001 / 2"]]
  show ?thesis by simp
qed

text \<open>For the facet bounds of float and double the comparison is total: NaN equals itself and is
  above every other value, other values compare as \<open>Compare\<close> says, exchanging the operands negates
  the sign, and the order is transitive.\<close>

theorem CompareFloatFacetBound_total:
  assumes "t \<in> {''float'', ''double''}" "valid_lexical t a" "valid_lexical t b" "valid_lexical t c"
  shows "snd (CompareFloatFacetBound a b t) \<and>
    CompareFloatFacetBound b a t = (- fst (CompareFloatFacetBound a b t), True) \<and>
    (float_value t a \<noteq> NaN \<longrightarrow> float_value t b \<noteq> NaN \<longrightarrow> CompareFloatFacetBound a b t = Compare a b t) \<and>
    (float_value t a = NaN \<longrightarrow> float_value t b \<noteq> NaN \<longrightarrow> CompareFloatFacetBound a b t = (1, True)) \<and>
    (fst (CompareFloatFacetBound a b t) \<le> 0 \<longrightarrow> fst (CompareFloatFacetBound b c t) \<le> 0 \<longrightarrow> fst (CompareFloatFacetBound a c t) \<le> 0)"
proof -
  have t: "t \<in> float_types"
    using assms(1) by (simp only: float_types_def)
  note v = facet_bound_value[OF t assms(2,3)] facet_bound_value[OF t assms(3,2)] facet_bound_value[OF t assms(3,4)]
    facet_bound_value[OF t assms(2,4)] Compare_float_value[OF t assms(2,3)] Compare_float_value[OF t assms(3,2)]
    Compare_float_value[OF t assms(3,4)] Compare_float_value[OF t assms(2,4)]
  define x y z where "x = float_value t a" "y = float_value t b" "z = float_value t c"
  show ?thesis
    unfolding v x_y_z_def[symmetric]
    by (cases x; cases y; cases z; auto)
qed

theorem CompareFloatFacetBound_total_witness:
  "snd (CompareFloatFacetBound ''NaN'' ''1'' ''double'') \<and>
    CompareFloatFacetBound ''1'' ''NaN'' ''double'' = (- fst (CompareFloatFacetBound ''NaN'' ''1'' ''double''), True)"
proof -
  have "valid_lexical ''double'' ''NaN''" "valid_lexical ''double'' ''1''" "valid_lexical ''double'' ''-INF''"
    by code_simp+
  from CompareFloatFacetBound_total[OF _ this] show ?thesis
    by simp
qed

end
