(* ===== verification/XsdDigits.thy ===== *)
theory XsdDigits
  imports XsdOrder
begin

text \<open>
  The digit counters of \<open>internal/xsd/value/facets.go\<close>: on a decimal numeral they compute the
  totalDigits and fractionDigits of its value, as the facets define them.
\<close>

subsection \<open>Zeros\<close>

lemma zeros_split_left:
  obtains z where "i = z @ trim_left i ''0''" "set z \<subseteq> {CHR ''0''}" "trim_left i ''0'' = [] \<or> hd (trim_left i ''0'') \<noteq> CHR ''0''"
proof
  show "i = takeWhile (\<lambda>c. c \<in> set ''0'') i @ trim_left i ''0''"
    by (simp add: trim_left_def)
  show "set (takeWhile (\<lambda>c. c \<in> set ''0'') i) \<subseteq> {CHR ''0''}"
    by (auto dest: set_takeWhileD)
  show "trim_left i ''0'' = [] \<or> hd (trim_left i ''0'') \<noteq> CHR ''0''"
    using hd_dropWhile[of "\<lambda>c. c \<in> set ''0''" i] by (auto simp: trim_left_def)
qed

lemma zeros_split_right:
  obtains z where "f = trim_right f ''0'' @ z" "set z \<subseteq> {CHR ''0''}" "trim_right f ''0'' = [] \<or> last (trim_right f ''0'') \<noteq> CHR ''0''"
proof -
  obtain z where z: "rev f = z @ trim_left (rev f) ''0''" "set z \<subseteq> {CHR ''0''}"
    "trim_left (rev f) ''0'' = [] \<or> hd (trim_left (rev f) ''0'') \<noteq> CHR ''0''"
    by (rule zeros_split_left)
  have t: "trim_right f ''0'' = rev (trim_left (rev f) ''0'')"
    by (simp add: trim_right_def trim_left_def)
  have "f = trim_right f ''0'' @ rev z"
    using z(1) unfolding t by (metis rev_append rev_rev_ident)
  then show thesis
    using that[of "rev z"] z(2,3) by (simp add: t last_rev)
qed

lemma nat_of_zeros: "set z \<subseteq> {CHR ''0''} \<Longrightarrow> nat_of z = 0"
  by (induction z) (simp_all add: nat_of_Cons)

lemma nat_of_ge: "digits d \<Longrightarrow> d \<noteq> [] \<Longrightarrow> hd d \<noteq> CHR ''0'' \<Longrightarrow> 10 ^ (length d - 1) \<le> nat_of d"
proof (cases d)
  case (Cons c e)
  assume "digits d" "hd d \<noteq> CHR ''0''"
  moreover have "c \<noteq> CHR ''0'' \<longleftrightarrow> byte c \<noteq> 48"
    using byte_inject[of c "CHR ''0''"] by (simp del: byte_inject)
  ultimately have "48 \<le> byte c" "byte c \<noteq> 48"
    using Cons by (auto simp: ascii_digit_def)
  then have "1 \<le> byte c - 48"
    by simp
  then have "1 * 10 ^ length e \<le> (byte c - 48) * 10 ^ length e"
    by (rule mult_le_mono1)
  then have "10 ^ length e \<le> nat_of d"
    unfolding Cons nat_of_Cons by linarith
  then show ?thesis
    using Cons by simp
qed simp

lemma nat_of_last: "digits d \<Longrightarrow> d \<noteq> [] \<Longrightarrow> last d \<noteq> CHR ''0'' \<Longrightarrow> \<not> 10 dvd nat_of d"
proof (cases d rule: rev_cases)
  case (snoc e c)
  assume "digits d" "last d \<noteq> CHR ''0''"
  moreover have "c \<noteq> CHR ''0'' \<longleftrightarrow> byte c \<noteq> 48"
    using byte_inject[of c "CHR ''0''"] by (simp del: byte_inject)
  ultimately have "48 \<le> byte c" "byte c \<le> 57" "byte c \<noteq> 48"
    using snoc by (auto simp: ascii_digit_def)
  then have "\<not> 10 dvd byte c - 48"
    by (simp add: dvd_eq_mod_eq_0)
  then show ?thesis
    using snoc by (simp add: nat_of_append nat_of_Cons dvd_add_right_iff)
qed simp

subsection \<open>The counters\<close>

text \<open>What the two counters measure: \<open>L\<close> significant integer digits and \<open>F\<close> fraction digits of a
  value \<open>N / 10 ^ F\<close> that has no fewer.\<close>

definition digit_counts :: "rat \<Rightarrow> nat \<Rightarrow> nat \<Rightarrow> bool" where
  "digit_counts r L F \<longleftrightarrow> (\<exists>neg N. r = signed neg (of_nat N / 10 ^ F) \<and> N < 10 ^ (L + F) \<and> (0 < F \<longrightarrow> \<not> 10 dvd N)
     \<and> (0 < L \<longrightarrow> 10 ^ (L + F - 1) \<le> N))"

lemma digit_counts_parts:
  assumes "digits i" "digits f"
  shows "digit_counts (signed neg (of_nat (nat_of (i @ f)) / 10 ^ length f)) (length (trim_left i ''0'')) (length (trim_right f ''0''))"
proof -
  obtain zi where i: "i = zi @ trim_left i ''0''" "set zi \<subseteq> {CHR ''0''}" "trim_left i ''0'' = [] \<or> hd (trim_left i ''0'') \<noteq> CHR ''0''"
    by (rule zeros_split_left)
  obtain zf where f: "f = trim_right f ''0'' @ zf" "set zf \<subseteq> {CHR ''0''}" "trim_right f ''0'' = [] \<or> last (trim_right f ''0'') \<noteq> CHR ''0''"
    by (rule zeros_split_right)
  define j where "j = trim_left i ''0''"
  define h where "h = trim_right f ''0''"
  have d: "digits j" "digits h"
    using assms i(1) f(1) unfolding j_def h_def by (metis digits_simps(3))+
  have "i @ f = zi @ (j @ h) @ zf"
    using i(1) f(1) unfolding j_def h_def by (metis append.assoc)
  then have n: "nat_of (i @ f) = nat_of (j @ h) * 10 ^ length zf"
    using nat_of_zeros[OF i(2)] nat_of_zeros[OF f(2)] by (simp add: nat_of_append power_add algebra_simps)
  have l: "length f = length h + length zf"
    using f(1) unfolding h_def by (metis length_append)
  have v: "(of_nat (nat_of (i @ f)) / 10 ^ length f :: rat) = of_nat (nat_of (j @ h)) / 10 ^ length h"
    unfolding n l by (simp add: power_add)
  have "nat_of (j @ h) < 10 ^ (length j + length h)"
    using nat_of_less[of "j @ h"] d by simp
  moreover have "\<not> 10 dvd nat_of (j @ h)" if "0 < length h"
    using that f(3) d by (intro nat_of_last) (auto simp: h_def)
  moreover have "10 ^ (length j + length h - 1) \<le> nat_of (j @ h)" if "0 < length j"
    using that i(3) d nat_of_ge[of "j @ h"] by (cases j) (auto simp: j_def[symmetric])
  ultimately show ?thesis
    unfolding v digit_counts_def j_def[symmetric] h_def[symmetric] by blast
qed

lemma counts_decimal:
  assumes "s \<in> rlang decimalRegex"
  obtains L F r where "rat_SetString s = Some r" "CountFractionDigits s = F" "CountTotalDigits s = max 1 (L + F)" "digit_counts r L F"
proof (rule decimal_parse[OF assms])
  fix g i p f
  assume s: "s = g @ i @ (if p then ''.'' else []) @ f" and g: "g \<in> {[], ''+'', ''-''}" and i: "digits i" and f: "digits f"
    and ne: "i @ f \<noteq> []" and p: "p \<or> f = []" and r: "rat_SetString s = Some (signed (g = ''-'') (of_nat (nat_of (i @ f)) / 10 ^ length f))"
  let ?s = "i @ (if p then ''.'' else []) @ f"
  have "?s \<noteq> []" "hd ?s \<noteq> CHR ''-''" "hd ?s \<noteq> CHR ''+''"
    using i f ne p by (cases i; auto split: if_splits)+
  then have strip: "strip_sign s = ?s"
    unfolding s using g by (cases ?s) (auto simp: strip_sign_def)
  have no: "CHR ''.'' \<notin> set i"
    by (simp add: digits_notin[OF i])
  show thesis
  proof (cases p)
    case True
    have ix: "index_of (i @ CHR ''.'' # f) ''.'' = Some (length i)"
      using no by (induction i) auto
    show thesis
    proof (rule that[OF r])
      show "CountFractionDigits s = length (trim_right f ''0'')"
        using str_cut_append[OF no] True by (simp add: CountFractionDigits_def strip)
      show "CountTotalDigits s = max 1 (length (trim_left i ''0'') + length (trim_right f ''0''))"
        using ix True by (cases "trim_left i ''0''"; cases "trim_right f ''0''") (simp_all add: CountTotalDigits_def strip Let_def)
    qed (rule digit_counts_parts[OF i f])
  next
    case False
    then have f0: "f = []"
      using p by simp
    have ix: "index_of i ''.'' = None"
      using no by (induction i) auto
    show thesis
    proof (rule that[OF r])
      show "CountFractionDigits s = length (trim_right f ''0'')"
        using no False f0 str_cut_None[of i "CHR ''.''"] by (simp add: CountFractionDigits_def strip trim_right_def)
      show "CountTotalDigits s = max 1 (length (trim_left i ''0'') + length (trim_right f ''0''))"
        using ix False f0 by (auto simp: CountTotalDigits_def strip Let_def trim_right_def max_def Suc_le_eq)
    qed (rule digit_counts_parts[OF i f])
  qed
qed

subsection \<open>Properties\<close>

lemma of_int_nat_eq: "(of_int m :: rat) = signed neg (of_nat n) \<longleftrightarrow> m = signed neg (int n)"
  by (metis of_int_eq_iff of_int_minus of_int_of_nat_eq signed_def)

lemma fraction_counts:
  assumes "digit_counts r L F"
  shows "(\<exists>m::int. r * 10 ^ k = of_int m) \<longleftrightarrow> F \<le> k"
proof -
  obtain neg N where r: "r = signed neg (of_nat N / 10 ^ F)" and N: "0 < F \<longrightarrow> \<not> 10 dvd N"
    using assms by (auto simp: digit_counts_def)
  show ?thesis
  proof
    assume "F \<le> k"
    then obtain e where "k = F + e"
      using le_Suc_ex by blast
    then have "r * 10 ^ k = of_int (signed neg (int (N * 10 ^ e)))"
      by (simp add: r signed_def power_add)
    then show "\<exists>m::int. r * 10 ^ k = of_int m"
      by blast
  next
    assume "\<exists>m::int. r * 10 ^ k = of_int m"
    then obtain m :: int where m: "r * 10 ^ k = of_int m"
      by blast
    show "F \<le> k"
    proof (rule ccontr)
      assume "\<not> F \<le> k"
      then have "(10::rat) ^ F = 10 ^ (F - k) * 10 ^ k"
        by (simp flip: power_add)
      then have "of_int (signed neg (int N)) = (of_int (m * 10 ^ (F - k)) :: rat)"
        using m by (auto simp: r signed_def divide_simps split: if_splits)
      then have "signed neg (int N) = m * 10 ^ (F - k)"
        by (simp only: of_int_eq_iff)
      moreover have "10 dvd m * 10 ^ (F - k)"
        using \<open>\<not> F \<le> k\<close> by (simp add: dvd_power)
      ultimately have "(10::int) dvd signed neg (int N)"
        by simp
      then have "(10::int) dvd int N"
        by (simp add: signed_def split: if_splits)
      then have "10 dvd N"
        by presburger
      then show False
        using N \<open>\<not> F \<le> k\<close> by simp
    qed
  qed
qed

lemma total_lower:
  assumes c: "digit_counts r L F" and m: "r = of_int m / 10 ^ n" "\<bar>m\<bar> < 10 ^ k" "n \<le> k"
  shows "L + F \<le> k"
proof -
  obtain neg N where r: "r = signed neg (of_nat N / 10 ^ F)" and N: "0 < L \<longrightarrow> 10 ^ (L + F - 1) \<le> N"
    using c by (auto simp: digit_counts_def)
  have F: "F \<le> n"
    using m(1) fraction_counts[OF c, of n] by auto
  show "L + F \<le> k"
  proof (rule ccontr)
    assume no: "\<not> L + F \<le> k"
    then have L: "0 < L"
      using F m(3) by linarith
    have "(of_nat N :: rat) / 10 ^ F = \<bar>of_int m\<bar> / 10 ^ n"
    proof -
      have "\<bar>r\<bar> = of_nat N / 10 ^ F"
        by (simp add: r signed_def)
      moreover have "\<bar>r\<bar> = \<bar>of_int m\<bar> / 10 ^ n"
        by (simp add: m(1) abs_divide)
      ultimately show ?thesis
        by simp
    qed
    then have "(of_nat N :: rat) * 10 ^ (n - F) = \<bar>of_int m\<bar>"
      using F by (simp add: power_diff divide_simps)
    then have "(of_int (int N * 10 ^ (n - F)) :: rat) = of_int \<bar>m\<bar>"
      by simp
    then have "int N * 10 ^ (n - F) = \<bar>m\<bar>"
      by (simp only: of_int_eq_iff)
    then have "int (N * 10 ^ (n - F)) < int (10 ^ k)"
      using m(2) by simp
    then have "N * 10 ^ (n - F) < 10 ^ k"
      by (simp only: of_nat_less_iff)
    moreover have "10 ^ (L + F - 1) * 10 ^ (n - F) \<le> N * 10 ^ (n - F)"
      using N L by simp
    moreover have "(10::nat) ^ k \<le> 10 ^ (L + F - 1 + (n - F))"
      using no F by (intro power_increasing) auto
    ultimately show False
      unfolding power_add by linarith
  qed
qed

lemma total_counts:
  assumes "digit_counts r L F"
  shows "(\<exists>(m::int) n. r = of_int m / 10 ^ n \<and> \<bar>m\<bar> < 10 ^ k \<and> n \<le> k) \<longleftrightarrow> L + F \<le> k"
proof
  assume k: "L + F \<le> k"
  obtain neg N where r: "r = signed neg (of_nat N / 10 ^ F)" and N: "N < 10 ^ (L + F)"
    using assms by (auto simp: digit_counts_def)
  have "N < 10 ^ k"
    using N power_increasing[OF k, of "10::nat"] by linarith
  moreover have "\<bar>signed neg (int N)\<bar> = int N"
    by (simp add: signed_def)
  moreover have "r = of_int (signed neg (int N)) / 10 ^ F"
    by (simp add: r signed_def)
  ultimately have "r = of_int (signed neg (int N)) / 10 ^ F \<and> \<bar>signed neg (int N)\<bar> < 10 ^ k \<and> F \<le> k"
    using k by simp
  then show "\<exists>(m::int) n. r = of_int m / 10 ^ n \<and> \<bar>m\<bar> < 10 ^ k \<and> n \<le> k"
    by blast
qed (use total_lower[OF assms] in blast)

text \<open>C36: The digit counters decide their facets: a decimal numeral has at most \<open>k\<close> fraction digits
  when its value is an integer multiple of \<open>10 ^ -k\<close>, and at most \<open>k\<close> digits in total when its
  value is \<open>m / 10 ^ n\<close> with \<open>|m| < 10 ^ k\<close> and \<open>n \<le> k\<close>, as the specification defines
  fractionDigits and totalDigits.\<close>

theorem digit_counters_exact:
  assumes "matches decimalRegex s" "rat_SetString s = Some r"
  shows "(CountFractionDigits s \<le> k \<longleftrightarrow> (\<exists>m::int. r * 10 ^ k = of_int m)) \<and>
    (CountTotalDigits s \<le> k \<longleftrightarrow> 1 \<le> k \<and> (\<exists>(m::int) n. r = of_int m / 10 ^ n \<and> \<bar>m\<bar> < 10 ^ k \<and> n \<le> k))"
proof -
  have "s \<in> rlang decimalRegex"
    using assms(1) by (simp add: matches_iff)
  then obtain L F where "CountFractionDigits s = F" "CountTotalDigits s = max 1 (L + F)" "digit_counts r L F"
    using assms(2) by (metis counts_decimal option.inject)
  then show ?thesis
    using fraction_counts total_counts by auto
qed

theorem digit_counters_exact_witness:
  "(CountFractionDigits ''-012.340'' \<le> 2 \<longleftrightarrow> (\<exists>m::int. (-1234 / 100 :: rat) * 10 ^ 2 = of_int m)) \<and>
    (CountTotalDigits ''-012.340'' \<le> 2 \<longleftrightarrow> (1::nat) \<le> 2 \<and> (\<exists>(m::int) n. (-1234 / 100 :: rat) = of_int m / 10 ^ n \<and> \<bar>m\<bar> < 10 ^ 2 \<and> n \<le> 2))"
proof (rule digit_counters_exact)
  show "matches decimalRegex ''-012.340''"
    by code_simp
  show "rat_SetString ''-012.340'' = Some (- 1234 / 100)"
    by (simp add: rat_SetString_def str_cut_def digits_def ascii_digit_def nat_of_def signed_def)
qed

end
