(* ===== verification/DomNode.thy ===== *)
theory DomNode
  imports GoLib "HOL-Library.Monad_Syntax"
begin

text \<open>
  The DOM tree: the linkage of nodes in \<open>node.go\<close>, \<open>element.go\<close>, \<open>attribute.go\<close> and
  \<open>node_leaf.go\<close>.  The heap maps addresses to nodes; a nil pointer is \<^const>\<open>None\<close>.  The dynamic type
  of a node is its element type, so that Go's type assertions are tests of \<open>etype\<close>.  A namespace of an
  attribute is its prefix and URI, both empty when it is nil.  The data of a processing instruction
  is its \<open>content\<close>.  An operation is \<^const>\<open>None\<close> when it does not return, otherwise its error,
  without the message, and the heap it leaves.
\<close>

subsection \<open>Nodes\<close>

datatype kind = ElementNode | AttributeNode | TextNode | CDATASectionNode | EntityRefNode | EntityNode
  | ProcessingInstructionNode | CommentNode | DocumentNode | DocumentTypeNode | DocumentFragNode | NotationNode
  | HTMLDocumentNode | DTDNode | ElementDeclNode | AttributeDeclNode | EntityDeclNode | NamespaceDeclNode
  | XIncludeStartNode | XIncludeEndNode | NamespaceNode

type_synonym addr = nat

record node =
  etype :: kind
  lname :: string
  nsPrefix :: string
  nsURI :: string
  content :: string
  fromCharRef :: bool
  slabEscaped :: bool
  doc :: "addr option"
  firstChild :: "addr option"
  lastChild :: "addr option"
  parent :: "addr option"
  nextSib :: "addr option"
  prevSib :: "addr option"
  properties :: "addr option"

type_synonym heap = "addr \<Rightarrow> node"

datatype derror = ErrNilNode | ErrCyclicNode | ErrInvalidOperation | ErrOther | Panic

type_synonym outcome = "(derror option \<times> heap) option"

text \<open>Assignments to a field.\<close>

definition set_content :: "addr \<Rightarrow> string \<Rightarrow> heap \<Rightarrow> heap" where
  "set_content a v h = h(a := (h a)\<lparr>content := v\<rparr>)"

definition set_charref :: "addr \<Rightarrow> bool \<Rightarrow> heap \<Rightarrow> heap" where
  "set_charref a v h = h(a := (h a)\<lparr>fromCharRef := v\<rparr>)"

definition set_escaped :: "addr \<Rightarrow> heap \<Rightarrow> heap" where
  "set_escaped a h = h(a := (h a)\<lparr>slabEscaped := True\<rparr>)"

definition set_first :: "addr \<Rightarrow> addr option \<Rightarrow> heap \<Rightarrow> heap" where
  "set_first a v h = h(a := (h a)\<lparr>firstChild := v\<rparr>)"

definition set_last :: "addr \<Rightarrow> addr option \<Rightarrow> heap \<Rightarrow> heap" where
  "set_last a v h = h(a := (h a)\<lparr>lastChild := v\<rparr>)"

definition set_parent :: "addr \<Rightarrow> addr option \<Rightarrow> heap \<Rightarrow> heap" where
  "set_parent a v h = h(a := (h a)\<lparr>parent := v\<rparr>)"

definition set_next :: "addr \<Rightarrow> addr option \<Rightarrow> heap \<Rightarrow> heap" where
  "set_next a v h = h(a := (h a)\<lparr>nextSib := v\<rparr>)"

definition set_prev :: "addr \<Rightarrow> addr option \<Rightarrow> heap \<Rightarrow> heap" where
  "set_prev a v h = h(a := (h a)\<lparr>prevSib := v\<rparr>)"

definition set_props :: "addr \<Rightarrow> addr option \<Rightarrow> heap \<Rightarrow> heap" where
  "set_props a v h = h(a := (h a)\<lparr>properties := v\<rparr>)"

definition clear_links :: "addr \<Rightarrow> heap \<Rightarrow> heap" where
  "clear_links a h = set_next a None (set_prev a None (set_parent a None h))"

text \<open>An assignment through a pointer that is tested for nil first.\<close>

definition when_some :: "addr option \<Rightarrow> (addr \<Rightarrow> heap \<Rightarrow> heap) \<Rightarrow> heap \<Rightarrow> heap" where
  "when_some p f h = (case p of None \<Rightarrow> h | Some a \<Rightarrow> f a h)"

subsection \<open>The cycle guard\<close>

text \<open>The walk of \<open>wouldCreateCycle\<close> up the ancestors.\<close>

partial_function (option) ancestor_loop :: "heap \<Rightarrow> addr \<Rightarrow> addr option \<Rightarrow> bool option" where
  "ancestor_loop h c anc =
     (case anc of None \<Rightarrow> Some False
      | Some a \<Rightarrow> if a = c then Some True else ancestor_loop h c (parent (h a)))"

definition nextOwnedChild :: "heap \<Rightarrow> addr \<Rightarrow> addr \<Rightarrow> addr option" where
  "nextOwnedChild h owner child = (if parent (h child) \<noteq> Some owner then None else nextSib (h child))"

text \<open>The children of a node, up to the first one met twice.\<close>

partial_function (option) owned_loop :: "heap \<Rightarrow> addr \<Rightarrow> addr list \<Rightarrow> addr option \<Rightarrow> addr list option" where
  "owned_loop h owner seen child =
     (if child = None \<or> the child \<in> set seen then Some (rev seen)
      else owned_loop h owner (the child # seen) (nextOwnedChild h owner (the child)))"

definition Children :: "heap \<Rightarrow> addr \<Rightarrow> addr list option" where
  "Children h n = owned_loop h n [] (firstChild (h n))"

partial_function (option) reach_loop :: "heap \<Rightarrow> addr \<Rightarrow> addr list \<Rightarrow> addr list \<Rightarrow> bool option" where
  "reach_loop h target visited stack =
     (if stack = [] then Some False
      else let dn = last stack; stack = butlast stack in
        if dn = target then Some True
        else if dn \<in> set visited then reach_loop h target visited stack
        else do { cs \<leftarrow> Children h dn; reach_loop h target (dn # visited) (stack @ cs) })"

definition childReaches :: "heap \<Rightarrow> addr \<Rightarrow> addr \<Rightarrow> bool option" where
  "childReaches h n target = reach_loop h target [] [n]"

definition wouldCreateCycle :: "heap \<Rightarrow> addr option \<Rightarrow> addr \<Rightarrow> bool option" where
  "wouldCreateCycle h p cur =
     do { b \<leftarrow> ancestor_loop h cur p;
          if b then Some True
          else case p of None \<Rightarrow> Some False
            | Some p \<Rightarrow> if firstChild (h cur) = None then Some False else childReaches h cur p }"

subsection \<open>Documents\<close>

definition isDocument :: "heap \<Rightarrow> addr \<Rightarrow> bool" where
  "isDocument h n \<longleftrightarrow> etype (h n) = DocumentNode \<or> etype (h n) = HTMLDocumentNode"

definition destinationDocument :: "heap \<Rightarrow> addr \<Rightarrow> addr option" where
  "destinationDocument h n = (if isDocument h n then Some n else doc (h n))"

definition noteCrossDocumentEscape :: "addr option \<Rightarrow> addr \<Rightarrow> heap \<Rightarrow> heap" where
  "noteCrossDocumentEscape dest cur h =
     (case doc (h cur) of None \<Rightarrow> h
      | Some curDoc \<Rightarrow> if Some curDoc = dest then h else set_escaped curDoc h)"

subsection \<open>Attributes\<close>

definition NextAttribute :: "heap \<Rightarrow> addr \<Rightarrow> addr option" where
  "NextAttribute h a =
     (case nextSib (h a) of None \<Rightarrow> None | Some b \<Rightarrow> if etype (h b) = AttributeNode then Some b else None)"

definition AttrName :: "heap \<Rightarrow> addr \<Rightarrow> string" where
  "AttrName h a = (if nsPrefix (h a) \<noteq> [] then nsPrefix (h a) @ '':'' @ lname (h a) else lname (h a))"

partial_function (option) find_loop :: "heap \<Rightarrow> (addr \<Rightarrow> bool) \<Rightarrow> addr option \<Rightarrow> addr option option" where
  "find_loop h match p =
     (case p of None \<Rightarrow> Some None
      | Some a \<Rightarrow> if match a then Some (Some a) else find_loop h match (NextAttribute h a))"

definition FindAttribute :: "heap \<Rightarrow> addr \<Rightarrow> (addr \<Rightarrow> bool) \<Rightarrow> addr option option" where
  "FindAttribute h e match = find_loop h match (properties (h e))"

definition QNamePredicate :: "heap \<Rightarrow> string \<Rightarrow> addr \<Rightarrow> bool" where
  "QNamePredicate h q a \<longleftrightarrow> AttrName h a = q"

definition NSPredicate :: "heap \<Rightarrow> string \<Rightarrow> string \<Rightarrow> addr \<Rightarrow> bool" where
  "NSPredicate h l uri a \<longleftrightarrow> lname (h a) = l \<and> nsURI (h a) = uri"

partial_function (option) attributes_loop :: "heap \<Rightarrow> addr option \<Rightarrow> addr list option" where
  "attributes_loop h p =
     (case p of None \<Rightarrow> Some []
      | Some a \<Rightarrow> do { r \<leftarrow> attributes_loop h (NextAttribute h a); Some (a # r) })"

definition Attributes :: "heap \<Rightarrow> addr \<Rightarrow> addr list option" where
  "Attributes h e = attributes_loop h (properties (h e))"

definition hasAttributeInProperties :: "heap \<Rightarrow> addr \<Rightarrow> addr \<Rightarrow> bool option" where
  "hasAttributeInProperties h e p = do { r \<leftarrow> find_loop h (\<lambda>a. a = p) (properties (h e)); Some (r \<noteq> None) }"

definition spliceOutAttribute :: "addr \<Rightarrow> addr \<Rightarrow> heap \<Rightarrow> heap" where
  "spliceOutAttribute e p h =
     (let h = when_some (prevSib (h p)) (\<lambda>q. set_next q (nextSib (h p))) h;
          h = when_some (nextSib (h p)) (\<lambda>q. set_prev q (prevSib (h p))) h;
          h = (if properties (h e) = Some p then set_props e (NextAttribute h p) h else h)
      in clear_links p h)"

text \<open>The element whose attribute list holds \<open>n\<close>, when \<open>n\<close> is an attribute there.\<close>

definition attr_owner :: "heap \<Rightarrow> addr \<Rightarrow> addr option option" where
  "attr_owner h n =
     (if etype (h n) \<noteq> AttributeNode then Some None
      else case parent (h n) of None \<Rightarrow> Some None
      | Some e \<Rightarrow> if etype (h e) \<noteq> ElementNode then Some None
          else do { b \<leftarrow> hasAttributeInProperties h e n; Some (if b then Some e else None) })"

definition attrMatches :: "heap \<Rightarrow> addr \<Rightarrow> string \<Rightarrow> string \<Rightarrow> string \<Rightarrow> bool" where
  "attrMatches h existing qname uri l \<longleftrightarrow>
     nsURI (h existing) = uri \<and> lname (h existing) = l \<or> AttrName h existing = qname"

text \<open>The branches of \<open>addProperty\<close>: replace an attribute in place, or append after the last one.\<close>

definition replace_property :: "addr \<Rightarrow> addr \<Rightarrow> addr \<Rightarrow> heap \<Rightarrow> heap" where
  "replace_property e attr p h =
     (let pv = prevSib (h p); nx = nextSib (h p);
          h = set_parent attr (Some e) (set_next attr nx (set_prev attr pv h));
          h = when_some (prevSib (h p)) (\<lambda>q. set_next q (Some attr)) h;
          h = when_some (nextSib (h p)) (\<lambda>q. set_prev q (Some attr)) h;
          h = (if properties (h e) = Some p then set_props e (Some attr) h else h)
      in clear_links p h)"

definition append_property :: "addr \<Rightarrow> addr \<Rightarrow> addr \<Rightarrow> heap \<Rightarrow> heap" where
  "append_property e attr l h = set_parent attr (Some e) (set_prev attr (Some l) (set_next l (Some attr) h))"

partial_function (option) property_loop :: "heap \<Rightarrow> addr \<Rightarrow> addr \<Rightarrow> addr \<Rightarrow> heap option" where
  "property_loop h e attr p =
     (if attrMatches h p (AttrName h attr) (nsURI (h attr)) (lname (h attr)) then Some (replace_property e attr p h)
      else case NextAttribute h p of
        None \<Rightarrow> Some (append_property e attr p h)
      | Some q \<Rightarrow> property_loop h e attr q)"

definition addProperty :: "heap \<Rightarrow> addr \<Rightarrow> addr \<Rightarrow> heap option" where
  "addProperty h e attr =
     (case properties (h e) of
        None \<Rightarrow> Some (set_parent attr (Some e) (set_props e (Some attr) h))
      | Some p \<Rightarrow> property_loop h e attr p)"

subsection \<open>Unlinking\<close>

definition unlink_child :: "addr \<Rightarrow> heap \<Rightarrow> heap" where
  "unlink_child n h =
     (let h = when_some (parent (h n)) (\<lambda>p h.
            let h = (if firstChild (h p) = Some n then set_first p (nextSib (h n)) h else h)
            in if lastChild (h p) = Some n then set_last p (prevSib (h n)) h else h) h;
          h = when_some (prevSib (h n)) (\<lambda>q. set_next q (nextSib (h n))) h;
          h = when_some (nextSib (h n)) (\<lambda>q. set_prev q (prevSib (h n))) h
      in clear_links n h)"

definition unlinkNode :: "heap \<Rightarrow> addr \<Rightarrow> heap option" where
  "unlinkNode h n =
     do { own \<leftarrow> attr_owner h n;
          Some (case own of Some e \<Rightarrow> spliceOutAttribute e n h | None \<Rightarrow> unlink_child n h) }"

definition UnlinkNode :: "heap \<Rightarrow> addr option \<Rightarrow> heap option" where
  "UnlinkNode h n = (case n of None \<Rightarrow> Some h | Some a \<Rightarrow> unlinkNode h a)"

definition unlink_if_linked :: "heap \<Rightarrow> addr \<Rightarrow> heap option" where
  "unlink_if_linked h cur =
     (if parent (h cur) \<noteq> None \<or> prevSib (h cur) \<noteq> None \<or> nextSib (h cur) \<noteq> None then unlinkNode h cur else Some h)"

end
