(* ===== verification/DomOps.thy ===== *)
theory DomOps
  imports DomNode
begin

text \<open>
  The operations on the tree: \<open>AddChild\<close>, \<open>AddSibling\<close>, \<open>Replace\<close> and \<open>AppendText\<close> of every node
  type, dispatched on the type of the receiver as Go's method sets do, the attribute operations of
  elements, and the traversals.  Addresses of nodes an operation allocates are its arguments.
\<close>

subsection \<open>Preflights\<close>

definition addChildPreflight :: "heap \<Rightarrow> addr \<Rightarrow> addr \<Rightarrow> outcome" where
  "addChildPreflight h n cur =
     (let h = noteCrossDocumentEscape (destinationDocument h n) cur h in
      do { cyc \<leftarrow> wouldCreateCycle h (Some n) cur;
           if cyc then Some (Some ErrCyclicNode, h)
           else do { h \<leftarrow> unlink_if_linked h cur; Some (None, h) } })"

definition addSiblingPreflight :: "heap \<Rightarrow> addr \<Rightarrow> addr \<Rightarrow> outcome" where
  "addSiblingPreflight h n cur =
     (let h = noteCrossDocumentEscape (doc (h n)) cur h in
      if cur = n then Some (Some ErrCyclicNode, h)
      else do { cyc \<leftarrow> wouldCreateCycle h (parent (h n)) cur;
           if cyc then Some (Some ErrCyclicNode, h)
           else do { h \<leftarrow> unlink_if_linked h cur; Some (None, h) } })"

text \<open>Continue when no error was returned.\<close>

definition no_error :: "outcome \<Rightarrow> (heap \<Rightarrow> outcome) \<Rightarrow> outcome" where
  "no_error r f = do { (e, h) \<leftarrow> r; case e of Some e \<Rightarrow> Some (Some e, h) | None \<Rightarrow> f h }"

subsection \<open>Siblings\<close>

partial_function (option) tail_loop :: "heap \<Rightarrow> addr \<Rightarrow> addr option" where
  "tail_loop h a = (case nextSib (h a) of None \<Rightarrow> Some a | Some b \<Rightarrow> tail_loop h b)"

definition addSibling :: "heap \<Rightarrow> addr \<Rightarrow> addr option \<Rightarrow> outcome" where
  "addSibling h n cur =
     (case cur of None \<Rightarrow> Some (Some ErrNilNode, h)
      | Some cur \<Rightarrow>
        do { own \<leftarrow> attr_owner h n;
          case own of
            Some e \<Rightarrow>
              if etype (h cur) \<noteq> AttributeNode then Some (Some ErrInvalidOperation, h)
              else no_error (addSiblingPreflight h n cur) (\<lambda>h.
                do { l \<leftarrow> tail_loop h n;
                     Some (None, set_parent cur (Some e) (set_prev cur (Some l) (set_next l (Some cur) h))) })
          | None \<Rightarrow>
              no_error (addSiblingPreflight h n cur) (\<lambda>h.
                do { l \<leftarrow> tail_loop h n;
                     Some (None, when_some (parent (h l)) (\<lambda>p. set_last p (Some cur))
                       (set_parent cur (parent (h l)) (set_prev cur (Some l) (set_next l (Some cur) h)))) }) })"

text \<open>\<open>Text.AddSibling\<close> merges a text operand.  \<open>AppendText\<close> of the leaf types.\<close>

definition append_content :: "addr \<Rightarrow> string \<Rightarrow> heap \<Rightarrow> heap" where
  "append_content n b h = set_content n (content (h n) @ b) h"

definition merge_text :: "addr \<Rightarrow> addr \<Rightarrow> heap \<Rightarrow> heap" where
  "merge_text n t h =
     (let h = set_charref n (fromCharRef (h n) \<or> fromCharRef (h t)) h in append_content n (content (h t)) h)"

definition Text_AddSibling :: "heap \<Rightarrow> addr \<Rightarrow> addr option \<Rightarrow> outcome" where
  "Text_AddSibling h n cur =
     (case cur of None \<Rightarrow> Some (Some ErrNilNode, h)
      | Some c \<Rightarrow>
        no_error (addSiblingPreflight h n c) (\<lambda>h.
          if etype (h c) = TextNode then Some (None, merge_text n c h) else addSibling h n (Some c)))"

definition AddSibling :: "heap \<Rightarrow> addr \<Rightarrow> addr option \<Rightarrow> outcome" where
  "AddSibling h n cur =
     (if etype (h n) = NamespaceNode then Some (Some Panic, h)
      else if isDocument h n then Some (Some ErrOther, h)
      else if etype (h n) = TextNode then Text_AddSibling h n cur
      else addSibling h n cur)"

subsection \<open>Children\<close>

definition addChild :: "heap \<Rightarrow> addr \<Rightarrow> addr option \<Rightarrow> outcome" where
  "addChild h n cur =
     (case cur of None \<Rightarrow> Some (Some ErrNilNode, h)
      | Some c \<Rightarrow>
        if etype (h c) = AttributeNode then
          (if etype (h n) \<noteq> ElementNode then Some (Some ErrInvalidOperation, h)
           else no_error (addChildPreflight h n c) (\<lambda>h. do { h \<leftarrow> addProperty h n c; Some (None, h) }))
        else no_error (addChildPreflight h n c) (\<lambda>h.
          case lastChild (h n) of
            None \<Rightarrow> Some (None, set_parent c (Some n) (set_last n (Some c) (set_first n (Some c) h)))
          | Some l \<Rightarrow>
              if nextSib (h l) = None \<and> (etype (h c) \<noteq> TextNode \<or> etype (h l) \<noteq> TextNode)
              then Some (None, set_last n (Some c) (set_parent c (Some n) (set_prev c (Some l) (set_next l (Some c) h))))
              else no_error (AddSibling h l (Some c)) (\<lambda>h.
                Some (None, if etype (h c) = TextNode \<and> etype (h l) = TextNode then set_last n (Some l) h else h))))"

text \<open>Text and comments merge an operand of their own type, a processing instruction merges text and CDATA
  sections, and no leaf takes a child.\<close>

definition Text_AddChild :: "heap \<Rightarrow> addr \<Rightarrow> addr option \<Rightarrow> outcome" where
  "Text_AddChild h n cur =
     (case cur of None \<Rightarrow> Some (Some ErrNilNode, h)
      | Some c \<Rightarrow>
        if etype (h c) = TextNode then no_error (addChildPreflight h n c) (\<lambda>h. Some (None, merge_text n c h))
        else Some (Some ErrInvalidOperation, h))"

definition Comment_AddChild :: "heap \<Rightarrow> addr \<Rightarrow> addr option \<Rightarrow> outcome" where
  "Comment_AddChild h n cur =
     (case cur of None \<Rightarrow> Some (Some ErrNilNode, h)
      | Some c \<Rightarrow>
        if etype (h c) = CommentNode
        then no_error (addChildPreflight h n c) (\<lambda>h. Some (None, append_content n (content (h c)) h))
        else Some (Some ErrInvalidOperation, h))"

definition CDATA_AddChild :: "heap \<Rightarrow> addr \<Rightarrow> addr option \<Rightarrow> outcome" where
  "CDATA_AddChild h n cur =
     (case cur of None \<Rightarrow> Some (Some ErrNilNode, h) | Some c \<Rightarrow> Some (Some ErrInvalidOperation, h))"

definition PI_AddChild :: "heap \<Rightarrow> addr \<Rightarrow> addr option \<Rightarrow> outcome" where
  "PI_AddChild h n cur =
     (case cur of None \<Rightarrow> Some (Some ErrNilNode, h)
      | Some c \<Rightarrow>
        if etype (h c) = AttributeNode then Some (Some ErrInvalidOperation, h)
        else if etype (h c) = TextNode \<or> etype (h c) = CDATASectionNode
        then no_error (addChildPreflight h n c) (\<lambda>h. Some (None, append_content n (content (h c)) h))
        else if c = n then Some (Some ErrCyclicNode, h)
        else Some (Some ErrInvalidOperation, h))"

definition AddChild :: "heap \<Rightarrow> addr \<Rightarrow> addr option \<Rightarrow> outcome" where
  "AddChild h n cur =
     (case etype (h n) of
        TextNode \<Rightarrow> Text_AddChild h n cur
      | CommentNode \<Rightarrow> Comment_AddChild h n cur
      | CDATASectionNode \<Rightarrow> CDATA_AddChild h n cur
      | ProcessingInstructionNode \<Rightarrow> PI_AddChild h n cur
      | NamespaceNode \<Rightarrow> Some (Some Panic, h)
      | _ \<Rightarrow> addChild h n cur)"

text \<open>\<open>appendText\<close> extends a trailing text node or adds the new text node \<open>t\<close>.\<close>

definition new_text :: "addr \<Rightarrow> string \<Rightarrow> addr option \<Rightarrow> heap \<Rightarrow> heap" where
  "new_text t b d h = h(t := (h t)\<lparr>etype := TextNode, lname := ''(text)'', content := b, fromCharRef := False, doc := d\<rparr>)"

definition appendText :: "heap \<Rightarrow> addr \<Rightarrow> string \<Rightarrow> addr \<Rightarrow> outcome" where
  "appendText h n b t =
     (case lastChild (h n) of
        Some l \<Rightarrow>
          if etype (h l) = TextNode then Some (None, append_content l b h)
          else AddChild (new_text t b (doc (h n)) h) n (Some t)
      | None \<Rightarrow> AddChild (new_text t b (doc (h n)) h) n (Some t))"

definition AppendText :: "heap \<Rightarrow> addr \<Rightarrow> string \<Rightarrow> addr \<Rightarrow> outcome" where
  "AppendText h n b t =
     (if etype (h n) \<in> {TextNode, CommentNode, CDATASectionNode, ProcessingInstructionNode}
      then Some (None, append_content n b h)
      else if etype (h n) = NamespaceNode then Some (Some Panic, h)
      else appendText h n b t)"

subsection \<open>Replace\<close>

text \<open>The cycle guard over the replacements, and their detachment.\<close>

fun replace_guard :: "addr \<Rightarrow> addr option \<Rightarrow> addr option \<Rightarrow> addr list \<Rightarrow> heap \<Rightarrow> outcome" where
  "replace_guard n p d [] h = Some (None, h)"
| "replace_guard n p d (nn # nodes) h =
     (if nn = n then replace_guard n p d nodes h
      else let h = noteCrossDocumentEscape d nn h in
        do { cyc \<leftarrow> wouldCreateCycle h p nn;
             if cyc then Some (Some ErrCyclicNode, h) else replace_guard n p d nodes h })"

fun detach_all :: "addr \<Rightarrow> addr list \<Rightarrow> heap \<Rightarrow> heap option" where
  "detach_all n [] h = Some h"
| "detach_all n (nn # nodes) h =
     (if nn = n then detach_all n nodes h else do { h \<leftarrow> unlinkNode h nn; detach_all n nodes h })"

text \<open>The replacements after the first one are linked behind it; the last one is returned.\<close>

fun link_rest :: "addr \<Rightarrow> addr list \<Rightarrow> heap \<Rightarrow> addr \<times> heap" where
  "link_rest l [] h = (l, h)"
| "link_rest l (c # cs) h = link_rest c cs (set_next l (Some c) (set_prev c (Some l) (set_parent c (parent (h l)) h)))"

definition splice_head :: "addr \<Rightarrow> addr \<Rightarrow> addr option \<Rightarrow> addr option \<Rightarrow> heap \<Rightarrow> heap" where
  "splice_head n cur p owner h =
     (let h = when_some (prevSib (h n)) (\<lambda>q h. set_next q (Some cur) (set_prev cur (Some q) h)) h
      in when_some p (\<lambda>p h.
           let h = (case owner of
               Some e \<Rightarrow> if etype (h cur) = AttributeNode \<and> properties (h e) = Some n then set_props e (Some cur) h else h
             | None \<Rightarrow> let h = (if firstChild (h p) = Some n then set_first p (Some cur) h else h)
                 in if lastChild (h p) = Some n then set_last p (Some cur) h else h)
           in set_parent cur (Some p) h) h)"

definition splice_tail :: "addr \<Rightarrow> addr list \<Rightarrow> addr \<Rightarrow> addr \<Rightarrow> addr option \<Rightarrow> addr option \<Rightarrow> heap \<Rightarrow> heap" where
  "splice_tail n nodes cur l afterN owner h =
     (let h = set_next l afterN h;
          h = when_some afterN (\<lambda>a. set_prev a (Some l)) h;
          h = (if owner = None \<and> afterN = None \<and> length nodes > 1
               then when_some (parent (h cur)) (\<lambda>p. set_last p (Some l)) h else h)
      in if n \<in> set nodes then h else clear_links n h)"

definition splice :: "addr \<Rightarrow> addr list \<Rightarrow> addr option \<Rightarrow> addr option \<Rightarrow> heap \<Rightarrow> heap" where
  "splice n nodes p owner h =
     (let cur = hd nodes; afterN = nextSib (h n);
          (l, h) = link_rest cur (tl nodes) (splice_head n cur p owner h)
      in splice_tail n nodes cur l afterN owner h)"

definition replaceNode :: "heap \<Rightarrow> addr \<Rightarrow> addr option list \<Rightarrow> outcome" where
  "replaceNode h n operands =
     (if operands = [] then Some (Some ErrInvalidOperation, h)
      else if None \<in> set operands then Some (Some ErrNilNode, h)
      else let nodes = map the operands in
        do { owner \<leftarrow> attr_owner h n;
          if owner \<noteq> None \<and> (\<exists>nn\<in>set nodes. nn \<noteq> n \<and> etype (h nn) \<noteq> AttributeNode) then Some (Some ErrInvalidOperation, h)
          else if \<not> distinct nodes then Some (Some ErrInvalidOperation, h)
          else let p = parent (h n) in
            no_error (replace_guard n p (doc (h n)) nodes h) (\<lambda>h.
              do { h \<leftarrow> detach_all n nodes h; Some (None, splice n nodes p owner h) }) })"

definition Replace :: "heap \<Rightarrow> addr \<Rightarrow> addr option list \<Rightarrow> outcome" where
  "Replace h n operands =
     (if etype (h n) = NamespaceNode then Some (Some Panic, h)
      else if isDocument h n then Some (Some ErrInvalidOperation, h)
      else replaceNode h n operands)"

subsection \<open>Attributes of an element\<close>

text \<open>\<open>SetAttribute\<close> and \<open>SetAttributeNS\<close> build the attribute \<open>a\<close> with the text child \<open>t\<close>.\<close>

definition new_attribute :: "addr \<Rightarrow> string \<Rightarrow> string \<Rightarrow> string \<Rightarrow> addr option \<Rightarrow> heap \<Rightarrow> heap" where
  "new_attribute a l pre uri d h =
     h(a := (h a)\<lparr>etype := AttributeNode, lname := l, nsPrefix := pre, nsURI := uri, content := [], doc := d\<rparr>)"

definition new_attribute_text :: "addr \<Rightarrow> addr \<Rightarrow> string \<Rightarrow> string \<Rightarrow> string \<Rightarrow> string \<Rightarrow> addr option \<Rightarrow> heap \<Rightarrow> heap" where
  "new_attribute_text a t l pre uri value d h =
     set_parent t (Some a) (set_last a (Some t) (set_first a (Some t) (new_text t value d (new_attribute a l pre uri d h))))"

definition SetAttributeNS :: "heap \<Rightarrow> addr \<Rightarrow> string \<Rightarrow> string \<Rightarrow> string \<Rightarrow> string \<Rightarrow> addr \<Rightarrow> addr \<Rightarrow> outcome" where
  "SetAttributeNS h e localname value pre uri a t =
     (if CHR '':'' \<in> set localname then Some (Some ErrOther, h)
      else do { h \<leftarrow> addProperty (new_attribute_text a t localname pre uri value (doc (h e)) h) e a; Some (None, h) })"

definition SetAttribute :: "heap \<Rightarrow> addr \<Rightarrow> string \<Rightarrow> string \<Rightarrow> addr \<Rightarrow> addr \<Rightarrow> outcome" where
  "SetAttribute h e n value a t = SetAttributeNS h e n value [] [] a t"

definition SetBooleanAttribute :: "heap \<Rightarrow> addr \<Rightarrow> string \<Rightarrow> addr \<Rightarrow> outcome" where
  "SetBooleanAttribute h e n a =
     (if CHR '':'' \<in> set n then Some (Some ErrOther, h)
      else do { h \<leftarrow> addProperty (new_attribute a n [] [] (doc (h e)) h) e a; Some (None, h) })"

definition RemoveAttribute :: "heap \<Rightarrow> addr \<Rightarrow> (addr \<Rightarrow> bool) \<Rightarrow> (bool \<times> heap) option" where
  "RemoveAttribute h e match =
     do { r \<leftarrow> FindAttribute h e match;
          Some (case r of None \<Rightarrow> (False, h) | Some p \<Rightarrow> (True, spliceOutAttribute e p h)) }"

subsection \<open>Content\<close>

definition self_contained :: "kind \<Rightarrow> bool" where
  "self_contained k \<longleftrightarrow> k \<in> {TextNode, CommentNode, CDATASectionNode, ProcessingInstructionNode, EntityNode, NamespaceNode}"

end
