(* ===== verification/DomShape.thy ===== *)
theory DomShape
  imports DomOps
begin

text \<open>
  The shape of a tree: every node lies in exactly one doubly linked list, the children of a node, the
  attributes of an element, or a chain without a parent; parents are well founded.  One lemma, on the
  replacement of a segment of such a list, carries the invariance of all operations.
\<close>

subsection \<open>Fields after an assignment\<close>

named_theorems fields

lemma links_set [fields]:
  "firstChild (set_content a v h x) = firstChild (h x)" "lastChild (set_content a v h x) = lastChild (h x)"
  "parent (set_content a v h x) = parent (h x)" "nextSib (set_content a v h x) = nextSib (h x)"
  "prevSib (set_content a v h x) = prevSib (h x)" "properties (set_content a v h x) = properties (h x)"
  "firstChild (set_charref a c h x) = firstChild (h x)" "lastChild (set_charref a c h x) = lastChild (h x)"
  "parent (set_charref a c h x) = parent (h x)" "nextSib (set_charref a c h x) = nextSib (h x)"
  "prevSib (set_charref a c h x) = prevSib (h x)" "properties (set_charref a c h x) = properties (h x)"
  "firstChild (set_escaped a h x) = firstChild (h x)" "lastChild (set_escaped a h x) = lastChild (h x)"
  "parent (set_escaped a h x) = parent (h x)" "nextSib (set_escaped a h x) = nextSib (h x)"
  "prevSib (set_escaped a h x) = prevSib (h x)" "properties (set_escaped a h x) = properties (h x)"
  by (simp_all add: set_content_def set_charref_def set_escaped_def)

lemma links_assign [fields]:
  "firstChild (set_first a p h x) = (if x = a then p else firstChild (h x))" "lastChild (set_first a p h x) = lastChild (h x)"
  "parent (set_first a p h x) = parent (h x)" "nextSib (set_first a p h x) = nextSib (h x)"
  "prevSib (set_first a p h x) = prevSib (h x)" "properties (set_first a p h x) = properties (h x)"
  "firstChild (set_last a p h x) = firstChild (h x)" "lastChild (set_last a p h x) = (if x = a then p else lastChild (h x))"
  "parent (set_last a p h x) = parent (h x)" "nextSib (set_last a p h x) = nextSib (h x)"
  "prevSib (set_last a p h x) = prevSib (h x)" "properties (set_last a p h x) = properties (h x)"
  "firstChild (set_parent a p h x) = firstChild (h x)" "lastChild (set_parent a p h x) = lastChild (h x)"
  "parent (set_parent a p h x) = (if x = a then p else parent (h x))" "nextSib (set_parent a p h x) = nextSib (h x)"
  "prevSib (set_parent a p h x) = prevSib (h x)" "properties (set_parent a p h x) = properties (h x)"
  "firstChild (set_next a p h x) = firstChild (h x)" "lastChild (set_next a p h x) = lastChild (h x)"
  "parent (set_next a p h x) = parent (h x)" "nextSib (set_next a p h x) = (if x = a then p else nextSib (h x))"
  "prevSib (set_next a p h x) = prevSib (h x)" "properties (set_next a p h x) = properties (h x)"
  "firstChild (set_prev a p h x) = firstChild (h x)" "lastChild (set_prev a p h x) = lastChild (h x)"
  "parent (set_prev a p h x) = parent (h x)" "nextSib (set_prev a p h x) = nextSib (h x)"
  "prevSib (set_prev a p h x) = (if x = a then p else prevSib (h x))" "properties (set_prev a p h x) = properties (h x)"
  "firstChild (set_props a p h x) = firstChild (h x)" "lastChild (set_props a p h x) = lastChild (h x)"
  "parent (set_props a p h x) = parent (h x)" "nextSib (set_props a p h x) = nextSib (h x)"
  "prevSib (set_props a p h x) = prevSib (h x)" "properties (set_props a p h x) = (if x = a then p else properties (h x))"
  by (simp_all add: set_first_def set_last_def set_parent_def set_next_def set_prev_def set_props_def)

text \<open>What no assignment to a link changes.\<close>

definition data :: "node \<Rightarrow> kind \<times> string \<times> string \<times> string \<times> string \<times> addr option" where
  "data n = (etype n, lname n, nsPrefix n, nsURI n, content n, doc n)"

lemma data_assign [fields]:
  "data (set_first a p h x) = data (h x)" "data (set_last a p h x) = data (h x)" "data (set_parent a p h x) = data (h x)"
  "data (set_next a p h x) = data (h x)" "data (set_prev a p h x) = data (h x)" "data (set_props a p h x) = data (h x)"
  "data (set_escaped a h x) = data (h x)" "data (set_charref a c h x) = data (h x)"
  by (simp_all add: data_def set_first_def set_last_def set_parent_def set_next_def set_prev_def set_props_def
      set_escaped_def set_charref_def)

lemma data_fields: "data m = data n \<longleftrightarrow> etype m = etype n \<and> lname m = lname n \<and> nsPrefix m = nsPrefix n \<and> nsURI m = nsURI n
  \<and> content m = content n \<and> doc m = doc n"
  by (auto simp: data_def)

lemma etype_content [fields]: "etype (set_content a v h x) = etype (h x)"
  by (simp add: set_content_def)

lemma when_some_None [fields, simp]: "when_some None f h = h"
  by (simp add: when_some_def)

lemma when_some_Some [fields, simp]: "when_some (Some a) f h = f a h"
  by (simp add: when_some_def)

lemma clear_links_fields [fields]:
  "parent (clear_links a h x) = (if x = a then None else parent (h x))"
  "nextSib (clear_links a h x) = (if x = a then None else nextSib (h x))"
  "prevSib (clear_links a h x) = (if x = a then None else prevSib (h x))"
  "firstChild (clear_links a h x) = firstChild (h x)" "lastChild (clear_links a h x) = lastChild (h x)"
  "properties (clear_links a h x) = properties (h x)" "data (clear_links a h x) = data (h x)"
  by (simp_all add: clear_links_def fields)

subsection \<open>Doubly linked lists\<close>

definition hd_opt :: "'a list \<Rightarrow> 'a option" where
  "hd_opt xs = (if xs = [] then None else Some (hd xs))"

definition last_opt :: "'a list \<Rightarrow> 'a option" where
  "last_opt xs = (if xs = [] then None else Some (last xs))"

lemma hd_opt_simps [simp]: "hd_opt [] = None" "hd_opt (x # xs) = Some x" "hd_opt xs = None \<longleftrightarrow> xs = []"
  "hd_opt (xs @ ys) = (if xs = [] then hd_opt ys else hd_opt xs)"
  by (auto simp: hd_opt_def)

lemma last_opt_simps [simp]: "last_opt [] = None" "last_opt (xs @ [x]) = Some x" "last_opt xs = None \<longleftrightarrow> xs = []"
  "last_opt (xs @ ys) = (if ys = [] then last_opt xs else last_opt ys)" "last_opt [x] = Some x"
  "last_opt (x # xs) = (if xs = [] then Some x else last_opt xs)"
  by (auto simp: last_opt_def)

lemma hd_opt_in: "hd_opt xs = Some x \<Longrightarrow> x \<in> set xs"
  by (auto simp: hd_opt_def split: if_splits)

lemma last_opt_in: "last_opt xs = Some x \<Longrightarrow> x \<in> set xs"
  by (auto simp: last_opt_def split: if_splits)

text \<open>The nodes of a list with owner \<open>p\<close>, between the neighbours \<open>pv\<close> and \<open>nx\<close>.\<close>

fun dll :: "heap \<Rightarrow> addr option \<Rightarrow> addr option \<Rightarrow> addr list \<Rightarrow> addr option \<Rightarrow> bool" where
  "dll h p pv [] nx \<longleftrightarrow> True"
| "dll h p pv (x # xs) nx \<longleftrightarrow> parent (h x) = p \<and> prevSib (h x) = pv \<and> nextSib (h x) = (if xs = [] then nx else hd_opt xs)
     \<and> dll h p (Some x) xs nx"

lemma dll_append:
  "dll h p pv (xs @ ys) nx \<longleftrightarrow>
     dll h p pv xs (if ys = [] then nx else hd_opt ys) \<and> dll h p (if xs = [] then pv else last_opt xs) ys nx"
  by (induction xs arbitrary: pv) auto

lemma dll_frame:
  assumes "\<And>x. x \<in> set xs \<Longrightarrow> parent (h' x) = parent (h x) \<and> prevSib (h' x) = prevSib (h x) \<and> nextSib (h' x) = nextSib (h x)"
  shows "dll h' p pv xs nx \<longleftrightarrow> dll h p pv xs nx"
  using assms by (induction xs arbitrary: pv) auto

lemma dll_new_end:
  assumes "dll h p pv xs nx" "distinct xs"
    and "\<And>x. x \<in> set xs \<Longrightarrow> parent (h' x) = parent (h x) \<and> prevSib (h' x) = prevSib (h x)
      \<and> nextSib (h' x) = (if last_opt xs = Some x then nx' else nextSib (h x))"
  shows "dll h' p pv xs nx'"
  using assms
proof (induction xs arbitrary: pv)
  case (Cons x xs)
  have "last_opt xs \<noteq> Some x"
    using Cons.prems(2) last_opt_in by fastforce
  then show ?case
    using Cons.prems Cons.IH[of "Some x"] by (auto simp: last_opt_def split: if_splits)
qed simp

lemma dll_new_start:
  assumes "dll h p pv xs nx" "distinct xs"
    and "\<And>x. x \<in> set xs \<Longrightarrow> parent (h' x) = parent (h x) \<and> nextSib (h' x) = nextSib (h x)
      \<and> prevSib (h' x) = (if hd_opt xs = Some x then pv' else prevSib (h x))"
  shows "dll h' p pv' xs nx"
proof (cases xs)
  case (Cons y ys)
  have "dll h' p (Some y) ys nx \<longleftrightarrow> dll h p (Some y) ys nx"
    using assms(2,3) Cons by (intro dll_frame) auto
  then show ?thesis
    using assms Cons by auto
qed simp

lemma dll_members: "dll h p pv xs nx \<Longrightarrow> x \<in> set xs \<Longrightarrow> parent (h x) = p"
  by (induction xs arbitrary: pv) auto

lemma dll_at:
  assumes "dll h p None (xs @ n # ys) None"
  shows "parent (h n) = p" "prevSib (h n) = last_opt xs" "nextSib (h n) = hd_opt ys"
  using assms by (auto simp: dll_append)

subsection \<open>The shape of a tree\<close>

datatype owner = Kids addr | Attrs addr | Loose addr

fun owner_node :: "owner \<Rightarrow> addr option" where
  "owner_node (Kids p) = Some p"
| "owner_node (Attrs p) = Some p"
| "owner_node (Loose k) = None"

definition up :: "heap \<Rightarrow> (addr \<times> addr) set" where
  "up h = {(p, x). parent (h x) = Some p}"

text \<open>\<open>L\<close> are the lists and \<open>at\<close> says in which one a node is; a chain without a parent is named after one
  of its nodes.\<close>

definition lists_ok :: "(owner \<Rightarrow> addr list) \<Rightarrow> (addr \<Rightarrow> owner) \<Rightarrow> bool" where
  "lists_ok L at \<longleftrightarrow> (\<forall>ow. distinct (L ow)) \<and> (\<forall>x ow. x \<in> set (L ow) \<longleftrightarrow> at x = ow)
     \<and> (\<forall>k. L (Loose k) \<noteq> [] \<longrightarrow> at k = Loose k)"

definition heads_ok :: "heap \<Rightarrow> (owner \<Rightarrow> addr list) \<Rightarrow> bool" where
  "heads_ok h L \<longleftrightarrow> (\<forall>p. firstChild (h p) = hd_opt (L (Kids p)) \<and> lastChild (h p) = last_opt (L (Kids p))
     \<and> properties (h p) = hd_opt (L (Attrs p)))"

definition kinds_ok :: "heap \<Rightarrow> (owner \<Rightarrow> addr list) \<Rightarrow> bool" where
  "kinds_ok h L \<longleftrightarrow> (\<forall>p. L (Attrs p) \<noteq> [] \<longrightarrow> etype (h p) = ElementNode)
     \<and> (\<forall>p. \<forall>x\<in>set (L (Attrs p)). etype (h x) = AttributeNode)"

definition shape :: "heap \<Rightarrow> (owner \<Rightarrow> addr list) \<Rightarrow> (addr \<Rightarrow> owner) \<Rightarrow> bool" where
  "shape h L at \<longleftrightarrow> lists_ok L at \<and> (\<forall>ow. dll h (owner_node ow) None (L ow) None) \<and> heads_ok h L \<and> kinds_ok h L
     \<and> wf (up h) \<and> finite (up h)"

definition single :: "heap \<Rightarrow> addr \<Rightarrow> bool" where
  "single h x \<longleftrightarrow> parent (h x) = None \<and> prevSib (h x) = None \<and> nextSib (h x) = None"

lemma shape_at: "shape h L at \<Longrightarrow> x \<in> set (L ow) \<longleftrightarrow> at x = ow"
  by (simp add: shape_def lists_ok_def)

lemma shape_distinct: "shape h L at \<Longrightarrow> distinct (L ow)"
  by (simp add: shape_def lists_ok_def)

lemma shape_dll: "shape h L at \<Longrightarrow> dll h (owner_node ow) None (L ow) None"
  by (simp add: shape_def)

lemma shape_heads:
  assumes "shape h L at"
  shows "firstChild (h p) = hd_opt (L (Kids p))" "lastChild (h p) = last_opt (L (Kids p))" "properties (h p) = hd_opt (L (Attrs p))"
  using assms by (simp_all add: shape_def heads_ok_def)

lemma shape_split:
  assumes "shape h L at"
  obtains xs ys where "L (at x) = xs @ x # ys"
proof -
  have "x \<in> set (L (at x))"
    using shape_at[OF assms] by simp
  then show thesis
    using that by (auto simp: in_set_conv_decomp)
qed

lemma shape_links:
  assumes "shape h L at" "L ow = xs @ x # ys"
  shows "at x = ow" "parent (h x) = owner_node ow" "prevSib (h x) = last_opt xs" "nextSib (h x) = hd_opt ys"
proof -
  have "dll h (owner_node ow) None (xs @ x # ys) None"
    using assms by (auto simp: shape_def dest: spec[of _ ow])
  then show "parent (h x) = owner_node ow" "prevSib (h x) = last_opt xs" "nextSib (h x) = hd_opt ys"
    by (rule dll_at)+
  show "at x = ow"
    using shape_at[OF assms(1), of x ow] assms(2) by simp
qed

lemma single_shape:
  assumes "shape h L at"
  shows "single h x \<longleftrightarrow> at x = Loose x \<and> L (Loose x) = [x]"
proof
  obtain xs ys where s: "L (at x) = xs @ x # ys"
    by (rule shape_split[OF assms])
  note l = shape_links[OF assms s]
  assume "single h x"
  then have e: "xs = []" "ys = []" "owner_node (at x) = None"
    using l by (auto simp: single_def)
  then obtain k where k: "at x = Loose k"
    by (cases "at x") auto
  then have "L (Loose k) = [x]"
    using s e by simp
  moreover from this have "at k = Loose k"
    using assms by (auto simp: shape_def lists_ok_def)
  ultimately have "k = x"
    using shape_at[OF assms, of k "Loose k"] by simp
  then show "at x = Loose x \<and> L (Loose x) = [x]"
    using k \<open>L (Loose k) = [x]\<close> by simp
next
  assume "at x = Loose x \<and> L (Loose x) = [x]"
  then show "single h x"
    using shape_links[OF assms, of "Loose x" "[]" x "[]"] by (simp add: single_def)
qed

text \<open>The lists after the segment \<open>as\<close> of the list \<open>ow\<close> became \<open>bs\<close>: nodes of \<open>bs\<close> leave their own chains,
  nodes dropped from \<open>as\<close> get one.\<close>

definition new_owner :: "owner \<Rightarrow> addr list \<Rightarrow> owner" where
  "new_owner ow r = (case ow of Loose k \<Rightarrow> if k \<notin> set r \<and> r \<noteq> [] then Loose (hd r) else ow | _ \<Rightarrow> ow)"

definition new_lists :: "owner \<Rightarrow> addr list \<Rightarrow> addr set \<Rightarrow> addr set \<Rightarrow> (owner \<Rightarrow> addr list) \<Rightarrow> owner \<Rightarrow> addr list" where
  "new_lists ow r dropped added L x =
     (if \<exists>a\<in>dropped. x = Loose a then (case x of Loose a \<Rightarrow> [a] | _ \<Rightarrow> [])
      else if x = new_owner ow r then r
      else if x = ow \<or> (\<exists>b\<in>added. x = Loose b) then []
      else L x)"

definition new_at :: "owner \<Rightarrow> addr list \<Rightarrow> addr set \<Rightarrow> (addr \<Rightarrow> owner) \<Rightarrow> addr \<Rightarrow> owner" where
  "new_at ow r dropped at x = (if x \<in> set r then new_owner ow r else if x \<in> dropped then Loose x else at x)"

lemma new_owner_node: "owner_node (new_owner ow r) = owner_node ow"
  by (cases ow) (auto simp: new_owner_def)

lemma new_owner_keeps: "owner_node ow \<noteq> None \<Longrightarrow> new_owner ow r = ow"
  by (cases ow) (auto simp: new_owner_def)

lemma new_lists_owned:
  assumes "owner_node x \<noteq> None"
  shows "new_lists ow r D B L x = (if x = ow then r else L x)"
  using assms by (cases x; cases ow) (auto simp: new_lists_def new_owner_def)

lemma lists_ok_new:
  assumes ok: "lists_ok L at" and old: "L ow = xs @ as @ ys"
    and added: "\<And>b. b \<in> set bs \<Longrightarrow> b \<notin> set as \<Longrightarrow> at b = Loose b \<and> L (Loose b) = [b] \<and> Loose b \<noteq> ow"
    and r: "r = xs @ bs @ ys" "distinct bs"
  shows "lists_ok (new_lists ow r (set as - set bs) (set bs) L) (new_at ow r (set as - set bs) at)"
proof -
  let ?D = "set as - set bs"
  have "distinct (L ow)" and mem: "\<And>x ow. x \<in> set (L ow) \<longleftrightarrow> at x = ow" and key: "\<And>k. L (Loose k) \<noteq> [] \<Longrightarrow> at k = Loose k"
    using ok by (auto simp: lists_ok_def)
  then have d: "distinct (xs @ as @ ys)"
    using old by simp
  have inside: "\<And>x. x \<in> set xs \<union> set as \<union> set ys \<Longrightarrow> at x = ow"
    using mem[of _ ow] old by auto
  have notin: "b \<notin> set xs \<union> set ys" if "b \<in> set bs" for b
    using added[OF that] inside[of b] d that by (cases "b \<in> set as") auto
  then have dr: "distinct r"
    using d r by auto
  have new: "new_owner ow r = ow \<or> (\<exists>k. ow = Loose k \<and> r \<noteq> [] \<and> new_owner ow r = Loose (hd r) \<and> k \<notin> set r)"
    by (cases ow) (auto simp: new_owner_def)
  have no_drop: "new_owner ow r \<noteq> Loose a" if "a \<in> ?D" "r \<noteq> []" for a
  proof
    assume a: "new_owner ow r = Loose a"
    have "a \<notin> set r"
      using that d r by auto
    with a new that(2) have "ow = Loose a" "a \<in> set r \<or> r = []"
      by (auto simp: new_owner_def split: if_splits)
    then show False
      using \<open>a \<notin> set r\<close> that(2) by simp
  qed
  have chain: "x \<in> set xs \<union> set as \<union> set ys" if "at x = ow" for x
    using mem[of x ow] that old by auto
  have alone: "x = b" if "at x = Loose b" "b \<in> set bs" "b \<notin> set as" for x b
    using mem[of x "Loose b"] added[of b] that by auto
  have named: "at k = Loose k" if "at x = Loose k" for x k
  proof -
    have "x \<in> set (L (Loose k))"
      using mem that by simp
    then show ?thesis
      using key[of k] by (cases "L (Loose k)") auto
  qed
  have dropped: "at a = ow" "a \<notin> set r" if "a \<in> ?D" for a
    using that inside r d by auto
  have in_r: "at x = ow \<or> x \<in> set bs \<and> x \<notin> set as \<and> at x = Loose x" if "x \<in> set r" for x
    using that r inside[of x] added[of x] by auto
  have other: "x \<in> set r" if "at x = new_owner ow r" "r \<noteq> []" "x \<notin> ?D" for x
  proof (cases "new_owner ow r = ow")
    case True
    then show ?thesis
      using chain that r by auto
  next
    case False
    then obtain k where k: "ow = Loose k" "new_owner ow r = Loose (hd r)" "k \<notin> set r"
      using new by blast
    have hr: "hd r \<in> set r"
      using that(2) by simp
    have "at (hd r) = Loose (hd r)"
      using named that(1) k by simp
    then have "hd r \<in> set bs" "hd r \<notin> set as"
      using in_r[OF hr] k hr by auto
    then show ?thesis
      using alone that(1) k hr by auto
  qed
  have "x \<in> set (new_lists ow r ?D (set bs) L ow') \<longleftrightarrow> new_at ow r ?D at x = ow'" for x ow'
  proof (cases "\<exists>a\<in>?D. ow' = Loose a")
    case True
    then obtain a where a: "a \<in> ?D" "ow' = Loose a" by blast
    have "at x \<noteq> Loose a" if "x \<notin> set r" "x \<notin> ?D"
      using named[of x a] dropped[OF a(1)] chain[of x] that r by auto
    then show ?thesis
      using a dropped[OF a(1)] no_drop[OF a(1)] by (cases "r = []") (auto simp: new_lists_def new_at_def)
  next
    case False
    show ?thesis
    proof (cases "ow' = new_owner ow r")
      case True
      have final: "x \<in> set r" if "at x = new_owner ow r" "x \<notin> ?D"
      proof (cases "r = []")
        case True
        then have "at x = ow"
          using that(1) new by auto
        then show ?thesis
          using chain that(2) r by auto
      qed (use that other in blast)
      have "Loose x \<noteq> new_owner ow r" if "x \<in> ?D"
        using True False that by metis
      then show ?thesis
        using True False dropped(2) final by (auto simp: new_lists_def new_at_def)
    next
      case neq: False
      show ?thesis
      proof (cases "ow' = ow \<or> (\<exists>b\<in>set bs. ow' = Loose b)")
        case True
        have "at x \<noteq> ow'" if "x \<notin> set r" "x \<notin> ?D"
        proof
          assume x: "at x = ow'"
          then have "at x \<noteq> ow"
            using that chain[of x] r by auto
          then obtain b where b: "b \<in> set bs" "ow' = Loose b"
            using True x by blast
          then have "at b = Loose b"
            using named x by simp
          then show False
            using alone[of x b] inside[of b] b x that r \<open>at x \<noteq> ow\<close> by (cases "b \<in> set as") auto
        qed
        then show ?thesis
          using True False neq by (auto simp: new_lists_def new_at_def)
      next
        case none: False
        then have "at x \<noteq> ow'" if "x \<in> set r"
          using in_r[OF that] by auto
        then show ?thesis
          using none False neq mem[of x ow'] dropped[of x] by (auto simp: new_lists_def new_at_def)
      qed
    qed
  qed
  moreover have "distinct (new_lists ow r ?D (set bs) L ow')" for ow'
    using ok dr by (auto simp: new_lists_def lists_ok_def split: owner.splits)
  moreover have "new_at ow r ?D at k = Loose k" if nonempty: "new_lists ow r ?D (set bs) L (Loose k) \<noteq> []" for k
  proof -
    consider (D) "k \<in> ?D" | (r) "k \<notin> ?D" "Loose k = new_owner ow r" "r \<noteq> []"
      | (L) "k \<notin> ?D" "Loose k \<noteq> new_owner ow r" "Loose k \<noteq> ow" "k \<notin> set bs" "L (Loose k) \<noteq> []"
      using nonempty by (auto simp: new_lists_def split: if_splits)
    then show ?thesis
    proof cases
      case D
      then show ?thesis
        using dropped(2) by (simp add: new_at_def)
    next
      case r
      then have "k \<in> set r"
        by (auto simp: new_owner_def split: owner.splits if_splits)
      then show ?thesis
        using r by (simp add: new_at_def)
    next
      case L
      then have "at k = Loose k" "k \<notin> set r"
        using key in_r[of k] by auto
      then show ?thesis
        using L by (simp add: new_at_def)
    qed
  qed
  ultimately show ?thesis
    by (simp add: lists_ok_def)
qed



end
