(* ===== verification/DomSplice.thy ===== *)
theory DomSplice
  imports DomShape
begin

text \<open>
  Replacement of a segment of a list of siblings: the lemma that carries the invariance of the
  operations, and the loops of the code on a well-shaped tree.
\<close>

subsection \<open>Well-foundedness after new edges from one node\<close>

lemma reach_through:
  assumes "(x, p) \<in> (R \<union> {p} \<times> B)\<^sup>*"
  shows "(x, p) \<in> R\<^sup>*"
  using assms by (induction rule: converse_rtrancl_induct) (auto intro: converse_rtrancl_into_rtrancl)

lemma wf_new_edges:
  assumes "finite R" "wf R" "finite B" "\<And>b. b \<in> B \<Longrightarrow> (b, p) \<notin> R\<^sup>*"
  shows "wf (R \<union> {p} \<times> B)"
proof -
  have "acyclic (R \<union> {p} \<times> B)"
    using assms(3,4)
  proof (induction B)
    case empty
    show ?case
      using assms(2) by (simp add: wf_acyclic)
  next
    case (insert b B)
    have "(b, p) \<notin> (R \<union> {p} \<times> B)\<^sup>*"
      using reach_through insert.prems by fastforce
    moreover have "R \<union> {p} \<times> insert b B = insert (p, b) (R \<union> {p} \<times> B)"
      by auto
    ultimately show ?case
      using insert by (simp add: acyclic_insert)
  qed
  then show ?thesis
    using assms(1,3) by (simp add: finite_acyclic_wf)
qed

subsection \<open>A new segment\<close>

definition same_links :: "heap \<Rightarrow> heap \<Rightarrow> addr \<Rightarrow> bool" where
  "same_links h h' x \<longleftrightarrow> parent (h' x) = parent (h x) \<and> prevSib (h' x) = prevSib (h x) \<and> nextSib (h' x) = nextSib (h x)"

text \<open>The heap after the list \<open>ow\<close> became \<open>r\<close>; nodes \<open>D\<close> of it were dropped.\<close>

definition relinked :: "heap \<Rightarrow> heap \<Rightarrow> owner \<Rightarrow> addr list \<Rightarrow> addr set \<Rightarrow> bool" where
  "relinked h h' ow r D \<longleftrightarrow> dll h' (owner_node ow) None r None \<and> (\<forall>a\<in>D. single h' a)
     \<and> (\<forall>x. x \<notin> set r \<union> D \<longrightarrow> same_links h h' x)
     \<and> (\<forall>p. firstChild (h' p) = (if ow = Kids p then hd_opt r else firstChild (h p))
         \<and> lastChild (h' p) = (if ow = Kids p then last_opt r else lastChild (h p))
         \<and> properties (h' p) = (if ow = Attrs p then hd_opt r else properties (h p)))
     \<and> (\<forall>x. etype (h' x) = etype (h x))"

text \<open>Nodes \<open>bs\<close> may be linked in the list \<open>ow\<close>.\<close>

definition may_own :: "heap \<Rightarrow> owner \<Rightarrow> addr set \<Rightarrow> bool" where
  "may_own h ow B \<longleftrightarrow> (\<forall>p. owner_node ow = Some p \<longrightarrow> (\<forall>b\<in>B. (b, p) \<notin> (up h)\<^sup>*))
     \<and> (\<forall>p. ow = Attrs p \<longrightarrow> etype (h p) = ElementNode \<and> (\<forall>b\<in>B. etype (h b) = AttributeNode))"

lemma up_relinked:
  assumes s: "shape h L at" and old: "L ow = xs @ as @ ys" and r: "r = xs @ bs @ ys"
    and re: "relinked h h' ow r (set as - set bs)" and own: "may_own h ow (set bs - set as)"
  shows "wf (up h')" "finite (up h')"
proof -
  let ?N = "case owner_node ow of None \<Rightarrow> {} | Some p \<Rightarrow> {p} \<times> (set bs - set as)"
  have sub: "up h' \<subseteq> up h \<union> ?N"
  proof
    fix e assume "e \<in> up h'"
    then obtain p x where e: "e = (p, x)" "parent (h' x) = Some p"
      by (auto simp: up_def)
    show "e \<in> up h \<union> ?N"
    proof (cases "x \<in> set r")
      case True
      then have "owner_node ow = Some p"
        using re e dll_members by (fastforce simp: relinked_def)
      moreover have "parent (h x) = owner_node ow" if "x \<in> set (L ow)"
        using s that dll_members[of h "owner_node ow" None "L ow" None x] by (simp add: shape_def)
      ultimately show ?thesis
        using e True old r by (auto simp: up_def)
    next
      case False
      then show ?thesis
        using re e r by (cases "x \<in> set as") (auto simp: relinked_def same_links_def single_def up_def)
    qed
  qed
  have "finite (up h)" "wf (up h)"
    using s by (auto simp: shape_def)
  then have "wf (up h \<union> ?N) \<and> finite (up h \<union> ?N)"
    using own wf_new_edges[of "up h" "set bs - set as"] by (auto simp: may_own_def split: option.splits)
  then show "wf (up h')" "finite (up h')"
    using sub wf_subset finite_subset by blast+
qed

lemma shape_relinked:
  assumes s: "shape h L at" and old: "L ow = xs @ as @ ys" and r: "r = xs @ bs @ ys" "distinct bs"
    and added: "\<And>b. b \<in> set bs \<Longrightarrow> b \<notin> set as \<Longrightarrow> single h b \<and> Loose b \<noteq> ow"
    and re: "relinked h h' ow r (set as - set bs)" and own: "may_own h ow (set bs - set as)"
  shows "shape h' (new_lists ow r (set as - set bs) (set bs) L) (new_at ow r (set as - set bs) at)" (is "shape h' ?L ?at")
proof -
  have added': "at b = Loose b \<and> L (Loose b) = [b] \<and> Loose b \<noteq> ow" if "b \<in> set bs" "b \<notin> set as" for b
    using added[OF that] single_shape[OF s] by auto
  have lists: "lists_ok ?L ?at"
    using s old added' r by (intro lists_ok_new) (auto simp: shape_def)
  have dlls: "dll h (owner_node x) None (L x) None" for x
    using s by (simp add: shape_def)
  have "dll h' (owner_node x) None (?L x) None" for x
  proof -
    have "dll h' (owner_node x) None (L x) None" if "x \<noteq> ow" "\<forall>b\<in>set bs. x \<noteq> Loose b"
    proof -
      have "same_links h h' y" if "y \<in> set (L x)" for y
      proof -
        have "at y = x"
          using shape_at[OF s] that by simp
        then have "y \<notin> set (L ow)" "y \<notin> set bs"
          using shape_at[OF s, of y ow] added'[of y] \<open>x \<noteq> ow\<close> \<open>\<forall>b\<in>set bs. x \<noteq> Loose b\<close> shape_at[OF s, of y ow] old by auto
        then show ?thesis
          using re old r by (auto simp: relinked_def)
      qed
      then show ?thesis
        using dlls[of x] dll_frame[of "L x" h' h] by (simp add: same_links_def)
    qed
    then show ?thesis
      using re new_owner_node[of ow r] by (auto simp: new_lists_def relinked_def single_def)
  qed
  moreover have "heads_ok h' ?L"
    using s re by (simp add: heads_ok_def shape_def relinked_def new_lists_owned)
  moreover have "kinds_ok h' ?L"
  proof -
    have kinds: "L (Attrs p) \<noteq> [] \<Longrightarrow> etype (h p) = ElementNode" "x \<in> set (L (Attrs p)) \<Longrightarrow> etype (h x) = AttributeNode" for p x
      using s by (auto simp: kinds_ok_def shape_def)
    have "etype (h p) = ElementNode" "x \<in> set r \<Longrightarrow> etype (h x) = AttributeNode" if "ow = Attrs p" for p x
      using own that kinds(2)[of x p] old r by (auto simp: may_own_def)
    then show ?thesis
      using kinds re by (auto simp: kinds_ok_def relinked_def new_lists_owned split: if_splits)
  qed
  ultimately show ?thesis
    using lists up_relinked[OF s old r(1) re own] by (simp add: shape_def)
qed

subsection \<open>The loops of the code\<close>

lemma rtrancl_last: "(c, a) \<in> (up h)\<^sup>* \<longleftrightarrow> a = c \<or> (\<exists>p. parent (h a) = Some p \<and> (c, p) \<in> (up h)\<^sup>*)"
  by (auto simp: up_def elim: rtranclE intro: rtrancl_into_rtrancl)

lemma ancestor_loop_correct:
  assumes "wf (up h)"
  shows "ancestor_loop h c anc = Some (\<exists>a. anc = Some a \<and> (c, a) \<in> (up h)\<^sup>*)"
proof (cases anc)
  case (Some a)
  have "ancestor_loop h c (Some a) = Some ((c, a) \<in> (up h)\<^sup>*)"
    using assms
  proof (induction a rule: wf_induct_rule)
    case (less a)
    show ?case
    proof (cases "parent (h a)")
      case None
      then show ?thesis
        by (simp add: rtrancl_last[of c a] ancestor_loop.simps)
    next
      case (Some p)
      then have "ancestor_loop h c (Some p) = Some ((c, p) \<in> (up h)\<^sup>*)"
        using less by (simp add: up_def)
      then show ?thesis
        using Some by (simp add: rtrancl_last[of c a] ancestor_loop.simps[of h c "Some a"])
    qed
  qed
  then show ?thesis
    using Some by simp
qed (simp add: ancestor_loop.simps)

lemma shape_suffix:
  assumes "shape h L at" "L ow = xs @ x # ys"
  shows "parent (h x) = owner_node ow" "nextSib (h x) = hd_opt ys" "x \<notin> set xs" "x \<notin> set ys"
proof -
  have "distinct (L ow)"
    using assms(1) by (simp add: shape_def lists_ok_def)
  then show "x \<notin> set xs" "x \<notin> set ys"
    using assms(2) by auto
qed (use shape_links[OF assms] in auto)

lemma shape_kinds:
  assumes "shape h L at" "x \<in> set (L (Attrs e))"
  shows "etype (h x) = AttributeNode" "etype (h e) = ElementNode"
proof -
  have k: "kinds_ok h L"
    using assms(1) by (simp add: shape_def)
  show "etype (h x) = AttributeNode"
    using k assms(2) unfolding kinds_ok_def by blast
  have "L (Attrs e) \<noteq> []"
    using assms(2) by auto
  then show "etype (h e) = ElementNode"
    using k by (simp add: kinds_ok_def)
qed

lemma Children_correct:
  assumes "shape h L at"
  shows "Children h n = Some (L (Kids n))"
proof -
  have "owned_loop h n (rev xs) (hd_opt ys) = Some (xs @ ys)" if "L (Kids n) = xs @ ys" for xs ys
    using that
  proof (induction ys arbitrary: xs)
    case Nil
    show ?case
      by (simp add: owned_loop.simps)
  next
    case (Cons y ys)
    note l = shape_suffix[OF assms Cons.prems]
    have "nextOwnedChild h n y = hd_opt ys"
      using l by (simp add: nextOwnedChild_def)
    then show ?case
      using l Cons.IH[of "xs @ [y]"] Cons.prems by (simp add: owned_loop.simps[of h n "rev xs"])
  qed
  from this[of "[]" "L (Kids n)"] show ?thesis
    using assms by (simp add: Children_def shape_def heads_ok_def)
qed

lemma reach_loop_sound:
  assumes s: "shape h L at" and "set stack \<subseteq> F" "finite F" "Range (up h) \<subseteq> F"
  shows "\<exists>b. reach_loop h target visited stack = Some b \<and> (b \<longrightarrow> (\<exists>x\<in>set stack. (x, target) \<in> (up h)\<^sup>*))"
  using assms(2)
proof (induction "(card (F - set visited), length stack)" arbitrary: visited stack rule: wf_induct_rule[OF wf_lex_prod[OF wf_less_than wf_less_than]])
  case (1 visited stack)
  show ?case
  proof (cases stack rule: rev_cases)
    case Nil
    then show ?thesis
      by (intro exI[of _ False]) (simp add: reach_loop.simps)
  next
    case (snoc rest dn)
    have cs: "Children h dn = Some (L (Kids dn))"
      by (rule Children_correct[OF s])
    have kids: "(dn, x) \<in> up h" if "x \<in> set (L (Kids dn))" for x
      using that shape_at[OF s] s dll_members[of h "Some dn" None "L (Kids dn)" None x]
      by (auto simp: up_def shape_def dest!: spec[of _ "Kids dn"])
    consider "dn = target" | "dn \<noteq> target" "dn \<in> set visited" | "dn \<noteq> target" "dn \<notin> set visited"
      by blast
    then show ?thesis
    proof cases
      case 1
      then show ?thesis
        using snoc by (intro exI[of _ True]) (simp add: reach_loop.simps[of h target visited])
    next
      case 2
      then show ?thesis
        using 1(1)[of visited rest] 1(2) snoc by (auto simp: reach_loop.simps[of h target visited])
    next
      case 3
      have "card (F - set (dn # visited)) < card (F - set visited)"
        using 1(2) snoc 3 assms(3) by (intro psubset_card_mono) auto
      moreover have "set (rest @ L (Kids dn)) \<subseteq> F"
        using 1(2) snoc assms(4) kids by auto
      ultimately obtain b where b: "reach_loop h target (dn # visited) (rest @ L (Kids dn)) = Some b"
        "b \<longrightarrow> (\<exists>x\<in>set (rest @ L (Kids dn)). (x, target) \<in> (up h)\<^sup>*)"
        using 1(1)[of "dn # visited" "rest @ L (Kids dn)"] by auto
      then show ?thesis
        using 3 snoc cs kids
        by (auto simp: reach_loop.simps[of h target visited] intro: converse_rtrancl_into_rtrancl)
    qed
  qed
qed

lemma wouldCreateCycle_correct:
  assumes s: "shape h L at"
  shows "wouldCreateCycle h p cur = Some (\<exists>a. p = Some a \<and> (cur, a) \<in> (up h)\<^sup>*)"
proof -
  have f: "wf (up h)" "finite (up h)"
    using s by (auto simp: shape_def)
  have "childReaches h cur a = Some False" if "(cur, a) \<notin> (up h)\<^sup>*" for a
    using reach_loop_sound[OF s, of "[cur]" "insert cur (Range (up h))" a "[]"] that f(2)
    by (auto simp: childReaches_def finite_Range subset_insertI)
  then show ?thesis
    by (auto simp: wouldCreateCycle_def ancestor_loop_correct[OF f(1)] split: option.splits)
qed

lemma find_loop_correct:
  assumes "shape h L at" "L (Attrs e) = xs @ ys"
  shows "find_loop h m (hd_opt ys) = Some (find m ys)"
  using assms(2)
proof (induction ys arbitrary: xs)
  case Nil
  show ?case
    by (simp add: find_loop.simps)
next
  case (Cons y ys)
  have "\<forall>x\<in>set ys. etype (h x) = AttributeNode"
    using shape_kinds(1)[OF assms(1), of _ e] Cons.prems by simp
  then have "NextAttribute h y = hd_opt ys"
    using shape_suffix(2)[OF assms(1) Cons.prems] by (cases ys) (auto simp: NextAttribute_def)
  then show ?case
    using Cons.IH[of "xs @ [y]"] Cons.prems by (simp add: find_loop.simps[of h m "Some y"])
qed

lemma FindAttribute_correct: "shape h L at \<Longrightarrow> FindAttribute h e m = Some (find m (L (Attrs e)))"
  using find_loop_correct[of h L at e "[]" "L (Attrs e)" m] by (simp add: FindAttribute_def shape_def heads_ok_def)

lemma attr_owner_correct:
  assumes "shape h L at"
  shows "attr_owner h n = Some (case at n of Attrs e \<Rightarrow> Some e | _ \<Rightarrow> None)"
proof -
  obtain xs ys where s: "L (at n) = xs @ n # ys"
    by (rule shape_split[OF assms])
  have has: "hasAttributeInProperties h e n = Some (at n = Attrs e)" for e
    using FindAttribute_correct[OF assms, of e "\<lambda>a. a = n"] shape_at[OF assms, of n "Attrs e"]
      find_None_iff[of "\<lambda>a. a = n" "L (Attrs e)"]
    by (auto simp: hasAttributeInProperties_def FindAttribute_def)
  show ?thesis
  proof (cases "at n")
    case (Attrs e)
    then have "etype (h n) = AttributeNode" "etype (h e) = ElementNode"
      using shape_kinds[OF assms, of n e] s by simp_all
    then show ?thesis
      using Attrs shape_links(2)[OF assms s] has by (simp add: attr_owner_def)
  qed (use has in \<open>auto simp: attr_owner_def split: option.splits\<close>)
qed

lemma tail_loop_correct:
  assumes "shape h L at"
  shows "tail_loop h n = Some (last (L (at n)))"
proof -
  have "tail_loop h x = Some (last (x # ys))" if "L (at n) = xs @ x # ys" for xs x ys
    using that
  proof (induction ys arbitrary: xs x)
    case (Cons y ys)
    then show ?case
      using shape_suffix(2)[OF assms Cons.prems] Cons.IH[of "xs @ [x]" y] by (simp add: tail_loop.simps[of h x])
  qed (use shape_suffix(2)[OF assms] in \<open>simp add: tail_loop.simps\<close>)
  then show ?thesis
    using shape_split[OF assms, of n] by (metis last_appendR list.distinct(1))
qed

end
