(* ===== verification/DomLink.thy ===== *)
theory DomLink
  imports DomSplice
begin

text \<open>
  The elementary relinkings of the code as replacements of a segment: taking a node out of its list,
  linking one at its end, and putting nodes in place of another.
\<close>

subsection \<open>Lists after a replacement\<close>

lemma dll_splice:
  assumes "dll h p None (xs @ as @ ys) None" "distinct (xs @ ys)" "dll h' p (last_opt xs) bs (hd_opt ys)"
    and "\<And>x. x \<in> set xs \<Longrightarrow> parent (h' x) = parent (h x) \<and> prevSib (h' x) = prevSib (h x)
      \<and> nextSib (h' x) = (if last_opt xs = Some x then hd_opt (bs @ ys) else nextSib (h x))"
    and "\<And>x. x \<in> set ys \<Longrightarrow> parent (h' x) = parent (h x) \<and> nextSib (h' x) = nextSib (h x)
      \<and> prevSib (h' x) = (if hd_opt ys = Some x then last_opt (xs @ bs) else prevSib (h x))"
  shows "dll h' p None (xs @ bs @ ys) None"
proof -
  have "dll h' p None xs (hd_opt (bs @ ys))"
  proof (rule dll_new_end)
    show "dll h p None xs (hd_opt (as @ ys))"
      using assms(1) by (auto simp: dll_append split: if_splits)
  qed (use assms(2,4) in auto)
  moreover have "dll h' p (last_opt (xs @ bs)) ys None"
  proof (rule dll_new_start)
    show "dll h p (last_opt (xs @ as)) ys None"
      using assms(1) by (auto simp: dll_append split: if_splits)
  qed (use assms(2,5) in auto)
  ultimately show ?thesis
    using assms(3) by (auto simp: dll_append split: if_splits)
qed

text \<open>A segment is relinked when the fields of its list change as they should.\<close>

lemma relinked_intro:
  assumes s: "shape h L at" and old: "L ow = xs @ as @ ys"
    and new: "dll h' (owner_node ow) (last_opt xs) bs (hd_opt ys)"
    and before: "\<And>x. x \<in> set xs \<Longrightarrow> nextSib (h' x) = (if last_opt xs = Some x then hd_opt (bs @ ys) else nextSib (h x))"
    and after: "\<And>x. x \<in> set ys \<Longrightarrow> prevSib (h' x) = (if hd_opt ys = Some x then last_opt (xs @ bs) else prevSib (h x))"
    and keep: "\<And>x. x \<notin> set as \<union> set bs \<Longrightarrow> parent (h' x) = parent (h x)"
      "\<And>x. x \<notin> set as \<union> set bs \<Longrightarrow> last_opt xs \<noteq> Some x \<Longrightarrow> nextSib (h' x) = nextSib (h x)"
      "\<And>x. x \<notin> set as \<union> set bs \<Longrightarrow> hd_opt ys \<noteq> Some x \<Longrightarrow> prevSib (h' x) = prevSib (h x)"
    and sep: "set bs \<inter> (set xs \<union> set ys) = {}"
    and dropped: "\<And>a. a \<in> set as - set bs \<Longrightarrow> single h' a"
    and heads: "\<And>p. firstChild (h' p) = (if ow = Kids p then hd_opt (xs @ bs @ ys) else firstChild (h p))"
      "\<And>p. lastChild (h' p) = (if ow = Kids p then last_opt (xs @ bs @ ys) else lastChild (h p))"
      "\<And>p. properties (h' p) = (if ow = Attrs p then hd_opt (xs @ bs @ ys) else properties (h p))"
    and etypes: "\<And>x. etype (h' x) = etype (h x)"
  shows "relinked h h' ow (xs @ bs @ ys) (set as - set bs)"
proof -
  have l: "dll h (owner_node ow) None (xs @ as @ ys) None" and d: "distinct (xs @ as @ ys)"
    using shape_dll[OF s, of ow] shape_distinct[OF s, of ow] old by simp_all
  have out: "x \<notin> set as \<union> set bs" if "x \<in> set xs \<union> set ys" for x
    using sep that d by auto
  have "dll h' (owner_node ow) None (xs @ bs @ ys) None"
    using l
  proof (rule dll_splice)
    fix x assume x: "x \<in> set xs"
    then have "hd_opt ys \<noteq> Some x"
      using d hd_opt_in[of ys x] by auto
    then show "parent (h' x) = parent (h x) \<and> prevSib (h' x) = prevSib (h x)
      \<and> nextSib (h' x) = (if last_opt xs = Some x then hd_opt (bs @ ys) else nextSib (h x))"
      using keep before[OF x] out[of x] x by simp
  next
    fix x assume x: "x \<in> set ys"
    then have "last_opt xs \<noteq> Some x"
      using d last_opt_in[of xs x] by auto
    then show "parent (h' x) = parent (h x) \<and> nextSib (h' x) = nextSib (h x)
      \<and> prevSib (h' x) = (if hd_opt ys = Some x then last_opt (xs @ bs) else prevSib (h x))"
      using keep after[OF x] out[of x] x by simp
  qed (use d new in auto)
  moreover have "same_links h h' x" if "x \<notin> set (xs @ bs @ ys) \<union> (set as - set bs)" for x
    using that keep hd_opt_in[of ys x] last_opt_in[of xs x] unfolding same_links_def by auto
  ultimately show ?thesis
    using dropped heads etypes unfolding relinked_def by blast
qed

subsection \<open>Taking a node out of its list\<close>

lemma unlink_child_fields:
  assumes "prevSib (h n) \<noteq> Some n"
  shows "parent (unlink_child n h x) = (if x = n then None else parent (h x))"
    "nextSib (unlink_child n h x) = (if x = n then None else if prevSib (h n) = Some x then nextSib (h n) else nextSib (h x))"
    "prevSib (unlink_child n h x) = (if x = n then None else if nextSib (h n) = Some x then prevSib (h n) else prevSib (h x))"
    "firstChild (unlink_child n h x) = (if parent (h n) = Some x \<and> firstChild (h x) = Some n then nextSib (h n) else firstChild (h x))"
    "lastChild (unlink_child n h x) = (if parent (h n) = Some x \<and> lastChild (h x) = Some n then prevSib (h n) else lastChild (h x))"
    "properties (unlink_child n h x) = properties (h x)" "data (unlink_child n h x) = data (h x)"
  using assms by (cases "parent (h n)"; cases "prevSib (h n)"; cases "nextSib (h n)"; simp add: unlink_child_def fields Let_def)+

lemma splice_out_fields:
  assumes "prevSib (h n) \<noteq> Some n"
  shows "parent (spliceOutAttribute e n h x) = (if x = n then None else parent (h x))"
    "nextSib (spliceOutAttribute e n h x) = (if x = n then None else if prevSib (h n) = Some x then nextSib (h n) else nextSib (h x))"
    "prevSib (spliceOutAttribute e n h x) = (if x = n then None else if nextSib (h n) = Some x then prevSib (h n) else prevSib (h x))"
    "firstChild (spliceOutAttribute e n h x) = firstChild (h x)" "lastChild (spliceOutAttribute e n h x) = lastChild (h x)"
    "properties (spliceOutAttribute e n h x) = (if x = e \<and> properties (h e) = Some n then NextAttribute h n else properties (h x))"
    "data (spliceOutAttribute e n h x) = data (h x)"
proof -
  have "etype (set_next a v g x) = etype (g x)" "etype (set_prev a v g x) = etype (g x)" for a v g x
    by (simp_all add: set_next_def set_prev_def)
  then show "properties (spliceOutAttribute e n h x) = (if x = e \<and> properties (h e) = Some n then NextAttribute h n else properties (h x))"
    using assms by (cases "prevSib (h n)"; cases "nextSib (h n)"; simp add: spliceOutAttribute_def fields Let_def NextAttribute_def)
qed (use assms in \<open>cases "prevSib (h n)"; cases "nextSib (h n)"; simp add: spliceOutAttribute_def fields Let_def\<close>)+

lemma data_etype: "data m = data n \<Longrightarrow> etype m = etype n"
  by (simp add: data_def)

lemma relinked_removed:
  assumes s: "shape h L at" and l: "L (at n) = xs @ n # ys"
    and fields: "\<And>x. parent (h' x) = (if x = n then None else parent (h x))"
      "\<And>x. nextSib (h' x) = (if x = n then None else if prevSib (h n) = Some x then nextSib (h n) else nextSib (h x))"
      "\<And>x. prevSib (h' x) = (if x = n then None else if nextSib (h n) = Some x then prevSib (h n) else prevSib (h x))"
      "\<And>x. data (h' x) = data (h x)"
    and heads: "\<And>p. firstChild (h' p) = (if at n = Kids p then hd_opt (xs @ ys) else firstChild (h p))"
      "\<And>p. lastChild (h' p) = (if at n = Kids p then last_opt (xs @ ys) else lastChild (h p))"
      "\<And>p. properties (h' p) = (if at n = Attrs p then hd_opt (xs @ ys) else properties (h p))"
  shows "relinked h h' (at n) (xs @ ys) {n}"
proof -
  note f = shape_links[OF s l]
  have out: "x \<noteq> n" if "x \<in> set xs \<union> set ys" for x
    using that shape_distinct[OF s, of "at n"] l by auto
  have "relinked h h' (at n) (xs @ [] @ ys) (set [n] - set [])"
    by (rule relinked_intro[OF s, of "at n" xs "[n]" ys])
      (simp_all add: l fields f(2-4) single_def data_etype[OF fields(4)] heads out)
  then show ?thesis
    by simp
qed

lemma unlinked:
  assumes s: "shape h L at" and l: "L (at n) = xs @ n # ys"
  obtains h' where "unlinkNode h n = Some h'" "relinked h h' (at n) (xs @ ys) {n}" "\<And>x. data (h' x) = data (h x)"
proof -
  have d: "distinct (xs @ n # ys)"
    using shape_distinct[OF s, of "at n"] l by simp
  note f = shape_links[OF s l]
  have self: "prevSib (h n) \<noteq> Some n"
    using f(3) d last_opt_in[of xs n] by auto
  note uf = unlink_child_fields[where h=h and n=n, OF self]
  note sf = splice_out_fields[where h=h and n=n, OF self]
  note heads = shape_heads[OF s]
  have mem: "n \<in> set (L ow) \<longleftrightarrow> at n = ow" for ow
    by (rule shape_at[OF s])
  have first: "hd_opt zs = Some n \<Longrightarrow> n \<in> set zs" "last_opt zs = Some n \<Longrightarrow> n \<in> set zs" for zs
    by (auto dest: hd_opt_in last_opt_in)
  show thesis
  proof (cases "\<exists>e. at n = Attrs e")
    case True
    then obtain e where e: "at n = Attrs e"
      by blast
    have "\<forall>x\<in>set ys. etype (h x) = AttributeNode"
      using shape_kinds(1)[OF s, of _ e] l e by simp
    then have "NextAttribute h n = hd_opt ys"
      using f(4) by (cases ys) (auto simp: NextAttribute_def)
    then have "relinked h (spliceOutAttribute e n h) (at n) (xs @ ys) {n}"
      using e l d first by (intro relinked_removed[OF s l] sf) (auto simp: sf heads)
    then show ?thesis
      using that[of "spliceOutAttribute e n h"] e by (simp add: unlinkNode_def attr_owner_correct[OF s] sf)
  next
    case False
    then have "relinked h (unlink_child n h) (at n) (xs @ ys) {n}"
      using l d first mem f by (intro relinked_removed[OF s l] uf) (auto simp: uf heads)
    then show ?thesis
      using that[of "unlink_child n h"] False by (simp add: unlinkNode_def attr_owner_correct[OF s] uf split: owner.splits)
  qed
qed

subsection \<open>Linking a node at the end of a list\<close>

lemma relinked_appended:
  assumes s: "shape h L at" and c: "single h c" "at c \<noteq> ow"
    and fields: "\<And>x. parent (h' x) = (if x = c then owner_node ow else parent (h x))"
      "\<And>x. nextSib (h' x) = (if last_opt (L ow) = Some x then Some c else nextSib (h x))"
      "\<And>x. prevSib (h' x) = (if x = c then last_opt (L ow) else prevSib (h x))"
      "\<And>x. etype (h' x) = etype (h x)"
    and heads: "\<And>p. firstChild (h' p) = (if ow = Kids p then hd_opt (L ow @ [c]) else firstChild (h p))"
      "\<And>p. lastChild (h' p) = (if ow = Kids p then Some c else lastChild (h p))"
      "\<And>p. properties (h' p) = (if ow = Attrs p then hd_opt (L ow @ [c]) else properties (h p))"
  shows "relinked h h' ow (L ow @ [c]) {}"
proof -
  have out: "c \<notin> set (L ow)"
    using shape_at[OF s, of c ow] c(2) by simp
  then have "last_opt (L ow) \<noteq> Some c"
    using last_opt_in by fastforce
  moreover have "x \<noteq> c" if "x \<in> set (L ow)" for x
    using out that by auto
  ultimately have "relinked h h' ow (L ow @ [c] @ []) (set [] - set [c])"
    by (intro relinked_intro[OF s, of ow "L ow" "[]" "[]"])
      (use c(1) out in \<open>simp_all add: fields single_def heads\<close>)
  then show ?thesis
    by simp
qed

subsection \<open>Putting nodes in place of another\<close>

lemma link_rest_fields:
  assumes "distinct (l # cs)" "link_rest l cs h = (z, h')"
  shows "z = last (l # cs)" "dll h' (parent (h l)) (prevSib (h l)) (l # cs) (nextSib (h' z))"
    "x \<notin> set cs \<Longrightarrow> parent (h' x) = parent (h x) \<and> prevSib (h' x) = prevSib (h x)"
    "x \<notin> set (butlast (l # cs)) \<Longrightarrow> nextSib (h' x) = nextSib (h x)"
    "firstChild (h' x) = firstChild (h x)" "lastChild (h' x) = lastChild (h x)" "properties (h' x) = properties (h x)"
    "data (h' x) = data (h x)"
proof -
  have "z = last (l # cs) \<and> dll h' (parent (h l)) (prevSib (h l)) (l # cs) (nextSib (h' z))
    \<and> (\<forall>x. (x \<notin> set cs \<longrightarrow> parent (h' x) = parent (h x) \<and> prevSib (h' x) = prevSib (h x))
      \<and> (x \<notin> set (butlast (l # cs)) \<longrightarrow> nextSib (h' x) = nextSib (h x))
      \<and> firstChild (h' x) = firstChild (h x) \<and> lastChild (h' x) = lastChild (h x) \<and> properties (h' x) = properties (h x)
      \<and> data (h' x) = data (h x))"
    using assms
  proof (induction l cs h rule: link_rest.induct)
    case (2 l c cs h)
    let ?h = "set_next l (Some c) (set_prev c (Some l) (set_parent c (parent (h l)) h))"
    have rest: "link_rest c cs ?h = (z, h')" "distinct (c # cs)" "l \<noteq> c" "l \<notin> set cs"
      using 2(2,3) by auto
    note ih = 2(1)[OF rest(2,1)]
    have "l \<notin> set (butlast (c # cs))"
      using rest(3,4) by (auto dest: in_set_butlastD split: if_splits)
    then have l: "parent (h' l) = parent (h l)" "prevSib (h' l) = prevSib (h l)" "nextSib (h' l) = Some c"
      using ih rest(3,4) by (simp_all add: fields del: dll.simps)
    have z: "z = last (l # c # cs)" and "dll h' (parent (h l)) (Some l) (c # cs) (nextSib (h' z))"
      using ih rest(3) by (auto simp only: fields last.simps list.distinct if_False if_True refl)
    then have "dll h' (parent (h l)) (prevSib (h l)) (l # c # cs) (nextSib (h' z))"
      by (subst dll.simps(2)) (simp add: l del: dll.simps last.simps)
    moreover have "(x \<notin> set (c # cs) \<longrightarrow> parent (h' x) = parent (h x) \<and> prevSib (h' x) = prevSib (h x))
      \<and> (x \<notin> set (butlast (l # c # cs)) \<longrightarrow> nextSib (h' x) = nextSib (h x))
      \<and> firstChild (h' x) = firstChild (h x) \<and> lastChild (h' x) = lastChild (h x) \<and> properties (h' x) = properties (h x)
      \<and> data (h' x) = data (h x)" for x
      using ih by (simp add: fields del: dll.simps)
    ultimately show ?case
      using z by blast
  qed simp
  then show "z = last (l # cs)" "dll h' (parent (h l)) (prevSib (h l)) (l # cs) (nextSib (h' z))"
    "x \<notin> set cs \<Longrightarrow> parent (h' x) = parent (h x) \<and> prevSib (h' x) = prevSib (h x)"
    "x \<notin> set (butlast (l # cs)) \<Longrightarrow> nextSib (h' x) = nextSib (h x)"
    "firstChild (h' x) = firstChild (h x)" "lastChild (h' x) = lastChild (h x)" "properties (h' x) = properties (h x)"
    "data (h' x) = data (h x)"
    by blast+
qed

lemma splice_head_fields:
  assumes "prevSib (h n) \<noteq> Some cur"
  shows "parent (splice_head n cur p own h x) = (if x = cur \<and> p \<noteq> None then p else parent (h x))"
    "nextSib (splice_head n cur p own h x) = (if prevSib (h n) = Some x then Some cur else nextSib (h x))"
    "prevSib (splice_head n cur p own h x) = (if x = cur \<and> prevSib (h n) \<noteq> None then prevSib (h n) else prevSib (h x))"
    "firstChild (splice_head n cur p own h x) =
       (if p = Some x \<and> own = None \<and> firstChild (h x) = Some n then Some cur else firstChild (h x))"
    "lastChild (splice_head n cur p own h x) =
       (if p = Some x \<and> own = None \<and> lastChild (h x) = Some n then Some cur else lastChild (h x))"
    "properties (splice_head n cur p own h x) =
       (if p \<noteq> None \<and> own = Some x \<and> etype (h cur) = AttributeNode \<and> properties (h x) = Some n then Some cur else properties (h x))"
    "data (splice_head n cur p own h x) = data (h x)"
proof -
  have e: "etype (set_next a v g x) = etype (g x)" "etype (set_prev a v g x) = etype (g x)" for a v g x
    by (simp_all add: set_next_def set_prev_def)
  show "parent (splice_head n cur p own h x) = (if x = cur \<and> p \<noteq> None then p else parent (h x))"
    "nextSib (splice_head n cur p own h x) = (if prevSib (h n) = Some x then Some cur else nextSib (h x))"
    "prevSib (splice_head n cur p own h x) = (if x = cur \<and> prevSib (h n) \<noteq> None then prevSib (h n) else prevSib (h x))"
    "firstChild (splice_head n cur p own h x) =
       (if p = Some x \<and> own = None \<and> firstChild (h x) = Some n then Some cur else firstChild (h x))"
    "lastChild (splice_head n cur p own h x) =
       (if p = Some x \<and> own = None \<and> lastChild (h x) = Some n then Some cur else lastChild (h x))"
    "properties (splice_head n cur p own h x) =
       (if p \<noteq> None \<and> own = Some x \<and> etype (h cur) = AttributeNode \<and> properties (h x) = Some n then Some cur else properties (h x))"
    "data (splice_head n cur p own h x) = data (h x)"
    using assms by (cases "prevSib (h n)"; cases p; cases own; simp add: splice_head_def fields Let_def e)+
qed

lemma splice_tail_fields:
  shows "parent (splice_tail n nodes cur l nx own h x) = (if n \<notin> set nodes \<and> x = n then None else parent (h x))"
    "nextSib (splice_tail n nodes cur l nx own h x) = (if n \<notin> set nodes \<and> x = n then None else if x = l then nx else nextSib (h x))"
    "prevSib (splice_tail n nodes cur l nx own h x) =
       (if n \<notin> set nodes \<and> x = n then None else if nx = Some x then Some l else prevSib (h x))"
    "firstChild (splice_tail n nodes cur l nx own h x) = firstChild (h x)"
    "lastChild (splice_tail n nodes cur l nx own h x) =
       (if own = None \<and> nx = None \<and> length nodes > 1 \<and> parent (h cur) = Some x then Some l else lastChild (h x))"
    "properties (splice_tail n nodes cur l nx own h x) = properties (h x)"
    "data (splice_tail n nodes cur l nx own h x) = data (h x)"
  by (cases nx; cases "parent (h cur)"; simp add: splice_tail_def fields Let_def)+

text \<open>The fields \<^const>\<open>splice\<close> leaves, for replacements that are linked nowhere else.\<close>

lemma splice_fields:
  fixes own :: "addr option"
  assumes nodes: "nodes \<noteq> []" "distinct nodes" "\<And>c. c \<in> set nodes \<Longrightarrow> c \<noteq> n \<Longrightarrow> single h c"
    and n: "prevSib (h n) = last_opt xs" "nextSib (h n) = hd_opt ys" "parent (h n) = p"
    and sep: "set nodes \<inter> (set xs \<union> set ys) = {}" "n \<notin> set xs \<union> set ys"
  defines "h' \<equiv> splice n nodes p own h"
  shows "dll h' p (last_opt xs) nodes (hd_opt ys)"
    "x \<notin> set nodes \<Longrightarrow> parent (h' x) = (if x = n then None else parent (h x))"
    "x \<notin> set nodes \<Longrightarrow> nextSib (h' x) = (if x = n then None else if last_opt xs = Some x then hd_opt nodes else nextSib (h x))"
    "x \<notin> set nodes \<Longrightarrow> prevSib (h' x) = (if x = n then None else if hd_opt ys = Some x then last_opt nodes else prevSib (h x))"
    "firstChild (h' x) = (if p = Some x \<and> own = None \<and> firstChild (h x) = Some n then hd_opt nodes else firstChild (h x))"
    "lastChild (h' x) = (if p = Some x \<and> own = None \<and> (lastChild (h x) = Some n \<or> ys = [] \<and> length nodes > 1)
       then if ys = [] then last_opt nodes else hd_opt nodes else lastChild (h x))"
    "properties (h' x) = (if p \<noteq> None \<and> own = Some x \<and> etype (h (hd nodes)) = AttributeNode \<and> properties (h x) = Some n
       then hd_opt nodes else properties (h x))"
    "data (h' x) = data (h x)"
proof -
  obtain cur cs where cons: "nodes = cur # cs"
    using nodes(1) by (cases nodes) auto
  define h1 where "h1 = splice_head n cur p own h"
  obtain l h2 where h2: "link_rest cur cs h1 = (l, h2)"
    by fastforce
  have h': "h' = splice_tail n nodes cur l (hd_opt ys) own h2"
    using h2 cons n(2) by (simp add: h'_def splice_def h1_def)
  have "prevSib (h n) \<noteq> Some cur"
    using n(1) sep(1) cons last_opt_in[of xs cur] by auto
  note s1 = splice_head_fields[where h=h and n=n and cur=cur and p=p and own=own, OF this, folded h1_def]
  have "distinct (cur # cs)"
    using nodes(2) cons by simp
  note s2 = link_rest_fields[OF this h2]
  note s3 = splice_tail_fields[of n nodes cur l "hd_opt ys" own h2, folded h']
  have l: "l = last nodes" "l \<in> set nodes" "last_opt nodes = Some l"
    using s2(1) cons by (auto simp: last_opt_def)
  have cur: "parent (h1 cur) = p" "prevSib (h1 cur) = last_opt xs"
    using nodes(3)[of cur] n cons by (cases "cur = n"; auto simp: s1 single_def)+
  show "dll h' p (last_opt xs) nodes (hd_opt ys)"
  proof (rule dll_new_end)
    show "dll h2 p (last_opt xs) nodes (nextSib (h2 l))"
      using s2(2) cur cons by (simp del: dll.simps)
    fix x assume x: "x \<in> set nodes"
    then have "hd_opt ys \<noteq> Some x"
      using sep(1) hd_opt_in[of ys x] by auto
    then show "parent (h' x) = parent (h2 x) \<and> prevSib (h' x) = prevSib (h2 x)
      \<and> nextSib (h' x) = (if last_opt nodes = Some x then hd_opt ys else nextSib (h2 x))"
      using x l by (auto simp: s3)
  qed (rule nodes(2))
  show "firstChild (h' x) = (if p = Some x \<and> own = None \<and> firstChild (h x) = Some n then hd_opt nodes else firstChild (h x))"
    "properties (h' x) = (if p \<noteq> None \<and> own = Some x \<and> etype (h (hd nodes)) = AttributeNode \<and> properties (h x) = Some n
       then hd_opt nodes else properties (h x))"
    "data (h' x) = data (h x)"
    using cons by (auto simp: s3 s2(5-8) s1)
  have "parent (h2 cur) = p"
    using s2(3)[of cur] cur cons nodes(2) by simp
  then show "lastChild (h' x) = (if p = Some x \<and> own = None \<and> (lastChild (h x) = Some n \<or> ys = [] \<and> length nodes > 1)
       then if ys = [] then last_opt nodes else hd_opt nodes else lastChild (h x))"
    using cons l by (auto simp: s3 s2(6) s1)
  assume x: "x \<notin> set nodes"
  then have "x \<notin> set cs" "x \<notin> set (butlast (cur # cs))" "x \<noteq> cur" "x \<noteq> l"
    using cons l in_set_butlastD[of x "cur # cs"] by auto
  then show "parent (h' x) = (if x = n then None else parent (h x))"
    "nextSib (h' x) = (if x = n then None else if last_opt xs = Some x then hd_opt nodes else nextSib (h x))"
    "prevSib (h' x) = (if x = n then None else if hd_opt ys = Some x then last_opt nodes else prevSib (h x))"
    using s2(3,4)[of x] x n cons l by (cases "x = n"; simp add: s3 s1)+
qed

definition attrs_node :: "owner \<Rightarrow> addr option" where
  "attrs_node ow = (case ow of Attrs e \<Rightarrow> Some e | _ \<Rightarrow> None)"

lemma attrs_node_simps [simp]: "attrs_node (Attrs e) = Some e" "attrs_node (Kids e) = None" "attrs_node (Loose e) = None"
  by (simp_all add: attrs_node_def)

lemma hd_opt_Some: "xs \<noteq> [] \<Longrightarrow> hd_opt xs = Some (hd xs)"
  by (simp add: hd_opt_def)

lemma relinked_spliced:
  assumes s: "shape h L at" and l: "L (at n) = xs @ n # ys"
    and nodes: "nodes \<noteq> []" "distinct nodes" "\<And>c. c \<in> set nodes \<Longrightarrow> c \<noteq> n \<Longrightarrow> single h c"
    and attr: "attrs_node (at n) \<noteq> None \<Longrightarrow> etype (h (hd nodes)) = AttributeNode"
  shows "relinked h (splice n nodes (parent (h n)) (attrs_node (at n)) h) (at n) (xs @ nodes @ ys) ({n} - set nodes)"
proof -
  note f = shape_links[OF s l]
  have d: "distinct (xs @ n # ys)"
    using shape_distinct[OF s, of "at n"] l by simp
  have "c \<notin> set xs \<union> set ys" if c: "c \<in> set nodes" for c
  proof (cases "c = n")
    case False
    then have "at c = Loose c" "L (Loose c) = [c]"
      using single_shape[OF s, of c] nodes(3)[OF c] by auto
    moreover have "at c \<noteq> at n"
      using calculation shape_at[OF s, of n "at n"] False by auto
    then show ?thesis
      using shape_at[OF s, of c "at n"] l by auto
  qed (use d in auto)
  then have sep: "set nodes \<inter> (set xs \<union> set ys) = {}"
    by auto
  have "n \<notin> set xs \<union> set ys"
    using d by auto
  note sf = splice_fields[OF nodes f(3,4) refl sep this, where own = "attrs_node (at n)"]
  have mem: "hd_opt zs = Some n \<Longrightarrow> n \<in> set zs" "last_opt zs = Some n \<Longrightarrow> n \<in> set zs" for zs
    by (auto dest: hd_opt_in last_opt_in)
  have owner: "parent (h n) = Some p \<and> attrs_node (at n) = None \<longleftrightarrow> at n = Kids p" for p
    using f(2) by (cases "at n") (auto simp: attrs_node_def)
  have owner': "(\<exists>q. parent (h n) = Some q) \<and> attrs_node (at n) = Some p \<longleftrightarrow> at n = Attrs p" for p
    using f(2) by (cases "at n") (auto simp: attrs_node_def)
  let ?h = "splice n nodes (parent (h n)) (attrs_node (at n)) h"
  have "relinked h ?h (at n) (xs @ nodes @ ys) (set [n] - set nodes)"
  proof (rule relinked_intro[OF s, of "at n" xs "[n]" ys])
    show "dll ?h (owner_node (at n)) (last_opt xs) nodes (hd_opt ys)"
      using sf(1) f(2) by simp
    fix p
    show "firstChild (?h p) = (if at n = Kids p then hd_opt (xs @ nodes @ ys) else firstChild (h p))"
      using l shape_heads(1)[OF s, of p] owner[of p] nodes(1) d mem(1)[of xs] by (auto simp: sf(5))
    show "lastChild (?h p) = (if at n = Kids p then last_opt (xs @ nodes @ ys) else lastChild (h p))"
      using l shape_heads(2)[OF s, of p] owner[of p] nodes(1) d mem(2)[of ys] by (auto simp: sf(6))
    show "properties (?h p) = (if at n = Attrs p then hd_opt (xs @ nodes @ ys) else properties (h p))"
      using l shape_heads(3)[OF s, of p] owner'[of p] attr nodes(1) d mem(1)[of xs] by (auto simp: sf(7))
  next
    fix x assume x: "x \<notin> set [n] \<union> set nodes"
    then show "parent (?h x) = parent (h x)" by (simp add: sf(2))
    show "last_opt xs \<noteq> Some x \<Longrightarrow> nextSib (?h x) = nextSib (h x)"
      "hd_opt ys \<noteq> Some x \<Longrightarrow> prevSib (?h x) = prevSib (h x)"
      using x by (simp_all add: sf(3,4))
  next
    fix x assume x: "x \<in> set xs"
    then have "x \<notin> set nodes" "x \<noteq> n"
      using sep d by auto
    then show "nextSib (?h x) = (if last_opt xs = Some x then hd_opt (nodes @ ys) else nextSib (h x))"
      using nodes(1) sf(3)[of x] by simp
  next
    fix x assume x: "x \<in> set ys"
    then have "x \<notin> set nodes" "x \<noteq> n"
      using sep d by auto
    then show "prevSib (?h x) = (if hd_opt ys = Some x then last_opt (xs @ nodes) else prevSib (h x))"
      using nodes(1) sf(4)[of x] by simp
  next
    fix a assume "a \<in> set [n] - set nodes"
    then show "single ?h a"
      by (auto simp: single_def sf(2-4))
  qed (use l sep in \<open>simp_all add: data_etype[OF sf(8)]\<close>)
  then show ?thesis
    by simp
qed

text \<open>Replacing an attribute in place is the same relinking.\<close>

lemma relinked_cong:
  assumes "relinked h g ow r D" "\<And>x. same_links g h' x"
    "\<And>x. firstChild (h' x) = firstChild (g x) \<and> lastChild (h' x) = lastChild (g x) \<and> properties (h' x) = properties (g x)"
    "\<And>x. etype (h' x) = etype (g x)"
  shows "relinked h h' ow r D"
  using assms(1) dll_frame[of r h' g "owner_node ow" None None] assms(2)
  unfolding relinked_def same_links_def single_def by (simp add: assms(3,4))

lemma relinked_replace_property:
  assumes s: "shape h L at" and l: "L (Attrs e) = xs @ p # ys"
    and a: "single h a" "a \<noteq> p" "etype (h a) = AttributeNode"
  shows "relinked h (replace_property e a p h) (Attrs e) (xs @ a # ys) {p}"
    "data (replace_property e a p h x) = data (h x)"
proof -
  have at: "at p = Attrs e"
    using shape_links(1)[OF s l] .
  note f = shape_links[OF s l]
  have "a \<notin> set (L (Attrs e))"
    using single_shape[OF s, of a] shape_at[OF s, of a "Attrs e"] a(1) by simp
  then have n: "prevSib (h p) \<noteq> Some a" "nextSib (h p) \<noteq> Some a" "prevSib (h p) \<noteq> Some p" "nextSib (h p) \<noteq> Some p" "p \<noteq> a"
    using f(3,4) l a(2) shape_distinct[OF s, of "Attrs e"] last_opt_in[of xs a] hd_opt_in[of ys a] last_opt_in[of xs p] hd_opt_in[of ys p]
    by auto
  have e: "etype (set_next a v g x) = etype (g x)" "etype (set_prev a v g x) = etype (g x)" for a v g x
    by (simp_all add: set_next_def set_prev_def)
  note fs = replace_property_def splice_def splice_head_def splice_tail_def fields Let_def a n e
  let ?g = "splice p [a] (Some e) (Some e) h" and ?h = "replace_property e a p h"
  have r: "relinked h ?g (Attrs e) (xs @ [a] @ ys) ({p} - set [a])"
    using relinked_spliced[OF s, of p xs ys "[a]"] l at a f(2) by (simp add: attrs_node_def)
  moreover have "same_links ?g ?h x" for x
    using a(1) by (cases "prevSib (h p)"; cases "nextSib (h p)") (auto simp: fs same_links_def single_def)
  moreover have "firstChild (?h x) = firstChild (?g x) \<and> lastChild (?h x) = lastChild (?g x) \<and> properties (?h x) = properties (?g x)" for x
    by (cases "prevSib (h p)"; cases "nextSib (h p)") (auto simp: fs)
  moreover have d: "data (?h x) = data (h x)" for x
    by (cases "prevSib (h p)"; cases "nextSib (h p)") (simp_all add: fs)
  moreover have "etype (?h x) = etype (?g x)" for x
    using data_etype[OF d[of x]] r by (simp add: relinked_def)
  ultimately show "relinked h ?h (Attrs e) (xs @ a # ys) {p}"
    using a(2) relinked_cong[of h ?g "Attrs e" "xs @ a # ys" "{p}" ?h] by simp
  show "data (?h x) = data (h x)"
    by (rule d)
qed

end
