(* ===== verification/DomTree.thy ===== *)
theory DomTree
  imports DomLink
begin

text \<open>
  The operations preserve the shape of a tree: every one returns, an operation that is rejected
  changes no link, and the others change the lists of siblings as their specification says.
\<close>

subsection \<open>Unchanged links\<close>

definition same_tree :: "heap \<Rightarrow> heap \<Rightarrow> bool" where
  "same_tree h h' \<longleftrightarrow> (\<forall>x. same_links h h' x \<and> firstChild (h' x) = firstChild (h x) \<and> lastChild (h' x) = lastChild (h x)
     \<and> properties (h' x) = properties (h x) \<and> etype (h' x) = etype (h x))"

lemma same_tree_refl [simp]: "same_tree h h"
  by (simp add: same_tree_def same_links_def)

lemma same_tree_up: "same_tree h h' \<Longrightarrow> up h' = up h"
  by (simp add: same_tree_def same_links_def up_def)

lemma same_tree_shape:
  assumes "same_tree h h'"
  shows "shape h' L at \<longleftrightarrow> shape h L at"
proof -
  have "dll h' p None xs None \<longleftrightarrow> dll h p None xs None" for p xs
    using assms by (intro dll_frame) (simp add: same_tree_def same_links_def)
  then show ?thesis
    using assms by (simp add: shape_def same_tree_up[OF assms] heads_ok_def kinds_ok_def same_tree_def)
qed

lemma same_tree_single: "same_tree h h' \<Longrightarrow> single h' x \<longleftrightarrow> single h x"
  by (simp add: same_tree_def same_links_def single_def)

lemma escape_same_tree [simp]: "same_tree h (noteCrossDocumentEscape d c h)"
  by (auto simp: noteCrossDocumentEscape_def same_tree_def same_links_def fields data_etype[OF data_assign(7)] split: option.splits)

lemma escape_data [fields, simp]: "data (noteCrossDocumentEscape d c h x) = data (h x)"
  by (auto simp: noteCrossDocumentEscape_def fields split: option.splits)

subsection \<open>A node taken out\<close>

text \<open>The lists after the nodes \<open>S\<close> were taken out: those with an owner, and the chain of every other node.\<close>

definition without :: "addr set \<Rightarrow> (owner \<Rightarrow> addr list) \<Rightarrow> (addr \<Rightarrow> owner) \<Rightarrow> (owner \<Rightarrow> addr list) \<Rightarrow> (addr \<Rightarrow> owner) \<Rightarrow> bool" where
  "without S L at L' at' \<longleftrightarrow> (\<forall>ow. owner_node ow \<noteq> None \<longrightarrow> L' ow = filter (\<lambda>x. x \<notin> S) (L ow))
     \<and> (\<forall>m. m \<notin> S \<longrightarrow> owner_node (at' m) = owner_node (at m) \<and> attrs_node (at' m) = attrs_node (at m)
         \<and> L' (at' m) = filter (\<lambda>x. x \<notin> S) (L (at m)))"

lemma filter_not_one [simp]: "filter (\<lambda>x. x \<noteq> n) xs = removeAll n xs"
  by (induction xs) auto

lemma attrs_node_new: "attrs_node (new_owner ow r) = attrs_node ow"
  by (cases ow) (auto simp: new_owner_def attrs_node_def)

lemma shape_parent: "shape h L at \<Longrightarrow> parent (h x) = owner_node (at x)"
  by (metis shape_split shape_links(2))

lemma shape_key: "shape h L at \<Longrightarrow> at x = Loose k \<Longrightarrow> at k = Loose k"
  using shape_at[of h L at x "Loose k"] by (cases "L (Loose k)") (auto simp: shape_def lists_ok_def)

lemma up_sub:
  assumes s: "shape h L at" and s': "shape h' L' at'" and "without {n} L at L' at'" "single h' n"
  shows "up h' \<subseteq> up h"
proof
  fix e assume "e \<in> up h'"
  then obtain p x where e: "e = (p, x)" "parent (h' x) = Some p"
    by (auto simp: up_def)
  then have "x \<noteq> n"
    using assms(4) by (auto simp: single_def)
  then have "parent (h x) = parent (h' x)"
    using assms(3) by (simp add: shape_parent[OF s] shape_parent[OF s'] without_def)
  then show "e \<in> up h"
    using e by (simp add: up_def)
qed

lemma unlinkNode_shape:
  assumes s: "shape h L at"
  obtains h' L' at' where "unlinkNode h n = Some h'" "shape h' L' at'" "single h' n" "without {n} L at L' at'"
    "\<And>x. data (h' x) = data (h x)" "up h' \<subseteq> up h"
proof -
  obtain xs ys where l: "L (at n) = xs @ n # ys"
    by (rule shape_split[OF s])
  then obtain h' where h': "unlinkNode h n = Some h'" "relinked h h' (at n) (xs @ ys) {n}" "\<And>x. data (h' x) = data (h x)"
    using unlinked[OF s] by metis
  have d: "n \<notin> set xs" "n \<notin> set ys"
    using shape_distinct[OF s, of "at n"] l by auto
  let ?L = "new_lists (at n) (xs @ ys) {n} {} L" and ?at = "new_at (at n) (xs @ ys) {n} at"
  have "may_own h (at n) {}"
  proof -
    have "etype (h p) = ElementNode" if "at n = Attrs p" for p
      using shape_kinds(2)[OF s, of n p] l that by simp
    then show ?thesis
      by (auto simp: may_own_def)
  qed
  then have s': "shape h' ?L ?at"
    using shape_relinked[OF s, of "at n" xs "[n]" ys _ "[]" h'] l h'(2) by simp
  have single: "single h' n"
    using h'(2) by (simp add: relinked_def)
  have "removeAll n (L ow) = (if ow = at n then xs @ ys else L ow)" for ow
    using shape_at[OF s, of n ow] l d by auto
  moreover have "owner_node (?at m) = owner_node (at m) \<and> attrs_node (?at m) = attrs_node (at m)
      \<and> ?L (?at m) = removeAll n (L (at m))" if "m \<noteq> n" for m
  proof (cases "m \<in> set (xs @ ys)")
    case True
    then have "at m = at n" "xs @ ys \<noteq> []"
      using shape_at[OF s, of m "at n"] l by auto
    moreover have "new_owner (at n) (xs @ ys) \<noteq> Loose n"
      using True d shape_at[OF s] l by (cases "at n") (auto simp: new_owner_def hd_append)
    ultimately show ?thesis
      using True that l d by (simp add: new_at_def new_owner_node attrs_node_new new_lists_def)
  next
    case False
    then have "at m \<noteq> at n"
      using shape_at[OF s, of m "at n"] l that by auto
    then have a: "?at m = at m" "removeAll n (L (at m)) = L (at m)"
      using False that shape_at[OF s, of n "at m"] by (auto simp: new_at_def removeAll_id)
    have "at k = at n" if "new_owner (at n) (xs @ ys) = Loose k \<or> k = n" "at m = Loose k" for k
      using that shape_at[OF s, of k "at n"] shape_key[OF s that(2)] l
      by (cases "at n") (auto simp: new_owner_def hd_append split: if_splits)
    moreover have "new_owner (at n) (xs @ ys) = at n \<or> (\<exists>k. new_owner (at n) (xs @ ys) = Loose k)"
      by (cases "at n") (auto simp: new_owner_def)
    ultimately have "at m \<noteq> Loose n \<and> at m \<noteq> new_owner (at n) (xs @ ys)"
      using \<open>at m \<noteq> at n\<close> shape_key[OF s, of m] by metis
    then show ?thesis
      using a \<open>at m \<noteq> at n\<close> by (simp add: new_lists_def)
  qed
  ultimately have "without {n} L at ?L ?at"
    by (auto simp: without_def new_lists_owned)
  then show thesis
    using that h' s' single up_sub[OF s s' _ single] by blast
qed

subsection \<open>Preflights\<close>

text \<open>The state in which an operand is linked: it is alone, and nothing else changed.\<close>

definition detached :: "addr \<Rightarrow> heap \<Rightarrow> (owner \<Rightarrow> addr list) \<Rightarrow> (addr \<Rightarrow> owner) \<Rightarrow> heap \<Rightarrow> (owner \<Rightarrow> addr list) \<Rightarrow> (addr \<Rightarrow> owner) \<Rightarrow> bool" where
  "detached n h L at h' L' at' \<longleftrightarrow> shape h' L' at' \<and> single h' n \<and> without {n} L at L' at'
     \<and> (\<forall>x. data (h' x) = data (h x)) \<and> up h' \<subseteq> up h"

lemma without_single:
  assumes "shape h L at" "single h n"
  shows "without {n} L at L at"
proof -
  have n: "at n = Loose n" "L (Loose n) = [n]"
    using single_shape[OF assms(1)] assms(2) by auto
  then have "m = n" if "at m = Loose n" for m
    using shape_at[OF assms(1), of m "Loose n"] that by simp
  then have "at m \<noteq> Loose n" if "m \<noteq> n" for m
    using that by auto
  moreover have "removeAll n (L ow) = L ow" if "ow \<noteq> Loose n" for ow
    using shape_at[OF assms(1), of n ow] n(1) that by (auto simp: removeAll_id)
  moreover have "owner_node ow \<noteq> None \<Longrightarrow> ow \<noteq> Loose n" for ow
    by auto
  ultimately show ?thesis
    by (auto simp: without_def)
qed

lemma unlink_if_linked_shape:
  assumes s: "shape h L at"
  shows "\<exists>h' L' at'. unlink_if_linked h n = Some h' \<and> detached n h L at h' L' at'"
proof (cases "single h n")
  case True
  then show ?thesis
    using s without_single[OF s True] by (auto simp: unlink_if_linked_def single_def detached_def)
next
  case False
  then have "unlink_if_linked h n = unlinkNode h n"
    by (auto simp: unlink_if_linked_def single_def)
  then show ?thesis
    using unlinkNode_shape[OF s, of n] unfolding detached_def by metis
qed

lemma detached_same_tree:
  assumes "same_tree h g" "\<And>x. data (g x) = data (h x)" "detached n g L at h' L' at'"
  shows "detached n h L at h' L' at'"
  using assms same_tree_up[OF assms(1)] by (simp add: detached_def)

lemma preflight_shape:
  assumes s: "shape h L at" and pre: "pre = addChildPreflight h n c \<or> pre = addSiblingPreflight h n c"
  shows "(c, n) \<in> (up h)\<^sup>* \<Longrightarrow> \<exists>h'. pre = Some (Some ErrCyclicNode, h') \<and> same_tree h h' \<and> (\<forall>x. data (h' x) = data (h x))"
    "(c, n) \<notin> (up h)\<^sup>* \<Longrightarrow> \<exists>h' L' at'. pre = Some (None, h') \<and> detached c h L at h' L' at'"
proof -
  obtain d where d: "destinationDocument h n = d \<and> pre = addChildPreflight h n c \<or> doc (h n) = d \<and> pre = addSiblingPreflight h n c"
    using pre by blast
  let ?g = "noteCrossDocumentEscape d c h"
  have same: "same_tree h ?g"
    by simp
  have g: "shape ?g L at" "up ?g = up h" "parent (?g x) = parent (h x)" for x
    using s same_tree_shape[OF same] same_tree_up[OF same] same by (simp_all add: same_tree_def same_links_def)
  note cyc = wouldCreateCycle_correct[OF g(1)]
  obtain h' L' at' where u: "unlink_if_linked ?g c = Some h'" "detached c ?g L at h' L' at'"
    using unlink_if_linked_shape[OF g(1), of c] by blast
  have pre': "pre = (if (c, n) \<in> (up h)\<^sup>* then Some (Some ErrCyclicNode, ?g) else Some (None, h'))"
    using d rtrancl_last[of c n h]
    by (elim disjE) (simp_all add: addChildPreflight_def addSiblingPreflight_def Let_def cyc g(2,3) u(1))
  show "(c, n) \<in> (up h)\<^sup>* \<Longrightarrow> \<exists>h'. pre = Some (Some ErrCyclicNode, h') \<and> same_tree h h' \<and> (\<forall>x. data (h' x) = data (h x))"
    using pre' same by auto
  show "(c, n) \<notin> (up h)\<^sup>* \<Longrightarrow> \<exists>h' L' at'. pre = Some (None, h') \<and> detached c h L at h' L' at'"
    using pre' detached_same_tree[OF same _ u(2)] by auto
qed

subsection \<open>A node linked at the end of a list\<close>

lemma appended_shape:
  assumes s: "shape h L at" and c: "single h c" "at c \<noteq> ow" and re: "relinked h h' ow (L ow @ [c]) {}" and own: "may_own h ow {c}"
  obtains L' at' where "shape h' L' at'"
    "\<And>x. owner_node x \<noteq> None \<Longrightarrow> L' x = (if x = ow then L ow @ [c] else L x)"
    "\<And>x. x \<in> set (L ow @ [c]) \<Longrightarrow> L' (at' x) = L ow @ [c]"
proof -
  have "Loose c \<noteq> ow"
    using c single_shape[OF s, of c] by auto
  then have s': "shape h' (new_lists ow (L ow @ [c]) {} {c} L) (new_at ow (L ow @ [c]) {} at)"
    using shape_relinked[OF s, of ow "L ow" "[]" "[]" "L ow @ [c]" "[c]" h'] c re own by simp
  show thesis
    by (rule that[OF s'], simp add: new_lists_owned) (auto simp: new_at_def new_lists_def)
qed

lemma shape_own:
  assumes "shape h L at" "L ow \<noteq> []" "B \<subseteq> {c. owner_node ow = None \<or> (\<exists>p. owner_node ow = Some p \<and> (c, p) \<notin> (up h)\<^sup>*)}"
    "\<And>p c. ow = Attrs p \<Longrightarrow> c \<in> B \<Longrightarrow> etype (h c) = AttributeNode"
  shows "may_own h ow B"
proof -
  have "etype (h p) = ElementNode" if "ow = Attrs p" for p
    using shape_kinds(2)[OF assms(1), of "hd (L ow)" p] assms(2) that by simp
  then show ?thesis
    using assms(3,4) by (fastforce simp: may_own_def)
qed

lemma merge_same_tree: "same_tree h (merge_text n t h)"
  by (auto simp: merge_text_def append_content_def same_tree_def same_links_def fields Let_def set_charref_def)

lemma append_same_tree: "same_tree h (append_content n b h)"
  by (auto simp: append_content_def same_tree_def same_links_def fields)

lemma append_content_data: "content (append_content n b h n) = content (h n) @ b"
  "x \<noteq> n \<Longrightarrow> append_content n b h x = h x"
  by (simp_all add: append_content_def set_content_def)

lemma merge_content: "content (merge_text n t h n) = content (h n) @ content (h t)"
  "x \<noteq> n \<Longrightarrow> merge_text n t h x = h x"
  by (simp_all add: merge_text_def append_content_def set_content_def set_charref_def)

text \<open>What \<^const>\<open>addChild\<close> leaves, in terms of the lists: \<open>c\<close> leaves its place; a text node is merged
  into a text node at the end, any other node becomes the last child.\<close>

definition child_added :: "addr \<Rightarrow> addr \<Rightarrow> heap \<Rightarrow> (owner \<Rightarrow> addr list) \<Rightarrow> heap \<Rightarrow> (owner \<Rightarrow> addr list) \<Rightarrow> bool" where
  "child_added n c h L h' L' \<longleftrightarrow>
     (let cs = removeAll c (L (Kids n)) in
        if etype (h c) = TextNode \<and> cs \<noteq> [] \<and> etype (h (last cs)) = TextNode
        then (\<forall>ow. owner_node ow \<noteq> None \<longrightarrow> L' ow = removeAll c (L ow)) \<and> single h' c
          \<and> content (h' (last cs)) = content (h (last cs)) @ content (h c) \<and> (\<forall>x. x \<noteq> last cs \<longrightarrow> data (h' x) = data (h x))
        else (\<forall>ow. owner_node ow \<noteq> None \<longrightarrow> L' ow = (if ow = Kids n then cs @ [c] else removeAll c (L ow)))
          \<and> parent (h' c) = Some n \<and> (\<forall>x. data (h' x) = data (h x)))"

lemma addChild_link:
  assumes s: "shape h L at" and c: "single h c" "(c, n) \<notin> (up h)\<^sup>*"
    and h': "h' = (case lastChild (h n) of
        None \<Rightarrow> set_parent c (Some n) (set_last n (Some c) (set_first n (Some c) h))
      | Some l \<Rightarrow> set_last n (Some c) (set_parent c (Some n) (set_prev c (Some l) (set_next l (Some c) h))))"
  shows "\<exists>L' at'. shape h' L' at' \<and> (\<forall>ow. owner_node ow \<noteq> None \<longrightarrow> L' ow = (if ow = Kids n then L ow @ [c] else L ow))
    \<and> (\<forall>x. data (h' x) = data (h x)) \<and> parent (h' c) = Some n"
proof -
  have last: "lastChild (h n) = last_opt (L (Kids n))" "firstChild (h n) = hd_opt (L (Kids n))"
    using shape_heads[OF s] by auto
  have d: "data (h' x) = data (h x)" for x
    by (simp add: h' fields split: option.splits)
  have at: "at c \<noteq> Kids n"
    using c(1) single_shape[OF s, of c] by auto
  have re: "relinked h h' (Kids n) (L (Kids n) @ [c]) {}"
    using s c(1) at
  proof (rule relinked_appended)
    show "etype (h' x) = etype (h x)" for x
      by (rule data_etype[OF d])
  qed (use c(1) last in \<open>auto simp: h' fields single_def split: option.splits\<close>)
  have own: "may_own h (Kids n) {c}"
    using c(2) by (auto simp: may_own_def)
  obtain L' at' where "shape h' L' at'"
    "\<And>x. owner_node x \<noteq> None \<Longrightarrow> L' x = (if x = Kids n then L (Kids n) @ [c] else L x)"
    "\<And>x. x \<in> set (L (Kids n) @ [c]) \<Longrightarrow> L' (at' x) = L (Kids n) @ [c]"
    by (rule appended_shape[OF s c(1) at re own], rule that)
  moreover have "parent (h' c) = Some n"
    by (simp add: h' fields split: option.splits)
  ultimately show ?thesis
    using d by (intro exI[of _ L'] exI[of _ at']) auto
qed

lemma detached_lists: "detached c h L at h' L' at' \<Longrightarrow> owner_node ow \<noteq> None \<Longrightarrow> L' ow = removeAll c (L ow)"
  by (simp add: detached_def without_def)

lemma addChild_shape:
  assumes s: "shape h L at" and c: "etype (h c) \<noteq> AttributeNode" "(c, n) \<notin> (up h)\<^sup>*"
  shows "\<exists>h' L' at'. addChild h n (Some c) = Some (None, h') \<and> shape h' L' at' \<and> child_added n c h L h' L'"
proof -
  obtain h1 L1 at1 where pre: "addChildPreflight h n c = Some (None, h1)" "detached c h L at h1 L1 at1"
    using preflight_shape(2)[OF s, of "addChildPreflight h n c" n c] c(2) by blast
  then have s1: "shape h1 L1 at1" and c1: "single h1 c" "(c, n) \<notin> (up h1)\<^sup>*" and d1: "\<And>x. data (h1 x) = data (h x)"
    using c(2) rtrancl_mono[of "up h1" "up h"] by (auto simp: detached_def)
  note L1 = detached_lists[OF pre(2)]
  have e1: "etype (h1 x) = etype (h x)" "content (h1 x) = content (h x)" for x
    using d1[of x] by (simp_all add: data_def)
  define cs where "cs = removeAll c (L (Kids n))"
  have last: "lastChild (h1 n) = last_opt cs"
    using shape_heads(2)[OF s1, of n] L1[of "Kids n"] by (simp add: cs_def)
  have tail: "cs \<noteq> [] \<Longrightarrow> nextSib (h1 (last cs)) = None \<and> parent (h1 (last cs)) = Some n"
    using shape_links(2,4)[OF s1, of "Kids n" "butlast cs" "last cs" "[]"] L1[of "Kids n"] by (simp add: cs_def)
  show ?thesis
  proof (cases "etype (h c) = TextNode \<and> cs \<noteq> [] \<and> etype (h (last cs)) = TextNode")
    case True
    let ?l = "last cs"
    have l: "?l \<noteq> c" "lastChild (h1 n) = Some ?l" "etype (h1 ?l) = TextNode" "\<not> isDocument h1 ?l"
      using True last last_in_set[of cs] by (auto simp: cs_def last_opt_def e1 isDocument_def)
    have "(c, ?l) \<notin> (up h1)\<^sup>*"
      using l(1) tail True c1(2) rtrancl_last[of c ?l h1] by auto
    then obtain h2 L2 at2 where pre2: "addSiblingPreflight h1 ?l c = Some (None, h2)" "detached c h1 L1 at1 h2 L2 at2"
      using preflight_shape(2)[OF s1, of "addSiblingPreflight h1 ?l c" ?l c] by blast
    note d2 = this(2)[unfolded detached_def]
    let ?h = "set_last n (Some ?l) (merge_text ?l c h2)"
    have e2: "etype (h2 x) = etype (h x)" "content (h2 x) = content (h x)" for x
      using d2 e1[of x] by (simp_all add: data_def)
    have "addChild h n (Some c) = Some (None, ?h)"
      using True c(1) l by (simp add: addChild_def pre no_error_def AddSibling_def Text_AddSibling_def pre2 e1 e2 merge_text_def append_content_def fields set_charref_def set_content_def)
    moreover have owned: "L2 ow = removeAll c (L ow)" if "owner_node ow \<noteq> None" for ow
      using detached_lists[OF pre2(2) that] L1[OF that] by simp
    have "same_tree h2 ?h"
      using merge_same_tree[of h2 ?l c] shape_heads(2)[of h2 L2 at2 n] d2 owned[of "Kids n"] True
      by (auto simp: same_tree_def same_links_def fields cs_def last_opt_def data_etype[OF data_assign(2)])
    then have "shape ?h L2 at2" "single ?h c"
      using d2 same_tree_shape same_tree_single by blast+
    moreover have "content (?h ?l) = content (h ?l) @ content (h c)" "x \<noteq> ?l \<Longrightarrow> data (?h x) = data (h x)" for x
      using d2 d1 merge_content(1)[of ?l c h2] merge_content(2)[of _ ?l c h2] data_assign(2)[of n "Some ?l" "merge_text ?l c h2"] e2
      by (auto simp: data_def)
    ultimately show ?thesis
      using True owned unfolding child_added_def Let_def cs_def[symmetric] by (intro exI[of _ ?h] exI[of _ L2] exI[of _ at2]) simp
  next
    case False
    define h' where "h' = (case lastChild (h1 n) of
        None \<Rightarrow> set_parent c (Some n) (set_last n (Some c) (set_first n (Some c) h1))
      | Some l \<Rightarrow> set_last n (Some c) (set_parent c (Some n) (set_prev c (Some l) (set_next l (Some c) h1))))"
    have "addChild h n (Some c) = Some (None, h')"
      using False c(1) tail by (auto simp: addChild_def pre no_error_def h'_def last last_opt_def e1)
    moreover obtain L' at' where "shape h' L' at'" "\<forall>ow. owner_node ow \<noteq> None \<longrightarrow> L' ow = (if ow = Kids n then L1 ow @ [c] else L1 ow)"
      "\<forall>x. data (h' x) = data (h1 x)" "parent (h' c) = Some n"
      using addChild_link[OF s1 c1 h'_def] by blast
    ultimately show ?thesis
      using False L1 d1 unfolding child_added_def Let_def cs_def[symmetric]
      by (intro exI[of _ h'] exI[of _ L'] exI[of _ at']) (auto simp: cs_def)
  qed
qed

end
