(* ===== verification/DomEdit.thy ===== *)
theory DomEdit
  imports DomTree
begin

text \<open>
  The attributes of an element, siblings and replacements on a well-shaped tree.
\<close>

subsection \<open>Attributes\<close>

text \<open>The attribute list after \<open>a\<close> took the place of the first attribute with \<open>m\<close>, or the last place.\<close>

fun put_attr :: "(addr \<Rightarrow> bool) \<Rightarrow> addr \<Rightarrow> addr list \<Rightarrow> addr list" where
  "put_attr m a [] = [a]"
| "put_attr m a (x # xs) = (if m x then a # xs else x # put_attr m a xs)"

abbreviation same_attr :: "heap \<Rightarrow> addr \<Rightarrow> addr \<Rightarrow> bool" where
  "same_attr h a x \<equiv> attrMatches h x (AttrName h a) (nsURI (h a)) (lname (h a))"

lemma put_attr_new: "find m xs = None \<Longrightarrow> put_attr m a xs = xs @ [a]"
  by (induction xs) (auto split: if_splits)

lemma put_attr_find: "find m xs = Some q \<Longrightarrow> \<exists>us vs. xs = us @ q # vs \<and> put_attr m a xs = us @ a # vs"
proof (induction xs)
  case (Cons x xs)
  show ?case
  proof (cases "m x")
    case True
    then show ?thesis
      using Cons.prems by (intro exI[of _ "[]"] exI[of _ xs]) simp
  next
    case False
    then show ?thesis
      using Cons by (metis append_Cons find.simps(2) put_attr.simps(2))
  qed
qed simp

lemma next_attribute:
  assumes "shape h L at" "L (Attrs e) = xs @ y # ys"
  shows "NextAttribute h y = hd_opt ys"
proof -
  have "\<forall>x\<in>set ys. etype (h x) = AttributeNode"
    using shape_kinds(1)[OF assms(1), of _ e] assms(2) by simp
  then show ?thesis
    using shape_suffix(2)[OF assms] by (cases ys) (auto simp: NextAttribute_def)
qed

lemma property_loop_correct:
  assumes s: "shape h L at" and l: "L (Attrs e) = xs @ y # ys"
  shows "property_loop h e a y = Some (case find (same_attr h a) (y # ys) of
      Some q \<Rightarrow> replace_property e a q h | None \<Rightarrow> append_property e a (last (y # ys)) h)"
  using l
proof (induction ys arbitrary: xs y)
  case Nil
  then show ?case
    using next_attribute[OF s Nil] by (simp add: property_loop.simps[of h e a y])
next
  case (Cons z ys)
  show ?case
    using next_attribute[OF s Cons.prems] Cons.IH[of "xs @ [y]" z] Cons.prems by (simp add: property_loop.simps[of h e a y] split: option.split)
qed

lemma addProperty_shape:
  assumes s: "shape h L at" and a: "single h a" "etype (h a) = AttributeNode" "etype (h e) = ElementNode" "(a, e) \<notin> (up h)\<^sup>*"
  shows "\<exists>h' L' at'. addProperty h e a = Some h' \<and> shape h' L' at' \<and> (\<forall>x. data (h' x) = data (h x))
    \<and> (\<forall>ow. owner_node ow \<noteq> None \<longrightarrow> L' ow = (if ow = Attrs e then put_attr (same_attr h a) a (L ow) else L ow))"
proof -
  have own: "may_own h (Attrs e) {a}"
    using a by (auto simp: may_own_def)
  have at: "at a \<noteq> Attrs e"
    using a(1) single_shape[OF s, of a] by auto
  note head = shape_heads(3)[OF s, of e]
  consider (new) q where "find (same_attr h a) (L (Attrs e)) = Some q" | (last) "find (same_attr h a) (L (Attrs e)) = None"
    by (cases "find (same_attr h a) (L (Attrs e))") auto
  then show ?thesis
  proof cases
    case new
    then obtain us vs where l: "L (Attrs e) = us @ q # vs" "put_attr (same_attr h a) a (L (Attrs e)) = us @ a # vs"
      using put_attr_find by metis
    have "a \<noteq> q"
      using at shape_at[OF s, of a "Attrs e"] l(1) by auto
    note r = relinked_replace_property[OF s l(1) a(1) this a(2)]
    have "shape (replace_property e a q h) (new_lists (Attrs e) (us @ a # vs) {q} {a} L) (new_at (Attrs e) (us @ a # vs) {q} at)"
      using shape_relinked[OF s, of "Attrs e" us "[q]" vs "us @ a # vs" "[a]"] l(1) a(1) r(1) own \<open>a \<noteq> q\<close> by simp
    moreover have "addProperty h e a = Some (replace_property e a q h)"
      using head new property_loop_correct[OF s, of e "[]" _ _ a] by (cases "L (Attrs e)") (auto simp: addProperty_def)
    ultimately show ?thesis
      using l(2) r(2) by (fastforce simp: new_lists_owned)
  next
    case last
    let ?h = "case last_opt (L (Attrs e)) of None \<Rightarrow> set_parent a (Some e) (set_props e (Some a) h) | Some l \<Rightarrow> append_property e a l h"
    have "addProperty h e a = Some ?h"
      using head last property_loop_correct[OF s, of e "[]" _ _ a]
      by (cases "L (Attrs e)") (auto simp: addProperty_def last_opt_def split: option.splits)
    moreover have d: "data (?h x) = data (h x)" for x
      by (simp add: append_property_def fields split: option.splits)
    have re: "relinked h ?h (Attrs e) (L (Attrs e) @ [a]) {}"
      using s a(1) at
    proof (rule relinked_appended)
      show "etype (?h x) = etype (h x)" for x
        by (rule data_etype[OF d])
    qed (use a(1) head in \<open>auto simp: fields single_def append_property_def split: option.splits\<close>)
    obtain L' at' where "shape ?h L' at'"
      "\<And>x. owner_node x \<noteq> None \<Longrightarrow> L' x = (if x = Attrs e then L (Attrs e) @ [a] else L x)"
      "\<And>x. x \<in> set (L (Attrs e) @ [a]) \<Longrightarrow> L' (at' x) = L (Attrs e) @ [a]"
      by (rule appended_shape[OF s a(1) at re own], rule that)
    ultimately show ?thesis
      using put_attr_new[OF last, of a] d by (intro exI[of _ ?h] exI[of _ L'] exI[of _ at']) auto
  qed
qed

lemma attr_owner_node: "shape h L at \<Longrightarrow> attr_owner h n = Some (attrs_node (at n))"
  by (simp add: attr_owner_correct attrs_node_def)

lemma attrs_node_Some: "attrs_node ow = Some e \<longleftrightarrow> ow = Attrs e"
  by (cases ow) (auto simp: attrs_node_def)

subsection \<open>Adding an attribute child\<close>

lemma detached_same:
  assumes "detached c h L at h' L' at'"
  shows "etype (h' x) = etype (h x)" "lname (h' x) = lname (h x)" "nsPrefix (h' x) = nsPrefix (h x)" "nsURI (h' x) = nsURI (h x)"
    "content (h' x) = content (h x)" "doc (h' x) = doc (h x)" "shape h' L' at'" "single h' c"
    "(a, b) \<notin> (up h)\<^sup>* \<Longrightarrow> (a, b) \<notin> (up h')\<^sup>*"
  using assms rtrancl_mono[of "up h'" "up h"] by (auto simp: detached_def data_fields)

definition attr_added :: "addr \<Rightarrow> addr \<Rightarrow> heap \<Rightarrow> (owner \<Rightarrow> addr list) \<Rightarrow> heap \<Rightarrow> (owner \<Rightarrow> addr list) \<Rightarrow> bool" where
  "attr_added e a h L h' L' \<longleftrightarrow> (\<forall>x. data (h' x) = data (h x))
     \<and> (\<forall>ow. owner_node ow \<noteq> None \<longrightarrow> L' ow = (if ow = Attrs e then put_attr (same_attr h a) a (removeAll a (L ow)) else removeAll a (L ow)))"

lemma same_attr_data: "(\<And>x. data (h' x) = data (h x)) \<Longrightarrow> attrMatches h' x (AttrName h' a) (nsURI (h' a)) (lname (h' a)) \<longleftrightarrow> same_attr h a x"
  by (simp add: attrMatches_def AttrName_def data_fields)

lemma addChild_attr_shape:
  assumes s: "shape h L at" and c: "etype (h c) = AttributeNode" "etype (h n) = ElementNode" "(c, n) \<notin> (up h)\<^sup>*"
  shows "\<exists>h' L' at'. addChild h n (Some c) = Some (None, h') \<and> shape h' L' at' \<and> attr_added n c h L h' L'"
proof -
  obtain h1 L1 at1 where pre: "addChildPreflight h n c = Some (None, h1)" "detached c h L at h1 L1 at1"
    using preflight_shape(2)[OF s, of "addChildPreflight h n c" n c] c(3) by blast
  note d = detached_same[OF pre(2)]
  have d1: "data (h1 x) = data (h x)" for x
    using pre(2) by (simp add: detached_def)
  obtain h2 L2 at2 where "addProperty h1 n c = Some h2" "shape h2 L2 at2" "\<forall>x. data (h2 x) = data (h1 x)"
    "\<forall>ow. owner_node ow \<noteq> None \<longrightarrow> L2 ow = (if ow = Attrs n then put_attr (same_attr h1 c) c (L1 ow) else L1 ow)"
    using addProperty_shape[OF d(7,8), of n] c d by auto
  then show ?thesis
    using c pre(1) detached_lists[OF pre(2)] d1 same_attr_data[of h1 h, OF d1]
    by (intro exI[of _ h2] exI[of _ L2] exI[of _ at2]) (auto simp: addChild_def no_error_def attr_added_def)
qed

subsection \<open>Siblings\<close>

lemma last_in: "x \<in> set xs \<Longrightarrow> last xs \<in> set xs"
  by (cases xs) (auto simp: last_in_set)

definition sibling_added :: "addr \<Rightarrow> addr \<Rightarrow> heap \<Rightarrow> (owner \<Rightarrow> addr list) \<Rightarrow> (addr \<Rightarrow> owner) \<Rightarrow> heap \<Rightarrow> (owner \<Rightarrow> addr list) \<Rightarrow> (addr \<Rightarrow> owner) \<Rightarrow> bool" where
  "sibling_added n c h L at h' L' at' \<longleftrightarrow> (\<forall>x. data (h' x) = data (h x))
     \<and> (\<forall>ow. owner_node ow \<noteq> None \<longrightarrow> L' ow = (if ow = at n then removeAll c (L ow) @ [c] else removeAll c (L ow)))
     \<and> L' (at' n) = removeAll c (L (at n)) @ [c] \<and> at' c = at' n"

lemma addSibling_link:
  assumes s: "shape h L at" and c: "single h c" "(c, n) \<notin> (up h)\<^sup>*"
    and kind: "attrs_node (at n) \<noteq> None \<Longrightarrow> etype (h c) = AttributeNode"
    and l: "l = last (L (at n))"
    and h': "h' = (if attrs_node (at n) = None then when_some (parent (h l)) (\<lambda>p. set_last p (Some c)) else id)
        (set_parent c (parent (h l)) (set_prev c (Some l) (set_next l (Some c) h)))"
  shows "\<exists>L' at'. shape h' L' at' \<and> (\<forall>x. data (h' x) = data (h x))
     \<and> (\<forall>ow. owner_node ow \<noteq> None \<longrightarrow> L' ow = (if ow = at n then L ow @ [c] else L ow)) \<and> L' (at' n) = L (at n) @ [c] \<and> at' c = at' n"
proof -
  have in_n: "n \<in> set (L (at n))"
    using shape_at[OF s] by simp
  then have last: "last_opt (L (at n)) = Some l" "l \<in> set (L (at n))"
    using l last_in[OF in_n] by (auto simp: last_opt_def)
  then have "at l = at n"
    using shape_at[OF s] by simp
  then have par: "parent (h l) = owner_node (at n)"
    using shape_parent[OF s, of l] by simp
  have "n \<noteq> c"
    using c(2) by auto
  have at: "at c \<noteq> at n"
  proof
    assume "at c = at n"
    then have "L (at n) = [c]"
      using c(1) single_shape[OF s, of c] by simp
    then show False
      using in_n \<open>n \<noteq> c\<close> by simp
  qed
  have d: "data (h' x) = data (h x)" for x
    by (cases "parent (h l)") (simp_all add: h' fields)
  have re: "relinked h h' (at n) (L (at n) @ [c]) {}"
    using s c(1) at
  proof (rule relinked_appended)
    show "etype (h' x) = etype (h x)" for x
      by (rule data_etype[OF d])
    show "properties (h' p) = (if at n = Attrs p then hd_opt (L (at n) @ [c]) else properties (h p))"
      "firstChild (h' p) = (if at n = Kids p then hd_opt (L (at n) @ [c]) else firstChild (h p))" for p
      using shape_heads(1,3)[OF s, of p] in_n by (cases "parent (h l)"; auto simp: h' fields)+
    show "lastChild (h' p) = (if at n = Kids p then Some c else lastChild (h p))" for p
      using par by (cases "at n") (auto simp: h' fields attrs_node_def)
    show "parent (h' x) = (if x = c then owner_node (at n) else parent (h x))"
      "nextSib (h' x) = (if last_opt (L (at n)) = Some x then Some c else nextSib (h x))"
      "prevSib (h' x) = (if x = c then last_opt (L (at n)) else prevSib (h x))" for x
      using par last(1) by (cases "owner_node (at n)"; auto simp: h' fields)+
  qed
  have "L (at n) \<noteq> []"
    using in_n by auto
  then have own: "may_own h (at n) {c}"
    using shape_own[OF s, of "at n" "{c}"] c(2) kind shape_parent[OF s, of n] rtrancl_last[of c n h]
    by (cases "owner_node (at n)") auto
  obtain L' at' where s': "shape h' L' at'"
    "\<And>x. owner_node x \<noteq> None \<Longrightarrow> L' x = (if x = at n then L (at n) @ [c] else L x)"
    "\<And>x. x \<in> set (L (at n) @ [c]) \<Longrightarrow> L' (at' x) = L (at n) @ [c]"
    by (rule appended_shape[OF s c(1) at re own], rule that)
  moreover have "at' c = at' n"
    using s'(3)[of n] in_n shape_at[OF s'(1), of c "at' n"] by simp
  ultimately show ?thesis
    using in_n d by (intro exI[of _ L'] exI[of _ at']) auto
qed

lemma addSibling_shape:
  assumes s: "shape h L at" and c: "(c, n) \<notin> (up h)\<^sup>*" and kind: "attrs_node (at n) \<noteq> None \<Longrightarrow> etype (h c) = AttributeNode"
  shows "\<exists>h' L' at'. addSibling h n (Some c) = Some (None, h') \<and> shape h' L' at' \<and> sibling_added n c h L at h' L' at'"
proof -
  obtain h1 L1 at1 where pre: "addSiblingPreflight h n c = Some (None, h1)" "detached c h L at h1 L1 at1"
    using preflight_shape(2)[OF s, of "addSiblingPreflight h n c" n c] c by blast
  note d = detached_same[OF pre(2)]
  have "n \<noteq> c"
    using c by auto
  then have n1: "attrs_node (at1 n) = attrs_node (at n)" "owner_node (at1 n) = owner_node (at n)" "L1 (at1 n) = removeAll c (L (at n))"
    using pre(2) by (auto simp: detached_def without_def)
  let ?l = "last (L1 (at1 n))"
  define h' where "h' = (if attrs_node (at1 n) = None then when_some (parent (h1 ?l)) (\<lambda>p. set_last p (Some c)) else id)
        (set_parent c (parent (h1 ?l)) (set_prev c (Some ?l) (set_next ?l (Some c) h1)))"
  have kind1: "etype (h1 c) = AttributeNode" if "attrs_node (at1 n) \<noteq> None"
    using that kind n1 d by simp
  obtain L' at' where l: "shape h' L' at'" "\<forall>x. data (h' x) = data (h1 x)"
    "\<forall>ow. owner_node ow \<noteq> None \<longrightarrow> L' ow = (if ow = at1 n then L1 ow @ [c] else L1 ow)" "L' (at' n) = L1 (at1 n) @ [c]" "at' c = at' n"
    using addSibling_link[OF d(7,8) d(9)[OF c] kind1 refl h'_def] by blast
  have "?l \<in> set (L1 (at1 n))"
    using shape_at[OF d(7), of n "at1 n"] last_in[of n "L1 (at1 n)"] by auto
  then have "parent (h1 ?l) = owner_node (at1 n)"
    using shape_parent[OF d(7), of ?l] shape_at[OF d(7)] by simp
  then have "addSibling h n (Some c) = Some (None, h')"
    using kind n1(1)
    by (cases "attrs_node (at n)")
      (auto simp: addSibling_def attr_owner_node[OF s] pre no_error_def tail_loop_correct[OF d(7)] h'_def attrs_node_Some)
  moreover have same: "ow = at1 n \<longleftrightarrow> ow = at n" if "owner_node ow \<noteq> None" for ow
    using that n1(1,2) by (cases ow; cases "at n"; cases "at1 n") auto
  have "L' ow = (if ow = at n then removeAll c (L ow) @ [c] else removeAll c (L ow))" if "owner_node ow \<noteq> None" for ow
    using l(3)[rule_format, OF that] unfolding same[OF that] detached_lists[OF pre(2) that] .
  then have "sibling_added n c h L at h' L' at'"
    using l(2,4,5) n1(3) pre(2) by (simp add: sibling_added_def detached_def)
  ultimately show ?thesis
    using l(1) by blast
qed

text \<open>\<open>AddSibling\<close> of a text node with a text operand merges the operand and removes it.\<close>

lemma Text_merge_shape:
  assumes s: "shape h L at" and c: "(c, n) \<notin> (up h)\<^sup>*" "etype (h c) = TextNode"
  shows "\<exists>h' L' at'. Text_AddSibling h n (Some c) = Some (None, h') \<and> shape h' L' at' \<and> single h' c \<and> without {c} L at L' at'
    \<and> content (h' n) = content (h n) @ content (h c) \<and> (\<forall>x. x \<noteq> n \<longrightarrow> data (h' x) = data (h x))"
proof -
  obtain h1 L1 at1 where pre: "addSiblingPreflight h n c = Some (None, h1)" "detached c h L at h1 L1 at1"
    using preflight_shape(2)[OF s, of "addSiblingPreflight h n c" n c] c(1) by blast
  note d = detached_same[OF pre(2)]
  have "Text_AddSibling h n (Some c) = Some (None, merge_text n c h1)"
    using c(2) d by (simp add: Text_AddSibling_def pre no_error_def)
  moreover have "shape (merge_text n c h1) L1 at1" "single (merge_text n c h1) c"
    using d(7,8) same_tree_shape[OF merge_same_tree[of h1 n c]] same_tree_single[OF merge_same_tree[of h1 n c]] by auto
  moreover have "content (merge_text n c h1 n) = content (h n) @ content (h c)"
    using d merge_content(1)[of n c h1] by simp
  moreover have "x \<noteq> n \<Longrightarrow> data (merge_text n c h1 x) = data (h x)" for x
    using pre(2) merge_content(2)[of x n c h1] by (simp add: detached_def)
  ultimately show ?thesis
    using pre(2) by (auto simp: detached_def)
qed

subsection \<open>Replacements\<close>

lemma without_trans:
  assumes "without S L at L' at'" "without T L' at' L'' at''"
  shows "without (S \<union> T) L at L'' at''"
  using assms unfolding without_def by (simp add: conj_commute Collect_neg_eq)

lemma detach_all_shape:
  assumes "shape h L at"
  shows "\<exists>h' L' at'. detach_all n nodes h = Some h' \<and> shape h' L' at' \<and> without (set nodes - {n}) L at L' at'
    \<and> (\<forall>x\<in>set nodes - {n}. single h' x) \<and> (\<forall>x. single h x \<longrightarrow> single h' x) \<and> (\<forall>x. data (h' x) = data (h x)) \<and> up h' \<subseteq> up h"
  using assms
proof (induction nodes arbitrary: h L at)
  case Nil
  then show ?case
    by (auto simp: without_def)
next
  case (Cons nn nodes)
  show ?case
  proof (cases "nn = n")
    case True
    then show ?thesis
      using Cons.IH[OF Cons.prems] by simp
  next
    case False
    obtain h1 L1 at1 where u: "unlinkNode h nn = Some h1" "shape h1 L1 at1" "single h1 nn" "without {nn} L at L1 at1"
      "\<And>x. data (h1 x) = data (h x)" "up h1 \<subseteq> up h"
      by (rule unlinkNode_shape[OF Cons.prems, of nn], rule that)
    obtain h2 L2 at2 where v: "detach_all n nodes h1 = Some h2" "shape h2 L2 at2" "without (set nodes - {n}) L1 at1 L2 at2"
      "\<forall>x\<in>set nodes - {n}. single h2 x" "\<forall>x. single h1 x \<longrightarrow> single h2 x" "\<forall>x. data (h2 x) = data (h1 x)" "up h2 \<subseteq> up h1"
      using Cons.IH[OF u(2)] by blast
    have "single h1 x" if "single h x" for x
    proof (cases "x = nn")
      case False
      then have "L1 (at1 x) = [x]" "owner_node (at1 x) = None"
        using that u(4) single_shape[OF Cons.prems, of x] by (auto simp: without_def)
      then show ?thesis
        using shape_links(2-4)[OF u(2), of "at1 x" "[]" x "[]"] by (simp add: single_def)
    qed (use u(3) in simp)
    moreover have "set (nn # nodes) - {n} = {nn} \<union> (set nodes - {n})"
      using False by auto
    ultimately show ?thesis
      using False u v without_trans[OF u(4) v(3)] by (intro exI[of _ h2] exI[of _ L2] exI[of _ at2]) auto
  qed
qed

lemma replace_guard_correct:
  assumes "shape h L at"
  shows "\<exists>h'. replace_guard n p d nodes h = Some (if \<exists>c\<in>set nodes - {n}. \<exists>a. p = Some a \<and> (c, a) \<in> (up h)\<^sup>* then Some ErrCyclicNode else None, h')
    \<and> same_tree h h' \<and> (\<forall>x. data (h' x) = data (h x))"
  using assms
proof (induction nodes arbitrary: h)
  case (Cons nn nodes)
  let ?g = "noteCrossDocumentEscape d nn h"
  have g: "same_tree h ?g" "shape ?g L at" "up ?g = up h"
    using Cons.prems same_tree_shape[of h ?g] same_tree_up[of h ?g] by simp_all
  note cyc = wouldCreateCycle_correct[OF g(2)]
  obtain h' where h': "replace_guard n p d nodes ?g = Some (if \<exists>c\<in>set nodes - {n}. \<exists>a. p = Some a \<and> (c, a) \<in> (up h)\<^sup>* then Some ErrCyclicNode else None, h')"
    "same_tree ?g h'" "\<forall>x. data (h' x) = data (h x)"
    using Cons.IH[OF g(2)] g(3) by auto
  have "same_tree h h'"
    using g(1) h'(2) by (simp add: same_tree_def same_links_def)
  then show ?case
    using Cons.IH[OF Cons.prems] h' g(1,3) by (cases "nn = n") (auto simp: Let_def cyc)
qed simp

text \<open>A list of siblings after \<open>nodes\<close> came in the place of \<open>n\<close>.\<close>

definition put_nodes :: "addr \<Rightarrow> addr list \<Rightarrow> addr list \<Rightarrow> addr list" where
  "put_nodes n nodes xs = concat (map (\<lambda>x. if x = n then nodes else if x \<in> set nodes then [] else [x]) xs)"

lemma put_nodes_filter:
  "put_nodes n nodes xs = concat (map (\<lambda>x. if x = n then nodes else [x]) (filter (\<lambda>x. x \<notin> set nodes - {n}) xs))"
  by (induction xs) (auto simp: put_nodes_def)

lemma concat_no: "n \<notin> set xs \<Longrightarrow> concat (map (\<lambda>x. if x = n then nodes else [x]) xs) = xs"
  by (induction xs) auto

lemma link_rest_data: "link_rest l cs h = (z, h') \<Longrightarrow> data (h' x) = data (h x)"
  by (induction l cs h rule: link_rest.induct) (auto simp: fields)

lemma splice_data: "data (splice n nodes p own h x) = data (h x)"
proof -
  obtain l h2 where l: "link_rest (hd nodes) (tl nodes) (splice_head n (hd nodes) p own h) = (l, h2)"
    by fastforce
  have "data (splice_head n (hd nodes) p own h x) = data (h x)"
    by (cases "prevSib (h n)"; cases p; cases own) (simp_all add: splice_head_def fields Let_def)
  then show ?thesis
    using link_rest_data[OF l, of x] by (simp add: splice_def l splice_tail_fields)
qed

lemma splice_shape:
  assumes s: "shape h L at" and nodes: "nodes \<noteq> []" "distinct nodes" "\<forall>c\<in>set nodes - {n}. single h c"
    and cyc: "\<forall>c\<in>set nodes - {n}. (c, n) \<notin> (up h)\<^sup>*"
    and attr: "attrs_node (at n) \<noteq> None \<Longrightarrow> \<forall>c\<in>set nodes - {n}. etype (h c) = AttributeNode"
  shows "\<exists>L' at'. shape (splice n nodes (parent (h n)) (attrs_node (at n)) h) L' at'
    \<and> (\<forall>ow. owner_node ow \<noteq> None \<longrightarrow> L' ow = concat (map (\<lambda>x. if x = n then nodes else [x]) (L ow)))
    \<and> (n \<notin> set nodes \<longrightarrow> single (splice n nodes (parent (h n)) (attrs_node (at n)) h) n)"
proof -
  obtain xs ys where l: "L (at n) = xs @ n # ys"
    by (rule shape_split[OF s])
  let ?h = "splice n nodes (parent (h n)) (attrs_node (at n)) h"
  have kind: "etype (h c) = AttributeNode" if "attrs_node (at n) \<noteq> None" "c \<in> set nodes" for c
  proof (cases "c = n")
    case True
    obtain e where "at n = Attrs e"
      using \<open>attrs_node (at n) \<noteq> None\<close> by (cases "at n") auto
    then show ?thesis
      using True shape_kinds(1)[OF s, of n e] l by simp
  qed (use attr that in auto)
  have re: "relinked h ?h (at n) (xs @ nodes @ ys) (set [n] - set nodes)"
    using relinked_spliced[OF s l nodes(1,2)] nodes(1,3) kind by simp
  have own: "may_own h (at n) (set nodes - set [n])"
  proof (rule shape_own[OF s])
    show "L (at n) \<noteq> []"
      using l by simp
    show "set nodes - set [n] \<subseteq> {c. owner_node (at n) = None \<or> (\<exists>p. owner_node (at n) = Some p \<and> (c, p) \<notin> (up h)\<^sup>*)}"
      using cyc rtrancl_last[of _ n h] shape_parent[OF s, of n] by (cases "owner_node (at n)") auto
  qed (use kind in auto)
  have added: "single h b \<and> Loose b \<noteq> at n" if "b \<in> set nodes" "b \<notin> set [n]" for b
  proof -
    have "single h b"
      using nodes(3) that by simp
    then have "L (Loose b) = [b]"
      using single_shape[OF s, of b] by simp
    then show ?thesis
      using \<open>single h b\<close> l that(2) by (metis in_set_conv_decomp list.set_intros(1) set_ConsD empty_iff empty_set)
  qed
  have s': "shape ?h (new_lists (at n) (xs @ nodes @ ys) (set [n] - set nodes) (set nodes) L) (new_at (at n) (xs @ nodes @ ys) (set [n] - set nodes) at)"
    using shape_relinked[OF s, of "at n" xs "[n]" ys _ nodes ?h] l nodes(2) added re own by simp
  have d: "n \<notin> set xs" "n \<notin> set ys"
    using shape_distinct[OF s, of "at n"] l by auto
  have "concat (map (\<lambda>x. if x = n then nodes else [x]) (L ow)) = (if ow = at n then xs @ nodes @ ys else L ow)" for ow
    using l d concat_no[of n _ nodes] shape_at[OF s, of n ow] by simp
  moreover have "n \<notin> set nodes \<longrightarrow> single ?h n"
    using re by (simp add: relinked_def)
  ultimately show ?thesis
    using s' by (intro exI[of _ "new_lists (at n) (xs @ nodes @ ys) (set [n] - set nodes) (set nodes) L"]
        exI[of _ "new_at (at n) (xs @ nodes @ ys) (set [n] - set nodes) at"]) (simp add: new_lists_owned)
qed

lemma replaceNode_shape:
  assumes s: "shape h L at" and nodes: "nodes \<noteq> []" "distinct nodes"
    and attr: "attrs_node (at n) \<noteq> None \<Longrightarrow> \<forall>c\<in>set nodes - {n}. etype (h c) = AttributeNode"
  shows "\<exists>c\<in>set nodes - {n}. (c, n) \<in> (up h)\<^sup>* \<Longrightarrow>
      \<exists>h'. replaceNode h n (map Some nodes) = Some (Some ErrCyclicNode, h') \<and> same_tree h h' \<and> (\<forall>x. data (h' x) = data (h x))"
    "\<forall>c\<in>set nodes - {n}. (c, n) \<notin> (up h)\<^sup>* \<Longrightarrow>
      \<exists>h' L' at'. replaceNode h n (map Some nodes) = Some (None, h') \<and> shape h' L' at' \<and> (\<forall>x. data (h' x) = data (h x))
        \<and> (\<forall>ow. owner_node ow \<noteq> None \<longrightarrow> L' ow = put_nodes n nodes (L ow)) \<and> (n \<notin> set nodes \<longrightarrow> single h' n)"
proof -
  have cyc: "(\<exists>a. parent (h n) = Some a \<and> (c, a) \<in> (up h)\<^sup>*) \<longleftrightarrow> (c, n) \<in> (up h)\<^sup>*" if "c \<in> set nodes - {n}" for c
    using rtrancl_last[of c n h] that by auto
  obtain h1 where g: "replace_guard n (parent (h n)) (doc (h n)) nodes h =
      Some (if \<exists>c\<in>set nodes - {n}. (c, n) \<in> (up h)\<^sup>* then Some ErrCyclicNode else None, h1)"
    "same_tree h h1" "\<forall>x. data (h1 x) = data (h x)"
    using replace_guard_correct[OF s, of n "parent (h n)" "doc (h n)" nodes] cyc by auto
  have start: "replaceNode h n (map Some nodes) = no_error (replace_guard n (parent (h n)) (doc (h n)) nodes h) (\<lambda>g.
      do { g \<leftarrow> detach_all n nodes g; Some (None, splice n nodes (parent (h n)) (attrs_node (at n)) g) })"
    using nodes attr by (auto simp: replaceNode_def attr_owner_node[OF s] comp_def Let_def)
  show "\<exists>h'. replaceNode h n (map Some nodes) = Some (Some ErrCyclicNode, h') \<and> same_tree h h' \<and> (\<forall>x. data (h' x) = data (h x))"
    if "\<exists>c\<in>set nodes - {n}. (c, n) \<in> (up h)\<^sup>*"
    using g that by (simp add: start no_error_def)
  assume ok: "\<forall>c\<in>set nodes - {n}. (c, n) \<notin> (up h)\<^sup>*"
  have s1: "shape h1 L at" "up h1 = up h"
    using s g(2) same_tree_shape same_tree_up by blast+
  obtain h2 L2 at2 where d: "detach_all n nodes h1 = Some h2" "shape h2 L2 at2" "without (set nodes - {n}) L at L2 at2"
    "\<forall>x\<in>set nodes - {n}. single h2 x" "\<forall>x. data (h2 x) = data (h1 x)" "up h2 \<subseteq> up h1"
    using detach_all_shape[OF s1(1), of n nodes] by blast
  have data2: "data (h2 x) = data (h x)" for x
    using d(5) g(3) by simp
  have n2: "owner_node (at2 n) = owner_node (at n)" "attrs_node (at2 n) = attrs_node (at n)"
    using d(3) by (auto simp: without_def)
  have par: "parent (h2 n) = parent (h n)"
    using n2 by (simp add: shape_parent[OF s] shape_parent[OF d(2)])
  have cyc2: "\<forall>c\<in>set nodes - {n}. (c, n) \<notin> (up h2)\<^sup>*"
    using ok d(6) s1(2) rtrancl_mono[of "up h2" "up h"] by auto
  have attr2: "attrs_node (at2 n) \<noteq> None \<Longrightarrow> \<forall>c\<in>set nodes - {n}. etype (h2 c) = AttributeNode"
    using attr n2(2) data2 by (simp add: data_fields)
  obtain L' at' where e: "shape (splice n nodes (parent (h n)) (attrs_node (at n)) h2) L' at'"
    "\<forall>ow. owner_node ow \<noteq> None \<longrightarrow> L' ow = concat (map (\<lambda>x. if x = n then nodes else [x]) (L2 ow))"
    "n \<notin> set nodes \<longrightarrow> single (splice n nodes (parent (h n)) (attrs_node (at n)) h2) n"
    using splice_shape[OF d(2) nodes d(4) cyc2 attr2] n2(2) par by auto
  have f: "data (splice n nodes (parent (h n)) (attrs_node (at n)) h2 x) = data (h x)" for x
    using data2 by (simp add: splice_data)
  have "replaceNode h n (map Some nodes) = Some (None, splice n nodes (parent (h n)) (attrs_node (at n)) h2)"
    using g(1) ok d(1) by (simp add: start no_error_def)
  moreover have "L' ow = put_nodes n nodes (L ow)" if "owner_node ow \<noteq> None" for ow
    using e(2) d(3) that by (simp add: put_nodes_filter without_def)
  ultimately show "\<exists>h' L' at'. replaceNode h n (map Some nodes) = Some (None, h') \<and> shape h' L' at' \<and> (\<forall>x. data (h' x) = data (h x))
        \<and> (\<forall>ow. owner_node ow \<noteq> None \<longrightarrow> L' ow = put_nodes n nodes (L ow)) \<and> (n \<notin> set nodes \<longrightarrow> single h' n)"
    using e(1,3) f by blast
qed

end
