(* ===== verification/DomSpec.thy ===== *)
theory DomSpec
  imports DomEdit
begin

text \<open>
  The specification of the tree operations: sequences of edits from unlinked nodes keep the shape, every
  edit returns, a rejected one changes nothing, and the lists of children change as documented.
\<close>

subsection \<open>Allocation\<close>

definition fresh :: "heap \<Rightarrow> addr \<Rightarrow> bool" where
  "fresh h x \<longleftrightarrow> single h x \<and> firstChild (h x) = None \<and> lastChild (h x) = None \<and> properties (h x) = None"

lemma fresh_no_child:
  assumes "shape h L at" "fresh h x"
  shows "L (Kids x) = []" "L (Attrs x) = []"
  using shape_heads[OF assms(1), of x] assms(2) by (auto simp: fresh_def)

lemma shape_owner_lists:
  assumes "shape h L at" "parent (h x) = Some p"
  shows "x \<in> set (L (Kids p)) \<or> x \<in> set (L (Attrs p))"
  using shape_parent[OF assms(1), of x] assms shape_at[OF assms(1), of x] by (cases "at x") auto

lemma no_child_reach:
  assumes s: "shape h L at" and "L (Kids x) = []" "L (Attrs x) = []" and r: "(x, y) \<in> (up h)\<^sup>*"
  shows "y = x"
  using r
proof (induction rule: rtrancl_induct)
  case (step y z)
  then show ?case
    using shape_owner_lists[OF s, of z x] assms(2,3) by (auto simp: up_def)
qed simp

text \<open>An unlinked node may take any data.\<close>

definition same_pointers :: "node \<Rightarrow> node \<Rightarrow> bool" where
  "same_pointers m n \<longleftrightarrow> firstChild m = firstChild n \<and> lastChild m = lastChild n \<and> parent m = parent n
     \<and> nextSib m = nextSib n \<and> prevSib m = prevSib n \<and> properties m = properties n"

lemma shape_data_change:
  assumes s: "shape h L at" and x: "fresh h x" "same_pointers v (h x)"
  shows "shape (h(x := v)) L at"
proof -
  have links: "same_links h (h(x := v)) y" "firstChild ((h(x := v)) y) = firstChild (h y)"
    "lastChild ((h(x := v)) y) = lastChild (h y)" "properties ((h(x := v)) y) = properties (h y)" for y
    using x(2) by (auto simp: same_links_def same_pointers_def)
  then have "up (h(x := v)) = up h"
    by (simp add: up_def same_links_def)
  moreover have "dll (h(x := v)) p None xs None \<longleftrightarrow> dll h p None xs None" for p xs
    using links(1) by (intro dll_frame) (simp add: same_links_def)
  moreover have "x \<notin> set (L (Attrs p))" for p
    using x(1) single_shape[OF s, of x] shape_at[OF s, of x "Attrs p"] by (simp add: fresh_def)
  moreover have "L (Attrs x) = []"
    by (rule fresh_no_child(2)[OF s x(1)])
  ultimately show ?thesis
    using s links(2-4) unfolding shape_def heads_ok_def kinds_ok_def by auto
qed

lemma new_text_shape: "shape h L at \<Longrightarrow> fresh h t \<Longrightarrow> shape (new_text t b d h) L at"
  unfolding new_text_def by (rule shape_data_change) (simp_all add: same_pointers_def)

lemma new_attribute_shape: "shape h L at \<Longrightarrow> fresh h a \<Longrightarrow> shape (new_attribute a l pre uri d h) L at"
  unfolding new_attribute_def by (rule shape_data_change) (simp_all add: same_pointers_def)

lemma fresh_update: "same_pointers v (h x) \<Longrightarrow> fresh (h(x := v)) y \<longleftrightarrow> fresh h y"
  by (auto simp: fresh_def single_def same_pointers_def)

lemma fresh_new [simp]: "fresh (new_text t b d h) y \<longleftrightarrow> fresh h y" "fresh (new_attribute a l pre uri d h) y \<longleftrightarrow> fresh h y"
  unfolding new_text_def new_attribute_def by (rule fresh_update, simp add: same_pointers_def)+

subsection \<open>Edits\<close>

datatype edit = AddChildTo addr "addr option" | AddSiblingTo addr "addr option" | ReplaceBy addr "addr option list"
  | Unlink "addr option" | AppendTextTo addr string addr | SetAttributeOf addr string string string string addr addr
  | SetBooleanOf addr string addr | RemoveAttributeOf addr string

fun run_edit :: "edit \<Rightarrow> heap \<Rightarrow> outcome" where
  "run_edit (AddChildTo n c) h = AddChild h n c"
| "run_edit (AddSiblingTo n c) h = AddSibling h n c"
| "run_edit (ReplaceBy n ns) h = Replace h n ns"
| "run_edit (Unlink n) h = do { h \<leftarrow> UnlinkNode h n; Some (None, h) }"
| "run_edit (AppendTextTo n b t) h = AppendText h n b t"
| "run_edit (SetAttributeOf e l v pre uri a t) h = SetAttributeNS h e l v pre uri a t"
| "run_edit (SetBooleanOf e l a) h = SetBooleanAttribute h e l a"
| "run_edit (RemoveAttributeOf e q) h = do { (b, h) \<leftarrow> RemoveAttribute h e (QNamePredicate h q); Some (None, h) }"

text \<open>The receiver has the method, and the nodes an edit allocates are new.\<close>

fun permitted :: "edit \<Rightarrow> heap \<Rightarrow> bool" where
  "permitted (AppendTextTo n b t) h \<longleftrightarrow> fresh h t \<and> t \<noteq> n"
| "permitted (SetAttributeOf e l v pre uri a t) h \<longleftrightarrow> etype (h e) = ElementNode \<and> fresh h a \<and> fresh h t \<and> distinct [e, a, t]"
| "permitted (SetBooleanOf e l a) h \<longleftrightarrow> etype (h e) = ElementNode \<and> fresh h a \<and> a \<noteq> e"
| "permitted (RemoveAttributeOf e q) h \<longleftrightarrow> etype (h e) = ElementNode"
| "permitted _ h \<longleftrightarrow> True"

text \<open>An edit that was rejected changed no link and no data.\<close>

definition unchanged :: "heap \<Rightarrow> heap \<Rightarrow> bool" where
  "unchanged h h' \<longleftrightarrow> same_tree h h' \<and> (\<forall>x. data (h' x) = data (h x))"

lemma unchanged_refl [simp]: "unchanged h h"
  by (simp add: unchanged_def)

definition sound :: "heap \<Rightarrow> outcome \<Rightarrow> bool" where
  "sound h r \<longleftrightarrow> (\<exists>e h' L' at'. r = Some (e, h') \<and> shape h' L' at' \<and> (e \<noteq> None \<longrightarrow> unchanged h h'))"

lemma sound_error [intro]: "shape h L at \<Longrightarrow> sound h (Some (Some e, h))"
  by (auto simp: sound_def)

lemma sound_unchanged: "shape h L at \<Longrightarrow> unchanged h h' \<Longrightarrow> sound h (Some (e, h'))"
  using same_tree_shape[of h h' L at] by (auto simp: sound_def unchanged_def)

lemma sound_ok: "shape h' L' at' \<Longrightarrow> sound h (Some (None, h'))"
  by (auto simp: sound_def)

text \<open>The leaf receivers: after the preflight only the content changes.\<close>

lemma preflight_sound:
  assumes s: "shape h L at" and f: "\<And>g. \<exists>g'. f g = Some (None, g') \<and> same_tree g g'"
  shows "sound h (no_error (addChildPreflight h n c) f)"
proof (cases "(c, n) \<in> (up h)\<^sup>*")
  case True
  then obtain h' where "addChildPreflight h n c = Some (Some ErrCyclicNode, h')" "same_tree h h'" "\<forall>x. data (h' x) = data (h x)"
    using preflight_shape(1)[OF s, of "addChildPreflight h n c" n c] by blast
  then show ?thesis
    using s sound_unchanged[of h L at h'] by (simp add: no_error_def unchanged_def)
next
  case False
  then obtain h' L' at' where "addChildPreflight h n c = Some (None, h')" "detached c h L at h' L' at'"
    using preflight_shape(2)[OF s, of "addChildPreflight h n c" n c] by blast
  moreover obtain g' where "f h' = Some (None, g')" "same_tree h' g'"
    using f by blast
  ultimately show ?thesis
    using same_tree_shape[of h' g' L' at'] by (auto simp: no_error_def detached_def intro: sound_ok)
qed

lemma addChild_sound:
  assumes s: "shape h L at"
  shows "sound h (addChild h n cur)"
proof (cases cur)
  case (Some c)
  show ?thesis
  proof (cases "etype (h c) = AttributeNode \<and> etype (h n) \<noteq> ElementNode")
    case False
    show ?thesis
    proof (cases "(c, n) \<in> (up h)\<^sup>*")
      case True
      then obtain h' where "addChildPreflight h n c = Some (Some ErrCyclicNode, h')" "same_tree h h'" "\<forall>x. data (h' x) = data (h x)"
        using preflight_shape(1)[OF s, of "addChildPreflight h n c" n c] by blast
      then show ?thesis
        using Some False s sound_unchanged[of h L at h'] by (simp add: addChild_def no_error_def unchanged_def)
    next
      case neq: False
      show ?thesis
        using False Some addChild_shape[OF s _ neq] addChild_attr_shape[OF s _ _ neq]
        by (cases "etype (h c) = AttributeNode") (auto intro: sound_ok)
    qed
  qed (use Some s in \<open>auto simp: addChild_def\<close>)
qed (use s in \<open>auto simp: addChild_def\<close>)

lemma AddChild_sound:
  assumes s: "shape h L at"
  shows "sound h (AddChild h n cur)"
  using s addChild_sound[OF s, of n cur] merge_same_tree append_same_tree
  by (cases "etype (h n)"; cases cur)
    (auto simp: AddChild_def Text_AddChild_def Comment_AddChild_def CDATA_AddChild_def PI_AddChild_def intro!: preflight_sound[OF s])

lemma sibling_error:
  assumes s: "shape h L at" "(c, n) \<in> (up h)\<^sup>*"
  shows "sound h (no_error (addSiblingPreflight h n c) f)"
proof -
  obtain h' where "addSiblingPreflight h n c = Some (Some ErrCyclicNode, h')" "same_tree h h'" "\<forall>x. data (h' x) = data (h x)"
    using preflight_shape(1)[OF s(1), of "addSiblingPreflight h n c" n c] s(2) by blast
  then show ?thesis
    using s(1) sound_unchanged[of h L at h'] by (simp add: no_error_def unchanged_def)
qed

lemma addSibling_sound:
  assumes s: "shape h L at"
  shows "sound h (addSibling h n cur)"
proof (cases cur)
  case (Some c)
  show ?thesis
  proof (cases "attrs_node (at n) \<noteq> None \<and> etype (h c) \<noteq> AttributeNode")
    case False
    show ?thesis
    proof (cases "(c, n) \<in> (up h)\<^sup>*")
      case True
      then show ?thesis
        using False Some sibling_error[OF s True] by (cases "attrs_node (at n)") (auto simp: addSibling_def attr_owner_node[OF s])
    next
      case neq: False
      obtain h' L' at' where "addSibling h n (Some c) = Some (None, h')" "shape h' L' at'"
        using addSibling_shape[OF s neq] False by blast
      then show ?thesis
        using Some sound_ok[of h' L' at' h] by simp
    qed
  qed (use Some s in \<open>auto simp: addSibling_def attr_owner_node[OF s]\<close>)
qed (use s in \<open>auto simp: addSibling_def\<close>)

lemma attrs_kind:
  assumes "shape h L at" "etype (h n) \<noteq> AttributeNode"
  shows "attrs_node (at n) = None"
proof (cases "at n")
  case (Attrs e)
  then show ?thesis
    using shape_kinds(1)[OF assms(1), of n e] shape_at[OF assms(1), of n "Attrs e"] assms(2) by simp
qed auto

lemma Text_AddSibling_sound:
  assumes s: "shape h L at" and n: "etype (h n) = TextNode"
  shows "sound h (Text_AddSibling h n cur)"
proof (cases cur)
  case (Some c)
  show ?thesis
  proof (cases "(c, n) \<in> (up h)\<^sup>*")
    case True
    then show ?thesis
      using Some sibling_error[OF s True] by (simp add: Text_AddSibling_def)
  next
    case neq: False
    obtain h1 L1 at1 where pre: "addSiblingPreflight h n c = Some (None, h1)" "detached c h L at h1 L1 at1"
      using preflight_shape(2)[OF s, of "addSiblingPreflight h n c" n c] neq by blast
    note d = detached_same[OF pre(2)]
    show ?thesis
    proof (cases "etype (h c) = TextNode")
      case True
      then show ?thesis
        using Text_merge_shape[OF s neq True] Some by (auto intro: sound_ok)
    next
      case False
      have "attrs_node (at1 n) = None"
        using attrs_kind[OF d(7), of n] d n by simp
      then have "sound h (addSibling h1 n (Some c))"
        using addSibling_shape[OF d(7) d(9)[OF neq]] by (auto intro: sound_ok)
      then show ?thesis
        using False Some d by (simp add: Text_AddSibling_def pre no_error_def)
    qed
  qed
qed (use s in \<open>auto simp: Text_AddSibling_def\<close>)

lemma AddSibling_sound: "shape h L at \<Longrightarrow> sound h (AddSibling h n cur)"
  using addSibling_sound[of h L at n cur] Text_AddSibling_sound[of h L at n cur] by (auto simp: AddSibling_def)

lemma Replace_sound:
  assumes s: "shape h L at"
  shows "sound h (Replace h n operands)"
proof (cases "etype (h n) = NamespaceNode \<or> isDocument h n \<or> operands = [] \<or> None \<in> set operands")
  case True
  then show ?thesis
    using s by (auto simp: Replace_def replaceNode_def)
next
  case False
  let ?nodes = "map the operands"
  have some: "operands = map Some ?nodes"
    using False by (intro nth_equalityI) (auto simp: in_set_conv_nth)
  let ?bad = "attrs_node (at n) \<noteq> None \<and> (\<exists>nn\<in>set ?nodes. nn \<noteq> n \<and> etype (h nn) \<noteq> AttributeNode)"
  show ?thesis
  proof (cases "?bad \<or> \<not> distinct ?nodes")
    case True
    then have "replaceNode h n operands = Some (Some ErrInvalidOperation, h)"
      using False by (simp only: replaceNode_def attr_owner_node[OF s] Let_def if_False bind.bind_lunit) auto
    then show ?thesis
      using False s by (auto simp: Replace_def)
  next
    case ok: False
    then have nodes: "?nodes \<noteq> []" "distinct ?nodes"
      and attr: "attrs_node (at n) \<noteq> None \<Longrightarrow> \<forall>c\<in>set ?nodes - {n}. etype (h c) = AttributeNode"
      using False by auto
    note r = replaceNode_shape[OF s nodes attr, folded some]
    show ?thesis
    proof (cases "\<exists>c\<in>set ?nodes - {n}. (c, n) \<in> (up h)\<^sup>*")
      case True
      then obtain h' where "replaceNode h n operands = Some (Some ErrCyclicNode, h')" "unchanged h h'"
        using r(1) by (auto simp: unchanged_def)
      then show ?thesis
        using False sound_unchanged[OF s, of h'] by (simp add: Replace_def)
    next
      case neq: False
      then obtain h' L' at' where "replaceNode h n operands = Some (None, h')" "shape h' L' at'"
        using r(2) by blast
      then show ?thesis
        using False sound_ok[of h' L' at' h] by (simp add: Replace_def)
    qed
  qed
qed

lemma Unlink_sound:
  assumes s: "shape h L at"
  shows "sound h (do { h \<leftarrow> UnlinkNode h n; Some (None, h) })"
proof (cases n)
  case (Some a)
  obtain h' L' at' where "unlinkNode h a = Some h'" "shape h' L' at'"
    using unlinkNode_shape[OF s, of a] by metis
  then show ?thesis
    using Some by (auto simp: UnlinkNode_def intro: sound_ok)
qed (use s in \<open>auto simp: UnlinkNode_def intro: sound_ok\<close>)

definition container :: "kind \<Rightarrow> bool" where
  "container k \<longleftrightarrow> k \<notin> {TextNode, CommentNode, CDATASectionNode, ProcessingInstructionNode, NamespaceNode}"

lemma AddChild_container: "container (etype (h n)) \<Longrightarrow> AddChild h n cur = addChild h n cur"
  by (cases "etype (h n)") (simp_all add: AddChild_def container_def)

text \<open>What \<^const>\<open>appendText\<close> leaves: the content goes to the last child if that is a text node, otherwise to a
  new last child.\<close>

lemma appendText_shape:
  assumes s: "shape h L at" and t: "fresh h t" "t \<noteq> n" and n: "container (etype (h n))"
  shows "\<exists>h' L' at'. appendText h n b t = Some (None, h') \<and> shape h' L' at'
    \<and> (if L (Kids n) \<noteq> [] \<and> etype (h (last (L (Kids n)))) = TextNode then h' = append_content (last (L (Kids n))) b h \<and> L' = L
       else child_added n t (new_text t b (doc (h n)) h) L h' L')"
proof (cases "L (Kids n) \<noteq> [] \<and> etype (h (last (L (Kids n)))) = TextNode")
  case True
  let ?h = "append_content (last (L (Kids n))) b h"
  have "appendText h n b t = Some (None, ?h)"
    using True shape_heads(2)[OF s, of n] by (simp add: appendText_def last_opt_def)
  moreover have "shape ?h L at"
    using same_tree_shape[OF append_same_tree] s by blast
  ultimately show ?thesis
    using True by auto
next
  case False
  let ?h = "new_text t b (doc (h n)) h"
  have s1: "shape ?h L at"
    by (rule new_text_shape[OF s t(1)])
  have cyc: "(t, n) \<notin> (up ?h)\<^sup>*"
    using no_child_reach[OF s1, of t n] fresh_no_child[OF s t(1)] t(2) by auto
  have "etype (?h t) \<noteq> AttributeNode" "etype (?h n) = etype (h n)"
    using t(2) by (simp_all add: new_text_def)
  moreover have "appendText h n b t = AddChild ?h n (Some t)"
    using False shape_heads(2)[OF s, of n] by (auto simp: appendText_def last_opt_def split: option.splits)
  ultimately obtain h' L' at' where "appendText h n b t = Some (None, h')" "shape h' L' at'" "child_added n t ?h L h' L'"
    using addChild_shape[OF s1 _ cyc] AddChild_container[of ?h n] n by auto
  then show ?thesis
    using False by auto
qed

lemma AppendText_sound:
  assumes s: "shape h L at" and t: "fresh h t" "t \<noteq> n"
  shows "sound h (AppendText h n b t)"
proof (cases "container (etype (h n))")
  case True
  then obtain h' L' at' where "appendText h n b t = Some (None, h')" "shape h' L' at'"
    using appendText_shape[OF s t True] by blast
  then show ?thesis
    using True sound_ok[of h' L' at' h] by (simp add: AppendText_def container_def)
next
  case False
  then show ?thesis
    using same_tree_shape[OF append_same_tree, of n b h L at] s sound_ok[of "append_content n b h" L at h]
    by (auto simp: AppendText_def container_def)
qed

lemma new_attribute_same [simp]: "e \<noteq> a \<Longrightarrow> new_attribute a l pre uri d h e = h e" "e \<noteq> t \<Longrightarrow> new_text t b d h e = h e"
  by (simp_all add: new_attribute_def new_text_def)

text \<open>The new attribute with its text child.\<close>

lemma new_attribute_text_shape:
  assumes s: "shape h L at" and f: "fresh h a" "fresh h t" "distinct [e, a, t]"
  shows "\<exists>L' at'. shape (new_attribute_text a t l pre uri v d h) L' at' \<and> single (new_attribute_text a t l pre uri v d h) a
    \<and> (\<forall>ow. owner_node ow \<noteq> None \<longrightarrow> L' ow = (if ow = Kids a then [t] else L ow))"
proof -
  let ?g = "new_text t v d (new_attribute a l pre uri d h)" and ?h = "new_attribute_text a t l pre uri v d h"
  have s1: "shape ?g L at"
    using new_text_shape[OF new_attribute_shape[OF s f(1)]] f(2) by simp
  have g: "fresh ?g a" "fresh ?g t"
    using f by simp_all
  have "(t, a) \<notin> (up ?g)\<^sup>*"
    using no_child_reach[OF s1, of t a] fresh_no_child[OF s1 g(2)] f(3) by auto
  moreover have "?h = (case lastChild (?g a) of
        None \<Rightarrow> set_parent t (Some a) (set_last a (Some t) (set_first a (Some t) ?g))
      | Some l \<Rightarrow> set_last a (Some t) (set_parent t (Some a) (set_prev t (Some l) (set_next l (Some t) ?g))))"
    using g(1) by (simp add: fresh_def new_attribute_text_def)
  ultimately obtain L' at' where "shape ?h L' at'" "\<forall>ow. owner_node ow \<noteq> None \<longrightarrow> L' ow = (if ow = Kids a then L ow @ [t] else L ow)"
    using addChild_link[OF s1 _ _ , of t a ?h] g(2) by (auto simp: fresh_def)
  moreover have "single ?h a"
    using g(1) f(3) by (auto simp: fresh_def single_def new_attribute_text_def fields)
  ultimately show ?thesis
    using fresh_no_child(1)[OF s f(1)] by (intro exI[of _ L'] exI[of _ at']) auto
qed

lemma reach_two:
  assumes s: "shape h L at" and "set (L (Kids a)) \<subseteq> {t}" "L (Attrs a) = []" "L (Kids t) = []" "L (Attrs t) = []" and r: "(a, y) \<in> (up h)\<^sup>*"
  shows "y \<in> {a, t}"
  using r
proof (induction rule: rtrancl_induct)
  case (step y z)
  then show ?case
    using shape_owner_lists[OF s, of z y] assms(2-5) by (auto simp: up_def)
qed simp

lemma new_attribute_text_data:
  assumes "distinct [e, a, t]"
  shows "etype (new_attribute_text a t l pre uri v d h x) = (if x = a then AttributeNode else if x = t then TextNode else etype (h x))"
    "lname (new_attribute_text a t l pre uri v d h x) = (if x = a then l else if x = t then ''(text)'' else lname (h x))"
    "nsPrefix (new_attribute_text a t l pre uri v d h x) = (if x = a then pre else nsPrefix (h x))"
    "nsURI (new_attribute_text a t l pre uri v d h x) = (if x = a then uri else nsURI (h x))"
    "content (new_attribute_text a t l pre uri v d h x) = (if x = a then [] else if x = t then v else content (h x))"
  using assms by (simp_all add: new_attribute_text_def new_attribute_def new_text_def set_parent_def set_last_def set_first_def)

lemma SetAttributeNS_shape:
  assumes s: "shape h L at" and p: "permitted (SetAttributeOf e l v pre uri a t) h" and l: "CHR '':'' \<notin> set l"
  shows "\<exists>h' L' at'. SetAttributeNS h e l v pre uri a t = Some (None, h') \<and> shape h' L' at'
    \<and> (\<forall>x. data (h' x) = data (new_attribute_text a t l pre uri v (doc (h e)) h x)) \<and> L' (Kids a) = [t]
    \<and> L' (Attrs e) = put_attr (same_attr (new_attribute_text a t l pre uri v (doc (h e)) h) a) a (L (Attrs e))"
proof -
  let ?h = "new_attribute_text a t l pre uri v (doc (h e)) h"
  have f: "etype (h e) = ElementNode" "fresh h a" "fresh h t" "distinct [e, a, t]"
    using p by auto
  obtain L1 at1 where s1: "shape ?h L1 at1" "single ?h a"
    "\<forall>ow. owner_node ow \<noteq> None \<longrightarrow> L1 ow = (if ow = Kids a then [t] else L ow)"
    using new_attribute_text_shape[OF s f(2-4)] by blast
  note none = fresh_no_child[OF s f(2)] fresh_no_child[OF s f(3)]
  have "(a, e) \<notin> (up ?h)\<^sup>*"
    using reach_two[OF s1(1), of a t e] s1(3) none f(4) by auto
  then obtain h' L' at' where r: "addProperty ?h e a = Some h'" "shape h' L' at'" "\<forall>x. data (h' x) = data (?h x)"
    "\<forall>ow. owner_node ow \<noteq> None \<longrightarrow> L' ow = (if ow = Attrs e then put_attr (same_attr ?h a) a (L1 ow) else L1 ow)"
    using addProperty_shape[OF s1(1,2), of e] new_attribute_text_data(1)[OF f(4)] f(1,4) by auto
  show ?thesis
    using r s1(3) l by (intro exI[of _ h'] exI[of _ L'] exI[of _ at']) (simp add: SetAttributeNS_def)
qed

lemma SetBooleanAttribute_sound:
  assumes s: "shape h L at" and p: "permitted (SetBooleanOf e l a) h"
  shows "sound h (SetBooleanAttribute h e l a)"
proof (cases "CHR '':'' \<in> set l")
  case False
  let ?h = "new_attribute a l [] [] (doc (h e)) h"
  have f: "etype (h e) = ElementNode" "fresh h a" "a \<noteq> e"
    using p by auto
  have s1: "shape ?h L at"
    by (rule new_attribute_shape[OF s f(2)])
  have "(a, e) \<notin> (up ?h)\<^sup>*"
    using no_child_reach[OF s1, of a e] fresh_no_child[OF s f(2)] f(3) by auto
  moreover have "single ?h a"
    using fresh_new(2)[of a l "[]" "[]" "doc (h e)" h a] f(2) unfolding fresh_def by blast
  ultimately obtain h' L' at' where "addProperty ?h e a = Some h'" "shape h' L' at'"
    using addProperty_shape[OF s1, of a e] f by (auto simp: new_attribute_def)
  then show ?thesis
    using False sound_ok[of h' L' at' h] by (simp add: SetBooleanAttribute_def)
qed (use s in \<open>auto simp: SetBooleanAttribute_def\<close>)

lemma RemoveAttribute_shape:
  assumes s: "shape h L at"
  shows "\<exists>h' L' at'. RemoveAttribute h e m = Some (find m (L (Attrs e)) \<noteq> None, h') \<and> shape h' L' at'
    \<and> (\<forall>ow. owner_node ow \<noteq> None \<longrightarrow> L' ow = (case find m (L (Attrs e)) of None \<Rightarrow> L ow | Some p \<Rightarrow> removeAll p (L ow)))
    \<and> (\<forall>x. data (h' x) = data (h x))"
proof (cases "find m (L (Attrs e))")
  case None
  then show ?thesis
    using s by (auto simp: RemoveAttribute_def FindAttribute_correct[OF s])
next
  case (Some p)
  then have "at p = Attrs e"
    using shape_at[OF s, of p "Attrs e"] by (auto simp: find_Some_iff)
  moreover obtain h' L' at' where "unlinkNode h p = Some h'" "shape h' L' at'" "single h' p" "without {p} L at L' at'"
    "\<And>x. data (h' x) = data (h x)" "up h' \<subseteq> up h"
    by (rule unlinkNode_shape[OF s, of p], rule that)
  ultimately show ?thesis
    using Some by (intro exI[of _ h'] exI[of _ L'] exI[of _ at'])
      (simp add: RemoveAttribute_def FindAttribute_correct[OF s] unlinkNode_def attr_owner_node[OF s] without_def)
qed

lemma run_edit_sound:
  assumes s: "shape h L at" and p: "permitted e h"
  shows "sound h (run_edit e h)"
proof (cases e)
  case (SetAttributeOf n l v pre uri a t)
  show ?thesis
  proof (cases "CHR '':'' \<in> set l")
    case False
    then obtain h' L' at' where "SetAttributeNS h n l v pre uri a t = Some (None, h')" "shape h' L' at'"
      using SetAttributeNS_shape[OF s, of n l v pre uri a t] p SetAttributeOf by blast
    then show ?thesis
      using SetAttributeOf sound_ok[of h' L' at' h] by simp
  qed (use s SetAttributeOf in \<open>auto simp: SetAttributeNS_def\<close>)
next
  case (RemoveAttributeOf n q)
  obtain h' L' at' b where "RemoveAttribute h n (QNamePredicate h q) = Some (b, h')" "shape h' L' at'"
    using RemoveAttribute_shape[OF s, of n "QNamePredicate h q"] by blast
  then show ?thesis
    using RemoveAttributeOf sound_ok[of h' L' at' h] by simp
qed (use s p AddChild_sound AddSibling_sound Replace_sound Unlink_sound AppendText_sound SetBooleanAttribute_sound in \<open>auto simp del: permitted.simps(3)\<close>)

end
