(* ===== verification/DomEdits.thy ===== *)
theory DomEdits
  imports DomSpec
begin

text \<open>
  Heaps reached by allocations and edits, and what is true of all of them: the links are consistent, every
  edit returns, a rejected edit changes nothing, and each operation moves nodes as documented.
\<close>

subsection \<open>Reachable heaps\<close>

inductive dom_reachable :: "heap \<Rightarrow> bool" where
  start: "\<forall>x. fresh h x \<Longrightarrow> dom_reachable h"
| allocate: "dom_reachable h \<Longrightarrow> fresh h x \<Longrightarrow> same_pointers v (h x) \<Longrightarrow> dom_reachable (h(x := v))"
| edit: "dom_reachable h \<Longrightarrow> permitted e h \<Longrightarrow> run_edit e h = Some (r, h') \<Longrightarrow> dom_reachable h'"

lemma start_shape:
  assumes "\<forall>x. fresh h x"
  shows "shape h (\<lambda>ow. case ow of Loose k \<Rightarrow> [k] | _ \<Rightarrow> []) Loose"
proof -
  have "up h = {}"
    using assms by (auto simp: up_def fresh_def single_def)
  then show ?thesis
    using assms by (auto simp: shape_def lists_ok_def heads_ok_def kinds_ok_def fresh_def single_def split: owner.splits)
qed

lemma reachable_shape: "dom_reachable h \<Longrightarrow> \<exists>L at. shape h L at"
proof (induction rule: dom_reachable.induct)
  case (edit h e r h')
  then obtain L at where "shape h L at"
    by blast
  from run_edit_sound[OF this edit.hyps(2)] show ?case
    using edit.hyps(3) unfolding sound_def by auto
qed (blast intro: start_shape shape_data_change)+

lemma Attributes_correct:
  assumes s: "shape h L at"
  shows "Attributes h e = Some (L (Attrs e))"
proof -
  have "attributes_loop h (hd_opt ys) = Some ys" if "L (Attrs e) = xs @ ys" for xs ys
    using that
  proof (induction ys arbitrary: xs)
    case (Cons y ys)
    then show ?case
      using next_attribute[OF s Cons.prems] Cons.IH[of "xs @ [y]"] by (simp add: attributes_loop.simps[of h "Some y"])
  qed (simp add: attributes_loop.simps)
  from this[of "[]" "L (Attrs e)"] show ?thesis
    using shape_heads(3)[OF s] by (simp add: Attributes_def)
qed

lemmas shape_observed = Children_correct Attributes_correct

definition consistent :: "heap \<Rightarrow> bool" where
  "consistent h \<longleftrightarrow> (\<forall>x y. nextSib (h x) = Some y \<longleftrightarrow> prevSib (h y) = Some x)
     \<and> (\<forall>x y. nextSib (h x) = Some y \<longrightarrow> parent (h y) = parent (h x))
     \<and> (\<forall>p. \<exists>cs. Children h p = Some cs \<and> distinct cs \<and> firstChild (h p) = hd_opt cs \<and> lastChild (h p) = last_opt cs
         \<and> (\<forall>x. x \<in> set cs \<longrightarrow> parent (h x) = Some p))
     \<and> (\<forall>p. \<exists>as. Attributes h p = Some as \<and> distinct as \<and> properties (h p) = hd_opt as
         \<and> (\<forall>x. x \<in> set as \<longrightarrow> parent (h x) = Some p \<and> etype (h x) = AttributeNode))
     \<and> (\<forall>x p. parent (h x) = Some p \<longrightarrow> (x \<in> set (the (Children h p)) \<longleftrightarrow> x \<notin> set (the (Attributes h p))))
     \<and> (\<forall>x. (x, x) \<notin> (up h)\<^sup>+)"

lemma shape_next_prev:
  assumes s: "shape h L at"
  shows "nextSib (h x) = Some y \<longleftrightarrow> prevSib (h y) = Some x" "nextSib (h x) = Some y \<Longrightarrow> at y = at x"
proof -
  obtain xs ys where l: "L (at x) = xs @ x # ys"
    by (rule shape_split[OF s])
  have fwd: "prevSib (h y) = Some x \<and> at y = at x" if "nextSib (h x) = Some y"
  proof -
    have "ys = y # tl ys"
      using that shape_links(4)[OF s l] by (cases ys) auto
    then have "L (at x) = (xs @ [x]) @ y # tl ys"
      using l by simp
    from shape_links(1,3)[OF s this] show ?thesis
      by simp
  qed
  obtain us vs where m: "L (at y) = us @ y # vs"
    by (rule shape_split[OF s])
  have bwd: "nextSib (h x) = Some y" if "prevSib (h y) = Some x"
  proof -
    have "us = butlast us @ [x]"
      using that shape_links(3)[OF s m] by (cases us rule: rev_cases) auto
    then have "L (at y) = butlast us @ x # y # vs"
      using m by simp
    from shape_links(4)[OF s this] show ?thesis
      by simp
  qed
  show "nextSib (h x) = Some y \<longleftrightarrow> prevSib (h y) = Some x" "nextSib (h x) = Some y \<Longrightarrow> at y = at x"
    using fwd bwd by blast+
qed

lemma shape_consistent:
  assumes s: "shape h L at"
  shows "consistent h"
proof -
  have kids: "x \<in> set (L (Kids p)) \<Longrightarrow> parent (h x) = Some p" "x \<in> set (L (Attrs p)) \<Longrightarrow> parent (h x) = Some p" for x p
    using shape_parent[OF s, of x] shape_at[OF s, of x] by auto
  have "x \<in> set (L (Kids p)) \<longleftrightarrow> x \<notin> set (L (Attrs p))" if "parent (h x) = Some p" for x p
    using shape_owner_lists[OF s that] shape_at[OF s, of x] by auto
  moreover have "(x, x) \<notin> (up h)\<^sup>+" for x
    using s wf_acyclic by (auto simp: shape_def acyclic_def)
  moreover have "parent (h y) = parent (h x)" if "nextSib (h x) = Some y" for x y
    using shape_next_prev(2)[OF s that] shape_parent[OF s] by simp
  moreover have "\<exists>cs. Children h p = Some cs \<and> distinct cs \<and> firstChild (h p) = hd_opt cs \<and> lastChild (h p) = last_opt cs
      \<and> (\<forall>x. x \<in> set cs \<longrightarrow> parent (h x) = Some p)" for p
    using kids(1) shape_distinct[OF s] shape_heads(1,2)[OF s] by (simp add: shape_observed[OF s])
  moreover have "\<exists>as. Attributes h p = Some as \<and> distinct as \<and> properties (h p) = hd_opt as
      \<and> (\<forall>x. x \<in> set as \<longrightarrow> parent (h x) = Some p \<and> etype (h x) = AttributeNode)" for p
    using kids(2) shape_distinct[OF s] shape_heads(3)[OF s] shape_kinds(1)[OF s] by (simp add: shape_observed[OF s])
  moreover note shape_next_prev(1)[OF s]
  ultimately show ?thesis
    unfolding consistent_def shape_observed[OF s] option.sel by blast
qed

text \<open>C2: On every heap reached by allocations and edits the links of the tree are consistent: next and
  previous sibling are inverse, siblings share their parent, the child list runs from the first to the last
  child without repetition, attributes and children of a node are disjoint and complete, and no node is its
  own ancestor.\<close>
theorem links_consistent:
  assumes "dom_reachable h"
  shows "consistent h"
  using reachable_shape[OF assms] shape_consistent by blast

definition blank :: heap where
  "blank = (\<lambda>x. \<lparr>etype = ElementNode, lname = [], nsPrefix = [], nsURI = [], content = [], fromCharRef = False, slabEscaped = False,
     doc = None, firstChild = None, lastChild = None, parent = None, nextSib = None, prevSib = None, properties = None\<rparr>)"

lemma blank_reachable: "dom_reachable blank"
  by (rule start) (simp add: blank_def fresh_def single_def)

lemma edited_reachable: "dom_reachable h \<Longrightarrow> permitted e h \<Longrightarrow> \<exists>r h'. run_edit e h = Some (r, h') \<and> dom_reachable h'"
proof -
  assume h: "dom_reachable h" "permitted e h"
  obtain L at where "shape h L at"
    using reachable_shape[OF h(1)] by blast
  from run_edit_sound[OF this h(2)] obtain r h' where "run_edit e h = Some (r, h')"
    unfolding sound_def by blast
  then show ?thesis
    using dom_reachable.edit[OF h] by blast
qed

lemma links_consistent_witness: "\<exists>r h'. AddChild blank 0 (Some 1) = Some (r, h') \<and> consistent h'"
  using edited_reachable[OF blank_reachable, of "AddChildTo 0 (Some 1)"] links_consistent by auto

text \<open>C5: On every reachable heap every permitted edit returns, and a rejected one leaves all links, types, names
  and contents as they were.\<close>
theorem edits_return:
  assumes "dom_reachable h" "permitted e h"
  shows "\<exists>r h'. run_edit e h = Some (r, h') \<and> (r = None \<or> unchanged h h')"
proof -
  obtain L at where "shape h L at"
    using reachable_shape[OF assms(1)] by blast
  from run_edit_sound[OF this assms(2)] show ?thesis
    unfolding sound_def by auto
qed

lemma edits_return_witness: "\<exists>r h'. run_edit (ReplaceBy 0 [Some 1, Some 2]) blank = Some (r, h') \<and> (r = None \<or> unchanged blank h')"
  by (rule edits_return) (simp_all add: blank_reachable)

subsection \<open>The effect of the operations\<close>

lemma AddChild_outcome:
  assumes "dom_reachable h" "container (etype (h n))" "etype (h c) \<noteq> AttributeNode"
  shows "\<exists>h'. AddChild h n (Some c) = Some (if (c, n) \<in> (up h)\<^sup>* then Some ErrCyclicNode else None, h')"
proof -
  obtain L at where s: "shape h L at"
    using reachable_shape[OF assms(1)] by blast
  show ?thesis
  proof (cases "(c, n) \<in> (up h)\<^sup>*")
    case True
    then show ?thesis
      using preflight_shape(1)[OF s, of "addChildPreflight h n c" n c] assms(3)
      by (auto simp: AddChild_container[where h=h and n=n, OF assms(2)] addChild_def no_error_def)
  qed (use addChild_shape[OF s assms(3)] in \<open>auto simp: AddChild_container[where h=h and n=n, OF assms(2)]\<close>)
qed

text \<open>C19: A node that takes children rejects an operand as cyclic exactly when the operand is the node itself
  or one of its ancestors, and accepts every other operand that is no attribute.\<close>
theorem AddChild_cycle:
  assumes "dom_reachable h" "container (etype (h n))" "etype (h c) \<noteq> AttributeNode"
  shows "\<exists>h'. AddChild h n (Some c) = Some (if (c, n) \<in> (up h)\<^sup>* then Some ErrCyclicNode else None, h')"
  by (rule AddChild_outcome[OF assms])

lemma AddChild_cycle_witness: "\<exists>h'. AddChild blank 0 (Some 0) = Some (Some ErrCyclicNode, h')"
  using AddChild_cycle[OF blank_reachable, of 0 0] by (simp add: container_def blank_def)

text \<open>C9: When \<open>AddChild\<close> of a container accepts a node that does not merge with a trailing text, the node leaves
  the child list it was in, becomes the last child of the container, and no other child list changes.\<close>
theorem AddChild_children:
  assumes "dom_reachable h" "container (etype (h n))" "etype (h c) \<noteq> AttributeNode"
    and "AddChild h n (Some c) = Some (None, h')" "Children h n = Some cs" "Children h q = Some ds"
    and "etype (h c) = TextNode \<Longrightarrow> removeAll c cs \<noteq> [] \<Longrightarrow> etype (h (last (removeAll c cs))) \<noteq> TextNode"
  shows "Children h' q = Some (if q = n then removeAll c cs @ [c] else removeAll c ds)"
proof -
  obtain L at where s: "shape h L at"
    using reachable_shape[OF assms(1)] by blast
  have "(c, n) \<notin> (up h)\<^sup>*"
    using AddChild_outcome[OF assms(1-3)] assms(4) by auto
  then obtain L' at' where "shape h' L' at'" "child_added n c h L h' L'"
    using addChild_shape[OF s assms(3), of n] assms(4) by (auto simp: AddChild_container[where h=h and n=n, OF assms(2)])
  then show ?thesis
    using assms(5-7) by (auto simp: shape_observed[OF s] shape_observed child_added_def Let_def split: if_splits)
qed

lemma AddChild_children_witness: "\<exists>h'. AddChild blank 0 (Some 1) = Some (None, h') \<and> Children h' 0 = Some [1]"
proof -
  have "\<forall>x. fresh blank x"
    by (simp add: blank_def fresh_def single_def)
  from start_shape[OF this] have k: "Children blank q = Some []" for q
    using Children_correct by fastforce
  have b: "container (etype (blank 0))" "etype (blank 1) = ElementNode"
    by (simp_all add: blank_def container_def)
  have "up blank = {}"
    by (simp add: up_def blank_def)
  then have "(1, 0) \<notin> (up blank)\<^sup>*"
    by simp
  then obtain h' where h': "AddChild blank 0 (Some 1) = Some (None, h')"
    using AddChild_outcome[OF blank_reachable b(1), of 1] b(2) by auto
  then show ?thesis
    using AddChild_children[OF blank_reachable b(1) _ h' k k, of 0] b(2) by simp
qed

text \<open>C10: When \<open>Replace\<close> accepts its operands, every child list and every attribute list has the operands in the
  place of the node and nowhere else, in their order.\<close>
theorem Replace_places:
  assumes "dom_reachable h" "Replace h n (map Some nodes) = Some (None, h')" "Children h q = Some cs" "Attributes h q = Some as"
  shows "Children h' q = Some (put_nodes n nodes cs) \<and> Attributes h' q = Some (put_nodes n nodes as)"
proof -
  obtain L at where s: "shape h L at"
    using reachable_shape[OF assms(1)] by blast
  have r: "replaceNode h n (map Some nodes) = Some (None, h')"
    using assms(2) by (auto simp: Replace_def split: if_splits)
  then have nodes: "nodes \<noteq> []" "distinct nodes"
    and attr: "attrs_node (at n) \<noteq> None \<Longrightarrow> \<forall>c\<in>set nodes - {n}. etype (h c) = AttributeNode"
    by (auto simp: replaceNode_def attr_owner_node[OF s] comp_def Let_def split: if_splits)
  note e = replaceNode_shape[OF s nodes attr]
  have "\<forall>c\<in>set nodes - {n}. (c, n) \<notin> (up h)\<^sup>*"
    using e(1) r by auto
  then obtain L' at' where "shape h' L' at'" "\<forall>ow. owner_node ow \<noteq> None \<longrightarrow> L' ow = put_nodes n nodes (L ow)"
    using e(2) r by auto
  then show ?thesis
    using assms(3,4) by (auto simp: shape_observed[OF s] shape_observed)
qed

lemma blank_shape: "\<exists>L at. shape blank L at"
  by (rule reachable_shape[OF blank_reachable])

lemma blank_lists: "Children blank q = Some []" "Attributes blank q = Some []"
proof -
  have f: "\<forall>x. fresh blank x"
    by (simp add: blank_def fresh_def single_def)
  show "Children blank q = Some []" "Attributes blank q = Some []"
    using shape_observed[OF start_shape[OF f]] by simp_all
qed

text \<open>The blank heap after node 1 became a child of node 0.\<close>

lemma one_child:
  obtains h L at where "dom_reachable h" "shape h L at" "\<And>ow. owner_node ow \<noteq> None \<Longrightarrow> L ow = (if ow = Kids 0 then [1] else [])"
    "\<And>x. data (h x) = data (blank x)"
proof -
  let ?L = "\<lambda>ow. case ow of Loose k \<Rightarrow> [k] | _ \<Rightarrow> []"
  have s: "shape blank ?L Loose"
    by (rule start_shape) (simp add: blank_def fresh_def single_def)
  have b: "etype (blank x) = ElementNode" for x
    by (simp add: blank_def)
  have "up blank = {}"
    by (simp add: up_def blank_def)
  then obtain h L at where h: "addChild blank 0 (Some 1) = Some (None, h)" "shape h L at" "child_added 0 1 blank ?L h L"
    using addChild_shape[OF s, of 1 0] b by auto
  have "AddChild blank 0 (Some 1) = Some (None, h)"
    using h(1) b by (simp add: AddChild_container container_def)
  then have "dom_reachable h"
    using dom_reachable.edit[OF blank_reachable, of "AddChildTo 0 (Some 1)"] by simp
  moreover have "L ow = (if ow = Kids 0 then [1] else [])" if "owner_node ow \<noteq> None" for ow
    using h(3) b that by (cases ow) (auto simp: child_added_def Let_def)
  moreover have "data (h x) = data (blank x)" for x
    using h(3) b by (simp add: child_added_def Let_def)
  ultimately show thesis
    using that h(2) by blast
qed

lemma Replace_places_witness: "\<exists>h h'. Replace h 1 [Some 2] = Some (None, h') \<and> Children h' 0 = Some [2] \<and> Attributes h' 0 = Some []"
proof -
  obtain h L at where h: "dom_reachable h" "shape h L at" "\<And>ow. owner_node ow \<noteq> None \<Longrightarrow> L ow = (if ow = Kids 0 then [1] else [])"
    "\<And>x. data (h x) = data (blank x)"
    by (rule one_child, rule that)
  have e: "etype (h x) = ElementNode" for x
    using h(4)[of x] by (simp add: data_def blank_def)
  have "attrs_node (at 1) = None"
    using attrs_kind[OF h(2)] e by simp
  moreover have "(2, 1) \<notin> (up h)\<^sup>*"
    using no_child_reach[OF h(2), of 2 1] h(3) by auto
  ultimately obtain h' where "replaceNode h 1 (map Some [2]) = Some (None, h')"
    using replaceNode_shape(2)[OF h(2), of "[2]" 1] by auto
  then have r: "Replace h 1 (map Some [2]) = Some (None, h')"
    by (simp add: Replace_def isDocument_def e)
  have lists: "Children h 0 = Some [1]" "Attributes h 0 = Some []"
    using h(3) by (simp_all add: shape_observed[OF h(2)])
  have "Children h' 0 = Some [2] \<and> Attributes h' 0 = Some []"
    using Replace_places[OF h(1) r lists] by (simp add: put_nodes_def)
  then show ?thesis
    using r by auto
qed

text \<open>C21: \<open>UnlinkNode\<close> returns for every node, takes it out of the child list or the attribute list it is in and
  changes no other list and no data; the node keeps no link to its former parent or siblings.\<close>
theorem UnlinkNode_removes:
  assumes "dom_reachable h" "Children h q = Some cs" "Attributes h q = Some as"
  shows "\<exists>h'. UnlinkNode h (Some n) = Some h' \<and> Children h' q = Some (removeAll n cs) \<and> Attributes h' q = Some (removeAll n as)
    \<and> single h' n \<and> (\<forall>x. data (h' x) = data (h x))"
proof -
  obtain L at where s: "shape h L at"
    using reachable_shape[OF assms(1)] by blast
  obtain h' L' at' where "unlinkNode h n = Some h'" "shape h' L' at'" "single h' n" "without {n} L at L' at'"
    "\<And>x. data (h' x) = data (h x)" "up h' \<subseteq> up h"
    by (rule unlinkNode_shape[OF s, of n], rule that)
  then show ?thesis
    using assms(2,3) by (intro exI[of _ h']) (simp add: UnlinkNode_def shape_observed[OF s] shape_observed without_def)
qed

lemma UnlinkNode_removes_witness: "\<exists>h'. UnlinkNode blank (Some 1) = Some h' \<and> Children h' 0 = Some [] \<and> Attributes h' 0 = Some []"
  using UnlinkNode_removes[OF blank_reachable blank_lists, of 1 0] by auto

end
