(* ===== verification/DomWalk.thy ===== *)
theory DomWalk
  imports DomEdits
begin

text \<open>
  Traversals of the tree: the content of a node, \<open>Walk\<close> and \<open>Descendants\<close>.
\<close>

subsection \<open>Content\<close>

text \<open>\<open>aggregateOwnedContent\<close>: \<open>path\<close> are the containers being aggregated, \<open>seen\<close> the children of \<open>n\<close> met so far.\<close>

partial_function (option) aggregate :: "heap \<Rightarrow> addr \<Rightarrow> addr list \<Rightarrow> addr list \<Rightarrow> addr option \<Rightarrow> string option" where
  "aggregate h n path seen child =
     (if child = None \<or> the child \<in> set seen then Some []
      else if the child \<in> set path then aggregate h n path (the child # seen) (nextOwnedChild h n (the child))
      else do { s \<leftarrow> (if self_contained (etype (h (the child))) then Some (content (h (the child)))
                  else aggregate h (the child) (the child # path) [] (firstChild (h (the child))));
                r \<leftarrow> aggregate h n path (the child # seen) (nextOwnedChild h n (the child));
                Some (s @ r) })"

definition Content :: "heap \<Rightarrow> addr \<Rightarrow> string option" where
  "Content h n = (if self_contained (etype (h n)) then Some (content (h n)) else aggregate h n [n] [] (firstChild (h n)))"

definition GetAttribute :: "heap \<Rightarrow> addr \<Rightarrow> string \<Rightarrow> string option option" where
  "GetAttribute h e q =
     do { r \<leftarrow> FindAttribute h e (QNamePredicate h q);
          case r of None \<Rightarrow> Some None | Some a \<Rightarrow> do { v \<leftarrow> Content h a; Some (Some v) } }"

definition GetAttributeNS :: "heap \<Rightarrow> addr \<Rightarrow> string \<Rightarrow> string \<Rightarrow> string option option" where
  "GetAttributeNS h e l uri =
     do { r \<leftarrow> FindAttribute h e (NSPredicate h l uri);
          case r of None \<Rightarrow> Some None | Some a \<Rightarrow> do { v \<leftarrow> Content h a; Some (Some v) } }"

definition HasAttribute :: "heap \<Rightarrow> addr \<Rightarrow> string \<Rightarrow> bool option" where
  "HasAttribute h e q = do { r \<leftarrow> FindAttribute h e (QNamePredicate h q); Some (r \<noteq> None) }"

definition GetAttributeNodeNS :: "heap \<Rightarrow> addr \<Rightarrow> string \<Rightarrow> string \<Rightarrow> addr option option" where
  "GetAttributeNodeNS h e l uri = FindAttribute h e (NSPredicate h l uri)"

subsection \<open>Walk\<close>

text \<open>A frame of the stack of \<open>Walk\<close>; the top is the head of the list.  \<open>visit\<close> tells for which nodes the visitor
  returns an error.  The result is the nodes visited and the way the walk ended.\<close>

record frame =
  fnode :: addr
  entered :: bool
  activeChild :: "addr option"
  seenChildren :: "addr list"

datatype walk_end = Completed | VisitError | ErrWalkCycle

abbreviation new_frame :: "addr \<Rightarrow> frame" where
  "new_frame n \<equiv> \<lparr>fnode = n, entered = False, activeChild = None, seenChildren = []\<rparr>"

definition advance :: "heap \<Rightarrow> frame \<Rightarrow> frame" where
  "advance h f = f\<lparr>activeChild := nextOwnedChild h (fnode f) (the (activeChild f))\<rparr>"

definition pop_frame :: "heap \<Rightarrow> frame list \<Rightarrow> frame list" where
  "pop_frame h stack = (case stack of [] \<Rightarrow> [] | f # fs \<Rightarrow> advance h f # fs)"

partial_function (option) walk_loop ::
  "heap \<Rightarrow> (addr \<Rightarrow> bool) \<Rightarrow> addr list \<Rightarrow> addr list \<Rightarrow> frame list \<Rightarrow> (addr list \<times> walk_end) option" where
  "walk_loop h visit visited path stack =
     (case stack of [] \<Rightarrow> Some (visited, Completed)
      | frm # rest \<Rightarrow>
        if \<not> entered frm then
          (if visit (fnode frm) then Some (visited @ [fnode frm], VisitError)
           else walk_loop h visit (visited @ [fnode frm]) (fnode frm # path)
             (frm\<lparr>entered := True, activeChild := firstChild (h (fnode frm))\<rparr> # rest))
        else if activeChild frm = None then
          walk_loop h visit visited (removeAll (fnode frm) path) (pop_frame h rest)
        else if the (activeChild frm) \<in> set path \<or> the (activeChild frm) \<in> set (seenChildren frm) then Some (visited, ErrWalkCycle)
        else walk_loop h visit visited path
          (new_frame (the (activeChild frm)) # frm\<lparr>seenChildren := the (activeChild frm) # seenChildren frm\<rparr> # rest))"

definition Walk :: "heap \<Rightarrow> addr \<Rightarrow> (addr \<Rightarrow> bool) \<Rightarrow> (addr list \<times> walk_end) option" where
  "Walk h n visit = walk_loop h visit [] [] [new_frame n]"

text \<open>\<open>Descendants\<close> with a consumer that takes every node.\<close>

partial_function (option) descend :: "heap \<Rightarrow> addr \<Rightarrow> addr list \<Rightarrow> addr list \<Rightarrow> addr option \<Rightarrow> addr list option" where
  "descend h n path seen child =
     (if child = None \<or> the child \<in> set seen then Some []
      else do { s \<leftarrow> (if the child \<in> set path then Some []
                   else descend h (the child) (the child # path) [] (firstChild (h (the child))));
                r \<leftarrow> descend h n path (the child # seen) (nextOwnedChild h n (the child));
                Some (the child # s @ r) })"

definition Descendants :: "heap \<Rightarrow> addr \<Rightarrow> addr list option" where
  "Descendants h n = descend h n [n] [] (firstChild (h n))"

definition ChildElements :: "heap \<Rightarrow> addr \<Rightarrow> addr list option" where
  "ChildElements h n = do { cs \<leftarrow> Children h n; Some (filter (\<lambda>c. etype (h c) = ElementNode) cs) }"

subsection \<open>Content of a well-shaped tree\<close>

lemma shape_down: "shape h L at \<Longrightarrow> wf ((up h)\<inverse>)"
  using wf_acyclic by (auto simp: shape_def intro: finite_acyclic_wf_converse)

lemma kid_up: "shape h L at \<Longrightarrow> c \<in> set (L (Kids n)) \<Longrightarrow> (n, c) \<in> up h"
  using shape_at[of h L at c "Kids n"] shape_parent[of h L at c] by (simp add: up_def)

lemma no_back_edge:
  assumes "shape h L at" "(n, c) \<in> up h"
  shows "(c, n) \<notin> (up h)\<^sup>*"
proof
  assume "(c, n) \<in> (up h)\<^sup>*"
  then have "(c, c) \<in> (up h)\<^sup>+"
    using assms(2) by (rule rtrancl_into_trancl1)
  then show False
    using assms(1) wf_acyclic by (auto simp: shape_def acyclic_def)
qed

text \<open>\<open>path_ok\<close>: the nodes on the path are the node or its ancestors.\<close>

definition path_ok :: "heap \<Rightarrow> addr list \<Rightarrow> addr \<Rightarrow> bool" where
  "path_ok h path n \<longleftrightarrow> (\<forall>p\<in>set path. (p, n) \<in> (up h)\<^sup>*)"

lemma path_ok_child:
  assumes "shape h L at" "path_ok h path n" "c \<in> set (L (Kids n))"
  shows "path_ok h (c # path) c" "c \<notin> set path"
proof -
  note up = kid_up[OF assms(1,3)]
  show "path_ok h (c # path) c"
    using assms(2) up by (auto simp: path_ok_def intro: rtrancl_into_rtrancl)
  show "c \<notin> set path"
    using assms(2) no_back_edge[OF assms(1) up] by (auto simp: path_ok_def)
qed

lemma next_owned:
  assumes "shape h L at" "L (Kids n) = xs @ y # ys"
  shows "nextOwnedChild h n y = hd_opt ys" "y \<notin> set (rev xs)" "y \<in> set (L (Kids n))"
  using shape_suffix[OF assms] assms(2) by (auto simp: nextOwnedChild_def)

lemma aggregate_list:
  assumes s: "shape h L at" and p: "path_ok h path n"
    and kids: "\<And>c path. c \<in> set (L (Kids n)) \<Longrightarrow> path_ok h path c \<Longrightarrow>
      (if self_contained (etype (h c)) then Some (content (h c)) else aggregate h c path [] (firstChild (h c))) = Some (f c)"
  shows "aggregate h n path [] (firstChild (h n)) = Some (concat (map f (L (Kids n))))"
proof -
  have "aggregate h n path (rev xs) (hd_opt ys) = Some (concat (map f ys))" if "L (Kids n) = xs @ ys" for xs ys
    using that
  proof (induction ys arbitrary: xs)
    case (Cons y ys)
    note l = next_owned[OF s Cons.prems]
    note c = path_ok_child[OF s p l(3)]
    show ?case
      using Cons.IH[of "xs @ [y]"] Cons.prems l c(2) kids[OF l(3) c(1)] by (simp add: aggregate.simps[of h n path "rev xs"] split: if_splits)
  qed (simp add: aggregate.simps)
  from this[of "[]" "L (Kids n)"] show ?thesis
    using shape_heads(1)[OF s, of n] by simp
qed

lemma Content_any_path:
  assumes s: "shape h L at"
  shows "\<exists>v. \<forall>path. path_ok h path n \<longrightarrow>
    (if self_contained (etype (h n)) then Some (content (h n)) else aggregate h n path [] (firstChild (h n))) = Some v"
proof (induction n rule: wf_induct_rule[OF shape_down[OF s]])
  case (1 n)
  have "\<forall>c. \<exists>v. c \<in> set (L (Kids n)) \<longrightarrow> (\<forall>path. path_ok h path c \<longrightarrow>
    (if self_contained (etype (h c)) then Some (content (h c)) else aggregate h c path [] (firstChild (h c))) = Some v)"
    using 1 kid_up[OF s, of _ n] by (meson converseI)
  then obtain f where f: "\<forall>c. c \<in> set (L (Kids n)) \<longrightarrow> (\<forall>path. path_ok h path c \<longrightarrow>
    (if self_contained (etype (h c)) then Some (content (h c)) else aggregate h c path [] (firstChild (h c))) = Some (f c))"
    by metis
  show ?case
  proof (cases "self_contained (etype (h n))")
    case False
    have "aggregate h n path [] (firstChild (h n)) = Some (concat (map f (L (Kids n))))" if "path_ok h path n" for path
      using aggregate_list[OF s that, of f] f by blast
    then show ?thesis
      using False by auto
  qed auto
qed

definition the_content :: "heap \<Rightarrow> addr \<Rightarrow> string" where
  "the_content h n = the (Content h n)"

lemma Content_path:
  assumes s: "shape h L at" and p: "path_ok h path n"
  shows "(if self_contained (etype (h n)) then Some (content (h n)) else aggregate h n path [] (firstChild (h n))) = Some (the_content h n)"
    "Content h n = Some (the_content h n)"
proof -
  obtain v where v: "\<forall>path. path_ok h path n \<longrightarrow>
    (if self_contained (etype (h n)) then Some (content (h n)) else aggregate h n path [] (firstChild (h n))) = Some v"
    using Content_any_path[OF s] by blast
  have "path_ok h [n] n"
    by (simp add: path_ok_def)
  then have "Content h n = Some v"
    using v by (simp add: Content_def)
  then show "Content h n = Some (the_content h n)"
    "(if self_contained (etype (h n)) then Some (content (h n)) else aggregate h n path [] (firstChild (h n))) = Some (the_content h n)"
    using v p by (auto simp: the_content_def)
qed

lemma path_self: "path_ok h [n] n"
  by (simp add: path_ok_def)

lemma the_content_eq:
  assumes s: "shape h L at"
  shows "the_content h n = (if self_contained (etype (h n)) then content (h n) else concat (map (the_content h) (L (Kids n))))"
  using Content_path(1)[OF s path_self, of n] aggregate_list[OF s path_self, of n "the_content h"] Content_path(1)[OF s]
  by (auto split: if_splits)

text \<open>The content depends on the nodes below only.\<close>

lemma the_content_cong:
  assumes s: "shape h L at" and s': "shape h' L' at'"
    and same: "\<And>d. (c, d) \<in> (up h)\<^sup>* \<Longrightarrow> L' (Kids d) = L (Kids d) \<and> etype (h' d) = etype (h d) \<and> content (h' d) = content (h d)"
  shows "the_content h' c = the_content h c"
  using same
proof (induction c rule: wf_induct_rule[OF shape_down[OF s]])
  case (1 c)
  have "the_content h' d = the_content h d" if "d \<in> set (L (Kids c))" for d
    using 1 kid_up[OF s that] converse_rtrancl_into_rtrancl[of c d "up h"] by blast
  then show ?case
    using 1(2)[of c] by (simp add: the_content_eq[OF s] the_content_eq[OF s'] cong: map_cong)
qed

end
