(* ===== verification/DomTraverse.thy ===== *)
theory DomTraverse
  imports DomWalk
begin

text \<open>
  What the traversals compute on reachable trees, and how edits change the content and the attributes.
\<close>

subsection \<open>Preorder\<close>

text \<open>The visited nodes up to the first one at which the visitor fails.\<close>

fun until :: "(addr \<Rightarrow> bool) \<Rightarrow> addr list \<Rightarrow> addr list" where
  "until v [] = []"
| "until v (x # xs) = (if v x then [x] else x # until v xs)"

lemma until_append: "until v (xs @ ys) = (if \<exists>x\<in>set xs. v x then until v xs else xs @ until v ys)"
  by (induction xs) auto

definition walk_on :: "heap \<Rightarrow> (addr \<Rightarrow> bool) \<Rightarrow> addr list \<Rightarrow> addr list \<Rightarrow> addr list \<Rightarrow> frame list \<Rightarrow> (addr list \<times> walk_end) option" where
  "walk_on h visit vs ps path stack =
     (if \<exists>x\<in>set ps. visit x then Some (vs @ until visit ps, VisitError) else walk_loop h visit (vs @ ps) path stack)"

definition walks :: "heap \<Rightarrow> addr \<Rightarrow> addr list \<Rightarrow> bool" where
  "walks h n ps \<longleftrightarrow> (\<forall>visit vs path rest. path_ok h (n # path) n \<longrightarrow> n \<notin> set path \<longrightarrow>
     walk_loop h visit vs path (new_frame n # rest) = walk_on h visit vs ps path (pop_frame h rest))"

lemma walk_children:
  assumes s: "shape h L at" and kids: "\<And>c. c \<in> set (L (Kids n)) \<Longrightarrow> walks h c (pre c)"
    and p: "path_ok h (n # path) n" "n \<notin> set path"
  shows "L (Kids n) = xs @ ys \<Longrightarrow>
    walk_loop h visit vs (n # path) (\<lparr>fnode = n, entered = True, activeChild = hd_opt ys, seenChildren = rev xs\<rparr> # rest)
      = walk_on h visit vs (concat (map pre ys)) path (pop_frame h rest)"
proof (induction ys arbitrary: xs vs)
  case Nil
  then show ?case
    using p(2) by (simp add: walk_loop.simps[of h visit vs "n # path"] walk_on_def removeAll_id)
next
  case (Cons y ys)
  note l = next_owned[OF s Cons.prems]
  note c = path_ok_child[OF s p(1) l(3)]
  let ?frame = "\<lambda>a. \<lparr>fnode = n, entered = True, activeChild = a, seenChildren = y # rev xs\<rparr>"
  have push: "walk_loop h visit vs (n # path) (\<lparr>fnode = n, entered = True, activeChild = Some y, seenChildren = rev xs\<rparr> # rest)
      = walk_loop h visit vs (n # path) (new_frame y # ?frame (Some y) # rest)"
    using c(2) l(2) by (subst walk_loop.simps) simp
  have sub: "walk_loop h visit vs (n # path) (new_frame y # ?frame (Some y) # rest)
      = walk_on h visit vs (pre y) (n # path) (?frame (hd_opt ys) # rest)"
    using kids[OF l(3)] c l(1) by (simp add: walks_def pop_frame_def advance_def)
  show ?case
    using Cons.IH[of "xs @ [y]"] Cons.prems by (auto simp: push sub walk_on_def until_append)
qed

lemma walks_node:
  assumes s: "shape h L at" and kids: "\<And>c. c \<in> set (L (Kids n)) \<Longrightarrow> walks h c (pre c)"
  shows "walks h n (n # concat (map pre (L (Kids n))))"
proof -
  have "walk_loop h visit vs path (new_frame n # rest) = walk_on h visit vs (n # concat (map pre (L (Kids n)))) path (pop_frame h rest)"
    if p: "path_ok h (n # path) n" "n \<notin> set path" for visit vs path rest
    using walk_children[OF s kids p, of "[]" "L (Kids n)" visit "vs @ [n]" rest] shape_heads(1)[OF s, of n]
    by (simp add: walk_loop.simps[of h visit vs path] walk_on_def)
  then show ?thesis
    by (simp add: walks_def)
qed

lemma walks_exists:
  assumes s: "shape h L at"
  shows "\<exists>ps. walks h n ps"
proof (induction n rule: wf_induct_rule[OF shape_down[OF s]])
  case (1 n)
  then have "\<forall>c. \<exists>ps. c \<in> set (L (Kids n)) \<longrightarrow> walks h c ps"
    using kid_up[OF s, of _ n] by (meson converseI)
  then obtain pre where "\<And>c. c \<in> set (L (Kids n)) \<Longrightarrow> walks h c (pre c)"
    by metis
  then show ?case
    using walks_node[OF s] by blast
qed

lemma Walk_walks:
  assumes "walks h n ps"
  shows "Walk h n visit = Some (if \<exists>x\<in>set ps. visit x then (until visit ps, VisitError) else (ps, Completed))"
  using assms unfolding walks_def
  by (auto simp: Walk_def path_ok_def walk_on_def pop_frame_def walk_loop.simps[of h visit _ _ "[]"])

definition visited :: "heap \<Rightarrow> addr \<Rightarrow> addr list" where
  "visited h n = fst (the (Walk h n (\<lambda>_. False)))"

lemma walks_visited: "walks h n ps \<Longrightarrow> visited h n = ps"
  by (simp add: visited_def Walk_walks)

lemma visited_eq:
  assumes s: "shape h L at"
  shows "walks h n (visited h n)" "visited h n = n # concat (map (visited h) (L (Kids n)))"
proof -
  have w: "walks h c (visited h c)" for c
    using walks_exists[OF s, of c] walks_visited by blast
  show "walks h n (visited h n)"
    by (rule w)
  show "visited h n = n # concat (map (visited h) (L (Kids n)))"
    by (rule walks_visited[OF walks_node[OF s w]])
qed

lemma descend_list:
  assumes s: "shape h L at" and p: "path_ok h path n"
    and kids: "\<And>c path. c \<in> set (L (Kids n)) \<Longrightarrow> path_ok h path c \<Longrightarrow> descend h c path [] (firstChild (h c)) = Some (tl (visited h c))"
  shows "descend h n path [] (firstChild (h n)) = Some (tl (visited h n))"
proof -
  have head: "c # tl (visited h c) = visited h c" for c
    using visited_eq(2)[OF s, of c] by simp
  have "descend h n path (rev xs) (hd_opt ys) = Some (concat (map (visited h) ys))" if "L (Kids n) = xs @ ys" for xs ys
    using that
  proof (induction ys arbitrary: xs)
    case (Cons y ys)
    note l = next_owned[OF s Cons.prems]
    note c = path_ok_child[OF s p l(3)]
    have "y # tl (visited h y) @ zs = visited h y @ zs" for zs
      using head[of y] by (metis append_Cons)
    then show ?case
      using Cons.IH[of "xs @ [y]"] Cons.prems l c(2) kids[OF l(3) c(1)] by (simp add: descend.simps[of h n path "rev xs"])
  qed (simp add: descend.simps)
  from this[of "[]" "L (Kids n)"] show ?thesis
    using shape_heads(1)[OF s, of n] visited_eq(2)[OF s, of n] by simp
qed

lemma Descendants_visited:
  assumes s: "shape h L at"
  shows "Descendants h n = Some (tl (visited h n))"
proof -
  have "\<forall>path. path_ok h path n \<longrightarrow> descend h n path [] (firstChild (h n)) = Some (tl (visited h n))"
  proof (induction n rule: wf_induct_rule[OF shape_down[OF s]])
    case (1 n)
    then show ?case
      using descend_list[OF s, of _ n] kid_up[OF s, of _ n] by blast
  qed
  then show ?thesis
    using path_self[of h n] by (simp add: Descendants_def)
qed

text \<open>C20: On a reachable heap \<open>Walk\<close> with a visitor that never fails completes: it visits the node and then, child
  by child, what the walk of each child visits; \<open>Descendants\<close> yields the same nodes in the same order
  without the first one.\<close>
theorem Walk_preorder:
  assumes "dom_reachable h" "Children h n = Some cs"
  shows "Walk h n (\<lambda>_. False) = Some (n # concat (map (\<lambda>c. fst (the (Walk h c (\<lambda>_. False)))) cs), Completed)
    \<and> Descendants h n = Some (tl (fst (the (Walk h n (\<lambda>_. False)))))"
proof -
  obtain L at where s: "shape h L at"
    using reachable_shape[OF assms(1)] by blast
  have "cs = L (Kids n)"
    using assms(2) Children_correct[OF s, of n] by simp
  then show ?thesis
    using Walk_walks[OF visited_eq(1)[OF s], of n "\<lambda>_. False"] visited_eq(2)[OF s, of n] Descendants_visited[OF s, of n]
    by (simp add: visited_def[abs_def])
qed

lemma Walk_preorder_witness: "Walk blank 0 (\<lambda>_. False) = Some ([0], Completed) \<and> Descendants blank 0 = Some []"
  using Walk_preorder[OF blank_reachable blank_lists(1), of 0] by simp

text \<open>A visitor that fails stops \<open>Walk\<close> at the first node of the complete walk at which it fails, and the walk
  reports no cycle on a reachable heap.\<close>
theorem Walk_stops:
  assumes "dom_reachable h" "Walk h n (\<lambda>_. False) = Some (ps, Completed)"
  shows "Walk h n visit = Some (if list_ex visit ps then (until visit ps, VisitError) else (ps, Completed))"
proof -
  obtain L at where s: "shape h L at"
    using reachable_shape[OF assms(1)] by blast
  have "visited h n = ps"
    using assms(2) by (simp add: visited_def)
  then show ?thesis
    using Walk_walks[OF visited_eq(1)[OF s], of n visit] by (simp add: list_ex_iff)
qed

lemma Walk_blank: "Walk blank 0 (\<lambda>_. False) = Some ([0], Completed)"
proof -
  obtain L at where s: "shape blank L at"
    using blank_shape by blast
  have "L (Kids 0) = []"
    using Children_correct[OF s, of 0] blank_lists(1)[of 0] by simp
  then show ?thesis
    using Walk_walks[OF visited_eq(1)[OF s], of 0 "\<lambda>_. False"] visited_eq(2)[OF s, of 0] by simp
qed

lemma Walk_stops_witness: "Walk blank 0 (\<lambda>x. x = 0) = Some ([0], VisitError)"
  using Walk_stops[OF blank_reachable Walk_blank, of "\<lambda>x. x = 0"] by simp

subsection \<open>Content\<close>

text \<open>On a reachable heap \<open>Content\<close> returns for every node; the content of a node that is not self-contained is
  the contents of its children in order.\<close>
theorem Content_children:
  assumes "dom_reachable h" "\<not> self_contained (etype (h n))" "Children h n = Some cs"
  shows "Content h n = Some (concat (map (\<lambda>c. the (Content h c)) cs)) \<and> list_all (\<lambda>c. Content h c \<noteq> None) cs"
proof -
  obtain L at where s: "shape h L at"
    using reachable_shape[OF assms(1)] by blast
  have "cs = L (Kids n)"
    using assms(3) Children_correct[OF s, of n] by simp
  moreover have c: "Content h c = Some (the_content h c)" for c
    by (rule Content_path(2)[OF s path_self])
  ultimately show ?thesis
    using the_content_eq[OF s, of n] assms(2) by (simp add: c list_all_iff)
qed

lemma Content_children_witness: "Content blank 0 = Some []"
  using Content_children[OF blank_reachable _ blank_lists(1), of 0] by (simp add: self_contained_def blank_def)

lemma below_sibling:
  assumes s: "shape h L at" and c: "c \<in> set (L (Kids n))" and d: "(c, d) \<in> (up h)\<^sup>*"
  shows "d \<noteq> n" "d \<in> set (L (Kids n)) \<Longrightarrow> d = c"
proof -
  have acyclic: "(c, n) \<notin> (up h)\<^sup>*"
    by (rule no_back_edge[OF s kid_up[OF s c]])
  show "d \<noteq> n"
    using d acyclic by auto
  assume "d \<in> set (L (Kids n))"
  then have "parent (h d) = Some n"
    using kid_up[OF s] by (simp add: up_def)
  then show "d = c"
    using d acyclic rtrancl_last[of c d h] by auto
qed

lemma append_last_content:
  assumes s: "shape h L at" and n: "\<not> self_contained (etype (h n))"
    and l: "L (Kids n) = cs @ [l]" "etype (h l) = TextNode"
  shows "the_content (append_content l b h) n = the_content h n @ b"
proof -
  let ?h = "append_content l b h"
  have s': "shape ?h L at"
    using same_tree_shape[OF append_same_tree] s by blast
  have e: "etype (?h x) = etype (h x)" for x
    by (simp add: append_content_def fields)
  have "l \<notin> set cs"
    using shape_distinct[OF s, of "Kids n"] l(1) by simp
  have "the_content ?h c = the_content h c" if c: "c \<in> set cs" for c
  proof (rule the_content_cong[OF s s'])
    fix d assume "(c, d) \<in> (up h)\<^sup>*"
    then have "d \<noteq> l"
      using below_sibling(2)[OF s, of c n d] l(1) c \<open>l \<notin> set cs\<close> by auto
    then show "L (Kids d) = L (Kids d) \<and> etype (?h d) = etype (h d) \<and> content (?h d) = content (h d)"
      by (simp add: append_content_data(2))
  qed
  then have "concat (map (the_content ?h) cs) = concat (map (the_content h) cs)"
    by (simp cong: map_cong)
  moreover have "the_content ?h l = the_content h l @ b"
    using l(2) e append_content_data(1)[of l b h] by (simp add: the_content_eq[OF s, of l] the_content_eq[OF s', of l] self_contained_def)
  ultimately show ?thesis
    using n l(1) e by (simp add: the_content_eq[OF s, of n] the_content_eq[OF s', of n])
qed

lemma new_text_content:
  assumes s: "shape h L at" and n: "\<not> self_contained (etype (h n))" and t: "fresh h t" "t \<noteq> n"
    and s': "shape h' L' at'" and a: "child_added n t (new_text t b d h) L h' L'"
    and l: "\<not> (L (Kids n) \<noteq> [] \<and> etype (h (last (L (Kids n)))) = TextNode)"
  shows "the_content h' n = the_content h n @ b"
proof -
  have t_at: "t \<notin> set (L ow)" if "owner_node ow \<noteq> None" for ow
    using single_shape[OF s, of t] shape_at[OF s, of t ow] t(1) that by (auto simp: fresh_def)
  then have rm: "removeAll t (L ow) = L ow" if "owner_node ow \<noteq> None" for ow
    using that by (simp add: removeAll_id)
  have ne: "last (L (Kids n)) \<noteq> t" if "L (Kids n) \<noteq> []"
    using t_at[of "Kids n"] last_in_set[OF that] by auto
  have "\<not> (etype (new_text t b d h t) = TextNode \<and> L (Kids n) \<noteq> [] \<and> etype (new_text t b d h (last (L (Kids n)))) = TextNode)"
    using l ne by (cases "L (Kids n) = []") auto
  then have added: "(\<forall>ow. owner_node ow \<noteq> None \<longrightarrow> L' ow = (if ow = Kids n then L (Kids n) @ [t] else removeAll t (L ow)))
      \<and> (\<forall>x. data (h' x) = data (new_text t b d h x))"
    using a rm[of "Kids n"] by (simp add: child_added_def Let_def)
  then have L': "L' (Kids q) = (if q = n then L (Kids n) @ [t] else L (Kids q))" for q
    using rm[of "Kids q"] by simp
  have d: "data (h' x) = data (new_text t b d h x)" for x
    using added by blast
  have e: "etype (h' x) = (if x = t then TextNode else etype (h x))" "content (h' x) = (if x = t then b else content (h x))" for x
    using d[of x] by (auto simp: data_fields new_text_def)
  have "the_content h' c = the_content h c" if c: "c \<in> set (L (Kids n))" for c
  proof (rule the_content_cong[OF s s'])
    fix x assume x: "(c, x) \<in> (up h)\<^sup>*"
    have "x \<noteq> t"
    proof
      assume "x = t"
      then have "c = t"
        using x t(1) rtrancl_last[of c x h] by (auto simp: fresh_def single_def)
      then show False
        using t_at[of "Kids n"] c by simp
    qed
    then show "L' (Kids x) = L (Kids x) \<and> etype (h' x) = etype (h x) \<and> content (h' x) = content (h x)"
      using below_sibling(1)[OF s c x] L' e by simp
  qed
  moreover have "the_content h' t = b"
    using e by (simp add: the_content_eq[OF s', of t] self_contained_def)
  ultimately show ?thesis
    using n e t(2) L' by (simp add: the_content_eq[OF s, of n] the_content_eq[OF s', of n] cong: map_cong)
qed

text \<open>C14: \<open>AppendText\<close> succeeds on every node except an entity or a namespace wrapper, and the content of the node
  afterwards is its content before followed by the text, whether the text was merged into a trailing text
  node, stored in the leaf or put into a new text node.\<close>
theorem AppendText_Content:
  assumes "dom_reachable h" "fresh h t" "t \<noteq> n" "etype (h n) \<noteq> EntityNode" "etype (h n) \<noteq> NamespaceNode" "Content h n = Some s"
  shows "\<exists>h'. AppendText h n b t = Some (None, h') \<and> Content h' n = Some (s @ b)"
proof -
  obtain L at where s: "shape h L at"
    using reachable_shape[OF assms(1)] by blast
  have old: "s = the_content h n"
    using Content_path(2)[OF s path_self, of n] assms(6) by simp
  show ?thesis
  proof (cases "self_contained (etype (h n))")
    case True
    then have "AppendText h n b t = Some (None, append_content n b h)"
      using assms(4,5) by (auto simp: AppendText_def self_contained_def)
    moreover have "Content (append_content n b h) n = Some (s @ b)"
      using True assms(6) by (simp add: Content_def append_content_def fields set_content_def)
    ultimately show ?thesis
      by blast
  next
    case False
    then have n: "container (etype (h n))"
      by (auto simp: container_def self_contained_def)
    obtain h' L' at' where r: "appendText h n b t = Some (None, h')" "shape h' L' at'"
      "if L (Kids n) \<noteq> [] \<and> etype (h (last (L (Kids n)))) = TextNode then h' = append_content (last (L (Kids n))) b h \<and> L' = L
       else child_added n t (new_text t b (doc (h n)) h) L h' L'"
      using appendText_shape[OF s assms(2,3) n] by blast
    have "the_content h' n = s @ b"
    proof (cases "L (Kids n) \<noteq> [] \<and> etype (h (last (L (Kids n)))) = TextNode")
      case True
      then show ?thesis
        using append_last_content[OF s False, of "butlast (L (Kids n))"] r(3) old by simp
    next
      case no: False
      then show ?thesis
        using new_text_content[OF s False assms(2,3) r(2) _ no] r(3) old by (simp only: if_False)
    qed
    moreover have "AppendText h n b t = appendText h n b t"
      using n by (simp add: AppendText_def container_def)
    ultimately show ?thesis
      using r(1) Content_path(2)[OF r(2) path_self, of n] by auto
  qed
qed

lemma AppendText_Content_witness: "\<exists>h'. AppendText blank 0 ''hi'' 1 = Some (None, h') \<and> Content h' 0 = Some ''hi''"
proof -
  have "Content blank 0 = Some []"
    by (simp add: Content_def self_contained_def blank_def aggregate.simps)
  then show ?thesis
    using AppendText_Content[OF blank_reachable, of 1 0 "[]" "''hi''"] by (simp add: fresh_def single_def blank_def)
qed

subsection \<open>Attributes\<close>

lemma find_put_attr: "P a \<Longrightarrow> (\<And>x. x \<in> set xs \<Longrightarrow> P x \<Longrightarrow> m x) \<Longrightarrow> find P (put_attr m a xs) = Some a"
  by (induction xs) auto

lemma set_attribute_values:
  assumes s: "shape h L at" and p: "permitted (SetAttributeOf e l v pre uri a t) h" and l: "CHR '':'' \<notin> set l"
  obtains h' where "SetAttributeNS h e l v pre uri a t = Some (None, h')"
    "GetAttribute h' e (if pre \<noteq> [] then pre @ '':'' @ l else l) = Some (Some v)" "GetAttributeNS h' e l uri = Some (Some v)"
proof -
  let ?h = "new_attribute_text a t l pre uri v (doc (h e)) h"
  obtain h' L' at' where r: "SetAttributeNS h e l v pre uri a t = Some (None, h')" "shape h' L' at'"
    "\<forall>x. data (h' x) = data (?h x)" "L' (Kids a) = [t]" "L' (Attrs e) = put_attr (same_attr ?h a) a (L (Attrs e))"
    using SetAttributeNS_shape[OF s p l] by blast
  have f: "distinct [e, a, t]"
    using p by simp
  note n = new_attribute_text_data[OF f]
  have q: "QNamePredicate h' (if pre \<noteq> [] then pre @ '':'' @ l else l) x \<longleftrightarrow> AttrName ?h x = AttrName ?h a"
    "NSPredicate h' l uri x \<longleftrightarrow> lname (?h x) = lname (?h a) \<and> nsURI (?h x) = nsURI (?h a)" for x
    using r(3) n by (simp_all add: QNamePredicate_def NSPredicate_def AttrName_def data_fields)
  have "find (QNamePredicate h' (if pre \<noteq> [] then pre @ '':'' @ l else l)) (L' (Attrs e)) = Some a"
    "find (NSPredicate h' l uri) (L' (Attrs e)) = Some a"
    unfolding r(5) by (rule find_put_attr; simp only: q attrMatches_def; simp)+
  moreover have "Content h' a = Some v"
  proof -
    have "etype (h' a) = AttributeNode" "etype (h' t) = TextNode" "content (h' t) = v"
      using r(3) n f by (simp_all add: data_fields)
    then show ?thesis
      using Content_path(2)[OF r(2) path_self, of a] r(4) by (simp add: the_content_eq[OF r(2), of a] the_content_eq[OF r(2), of t] self_contained_def)
  qed
  ultimately show thesis
    using that r(1) by (simp add: GetAttribute_def GetAttributeNS_def FindAttribute_correct[OF r(2)])
qed

text \<open>C13: After \<open>SetAttributeNS\<close> with a local name without a colon, the attribute is found under its qualified name
  and under its local name and namespace, with the value that was set, whatever attributes the element had
  before.\<close>
theorem SetAttribute_GetAttribute:
  assumes "dom_reachable h" "permitted (SetAttributeOf e l v pre uri a t) h" "CHR '':'' \<notin> set l"
  shows "\<exists>h'. SetAttributeNS h e l v pre uri a t = Some (None, h')
    \<and> GetAttribute h' e (if pre \<noteq> [] then pre @ '':'' @ l else l) = Some (Some v) \<and> GetAttributeNS h' e l uri = Some (Some v)"
proof -
  obtain L at where s: "shape h L at"
    using reachable_shape[OF assms(1)] by blast
  show ?thesis
    using set_attribute_values[OF s assms(2,3)] by metis
qed

lemma SetAttribute_GetAttribute_witness: "\<exists>h'. SetAttributeNS blank 0 ''id'' ''x'' [] [] 1 2 = Some (None, h')
    \<and> GetAttribute h' 0 ''id'' = Some (Some ''x'')"
proof -
  have "permitted (SetAttributeOf 0 ''id'' ''x'' [] [] 1 2) blank"
    by (simp add: fresh_def single_def blank_def)
  from SetAttribute_GetAttribute[OF blank_reachable this] show ?thesis
    by auto
qed

end
