(* ===== verification/Cursor.thy ===== *)
theory Cursor
  imports XmlChar
begin

text \<open>
  The UTF-8 cursor of \<open>internal/strcursor/utf8cursor.go\<close>: the byte buffer the XML and HTML
  parsers read their input through.

  A reader is a state of any type \<open>'r\<close> with its \<open>Read\<close>: from the state and the room offered it
  gives the bytes delivered, the error returned and the next state.  The cursor is a record with
  the fields of \<open>UTF8Cursor\<close>: \<open>buf\<close> is the whole allocation, of which the bytes from
  \<open>bufpos\<close> up to \<open>buflen\<close> are the unconsumed input.  Offsets and counts are \<^typ>\<open>nat\<close>: no
  caller passes a negative one, and Go panics on it.

  The two \<open>fill\<close> functions give back the error and the state, in that order; every operation gives
  its result and the state, since even a peek may move the buffer.  \<open>HasByteAt\<close> is also the
  guard each scan repeats before it looks at an offset.
\<close>

subsection \<open>Readers\<close>

type_synonym 'r reader = "'r \<Rightarrow> nat \<Rightarrow> string \<times> goerr option \<times> 'r"

definition io_EOF :: goerr where
  "io_EOF = External ''EOF''"

definition io_ErrNoProgress :: goerr where
  "io_ErrNoProgress = External ''multiple Read calls return no data or error''"

text \<open>\<open>bytes.Reader\<close>, the reader over a byte slice.\<close>

definition bytes_Read :: "string reader" where
  "bytes_Read s n = (if s = [] then ([], Some io_EOF, s) else (take n s, None, drop n s))"

subsection \<open>The cursor\<close>

record 'r cursor =
  buf :: string
  buflen :: nat
  bufpos :: nat
  column :: nat
  inp :: 'r
  lineno :: nat
  readErr :: "goerr option"

definition maxZeroProgressReads :: nat where
  "maxZeroProgressReads = 100"

definition NewUTF8Cursor :: "'r \<Rightarrow> 'r cursor" where
  "NewUTF8Cursor r = \<lparr>buf = replicate 8192 (CHR 0x00), buflen = 0, bufpos = 0, column = 1,
     inp = r, lineno = 1, readErr = None\<rparr>"

text \<open>\<open>copy(dst[i:], src)\<close>, and the slice \<open>c.buf[c.bufpos:c.buflen]\<close>.\<close>

definition copy_at :: "string \<Rightarrow> nat \<Rightarrow> string \<Rightarrow> string" where
  "copy_at dst i src = take i dst @ src @ drop (i + length src) dst"

definition view :: "('r, 'm) cursor_scheme \<Rightarrow> string" where
  "view c = drop (bufpos c) (take (buflen c) (buf c))"

text \<open>One \<open>Read\<close> into the free end of the buffer.\<close>

definition read_more :: "'r reader \<Rightarrow> ('r, 'm) cursor_scheme \<Rightarrow>
    string \<times> goerr option \<times> ('r, 'm) cursor_scheme" where
  "read_more read c =
     (let (d, err, r) = read (inp c) (length (buf c) - buflen c) in
      (d, err, c\<lparr>buf := copy_at (buf c) (buflen c) d, buflen := buflen c + length d, inp := r\<rparr>))"

lemma read_more_fields:
  "read_more read c = (d, err, c') \<Longrightarrow> bufpos c' = bufpos c \<and> buflen c' = buflen c + length d"
  by (auto simp: read_more_def split: prod.splits)

lemma fill_progress:
  "bl - bp < (m :: nat) \<Longrightarrow> x \<noteq> [] \<Longrightarrow> m + bp - (bl + length x) < m + bp - bl"
  by (cases x) auto

definition note_error :: "goerr \<Rightarrow> ('r, 'm) cursor_scheme \<Rightarrow> ('r, 'm) cursor_scheme" where
  "note_error e c = (if e \<noteq> io_EOF \<and> readErr c = None then c\<lparr>readErr := Some e\<rparr> else c)"

function fill_loop :: "'r reader \<Rightarrow> nat \<Rightarrow> nat \<Rightarrow> ('r, 'm) cursor_scheme \<Rightarrow>
    goerr option \<times> ('r, 'm) cursor_scheme" where
  "fill_loop read minBytes zeroProgress c =
     (if buflen c - bufpos c < minBytes then
        (case read_more read c of (d, err, c1) \<Rightarrow>
           if length d = 0 \<and> err = None then
             (if zeroProgress + 1 \<ge> maxZeroProgressReads
              then (Some io_ErrNoProgress, c1\<lparr>readErr := Some io_ErrNoProgress\<rparr>)
              else fill_loop read minBytes (zeroProgress + 1) c1)
           else
             (case err of
                Some e \<Rightarrow> (if buflen c1 - bufpos c1 \<ge> minBytes then (None, note_error e c1)
                           else (Some e, note_error e c1))
              | None \<Rightarrow> fill_loop read minBytes 0 c1))
      else (None, c))"
  by pat_completeness auto
termination
  by (relation "measures [\<lambda>(read, m, z, c). m + bufpos c - buflen c,
        \<lambda>(read, m, z, c). maxZeroProgressReads - z]")
    (auto dest!: read_more_fields sym[of "(_, _, _)"] simp: fill_progress)

declare fill_loop.simps [simp del]

lemma fill_loop_induct [case_names step]:
  assumes "\<And>m z c. \<lbrakk>
      \<And>c1. \<lbrakk>buflen c - bufpos c < m; read_more read c = ([], None, c1); z + 1 < maxZeroProgressReads\<rbrakk>
        \<Longrightarrow> P m (z + 1) c1;
      \<And>d c1. \<lbrakk>buflen c - bufpos c < m; read_more read c = (d, None, c1); d \<noteq> []\<rbrakk> \<Longrightarrow> P m 0 c1\<rbrakk>
    \<Longrightarrow> P m z c"
  shows "P m z c"
proof -
  have "rd = read \<longrightarrow> P m z c" for rd
    by (induction rd m z c rule: fill_loop.induct) (intro impI, rule assms; simp)
  then show ?thesis by simp
qed

definition compact :: "('r, 'm) cursor_scheme \<Rightarrow> ('r, 'm) cursor_scheme" where
  "compact c =
     (let avail = buflen c - bufpos c in
      if bufpos c > 0
      then c\<lparr>buf := (if avail > 0 then copy_at (buf c) 0 (view c) else buf c),
             buflen := avail, bufpos := 0\<rparr>
      else c)"

definition grow :: "nat \<Rightarrow> ('r, 'm) cursor_scheme \<Rightarrow> ('r, 'm) cursor_scheme" where
  "grow minBytes c =
     (if minBytes > length (buf c)
      then c\<lparr>buf := copy_at (replicate (minBytes * 2) (CHR 0x00)) 0 (take (buflen c) (buf c))\<rparr>
      else c)"

definition fillBuffer :: "'r reader \<Rightarrow> nat \<Rightarrow> ('r, 'm) cursor_scheme \<Rightarrow>
    goerr option \<times> ('r, 'm) cursor_scheme" where
  "fillBuffer read minBytes c =
     (if buflen c - bufpos c \<ge> minBytes then (None, c)
      else fill_loop read minBytes 0 (grow minBytes (compact c)))"

subsection \<open>Looking at the input\<close>

definition Err :: "('r, 'm) cursor_scheme \<Rightarrow> goerr option" where
  "Err c = readErr c"

definition Done :: "'r reader \<Rightarrow> 'r cursor \<Rightarrow> bool \<times> 'r cursor" where
  "Done read c =
     (if bufpos c < buflen c then (False, c)
      else let (err, c1) = fillBuffer read 1 c in (err \<noteq> None, c1))"

definition Peek :: "'r reader \<Rightarrow> 'r cursor \<Rightarrow> char \<times> 'r cursor" where
  "Peek read c =
     (let (err, c1) = (if bufpos c \<ge> buflen c then fillBuffer read 1 c else (None, c)) in
      if err \<noteq> None then (CHR 0x00, c1) else (buf c1 ! bufpos c1, c1))"

definition HasByteAt :: "'r reader \<Rightarrow> nat \<Rightarrow> ('r, 'm) cursor_scheme \<Rightarrow>
    bool \<times> ('r, 'm) cursor_scheme" where
  "HasByteAt read offset c =
     (if bufpos c + offset \<ge> buflen c then
        (let (err, c1) = fillBuffer read (offset + 1) c in
         if err \<noteq> None then (False, c1)
         else if bufpos c1 + offset \<ge> buflen c1 then (False, c1)
         else (True, c1))
      else (True, c))"

definition PeekAt :: "'r reader \<Rightarrow> nat \<Rightarrow> 'r cursor \<Rightarrow> char \<times> 'r cursor" where
  "PeekAt read offset c =
     (let (ok, c1) = HasByteAt read offset c in
      (if ok then buf c1 ! (bufpos c1 + offset) else CHR 0x00, c1))"

definition PeekRune :: "'r reader \<Rightarrow> 'r cursor \<Rightarrow> nat \<times> 'r cursor" where
  "PeekRune read c =
     (let (err, c1) = (if bufpos c \<ge> buflen c then fillBuffer read 1 c else (None, c)) in
      if err \<noteq> None then (rune_error, c1)
      else let b = byte (buf c1 ! bufpos c1) in
        if b < 0x80 then (b, c1)
        else let c2 = (if buflen c1 - bufpos c1 < 4 then snd (fillBuffer read 4 c1) else c1) in
          (fst (decode_rune (view c2)), c2))"

definition PeekString :: "'r reader \<Rightarrow> nat \<Rightarrow> 'r cursor \<Rightarrow> string \<times> 'r cursor" where
  "PeekString read n c =
     (let (err, c1) = (if buflen c - bufpos c < n then fillBuffer read n c else (None, c)) in
      if err \<noteq> None then ([], c1)
      else if bufpos c1 + n > buflen c1 then ([], c1)
      else (take n (drop (bufpos c1) (buf c1)), c1))"

subsection \<open>Consuming the input\<close>

text \<open>The loop of \<open>Advance\<close> over the segment: the line number and the last newline.\<close>

fun newline_loop :: "nat \<Rightarrow> string \<Rightarrow> nat \<Rightarrow> int \<Rightarrow> nat \<times> int" where
  "newline_loop i [] line lastNewline = (line, lastNewline)"
| "newline_loop i (b # bs) line lastNewline =
     (if b = CHR 0x0A then newline_loop (i + 1) bs (line + 1) (int i)
      else newline_loop (i + 1) bs line lastNewline)"

definition step_one :: "'r cursor \<Rightarrow> 'r cursor" where
  "step_one c =
     (if buf c ! bufpos c = CHR 0x0A then c\<lparr>lineno := lineno c + 1, column := 1, bufpos := bufpos c + 1\<rparr>
      else c\<lparr>column := column c + 1, bufpos := bufpos c + 1\<rparr>)"

definition Advance :: "'r reader \<Rightarrow> nat \<Rightarrow> 'r cursor \<Rightarrow> goerr option \<times> 'r cursor" where
  "Advance read n c =
     (let (err, c1) = (if buflen c - bufpos c < n then fillBuffer read n c else (None, c)) in
      if err \<noteq> None then (err, c1)
      else if n = 1 then (None, step_one c1)
      else
        let segment = take n (drop (bufpos c1) (buf c1));
            (line, lastNewline) = newline_loop 0 segment (lineno c1) (-1) in
        (None, c1\<lparr>lineno := line,
           column := (if lastNewline \<ge> 0 then nat (int (length segment) - lastNewline) else column c1 + n),
           bufpos := bufpos c1 + n\<rparr>))"

text \<open>\<open>bytes.LastIndexByte\<close> and \<open>bytes.Count\<close> of one byte.\<close>

fun last_index_byte :: "string \<Rightarrow> char \<Rightarrow> nat option" where
  "last_index_byte [] b = None"
| "last_index_byte (c # cs) b =
     (case last_index_byte cs b of Some i \<Rightarrow> Some (Suc i) | None \<Rightarrow> if c = b then Some 0 else None)"

definition AdvanceFast :: "'r reader \<Rightarrow> nat \<Rightarrow> 'r cursor \<Rightarrow> goerr option \<times> 'r cursor" where
  "AdvanceFast read n c =
     (let (err, c1) = (if buflen c - bufpos c < n then fillBuffer read n c else (None, c)) in
      if err \<noteq> None then (err, c1)
      else if n = 1 then (None, step_one c1)
      else
        let segment = take n (drop (bufpos c1) (buf c1)) in
        (None, (case last_index_byte segment (CHR 0x0A) of
             Some idx \<Rightarrow> c1\<lparr>lineno := lineno c1 + count_list segment (CHR 0x0A),
                             column := length segment - idx, bufpos := bufpos c1 + n\<rparr>
           | None \<Rightarrow> c1\<lparr>column := column c1 + n, bufpos := bufpos c1 + n\<rparr>)))"

subsection \<open>Prefixes\<close>

definition HasPrefix :: "'r reader \<Rightarrow> string \<Rightarrow> 'r cursor \<Rightarrow> bool \<times> 'r cursor" where
  "HasPrefix read b c =
     (let (err, c1) = fillBuffer read (length b) c in
      if err \<noteq> None then (False, c1) else (has_prefix (view c1) b, c1))"

text \<open>The byte comparison of the \<open>switch\<close>: its cases up to 9 are the default loop unrolled.\<close>

definition same_bytes :: "string \<Rightarrow> string \<Rightarrow> bool" where
  "same_bytes data s = list_all (\<lambda>i. data ! i = s ! i) [0..<length s]"

definition HasPrefixString :: "'r reader \<Rightarrow> string \<Rightarrow> 'r cursor \<Rightarrow> bool \<times> 'r cursor" where
  "HasPrefixString read s c =
     (let n = length s;
          (err, c1) = (if buflen c - bufpos c < n then fillBuffer read n c else (None, c)) in
      if err \<noteq> None \<or> buflen c1 - bufpos c1 < n then (False, c1)
      else (same_bytes (drop (bufpos c1) (buf c1)) s, c1))"

definition Consume :: "'r reader \<Rightarrow> string \<Rightarrow> 'r cursor \<Rightarrow> bool \<times> 'r cursor" where
  "Consume read b c =
     (let (ok, c1) = HasPrefix read b c in
      if \<not> ok then (False, c1) else (True, snd (Advance read (length b) c1)))"

definition ConsumeString :: "'r reader \<Rightarrow> string \<Rightarrow> 'r cursor \<Rightarrow> bool \<times> 'r cursor" where
  "ConsumeString read s c =
     (let n = length s;
          (err, c1) = (if buflen c - bufpos c < n then fillBuffer read n c else (None, c)) in
      if err \<noteq> None \<or> buflen c1 - bufpos c1 < n then (False, c1)
      else if \<not> same_bytes (drop (bufpos c1) (buf c1)) s then (False, c1)
      else let (err2, c2) = AdvanceFast read n c1 in (err2 = None, c2))"

subsection \<open>The current line and the cursor as a reader\<close>

fun line_start :: "string \<Rightarrow> nat \<Rightarrow> nat" where
  "line_start b 0 = 0"
| "line_start b (Suc i) = (if b ! i \<noteq> CHR 0x0A then line_start b i else Suc i)"

definition Line :: "'r cursor \<Rightarrow> string" where
  "Line c = (let start = line_start (buf c) (bufpos c) in
     if start = bufpos c then [] else drop start (take (bufpos c) (buf c)))"

definition Cursor_Read :: "'r reader \<Rightarrow> 'r cursor reader" where
  "Cursor_Read read c n =
     (let avail = buflen c - bufpos c in
      if bufpos c < buflen c then
        (if n \<ge> avail then
           (let (d, err, r) = read (inp c) (n - avail) in (view c @ d, err, c\<lparr>bufpos := buflen c, inp := r\<rparr>))
         else (take n (view c), None, c\<lparr>bufpos := bufpos c + n\<rparr>))
      else let (d, err, r) = read (inp c) n in (d, err, c\<lparr>inp := r\<rparr>))"

text \<open>\<open>Unused\<close>: the buffered bytes in front of the reader.\<close>

type_synonym 'r unused_reader = "string \<times> 'r"

definition Unused :: "'r cursor \<Rightarrow> 'r unused_reader" where
  "Unused c = (view c, inp c)"

definition Unused_Read :: "'r reader \<Rightarrow> 'r unused_reader reader" where
  "Unused_Read read u n =
     (if length (fst u) > 0 then (take n (fst u), None, drop n (fst u), snd u)
      else let (d, err, r) = read (snd u) n in (d, err, fst u, r))"

end
