(* ===== verification/CursorFill.thy ===== *)
theory CursorFill
  imports Cursor
begin

text \<open>
  The contract of \<open>io.Reader\<close> the cursors rely on, as the locale \<open>byte_source\<close>, and what
  \<open>fillBuffer\<close> does under it.

  \<open>rest r\<close> are the bytes the reader in state \<open>r\<close> will still deliver, \<open>fin r\<close> the error that ends
  them (\<open>io.EOF\<close> for a clean end) and \<open>ok\<close> the states that can occur.  A read delivers at most
  the room it is given; an error comes with or after the last byte and stays; fewer than
  \<open>maxZeroProgressReads\<close> reads in a row give neither a byte nor an error, counted down by
  \<open>stall\<close>.  How the stream is cut into reads is left open.

  \<open>pending\<close> abstracts a cursor to the unread bytes, buffered or not; \<open>moved\<close> says that an
  operation kept them, the position and everything else a client can see.
\<close>

locale byte_source =
  fixes read :: "'r reader" and ok :: "'r \<Rightarrow> bool" and rest :: "'r \<Rightarrow> string"
    and fin :: "'r \<Rightarrow> goerr" and stall :: "'r \<Rightarrow> nat"
  assumes read_law: "ok r \<Longrightarrow> read r n = (d, err, r') \<Longrightarrow>
      ok r' \<and> length d \<le> n \<and> rest r = d @ rest r' \<and> fin r' = fin r"
    and error_law: "ok r \<Longrightarrow> read r n = (d, Some e, r') \<Longrightarrow> rest r' = [] \<and> e = fin r"
    and stall_law: "ok r \<Longrightarrow> 0 < n \<Longrightarrow> read r n = ([], None, r') \<Longrightarrow> stall r' < stall r"
    and stall_bound: "ok r \<Longrightarrow> stall r < maxZeroProgressReads"

lemma length_view [simp]:
  "buflen c \<le> length (buf c) \<Longrightarrow> length (view c) = buflen c - bufpos c"
  by (simp add: view_def)

lemma length_copy_at: "i + length s \<le> length d \<Longrightarrow> length (copy_at d i s) = length d"
  by (simp add: copy_at_def)

lemma take_copy_at: "i + length s \<le> length d \<Longrightarrow> take (i + length s) (copy_at d i s) = take i d @ s"
  by (simp add: copy_at_def)

lemma compact_fields:
  assumes "bufpos c \<le> buflen c" "buflen c \<le> length (buf c)"
  shows "view (compact c) = view c" "bufpos (compact c) = 0"
    "buflen (compact c) = buflen c - bufpos c" "length (buf (compact c)) = length (buf c)"
proof -
  have len: "length (view c) = buflen c - bufpos c" using assms by simp
  have "take (length (view c)) (copy_at (buf c) 0 (view c)) = view c"
    using take_copy_at[of 0 "view c" "buf c"] assms by simp
  then show "view (compact c) = view c"
    using len by (auto simp: compact_def Let_def view_def)
  show "length (buf (compact c)) = length (buf c)"
    using assms len by (auto simp: compact_def Let_def length_copy_at)
qed (use assms in \<open>auto simp: compact_def Let_def\<close>)

lemma compact_frame [simp]:
  "inp (compact c) = inp c" "lineno (compact c) = lineno c" "column (compact c) = column c"
  "readErr (compact c) = readErr c" "cursor.more (compact c) = cursor.more c"
  by (auto simp: compact_def Let_def)

lemma grow_fields:
  assumes "buflen c \<le> length (buf c)"
  shows "view (grow m c) = view c" "bufpos (grow m c) = bufpos c" "buflen (grow m c) = buflen c"
    "m \<le> length (buf (grow m c))" "buflen c \<le> length (buf (grow m c))"
proof -
  have "take (buflen c) (copy_at (replicate (m * 2) z) 0 (take (buflen c) (buf c))) = take (buflen c) (buf c)"
    if "length (buf c) < m" for z
    using that assms take_copy_at[of 0 "take (buflen c) (buf c)" "replicate (m * 2) z"] by simp
  then show "view (grow m c) = view c" by (auto simp: grow_def view_def)
  show "m \<le> length (buf (grow m c))" "buflen c \<le> length (buf (grow m c))"
    using assms by (auto simp: grow_def copy_at_def)
qed (auto simp: grow_def)

lemma grow_frame [simp]:
  "inp (grow m c) = inp c" "lineno (grow m c) = lineno c" "column (grow m c) = column c"
  "readErr (grow m c) = readErr c" "cursor.more (grow m c) = cursor.more c"
  by (auto simp: grow_def)

lemma note_error_frame [simp]:
  "buf (note_error e c) = buf c" "buflen (note_error e c) = buflen c" "bufpos (note_error e c) = bufpos c"
  "inp (note_error e c) = inp c" "lineno (note_error e c) = lineno c" "column (note_error e c) = column c"
  "cursor.more (note_error e c) = cursor.more c" "view (note_error e c) = view c"
  by (auto simp: note_error_def view_def)

context byte_source begin

definition good :: "('r, 'm) cursor_scheme \<Rightarrow> bool" where
  "good c \<longleftrightarrow> bufpos c \<le> buflen c \<and> buflen c \<le> length (buf c) \<and> ok (inp c) \<and>
     (\<forall>e. readErr c = Some e \<longrightarrow> e = fin (inp c) \<and> e \<noteq> io_EOF \<and> rest (inp c) = [])"

definition pending :: "('r, 'm) cursor_scheme \<Rightarrow> string" where
  "pending c = view c @ rest (inp c)"

definition moved :: "('r, 'm) cursor_scheme \<Rightarrow> ('r, 'm) cursor_scheme \<Rightarrow> bool" where
  "moved c c' \<longleftrightarrow> good c' \<and> pending c' = pending c \<and> fin (inp c') = fin (inp c) \<and>
     lineno c' = lineno c \<and> column c' = column c \<and> cursor.more c' = cursor.more c \<and>
     (readErr c \<noteq> None \<longrightarrow> readErr c' = readErr c)"

definition ended :: "('r, 'm) cursor_scheme \<Rightarrow> bool" where
  "ended c \<longleftrightarrow> rest (inp c) = [] \<and> (fin (inp c) \<noteq> io_EOF \<longrightarrow> readErr c = Some (fin (inp c)))"

lemma goodD [dest]:
  "good c \<Longrightarrow> bufpos c \<le> buflen c" "good c \<Longrightarrow> buflen c \<le> length (buf c)" "good c \<Longrightarrow> ok (inp c)"
  by (auto simp: good_def)

lemma moved_refl: "good c \<Longrightarrow> moved c c"
  by (simp add: moved_def)

lemma moved_trans: "moved a b \<Longrightarrow> moved b c \<Longrightarrow> moved a c"
  by (auto simp: moved_def)

lemma moved_good: "moved c c' \<Longrightarrow> good c'"
  by (simp add: moved_def)

lemma moved_pending: "moved c c' \<Longrightarrow> pending c' = pending c"
  by (simp add: moved_def)

lemma read_more_law:
  assumes g: "good c" and r: "read_more read c = (d, err, c1)"
  shows "moved c c1" "view c1 = view c @ d" "buf c1 = copy_at (buf c) (buflen c) d"
    "length (buf c1) = length (buf c)"
    "readErr c1 = readErr c" "read (inp c) (length (buf c) - buflen c) = (d, err, inp c1)"
proof -
  obtain r' where rd: "read (inp c) (length (buf c) - buflen c) = (d, err, r')"
    and c1: "c1 = c\<lparr>buf := copy_at (buf c) (buflen c) d, buflen := buflen c + length d, inp := r'\<rparr>"
    using r by (auto simp: read_more_def split: prod.splits)
  have law: "ok r'" "length d \<le> length (buf c) - buflen c" "rest (inp c) = d @ rest r'" "fin r' = fin (inp c)"
    using read_law[OF _ rd] g by auto
  have room: "buflen c + length d \<le> length (buf c)" using law(2) goodD(2)[OF g] by linarith
  show "view c1 = view c @ d"
    using goodD(1,2)[OF g] by (simp add: c1 view_def take_copy_at[OF room])
  then show "moved c c1"
    using g room law by (auto simp: moved_def good_def c1 pending_def length_copy_at)
  show "length (buf c1) = length (buf c)" by (simp add: c1 length_copy_at[OF room])
qed (use r in \<open>auto simp: read_more_def split: prod.splits\<close>)

lemma read_more_stall:
  assumes "good c" "read_more read c = ([], None, c1)" "buflen c < length (buf c)"
  shows "stall (inp c1) < stall (inp c)"
  using read_more_law(6)[OF assms(1,2)] assms(3) goodD(3)[OF assms(1)]
    stall_law[of "inp c" "length (buf c) - buflen c" "inp c1"] by simp

lemma note_error_moved:
  assumes "moved c c1" "ok (inp c)" "fin (inp c) = e" "rest (inp c1) = []"
  shows "moved c (note_error e c1)" "ended (note_error e c1)"
proof -
  have g: "good c1" "fin (inp c1) = e" using assms by (auto simp: moved_def)
  then have "good (note_error e c1)" using assms(4) by (auto simp: good_def note_error_def)
  then show "moved c (note_error e c1)"
    using assms(1) by (auto simp: moved_def pending_def note_error_def view_def)
  show "ended (note_error e c1)"
    using g assms(4) by (auto simp: ended_def note_error_def good_def)
qed

definition filled :: "nat \<Rightarrow> ('r, 'm) cursor_scheme \<Rightarrow> goerr option \<Rightarrow> ('r, 'm) cursor_scheme \<Rightarrow> bool" where
  "filled m c err c' \<longleftrightarrow> moved c c' \<and>
     (case err of
        None \<Rightarrow> m \<le> length (view c')
      | Some e \<Rightarrow> e = fin (inp c) \<and> length (pending c) < m \<and> ended c')"

lemma filled_trans: "moved b c \<Longrightarrow> filled m c err c' \<Longrightarrow> filled m b err c'"
  by (auto simp: filled_def moved_def split: option.splits)

lemma fill_loop_filled:
  assumes "good c" "bufpos c + m \<le> length (buf c)" "stall (inp c) + z < maxZeroProgressReads"
    "fill_loop read m z c = (err, c')"
  shows "filled m c err c'"
  using assms
proof (induction m z c arbitrary: err c' rule: fill_loop_induct[where read = read])
  case (step m z c)
  note g = step.prems(1) and room = step.prems(2)
  show ?case
  proof (cases "buflen c - bufpos c < m")
    case False
    with step.prems(4) have "err = None" "c' = c" by (auto simp: fill_loop.simps)
    with False g show ?thesis by (auto simp: filled_def moved_refl)
  next
    case True
    obtain d e c1 where r: "read_more read c = (d, e, c1)" by (metis prod_cases3)
    note law = read_more_law[OF g r]
    have g1: "good c1" and pos: "bufpos c1 = bufpos c" "buflen c1 = buflen c + length d"
      using law(1) read_more_fields[OF r] by (auto simp: moved_def)
    show ?thesis
    proof (cases e)
      case (Some x)
      then have x: "rest (inp c1) = []" "x = fin (inp c)"
        using error_law[of "inp c" _ d x] law(6) g by auto
      have n: "moved c (note_error x c1)" "ended (note_error x c1)"
        using note_error_moved[OF law(1) _ x(2)[symmetric] x(1)] g by auto
      have "length (pending c) = length (view c1)"
        using law(1) x(1) by (auto simp: moved_def pending_def)
      then show ?thesis
        using step.prems(4) True r Some n x(2) g1
        by (auto simp: fill_loop.simps filled_def split: if_splits)
    next
      case None
      have room1: "bufpos c1 + m \<le> length (buf c1)" using room pos law(4) by simp
      show ?thesis
      proof (cases "d = []")
        case False
        then have "fill_loop read m 0 c1 = (err, c')"
          using step.prems(4) True r None by (simp add: fill_loop.simps)
        moreover have "stall (inp c1) + 0 < maxZeroProgressReads"
          using stall_bound g1 by auto
        ultimately have "filled m c1 err c'"
          using step.IH(2)[OF True _ False g1 room1] r None by blast
        then show ?thesis using law(1) by (rule filled_trans[rotated])
      next
        case nil: True
        have "buflen c < length (buf c)" using True room by linarith
        then have st: "stall (inp c1) < stall (inp c)"
          using read_more_stall[OF g] r None nil by blast
        then have z: "z + 1 < maxZeroProgressReads" "stall (inp c1) + (z + 1) < maxZeroProgressReads"
          using step.prems(3) by linarith+
        then have "fill_loop read m (z + 1) c1 = (err, c')"
          using step.prems(4) True r None nil by (subst (asm) fill_loop.simps) auto
        then have "filled m c1 err c'"
          using step.IH(1)[OF True _ z(1) g1 room1 z(2)] r None nil by blast
        then show ?thesis using law(1) by (rule filled_trans[rotated])
      qed
    qed
  qed
qed

lemma compact_grow_moved:
  assumes "good c"
  shows "moved c (grow m (compact c))" "bufpos (grow m (compact c)) = 0"
    "m \<le> length (buf (grow m (compact c)))"
proof -
  note k = compact_fields[OF goodD(1,2)[OF assms]]
  have le: "buflen (compact c) \<le> length (buf (compact c))"
    using k goodD(2)[OF assms] by simp
  note gr = grow_fields[OF le, of m]
  show "moved c (grow m (compact c))"
    using assms k gr by (auto simp: moved_def good_def pending_def)
  show "bufpos (grow m (compact c)) = 0" "m \<le> length (buf (grow m (compact c)))"
    using k gr by auto
qed

lemma fillBuffer_filled:
  assumes "good c" "fillBuffer read m c = (err, c')"
  shows "filled m c err c'"
proof (cases "buflen c - bufpos c \<ge> m")
  case True
  with assms have "err = None" "c' = c" by (auto simp: fillBuffer_def)
  with True assms(1) show ?thesis by (auto simp: filled_def moved_refl)
next
  case False
  let ?c = "grow m (compact c)"
  note k = compact_grow_moved[OF assms(1), of m]
  have "fill_loop read m 0 ?c = (err, c')" using False assms(2) by (simp add: fillBuffer_def)
  moreover have "stall (inp ?c) + 0 < maxZeroProgressReads" using stall_bound assms(1) by auto
  ultimately have "filled m ?c err c'"
    using k by (intro fill_loop_filled) (auto dest: moved_good)
  then show ?thesis by (rule filled_trans[OF k(1)])
qed

text \<open>The consequences the operations use: what the result says about the pending bytes.\<close>

lemma fillBuffer_ok_iff:
  assumes "good c" "fillBuffer read m c = (err, c')"
  shows "err = None \<longleftrightarrow> m \<le> length (pending c)"
proof -
  have f: "filled m c err c'" using fillBuffer_filled[OF assms] .
  then have "length (pending c') = length (pending c)" by (auto simp: filled_def moved_def)
  then have "length (view c') \<le> length (pending c)" by (simp add: pending_def)
  with f show ?thesis by (auto simp: filled_def split: option.splits)
qed

lemma fillBuffer_moved:
  "good c \<Longrightarrow> fillBuffer read m c = (err, c') \<Longrightarrow> moved c c'"
  using fillBuffer_filled by (auto simp: filled_def)

text \<open>After any fill, failed or not, the view shows \<open>m\<close> bytes or everything there is.\<close>

definition shows_bytes :: "nat \<Rightarrow> ('r, 'm) cursor_scheme \<Rightarrow> bool" where
  "shows_bytes m c \<longleftrightarrow> m \<le> length (view c) \<or> view c = pending c"

lemma fillBuffer_shows:
  "good c \<Longrightarrow> fillBuffer read m c = (err, c') \<Longrightarrow> shows_bytes m c'"
  using fillBuffer_filled[of c m err c']
  by (auto simp: filled_def shows_bytes_def ended_def pending_def split: option.splits)

lemma view_prefix: "pending c = view c @ rest (inp c)"
  by (simp add: pending_def)

lemma take_view: "m \<le> length (view c) \<Longrightarrow> take m (view c) = take m (pending c)"
  by (simp add: pending_def)

lemma nth_buf:
  assumes "good c" "i < length (view c)"
  shows "buf c ! (bufpos c + i) = pending c ! i"
proof -
  have "bufpos c \<le> buflen c" "buflen c \<le> length (buf c)" "i < buflen c - bufpos c" using assms by auto
  then have "view c ! i = buf c ! (bufpos c + i)" by (simp add: view_def)
  with assms(2) show ?thesis by (simp add: pending_def nth_append)
qed

lemma take_buf:
  assumes "good c" "n \<le> length (view c)"
  shows "take n (drop (bufpos c) (buf c)) = take n (pending c)"
proof -
  have "bufpos c \<le> buflen c" "buflen c \<le> length (buf c)" "n \<le> buflen c - bufpos c" using assms by auto
  then have "take n (view c) = take n (drop (bufpos c) (buf c))"
    by (simp add: view_def drop_take min_def)
  with take_view[OF assms(2)] show ?thesis by simp
qed

end

end
