(* ===== verification/CursorScan.thy ===== *)
theory CursorScan
  imports Cursor
begin

text \<open>
  The scans of \<open>UTF8Cursor\<close>: names, qualified names, simple attribute values and character data.
  None of them consumes; each gives what it found and how many bytes it spans.

  A scan asks the reader for more as it goes, so over an endless input it does not return: its
  loop is \<open>scan_loop\<close>, a \<open>partial_function\<close> that iterates the body of the loop, and the scan an
  option.  The local \<open>data\<close> of
  \<open>ScanCharDataSlice\<close> is \<open>view\<close>: the code derives it again after every fill that may move the
  buffer.  Absent slices (\<open>nil\<close>) are empty.
\<close>

unbundle bit_operations_syntax

subsection \<open>Byte classes\<close>

definition set_class :: "nat list \<Rightarrow> nat \<Rightarrow> nat list \<Rightarrow> nat list" where
  "set_class is v tbl = fold (\<lambda>i t. t[i := v]) is tbl"

definition charDataByteClass :: "nat list" where
  "charDataByteClass =
     (let tbl = replicate 256 0;
          tbl = set_class [0..<0x80] 0 tbl;
          tbl = set_class [0..<0x20] 1 tbl;
          tbl = tbl[0x09 := 0]; tbl = tbl[0x0A := 0];
          tbl = tbl[byte (CHR ''<'') := 1]; tbl = tbl[byte (CHR ''&'') := 1];
          tbl = tbl[0x0D := 1]; tbl = tbl[byte (CHR '']'') := 1] in
      set_class [0x80..<0x100] 1 tbl)"

definition ncNameByteClass :: "nat list" where
  "ncNameByteClass =
     (let tbl = set_class [0..<0x100] 1 (replicate 256 0);
          tbl = set_class [byte (CHR ''A'')..<byte (CHR ''Z'') + 1] 0 tbl;
          tbl = set_class [byte (CHR ''a'')..<byte (CHR ''z'') + 1] 0 tbl;
          tbl = set_class [byte (CHR ''0'')..<byte (CHR ''9'') + 1] 0 tbl;
          tbl = tbl[byte (CHR ''_'') := 0]; tbl = tbl[byte (CHR ''-'') := 0] in
      tbl[byte (CHR ''.'') := 0])"

text \<open>Both byte scans look at blocks of 16 bytes at once, then at single bytes.\<close>

function scan_blocks :: "nat list \<Rightarrow> string \<Rightarrow> nat \<Rightarrow> nat" where
  "scan_blocks tbl data off =
     (if off + 16 \<le> length data then
        (if fold (\<lambda>k acc. acc OR tbl ! byte (data ! (off + k))) [0..<16] 0 \<noteq> 0 then off
         else scan_blocks tbl data (off + 16))
      else off)"
  by pat_completeness auto
termination
  by (relation "measure (\<lambda>(tbl, data, off). length data - off)") auto

function scan_singles :: "nat list \<Rightarrow> string \<Rightarrow> nat \<Rightarrow> nat" where
  "scan_singles tbl data off =
     (if off < length data \<and> tbl ! byte (data ! off) = 0 then scan_singles tbl data (off + 1) else off)"
  by pat_completeness auto
termination
  by (relation "measure (\<lambda>(tbl, data, off). length data - off)") auto

declare scan_blocks.simps [simp del] scan_singles.simps [simp del]

definition scanSafeCharDataASCII :: "string \<Rightarrow> nat" where
  "scanSafeCharDataASCII data = scan_singles charDataByteClass data (scan_blocks charDataByteClass data 0)"

definition scanASCIINameChars :: "string \<Rightarrow> nat" where
  "scanASCIINameChars data = scan_singles ncNameByteClass data (scan_blocks ncNameByteClass data 0)"

text \<open>A fill whose error is dropped, under a condition.\<close>

definition fill_if :: "bool \<Rightarrow> 'r reader \<Rightarrow> nat \<Rightarrow> 'r cursor \<Rightarrow> 'r cursor" where
  "fill_if b read m c = (if b then snd (fillBuffer read m c) else c)"

text \<open>A loop of a scan: the body either leaves with the result or gives the next state.\<close>

partial_function (option) scan_loop :: "('s \<Rightarrow> 'a + 's) \<Rightarrow> 's \<Rightarrow> 'a option" where
  "scan_loop body s = (case body s of Inl a \<Rightarrow> Some a | Inr s' \<Rightarrow> scan_loop body s')"

subsection \<open>Names\<close>

definition ascii_name_start :: "char \<Rightarrow> bool" where
  "ascii_name_start b \<longleftrightarrow>
     \<not> ((byte b < 65 \<or> byte b > 90) \<and> (byte b < 97 \<or> byte b > 122) \<and> byte b \<noteq> 95)"

type_synonym 'r ncname_state = "nat \<times> nat \<times> 'r cursor"

definition ncname_body :: "'r reader \<Rightarrow> 'r ncname_state \<Rightarrow> 'r ncname_state + 'r ncname_state" where
  "ncname_body read = (\<lambda>(off, nRunes, c).
     let (ok, c) = HasByteAt read off c in
     if \<not> ok then Inl (off, nRunes, c)
     else let runLen = scanASCIINameChars (drop off (view c));
              (off, nRunes) = (if runLen > 0 then (off + runLen, nRunes + runLen) else (off, nRunes)) in
       if runLen > 0 \<and> bufpos c + off \<ge> buflen c then Inr (off, nRunes, c)
       else if byte (buf c ! (bufpos c + off)) < 0x80 then Inl (off, nRunes, c)
       else let c = snd (fillBuffer read (off + 4) c); (r, w) = decode_rune (drop off (view c)) in
         if (r = rune_error \<and> w = 1) \<or> \<not> IsNCNameChar r then Inl (off, nRunes, c)
         else Inr (off + w, nRunes + 1, c))"

definition ScanNCNameBytes :: "'r reader \<Rightarrow> 'r cursor \<Rightarrow> ((string \<times> nat) \<times> 'r cursor) option" where
  "ScanNCNameBytes read c =
     (let (err, c) = fillBuffer read 1 c in
      if err \<noteq> None then Some (([], 0), c)
      else
        let b = buf c ! bufpos c;
            (fail, off, c) =
              (if byte b < 0x80 then (\<not> ascii_name_start b, 1, c)
               else let c = snd (fillBuffer read 4 c); (r, w) = decode_rune (view c) in
                 ((r = rune_error \<and> w = 1) \<or> \<not> IsNCNameStartChar r, w, c)) in
        if fail then Some (([], 0), c)
        else map_option (\<lambda>(off, nRunes, c). ((take off (view c), nRunes), c))
               (scan_loop (ncname_body read) (off, 1, c)))"

text \<open>A failing \<open>ScanQNameBytes\<close> is \<^const>\<open>None\<close>; a name without a prefix has \<open>colon = -1\<close>
  in the code and \<^const>\<open>None\<close> here.\<close>

type_synonym 'r qname_state = "nat option \<times> nat \<times> 'r cursor"

definition qname_body ::
    "'r reader \<Rightarrow> 'r qname_state \<Rightarrow> ((nat option \<times> nat) option \<times> 'r cursor) + 'r qname_state" where
  "qname_body read = (\<lambda>(colon, off, c).
     let (ok, c) = HasByteAt read off c in
     if \<not> ok then Inl (Some (colon, off), c)
     else let b = buf c ! (bufpos c + off) in
       if byte b \<ge> 0x80 then Inl (None, c)
       else if b = CHR '':'' then
         (if colon \<noteq> None then Inl (None, c)
          else let colon = Some off; off = off + 1; (ok, c) = HasByteAt read off c in
            if \<not> ok then Inl (None, c)
            else if \<not> ascii_name_start (buf c ! (bufpos c + off)) then Inl (None, c)
            else Inr (colon, off + 1, c))
       else if ncNameByteClass ! byte b \<noteq> 0 then Inl (Some (colon, off), c)
       else Inr (colon, off + 1, c))"

type_synonym qname_bytes = "(string \<times> string \<times> nat) option"

definition qname_slices :: "nat option \<Rightarrow> nat \<Rightarrow> string \<Rightarrow> string \<times> string \<times> nat" where
  "qname_slices colon off data =
     (case colon of
        None \<Rightarrow> ([], take off data, off)
      | Some i \<Rightarrow> (take i data, drop (i + 1) (take off data), off))"

definition ScanQNameBytes :: "'r reader \<Rightarrow> 'r cursor \<Rightarrow> (qname_bytes \<times> 'r cursor) option" where
  "ScanQNameBytes read c =
     (let (err, c) = fillBuffer read 1 c in
      if err \<noteq> None then Some (None, c)
      else if \<not> ascii_name_start (buf c ! bufpos c) then Some (None, c)
      else map_option (\<lambda>(res, c). (map_option (\<lambda>(colon, off). qname_slices colon off (view c)) res, c))
             (scan_loop (qname_body read) (None, 1, c)))"

subsection \<open>Attribute values\<close>

definition over_budget :: "int \<Rightarrow> nat \<Rightarrow> bool" where
  "over_budget maxBytes off \<longleftrightarrow> maxBytes > 0 \<and> int off > maxBytes"

definition attr_value_body ::
    "'r reader \<Rightarrow> char \<Rightarrow> int \<Rightarrow> nat \<times> 'r cursor \<Rightarrow> ((string \<times> nat) \<times> 'r cursor) + (nat \<times> 'r cursor)" where
  "attr_value_body read quote maxBytes = (\<lambda>(off, c).
     if over_budget maxBytes off then Inl (([], 0), c)
     else let (ok, c) = HasByteAt read off c in
       if \<not> ok then Inl (([], 0), c)
       else let b = buf c ! (bufpos c + off) in
         if b = quote then Inl ((take off (view c), off), c)
         else if b = CHR ''&'' \<or> b = CHR ''<'' then Inl (([], 0), c)
         else if byte b < 0x80 then
           (if byte b < 0x20 then Inl (([], 0), c) else Inr (off + 1, c))
         else let c = snd (fillBuffer read (off + 4) c); (r, w) = decode_rune (drop off (view c)) in
           if w = 0 \<or> (r = rune_error \<and> w = 1) then Inl (([], 0), c)
           else if \<not> IsChar r then Inl (([], 0), c)
           else Inr (off + w, c))"

definition ScanSimpleAttrValue ::
    "'r reader \<Rightarrow> char \<Rightarrow> int \<Rightarrow> 'r cursor \<Rightarrow> ((string \<times> nat) \<times> 'r cursor) option" where
  "ScanSimpleAttrValue read quote maxBytes c =
     (let (err, c) = fillBuffer read 1 c in
      if err \<noteq> None then Some (([], 0), c) else scan_loop (attr_value_body read quote maxBytes) (0, c))"

subsection \<open>Character data\<close>

definition reached :: "int \<Rightarrow> nat \<Rightarrow> bool" where
  "reached maxBytes n \<longleftrightarrow> maxBytes > 0 \<and> int n \<ge> maxBytes"

text \<open>The length of the safe ASCII run, cut at the budget.\<close>

definition capped_run :: "int \<Rightarrow> nat \<Rightarrow> string \<Rightarrow> nat" where
  "capped_run maxBytes off data =
     (let runLen = scanSafeCharDataASCII (drop off data) in
      if maxBytes > 0 \<and> int (off + runLen) > maxBytes then nat (maxBytes - int off) else runLen)"

type_synonym 'r text_state = "(string \<times> nat) \<times> 'r cursor"

text \<open>The part of the loop behind the ASCII run, at a byte that needs a decision.\<close>

definition char_data_special ::
    "'r reader \<Rightarrow> int \<Rightarrow> string \<Rightarrow> nat \<Rightarrow> 'r cursor \<Rightarrow> 'r text_state + 'r text_state" where
  "char_data_special read maxBytes dst off c =
     (let b = view c ! off in
      if byte b < 0x80 then
        (if b = CHR ''<'' \<or> b = CHR ''&'' then Inl ((dst, off), c)
         else if b = CHR '']'' then
           (let c = fill_if (off + 2 \<ge> length (view c)) read (off + 3) c in
            if off + 2 < length (view c) \<and> view c ! (off + 1) = CHR '']'' \<and> view c ! (off + 2) = CHR ''>''
            then Inl ((dst, off), c)
            else Inr ((dst @ '']'', off + 1), c))
         else if b = CHR 0x0D then
           (let c = fill_if (off + 1 \<ge> length (view c)) read (off + 2) c; off = off + 1 in
            Inr ((dst @ [CHR 0x0A],
                  if off < length (view c) \<and> view c ! off = CHR 0x0A then off + 1 else off), c))
         else Inl ((dst, off), c))
      else
        let c = fill_if (length (view c) - off < 4) read (off + 4) c;
            (r, w) = decode_rune (drop off (view c)) in
        if w = 0 \<or> (r = rune_error \<and> w = 1) then Inl ((dst, off), c)
        else if \<not> IsChar r then Inl ((dst, off), c)
        else if maxBytes > 0 \<and> off > 0 \<and> int (off + w) > maxBytes then Inl ((dst, off), c)
        else Inr ((dst @ take w (drop off (view c)), off + w), c))"

definition char_data_body ::
    "'r reader \<Rightarrow> int \<Rightarrow> 'r text_state \<Rightarrow> 'r text_state + 'r text_state" where
  "char_data_body read maxBytes = (\<lambda>((dst, off), c).
     if \<not> off < length (view c) then Inl ((dst, off), c)
     else if reached maxBytes off then Inl ((dst, off), c)
     else let runLen = capped_run maxBytes off (view c);
              dst = dst @ take runLen (drop off (view c)); off = off + runLen in
       if reached maxBytes off then Inl ((dst, off), c)
       else if off \<ge> length (view c) then
         (let (err, c) = fillBuffer read (off + 1) c in
          if err \<noteq> None then Inl ((dst, off), c)
          else if off \<ge> length (view c) then Inl ((dst, off), c)
          else Inr ((dst, off), c))
       else char_data_special read maxBytes dst off c)"

definition ScanCharDataSlice ::
    "'r reader \<Rightarrow> string \<Rightarrow> int \<Rightarrow> 'r cursor \<Rightarrow> ((string \<times> nat) \<times> 'r cursor) option" where
  "ScanCharDataSlice read dst maxBytes c =
     (let (err, c) = fillBuffer read 1 c in
      if err \<noteq> None then Some ((dst, 0), c) else scan_loop (char_data_body read maxBytes) ((dst, 0), c))"

definition char_data_into_body ::
    "'r reader \<Rightarrow> int \<Rightarrow> 'r text_state \<Rightarrow> 'r text_state + 'r text_state" where
  "char_data_into_body read maxBytes = (\<lambda>((dst, off), c).
     if \<not> (maxBytes \<le> 0 \<or> int (length dst) < maxBytes) then Inl ((dst, off), c)
     else let (ok, c) = HasByteAt read off c in
       if \<not> ok then Inl ((dst, off), c)
       else let b = buf c ! (bufpos c + off) in
         if byte b < 0x80 then
           (if b = CHR ''<'' \<or> b = CHR ''&'' then Inl ((dst, off), c)
            else if byte b < 0x20 \<and> byte b \<noteq> 0x9 \<and> byte b \<noteq> 0xA \<and> byte b \<noteq> 0xD then Inl ((dst, off), c)
            else
              let c = fill_if (b = CHR '']'' \<and> bufpos c + off + 2 \<ge> buflen c) read (off + 3) c in
              if b = CHR '']'' \<and> bufpos c + off + 2 < buflen c
                 \<and> buf c ! (bufpos c + off + 1) = CHR '']'' \<and> buf c ! (bufpos c + off + 2) = CHR ''>''
              then Inl ((dst, off), c)
              else if b = CHR 0x0D then
                (let c = fill_if (bufpos c + off + 1 \<ge> buflen c) read (off + 2) c; off = off + 1 in
                 Inr ((dst @ [CHR 0x0A],
                       if bufpos c + off < buflen c \<and> buf c ! (bufpos c + off) = CHR 0x0A
                       then off + 1 else off), c))
              else Inr ((dst @ [b], off + 1), c))
         else
           let c = fill_if (buflen c - (bufpos c + off) < 4) read (off + 4) c;
               (r, w) = decode_rune (drop off (view c)) in
           if w = 0 \<or> (r = rune_error \<and> w = 1) then Inl ((dst, off), c)
           else if \<not> IsChar r then Inl ((dst, off), c)
           else Inr ((dst @ take w (drop off (view c)), off + w), c))"

definition ScanCharDataInto ::
    "'r reader \<Rightarrow> string \<Rightarrow> int \<Rightarrow> 'r cursor \<Rightarrow> ((string \<times> nat) \<times> 'r cursor) option" where
  "ScanCharDataInto read dst maxBytes c =
     (let (err, c) = fillBuffer read 1 c in
      if err \<noteq> None then Some ((dst, 0), c)
      else scan_loop (char_data_into_body read maxBytes) ((dst, 0), c))"

end
