(* ===== verification/CursorSpec.thy ===== *)
theory CursorSpec
  imports CursorScan
begin

text \<open>
  The abstract cursor: the unread bytes, the line and the column, with no buffer and no reader.
  Each operation of the cursor has its reference here, a function of the unread bytes.  The
  lemmas on the byte tables, the newline loops and on decoding a prefix of the input connect them
  with the code.
\<close>

subsection \<open>Position\<close>

text \<open>The position behind a byte, and behind a sequence of bytes.\<close>

fun track :: "string \<Rightarrow> nat \<times> nat \<Rightarrow> nat \<times> nat" where
  "track [] pos = pos"
| "track (b # bs) (line, col) = track bs (if b = CHR 0x0A then (line + 1, 1) else (line, col + 1))"

lemma track_append: "track (u @ v) pos = track v (track u pos)"
  by (induction u pos rule: track.induct) simp_all

lemma track_closed:
  "track bs (line, col) =
     (line + count_list bs (CHR 0x0A),
      (case last_index_byte bs (CHR 0x0A) of None \<Rightarrow> col + length bs | Some i \<Rightarrow> length bs - i))"
  by (induction bs arbitrary: line col) (auto split: option.splits)

lemma newline_loop_closed:
  "newline_loop i bs line m =
     (line + count_list bs (CHR 0x0A),
      (case last_index_byte bs (CHR 0x0A) of None \<Rightarrow> m | Some j \<Rightarrow> int (i + j)))"
  by (induction i bs line m rule: newline_loop.induct) (auto split: option.splits)

lemma last_index_less: "last_index_byte bs b = Some i \<Longrightarrow> i < length bs"
  by (induction bs arbitrary: i) (auto split: option.splits if_splits)

lemma last_index_zero: "last_index_byte bs b = None \<Longrightarrow> count_list bs b = 0"
  by (induction bs) (auto split: option.splits if_splits)

subsection \<open>Decoding a prefix\<close>

lemma decode_rune_take: "4 \<le> m \<Longrightarrow> decode_rune (take m s) = decode_rune s"
proof (cases s)
  case (Cons c t)
  moreover assume "4 \<le> m"
  then obtain k where "m = Suc (Suc (Suc (Suc k)))"
    using le_Suc_ex[of 4 m] by (auto simp: eval_nat_numeral)
  ultimately show ?thesis
    by (cases t; cases "tl t"; cases "tl (tl t)") (simp_all add: decode_rune.simps(2) cong: if_cong)
qed simp

subsection \<open>The byte tables\<close>

lemma length_set_class [simp]: "length (set_class is v tbl) = length tbl"
  unfolding set_class_def by (induction "is" arbitrary: tbl) simp_all

lemma nth_set_class [simp]:
  "j < length tbl \<Longrightarrow> set_class is v tbl ! j = (if j \<in> set is then v else tbl ! j)"
  unfolding set_class_def by (induction "is" arbitrary: tbl) auto

definition safe_text :: "char \<Rightarrow> bool" where
  "safe_text b \<longleftrightarrow> (byte b = 0x09 \<or> byte b = 0x0A \<or> (0x20 \<le> byte b \<and> byte b < 0x80)) \<and>
     b \<notin> {CHR ''<'', CHR ''&'', CHR '']''}"

definition ascii_name :: "char \<Rightarrow> bool" where
  "ascii_name b \<longleftrightarrow> (65 \<le> byte b \<and> byte b \<le> 90) \<or> (97 \<le> byte b \<and> byte b \<le> 122) \<or>
     (48 \<le> byte b \<and> byte b \<le> 57) \<or> b \<in> {CHR ''_'', CHR ''-'', CHR ''.''}"

lemma char_byte_iff: "b = CHR ''<'' \<longleftrightarrow> byte b = 60" "b = CHR ''&'' \<longleftrightarrow> byte b = 38"
    "b = CHR '']'' \<longleftrightarrow> byte b = 93" "b = CHR ''_'' \<longleftrightarrow> byte b = 95" "b = CHR ''-'' \<longleftrightarrow> byte b = 45"
    "b = CHR ''.'' \<longleftrightarrow> byte b = 46" "b = CHR '':'' \<longleftrightarrow> byte b = 58" "b = CHR 0x0D \<longleftrightarrow> byte b = 13"
    "b = CHR 0x0A \<longleftrightarrow> byte b = 10"
  by (subst byte_inject[symmetric], simp)+

lemma charData_class: "charDataByteClass ! byte b = (if safe_text b then 0 else 1)"
  by (auto simp: charDataByteClass_def Let_def nth_list_update safe_text_def char_byte_iff
      simp del: upt_rec_numeral)

lemma ncName_class: "ncNameByteClass ! byte b = (if ascii_name b then 0 else 1)"
  by (auto simp: ncNameByteClass_def Let_def nth_list_update ascii_name_def char_byte_iff
      simp del: upt_rec_numeral)

lemma fold_or_zero:
  "fold (\<lambda>k acc. acc OR f k) ks a = (0 :: nat) \<longleftrightarrow> a = 0 \<and> (\<forall>k\<in>set ks. f k = 0)"
  by (induction ks arbitrary: a) (auto simp: or_eq_0_iff)

lemma takeWhile_skip:
  "(\<forall>k<n. P (xs ! k)) \<Longrightarrow> n \<le> length xs \<Longrightarrow>
     length (takeWhile P xs) = n + length (takeWhile P (drop n xs))"
proof (induction n arbitrary: xs)
  case (Suc n)
  then obtain y ys where "xs = y # ys" by (cases xs) auto
  with Suc.IH[of ys] Suc.prems show ?case by force
qed simp

text \<open>The scan gives the length of the run of bytes of class 0, blocks or not.\<close>

lemma scan_singles_run:
  "off \<le> length data \<Longrightarrow>
     scan_singles tbl data off = off + length (takeWhile (\<lambda>b. tbl ! byte b = 0) (drop off data))"
proof (induction tbl data off rule: scan_singles.induct)
  case (1 tbl data off)
  show ?case
  proof (cases "off < length data")
    case True
    then have "drop off data = data ! off # drop (off + 1) data" by (simp add: Cons_nth_drop_Suc)
    then show ?thesis using 1 True by (subst scan_singles.simps) simp
  qed (simp add: scan_singles.simps)
qed

lemma scan_blocks_run:
  "off \<le> length data \<Longrightarrow> off \<le> scan_blocks tbl data off \<and> scan_blocks tbl data off \<le> length data \<and>
     (\<forall>k. off \<le> k \<and> k < scan_blocks tbl data off \<longrightarrow> tbl ! byte (data ! k) = 0)"
proof (induction tbl data off rule: scan_blocks.induct)
  case (1 tbl data off)
  show ?case
  proof (cases "off + 16 \<le> length data \<and> fold (\<lambda>k acc. acc OR tbl ! byte (data ! (off + k))) [0..<16] 0 = 0")
    case True
    then have zero: "tbl ! byte (data ! k) = 0" if "off \<le> k" "k < off + 16" for k
      using that fold_or_zero[of "\<lambda>k. tbl ! byte (data ! (off + k))" "[0..<16]" 0]
      by (metis add_diff_cancel_left' atLeastLessThan_iff atLeastLessThan_upt le_add_diff_inverse
          nat_add_left_cancel_less zero_le)
    have "scan_blocks tbl data off = scan_blocks tbl data (off + 16)"
      using True by (subst scan_blocks.simps) simp
    moreover have "off + 16 \<le> scan_blocks tbl data (off + 16) \<and> scan_blocks tbl data (off + 16) \<le> length data \<and>
       (\<forall>k. off + 16 \<le> k \<and> k < scan_blocks tbl data (off + 16) \<longrightarrow> tbl ! byte (data ! k) = 0)"
      using 1 True by simp
    ultimately show ?thesis using zero by (metis le_trans le_add1 not_le)
  next
    case False
    then have "scan_blocks tbl data off = off" by (subst scan_blocks.simps) auto
    then show ?thesis using 1 by simp
  qed
qed

lemma scan_run:
  "scan_singles tbl data (scan_blocks tbl data 0) = length (takeWhile (\<lambda>b. tbl ! byte b = 0) data)"
  using scan_blocks_run[of 0 data tbl]
  by (simp add: scan_singles_run takeWhile_skip[of "scan_blocks tbl data 0" "\<lambda>b. tbl ! byte b = 0" data])

lemma scanSafeCharDataASCII_run: "scanSafeCharDataASCII data = length (takeWhile safe_text data)"
  by (simp add: scanSafeCharDataASCII_def scan_run charData_class cong: takeWhile_cong)

lemma scanASCIINameChars_run: "scanASCIINameChars data = length (takeWhile ascii_name data)"
  by (simp add: scanASCIINameChars_def scan_run ncName_class cong: takeWhile_cong)

subsection \<open>References of the scans\<close>

text \<open>A rune the decoder rejects: \<open>r == utf8.RuneError && w == 1\<close>.\<close>

abbreviation ill_formed :: "nat \<Rightarrow> nat \<Rightarrow> bool" where
  "ill_formed r w \<equiv> r = rune_error \<and> w = 1"

text \<open>The bytes and runes of the longest run of name characters.\<close>

function nc_tail :: "string \<Rightarrow> nat \<times> nat" where
  "nc_tail s =
     (if s = [] then (0, 0)
      else let (r, w) = decode_rune s in
        if ill_formed r w \<or> \<not> IsNCNameChar r then (0, 0)
        else let (bytes, n) = nc_tail (drop w s) in (w + bytes, n + 1))"
  by pat_completeness auto
termination
  by (relation "measure length") (simp_all add: decode_rune_drop_less del: length_drop)

definition ncname_ref :: "string \<Rightarrow> string \<times> nat" where
  "ncname_ref p =
     (if p = [] then ([], 0)
      else let (r, w) = decode_rune p in
        if ill_formed r w \<or> \<not> IsNCNameStartChar r then ([], 0)
        else let (bytes, n) = nc_tail (drop w p) in (take (w + bytes) p, n + 1))"

fun qname_tail :: "nat option \<Rightarrow> nat \<Rightarrow> string \<Rightarrow> (nat option \<times> nat) option" where
  "qname_tail colon off [] = Some (colon, off)"
| "qname_tail colon off (b # s) =
     (if byte b \<ge> 0x80 then None
      else if b = CHR '':'' then
        (if colon \<noteq> None then None
         else case s of
             [] \<Rightarrow> None
           | b2 # s2 \<Rightarrow> (if ascii_name_start b2 then qname_tail (Some off) (off + 2) s2 else None))
      else if \<not> ascii_name b then Some (colon, off)
      else qname_tail colon (off + 1) s)"

definition qname_ref :: "string \<Rightarrow> qname_bytes" where
  "qname_ref p =
     (case p of
        [] \<Rightarrow> None
      | b # s \<Rightarrow>
          (if ascii_name_start b
           then map_option (\<lambda>(colon, off). qname_slices colon off p) (qname_tail None 1 s)
           else None))"

function attr_tail :: "char \<Rightarrow> int \<Rightarrow> nat \<Rightarrow> string \<Rightarrow> nat option" where
  "attr_tail quote maxBytes off s =
     (if over_budget maxBytes off \<or> s = [] then None
      else if hd s = quote then Some off
      else if hd s = CHR ''&'' \<or> hd s = CHR ''<'' \<or> byte (hd s) < 0x20 then None
      else let (r, w) = decode_rune s in
        if ill_formed r w \<or> \<not> IsChar r then None
        else attr_tail quote maxBytes (off + w) (drop w s))"
  by pat_completeness auto
termination
  by (relation "measure (\<lambda>(q, m, off, s). length s)")
    (simp_all add: decode_rune_drop_less del: length_drop)

definition attr_ref :: "char \<Rightarrow> int \<Rightarrow> string \<Rightarrow> string \<times> nat" where
  "attr_ref quote maxBytes p =
     (case attr_tail quote maxBytes 0 p of None \<Rightarrow> ([], 0) | Some n \<Rightarrow> (take n p, n))"

text \<open>
  One unit of character data at the front of the input: the text it stands for and its bytes, or
  \<^const>\<open>None\<close> where the data stops.  A line break is one unit whatever its spelling.
\<close>

definition text_unit :: "string \<Rightarrow> (string \<times> nat) option" where
  "text_unit s =
     (if s = [] \<or> hd s = CHR ''<'' \<or> hd s = CHR ''&'' \<or> has_prefix s '']]>'' then None
      else if hd s = CHR 0x0D then Some ([CHR 0x0A], if has_prefix s [CHR 0x0D, CHR 0x0A] then 2 else 1)
      else let (r, w) = decode_rune s in
        if ill_formed r w \<or> \<not> IsChar r then None else Some (take w s, w))"

lemma text_unit_pos: "text_unit s = Some (t, w) \<Longrightarrow> s \<noteq> [] \<and> 0 < w"
  using decode_rune_width_pos[of s]
  by (auto simp: text_unit_def split: if_splits prod.splits)

text \<open>The scan with the budget on the input, and the scan with the budget on the output.\<close>

function char_data_ref :: "int \<Rightarrow> string \<Rightarrow> nat \<Rightarrow> string \<Rightarrow> string \<times> nat" where
  "char_data_ref maxBytes dst off s =
     (if reached maxBytes off then (dst, off)
      else case text_unit s of
          None \<Rightarrow> (dst, off)
        | Some (t, w) \<Rightarrow>
            if byte (hd s) \<ge> 0x80 \<and> maxBytes > 0 \<and> off > 0 \<and> int (off + w) > maxBytes then (dst, off)
            else char_data_ref maxBytes (dst @ t) (off + w) (drop w s))"
  by pat_completeness auto
termination
  by (relation "measure (\<lambda>(m, dst, off, s). length s)") (auto dest!: text_unit_pos)

function char_data_into_ref :: "int \<Rightarrow> string \<Rightarrow> nat \<Rightarrow> string \<Rightarrow> string \<times> nat" where
  "char_data_into_ref maxBytes dst off s =
     (if reached maxBytes (length dst) then (dst, off)
      else case text_unit s of
          None \<Rightarrow> (dst, off)
        | Some (t, w) \<Rightarrow> char_data_into_ref maxBytes (dst @ t) (off + w) (drop w s))"
  by pat_completeness auto
termination
  by (relation "measure (\<lambda>(m, dst, off, s). length s)") (auto dest!: text_unit_pos)

declare nc_tail.simps [simp del] attr_tail.simps [simp del]
  char_data_ref.simps [simp del] char_data_into_ref.simps [simp del]

subsection \<open>The two ways of one loop\<close>

lemma scan_loop_total:
  assumes "I s"
    and "\<And>s. I s \<Longrightarrow> (case body s of Inl a \<Rightarrow> Q s a
           | Inr s' \<Rightarrow> I s' \<and> m s' < (m s :: nat) \<and> (\<forall>a. Q s' a \<longrightarrow> Q s a))"
  shows "\<exists>a. scan_loop body s = Some a \<and> Q s a"
  using assms(1)
proof (induction "m s" arbitrary: s rule: less_induct)
  case less
  note step = assms(2)[OF less.prems]
  show ?case
  proof (cases "body s")
    case (Inl a)
    with step show ?thesis by (simp add: scan_loop.simps)
  next
    case (Inr s')
    with step less.hyps[of s'] show ?thesis by (subst scan_loop.simps) auto
  qed
qed

lemma name_byte_is_char:
  "byte b < 0x80 \<Longrightarrow> IsNCNameChar (byte b) \<longleftrightarrow> ascii_name b"
  "byte b < 0x80 \<Longrightarrow> IsNCNameStartChar (byte b) \<longleftrightarrow> ascii_name_start b"
  by (auto simp: IsNCNameChar_def IsNCNameStartChar_def ascii_name_def ascii_name_start_def char_byte_iff)

lemma ascii_name_byte: "ascii_name b \<Longrightarrow> byte b < 0x80"
  by (auto simp: ascii_name_def)

lemma byte_not_error [simp]: "byte b \<noteq> rune_error"
  using byte_less[of b] unfolding rune_error_def by linarith

lemma nc_tail_ascii:
  "ascii_name b \<Longrightarrow> nc_tail (b # s) = (case nc_tail s of (n, k) \<Rightarrow> (1 + n, k + 1))"
  by (subst nc_tail.simps)
    (simp add: decode_rune_ascii ascii_name_byte name_byte_is_char split: prod.splits)

lemma nc_tail_run:
  "list_all ascii_name xs \<Longrightarrow>
     nc_tail (xs @ s) = (case nc_tail s of (n, k) \<Rightarrow> (length xs + n, length xs + k))"
  by (induction xs) (auto simp: nc_tail_ascii split: prod.splits)

lemma nc_tail_stop:
  "byte b < 128 \<Longrightarrow> \<not> ascii_name b \<Longrightarrow> nc_tail (b # s) = (0, 0)"
  by (subst nc_tail.simps) (simp add: decode_rune_ascii name_byte_is_char)

lemma nc_tail_Nil [simp]: "nc_tail [] = (0, 0)"
  by (simp add: nc_tail.simps)

lemma nc_tail_rune:
  assumes "s \<noteq> []" "decode_rune s = (r, w)"
  shows "nc_tail s = (if ill_formed r w \<or> \<not> IsNCNameChar r then (0, 0)
     else (case nc_tail (drop w s) of (n, k) \<Rightarrow> (w + n, k + 1)))"
  using assms by (subst nc_tail.simps) simp

lemma nc_tail_le: "fst (nc_tail s) \<le> length s"
proof (induction s rule: nc_tail.induct)
  case (1 s)
  show ?case
  proof (cases "s = []")
    case False
    obtain r w where d: "decode_rune s = (r, w)" by fastforce
    then have "w \<le> length s" using decode_rune_width_le[of s] by simp
    then show ?thesis using 1[OF False d[symmetric]]
      by (auto simp: nc_tail_rune[OF False d] split: prod.splits)
  qed simp
qed

lemma has_prefix_append: "length b \<le> length v \<Longrightarrow> has_prefix (v @ t) b = has_prefix v b"
  by (simp add: has_prefix_def)

lemma prefix_fits: "has_prefix p b \<Longrightarrow> length b \<le> length p"
  by (auto simp: has_prefix_iff)

lemma attr_tail_stop:
  "over_budget m off \<or> s = [] \<Longrightarrow> attr_tail q m off s = None"
  "\<not> over_budget m off \<Longrightarrow> b = q \<Longrightarrow> attr_tail q m off (b # s) = Some off"
  "b \<noteq> q \<Longrightarrow> b = CHR ''&'' \<or> b = CHR ''<'' \<or> byte b < 0x20 \<Longrightarrow> attr_tail q m off (b # s) = None"
  by (subst attr_tail.simps, simp)+

lemma attr_tail_rune:
  assumes "\<not> over_budget m off" "b \<noteq> q" "b \<noteq> CHR ''&''" "b \<noteq> CHR ''<''" "0x20 \<le> byte b"
    "decode_rune (b # s) = (r, w)"
  shows "attr_tail q m off (b # s) = (if ill_formed r w \<or> \<not> IsChar r then None
     else attr_tail q m (off + w) (drop w (b # s)))"
  using assms by (subst attr_tail.simps) simp

subsection \<open>Units of character data\<close>

lemma text_unit_ascii:
  assumes "byte b < 128" "b \<notin> {CHR ''<'', CHR ''&'', CHR '']'', CHR 0x0D}"
  shows "text_unit (b # s) = (if IsChar (byte b) then Some ([b], 1) else None)"
  using assms by (auto simp: text_unit_def has_prefix_def decode_rune_ascii)

lemma text_unit_stop: "b \<in> {CHR ''<'', CHR ''&''} \<Longrightarrow> text_unit (b # s) = None"
  by (auto simp: text_unit_def)

lemma text_unit_bracket:
  "text_unit (CHR '']'' # s) = (if has_prefix s '']>'' then None else Some ('']'', 1))"
  by (simp add: text_unit_def decode_rune_ascii IsChar_def rune_error_def)

lemma text_unit_return:
  "text_unit (CHR 0x0D # s) = Some ([CHR 0x0A], if has_prefix s [CHR 0x0A] then 2 else 1)"
  by (simp add: text_unit_def has_prefix_def)

lemma text_unit_wide:
  assumes "\<not> byte b < 128" "decode_rune (b # s) = (r, w)"
  shows "text_unit (b # s) = (if ill_formed r w \<or> \<not> IsChar r then None else Some (take w (b # s), w))"
proof -
  have "b \<notin> {CHR ''<'', CHR ''&'', CHR '']'', CHR 0x0D}" using assms(1) by (auto simp: char_byte_iff)
  then show ?thesis using assms(2) by (auto simp: text_unit_def has_prefix_def)
qed

lemma safe_text_unit: "safe_text b \<Longrightarrow> text_unit (b # s) = Some ([b], 1)"
  by (subst text_unit_ascii) (auto simp: safe_text_def IsChar_def char_byte_iff)

lemma unsafe_ascii_char:
  "byte b < 128 \<Longrightarrow> \<not> safe_text b \<Longrightarrow> b \<notin> {CHR ''<'', CHR ''&'', CHR '']'', CHR 0x0D} \<Longrightarrow> \<not> IsChar (byte b)"
  by (auto simp: safe_text_def IsChar_def char_byte_iff)

text \<open>\<open>text_cut s out n\<close>: the first \<open>n\<close> bytes of \<open>s\<close> are whole units and stand for \<open>out\<close>.\<close>

inductive text_cut :: "string \<Rightarrow> string \<Rightarrow> nat \<Rightarrow> bool" where
  nothing: "text_cut s [] 0"
| one_more: "text_unit s = Some (t, w) \<Longrightarrow> text_cut (drop w s) out n \<Longrightarrow> text_cut s (t @ out) (w + n)"

lemma text_cut_append:
  "text_cut s a n \<Longrightarrow> text_cut (drop n s) b m \<Longrightarrow> text_cut s (a @ b) (n + m)"
proof (induction arbitrary: b m rule: text_cut.induct)
  case (one_more s t w out n)
  then have "text_cut (drop w s) (out @ b) (n + m)" by (simp add: add.commute)
  with one_more.hyps(1) have "text_cut s (t @ (out @ b)) (w + (n + m))" by (rule text_cut.one_more)
  then show ?case by (simp add: add.assoc)
qed simp

lemma text_cut_unit: "text_unit s = Some (t, w) \<Longrightarrow> text_cut s t w"
  using text_cut.one_more[OF _ text_cut.nothing] by fastforce

lemma text_cut_run: "list_all safe_text xs \<Longrightarrow> text_cut (xs @ s) xs (length xs)"
proof (induction xs)
  case (Cons x xs)
  then show ?case
    using text_cut.one_more[OF safe_text_unit[of x "xs @ s"], of xs "length xs"] by simp
qed (simp add: text_cut.nothing)

text \<open>The whole run up to the next delimiter, with line ends normalised.\<close>

function run_text :: "string \<Rightarrow> string \<times> nat" where
  "run_text s = (case text_unit s of
       None \<Rightarrow> ([], 0)
     | Some (t, w) \<Rightarrow> (case run_text (drop w s) of (out, n) \<Rightarrow> (t @ out, w + n)))"
  by pat_completeness auto
termination
  by (relation "measure length") (auto dest!: text_unit_pos)

declare run_text.simps [simp del]

lemma run_text_cut: "text_cut s out n \<Longrightarrow> run_text s = (case run_text (drop n s) of (o2, n2) \<Rightarrow> (out @ o2, n + n2))"
proof (induction rule: text_cut.induct)
  case (one_more s t w out n)
  then show ?case by (subst run_text.simps) (auto simp: add.commute split: prod.splits)
qed simp

lemma run_text_stop: "text_unit s = None \<Longrightarrow> run_text s = ([], 0)"
  by (subst run_text.simps) simp

end
