(* ===== verification/CursorOps.thy ===== *)
theory CursorOps
  imports CursorFill CursorSpec
begin

text \<open>
  The operations of the cursor over any source that keeps the contract of \<open>byte_source\<close>: what each
  returns is a function of the unread bytes, and it keeps them (\<open>moved\<close>) or consumes some of
  them (\<open>consumed\<close>, which also says where the position goes).
\<close>

lemma fill_guard [simp]:
  "(if buflen c - bufpos c < n then fillBuffer read n c else (None, c)) = fillBuffer read n c"
  by (simp add: fillBuffer_def)

lemma fill_guard_one [simp]:
  "(if buflen c \<le> bufpos c then fillBuffer read 1 c else (None, c)) = fillBuffer read 1 c"
  "(if buflen c \<le> bufpos c then fillBuffer read (Suc 0) c else (None, c)) = fillBuffer read (Suc 0) c"
  by (simp_all add: fillBuffer_def) linarith+

context byte_source begin

definition consumed :: "nat \<Rightarrow> 'r cursor \<Rightarrow> 'r cursor \<Rightarrow> bool" where
  "consumed n c c' \<longleftrightarrow> good c' \<and> pending c' = drop n (pending c) \<and> fin (inp c') = fin (inp c) \<and>
     (lineno c', column c') = track (take n (pending c)) (lineno c, column c)"

text \<open>What is known after a fill, in one rule.\<close>

lemma fill_cases:
  assumes "good c" "fillBuffer read m c = (err, c')"
  obtains (full) "err = None" "m \<le> length (pending c)" "m \<le> length (view c')" "moved c c'"
  | (short) "err = Some (fin (inp c))" "length (pending c) < m" "view c' = pending c" "ended c'" "moved c c'"
proof (cases err)
  case None
  with fillBuffer_filled[OF assms] fillBuffer_ok_iff[OF assms] show thesis
    by (intro full) (auto simp: filled_def)
next
  case (Some e)
  with fillBuffer_filled[OF assms] have "e = fin (inp c)" "length (pending c) < m" "ended c'" "moved c c'"
    by (auto simp: filled_def)
  moreover from this have "view c' = pending c" by (auto simp: ended_def moved_def pending_def)
  ultimately show thesis using Some by (intro short) auto
qed

lemma has_byte:
  assumes "good c" "HasByteAt read off c = (b, c')"
  shows "moved c c'" "b \<longleftrightarrow> off < length (pending c)" "b \<Longrightarrow> off < length (view c')"
    "\<not> b \<Longrightarrow> view c' = pending c"
proof -
  have "moved c c' \<and> (b \<longleftrightarrow> off < length (pending c)) \<and> (b \<longrightarrow> off < length (view c'))
      \<and> (\<not> b \<longrightarrow> view c' = pending c)"
  proof (cases "bufpos c + off \<ge> buflen c")
    case False
    then have "b" "c' = c" using assms(2) by (auto simp: HasByteAt_def)
    moreover have "off < length (view c)" using False goodD[OF assms(1)] by simp
    ultimately show ?thesis using assms(1) by (simp add: moved_refl pending_def)
  next
    case True
    obtain err c1 where f: "fillBuffer read (off + 1) c = (err, c1)" by fastforce
    show ?thesis using assms(1) f
    proof (cases rule: fill_cases)
      case full
      then have "off < buflen c1 - bufpos c1" using moved_good[OF full(4)] goodD(2) by auto
      then show ?thesis using full True assms(2) f by (auto simp: HasByteAt_def split: if_splits)
    next
      case short
      then show ?thesis using True assms(2) f by (auto simp: HasByteAt_def split: if_splits)
    qed
  qed
  then show "moved c c'" "b \<longleftrightarrow> off < length (pending c)" "b \<Longrightarrow> off < length (view c')"
    "\<not> b \<Longrightarrow> view c' = pending c" by auto
qed

lemma Done_spec:
  assumes "good c" "Done read c = (b, c')"
  shows "moved c c'" "b \<longleftrightarrow> pending c = []" "b \<Longrightarrow> ended c'"
proof -
  have "moved c c' \<and> (b \<longleftrightarrow> pending c = []) \<and> (b \<longrightarrow> ended c')"
  proof (cases "bufpos c < buflen c")
    case True
    then have "view c \<noteq> []" using goodD[OF assms(1)] length_view[of c] by fastforce
    with True assms show ?thesis by (simp add: Done_def moved_refl pending_def)
  next
    case False
    obtain err c1 where f: "fillBuffer read 1 c = (err, c1)" by fastforce
    show ?thesis
      by (cases rule: fill_cases[OF assms(1) f]) (use False assms(2) f in \<open>auto simp: Done_def\<close>)
  qed
  then show "moved c c'" "b \<longleftrightarrow> pending c = []" "b \<Longrightarrow> ended c'" by auto
qed

lemma head_byte: "good c \<Longrightarrow> 1 \<le> length (view c) \<Longrightarrow> buf c ! bufpos c = hd (pending c)"
  using nth_buf[of c 0] by (cases "view c") (auto simp: pending_def)

lemma Peek_spec:
  assumes "good c" "Peek read c = (b, c')"
  shows "moved c c' \<and> b = (if pending c = [] then CHR 0x00 else hd (pending c))"
proof -
  obtain err c1 where f: "fillBuffer read 1 c = (err, c1)" by fastforce
  show ?thesis using assms(1) f
  proof (cases rule: fill_cases)
    case full
    then show ?thesis using assms(2) f head_byte[of c1] moved_good moved_pending
      by (fastforce simp: Peek_def)
  next
    case short
    then show ?thesis using assms(2) f by (auto simp: Peek_def)
  qed
qed

lemma PeekAt_spec:
  assumes "good c" "PeekAt read off c = (b, c')"
  shows "moved c c' \<and> b = (if off < length (pending c) then pending c ! off else CHR 0x00)"
proof -
  obtain b c1 where h: "HasByteAt read off c = (b, c1)" by fastforce
  note s = has_byte[OF assms(1) h]
  have "b \<Longrightarrow> buf c1 ! (bufpos c1 + off) = pending c ! off"
    using nth_buf[OF moved_good[OF s(1)] s(3)] moved_pending[OF s(1)] by simp
  then show ?thesis using assms(2) h s by (auto simp: PeekAt_def split: if_splits)
qed

lemma shows_decode:
  assumes "good c" "shows_bytes (off + 4) c" "off \<le> length (view c)"
  shows "decode_rune (drop off (view c)) = decode_rune (drop off (pending c))"
proof (cases "view c = pending c")
  case False
  with assms(2) have "off + 4 \<le> length (view c)" by (simp add: shows_bytes_def)
  then have "drop off (view c) = take (length (view c) - off) (drop off (pending c))"
    by (simp add: pending_def)
  with \<open>off + 4 \<le> length (view c)\<close> show ?thesis
    using decode_rune_take[of "length (view c) - off" "drop off (pending c)"] by simp
qed simp

lemma PeekRune_spec:
  assumes "good c" "PeekRune read c = (r, c')"
  shows "moved c c' \<and> r = (if pending c = [] then rune_error else fst (decode_rune (pending c)))"
proof -
  obtain err c1 where f: "fillBuffer read 1 c = (err, c1)" by fastforce
  show ?thesis using assms(1) f
  proof (cases rule: fill_cases)
    case full
    then have g: "good c1" and p: "pending c1 = pending c" by (auto simp: moved_def)
    have b: "buf c1 ! bufpos c1 = hd (pending c)" using head_byte[OF g full(3)] p by simp
    obtain x t where xt: "pending c = x # t" using full(2) by (cases "pending c") auto
    show ?thesis
    proof (cases "byte x < 128")
      case True
      then show ?thesis using assms(2) f full b xt by (auto simp: PeekRune_def decode_rune_ascii)
    next
      case False
      obtain err2 c2 where f2: "fillBuffer read 4 c1 = (err2, c2)" by fastforce
      have "moved c1 c2" and "shows_bytes 4 c2"
        using fillBuffer_moved[OF g f2] fillBuffer_shows[OF g f2] by auto
      moreover have "(if buflen c1 - bufpos c1 < 4 then snd (fillBuffer read 4 c1) else c1) = c2"
        using f2 by (auto simp: fillBuffer_def split: if_splits)
      ultimately show ?thesis using assms(2) f full b xt False p
          shows_decode[of c2 0] moved_trans[OF full(4) \<open>moved c1 c2\<close>]
        by (auto simp: PeekRune_def moved_def)
    qed
  next
    case short
    then show ?thesis using assms(2) f by (auto simp: PeekRune_def)
  qed
qed

lemma PeekString_spec:
  assumes "good c" "PeekString read n c = (s, c')"
  shows "moved c c' \<and> s = (if n \<le> length (pending c) then take n (pending c) else [])"
proof -
  obtain err c1 where f: "fillBuffer read n c = (err, c1)" by fastforce
  show ?thesis using assms(1) f
  proof (cases rule: fill_cases)
    case full
    then have g: "good c1" and p: "pending c1 = pending c" by (auto simp: moved_def)
    have "n \<le> buflen c1 - bufpos c1" using full(3) goodD[OF g] by simp
    then have "bufpos c1 + n \<le> buflen c1" using goodD(1)[OF g] by linarith
    then show ?thesis using assms(2) f full take_buf[OF g full(3)] p by (auto simp: PeekString_def)
  next
    case short
    then show ?thesis using assms(2) f by (auto simp: PeekString_def)
  qed
qed

lemma skip_consumed:
  assumes "good c" "n \<le> length (view c)" "c' = c\<lparr>lineno := l, column := k, bufpos := bufpos c + n\<rparr>"
    "(l, k) = track (take n (pending c)) (lineno c, column c)"
  shows "consumed n c c'"
proof -
  have n: "n \<le> buflen c - bufpos c" using assms(2) goodD(2)[OF assms(1)] by simp
  have "view c' = drop n (view c)" by (simp add: assms(3) view_def add.commute)
  then have "pending c' = drop n (pending c)"
    using assms(2) by (simp add: pending_def assms(3))
  then show ?thesis using assms n by (auto simp: consumed_def good_def)
qed

lemma consumed_after: "moved c c1 \<Longrightarrow> consumed n c1 c' \<Longrightarrow> consumed n c c'"
  by (auto simp: consumed_def moved_def)

subsection \<open>Consuming\<close>

lemma step_one_consumed:
  assumes "good c" "1 \<le> length (view c)"
  shows "consumed 1 c (step_one c)"
proof -
  obtain b t where "pending c = b # t" using assms(2) by (cases "pending c") (auto simp: pending_def)
  moreover from this have "buf c ! bufpos c = b" using head_byte[OF assms] by simp
  ultimately have "(l, k) = track (take 1 (pending c)) (lineno c, column c) \<Longrightarrow>
      step_one c = c\<lparr>lineno := l, column := k, bufpos := bufpos c + 1\<rparr>" for l k
    by (auto simp: step_one_def)
  then show ?thesis
    by (metis assms skip_consumed surj_pair)
qed

text \<open>The two bulk updates are the position behind the segment.\<close>

lemma bulk_column:
  assumes "(line, m) = newline_loop 0 seg l (-1)"
  shows "(line, if m \<ge> 0 then nat (int (length seg) - m) else k + length seg) = track seg (l, k)"
  using assms last_index_less[of seg "CHR 0x0A"]
  by (auto simp: newline_loop_closed track_closed split: option.splits)

lemma Advance_spec:
  assumes "good c" "Advance read n c = (err, c')"
  shows "if n \<le> length (pending c) then err = None \<and> consumed n c c'
         else err = Some (fin (inp c)) \<and> moved c c'"
proof -
  obtain e c1 where f: "fillBuffer read n c = (e, c1)" by fastforce
  show ?thesis using assms(1) f
  proof (cases rule: fill_cases)
    case full
    then have g: "good c1" by (auto simp: moved_def)
    have "err = None \<and> consumed n c1 c'"
    proof (cases "n = 1")
      case True
      with assms(2) f full step_one_consumed[OF g] show ?thesis by (auto simp: Advance_def)
    next
      case False
      have seg: "take n (drop (bufpos c1) (buf c1)) = take n (pending c1)" "length (take n (pending c1)) = n"
        using take_buf[OF g full(3)] full(3) by (auto simp: pending_def)
      obtain l m where nl: "(l, m) = newline_loop 0 (take n (pending c1)) (lineno c1) (-1)"
        by (metis surj_pair)
      define k where "k = (if m \<ge> 0 then nat (int n - m) else column c1 + n)"
      have "length (take n (drop (bufpos c1) (buf c1))) = n"
        unfolding seg(1) by (rule seg(2))
      then have "k = (if m \<ge> 0 then nat (int (length (take n (drop (bufpos c1) (buf c1)))) - m)
          else column c1 + n)"
        by (simp only: k_def)
      then have "c' = c1\<lparr>lineno := l, column := k, bufpos := bufpos c1 + n\<rparr> \<and> err = None"
        using assms(2) f full False seg(1) nl[symmetric]
        by (auto simp: Advance_def Let_def)
      moreover have "(l, k) = track (take n (pending c1)) (lineno c1, column c1)"
        using bulk_column[OF nl, of "column c1"] unfolding seg(2) k_def[symmetric] .
      ultimately show ?thesis using skip_consumed[OF g full(3)] by metis
    qed
    with full show ?thesis by (auto intro: consumed_after)
  next
    case short
    then show ?thesis using assms(2) f by (auto simp: Advance_def)
  qed
qed

lemma AdvanceFast_spec:
  assumes "good c" "AdvanceFast read n c = (err, c')"
  shows "if n \<le> length (pending c) then err = None \<and> consumed n c c'
         else err = Some (fin (inp c)) \<and> moved c c'"
proof -
  obtain e c1 where f: "fillBuffer read n c = (e, c1)" by fastforce
  show ?thesis using assms(1) f
  proof (cases rule: fill_cases)
    case full
    then have g: "good c1" by (auto simp: moved_def)
    have "err = None \<and> consumed n c1 c'"
    proof (cases "n = 1")
      case True
      with assms(2) f full step_one_consumed[OF g] show ?thesis by (auto simp: AdvanceFast_def)
    next
      case False
      have seg: "take n (drop (bufpos c1) (buf c1)) = take n (pending c1)" "length (take n (pending c1)) = n"
        using take_buf[OF g full(3)] full(3) by (auto simp: pending_def)
      obtain l k where t: "(l, k) = track (take n (pending c1)) (lineno c1, column c1)" by (metis surj_pair)
      then have "c' = c1\<lparr>lineno := l, column := k, bufpos := bufpos c1 + n\<rparr> \<and> err = None"
        using assms(2) f full False seg
        by (auto simp: AdvanceFast_def Let_def track_closed last_index_zero split: option.splits)
      with skip_consumed[OF g full(3) _ t] show ?thesis by blast
    qed
    with full show ?thesis by (auto intro: consumed_after)
  next
    case short
    then show ?thesis using assms(2) f by (auto simp: AdvanceFast_def)
  qed
qed

subsection \<open>Prefixes\<close>

lemma HasPrefix_spec:
  assumes "good c" "HasPrefix read b c = (res, c')"
  shows "moved c c' \<and> (res \<longleftrightarrow> has_prefix (pending c) b)"
proof -
  obtain e c1 where f: "fillBuffer read (length b) c = (e, c1)" by fastforce
  show ?thesis using assms(1) f
  proof (cases rule: fill_cases)
    case full
    then have "has_prefix (view c1) b = has_prefix (pending c) b"
      using has_prefix_append[OF full(3), of "rest (inp c1)"] moved_pending[OF full(4)]
      by (simp add: pending_def)
    with full show ?thesis using assms(2) f by (auto simp: HasPrefix_def)
  next
    case short
    then have "\<not> has_prefix (pending c) b" by (auto dest: prefix_fits)
    with short show ?thesis using assms(2) f by (auto simp: HasPrefix_def)
  qed
qed

lemma same_bytes_prefix:
  assumes "good c" "length s \<le> length (view c)"
  shows "same_bytes (drop (bufpos c) (buf c)) s = has_prefix (pending c) s"
proof -
  have "bufpos c \<le> buflen c" "buflen c \<le> length (buf c)" "length s \<le> buflen c - bufpos c" using assms by auto
  then have len: "length s \<le> length (drop (bufpos c) (buf c))" by simp
  then have "same_bytes d s = (take (length s) d = s)" if "d = drop (bufpos c) (buf c)" for d
    using list_eq_iff_nth_eq[of "take (length s) d" s] that
    by (auto simp: same_bytes_def list_all_iff)
  then show ?thesis by (simp add: take_buf[OF assms] has_prefix_def)
qed

lemma string_fill:
  assumes "good c" "fillBuffer read (length s) c = (e, c1)"
  shows "moved c c1"
    "(e \<noteq> None \<or> buflen c1 - bufpos c1 < length s) \<Longrightarrow> \<not> has_prefix (pending c) s"
    "\<not> (e \<noteq> None \<or> buflen c1 - bufpos c1 < length s) \<Longrightarrow>
       same_bytes (drop (bufpos c1) (buf c1)) s = has_prefix (pending c) s \<and> length s \<le> length (view c1)"
proof -
  show m: "moved c c1" using fillBuffer_moved[OF assms] .
  then have g: "good c1" and p: "pending c1 = pending c" by (auto simp: moved_def)
  show "\<not> has_prefix (pending c) s" if "e \<noteq> None \<or> buflen c1 - bufpos c1 < length s"
    using fill_cases[OF assms] that goodD(2)[OF g] length_view[of c1] prefix_fits[of "pending c" s] by fastforce
  show "same_bytes (drop (bufpos c1) (buf c1)) s = has_prefix (pending c) s \<and> length s \<le> length (view c1)"
    if "\<not> (e \<noteq> None \<or> buflen c1 - bufpos c1 < length s)"
    using that goodD(2)[OF g] same_bytes_prefix[OF g] p by simp
qed

lemma HasPrefixString_spec:
  assumes "good c" "HasPrefixString read s c = (res, c')"
  shows "moved c c' \<and> (res \<longleftrightarrow> has_prefix (pending c) s)"
proof -
  obtain e c1 where f: "fillBuffer read (length s) c = (e, c1)" by fastforce
  show ?thesis using string_fill[OF assms(1) f] assms(2) f
    by (auto simp: HasPrefixString_def Let_def split: if_splits)
qed

lemma Consume_spec:
  assumes "good c" "Consume read b c = (res, c')"
  shows "res = has_prefix (pending c) b \<and> (if res then consumed (length b) c c' else moved c c')"
proof -
  obtain e c1 where h: "HasPrefix read b c = (e, c1)" by fastforce
  have m: "moved c c1" and e: "e \<longleftrightarrow> has_prefix (pending c) b" using HasPrefix_spec[OF assms(1) h] by auto
  obtain x c2 where a: "Advance read (length b) c1 = (x, c2)" by fastforce
  have "has_prefix (pending c) b \<Longrightarrow> consumed (length b) c c2"
    using Advance_spec[OF moved_good[OF m] a] moved_pending[OF m] consumed_after[OF m]
    by (auto dest: prefix_fits)
  then show ?thesis using assms(2) h a m e by (auto simp: Consume_def split: if_splits)
qed

lemma ConsumeString_spec:
  assumes "good c" "ConsumeString read s c = (res, c')"
  shows "res = has_prefix (pending c) s \<and> (if res then consumed (length s) c c' else moved c c')"
proof -
  obtain e c1 where f: "fillBuffer read (length s) c = (e, c1)" by fastforce
  note k = string_fill[OF assms(1) f]
  obtain x c2 where a: "AdvanceFast read (length s) c1 = (x, c2)" by fastforce
  have "has_prefix (pending c) s \<Longrightarrow> x = None \<and> consumed (length s) c c2"
    using AdvanceFast_spec[OF moved_good[OF k(1)] a] moved_pending[OF k(1)] consumed_after[OF k(1)]
    by (auto dest: prefix_fits)
  then show ?thesis using assms(2) f a k by (auto simp: ConsumeString_def Let_def split: if_splits)
qed

end

end
