(* ===== verification/CursorRefine.thy ===== *)
theory CursorRefine
  imports CursorOps
begin

text \<open>
  The scans over any source that keeps the contract: each loop ends, leaves the unread bytes
  alone and gives what its reference gives for them.  The one exception is
  \<open>ScanCharDataSlice\<close>, which also ends where the buffered bytes happen to end behind a line break
  or a four-byte character: it gives whole units of the run, and at least one when there is one.
\<close>

lemma qname_tail_colon:
  "qname_tail colon off s = Some (colon', off') \<Longrightarrow> (\<forall>i. colon = Some i \<longrightarrow> i < off) \<Longrightarrow>
     off \<le> off' \<and> (\<forall>i. colon' = Some i \<longrightarrow> i < off')"
  by (induction colon off s rule: qname_tail.induct)
    (auto split: if_splits list.splits intro: less_SucI dest: Suc_leD)

lemma drop_next: "drop off p = b # s \<Longrightarrow> drop (off + 1) p = s" "drop off p = b # s \<Longrightarrow> drop (Suc off) p = s"
  by (metis Suc_eq_plus1 drop_Suc list.sel(3) tl_drop)+

context byte_source begin

subsection \<open>Bytes and runes at an offset\<close>

lemma fill_if_shows:
  assumes "good c" "\<not> b \<Longrightarrow> m \<le> length (view c)" "c' = fill_if b read m c"
  shows "moved c c'" "shows_bytes m c'"
proof -
  obtain e c1 where f: "fillBuffer read m c = (e, c1)" by fastforce
  show "moved c c'" "shows_bytes m c'"
    using assms f fillBuffer_moved[OF assms(1) f] fillBuffer_shows[OF assms(1) f] moved_refl[OF assms(1)]
    by (auto simp: fill_if_def shows_bytes_def)
qed

lemma shows_length:
  "moved c c' \<Longrightarrow> shows_bytes m c' \<Longrightarrow> off \<le> m \<Longrightarrow> off \<le> length (pending c) \<Longrightarrow> off \<le> length (view c')"
  by (auto simp: shows_bytes_def moved_def)

lemma pending_length_view: "good c \<Longrightarrow> length (view c) \<le> length (pending c)"
  by (simp add: pending_def)

lemma drop_pending: "off \<le> length (view c) \<Longrightarrow> drop off (pending c) = drop off (view c) @ rest (inp c)"
  by (simp add: pending_def)

lemma view_nth: "off < length (view c) \<Longrightarrow> view c ! off = pending c ! off"
  by (simp add: pending_def nth_append)

lemma rune_at:
  assumes "good c" "moved c c'" "shows_bytes (off + 4) c'" "off \<le> length (pending c)"
    "decode_rune (drop off (view c')) = (r, w)"
  shows "decode_rune (drop off (pending c)) = (r, w)" "off + w \<le> length (view c')"
    "off + w \<le> length (pending c)" "take w (drop off (view c')) = take w (drop off (pending c))"
proof -
  have g: "good c'" and p: "pending c' = pending c" using assms(2) by (auto simp: moved_def)
  have le: "off \<le> length (view c')" using shows_length[OF assms(2,3) _ assms(4)] by simp
  show d: "decode_rune (drop off (pending c)) = (r, w)"
    using shows_decode[OF g assms(3) le] assms(5) p by simp
  have "w \<le> length (drop off (view c'))" using decode_rune_width_le[of "drop off (view c')"] assms(5) by simp
  with le show v: "off + w \<le> length (view c')" by simp
  with pending_length_view[OF g] p show "off + w \<le> length (pending c)" by simp
  show "take w (drop off (view c')) = take w (drop off (pending c))"
    using v drop_pending[OF le] p by simp
qed

text \<open>The byte the loops look at, and the bytes from there on.\<close>

lemma byte_at:
  assumes "good c" "HasByteAt read off c = (True, c')"
  obtains b s where "moved c c'" "off < length (view c')" "buf c' ! (bufpos c' + off) = b"
    "view c' ! off = b" "drop off (pending c) = b # s"
proof -
  note h = has_byte[OF assms]
  have g: "good c'" and p: "pending c' = pending c" using h(1) by (auto simp: moved_def)
  have "drop off (pending c) = pending c ! off # drop (off + 1) (pending c)"
    using h(2) by (simp add: Cons_nth_drop_Suc)
  moreover have "buf c' ! (bufpos c' + off) = pending c ! off" using nth_buf[OF g h(3)] p by simp
  ultimately show thesis using that[OF h(1) h(3)] view_nth[OF h(3)] p h(3) by simp
qed

text \<open>A scan ends when every turn of its loop gets on within the unread bytes.\<close>

lemma scan_total:
  assumes step: "\<And>s. good (cur s) \<Longrightarrow> pos s \<le> length (pending (cur s)) \<Longrightarrow> J s \<Longrightarrow>
      (case body s of
         Inl a \<Rightarrow> Q s a
       | Inr s' \<Rightarrow> moved (cur s) (cur s') \<and> pos s < pos s' \<and> pos s' \<le> length (pending (cur s)) \<and>
           J s' \<and> (\<forall>a. Q s' a \<longrightarrow> Q s a))"
    and start: "good (cur s)" "pos s \<le> length (pending (cur s))" "J s"
  shows "\<exists>a. scan_loop body s = Some a \<and> Q s a"
proof (rule scan_loop_total[where m = "\<lambda>s. length (pending (cur s)) - pos s"
      and I = "\<lambda>s. good (cur s) \<and> pos s \<le> length (pending (cur s)) \<and> J s"])
  fix s assume I: "good (cur s) \<and> pos s \<le> length (pending (cur s)) \<and> J s"
  then show "case body s of Inl a \<Rightarrow> Q s a
      | Inr s' \<Rightarrow> (good (cur s') \<and> pos s' \<le> length (pending (cur s')) \<and> J s') \<and>
          length (pending (cur s')) - pos s' < length (pending (cur s)) - pos s \<and> (\<forall>a. Q s' a \<longrightarrow> Q s a)"
    using step[of s] by (auto simp: moved_def split: sum.splits)
qed (use start in auto)

subsection \<open>Names\<close>

definition ncname_end :: "'r ncname_state \<Rightarrow> 'r ncname_state \<Rightarrow> bool" where
  "ncname_end = (\<lambda>(off, n, c) (off', n', c').
     moved c c' \<and> off' \<le> length (view c') \<and>
     (off', n') = (case nc_tail (drop off (pending c)) of (b, k) \<Rightarrow> (off + b, n + k)))"

lemma ncname_end_step:
  assumes "moved c c1" "ncname_end (off + b, n + k, c1) res"
    "nc_tail (drop off (pending c)) = (case nc_tail (drop (off + b) (pending c)) of (b2, k2) \<Rightarrow> (b + b2, k + k2))"
  shows "ncname_end (off, n, c) res"
  using assms moved_pending[OF assms(1)] moved_trans[OF assms(1)]
  by (auto simp: ncname_end_def split: prod.splits)

lemma ncname_body_step:
  assumes g: "good c" and le: "off \<le> length (pending c)"
  shows "case ncname_body read (off, n, c) of
      Inl a \<Rightarrow> ncname_end (off, n, c) a
    | Inr (off', n', c') \<Rightarrow> moved c c' \<and> off < off' \<and> off' \<le> length (pending c) \<and>
        (\<forall>a. ncname_end (off', n', c') a \<longrightarrow> ncname_end (off, n, c) a)"
proof -
  obtain ok c1 where h: "HasByteAt read off c = (ok, c1)" by fastforce
  note hb = has_byte[OF g h]
  show ?thesis
  proof (cases ok)
    case False
    then have "ncname_body read (off, n, c) = Inl (off, n, c1)" using h by (simp add: ncname_body_def)
    moreover have "ncname_end (off, n, c) (off, n, c1)"
      using hb False le by (auto simp: ncname_end_def)
    ultimately show ?thesis by simp
  next
    case True
    note off = hb(3)[OF True]
    have g1: "good c1" and p1: "pending c1 = pending c" using hb(1) by (auto simp: moved_def)
    define run where "run = takeWhile ascii_name (drop off (view c1))"
    define off1 where "off1 = off + length run"
    define v where "v = drop off1 (view c1)"
    have "v = drop (length run) (drop off (view c1))" by (simp add: v_def off1_def add.commute)
    then have split: "drop off (view c1) = run @ v"
      using takeWhile_dropWhile_id[of ascii_name "drop off (view c1)"]
      by (simp only: run_def dropWhile_eq_drop)
    have run: "list_all ascii_name run" by (auto simp: run_def list_all_iff dest: set_takeWhileD)
    have off1: "off1 \<le> length (view c1)" using split off by (auto simp: off1_def dest: arg_cong[of _ _ length])
    have tl: "drop off (pending c) = run @ drop off1 (pending c)"
      using split drop_pending[of off c1] drop_pending[OF off1] off p1 v_def by simp
    have nc: "nc_tail (drop off (pending c)) = (case nc_tail (drop off1 (pending c)) of
        (b2, k2) \<Rightarrow> (length run + b2, length run + k2))"
      using nc_tail_run[OF run, of "drop off1 (pending c)"] tl by simp
    have le1: "off1 \<le> length (pending c)" using off1 pending_length_view[OF g1] p1 by simp
    have len: "scanASCIINameChars (drop off (view c1)) = length run"
      by (simp add: scanASCIINameChars_run run_def)
    have cont: "ncname_end (off1, n + length run, c1) a \<Longrightarrow> ncname_end (off, n, c) a" for a
      using ncname_end_step[OF hb(1), of off "length run" n "length run"] nc by (simp add: off1_def)
    have body: "ncname_body read (off, n, c) =
        (if length run > 0 \<and> bufpos c1 + off1 \<ge> buflen c1 then Inr (off1, n + length run, c1)
         else if byte (buf c1 ! (bufpos c1 + off1)) < 0x80 then Inl (off1, n + length run, c1)
         else case fillBuffer read (off1 + 4) c1 of (e, c2) \<Rightarrow>
           case decode_rune (drop off1 (view c2)) of (r, w) \<Rightarrow>
             if ill_formed r w \<or> \<not> IsNCNameChar r then Inl (off1, n + length run, c2)
             else Inr (off1 + w, n + length run + 1, c2))"
      by (cases "run = []") (simp_all add: ncname_body_def Let_def h True len off1_def split: prod.splits)
    show ?thesis
    proof (cases "length run > 0 \<and> bufpos c1 + off1 \<ge> buflen c1")
      case exhausted: True
      have "ncname_body read (off, n, c) = Inr (off1, n + length run, c1)"
        using exhausted by (subst body) simp
      then show ?thesis using cont hb(1) le1 exhausted by (auto simp: off1_def)
    next
      case False
      have "off1 < length (view c1)"
        using False off off1 goodD[OF g1] by (cases "run = []") (auto simp: off1_def)
      then obtain b s where bs: "drop off1 (pending c) = b # s" "view c1 ! off1 = b"
          "buf c1 ! (bufpos c1 + off1) = b"
        using nth_buf[OF g1, of off1] view_nth[of off1 c1] p1 le1 pending_length_view[OF g1]
        by (metis Cons_nth_drop_Suc le_trans less_le_trans)
      have nb: "\<not> ascii_name b"
      proof -
        have "v = b # drop (Suc off1) (view c1)"
          using Cons_nth_drop_Suc[OF \<open>off1 < length (view c1)\<close>] bs(2) by (simp add: v_def)
        moreover have "v = dropWhile ascii_name (drop off (view c1))"
          using split takeWhile_dropWhile_id[of ascii_name "drop off (view c1)"] by (metis run_def same_append_eq)
        ultimately show ?thesis by (metis dropWhile_eq_Cons_conv)
      qed
      show ?thesis
      proof (cases "byte b < 0x80")
        case True': True
        have "ncname_body read (off, n, c) = Inl (off1, n + length run, c1)"
          using False bs(3) True' by (subst body) auto
        moreover have "nc_tail (drop off1 (pending c1)) = (0, 0)"
          using nc_tail_stop True' nb bs(1) p1 by simp
        then have "ncname_end (off1, n + length run, c1) (off1, n + length run, c1)"
          using off1 moved_refl[OF g1] by (simp add: ncname_end_def)
        ultimately show ?thesis using cont by simp
      next
        case wide: False
        obtain e c2 where f: "fillBuffer read (off1 + 4) c1 = (e, c2)" by fastforce
        obtain r w where d: "decode_rune (drop off1 (view c2)) = (r, w)" by fastforce
        have m2: "moved c1 c2" and sh: "shows_bytes (off1 + 4) c2"
          using fillBuffer_moved[OF g1 f] fillBuffer_shows[OF g1 f] by auto
        have "off1 \<le> length (pending c1)" using le1 p1 by simp
        note ra = rune_at[OF g1 m2 sh this d]
        have body: "ncname_body read (off, n, c) =
            (if ill_formed r w \<or> \<not> IsNCNameChar r then Inl (off1, n + length run, c2)
             else Inr (off1 + w, n + length run + 1, c2))"
          using False bs(3) wide f d by (subst body) auto
        have ne: "drop off1 (pending c1) \<noteq> []" using bs(1) p1 by simp
        have "0 < w" using decode_rune_width_pos[OF ne] ra(1) by simp
        note rn = nc_tail_rune[OF ne ra(1)]
        show ?thesis
        proof (cases "ill_formed r w \<or> \<not> IsNCNameChar r")
          case True
          then have "ncname_end (off1, n + length run, c1) (off1, n + length run, c2)"
            using m2 rn ra(2) by (auto simp: ncname_end_def)
          then show ?thesis using body True cont by simp
        next
          case False
          then have "nc_tail (drop off1 (pending c1)) = (case nc_tail (drop (off1 + w) (pending c1)) of
              (b2, k2) \<Rightarrow> (w + b2, 1 + k2))"
            using rn by (auto simp: add.commute split: prod.splits)
          then have "ncname_end (off1, n + length run, c1) a"
            if "ncname_end (off1 + w, n + length run + 1, c2) a" for a
            using ncname_end_step[OF m2 that] by simp
          then have "\<forall>a. ncname_end (off1 + w, n + length run + 1, c2) a \<longrightarrow> ncname_end (off, n, c) a"
            using cont by blast
          moreover have "ncname_body read (off, n, c) = Inr (off1 + w, n + length run + 1, c2)"
            using body False by auto
          ultimately show ?thesis
            using moved_trans[OF hb(1) m2] ra(3) p1 \<open>0 < w\<close> by (simp add: off1_def)
        qed
      qed
    qed
  qed
qed

lemma ncname_loop_total:
  assumes "good c" "off \<le> length (pending c)"
  shows "\<exists>a. scan_loop (ncname_body read) (off, n, c) = Some a \<and> ncname_end (off, n, c) a"
proof (rule scan_total[where cur = "\<lambda>s. snd (snd s)" and pos = fst and J = "\<lambda>s. True"], goal_cases)
  case (1 s)
  then show ?case
    using ncname_body_step[of "snd (snd s)" "fst s" "fst (snd s)"] by (auto split: sum.splits prod.splits)
qed (use assms in auto)

lemma ScanNCNameBytes_spec:
  assumes "good c"
  shows "\<exists>c'. ScanNCNameBytes read c = Some (ncname_ref (pending c), c') \<and> moved c c'"
proof -
  obtain e c1 where f: "fillBuffer read 1 c = (e, c1)" by fastforce
  show ?thesis using assms f
  proof (cases rule: fill_cases)
    case short
    then have "pending c = []" by simp
    then show ?thesis using short f by (simp add: ScanNCNameBytes_def ncname_ref_def)
  next
    case full
    have g: "good c1" and p: "pending c1 = pending c" using full(4) by (auto simp: moved_def)
    obtain x t where xt: "pending c = x # t" using full(2) by (cases "pending c") auto
    have b: "buf c1 ! bufpos c1 = x" using head_byte[OF g full(3)] p xt by simp
    obtain c2 r w where c2: "moved c1 c2" and d: "decode_rune (pending c) = (r, w)" and w: "w \<le> length (pending c2)"
      and scan: "ScanNCNameBytes read c =
        (if ill_formed r w \<or> \<not> IsNCNameStartChar r then Some (([], 0), c2)
         else map_option (\<lambda>(off, nRunes, c). ((take off (view c), nRunes), c))
               (scan_loop (ncname_body read) (w, 1, c2)))"
    proof (cases "byte x < 0x80")
      case True
      show thesis
        by (rule that[OF moved_refl[OF g], of "byte x" 1])
          (use True f full xt b p in \<open>simp_all add: ScanNCNameBytes_def Let_def decode_rune_ascii name_byte_is_char\<close>)
    next
      case False
      obtain e2 c2 where f2: "fillBuffer read 4 c1 = (e2, c2)" by fastforce
      obtain r w where dv: "decode_rune (view c2) = (r, w)" by fastforce
      have m2: "moved c1 c2" "shows_bytes (0 + 4) c2"
        using fillBuffer_moved[OF g f2] fillBuffer_shows[OF g f2] by auto
      note ra = rune_at[OF g m2, of r w]
      show thesis
        by (rule that[OF m2(1), of r w])
          (use False f full xt b p f2 dv ra moved_pending[OF m2(1)] in \<open>simp_all add: ScanNCNameBytes_def Let_def\<close>)
    qed
    have m: "moved c c2" using full(4) c2 by (rule moved_trans)
    have p2: "pending c2 = pending c" using m by (rule moved_pending)
    show ?thesis
    proof (cases "ill_formed r w \<or> \<not> IsNCNameStartChar r")
      case True
      then have "ncname_ref (pending c) = ([], 0)" using xt d by (auto simp: ncname_ref_def)
      then show ?thesis using scan True m by auto
    next
      case False
      obtain off n c3 where l: "scan_loop (ncname_body read) (w, 1, c2) = Some (off, n, c3)"
          "ncname_end (w, 1, c2) (off, n, c3)"
        using ncname_loop_total[OF moved_good[OF c2] w, of 1] by auto
      obtain bs k where nt: "nc_tail (drop w (pending c)) = (bs, k)" by fastforce
      have m3: "moved c2 c3" and o: "off = w + bs" "n = 1 + k" "off \<le> length (view c3)"
        using l(2) nt p2 by (auto simp: ncname_end_def)
      have "take off (view c3) = take off (pending c)"
        using take_view[OF o(3)] moved_pending[OF m3] p2 by simp
      moreover have "ncname_ref (pending c) = (take (w + bs) (pending c), k + 1)"
        using False xt d nt by (simp add: ncname_ref_def)
      ultimately show ?thesis using scan False l(1) o moved_trans[OF m m3] by simp
    qed
  qed
qed

subsection \<open>Qualified names\<close>

definition qname_end :: "'r qname_state \<Rightarrow> (nat option \<times> nat) option \<times> 'r cursor \<Rightarrow> bool" where
  "qname_end = (\<lambda>(colon, off, c) (res, c').
     moved c c' \<and> res = qname_tail colon off (drop off (pending c)) \<and>
     (case res of None \<Rightarrow> True | Some (colon', off') \<Rightarrow> off' \<le> length (view c')))"

lemma qname_end_moved:
  "moved c c1 \<Longrightarrow> qname_end (colon', off', c1) a \<Longrightarrow>
     qname_tail colon off (drop off (pending c)) = qname_tail colon' off' (drop off' (pending c)) \<Longrightarrow>
     qname_end (colon, off, c) a"
  using moved_trans moved_pending by (fastforce simp: qname_end_def split: prod.splits)

lemma qname_body_step:
  assumes g: "good c" and le: "off \<le> length (pending c)"
  shows "case qname_body read (colon, off, c) of
      Inl a \<Rightarrow> qname_end (colon, off, c) a
    | Inr (colon', off', c') \<Rightarrow> moved c c' \<and> off < off' \<and> off' \<le> length (pending c) \<and>
        (\<forall>a. qname_end (colon', off', c') a \<longrightarrow> qname_end (colon, off, c) a)"
proof -
  obtain ok c1 where h: "HasByteAt read off c = (ok, c1)" by fastforce
  note hb = has_byte[OF g h]
  show ?thesis
  proof (cases ok)
    case False
    then show ?thesis using h hb le by (simp add: qname_body_def qname_end_def)
  next
    case True
    have "HasByteAt read off c = (True, c1)" using h True by simp
    from byte_at[OF g this] obtain b s where m: "moved c c1" and off: "off < length (view c1)"
      and b: "buf c1 ! (bufpos c1 + off) = b" and bs: "drop off (pending c) = b # s" .
    have s: "drop (off + 1) (pending c) = s" using bs by (rule drop_next)
    have lt: "off < length (pending c)" using hb(2) True by simp
    show ?thesis
    proof (cases "byte b < 0x80 \<and> b = CHR '':'' \<and> colon = None")
      case False
      have "\<forall>a. qname_end (colon, off + 1, c1) a \<longrightarrow> qname_end (colon, off, c) a"
        if "byte b < 0x80" "b \<noteq> CHR '':''" "ascii_name b"
        using that qname_end_moved[OF m, of colon "off + 1" _ colon off] bs s by simp
      then show ?thesis
        using False h True b bs m off lt
        by (auto simp: qname_body_def Let_def ncName_class qname_end_def)
    next
      case colon: True
      obtain ok2 c2 where h2: "HasByteAt read (off + 1) c1 = (ok2, c2)" by fastforce
      have p: "pending c1 = pending c" using m by (rule moved_pending)
      note hb2 = has_byte[OF moved_good[OF m] h2]
      have m2: "moved c c2" using m hb2(1) by (rule moved_trans)
      show ?thesis
      proof (cases ok2)
        case False
        then have "s = []" using hb2(2) p s by auto
        then show ?thesis using False h True b bs h2 m2 colon
          by (simp add: qname_body_def Let_def qname_end_def)
      next
        case True2: True
        have "HasByteAt read (off + 1) c1 = (True, c2)" using h2 True2 by simp
        from byte_at[OF moved_good[OF m] this] obtain b2 s2 where
          b2: "buf c2 ! (bufpos c2 + (off + 1)) = b2" and bs2: "drop (off + 1) (pending c1) = b2 # s2" .
        have s2: "s = b2 # s2" "drop (off + 2) (pending c) = s2"
          using bs2 p s drop_next(1)[OF bs2] by simp_all
        have "off + 2 \<le> length (pending c)" using hb2(2) True2 p by simp
        moreover have "\<forall>a. qname_end (Some off, off + 2, c2) a \<longrightarrow> qname_end (None, off, c) a"
          if "ascii_name_start b2"
          using that qname_end_moved[OF m2, of "Some off" "off + 2" _ None off] bs s2 colon by simp
        ultimately show ?thesis
          using h True b bs h2 True2 b2 m2 colon s2(1)
          by (auto simp: qname_body_def Let_def qname_end_def)
      qed
    qed
  qed
qed

lemma ScanQNameBytes_spec:
  assumes "good c"
  shows "\<exists>c'. ScanQNameBytes read c = Some (qname_ref (pending c), c') \<and> moved c c'"
proof -
  obtain e c1 where f: "fillBuffer read 1 c = (e, c1)" by fastforce
  show ?thesis using assms f
  proof (cases rule: fill_cases)
    case short
    then have "pending c = []" by simp
    then show ?thesis using short f by (simp add: ScanQNameBytes_def qname_ref_def)
  next
    case full
    have g: "good c1" and p: "pending c1 = pending c" using full(4) by (auto simp: moved_def)
    obtain x t where xt: "pending c = x # t" using full(2) by (cases "pending c") auto
    have b: "buf c1 ! bufpos c1 = x" using head_byte[OF g full(3)] p xt by simp
    have "\<exists>a. scan_loop (qname_body read) (None, 1, c1) = Some a \<and> qname_end (None, 1, c1) a"
    proof (rule scan_total[where cur = "\<lambda>s. snd (snd s)" and pos = "\<lambda>s. fst (snd s)" and J = "\<lambda>s. True"],
        goal_cases)
      case (1 s)
      then show ?case
        using qname_body_step[of "snd (snd s)" "fst (snd s)" "fst s"] by (auto split: sum.splits prod.splits)
    qed (use g full(2) p in auto)
    then obtain res c2 where l: "scan_loop (qname_body read) (None, 1, c1) = Some (res, c2)"
      and q: "qname_end (None, 1, c1) (res, c2)" by auto
    have m2: "moved c1 c2" and res: "res = qname_tail None 1 t" using q p xt by (auto simp: qname_end_def)
    have "qname_slices colon off (view c2) = qname_slices colon off (pending c)" if "res = Some (colon, off)" for colon off
    proof -
      have "off \<le> length (view c2)" using q that by (simp add: qname_end_def)
      then have v: "take off (view c2) = take off (pending c)"
        using take_view moved_pending[OF m2] p by metis
      have lt: "i < off" if "colon = Some i" for i
        using qname_tail_colon[of None 1 t colon off] res that \<open>res = Some (colon, off)\<close> by simp
      then have "take i (view c2) = take i (pending c)" if "colon = Some i" for i
      proof -
        have "min i off = i" using lt[OF that] by simp
        then have "take i (view c2) = take i (take off (view c2))" "take i (pending c) = take i (take off (pending c))"
          by simp_all
        with v show ?thesis by simp
      qed
      with v show ?thesis by (simp add: qname_slices_def split: option.split)
    qed
    then have "map_option (\<lambda>(colon, off). qname_slices colon off (view c2)) res
        = map_option (\<lambda>(colon, off). qname_slices colon off (pending c)) res"
      by (cases res) auto
    moreover have "qname_ref (pending c) = (if ascii_name_start x
        then map_option (\<lambda>(colon, off). qname_slices colon off (pending c)) res else None)"
      by (simp add: qname_ref_def xt res)
    moreover have "ScanQNameBytes read c = (if \<not> ascii_name_start x then Some (None, c1)
        else Some (map_option (\<lambda>(colon, off). qname_slices colon off (view c2)) res, c2))"
      using l f full(1) b by (simp add: ScanQNameBytes_def)
    ultimately show ?thesis using full(4) moved_trans[OF full(4) m2] by simp
  qed
qed

subsection \<open>Attribute values\<close>

definition attr_result :: "string \<Rightarrow> nat option \<Rightarrow> string \<times> nat" where
  "attr_result p res = (case res of None \<Rightarrow> ([], 0) | Some n \<Rightarrow> (take n p, n))"

definition attr_end :: "char \<Rightarrow> int \<Rightarrow> nat \<times> 'r cursor \<Rightarrow> (string \<times> nat) \<times> 'r cursor \<Rightarrow> bool" where
  "attr_end quote maxBytes = (\<lambda>(off, c) (res, c').
     moved c c' \<and> res = attr_result (pending c) (attr_tail quote maxBytes off (drop off (pending c))))"

lemma attr_end_moved:
  "moved c c1 \<Longrightarrow> attr_end q m (off', c1) a \<Longrightarrow>
     attr_tail q m off (drop off (pending c)) = attr_tail q m off' (drop off' (pending c)) \<Longrightarrow>
     attr_end q m (off, c) a"
  using moved_trans moved_pending by (fastforce simp: attr_end_def split: prod.splits)

lemma attr_body_step:
  assumes g: "good c" and le: "off \<le> length (pending c)"
  shows "case attr_value_body read q m (off, c) of
      Inl a \<Rightarrow> attr_end q m (off, c) a
    | Inr (off', c') \<Rightarrow> moved c c' \<and> off < off' \<and> off' \<le> length (pending c) \<and>
        (\<forall>a. attr_end q m (off', c') a \<longrightarrow> attr_end q m (off, c) a)"
proof -
  obtain ok c1 where h: "HasByteAt read off c = (ok, c1)" by fastforce
  note hb = has_byte[OF g h]
  consider "over_budget m off" | "\<not> over_budget m off" "\<not> ok" | "\<not> over_budget m off" "ok" by blast
  then show ?thesis
  proof cases
    case 1
    then show ?thesis using moved_refl[OF g]
      by (simp add: attr_value_body_def attr_end_def attr_tail_stop attr_result_def)
  next
    case 2
    then show ?thesis using h hb le
      by (simp add: attr_value_body_def attr_end_def attr_tail_stop attr_result_def)
  next
    case 3
    then have "HasByteAt read off c = (True, c1)" using h by simp
    from byte_at[OF g this] obtain b s where m: "moved c c1" and off: "off < length (view c1)"
      and b: "buf c1 ! (bufpos c1 + off) = b" and bs: "drop off (pending c) = b # s" .
    have p: "pending c1 = pending c" using m by (rule moved_pending)
    have lt: "off < length (pending c)" using hb(2) 3 by simp
    note body = attr_value_body_def Let_def h 3 b
    consider (quote) "b = q" | (stop) "b \<noteq> q" "b = CHR ''&'' \<or> b = CHR ''<'' \<or> byte b < 0x20"
      | (go) "b \<noteq> q" "b \<noteq> CHR ''&''" "b \<noteq> CHR ''<''" "0x20 \<le> byte b" by linarith
    then show ?thesis
    proof cases
      case quote
      have "take off (view c1) = take off (pending c)" using take_view[of off c1] off p by simp
      then show ?thesis using quote 3 m
        by (simp add: body attr_end_def bs attr_tail_stop attr_result_def)
    next
      case stop
      then show ?thesis using m
        by (auto simp: body attr_end_def bs attr_tail_stop attr_result_def)
    next
      case go
      note rune = attr_tail_rune[OF 3(1) go]
      show ?thesis
      proof (cases "byte b < 0x80")
        case True
        then have d: "decode_rune (b # s) = (byte b, 1)" by (rule decode_rune_ascii)
        have "IsChar (byte b)" using go(4) True by (simp add: IsChar_def)
        then have "attr_tail q m off (drop off (pending c)) = attr_tail q m (off + 1) (drop (off + 1) (pending c))"
          using rune[OF d] bs drop_next[OF bs] by simp
        then show ?thesis using True go m lt attr_end_moved[OF m, of q m "off + 1"]
          by (simp add: body)
      next
        case False
        obtain e c2 where f: "fillBuffer read (off + 4) c1 = (e, c2)" by fastforce
        obtain r w where d: "decode_rune (drop off (view c2)) = (r, w)" by fastforce
        have g1: "good c1" using m by (rule moved_good)
        have m2: "moved c1 c2" and sh: "shows_bytes (off + 4) c2"
          using fillBuffer_moved[OF g1 f] fillBuffer_shows[OF g1 f] by auto
        have "off \<le> length (pending c1)" using lt p by simp
        note ra = rune_at[OF g1 m2 sh this d]
        have d': "decode_rune (b # s) = (r, w)" using ra(1) p bs by simp
        have w: "0 < w" using decode_rune_width_pos[of "b # s"] d' by simp
        have mc: "moved c c2" using m m2 by (rule moved_trans)
        have bd: "attr_value_body read q m (off, c) = (if ill_formed r w \<or> \<not> IsChar r
            then Inl (([], 0), c2) else Inr (off + w, c2))"
          using go False f d w by (simp add: body)
        show ?thesis
        proof (cases "ill_formed r w \<or> \<not> IsChar r")
          case True
          then have "attr_end q m (off, c) (([], 0), c2)"
            using rune[OF d'] bs mc by (auto simp: attr_end_def attr_result_def)
          then show ?thesis using bd True by simp
        next
          case False
          then have "attr_value_body read q m (off, c) = Inr (off + w, c2)" using bd by auto
          moreover have "attr_tail q m off (drop off (pending c)) = attr_tail q m (off + w) (drop (off + w) (pending c))"
            using rune[OF d'] False drop_drop[of w off "pending c"] bs by (auto simp: add.commute)
          ultimately show ?thesis using mc w ra(3) p attr_end_moved[OF mc, of q m "off + w"] by simp
        qed
      qed
    qed
  qed
qed

lemma ScanSimpleAttrValue_spec:
  assumes "good c"
  shows "\<exists>c'. ScanSimpleAttrValue read q m c = Some (attr_ref q m (pending c), c') \<and> moved c c'"
proof -
  obtain e c1 where f: "fillBuffer read 1 c = (e, c1)" by fastforce
  show ?thesis using assms f
  proof (cases rule: fill_cases)
    case short
    then have "pending c = []" by simp
    then show ?thesis using short f by (simp add: ScanSimpleAttrValue_def attr_ref_def attr_tail_stop)
  next
    case full
    have "\<exists>a. scan_loop (attr_value_body read q m) (0, c1) = Some a \<and> attr_end q m (0, c1) a"
    proof (rule scan_total[where cur = snd and pos = fst and J = "\<lambda>s. True"], goal_cases)
      case (1 s)
      then show ?case using attr_body_step[of "snd s" "fst s" q m] by (auto split: sum.splits prod.splits)
    qed (use full(4) moved_good in auto)
    then obtain res c2 where l: "scan_loop (attr_value_body read q m) (0, c1) = Some (res, c2)"
      and "attr_end q m (0, c1) (res, c2)" by auto
    then have "moved c1 c2" "res = attr_ref q m (pending c)"
      using moved_pending[OF full(4)]
      by (simp_all add: attr_end_def attr_ref_def attr_result_def split: option.split)
    then show ?thesis
      using l f full(1) moved_trans[OF full(4)] by (simp add: ScanSimpleAttrValue_def)
  qed
qed

end

end
