(* ===== verification/CursorText.thy ===== *)
theory CursorText
  imports CursorRefine
begin

text \<open>
  The two scans of character data.  \<open>ScanCharDataInto\<close> gives what its reference gives for the
  unread bytes.  \<open>ScanCharDataSlice\<close> gives whole units of the run (\<open>text_cut\<close>), at least one
  unless the data stops right away; where it ends within the run depends on the buffer.
\<close>

lemma text_unit_le: "text_unit s = Some (t, w) \<Longrightarrow> w \<le> length s"
  using decode_rune_width_le[of s]
  by (cases s) (auto simp: text_unit_def has_prefix_iff split: if_splits prod.splits)

lemma text_unit_small: "text_unit s = Some (t, w) \<Longrightarrow> w \<le> 4"
  using decode_rune_disj[of s] by (auto simp: text_unit_def split: if_splits prod.splits)

lemma text_cut_le: "text_cut s out n \<Longrightarrow> n \<le> length s"
  by (induction rule: text_cut.induct) (auto dest: text_unit_le)

lemma has_prefix_one: "has_prefix s [x] \<longleftrightarrow> 0 < length s \<and> s ! 0 = x"
  by (cases s) (simp_all add: has_prefix_def)

lemma has_prefix_two: "has_prefix s [x, y] \<longleftrightarrow> 1 < length s \<and> s ! 0 = x \<and> s ! 1 = y"
  by (cases s; cases "tl s") (auto simp: has_prefix_def)

text \<open>What the ASCII run of \<open>ScanCharDataSlice\<close> is.\<close>

lemma capped_run_spec:
  assumes "k = capped_run m off v" "off \<le> length v"
  shows "list_all safe_text (take k (drop off v))" "off + k \<le> length v"
    "0 < m \<Longrightarrow> int off \<le> m \<Longrightarrow> int (off + k) \<le> m"
    "off + k < length v \<Longrightarrow> \<not> reached m (off + k) \<Longrightarrow> \<not> safe_text (v ! (off + k))"
    "off < length v \<Longrightarrow> safe_text (v ! off) \<Longrightarrow> \<not> reached m off \<Longrightarrow> 0 < k"
proof -
  let ?run = "takeWhile safe_text (drop off v)"
  have run: "length ?run \<le> length v - off" by (metis length_drop length_takeWhile_le)
  have k: "k = (if m > 0 \<and> int (off + length ?run) > m then nat (m - int off) else length ?run)"
    by (simp add: assms(1) capped_run_def Let_def scanSafeCharDataASCII_run)
  then have le: "k \<le> length ?run" by auto
  then have "take k (drop off v) = take k ?run" by (metis takeWhile_eq_take min.absorb1 take_take)
  then show "list_all safe_text (take k (drop off v))"
    by (auto simp: list_all_iff dest!: in_set_takeD set_takeWhileD)
  show "off + k \<le> length v" using le run assms(2) by linarith
  show "0 < m \<Longrightarrow> int off \<le> m \<Longrightarrow> int (off + k) \<le> m" using k by auto
  show "\<not> safe_text (v ! (off + k))" if "off + k < length v" "\<not> reached m (off + k)"
  proof -
    have "k = length ?run" using k that(2) by (auto simp: reached_def split: if_splits)
    moreover have "length ?run < length (drop off v)" using that(1) calculation by simp
    ultimately show ?thesis using nth_length_takeWhile[of safe_text "drop off v"] that(1) by simp
  qed
  show "0 < k" if "off < length v" "safe_text (v ! off)" "\<not> reached m off"
  proof -
    have "drop off v = v ! off # drop (Suc off) v" using that(1) by (simp add: Cons_nth_drop_Suc)
    then have "0 < length ?run" using that(2) by simp
    then show ?thesis using k that(3) by (auto simp: reached_def)
  qed
qed

context byte_source begin

subsection \<open>Looking ahead\<close>

lemma follow_one:
  assumes "drop off (pending c) = b # s" "shows_bytes (off + 2) c"
  shows "has_prefix s [x] \<longleftrightarrow> off + 1 < length (view c) \<and> view c ! (off + 1) = x"
proof -
  have s: "s = drop (off + 1) (pending c)" using drop_next(1)[OF assms(1)] by simp
  have "has_prefix s [x] \<longleftrightarrow> off + 1 < length (pending c) \<and> pending c ! (off + 1) = x"
    by (auto simp: s has_prefix_one)
  moreover have "off + 1 < length (view c) \<longleftrightarrow> off + 1 < length (pending c)"
    using assms(2) by (auto simp: shows_bytes_def pending_def)
  ultimately show ?thesis using view_nth[of "off + 1" c] by auto
qed

lemma follow_two:
  assumes "drop off (pending c) = b # s" "shows_bytes (off + 3) c"
  shows "has_prefix s [x, y] \<longleftrightarrow>
    off + 2 < length (view c) \<and> view c ! (off + 1) = x \<and> view c ! (off + 2) = y"
proof -
  have s: "s = drop (off + 1) (pending c)" using drop_next(1)[OF assms(1)] by simp
  have "has_prefix s [x, y] \<longleftrightarrow>
      off + 2 < length (pending c) \<and> pending c ! (off + 1) = x \<and> pending c ! (off + 2) = y"
    by (auto simp: s has_prefix_two)
  moreover have "off + 2 < length (view c) \<longleftrightarrow> off + 2 < length (pending c)"
    using assms(2) by (auto simp: shows_bytes_def pending_def)
  moreover have "off + 2 < length (view c) \<Longrightarrow> view c ! (off + 1) = pending c ! (off + 1)"
    by (intro view_nth) simp
  ultimately show ?thesis using view_nth[of "off + 2" c] by auto
qed

lemma view_byte:
  assumes "off < length (view c)"
  obtains s where "drop off (pending c) = view c ! off # s"
proof -
  have "off < length (pending c)" using assms by (simp add: pending_def)
  then show thesis using that[of "drop (Suc off) (pending c)"] view_nth[OF assms]
    by (simp add: Cons_nth_drop_Suc)
qed

text \<open>One decision of a scan: it stops, or takes the unit at the offset.\<close>

definition unit_step :: "int \<Rightarrow> string \<Rightarrow> nat \<Rightarrow> 'r cursor \<Rightarrow> 'r text_state + 'r text_state \<Rightarrow> bool" where
  "unit_step m dst off c res \<longleftrightarrow>
     (case res of
        Inl (a, c') \<Rightarrow> a = (dst, off) \<and> moved c c' \<and> (text_unit (drop off (pending c)) = None \<or> 0 < off)
      | Inr (a, c') \<Rightarrow> moved c c' \<and>
          (\<exists>t w. text_unit (drop off (pending c)) = Some (t, w) \<and> a = (dst @ t, off + w) \<and>
             (0 < m \<longrightarrow> int (off + w) \<le> max (m + 1) 4)))"

lemma unit_stepI:
  "moved c c' \<Longrightarrow> text_unit (drop off (pending c)) = None \<or> 0 < off \<Longrightarrow> unit_step m dst off c (Inl ((dst, off), c'))"
  "moved c c' \<Longrightarrow> text_unit (drop off (pending c)) = Some (t, w) \<Longrightarrow> dst' = dst @ t \<Longrightarrow> off' = off + w \<Longrightarrow>
     (0 < m \<Longrightarrow> int (off + w) \<le> max (m + 1) 4) \<Longrightarrow> unit_step m dst off c (Inr ((dst', off'), c'))"
  by (auto simp: unit_step_def)

lemma special_step:
  assumes g: "good c" and off: "off < length (view c)" and unsafe: "\<not> safe_text (view c ! off)"
    and room: "\<not> reached m off"
  shows "unit_step m dst off c (char_data_special read m dst off c)"
proof -
  obtain s where bs: "drop off (pending c) = view c ! off # s" using view_byte[OF off] .
  let ?b = "view c ! off"
  have lim: "0 < m \<Longrightarrow> int off < m" using room by (simp add: reached_def)
  consider (delim) "?b \<in> {CHR ''<'', CHR ''&''}" | (bracket) "?b = CHR '']''" | (ret) "?b = CHR 0x0D"
    | (control) "byte ?b < 0x80" "?b \<notin> {CHR ''<'', CHR ''&'', CHR '']'', CHR 0x0D}"
    | (wide) "\<not> byte ?b < 0x80" by auto
  then show ?thesis
  proof cases
    case delim
    have "char_data_special read m dst off c = Inl ((dst, off), c)"
      using delim by (auto simp: char_data_special_def)
    then show ?thesis using text_unit_stop[OF delim] bs moved_refl[OF g] by (simp add: unit_step_def)
  next
    case bracket
    define c1 where "c1 = fill_if (off + 2 \<ge> length (view c)) read (off + 3) c"
    have m1: "moved c c1" and sh: "shows_bytes (off + 3) c1"
      using fill_if_shows[OF g _ c1_def] by auto
    have fol: "has_prefix s '']>'' \<longleftrightarrow>
        off + 2 < length (view c1) \<and> view c1 ! (off + 1) = CHR '']'' \<and> view c1 ! (off + 2) = CHR ''>''"
      using follow_two[OF _ sh] bs moved_pending[OF m1] by simp
    have "char_data_special read m dst off c =
        (if has_prefix s '']>'' then Inl ((dst, off), c1) else Inr ((dst @ '']'', off + 1), c1))"
      unfolding fol using bracket by (simp add: char_data_special_def Let_def c1_def)
    then show ?thesis
      using text_unit_bracket[of s] bs bracket m1 lim by (auto simp: unit_step_def)
  next
    case ret
    define c1 where "c1 = fill_if (off + 1 \<ge> length (view c)) read (off + 2) c"
    have m1: "moved c c1" and sh: "shows_bytes (off + 2) c1"
      using fill_if_shows[OF g _ c1_def] by auto
    have fol: "has_prefix s [CHR 0x0A] \<longleftrightarrow> off + 1 < length (view c1) \<and> view c1 ! (off + 1) = CHR 0x0A"
      using follow_one[OF _ sh] bs moved_pending[OF m1] by simp
    have "char_data_special read m dst off c =
        Inr ((dst @ [CHR 0x0A], off + (if has_prefix s [CHR 0x0A] then 2 else 1)), c1)"
      unfolding fol using ret by (simp add: char_data_special_def Let_def c1_def)
    then show ?thesis
      using text_unit_return[of s] bs ret m1 lim by (auto simp: unit_step_def)
  next
    case control
    then have "char_data_special read m dst off c = Inl ((dst, off), c)"
      by (simp add: char_data_special_def)
    moreover have "text_unit (drop off (pending c)) = None"
      using text_unit_ascii[OF control] unsafe_ascii_char[OF _ unsafe control(2)] control(1) bs by simp
    ultimately show ?thesis using moved_refl[OF g] by (simp add: unit_step_def)
  next
    case wide
    define c1 where "c1 = fill_if (length (view c) - off < 4) read (off + 4) c"
    have m1: "moved c c1" and sh: "shows_bytes (off + 4) c1"
      using fill_if_shows[OF g _ c1_def] by auto
    obtain r w where d: "decode_rune (drop off (view c1)) = (r, w)" by fastforce
    have "off \<le> length (pending c)" using off pending_length_view[OF g] by simp
    note ra = rune_at[OF g m1 sh this d]
    have tu: "text_unit (drop off (pending c)) =
        (if ill_formed r w \<or> \<not> IsChar r then None else Some (take w (drop off (pending c)), w))"
      using text_unit_wide[OF wide] ra(1) bs by simp
    have w: "0 < w" "w \<le> 4"
      using decode_rune_width_pos[of "drop off (pending c)"] decode_rune_disj[OF ra(1)] ra(1) bs by auto
    have "char_data_special read m dst off c =
        (if ill_formed r w \<or> \<not> IsChar r then Inl ((dst, off), c1)
         else if m > 0 \<and> off > 0 \<and> int (off + w) > m then Inl ((dst, off), c1)
         else Inr ((dst @ take w (drop off (pending c)), off + w), c1))"
      using wide d w ra(4) by (auto simp: char_data_special_def Let_def c1_def)
    then show ?thesis
      using tu m1 w by (auto simp: unit_step_def)
  qed
qed

subsection \<open>ScanCharDataSlice\<close>

definition text_end :: "int \<Rightarrow> string \<Rightarrow> 'r cursor \<Rightarrow> 'r text_state \<Rightarrow> bool" where
  "text_end m dst0 c0 = (\<lambda>((dst, off), c). moved c0 c \<and>
     (\<exists>out. dst = dst0 @ out \<and> text_cut (pending c0) out off) \<and> (0 < m \<longrightarrow> int off \<le> max (m + 1) 4))"

lemma text_end_moved: "text_end m dst0 c0 (a, c) \<Longrightarrow> moved c c1 \<Longrightarrow> text_end m dst0 c0 (a, c1)"
  using moved_trans by (auto simp: text_end_def)

lemma text_end_add:
  assumes "text_end m dst0 c0 ((dst, off), c)" "text_cut (drop off (pending c)) t w"
    "0 < m \<Longrightarrow> int (off + w) \<le> max (m + 1) 4"
  shows "text_end m dst0 c0 ((dst @ t, off + w), c)"
proof -
  obtain out where "moved c0 c" "dst = dst0 @ out" "text_cut (pending c0) out off"
    using assms(1) by (auto simp: text_end_def)
  moreover from this have "text_cut (pending c0) (out @ t) (off + w)"
    using assms(2) moved_pending by (metis text_cut_append)
  ultimately show ?thesis using assms(3) by (auto simp: text_end_def)
qed

lemma text_end_run:
  assumes e: "text_end m dst0 c0 ((dst, off), c)" and off: "off < length (view c)" and room: "\<not> reached m off"
    and k: "k = capped_run m off (view c)"
  shows "text_end m dst0 c0 ((dst @ take k (drop off (view c)), off + k), c)"
proof -
  note cr = capped_run_spec[OF k less_imp_le[OF off]]
  have len: "length (take k (drop off (view c))) = k" using cr(2) by simp
  have "drop off (pending c) = take k (drop off (view c)) @ drop (off + k) (pending c)"
    using cr(2) drop_pending[of off c] drop_pending[of "off + k" c]
    by simp (metis append_take_drop_id drop_drop add.commute append.assoc)
  then have "text_cut (drop off (pending c)) (take k (drop off (view c))) k"
    using text_cut_run[OF cr(1), of "drop (off + k) (pending c)"] len by metis
  moreover have "0 < m \<Longrightarrow> int (off + k) \<le> max (m + 1) 4"
    using cr(3) room by (auto simp: reached_def)
  ultimately show ?thesis by (rule text_end_add[OF e])
qed

lemma char_data_body_step:
  assumes g: "good c" and e: "text_end m dst0 c0 ((dst, off), c)" and ne: "off = 0 \<longrightarrow> view c \<noteq> []"
  shows "case char_data_body read m ((dst, off), c) of
      Inl (a, c') \<Rightarrow> text_end m dst0 c0 (a, c') \<and> (snd a = 0 \<longrightarrow> text_unit (pending c0) = None)
    | Inr (a, c') \<Rightarrow> moved c c' \<and> off < snd a \<and> snd a \<le> length (pending c) \<and> text_end m dst0 c0 (a, c')"
proof (cases "off < length (view c) \<and> \<not> reached m off")
  case False
  then have "char_data_body read m ((dst, off), c) = Inl ((dst, off), c)" by (auto simp: char_data_body_def)
  moreover have "off = 0 \<Longrightarrow> False" using False ne by (auto simp: reached_def)
  ultimately show ?thesis using e by auto
next
  case True
  define k where "k = capped_run m off (view c)"
  define dst1 where "dst1 = dst @ take k (drop off (view c))"
  note cr = capped_run_spec[OF k_def less_imp_le[OF conjunct1[OF True]]]
  have e1: "text_end m dst0 c0 ((dst1, off + k), c)"
    using text_end_run[OF e _ _ k_def] True by (simp add: dst1_def)
  have p0: "pending c = pending c0" using e by (auto simp: text_end_def moved_def)
  have body: "char_data_body read m ((dst, off), c) =
      (if reached m (off + k) then Inl ((dst1, off + k), c)
       else if off + k \<ge> length (view c) then
         (case fillBuffer read (off + k + 1) c of (err, c1) \<Rightarrow>
            if err \<noteq> None \<or> off + k \<ge> length (view c1) then Inl ((dst1, off + k), c1)
            else Inr ((dst1, off + k), c1))
       else char_data_special read m dst1 (off + k) c)"
    using True by (auto simp: char_data_body_def Let_def k_def[symmetric] dst1_def split: prod.splits)
  have le: "off + k \<le> length (pending c)" using cr(2) pending_length_view[OF g] by linarith
  consider "reached m (off + k)" | "\<not> reached m (off + k)" "off + k \<ge> length (view c)"
    | "\<not> reached m (off + k)" "off + k < length (view c)" by linarith
  then show ?thesis
  proof cases
    case 1
    then show ?thesis using e1 body by (auto simp: reached_def)
  next
    case 2
    obtain err c1 where f: "fillBuffer read (off + k + 1) c = (err, c1)" by fastforce
    have m1: "moved c c1" using fillBuffer_moved[OF g f] .
    have "0 < k" using 2 True by linarith
    then show ?thesis using 2 body f m1 le text_end_moved[OF e1 m1] by auto
  next
    case 3
    have res: "unit_step m dst1 (off + k) c (char_data_special read m dst1 (off + k) c)"
      using special_step[OF g 3(2) cr(4)[OF 3(2,1)] 3(1)] .
    have b: "char_data_body read m ((dst, off), c) = char_data_special read m dst1 (off + k) c"
      using body 3 by simp
    show ?thesis
    proof (cases "char_data_special read m dst1 (off + k) c")
      case (Inl x)
      then obtain c1 where "x = ((dst1, off + k), c1)" "moved c c1"
          "text_unit (drop (off + k) (pending c)) = None \<or> 0 < off + k"
        using res by (cases x) (auto simp: unit_step_def)
      then show ?thesis using b Inl text_end_moved[OF e1] p0 by auto
    next
      case (Inr x)
      then obtain c1 t w where x: "x = ((dst1 @ t, off + k + w), c1)" "moved c c1"
          "text_unit (drop (off + k) (pending c)) = Some (t, w)" "0 < m \<longrightarrow> int (off + k + w) \<le> max (m + 1) 4"
        using res by (cases x) (auto simp: unit_step_def)
      have "text_end m dst0 c0 ((dst1 @ t, off + k + w), c)"
        using text_end_add[OF e1 text_cut_unit[OF x(3)]] x(4) by blast
      then have "text_end m dst0 c0 ((dst1 @ t, off + k + w), c1)" using x(2) by (rule text_end_moved)
      moreover have "0 < w" "w \<le> length (drop (off + k) (pending c))"
        using text_unit_pos[OF x(3)] text_unit_le[OF x(3)] by auto
      ultimately show ?thesis using b Inr x(1,2) le by auto
    qed
  qed
qed

lemma ScanCharDataSlice_spec:
  assumes "good c"
  shows "\<exists>out n c'. ScanCharDataSlice read dst m c = Some ((dst @ out, n), c') \<and> moved c c' \<and>
     text_cut (pending c) out n \<and> (n = 0 \<longrightarrow> text_unit (pending c) = None) \<and>
     (0 < m \<longrightarrow> int n \<le> max (m + 1) 4)"
proof -
  obtain e c1 where f: "fillBuffer read 1 c = (e, c1)" by fastforce
  show ?thesis using assms f
  proof (cases rule: fill_cases)
    case short
    then have "pending c = []" by simp
    then show ?thesis using short f text_cut.nothing by (auto simp: ScanCharDataSlice_def text_unit_def)
  next
    case full
    let ?Q = "\<lambda>(_ :: 'r text_state) a. text_end m dst c a \<and> (snd (fst a) = 0 \<longrightarrow> text_unit (pending c) = None)"
    have "\<exists>a. scan_loop (char_data_body read m) ((dst, 0), c1) = Some a \<and> ?Q ((dst, 0), c1) a"
    proof (rule scan_total[where cur = snd and pos = "\<lambda>s. snd (fst s)"
          and J = "\<lambda>s. text_end m dst c s \<and> (snd (fst s) = 0 \<longrightarrow> view (snd s) \<noteq> [])"], goal_cases)
      case (1 s)
      then show ?case
        using char_data_body_step[of "snd s" m dst c "fst (fst s)" "snd (fst s)"]
        by (auto split: sum.splits prod.splits)
    next
      case 4
      show ?case using full text_cut.nothing by (auto simp: text_end_def)
    qed (use full(4) moved_good in auto)
    then obtain dst' n c2 where l: "scan_loop (char_data_body read m) ((dst, 0), c1) = Some ((dst', n), c2)"
      and q: "text_end m dst c ((dst', n), c2)" "n = 0 \<longrightarrow> text_unit (pending c) = None" by auto
    then show ?thesis using f full(1) by (auto simp: ScanCharDataSlice_def text_end_def)
  qed
qed

subsection \<open>ScanCharDataInto\<close>

definition into_end :: "int \<Rightarrow> 'r text_state \<Rightarrow> 'r text_state \<Rightarrow> bool" where
  "into_end m = (\<lambda>((dst, off), c) (a, c').
     moved c c' \<and> a = char_data_into_ref m dst off (drop off (pending c)))"

lemma into_end_stop:
  "reached m (length dst) \<or> text_unit (drop off (pending c)) = None \<Longrightarrow> moved c c' \<Longrightarrow>
     into_end m ((dst, off), c) ((dst, off), c')"
  by (simp add: into_end_def) (subst char_data_into_ref.simps, auto)

lemma into_end_go:
  assumes "\<not> reached m (length dst)" "text_unit (drop off (pending c)) = Some (t, w)" "moved c c'"
    "into_end m ((dst @ t, off + w), c') a"
  shows "into_end m ((dst, off), c) a"
proof -
  have "char_data_into_ref m dst off (drop off (pending c)) =
      char_data_into_ref m (dst @ t) (off + w) (drop (off + w) (pending c))"
    using assms(1,2) by (subst char_data_into_ref.simps) (simp add: add.commute)
  then show ?thesis using assms(4) moved_trans[OF assms(3)] moved_pending[OF assms(3)]
    by (auto simp: into_end_def)
qed

definition into_step :: "int \<Rightarrow> string \<Rightarrow> nat \<Rightarrow> 'r cursor \<Rightarrow> 'r text_state + 'r text_state \<Rightarrow> bool" where
  "into_step m dst off c res \<longleftrightarrow>
     (case res of
        Inl (a, c') \<Rightarrow> a = (dst, off) \<and> moved c c' \<and> (reached m (length dst) \<or> text_unit (drop off (pending c)) = None)
      | Inr (a, c') \<Rightarrow> moved c c' \<and> \<not> reached m (length dst) \<and>
          (\<exists>t w. text_unit (drop off (pending c)) = Some (t, w) \<and> a = (dst @ t, off + w)))"

lemma buf_within:
  assumes "good c"
  shows "bufpos c + i < buflen c \<longleftrightarrow> i < length (view c)" "buflen c \<le> bufpos c + i \<longleftrightarrow> length (view c) \<le> i"
    "buflen c - (bufpos c + i) = length (view c) - i"
  using goodD(1,2)[OF assms] by auto

lemma buf_view: "good c \<Longrightarrow> i < length (view c) \<Longrightarrow> buf c ! (bufpos c + i) = view c ! i"
  by (simp add: nth_buf view_nth)

lemma into_body_step:
  assumes g: "good c" and le: "off \<le> length (pending c)"
  shows "into_step m dst off c (char_data_into_body read m ((dst, off), c))"
proof -
  have head: "(m \<le> 0 \<or> int (length dst) < m) = (\<not> reached m (length dst))"
    "(\<not> m \<le> 0 \<and> \<not> int (length dst) < m) = reached m (length dst)"
    by (auto simp: reached_def)
  obtain ok c1 where h: "HasByteAt read off c = (ok, c1)" by fastforce
  note hb = has_byte[OF g h]
  consider "reached m (length dst)" | "\<not> reached m (length dst)" "\<not> ok" | "\<not> reached m (length dst)" "ok" by blast
  then show ?thesis
  proof cases
    case 1
    then show ?thesis using moved_refl[OF g] by (simp add: char_data_into_body_def head into_step_def)
  next
    case 2
    then have "drop off (pending c) = []" using hb(2) by simp
    then show ?thesis using 2 h hb(1) moved_refl[OF g]
      by (simp add: char_data_into_body_def head into_step_def text_unit_def)
  next
    case 3
    then have "HasByteAt read off c = (True, c1)" using h by simp
    from byte_at[OF g this] obtain b s where m1: "moved c c1" and off: "off < length (view c1)"
      and b: "buf c1 ! (bufpos c1 + off) = b" and bs: "drop off (pending c) = b # s" .
    have g1: "good c1" and p: "pending c1 = pending c" using m1 by (auto simp: moved_def)
    have bs1: "drop off (pending c1) = b # s" using bs p by simp
    note body = char_data_into_body_def Let_def head h 3 b
    consider (delim) "b \<in> {CHR ''<'', CHR ''&''}" | (bracket) "b = CHR '']''" | (ret) "b = CHR 0x0D"
      | (ascii) "byte b < 0x80" "b \<notin> {CHR ''<'', CHR ''&'', CHR '']'', CHR 0x0D}"
      | (wide) "\<not> byte b < 0x80" by auto
    then show ?thesis
    proof cases
      case delim
      then show ?thesis using m1 3 text_unit_stop[OF delim] bs by (auto simp: body into_step_def)
    next
      case bracket
      define c2 where "c2 = fill_if (b = CHR '']'' \<and> bufpos c1 + off + 2 \<ge> buflen c1) read (off + 3) c1"
      have m2: "moved c1 c2" and sh: "shows_bytes (off + 3) c2"
        using fill_if_shows[OF g1 _ c2_def] bracket buf_within(2)[OF g1, of "off + 2"] by (auto simp: add.assoc)
      have g2: "good c2" and p2: "pending c2 = pending c" using m2 p by (auto simp: moved_def)
      have fol: "has_prefix s '']>'' \<longleftrightarrow> bufpos c2 + off + 2 < buflen c2 \<and>
          buf c2 ! (bufpos c2 + off + 1) = CHR '']'' \<and> buf c2 ! (bufpos c2 + off + 2) = CHR ''>''"
        unfolding add.assoc follow_two[OF bs[folded p2] sh] buf_within(1)[OF g2]
        using buf_view[OF g2, of "off + 1"] buf_view[OF g2, of "off + 2"] by auto
      have "char_data_into_body read m ((dst, off), c) =
          (if has_prefix s '']>'' then Inl ((dst, off), c2) else Inr ((dst @ '']'', off + 1), c2))"
        unfolding fol using bracket 3 by (simp add: body c2_def)
      then show ?thesis
        using text_unit_bracket[of s] bs bracket moved_trans[OF m1 m2] 3 by (auto simp: into_step_def)
    next
      case ret
      define c2 where "c2 = fill_if (bufpos c1 + off + 1 \<ge> buflen c1) read (off + 2) c1"
      have m2: "moved c1 c2" and sh: "shows_bytes (off + 2) c2"
        using fill_if_shows[OF g1 _ c2_def] buf_within(2)[OF g1, of "off + 1"] by (auto simp: add.assoc)
      have g2: "good c2" and p2: "pending c2 = pending c" using m2 p by (auto simp: moved_def)
      have fol: "has_prefix s [CHR 0x0A] \<longleftrightarrow>
          bufpos c2 + (off + 1) < buflen c2 \<and> buf c2 ! (bufpos c2 + (off + 1)) = CHR 0x0A"
        unfolding follow_one[OF bs[folded p2] sh] buf_within(1)[OF g2]
        using buf_view[OF g2, of "off + 1"] by auto
      have "char_data_into_body read m ((dst, off), c) =
          Inr ((dst @ [CHR 0x0A], off + (if has_prefix s [CHR 0x0A] then 2 else 1)), c2)"
        unfolding fol using ret 3 by (simp add: body c2_def fill_if_def)
      then show ?thesis
        using text_unit_return[of s] bs ret moved_trans[OF m1 m2] 3 by (auto simp: into_step_def)
    next
      case ascii
      have "(byte b < 0x20 \<and> byte b \<noteq> 0x9 \<and> byte b \<noteq> 0xA \<and> byte b \<noteq> 0xD) = (\<not> IsChar (byte b))"
        using ascii(1) by (auto simp: IsChar_def)
      then have "char_data_into_body read m ((dst, off), c) =
          (if IsChar (byte b) then Inr ((dst @ [b], off + 1), c1) else Inl ((dst, off), c1))"
        using ascii 3 by (auto simp: body fill_if_def)
      then show ?thesis using text_unit_ascii[OF ascii, of s] bs m1 3 by (auto simp: into_step_def)
    next
      case wide
      define c2 where "c2 = fill_if (buflen c1 - (bufpos c1 + off) < 4) read (off + 4) c1"
      have m2: "moved c1 c2" and sh: "shows_bytes (off + 4) c2"
        using fill_if_shows[OF g1 _ c2_def] buf_within(3)[OF g1, of off] off by auto
      obtain r w where d: "decode_rune (drop off (view c2)) = (r, w)" by fastforce
      have "off \<le> length (pending c1)" using le p by simp
      note ra = rune_at[OF g1 m2 sh this d]
      have tu: "text_unit (drop off (pending c)) =
          (if ill_formed r w \<or> \<not> IsChar r then None else Some (take w (drop off (pending c)), w))"
        using text_unit_wide[OF wide] ra(1) bs p by simp
      have "0 < w" using decode_rune_width_pos[of "drop off (pending c)"] ra(1) bs p by auto
      then have "char_data_into_body read m ((dst, off), c) =
          (if ill_formed r w \<or> \<not> IsChar r then Inl ((dst, off), c2)
           else Inr ((dst @ take w (drop off (pending c)), off + w), c2))"
        using wide d ra(4) p 3 by (auto simp: body c2_def[symmetric])
      then show ?thesis using tu moved_trans[OF m1 m2] 3 by (auto simp: into_step_def)
    qed
  qed
qed

lemma ScanCharDataInto_spec:
  assumes "good c"
  shows "\<exists>c'. ScanCharDataInto read dst m c = Some (char_data_into_ref m dst 0 (pending c), c') \<and> moved c c'"
proof -
  obtain e c1 where f: "fillBuffer read 1 c = (e, c1)" by fastforce
  show ?thesis using assms f
  proof (cases rule: fill_cases)
    case short
    then have "text_unit (pending c) = None" by (simp add: text_unit_def)
    then have "char_data_into_ref m dst 0 (pending c) = (dst, 0)" by (subst char_data_into_ref.simps) simp
    then show ?thesis using short f by (simp add: ScanCharDataInto_def)
  next
    case full
    have "\<exists>a. scan_loop (char_data_into_body read m) ((dst, 0), c1) = Some a \<and> into_end m ((dst, 0), c1) a"
    proof (rule scan_total[where cur = snd and pos = "\<lambda>s. snd (fst s)" and J = "\<lambda>s. True"], goal_cases)
      case (1 s)
      obtain d o1 k where s: "s = ((d, o1), k)" by (metis surj_pair)
      have st: "into_step m d o1 k (char_data_into_body read m s)"
        using into_body_step[of k o1 m d] 1 s by simp
      show ?case
      proof (cases "char_data_into_body read m s")
        case (Inl x)
        then show ?thesis using st s into_end_stop by (cases x) (auto simp: into_step_def)
      next
        case (Inr x)
        then obtain t w k' where "x = ((d @ t, o1 + w), k')" "moved k k'" "\<not> reached m (length d)"
            "text_unit (drop o1 (pending k)) = Some (t, w)"
          using st by (cases x) (auto simp: into_step_def)
        then show ?thesis
          using Inr s 1 into_end_go[of m d o1 k t w k'] text_unit_pos[of _ t w] text_unit_le[of _ t w]
          by fastforce
      qed
    qed (use full(4) moved_good in auto)
    then obtain a c2 where l: "scan_loop (char_data_into_body read m) ((dst, 0), c1) = Some (a, c2)"
      and "into_end m ((dst, 0), c1) (a, c2)" by auto
    then have "moved c1 c2" "a = char_data_into_ref m dst 0 (pending c)"
      using moved_pending[OF full(4)] by (simp_all add: into_end_def)
    then show ?thesis using l f full(1) moved_trans[OF full(4)] by (simp add: ScanCharDataInto_def)
  qed
qed

end

end
