(* ===== verification/CursorRun.thy ===== *)
theory CursorRun
  imports CursorText
begin

text \<open>
  The readers of the program as instances of the contract, and runs of cursor operations.

  \<open>bytes.Reader\<close>, the cursor itself (\<open>Cursor_Read\<close>) and the reader of \<open>Unused\<close> keep the contract, the last
  two over any source that does.  A client of the cursor is a list of operations; \<open>run_cursor\<close>
  gives the answers it gets, \<open>run_spec\<close> the answers of the abstract cursor: the bytes not yet
  consumed, the line and the column.  \<open>Err\<close> and \<open>Line\<close> are left out, since they tell how far the
  buffer has been filled; so is \<open>ScanCharDataSlice\<close>.
\<close>

subsection \<open>Sources\<close>

lemma bytes_source:
  "byte_source bytes_Read (\<lambda>_. True) (\<lambda>s. s) (\<lambda>_. io_EOF) (\<lambda>_. 0)"
  by unfold_locales (auto simp: bytes_Read_def maxZeroProgressReads_def split: if_splits)

context byte_source begin

lemma cursor_read_law:
  assumes g: "good c" and r: "Cursor_Read read c n = (d, err, c')"
  shows "good c' \<and> length d \<le> n \<and> pending c = d @ pending c' \<and> fin (inp c') = fin (inp c) \<and>
      (\<forall>e. err = Some e \<longrightarrow> pending c' = [] \<and> e = fin (inp c)) \<and>
      (0 < n \<and> d = [] \<and> err = None \<longrightarrow> stall (inp c') < stall (inp c))"
proof -
  have len: "length (view c) = buflen c - bufpos c" using goodD(2)[OF g] by simp
  show ?thesis
  proof (cases "bufpos c < buflen c \<and> n < buflen c - bufpos c")
    case True
    then have eq: "d = take n (view c)" "err = None" "c' = c\<lparr>bufpos := bufpos c + n\<rparr>"
      using r by (auto simp: Cursor_Read_def Let_def)
    have "view c' = drop n (view c)" by (simp add: eq view_def add.commute)
    moreover have "good c'" using g True by (auto simp: good_def eq)
    ultimately show ?thesis using True len by (auto simp: eq pending_def)
  next
    case False
    define room where "room = (if bufpos c < buflen c then n - (buflen c - bufpos c) else n)"
    obtain d2 r' where rd: "read (inp c) room = (d2, err, r')"
      and eq: "d = view c @ d2" "c' = c\<lparr>bufpos := buflen c, inp := r'\<rparr>"
    proof (cases "bufpos c < buflen c")
      case True
      then show thesis using that r False by (auto simp: Cursor_Read_def Let_def room_def split: prod.splits)
    next
      case False
      then have "bufpos c = buflen c" using goodD(1)[OF g] by simp
      then have "c\<lparr>bufpos := buflen c\<rparr> = c" by simp
      then show thesis using that r False by (auto simp: Cursor_Read_def Let_def room_def view_def split: prod.splits)
    qed
    note l = read_law[OF goodD(3)[OF g] rd]
    have "view c' = []" by (simp add: eq view_def)
    moreover have "length (view c) + length d2 \<le> n"
      using l len False by (auto simp: room_def split: if_splits)
    moreover have "good c'" using g l by (auto simp: good_def eq)
    moreover have "\<forall>e. err = Some e \<longrightarrow> rest r' = [] \<and> e = fin (inp c)"
      using error_law[OF goodD(3)[OF g]] rd by blast
    moreover have "stall r' < stall (inp c)" if "0 < n" "d = []" "err = None"
    proof -
      have "\<not> bufpos c < buflen c" using that(2) len by (auto simp: eq)
      then show ?thesis using stall_law[OF goodD(3)[OF g], of n r'] rd that by (simp add: room_def eq)
    qed
    ultimately show ?thesis using l by (auto simp: eq pending_def)
  qed
qed

lemma cursor_source: "byte_source (Cursor_Read read) good pending (\<lambda>c. fin (inp c)) (\<lambda>c. stall (inp c))"
  by unfold_locales (use cursor_read_law stall_bound in blast)+

lemma unused_source:
  "byte_source (Unused_Read read) (\<lambda>u. ok (snd u)) (\<lambda>u. fst u @ rest (snd u))
     (\<lambda>u. fin (snd u)) (\<lambda>u. stall (snd u))"
proof (unfold_locales, goal_cases)
  case (1 u n d err u')
  then show ?case using read_law[of "snd u" n d err "snd u'"]
    by (cases u) (auto simp: Unused_Read_def split: if_splits prod.splits)
next
  case (2 u n d e u')
  then show ?case using error_law[of "snd u" n d e "snd u'"]
    by (cases u) (auto simp: Unused_Read_def split: if_splits prod.splits)
next
  case (3 u n u')
  then show ?case using stall_law[of "snd u" n "snd u'"]
    by (cases u) (auto simp: Unused_Read_def split: if_splits prod.splits)
qed (use stall_bound in auto)

end

interpretation br: byte_source bytes_Read "\<lambda>_. True" "\<lambda>s. s" "\<lambda>_. io_EOF" "\<lambda>_. 0"
  by (rule bytes_source)

interpretation bc: byte_source "Cursor_Read bytes_Read" br.good br.pending "\<lambda>_. io_EOF" "\<lambda>_. 0"
  by (rule br.cursor_source)

interpretation bu: byte_source "Unused_Read bytes_Read" "\<lambda>_. True" "\<lambda>u. fst u @ snd u" "\<lambda>_. io_EOF" "\<lambda>_. 0"
  by (rule br.unused_source)

subsection \<open>Runs\<close>

datatype cursor_op =
    DoneOp | PeekOp | PeekAtOp nat | HasByteAtOp nat | PeekRuneOp | PeekStringOp nat
  | AdvanceOp nat | AdvanceFastOp nat
  | HasPrefixOp string | HasPrefixStringOp string | ConsumeOp string | ConsumeStringOp string
  | LineNumberOp | ColumnOp
  | NCNameOp | QNameOp | AttrValueOp char int | CharDataOp string int

datatype answer =
    Flag bool | Byte char | Number nat | Text string | Failed "goerr option"
  | Named string nat | QNamed qname_bytes

definition answers_with :: "('a \<Rightarrow> answer) \<Rightarrow> 'a \<times> 'r cursor \<Rightarrow> answer \<times> 'r cursor" where
  "answers_with f = (\<lambda>(x, c). (f x, c))"

definition run_op :: "'r reader \<Rightarrow> cursor_op \<Rightarrow> 'r cursor \<Rightarrow> (answer \<times> 'r cursor) option" where
  "run_op read op c =
     (case op of
        DoneOp \<Rightarrow> Some (answers_with Flag (Done read c))
      | PeekOp \<Rightarrow> Some (answers_with Byte (Peek read c))
      | PeekAtOp n \<Rightarrow> Some (answers_with Byte (PeekAt read n c))
      | HasByteAtOp n \<Rightarrow> Some (answers_with Flag (HasByteAt read n c))
      | PeekRuneOp \<Rightarrow> Some (answers_with Number (PeekRune read c))
      | PeekStringOp n \<Rightarrow> Some (answers_with Text (PeekString read n c))
      | AdvanceOp n \<Rightarrow> Some (answers_with Failed (Advance read n c))
      | AdvanceFastOp n \<Rightarrow> Some (answers_with Failed (AdvanceFast read n c))
      | HasPrefixOp s \<Rightarrow> Some (answers_with Flag (HasPrefix read s c))
      | HasPrefixStringOp s \<Rightarrow> Some (answers_with Flag (HasPrefixString read s c))
      | ConsumeOp s \<Rightarrow> Some (answers_with Flag (Consume read s c))
      | ConsumeStringOp s \<Rightarrow> Some (answers_with Flag (ConsumeString read s c))
      | LineNumberOp \<Rightarrow> Some (Number (lineno c), c)
      | ColumnOp \<Rightarrow> Some (Number (column c), c)
      | NCNameOp \<Rightarrow> map_option (answers_with (\<lambda>(s, n). Named s n)) (ScanNCNameBytes read c)
      | QNameOp \<Rightarrow> map_option (answers_with QNamed) (ScanQNameBytes read c)
      | AttrValueOp q m \<Rightarrow> map_option (answers_with (\<lambda>(s, n). Named s n)) (ScanSimpleAttrValue read q m c)
      | CharDataOp dst m \<Rightarrow> map_option (answers_with (\<lambda>(s, n). Named s n)) (ScanCharDataInto read dst m c))"

fun run_cursor :: "'r reader \<Rightarrow> cursor_op list \<Rightarrow> 'r cursor \<Rightarrow> (answer list \<times> 'r cursor) option" where
  "run_cursor read [] c = Some ([], c)"
| "run_cursor read (op # ops) c =
     (case run_op read op c of
        None \<Rightarrow> None
      | Some (a, c1) \<Rightarrow> map_option (\<lambda>(as, c2). (a # as, c2)) (run_cursor read ops c1))"

text \<open>The abstract cursor: the bytes left, the line and the column.\<close>

type_synonym abstract_cursor = "string \<times> nat \<times> nat"

definition spec_consume :: "nat \<Rightarrow> abstract_cursor \<Rightarrow> abstract_cursor" where
  "spec_consume n = (\<lambda>(p, pos). (drop n p, track (take n p) pos))"

definition spec_op :: "goerr \<Rightarrow> cursor_op \<Rightarrow> abstract_cursor \<Rightarrow> answer \<times> abstract_cursor" where
  "spec_op final op a =
     (let p = fst a;
          advance = (\<lambda>n. if n \<le> length p then (Failed None, spec_consume n a) else (Failed (Some final), a));
          consume = (\<lambda>s. if has_prefix p s then (Flag True, spec_consume (length s) a) else (Flag False, a)) in
      case op of
        DoneOp \<Rightarrow> (Flag (p = []), a)
      | PeekOp \<Rightarrow> (Byte (if p = [] then CHR 0x00 else hd p), a)
      | PeekAtOp n \<Rightarrow> (Byte (if n < length p then p ! n else CHR 0x00), a)
      | HasByteAtOp n \<Rightarrow> (Flag (n < length p), a)
      | PeekRuneOp \<Rightarrow> (Number (if p = [] then rune_error else fst (decode_rune p)), a)
      | PeekStringOp n \<Rightarrow> (Text (if n \<le> length p then take n p else []), a)
      | AdvanceOp n \<Rightarrow> advance n
      | AdvanceFastOp n \<Rightarrow> advance n
      | HasPrefixOp s \<Rightarrow> (Flag (has_prefix p s), a)
      | HasPrefixStringOp s \<Rightarrow> (Flag (has_prefix p s), a)
      | ConsumeOp s \<Rightarrow> consume s
      | ConsumeStringOp s \<Rightarrow> consume s
      | LineNumberOp \<Rightarrow> (Number (fst (snd a)), a)
      | ColumnOp \<Rightarrow> (Number (snd (snd a)), a)
      | NCNameOp \<Rightarrow> (case ncname_ref p of (s, n) \<Rightarrow> (Named s n, a))
      | QNameOp \<Rightarrow> (QNamed (qname_ref p), a)
      | AttrValueOp q m \<Rightarrow> (case attr_ref q m p of (s, n) \<Rightarrow> (Named s n, a))
      | CharDataOp dst m \<Rightarrow> (case char_data_into_ref m dst 0 p of (s, n) \<Rightarrow> (Named s n, a)))"

fun run_spec :: "goerr \<Rightarrow> cursor_op list \<Rightarrow> abstract_cursor \<Rightarrow> answer list \<times> abstract_cursor" where
  "run_spec final [] a = ([], a)"
| "run_spec final (op # ops) a =
     (case spec_op final op a of (x, a1) \<Rightarrow>
        case run_spec final ops a1 of (xs, a2) \<Rightarrow> (x # xs, a2))"

text \<open>The abstraction: the unread bytes are those in the buffer and those still to be read.\<close>

definition unread :: "('r \<Rightarrow> string) \<Rightarrow> 'r cursor \<Rightarrow> string" where
  "unread rest c = view c @ rest (inp c)"

definition abstracts :: "('r \<Rightarrow> string) \<Rightarrow> 'r cursor \<Rightarrow> abstract_cursor" where
  "abstracts rest c = (unread rest c, lineno c, column c)"

context byte_source begin

definition simulates :: "'r cursor \<Rightarrow> abstract_cursor \<Rightarrow> (answer \<times> 'r cursor) option \<Rightarrow> answer \<times> abstract_cursor \<Rightarrow> bool" where
  "simulates c a res spec \<longleftrightarrow>
     (\<exists>x c'. res = Some (x, c') \<and> x = fst spec \<and> good c' \<and> abstracts rest c' = snd spec \<and> fin (inp c') = fin (inp c))"

lemma simulates_moved:
  "abstracts rest c = a \<Longrightarrow> moved c c' \<Longrightarrow> simulates c a (Some (x, c')) (x, a)"
  by (auto simp: simulates_def moved_def abstracts_def unread_def pending_def)

lemma simulates_consumed:
  "abstracts rest c = a \<Longrightarrow> consumed n c c' \<Longrightarrow> simulates c a (Some (x, c')) (x, spec_consume n a)"
  by (auto simp: simulates_def consumed_def abstracts_def unread_def pending_def spec_consume_def)

lemma simulates_advance:
  assumes "abstracts rest c = a" "res = (err, c')"
    "if n \<le> length (pending c) then err = None \<and> consumed n c c' else err = Some (fin (inp c)) \<and> moved c c'"
  shows "simulates c a (Some (answers_with Failed res))
    (if n \<le> length (fst a) then (Failed None, spec_consume n a) else (Failed (Some (fin (inp c))), a))"
proof -
  have "fst a = pending c" using assms(1) by (auto simp: abstracts_def unread_def pending_def)
  with assms show ?thesis
    by (auto simp: answers_with_def intro: simulates_moved simulates_consumed split: if_splits)
qed

lemma simulates_consume:
  assumes "abstracts rest c = a" "res = (b, c')"
    "b = has_prefix (pending c) s \<and> (if b then consumed (length s) c c' else moved c c')"
  shows "simulates c a (Some (answers_with Flag res))
    (if has_prefix (fst a) s then (Flag True, spec_consume (length s) a) else (Flag False, a))"
proof -
  have "fst a = pending c" using assms(1) by (auto simp: abstracts_def unread_def pending_def)
  with assms show ?thesis
    by (auto simp: answers_with_def intro: simulates_moved simulates_consumed split: if_splits)
qed

lemma simulates_look:
  assumes "abstracts rest c = a" "res = (x, c')" "moved c c'" "f x = y"
  shows "simulates c a (Some (answers_with f res)) (y, a)"
  using assms simulates_moved by (auto simp: answers_with_def)

lemma simulates_scan:
  assumes "abstracts rest c = a" "\<exists>c'. res = Some (x, c') \<and> moved c c'" "f x = y"
  shows "simulates c a (map_option (answers_with f) res) (y, a)"
  using assms(2,3) simulates_moved[OF assms(1)] by (fastforce simp: answers_with_def)

lemma run_op_simulates:
  assumes g: "good c" and a: "abstracts rest c = a"
  shows "simulates c a (run_op read op c) (spec_op (fin (inp c)) op a)"
proof -
  have p: "fst a = pending c" "snd a = (lineno c, column c)"
    using a by (auto simp: abstracts_def unread_def pending_def)
  note look = simulates_look[OF a surjective_pairing]
  note scan = simulates_scan[OF a]
  have adv: "simulates c a (Some (answers_with Failed (Advance read n c)))
      (if n \<le> length (fst a) then (Failed None, spec_consume n a) else (Failed (Some (fin (inp c))), a))"
    "simulates c a (Some (answers_with Failed (AdvanceFast read n c)))
      (if n \<le> length (fst a) then (Failed None, spec_consume n a) else (Failed (Some (fin (inp c))), a))" for n
    using simulates_advance[OF a surjective_pairing Advance_spec[OF g surjective_pairing]]
      simulates_advance[OF a surjective_pairing AdvanceFast_spec[OF g surjective_pairing]] by blast+
  have con: "simulates c a (Some (answers_with Flag (Consume read s c)))
      (if has_prefix (fst a) s then (Flag True, spec_consume (length s) a) else (Flag False, a))"
    "simulates c a (Some (answers_with Flag (ConsumeString read s c)))
      (if has_prefix (fst a) s then (Flag True, spec_consume (length s) a) else (Flag False, a))" for s
    using simulates_consume[OF a surjective_pairing Consume_spec[OF g surjective_pairing]]
      simulates_consume[OF a surjective_pairing ConsumeString_spec[OF g surjective_pairing]] by blast+
  show ?thesis
  proof (cases op)
    case DoneOp
    then show ?thesis using look[of "Done read c" Flag] Done_spec[OF g surjective_pairing] p
      by (auto simp: run_op_def spec_op_def Let_def)
  next
    case PeekOp
    then show ?thesis using look[of "Peek read c" Byte] Peek_spec[OF g surjective_pairing] p
      by (auto simp: run_op_def spec_op_def Let_def)
  next
    case (PeekAtOp n)
    then show ?thesis using look[of "PeekAt read n c" Byte] PeekAt_spec[OF g surjective_pairing, of n] p
      by (auto simp: run_op_def spec_op_def Let_def)
  next
    case (HasByteAtOp n)
    then show ?thesis using look[of "HasByteAt read n c" Flag] has_byte[OF g surjective_pairing, of n] p
      by (auto simp: run_op_def spec_op_def Let_def)
  next
    case PeekRuneOp
    then show ?thesis using look[of "PeekRune read c" Number] PeekRune_spec[OF g surjective_pairing] p
      by (auto simp: run_op_def spec_op_def Let_def)
  next
    case (PeekStringOp n)
    then show ?thesis using look[of "PeekString read n c" Text] PeekString_spec[OF g surjective_pairing, of n] p
      by (auto simp: run_op_def spec_op_def Let_def)
  next
    case (HasPrefixOp s)
    then show ?thesis using look[of "HasPrefix read s c" Flag] HasPrefix_spec[OF g surjective_pairing, of s] p
      by (auto simp: run_op_def spec_op_def Let_def)
  next
    case (HasPrefixStringOp s)
    then show ?thesis using look[of "HasPrefixString read s c" Flag] HasPrefixString_spec[OF g surjective_pairing, of s] p
      by (auto simp: run_op_def spec_op_def Let_def)
  next
    case NCNameOp
    then show ?thesis using scan[OF ScanNCNameBytes_spec[OF g], of "\<lambda>(s, n). Named s n"] p
      by (auto simp: run_op_def spec_op_def Let_def split: prod.splits)
  next
    case QNameOp
    then show ?thesis using scan[OF ScanQNameBytes_spec[OF g], of QNamed] p
      by (auto simp: run_op_def spec_op_def Let_def)
  next
    case (AttrValueOp q m)
    then show ?thesis using scan[OF ScanSimpleAttrValue_spec[OF g, where q = q and m = m], of "\<lambda>(s, n). Named s n"] p
      by (auto simp: run_op_def spec_op_def Let_def split: prod.splits)
  next
    case (CharDataOp dst m)
    then show ?thesis using scan[OF ScanCharDataInto_spec[OF g, where dst = dst and m = m], of "\<lambda>(s, n). Named s n"] p
      by (auto simp: run_op_def spec_op_def Let_def split: prod.splits)
  qed (use adv con simulates_moved[OF a moved_refl[OF g]] p in
      \<open>auto simp: run_op_def spec_op_def Let_def\<close>)
qed

lemma run_cursor_simulates:
  "good c \<Longrightarrow> abstracts rest c = a \<Longrightarrow>
     \<exists>c'. run_cursor read ops c = Some (fst (run_spec (fin (inp c)) ops a), c') \<and> good c' \<and>
       abstracts rest c' = snd (run_spec (fin (inp c)) ops a) \<and> fin (inp c') = fin (inp c)"
proof (induction ops arbitrary: c a)
  case (Cons op ops)
  obtain x a1 where s: "spec_op (fin (inp c)) op a = (x, a1)" by (rule prod.exhaust)
  obtain c1 where r: "run_op read op c = Some (x, c1)" "good c1" "abstracts rest c1 = a1" "fin (inp c1) = fin (inp c)"
    using run_op_simulates[OF Cons.prems, of op] s by (auto simp: simulates_def)
  from Cons.IH[OF r(2,3)] r s show ?case by (auto split: prod.splits)
qed simp

lemma fresh_good: "ok r \<Longrightarrow> good (NewUTF8Cursor r)"
  by (simp add: good_def NewUTF8Cursor_def)

lemma fresh_abstracts: "abstracts rest (NewUTF8Cursor r) = (rest r, 1, 1)"
  by (simp add: abstracts_def unread_def view_def NewUTF8Cursor_def)

lemma fresh_inp [simp]: "inp (NewUTF8Cursor r) = r"
  by (simp add: NewUTF8Cursor_def)

text \<open>Everything a run can reach, for the properties below.\<close>

lemma run_reaches:
  assumes "ok r" "run_cursor read ops (NewUTF8Cursor r) = Some (as, c)"
  shows "good c" "abstracts rest c = snd (run_spec (fin r) ops (rest r, 1, 1))" "fin (inp c) = fin r"
    "pending c = unread rest c"
  using run_cursor_simulates[OF fresh_good[OF assms(1)] fresh_abstracts, of ops] assms(2)
  by (auto simp: unread_def pending_def)

end

lemma spec_position:
  "a = (drop n p, track (take n p) (1, 1)) \<Longrightarrow> n \<le> length p \<Longrightarrow>
     \<exists>m. snd (run_spec final ops a) = (drop m p, track (take m p) (1, 1)) \<and> m \<le> length p"
proof (induction ops arbitrary: a n)
  case (Cons op ops)
  obtain x a1 where s: "spec_op final op a = (x, a1)" by (rule prod.exhaust)
  have con: "spec_consume k a = (drop (n + k) p, track (take (n + k) p) (1, 1))" for k
  proof -
    have "drop k (drop n p) = drop (n + k) p" by (simp add: add.commute)
    then show ?thesis
      by (simp add: Cons.prems(1) spec_consume_def take_add track_append del: drop_drop)
  qed
  have "a1 = a \<or> (\<exists>k. a1 = spec_consume k a \<and> k \<le> length (fst a))"
    using s has_prefix_iff by (cases op) (auto simp: spec_op_def Let_def has_prefix_iff split: if_splits prod.splits)
  then obtain k where "a1 = (drop (n + k) p, track (take (n + k) p) (1, 1))" "n + k \<le> length p"
    using con Cons.prems by (metis add.right_neutral fst_conv le_add_diff_inverse length_drop nat_add_left_cancel_le)
  from Cons.IH[OF this] s show ?case by (auto split: prod.splits)
qed auto

end
