(* ===== verification/ByteCursor.thy ===== *)
theory ByteCursor
  imports CursorRun
begin

text \<open>
  The byte cursor of \<open>internal/strcursor/strcursor.go\<close>, which the parser reads through until the
  encoding is known, and its use as the reader of a UTF-8 cursor.  Its record is the one of the
  UTF-8 cursor with the field \<open>line\<close>, as the two Go structs have the same fields otherwise.
\<close>

subsection \<open>The cursor\<close>

record 'r byte_cursor = "'r cursor" +
  line :: string

definition NewByteCursor :: "'r \<Rightarrow> nat \<Rightarrow> 'r byte_cursor" where
  "NewByteCursor r bufsize =
     (let n = (if bufsize > 0 then bufsize else 4096) in
      \<lparr>buf = replicate n (CHR 0x00), buflen = n, bufpos = n, column = 1, inp = r, lineno = 1,
       readErr = None, line = []\<rparr>)"

function byte_fill_loop :: "'r reader \<Rightarrow> nat \<Rightarrow> nat \<Rightarrow> 'r byte_cursor \<Rightarrow> goerr option \<times> 'r byte_cursor" where
  "byte_fill_loop read n zeroProgress c =
     (if buflen c < n then
        (case read_more read c of (d, err, c1) \<Rightarrow>
           if length d = 0 \<and> err = None then
             (if zeroProgress + 1 \<ge> maxZeroProgressReads
              then (Some io_ErrNoProgress, c1\<lparr>readErr := Some io_ErrNoProgress\<rparr>)
              else byte_fill_loop read n (zeroProgress + 1) c1)
           else
             (case err of
                Some e \<Rightarrow> (if buflen c1 \<ge> n then (None, note_error e c1)
                           else if readErr (note_error e c1) \<noteq> None
                           then (readErr (note_error e c1), note_error e c1)
                           else (Some e, note_error e c1))
              | None \<Rightarrow> byte_fill_loop read n 0 c1))
      else (None, c))"
  by pat_completeness auto
termination
  by (relation "measures [\<lambda>(read, n, z, c). n - buflen c,
        \<lambda>(read, n, z, c). maxZeroProgressReads - z]")
    (auto dest!: read_more_fields sym[of "(_, _, _)"] simp: fill_progress[of _ 0, simplified])

declare byte_fill_loop.simps [simp del]

definition clear_rest :: "'r byte_cursor \<Rightarrow> 'r byte_cursor" where
  "clear_rest c = c\<lparr>buf := take (buflen c) (buf c) @ replicate (length (buf c) - buflen c) (CHR 0x00)\<rparr>"

definition byte_compact :: "'r byte_cursor \<Rightarrow> 'r byte_cursor" where
  "byte_compact c =
     (let remaining = buflen c - bufpos c in
      c\<lparr>buf := (if bufpos c > 0 \<and> remaining > 0 then copy_at (buf c) 0 (view c) else buf c),
        bufpos := 0, buflen := remaining\<rparr>)"

definition byte_fillBuffer :: "'r reader \<Rightarrow> nat \<Rightarrow> 'r byte_cursor \<Rightarrow> goerr option \<times> 'r byte_cursor" where
  "byte_fillBuffer read n c =
     (if buflen c - bufpos c \<ge> n then (None, c)
      else byte_fill_loop read n 0 (clear_rest (grow n (byte_compact c))))"

definition byte_Done :: "'r reader \<Rightarrow> 'r byte_cursor \<Rightarrow> bool \<times> 'r byte_cursor" where
  "byte_Done read c = (let (err, c) = byte_fillBuffer read 1 c in (err \<noteq> None, c))"

definition byte_Peek :: "'r reader \<Rightarrow> 'r byte_cursor \<Rightarrow> char \<times> 'r byte_cursor" where
  "byte_Peek read c =
     (let (err, c) = (if bufpos c \<ge> buflen c then byte_fillBuffer read 1 c else (None, c)) in
      if err \<noteq> None then (CHR 0x00, c) else (buf c ! bufpos c, c))"

definition byte_HasByteAt :: "'r reader \<Rightarrow> nat \<Rightarrow> 'r byte_cursor \<Rightarrow> bool \<times> 'r byte_cursor" where
  "byte_HasByteAt read offset c =
     (if bufpos c + offset \<ge> buflen c then
        (let (err, c) = byte_fillBuffer read (offset + 1) c in
         if err \<noteq> None then (False, c) else if bufpos c + offset \<ge> buflen c then (False, c) else (True, c))
      else (True, c))"

definition byte_PeekAt :: "'r reader \<Rightarrow> nat \<Rightarrow> 'r byte_cursor \<Rightarrow> char \<times> 'r byte_cursor" where
  "byte_PeekAt read offset c =
     (let (ok, c) = byte_HasByteAt read offset c in
      (if ok then buf c ! (bufpos c + offset) else CHR 0x00, c))"

definition byte_PeekRune :: "'r reader \<Rightarrow> 'r byte_cursor \<Rightarrow> nat \<times> 'r byte_cursor" where
  "byte_PeekRune read c =
     (let (b, c) = byte_Peek read c in (if byte b = 0 then rune_error else byte b, c))"

definition byte_PeekString :: "'r reader \<Rightarrow> nat \<Rightarrow> 'r byte_cursor \<Rightarrow> string \<times> 'r byte_cursor" where
  "byte_PeekString read n c =
     (let (err, c) = (if buflen c - bufpos c < n then byte_fillBuffer read n c else (None, c)) in
      if err \<noteq> None then ([], c)
      else if bufpos c + n > buflen c then ([], c)
      else (take n (drop (bufpos c) (buf c)), c))"

text \<open>\<open>bytes.IndexByte\<close>.\<close>

fun index_byte :: "string \<Rightarrow> char \<Rightarrow> nat option" where
  "index_byte [] b = None"
| "index_byte (c # cs) b = (if c = b then Some 0 else map_option Suc (index_byte cs b))"

definition byte_Advance :: "'r reader \<Rightarrow> nat \<Rightarrow> 'r byte_cursor \<Rightarrow> goerr option \<times> 'r byte_cursor" where
  "byte_Advance read n c =
     (let (err, c) = byte_fillBuffer read n c in
      if err \<noteq> None then (err, c)
      else
        let seg = take n (drop (bufpos c) (buf c));
            c = (case index_byte seg (CHR 0x0A) of
                   Some i \<Rightarrow> c\<lparr>lineno := lineno c + 1, column := n - i + 1, line := drop i seg\<rparr>
                 | None \<Rightarrow> c\<lparr>column := column c + n, line := line c @ seg\<rparr>) in
        (None, c\<lparr>bufpos := bufpos c + n\<rparr>))"

definition byte_AdvanceFast :: "'r reader \<Rightarrow> nat \<Rightarrow> 'r byte_cursor \<Rightarrow> goerr option \<times> 'r byte_cursor" where
  "byte_AdvanceFast read n c = byte_Advance read n c"

definition byte_hasPrefix :: "'r reader \<Rightarrow> string \<Rightarrow> bool \<Rightarrow> 'r byte_cursor \<Rightarrow> bool \<times> 'r byte_cursor" where
  "byte_hasPrefix read s consume c =
     (let n = length s; (err, c) = byte_fillBuffer read n c in
      if err \<noteq> None then (False, c)
      else if \<not> has_prefix (view c) s then (False, c)
      else (True, if consume then c\<lparr>bufpos := bufpos c + n\<rparr> else c))"

definition byte_HasPrefix :: "'r reader \<Rightarrow> string \<Rightarrow> 'r byte_cursor \<Rightarrow> bool \<times> 'r byte_cursor" where
  "byte_HasPrefix read s c = byte_hasPrefix read s False c"

definition byte_Consume :: "'r reader \<Rightarrow> string \<Rightarrow> 'r byte_cursor \<Rightarrow> bool \<times> 'r byte_cursor" where
  "byte_Consume read s c = byte_hasPrefix read s True c"

definition byte_HasPrefixString :: "'r reader \<Rightarrow> string \<Rightarrow> 'r byte_cursor \<Rightarrow> bool \<times> 'r byte_cursor" where
  "byte_HasPrefixString read s c = byte_hasPrefix read s False c"

definition byte_ConsumeString :: "'r reader \<Rightarrow> string \<Rightarrow> 'r byte_cursor \<Rightarrow> bool \<times> 'r byte_cursor" where
  "byte_ConsumeString read s c = byte_hasPrefix read s True c"

text \<open>\<open>ScanCharDataInto\<close> looks only at the bytes the buffer holds.\<close>

function byte_scan_loop :: "int \<Rightarrow> string \<Rightarrow> string \<Rightarrow> nat \<Rightarrow> string \<times> nat" where
  "byte_scan_loop maxBytes data dst i =
     (if \<not> i < length data then (dst, i)
      else if maxBytes > 0 \<and> int (length dst) \<ge> maxBytes then (dst, i)
      else let b = data ! i in
        if b = CHR ''<'' \<or> b = CHR ''&'' then (dst, i)
        else if byte b < 0x20 \<and> byte b \<noteq> 0x9 \<and> byte b \<noteq> 0xA \<and> byte b \<noteq> 0xD then (dst, i)
        else if b = CHR '']'' \<and> i + 2 < length data \<and> data ! (i + 1) = CHR '']'' \<and> data ! (i + 2) = CHR ''>''
        then (dst, i)
        else if b = CHR 0x0D then
          byte_scan_loop maxBytes data (dst @ [CHR 0x0A])
            (if i + 1 < length data \<and> data ! (i + 1) = CHR 0x0A then i + 2 else i + 1)
        else byte_scan_loop maxBytes data (dst @ [b]) (i + 1))"
  by pat_completeness auto
termination
  by (relation "measure (\<lambda>(m, data, dst, i). length data - i)") auto

definition byte_ScanCharDataInto ::
    "'r reader \<Rightarrow> string \<Rightarrow> int \<Rightarrow> 'r byte_cursor \<Rightarrow> (string \<times> nat) \<times> 'r byte_cursor" where
  "byte_ScanCharDataInto read dst maxBytes c =
     (let (err, c) = byte_fillBuffer read 1 c in
      if err \<noteq> None then ((dst, 0), c) else (byte_scan_loop maxBytes (view c) dst 0, c))"

definition ByteCursor_Read :: "'r reader \<Rightarrow> 'r byte_cursor reader" where
  "ByteCursor_Read read c n =
     (let avail = buflen c - bufpos c in
      if bufpos c < buflen c \<and> n < avail then (take n (view c), None, c\<lparr>bufpos := bufpos c + n\<rparr>)
      else
        let (front, room) = (if bufpos c < buflen c then (view c, n - avail) else ([], n));
            c = (if bufpos c < buflen c then c\<lparr>bufpos := buflen c\<rparr> else c);
            (d, err, r) = read (inp c) room;
            err = (if readErr c \<noteq> None \<and> (err = None \<or> err = Some io_EOF) then readErr c else err) in
        (front @ d, err, c\<lparr>inp := r\<rparr>))"

subsection \<open>Under the contract of the reader\<close>

context byte_source begin

lemma byte_prepared:
  assumes "good c"
  shows "moved c (clear_rest (grow m (byte_compact c)))" "bufpos (clear_rest (grow m (byte_compact c))) = 0"
    "m \<le> length (buf (clear_rest (grow m (byte_compact c))))"
proof -
  let ?c1 = "byte_compact c" and ?c2 = "grow m (byte_compact c)"
  have lc: "bufpos c \<le> buflen c" "buflen c \<le> length (buf c)" using assms by auto
  have len: "length (view c) = buflen c - bufpos c" using lc by simp
  have "take (length (view c)) (copy_at (buf c) 0 (view c)) = view c"
    using take_copy_at[of 0 "view c" "buf c"] len lc by simp
  then have v1: "view ?c1 = view c" "buflen ?c1 \<le> length (buf ?c1)" "bufpos ?c1 = 0" "buflen ?c1 = buflen c - bufpos c"
    using lc len by (auto simp: byte_compact_def Let_def view_def length_copy_at)
  note gr = grow_fields[OF v1(2), of m]
  have "view (clear_rest ?c2) = view ?c2" "length (buf (clear_rest ?c2)) = length (buf ?c2)"
    using gr by (auto simp: clear_rest_def view_def)
  moreover have "inp ?c1 = inp c" "lineno ?c1 = lineno c" "column ?c1 = column c" "readErr ?c1 = readErr c"
      "cursor.more ?c1 = cursor.more c"
    by (simp_all add: byte_compact_def Let_def)
  ultimately show "moved c (clear_rest ?c2)"
    using assms v1 gr by (auto simp: moved_def good_def pending_def clear_rest_def)
  show "bufpos (clear_rest ?c2) = 0" using gr v1 by (simp add: clear_rest_def)
  show "m \<le> length (buf (clear_rest ?c2))" using gr by (simp add: clear_rest_def)
qed

text \<open>The loop is the loop of the UTF-8 cursor: the sticky error is the error of the stream.\<close>

lemma byte_fill_loop_eq:
  "good c \<Longrightarrow> bufpos c = 0 \<Longrightarrow> byte_fill_loop read m z c = fill_loop read m z c"
proof (induction m z c rule: fill_loop_induct[where read = read])
  case (step m z c)
  obtain d e c1 where r: "read_more read c = (d, e, c1)" by (metis prod_cases3)
  note law = read_more_law[OF step.prems(1) r]
  have c1: "good c1" "bufpos c1 = 0" "fin (inp c1) = fin (inp c)"
    using law(1) read_more_fields[OF r] step.prems(2) by (auto simp: moved_def)
  have sticky: "readErr (note_error x c1) \<noteq> None \<longrightarrow> readErr (note_error x c1) = Some x" if "e = Some x" for x
  proof -
    have "x = fin (inp c)" using error_law[of "inp c" _ d x] law(6) step.prems(1) that by auto
    then show ?thesis using c1(1,3) by (auto simp: note_error_def good_def)
  qed
  show ?case
  proof (cases "buflen c < m")
    case False
    then show ?thesis using step.prems(2) by (simp add: byte_fill_loop.simps fill_loop.simps)
  next
    case True
    then have lt: "buflen c - bufpos c < m" using step.prems(2) by simp
    consider (err) x where "e = Some x" | (more) "e = None" "d \<noteq> []" | (idle) "e = None" "d = []" by (cases e) auto
    then show ?thesis
    proof cases
      case err
      with r True lt c1(2) sticky[OF err] show ?thesis
        by (simp add: byte_fill_loop.simps[of read m z c] fill_loop.simps[of read m z c])
    next
      case more
      with r True lt step.IH(2)[OF lt _ more(2) c1(1,2)] show ?thesis
        by (simp add: byte_fill_loop.simps[of read m z c] fill_loop.simps[of read m z c])
    next
      case idle
      with r True lt step.IH(1)[OF lt _ _ c1(1,2)] show ?thesis
        by (simp add: byte_fill_loop.simps[of read m z c] fill_loop.simps[of read m z c])
    qed
  qed
qed

lemma byte_filled:
  assumes "good c" "byte_fillBuffer read m c = (err, c')"
  shows "filled m c err c'"
proof (cases "buflen c - bufpos c \<ge> m")
  case True
  with assms have "err = None" "c' = c" by (auto simp: byte_fillBuffer_def)
  with True assms(1) show ?thesis by (auto simp: filled_def moved_refl)
next
  case False
  let ?c = "clear_rest (grow m (byte_compact c))"
  note k = byte_prepared[OF assms(1), of m]
  have "fill_loop read m 0 ?c = (err, c')"
    using False assms(2) byte_fill_loop_eq[OF moved_good[OF k(1)] k(2)] by (simp add: byte_fillBuffer_def)
  moreover have "stall (inp ?c) + 0 < maxZeroProgressReads" using stall_bound moved_good[OF k(1)] by auto
  ultimately have "filled m ?c err c'"
    using k by (intro fill_loop_filled) (auto dest: moved_good)
  then show ?thesis by (rule filled_trans[OF k(1)])
qed

lemma filled_cases:
  assumes "good c" "filled m c err c'"
  obtains (full) "err = None" "m \<le> length (pending c)" "m \<le> length (view c')" "moved c c'"
  | (short) "err = Some (fin (inp c))" "length (pending c) < m" "view c' = pending c" "ended c'" "moved c c'"
proof (cases err)
  case None
  then have f: "m \<le> length (view c')" "moved c c'" using assms(2) by (auto simp: filled_def)
  moreover have "length (view c') \<le> length (pending c)"
    using moved_pending[OF f(2)] pending_length_view[OF moved_good[OF f(2)]] by simp
  ultimately show thesis using None by (intro full) auto
next
  case (Some e)
  with assms(2) have "e = fin (inp c)" "length (pending c) < m" "ended c'" "moved c c'"
    by (auto simp: filled_def)
  moreover from this have "view c' = pending c" by (auto simp: ended_def moved_def pending_def)
  ultimately show thesis using Some by (intro short) auto
qed

lemma byte_drop:
  assumes "good c" "n \<le> length (view c)" "buf c' = buf c" "buflen c' = buflen c" "bufpos c' = bufpos c + n"
    "inp c' = inp c" "readErr c' = readErr c"
  shows "good c'" "pending c' = drop n (pending c)"
proof -
  have n: "n \<le> buflen c - bufpos c" using assms(2) goodD(2)[OF assms(1)] by simp
  then show "good c'" using assms by (auto simp: good_def)
  have "view c' = drop n (view c)" by (simp add: assms view_def add.commute)
  then show "pending c' = drop n (pending c)" using assms(2,6) by (simp add: pending_def)
qed

lemma byte_Advance_spec:
  assumes "good c" "byte_Advance read n c = (err, c')"
  shows "good c' \<and> fin (inp c') = fin (inp c) \<and> (err = None \<longleftrightarrow> n \<le> length (pending c)) \<and>
    pending c' = (if n \<le> length (pending c) then drop n (pending c) else pending c)"
proof -
  obtain e c1 where f: "byte_fillBuffer read n c = (e, c1)" by fastforce
  show ?thesis using assms(1) byte_filled[OF assms(1) f]
  proof (cases rule: filled_cases)
    case full
    then have "good c1" "pending c1 = pending c" "fin (inp c1) = fin (inp c)" by (auto simp: moved_def)
    then show ?thesis
      using assms(2) f full byte_drop[of c1 n c']
      by (auto simp: byte_Advance_def Let_def split: option.splits)
  next
    case short
    then show ?thesis using assms(2) f by (auto simp: byte_Advance_def moved_def)
  qed
qed

lemma byte_hasPrefix_spec:
  assumes "good c" "byte_hasPrefix read s consume c = (b, c')"
  shows "good c' \<and> fin (inp c') = fin (inp c) \<and> (b \<longleftrightarrow> has_prefix (pending c) s) \<and>
    pending c' = (if b \<and> consume then drop (length s) (pending c) else pending c)"
proof -
  obtain e c1 where f: "byte_fillBuffer read (length s) c = (e, c1)" by fastforce
  show ?thesis using assms(1) byte_filled[OF assms(1) f]
  proof (cases rule: filled_cases)
    case full
    then have c1: "good c1" "pending c1 = pending c" "fin (inp c1) = fin (inp c)" by (auto simp: moved_def)
    have "has_prefix (view c1) s = has_prefix (pending c) s"
      using has_prefix_append[OF full(3), of "rest (inp c1)"] c1(2) by (simp add: pending_def)
    then show ?thesis
      using assms(2) f full c1 byte_drop[OF c1(1) full(3), of "c1\<lparr>bufpos := bufpos c1 + length s\<rparr>"]
      by (auto simp: byte_hasPrefix_def Let_def split: if_splits)
  next
    case short
    then have "\<not> has_prefix (pending c) s" by (auto dest: prefix_fits)
    with short show ?thesis using assms(2) f by (auto simp: byte_hasPrefix_def Let_def moved_def)
  qed
qed

lemma byte_PeekString_spec:
  assumes "good c" "byte_PeekString read n c = (s, c')"
  shows "moved c c' \<and> s = (if n \<le> length (pending c) then take n (pending c) else [])"
proof -
  obtain e c1 where f: "byte_fillBuffer read n c = (e, c1)" by fastforce
  have guard: "(if buflen c - bufpos c < n then byte_fillBuffer read n c else (None, c)) = (e, c1)"
    using f by (auto simp: byte_fillBuffer_def)
  show ?thesis using assms(1) byte_filled[OF assms(1) f]
  proof (cases rule: filled_cases)
    case full
    then have g: "good c1" and p: "pending c1 = pending c" by (auto simp: moved_def)
    have "n \<le> buflen c1 - bufpos c1" using full(3) goodD[OF g] by simp
    then have "bufpos c1 + n \<le> buflen c1" using goodD(1)[OF g] by linarith
    then show ?thesis using assms(2) guard full take_buf[OF g full(3)] p by (auto simp: byte_PeekString_def)
  next
    case short
    then show ?thesis using assms(2) guard by (auto simp: byte_PeekString_def)
  qed
qed

lemma byte_Done_spec:
  assumes "good c" "byte_Done read c = (b, c')"
  shows "moved c c' \<and> (b \<longleftrightarrow> pending c = [])"
proof -
  obtain e c1 where f: "byte_fillBuffer read 1 c = (e, c1)" by fastforce
  show ?thesis using assms(1) byte_filled[OF assms(1) f]
    by (cases rule: filled_cases) (use assms(2) f in \<open>auto simp: byte_Done_def\<close>)
qed

lemma byte_new_good: "ok r \<Longrightarrow> good (NewByteCursor r n) \<and> pending (NewByteCursor r n) = rest r \<and> inp (NewByteCursor r n) = r"
  by (simp add: NewByteCursor_def good_def pending_def view_def)

subsection \<open>The byte cursor as a reader\<close>

lemma byte_read_law:
  assumes g: "good c" and r: "ByteCursor_Read read c n = (d, err, c')"
  shows "good c' \<and> length d \<le> n \<and> pending c = d @ pending c' \<and> fin (inp c') = fin (inp c) \<and>
      (\<forall>e. err = Some e \<longrightarrow> pending c' = [] \<and> e = fin (inp c)) \<and>
      (0 < n \<and> d = [] \<and> err = None \<longrightarrow> stall (inp c') < stall (inp c))"
proof -
  have len: "length (view c) = buflen c - bufpos c" using goodD(2)[OF g] by simp
  show ?thesis
  proof (cases "bufpos c < buflen c \<and> n < buflen c - bufpos c")
    case True
    then have eq: "d = take n (view c)" "err = None" "c' = c\<lparr>bufpos := bufpos c + n\<rparr>"
      using r by (auto simp: ByteCursor_Read_def Let_def)
    have "good c'" "pending c' = drop n (pending c)"
      using byte_drop[OF g, of n c'] True len by (auto simp: eq)
    moreover have "take n (view c) = take n (pending c)" using True len by (simp add: pending_def)
    ultimately show ?thesis using True len by (auto simp: eq)
  next
    case False
    define room where "room = (if bufpos c < buflen c then n - (buflen c - bufpos c) else n)"
    obtain d2 e2 r' where rd: "read (inp c) room = (d2, e2, r')" by (metis prod_cases3)
    have eq: "d = view c @ d2" "c' = c\<lparr>bufpos := buflen c, inp := r'\<rparr>"
        "err = (if readErr c \<noteq> None \<and> (e2 = None \<or> e2 = Some io_EOF) then readErr c else e2)"
    proof -
      have "bufpos c = buflen c \<and> view c = []" if "\<not> bufpos c < buflen c"
        using that goodD(1)[OF g] by (simp add: view_def)
      then show "d = view c @ d2" "c' = c\<lparr>bufpos := buflen c, inp := r'\<rparr>"
        "err = (if readErr c \<noteq> None \<and> (e2 = None \<or> e2 = Some io_EOF) then readErr c else e2)"
        using r rd False by (auto simp: ByteCursor_Read_def Let_def room_def split: if_splits)
    qed
    note l = read_law[OF goodD(3)[OF g] rd]
    have "view c' = []" by (simp add: eq view_def)
    moreover have "length (view c) + length d2 \<le> n"
      using l len False by (auto simp: room_def split: if_splits)
    moreover have "good c'" using g l by (auto simp: good_def eq)
    moreover have "\<forall>e. err = Some e \<longrightarrow> rest r' = [] \<and> e = fin (inp c)"
      using error_law[OF goodD(3)[OF g]] rd l g by (auto simp: eq(3) good_def split: if_splits)
    moreover have "stall r' < stall (inp c)" if "0 < n" "d = []" "err = None"
    proof -
      have "\<not> bufpos c < buflen c" using that(2) len by (auto simp: eq)
      moreover have "e2 = None" using that(3) by (auto simp: eq(3) split: if_splits)
      ultimately show ?thesis using stall_law[OF goodD(3)[OF g], of n r'] rd that by (simp add: room_def eq)
    qed
    ultimately show ?thesis using l by (auto simp: eq pending_def)
  qed
qed

lemma byte_cursor_source:
  "byte_source (ByteCursor_Read read) good pending (\<lambda>c. fin (inp c)) (\<lambda>c. stall (inp c))"
  by unfold_locales (use byte_read_law stall_bound in blast)+

end

end
