(* ===== verification/CursorChunks.thy ===== *)
theory CursorChunks
  imports CursorRun
begin

text \<open>
  The parser's chunked delivery of character data: \<open>deliverCharacters\<close> of \<open>parserctx.go\<close>,
  \<open>literalBytesValid\<close> of \<open>parser_content.go\<close> and \<open>streamCharDataChunks\<close> of \<open>parser_element.go\<close>, the
  loop that scans a run piece by piece, consumes each piece and hands it to the SAX handler.

  The handler is a parameter, a function of the data and of a state \<open>'h\<close> of its own, from which
  \<open>stopped\<close> reads whether it asked the parser to stop and \<open>ctxErr\<close> what \<open>ctx.Err\<close> returns.  The
  errors keep their origin: \<open>Raised\<close> is an error passed to \<open>parserCtx.error\<close>, which adds the
  position and is not modelled.
\<close>

subsection \<open>Literal characters\<close>

definition isXMLCharValue :: "nat \<Rightarrow> bool" where
  "isXMLCharValue c =
     (if c < 0x100 then (0x9 \<le> c \<and> c \<le> 0xA) \<or> c = 0xD \<or> 0x20 \<le> c
      else (0x100 \<le> c \<and> c \<le> 0xD7FF) \<or> (0xE000 \<le> c \<and> c \<le> 0xFFFD) \<or> (0x10000 \<le> c \<and> c \<le> 0x10FFFF))"

definition isXML11CharValue :: "nat \<Rightarrow> bool" where
  "isXML11CharValue c =
     (if c = 0 then False
      else if c < 0x100 then True
      else (0x100 \<le> c \<and> c \<le> 0xD7FF) \<or> (0xE000 \<le> c \<and> c \<le> 0xFFFD) \<or> (0x10000 \<le> c \<and> c \<le> 0x10FFFF))"

definition isXML11RestrictedLiteral :: "nat \<Rightarrow> bool" where
  "isXML11RestrictedLiteral r \<longleftrightarrow>
     (0x1 \<le> r \<and> r \<le> 0x8) \<or> r = 0xB \<or> r = 0xC \<or> (0xE \<le> r \<and> r \<le> 0x1F) \<or>
     (0x7F \<le> r \<and> r \<le> 0x84) \<or> (0x86 \<le> r \<and> r \<le> 0x9F)"

definition isLiteralCharValue :: "bool \<Rightarrow> nat \<Rightarrow> bool" where
  "isLiteralCharValue xml11 c =
     (if xml11 then isXML11CharValue c \<and> \<not> isXML11RestrictedLiteral c else isXMLCharValue c)"

definition isLiteralCharWidth :: "bool \<Rightarrow> nat \<Rightarrow> nat \<Rightarrow> bool" where
  "isLiteralCharWidth xml11 r w = (if r = rune_error \<and> w = 1 then False else isLiteralCharValue xml11 r)"

function literalBytesValid :: "bool \<Rightarrow> string \<Rightarrow> bool" where
  "literalBytesValid xml11 b =
     (if b = [] then True
      else let (r, w) = decode_rune b in
        if \<not> isLiteralCharWidth xml11 r w then False else literalBytesValid xml11 (drop w b))"
  by pat_completeness auto
termination
  by (relation "measure (\<lambda>(x, b). length b)") (simp_all add: decode_rune_drop_less del: length_drop)

declare literalBytesValid.simps [simp del]

subsection \<open>Delivery\<close>

record 'h text_ctx =
  handler :: "string \<Rightarrow> 'h \<Rightarrow> goerr option \<times> 'h"
  stopped :: "'h \<Rightarrow> bool"
  ctxErr :: "'h \<Rightarrow> goerr option"
  disableSAX :: bool
  charBufferSize :: int
  xml11 :: bool

datatype text_error = ParserStopped | Cancelled goerr | Raised goerr | ReadError goerr

definition ErrHandlerUnspecified :: goerr where
  "ErrHandlerUnspecified = External ''handler unspecified''"

definition ErrInvalidChar :: goerr where
  "ErrInvalidChar = External ''invalid char''"

text \<open>One call of the handler, with the check for a stop behind it.\<close>

definition deliver_one :: "'h text_ctx \<Rightarrow> string \<Rightarrow> 'h \<Rightarrow> text_error option \<times> 'h" where
  "deliver_one x data h =
     (let (err, h) = handler x data h in
      case err of
        None \<Rightarrow> (if stopped x h then Some ParserStopped else None, h)
      | Some e \<Rightarrow>
          (if e = ErrHandlerUnspecified then (if stopped x h then Some ParserStopped else None, h)
           else (Some (Raised e), h)))"

text \<open>\<open>utf8.RuneStart\<close>, and the two walks to a character boundary.\<close>

definition rune_start :: "char \<Rightarrow> bool" where
  "rune_start b \<longleftrightarrow> \<not> cont_byte (byte b)"

fun walk_back :: "string \<Rightarrow> nat \<Rightarrow> nat" where
  "walk_back data 0 = 0"
| "walk_back data (Suc e) = (if \<not> rune_start (data ! Suc e) then walk_back data e else Suc e)"

function walk_forward :: "string \<Rightarrow> nat \<Rightarrow> nat" where
  "walk_forward data e =
     (if e < length data \<and> \<not> rune_start (data ! e) then walk_forward data (e + 1) else e)"
  by pat_completeness auto
termination
  by (relation "measure (\<lambda>(data, e). length data - e)") auto

declare walk_forward.simps [simp del]

definition chunk_end :: "nat \<Rightarrow> string \<Rightarrow> nat" where
  "chunk_end bufSize data =
     (if bufSize \<ge> length data then length data
      else let e = walk_back data bufSize in if e = 0 then walk_forward data bufSize else e)"

lemma walk_forward_le: "e \<le> walk_forward data e"
  by (induction data e rule: walk_forward.induct) (subst walk_forward.simps, auto)

lemma chunk_end_pos: "0 < n \<Longrightarrow> data \<noteq> [] \<Longrightarrow> 0 < chunk_end n data"
  using walk_forward_le[of n data] by (auto simp: chunk_end_def Let_def)

text \<open>The chunked loop of \<open>deliverCharacters\<close>; its buffer size is positive.\<close>

function deliver_loop :: "'h text_ctx \<Rightarrow> nat \<Rightarrow> string \<Rightarrow> 'h \<Rightarrow> text_error option \<times> 'h" where
  "deliver_loop x bufSize data h =
     (if data = [] \<or> bufSize = 0 then (None, h)
      else if stopped x h then (Some ParserStopped, h)
      else let e = chunk_end bufSize data; (err, h1) = deliver_one x (take e data) h in
        if err \<noteq> None then (err, h1) else deliver_loop x bufSize (drop e data) h1)"
  by pat_completeness auto
termination
  by (relation "measure (\<lambda>(x, n, data, h). length data)") (auto dest: chunk_end_pos)

declare deliver_loop.simps [simp del]

definition deliverCharacters :: "'h text_ctx \<Rightarrow> string \<Rightarrow> 'h \<Rightarrow> text_error option \<times> 'h" where
  "deliverCharacters x data h =
     (if disableSAX x then (None, h)
      else if charBufferSize x \<le> 0 \<or> int (length data) \<le> charBufferSize x then deliver_one x data h
      else deliver_loop x (nat (charBufferSize x)) data h)"

partial_function (option) streamCharDataChunks ::
    "'r reader \<Rightarrow> 'h text_ctx \<Rightarrow> int \<Rightarrow> 'h \<Rightarrow> 'r cursor \<Rightarrow> (text_error option \<times> 'h \<times> 'r cursor) option" where
  "streamCharDataChunks read x limit h c =
     (if stopped x h then Some (Some ParserStopped, h, c)
      else case ctxErr x h of
          Some e \<Rightarrow> Some (Some (Cancelled e), h, c)
        | None \<Rightarrow>
            (case ScanCharDataSlice read [] limit c of
               None \<Rightarrow> None
             | Some ((data, i), c1) \<Rightarrow>
                 if i = 0 then Some (None, h, c1)
                 else if \<not> literalBytesValid (xml11 x) data then Some (Some (Raised ErrInvalidChar), h, c1)
                 else (case AdvanceFast read i c1 of
                     (Some e, c2) \<Rightarrow> Some (Some (ReadError e), h, c2)
                   | (None, c2) \<Rightarrow>
                       (case deliverCharacters x data h of
                          (Some e, h1) \<Rightarrow> Some (Some e, h1, c2)
                        | (None, h1) \<Rightarrow> streamCharDataChunks read x limit h1 c2))))"

end
