(* ===== verification/CursorProps.thy ===== *)
theory CursorProps
  imports CursorChunks
begin

text \<open>
  The properties of the cursor and of the chunked delivery, over every reader that keeps the
  contract \<open>byte_source\<close> and every cursor a run of operations can reach.
\<close>

subsection \<open>Units of character data are valid text\<close>

lemma text_unit_decode:
  assumes "text_unit s = Some (t, w)"
  obtains r where "decode_rune t = (r, length t)" "\<not> ill_formed r (length t)" "IsChar r" "t \<noteq> []"
    "length t \<le> 4"
proof (cases "hd s = CHR 0x0D")
  case True
  then have "t = [CHR 0x0A]" using assms by (auto simp: text_unit_def split: if_splits prod.splits)
  then show thesis by (intro that[of 10]) (simp_all add: decode_rune_ascii IsChar_def rune_error_def)
next
  case False
  obtain r v where d: "decode_rune s = (r, v)" by fastforce
  then have u: "t = take w s" "w = v" "\<not> ill_formed r w" "IsChar r" "s \<noteq> []"
    using assms False by (auto simp: text_unit_def split: if_splits)
  have w: "0 < w" "w \<le> length s"
    using decode_rune_width_pos[OF u(5)] decode_rune_width_le[of s] d u(2) by auto
  have "decode_rune (take w s @ []) = (r, w)"
    using decode_rune_prefix[OF d, of "[]"] u by auto
  then show thesis using that[of r] u w text_unit_small[OF assms] by auto
qed

lemma decode_append:
  assumes "decode_rune t = (r, length t)" "\<not> ill_formed r (length t)" "t \<noteq> []"
  shows "decode_rune (t @ u) = (r, length t)"
  using decode_rune_prefix[OF assms(1), of u] assms(2,3) by auto

lemma literal_step:
  "decode_rune s = (r, w) \<Longrightarrow> s \<noteq> [] \<Longrightarrow>
     literalBytesValid x s \<longleftrightarrow> isLiteralCharWidth x r w \<and> literalBytesValid x (drop w s)"
  by (subst literalBytesValid.simps) simp

lemma isXMLCharValue_IsChar: "isXMLCharValue c = IsChar c"
  by (auto simp: isXMLCharValue_def IsChar_def)

lemma text_cut_valid: "text_cut s out n \<Longrightarrow> valid_utf8 out \<and> literalBytesValid False out"
proof (induction rule: text_cut.induct)
  case (nothing s)
  show ?case by (simp add: literalBytesValid.simps)
next
  case (one_more s t w out n)
  from one_more.hyps(1) obtain r where t: "decode_rune t = (r, length t)" "\<not> ill_formed r (length t)" "IsChar r" "t \<noteq> []"
    by (rule text_unit_decode)
  note d = decode_append[OF t(1,2,4), of out]
  have ne: "t @ out \<noteq> []" using t(4) by simp
  show ?case
    using valid_utf8_step[OF d ne] literal_step[OF d ne, of False] one_more.IH t(2,3)
    by (auto simp: isLiteralCharWidth_def isLiteralCharValue_def isXMLCharValue_IsChar)
qed

subsection \<open>Cutting valid text at a character\<close>

lemma rune_tail_cont:
  assumes "decode_rune s = (r, n)" "\<not> ill_formed r n" "0 < i" "i < n"
  shows "\<not> rune_start (s ! i)"
  using assms(1)
proof (cases rule: decode_rune_cases)
  case err
  with assms show ?thesis by auto
next
  case (two c0 c1 t a d)
  then have "i = 1" using assms(3,4) by simp
  with two show ?thesis by (simp add: rune_start_def cont_byte_def)
next
  case (three c0 c1 c2 t a c d)
  then have "i = 1 \<or> i = 2" using assms(3,4) by linarith
  with three show ?thesis by (elim disjE) (simp_all add: rune_start_def cont_byte_def)
next
  case (four c0 c1 c2 c3 t a b c d)
  then have "i = 1 \<or> i = 2 \<or> i = 3" using assms(3,4) by linarith
  with four show ?thesis by (elim disjE) (simp_all add: rune_start_def cont_byte_def)
qed (use assms(3,4) in simp)

lemma rune_head_start:
  assumes "decode_rune s = (r, n)" "\<not> ill_formed r n" "s \<noteq> []"
  shows "rune_start (s ! 0)"
  using assms(1)
proof (cases rule: decode_rune_cases)
  case err
  with assms decode_rune_width_pos[of s] show ?thesis by auto
qed (auto simp: rune_start_def cont_byte_def)

lemma valid_cut:
  "valid_utf8 s \<Longrightarrow> e < length s \<Longrightarrow> rune_start (s ! e) \<Longrightarrow> valid_utf8 (take e s) \<and> valid_utf8 (drop e s)"
proof (induction s arbitrary: e rule: length_induct)
  case (1 s)
  then have ne: "s \<noteq> []" by auto
  obtain r n where d: "decode_rune s = (r, n)" by fastforce
  have v: "\<not> ill_formed r n" "valid_utf8 (drop n s)" using valid_utf8_step[OF d ne] 1(2) by auto
  have n: "0 < n" "n \<le> length s" using decode_rune_width_pos[OF ne] decode_rune_width_le[of s] d by auto
  show ?case
  proof (cases "e = 0")
    case False
    then have "n \<le> e" using rune_tail_cont[OF d v(1), of e] 1(4) by (meson not_le not_gr_zero)
    have "valid_utf8 (take (e - n) (drop n s)) \<and> valid_utf8 (drop (e - n) (drop n s))"
      using 1(1)[rule_format, of "drop n s" "e - n"] n v(2) 1(3,4) \<open>n \<le> e\<close> ne by simp
    moreover have "decode_rune (take e s) = (r, n)"
    proof -
      have "take e s = take n s @ take (e - n) (drop n s)"
        using \<open>n \<le> e\<close> by (metis le_add_diff_inverse take_add)
      then show ?thesis using decode_rune_prefix[OF d, of "take (e - n) (drop n s)"] v(1) ne by auto
    qed
    then have "valid_utf8 (take e s) = valid_utf8 (drop n (take e s))"
      using valid_utf8_step[of "take e s" r n] v(1) False ne by auto
    ultimately show ?thesis using \<open>n \<le> e\<close> by (simp add: drop_take)
  qed (use 1 in simp)
qed

subsection \<open>Chunks\<close>

lemma walk_back_spec:
  "walk_back data e \<le> e \<and> (walk_back data e = 0 \<or> rune_start (data ! walk_back data e)) \<and>
     (\<forall>i. walk_back data e < i \<and> i \<le> e \<longrightarrow> \<not> rune_start (data ! i))"
  by (induction e) (auto simp: le_Suc_eq)

lemma walk_forward_spec:
  "k \<le> n \<Longrightarrow> n \<le> length data \<Longrightarrow> (\<forall>i. k \<le> i \<and> i < n \<longrightarrow> \<not> rune_start (data ! i)) \<Longrightarrow>
     n = length data \<or> rune_start (data ! n) \<Longrightarrow> walk_forward data k = n"
proof (induction "n - k" arbitrary: k)
  case 0
  then show ?case by (subst walk_forward.simps) auto
next
  case (Suc d)
  then have "walk_forward data (k + 1) = n" by (intro Suc.hyps(1)) auto
  moreover have "k < length data \<and> \<not> rune_start (data ! k)" using Suc.hyps(2) Suc.prems by auto
  ultimately show ?case by (subst walk_forward.simps) simp
qed

lemma single_rune:
  assumes "decode_rune s = (r, n)" "\<not> ill_formed r n" "s \<noteq> []"
  shows "runes (take n s) = [r]" "valid_utf8 (take n s)"
proof -
  have n: "0 < n" "n \<le> length s" using decode_rune_width_pos[OF assms(3)] decode_rune_width_le[of s] assms(1) by auto
  have d: "decode_rune (take n s) = (r, n)" using decode_rune_prefix[OF assms(1), of "[]"] assms by auto
  have ne: "take n s \<noteq> []" using n assms(3) by simp
  show "runes (take n s) = [r]" using runes_step[OF d ne] by simp
  show "valid_utf8 (take n s)" using valid_utf8_step[OF d ne] assms(2) by simp
qed

lemma chunk_end_valid:
  assumes v: "valid_utf8 data" and ne: "data \<noteq> []" and k: "0 < k"
  shows "chunk_end k data \<le> length data" "valid_utf8 (take (chunk_end k data) data)"
    "valid_utf8 (drop (chunk_end k data) data)"
    "chunk_end k data \<le> k \<or> length (runes (take (chunk_end k data) data)) = 1"
proof -
  let ?e = "chunk_end k data"
  have "?e \<le> length data \<and> valid_utf8 (take ?e data) \<and> valid_utf8 (drop ?e data) \<and>
      (?e \<le> k \<or> length (runes (take ?e data)) = 1)"
  proof (cases "length data \<le> k")
    case True
    then show ?thesis using v by (simp add: chunk_end_def)
  next
    case len: False
    note wb = walk_back_spec[of data k]
    show ?thesis
    proof (cases "walk_back data k = 0")
      case False
      then have "?e = walk_back data k" "?e \<le> k" using len wb by (auto simp: chunk_end_def Let_def)
      then show ?thesis using valid_cut[OF v, of ?e] wb False len by auto
    next
      case True
      obtain r n where d: "decode_rune data = (r, n)" by fastforce
      have w: "\<not> ill_formed r n" "valid_utf8 (drop n data)" using valid_utf8_step[OF d ne] v by auto
      have n: "0 < n" "n \<le> length data" using decode_rune_width_pos[OF ne] decode_rune_width_le[of data] d by auto
      have start: "n = length data \<or> rune_start (data ! n)"
      proof (cases "n < length data")
        case True
        obtain r2 n2 where d2: "decode_rune (drop n data) = (r2, n2)" by fastforce
        have "drop n data \<noteq> []" using True by simp
        from rune_head_start[OF d2 _ this] valid_utf8_step[OF d2 this] w(2) True show ?thesis by simp
      qed (use n in simp)
      have "k < n"
      proof (rule ccontr)
        assume "\<not> k < n"
        then have "\<not> rune_start (data ! n)" using wb True n(1) by auto
        with start len \<open>\<not> k < n\<close> show False by auto
      qed
      have "walk_forward data k = n"
        using rune_tail_cont[OF d w(1)] k \<open>k < n\<close> n start by (intro walk_forward_spec) auto
      then have "?e = n" using len True by (simp add: chunk_end_def)
      then show ?thesis using single_rune[OF d w(1) ne] w(2) n by simp
    qed
  qed
  then show "?e \<le> length data" "valid_utf8 (take ?e data)" "valid_utf8 (drop ?e data)"
    "?e \<le> k \<or> length (runes (take ?e data)) = 1" by auto
qed

text \<open>A handler that records what it is given, and what it may be given at most.\<close>

definition recorder :: "int \<Rightarrow> string list text_ctx" where
  "recorder n = \<lparr>handler = (\<lambda>d h. (None, h @ [d])), stopped = (\<lambda>_. False), ctxErr = (\<lambda>_. None),
     disableSAX = False, charBufferSize = n, xml11 = False\<rparr>"

definition small_text :: "int \<Rightarrow> string \<Rightarrow> bool" where
  "small_text n p \<longleftrightarrow> p \<noteq> [] \<and> valid_utf8 p \<and> (0 < n \<and> n < int (length p) \<longrightarrow> length (runes p) = 1)"

lemma deliver_one_recorder [simp]: "deliver_one (recorder n) d h = (None, h @ [d])"
  by (simp add: deliver_one_def recorder_def)

lemma recorder_simps [simp]:
  "stopped (recorder n) h = False" "ctxErr (recorder n) h = None" "disableSAX (recorder n) = False"
  "charBufferSize (recorder n) = n" "xml11 (recorder n) = False"
  by (simp_all add: recorder_def)

lemma deliver_loop_recorder:
  "valid_utf8 data \<Longrightarrow> 0 < k \<Longrightarrow>
     \<exists>ps. deliver_loop (recorder n) k data h = (None, h @ ps) \<and> concat ps = data \<and>
       list_all (small_text (int k)) ps"
proof (induction data arbitrary: h rule: length_induct)
  case (1 data)
  show ?case
  proof (cases "data = []")
    case False
    let ?e = "chunk_end k data"
    note c = chunk_end_valid[OF 1(2) False 1(3)]
    have e: "0 < ?e" using chunk_end_pos[OF 1(3) False] .
    obtain ps where ps: "deliver_loop (recorder n) k (drop ?e data) (h @ [take ?e data]) = (None, (h @ [take ?e data]) @ ps)"
        "concat ps = drop ?e data" "list_all (small_text (int k)) ps"
      using 1(1)[rule_format, of "drop ?e data" "h @ [take ?e data]"] e c(3) 1(3) False by auto
    have "deliver_loop (recorder n) k data h = (None, h @ (take ?e data # ps))"
      using False 1(3) ps(1) by (subst deliver_loop.simps) (simp add: Let_def)
    moreover have "small_text (int k) (take ?e data)"
      using c e False by (auto simp: small_text_def)
    ultimately show ?thesis using ps(2,3) by (intro exI[of _ "take ?e data # ps"]) simp
  qed (auto simp: deliver_loop.simps intro: exI[of _ "[]"])
qed

lemma deliverCharacters_recorder:
  assumes "valid_utf8 data" "data \<noteq> []"
  shows "\<exists>ps. deliverCharacters (recorder n) data h = (None, h @ ps) \<and> concat ps = data \<and>
     list_all (small_text n) ps"
proof (cases "n \<le> 0 \<or> int (length data) \<le> n")
  case True
  then show ?thesis using assms by (auto simp: deliverCharacters_def small_text_def intro!: exI[of _ "[data]"])
next
  case False
  then show ?thesis using deliver_loop_recorder[OF assms(1), of "nat n" n h]
    by (auto simp: deliverCharacters_def)
qed

lemma text_cut_nonempty: "text_cut s out n \<Longrightarrow> 0 < n \<Longrightarrow> out \<noteq> []"
  by (induction rule: text_cut.induct) (auto elim: text_unit_decode)

context byte_source begin

lemma stream_step:
  assumes "good c"
  obtains out i c1 c2 where "ScanCharDataSlice read [] limit c = Some ((out, i), c1)"
    "moved c c1" "text_cut (pending c) out i" "i = 0 \<Longrightarrow> text_unit (pending c) = None"
    "AdvanceFast read i c1 = (None, c2)" "consumed i c c2"
proof -
  obtain out i c1 where s: "ScanCharDataSlice read [] limit c = Some (([] @ out, i), c1)" "moved c c1"
      "text_cut (pending c) out i" "i = 0 \<longrightarrow> text_unit (pending c) = None"
    using ScanCharDataSlice_spec[OF assms, of "[]" limit] by metis
  obtain e c2 where a: "AdvanceFast read i c1 = (e, c2)" by fastforce
  have "i \<le> length (pending c1)" using text_cut_le[OF s(3)] moved_pending[OF s(2)] by simp
  then have "e = None" "consumed i c1 c2"
    using AdvanceFast_spec[OF moved_good[OF s(2)] a] by auto
  with that[of out i c1 c2] s a show thesis using consumed_after[OF s(2)] by simp
qed

lemma stream_delivers:
  "good c \<Longrightarrow> \<exists>ps c'. streamCharDataChunks read (recorder n) limit h c = Some (None, h @ ps, c') \<and>
     list_all (small_text n) ps \<and> concat ps = fst (run_text (pending c)) \<and>
     consumed (snd (run_text (pending c))) c c'"
proof (induction "length (pending c)" arbitrary: c h rule: less_induct)
  case less
  from stream_step[OF less.prems] obtain out i c1 c2 where s: "ScanCharDataSlice read [] limit c = Some ((out, i), c1)"
    and m1: "moved c c1" and cut: "text_cut (pending c) out i" and zero: "i = 0 \<Longrightarrow> text_unit (pending c) = None"
    and adv: "AdvanceFast read i c1 = (None, c2)" and con: "consumed i c c2" by blast
  show ?case
  proof (cases "i = 0")
    case True
    then have "streamCharDataChunks read (recorder n) limit h c = Some (None, h @ [], c1)"
      using s by (subst streamCharDataChunks.simps) simp
    moreover have "consumed 0 c c1" using m1 by (auto simp: consumed_def moved_def)
    ultimately show ?thesis using run_text_stop[OF zero[OF True]]
      by (intro exI[of _ "[]"] exI[of _ c1]) simp
  next
    case False
    then have ne: "out \<noteq> []" using text_cut_nonempty[OF cut] by simp
    have v: "valid_utf8 out" "literalBytesValid False out" using text_cut_valid[OF cut] by auto
    obtain ps where ps: "deliverCharacters (recorder n) out h = (None, h @ ps)" "concat ps = out"
        "list_all (small_text n) ps"
      using deliverCharacters_recorder[OF v(1) ne] by blast
    have g2: "good c2" and p2: "pending c2 = drop i (pending c)" using con by (auto simp: consumed_def)
    have "0 < length (pending c)" using False text_cut_le[OF cut] by linarith
    then obtain qs c3 where q: "streamCharDataChunks read (recorder n) limit (h @ ps) c2 = Some (None, (h @ ps) @ qs, c3)"
        "list_all (small_text n) qs" "concat qs = fst (run_text (pending c2))"
        "consumed (snd (run_text (pending c2))) c2 c3"
      using less.hyps[OF _ g2, of "h @ ps"] p2 False by auto
    have "streamCharDataChunks read (recorder n) limit h c = Some (None, h @ (ps @ qs), c3)"
      using s False v(2) adv ps(1) q(1) by (subst streamCharDataChunks.simps) simp
    moreover have "consumed (i + snd (run_text (pending c2))) c c3"
      using con q(4) p2 by (auto simp: consumed_def track_append take_add add.commute)
    ultimately show ?thesis
      using run_text_cut[OF cut] ps(2,3) q(2,3) p2
      by (intro exI[of _ "ps @ qs"] exI[of _ c3]) (simp split: prod.splits)
  qed
qed

end

end
