(* ===== verification/CursorClaims.thy ===== *)
theory CursorClaims
  imports CursorProps
begin

text \<open>
  The claims about the cursor, with what the name and attribute scans compute in terms of the
  names and characters of the specification.
\<close>

subsection \<open>Decoding a prefix and its extension\<close>

lemma decode_extend:
  assumes "decode_rune (take m s) = (r, w)" "\<not> ill_formed r w" "take m s \<noteq> []"
  shows "decode_rune s = (r, w)" "w \<le> m" "w \<le> length s"
proof -
  have w: "w \<le> length (take m s)" using decode_rune_width_le[of "take m s"] assms(1) by simp
  then show "w \<le> m" "w \<le> length s" by auto
  then have "take w (take m s) @ drop w s = s" by (simp add: min_def)
  then show "decode_rune s = (r, w)"
    using decode_rune_prefix[OF assms(1), of "drop w s"] assms(2,3) by auto
qed

lemma decode_restrict:
  assumes "decode_rune s = (r, w)" "\<not> ill_formed r w" "s \<noteq> []" "w \<le> m"
  shows "decode_rune (take m s) = (r, w)"
proof -
  have "take m s = take w s @ take (m - w) (drop w s)" using assms(4) by (metis le_add_diff_inverse take_add)
  then show ?thesis using decode_rune_prefix[OF assms(1), of "take (m - w) (drop w s)"] assms(2,3) by auto
qed

lemma drop_take_step: "w \<le> m \<Longrightarrow> drop w (take m s) = take (m - w) (drop w s)"
  by (simp add: drop_take)

subsection \<open>Names\<close>

lemma ncname_loop_step:
  assumes "decode_rune s = (r, w)" "s \<noteq> []"
  shows "ncname_loop first s \<longleftrightarrow> \<not> ill_formed r w \<and>
     (if first then IsNCNameStartChar r else IsNCNameChar r) \<and> ncname_loop False (drop w s)"
  using assms by (subst ncname_loop.simps) auto

lemma ncname_loop_Nil [simp]: "ncname_loop first []"
  by (subst ncname_loop.simps) simp

lemma nc_tail_longest:
  "nc_tail s = (b, k) \<Longrightarrow> b \<le> length s \<and> ncname_loop False (take b s) \<and> k = length (runes (take b s)) \<and>
     (\<forall>m. m \<le> length s \<and> ncname_loop False (take m s) \<longrightarrow> m \<le> b)"
proof (induction s arbitrary: b k rule: length_induct)
  case (1 s)
  show ?case
  proof (cases "s = []")
    case False
    obtain r w where d: "decode_rune s = (r, w)" by fastforce
    have w: "0 < w" "w \<le> length s" using decode_rune_width_pos[OF False] decode_rune_width_le[of s] d by auto
    have head: "decode_rune s = (r2, w2) \<and> w2 \<le> m \<and> \<not> ill_formed r2 w2 \<and> IsNCNameChar r2 \<and>
        ncname_loop False (take (m - w2) (drop w2 s))"
      if "ncname_loop False (take m s)" "0 < m" "decode_rune (take m s) = (r2, w2)" for m r2 w2
      using that False ncname_loop_step[OF that(3), of False] decode_extend[OF that(3)]
      by (auto simp: drop_take_step)
    show ?thesis
    proof (cases "ill_formed r w \<or> \<not> IsNCNameChar r")
      case True
      then have "b = 0" "k = 0" using 1(2) nc_tail_rune[OF False d] by auto
      moreover have "m = 0" if "m \<le> length s" "ncname_loop False (take m s)" for m
      proof (rule ccontr)
        assume "m \<noteq> 0"
        obtain r2 w2 where "decode_rune (take m s) = (r2, w2)" by fastforce
        with head[OF that(2) _ this] \<open>m \<noteq> 0\<close> d True show False by auto
      qed
      ultimately show ?thesis by simp
    next
      case good: False
      obtain b2 k2 where nt: "nc_tail (drop w s) = (b2, k2)" by fastforce
      have bk: "b = w + b2" "k = k2 + 1"
        using 1(2) nc_tail_rune[OF False d] good nt by auto
      have ih: "b2 \<le> length (drop w s) \<and> ncname_loop False (take b2 (drop w s)) \<and>
          k2 = length (runes (take b2 (drop w s))) \<and>
          (\<forall>m. m \<le> length (drop w s) \<and> ncname_loop False (take m (drop w s)) \<longrightarrow> m \<le> b2)"
      proof -
        have "length (drop w s) < length s" using w False by simp
        then show ?thesis using 1(1) nt by blast
      qed
      have db: "decode_rune (take b s) = (r, w)" using decode_restrict[OF d _ False, of b] good bk by auto
      have ne: "take b s \<noteq> []" using bk w False by simp
      have "drop w (take b s) = take b2 (drop w s)" using bk by (simp add: drop_take)
      then have "ncname_loop False (take b s) \<and> k = length (runes (take b s))"
        using ncname_loop_step[OF db ne, of False] runes_step[OF db ne] good ih bk by auto
      moreover have "m \<le> b" if "m \<le> length s" "ncname_loop False (take m s)" for m
      proof (cases "m = 0")
        case False
        obtain r2 w2 where "decode_rune (take m s) = (r2, w2)" by fastforce
        with head[OF that(2) _ this] False d have "w \<le> m" "ncname_loop False (take (m - w) (drop w s))" by auto
        then have "m - w \<le> b2" using ih that(1) by auto
        then show ?thesis using bk by simp
      qed simp
      ultimately show ?thesis using ih bk w by auto
    qed
  qed (use 1(2) in simp)
qed

text \<open>\<open>name\<close> is the longest NCName at the front of \<open>p\<close>, or empty when there is none.\<close>

definition longest_ncname :: "string \<Rightarrow> string \<Rightarrow> bool" where
  "longest_ncname p name \<longleftrightarrow> has_prefix p name \<and> (name = [] \<or> IsValidNCName name) \<and>
     (\<forall>u. has_prefix p u \<and> IsValidNCName u \<longrightarrow> length u \<le> length name)"

lemma ncname_ref_longest: "longest_ncname p (fst (ncname_ref p)) \<and> snd (ncname_ref p) = length (runes (fst (ncname_ref p)))"
proof (cases "p = []")
  case True
  then show ?thesis by (auto simp: ncname_ref_def longest_ncname_def has_prefix_def IsValidNCName_def)
next
  case False
  obtain r w where d: "decode_rune p = (r, w)" by fastforce
  have w: "0 < w" "w \<le> length p" using decode_rune_width_pos[OF False] decode_rune_width_le[of p] d by auto
  have head: "decode_rune p = (r2, w2) \<and> w2 \<le> length u \<and> \<not> ill_formed r2 w2 \<and> IsNCNameStartChar r2 \<and>
      ncname_loop False (take (length u - w2) (drop w2 p))"
    if "has_prefix p u" "IsValidNCName u" "decode_rune u = (r2, w2)" for u r2 w2
  proof -
    have u: "take (length u) p = u" "u \<noteq> []" using that by (auto simp: has_prefix_def IsValidNCName_def)
    have st: "\<not> ill_formed r2 w2 \<and> IsNCNameStartChar r2 \<and> ncname_loop False (drop w2 u)"
      using ncname_loop_step[OF that(3) u(2), of True] that(2) u(2) by (simp add: IsValidNCName_def)
    then show ?thesis using decode_extend[of "length u" p r2 w2] u that(3)
      by (metis drop_take_step)
  qed
  show ?thesis
  proof (cases "ill_formed r w \<or> \<not> IsNCNameStartChar r")
    case True
    then have "ncname_ref p = ([], 0)" using False d by (auto simp: ncname_ref_def)
    moreover have "\<not> (has_prefix p u \<and> IsValidNCName u)" for u
    proof
      assume u: "has_prefix p u \<and> IsValidNCName u"
      obtain r2 w2 where "decode_rune u = (r2, w2)" by fastforce
      with head[of u] u d True show False by auto
    qed
    ultimately show ?thesis by (auto simp: longest_ncname_def has_prefix_def)
  next
    case good: False
    obtain b k where nt: "nc_tail (drop w p) = (b, k)" by fastforce
    have ref: "ncname_ref p = (take (w + b) p, k + 1)" using False d good nt by (simp add: ncname_ref_def)
    note lg = nc_tail_longest[OF nt]
    have db: "decode_rune (take (w + b) p) = (r, w)" using decode_restrict[OF d _ False, of "w + b"] good by auto
    have ne: "take (w + b) p \<noteq> []" using w False by simp
    have dr: "drop w (take (w + b) p) = take b (drop w p)" by (simp add: drop_take)
    have "IsValidNCName (take (w + b) p)"
      using ncname_loop_step[OF db ne, of True] good lg dr ne by (auto simp: IsValidNCName_def)
    moreover have "k + 1 = length (runes (take (w + b) p))" using runes_step[OF db ne] lg dr by simp
    moreover have len: "length (take (w + b) p) = w + b" using lg w by auto
    moreover have "length u \<le> w + b" if u: "has_prefix p u" "IsValidNCName u" for u
    proof -
      obtain r2 w2 where "decode_rune u = (r2, w2)" by fastforce
      from head[OF u this] d have "w \<le> length u" "ncname_loop False (take (length u - w) (drop w p))" by auto
      moreover have "length u \<le> length p" using u(1) by (rule prefix_fits)
      ultimately have "length u - w \<le> b" using lg by auto
      then show ?thesis by simp
    qed
    ultimately show ?thesis unfolding ref longest_ncname_def has_prefix_def by auto
  qed
qed

subsection \<open>Attribute values\<close>

definition simple_value :: "char \<Rightarrow> string \<Rightarrow> bool" where
  "simple_value q v \<longleftrightarrow> valid_utf8 v \<and>
     list_all (\<lambda>x. IsChar x \<and> 0x20 \<le> x \<and> x \<noteq> byte q \<and> x \<noteq> byte (CHR ''&'') \<and> x \<noteq> byte (CHR ''<'')) (runes v)"

lemma attr_tail_value:
  assumes q: "byte q < 128"
  shows "attr_tail q m off s = Some n \<longleftrightarrow>
    (\<exists>v t. s = v @ q # t \<and> simple_value q v \<and> n = off + length v \<and> \<not> over_budget m n)"
proof (induction s arbitrary: off rule: length_induct)
  case (1 s)
  have over: "over_budget m off \<Longrightarrow> over_budget m (off + k)" for k by (auto simp: over_budget_def)
  show ?case
  proof (cases "over_budget m off \<or> s = []")
    case True
    then show ?thesis using over by (auto simp: attr_tail_stop)
  next
    case False
    then obtain b s' where s: "s = b # s'" by (cases s) auto
    have ne: "s \<noteq> []" using s by simp
    have nob: "\<not> over_budget m off" using False by simp
    obtain r w where d: "decode_rune s = (r, w)" by fastforce
    have w: "0 < w" "w \<le> length s" using decode_rune_width_pos[OF ne] decode_rune_width_le[of s] d by auto
    have rb: "r < 128 \<Longrightarrow> byte b = r" using decode_rune_small[of b s'] d s by auto
    have br: "byte b < 128 \<Longrightarrow> r = byte b \<and> w = 1" using decode_rune_ascii[of b s'] d s by auto
    have front: "simple_value q v \<longleftrightarrow> \<not> ill_formed r w \<and> w \<le> length v \<and>
        (IsChar r \<and> 0x20 \<le> r \<and> r \<noteq> byte q \<and> r \<noteq> byte (CHR ''&'') \<and> r \<noteq> byte (CHR ''<'')) \<and>
        simple_value q (drop w v)" if "s = v @ q # t" "v \<noteq> []" for v t
    proof -
      obtain r2 w2 where d2: "decode_rune v = (r2, w2)" by fastforce
      show ?thesis
      proof (cases "ill_formed r2 w2")
        case True
        have "\<not> (\<not> ill_formed r w \<and> w \<le> length v)"
        proof
          assume "\<not> ill_formed r w \<and> w \<le> length v"
          then have "decode_rune (take (length v) s) = (r, w)" using decode_restrict[OF d _ ne] by auto
          with that(1) d2 True \<open>\<not> ill_formed r w \<and> w \<le> length v\<close> show False by auto
        qed
        then show ?thesis using valid_utf8_step[OF d2 that(2)] True by (auto simp: simple_value_def)
      next
        case wf: False
        have "decode_rune (take (length v) s) = (r2, w2)" using that(1) d2 by simp
        then have "r2 = r" "w2 = w" "w \<le> length v"
          using decode_extend[of "length v" s r2 w2] wf d that by auto
        then show ?thesis
          using valid_utf8_step[OF d2 that(2)] runes_step[OF d2 that(2)] wf by (auto simp: simple_value_def)
      qed
    qed
    consider (quote) "b = q" | (stop) "b \<noteq> q" "b = CHR ''&'' \<or> b = CHR ''<'' \<or> byte b < 0x20"
      | (go) "b \<noteq> q" "b \<noteq> CHR ''&''" "b \<noteq> CHR ''<''" "0x20 \<le> byte b" by linarith
    then show ?thesis
    proof cases
      case quote
      have "\<not> simple_value q v" if "s = v @ q # t" "v \<noteq> []" for v t
        using front[OF that] br quote q by auto
      moreover have "simple_value q []" by (simp add: simple_value_def)
      ultimately show ?thesis using s quote nob
        by (auto simp: attr_tail_stop) (metis append_Nil add.right_neutral list.size(3))+
    next
      case stop
      have "\<not> simple_value q v" if "s = v @ q # t" for v t
      proof -
        have "v \<noteq> []" using that s stop(1) by auto
        then show ?thesis using front[OF that] br stop by (auto simp: char_byte_iff)
      qed
      then show ?thesis using attr_tail_stop(3)[OF stop] s by auto
    next
      case go
      have r: "0x20 \<le> r \<and> r \<noteq> byte q \<and> r \<noteq> byte (CHR ''&'') \<and> r \<noteq> byte (CHR ''<'')"
      proof (cases "r < 128")
        case True
        then have "r = byte b" using rb by simp
        then show ?thesis using go by (simp only: byte_inject simp_thms)
      next
        case False
        then show ?thesis using q by auto
      qed
      show ?thesis
      proof (cases "ill_formed r w \<or> \<not> IsChar r")
        case True
        then have "attr_tail q m off s = None" using attr_tail_rune[OF nob go] d s by simp
        moreover have "\<not> simple_value q v" if "s = v @ q # t" for v t
        proof -
          have "v \<noteq> []" using that s go(1) by auto
          then show ?thesis using front[OF that] True by blast
        qed
        ultimately show ?thesis by auto
      next
        case ok: False
        have "attr_tail q m off s = attr_tail q m (off + w) (drop w s)"
          using attr_tail_rune[OF nob go] d s ok by auto
        also have "\<dots> = Some n \<longleftrightarrow>
            (\<exists>v t. drop w s = v @ q # t \<and> simple_value q v \<and> n = off + w + length v \<and> \<not> over_budget m n)"
          using 1 w ne by simp
        also have "\<dots> \<longleftrightarrow> (\<exists>v t. s = v @ q # t \<and> simple_value q v \<and> n = off + length v \<and> \<not> over_budget m n)"
        proof (intro iffI; elim exE conjE)
          fix v t assume h: "drop w s = v @ q # t" "simple_value q v" "n = off + w + length v" "\<not> over_budget m n"
          have "s = (take w s @ v) @ q # t" using h(1) by (metis append.assoc append_take_drop_id)
          moreover from this have "simple_value q (take w s @ v)"
            using front[of "take w s @ v" t] ok r h(2) w ne by auto
          ultimately show "\<exists>v t. s = v @ q # t \<and> simple_value q v \<and> n = off + length v \<and> \<not> over_budget m n"
            using h w by (intro exI[of _ "take w s @ v"] exI[of _ t]) auto
        next
          fix v t assume h: "s = v @ q # t" "simple_value q v" "n = off + length v" "\<not> over_budget m n"
          have "v \<noteq> []" using h(1) s go(1) by auto
          then have "w \<le> length v" "simple_value q (drop w v)" using front[OF h(1)] h(2) by auto
          then show "\<exists>v t. drop w s = v @ q # t \<and> simple_value q v \<and> n = off + w + length v \<and> \<not> over_budget m n"
            using h by (intro exI[of _ "drop w v"] exI[of _ t]) auto
        qed
        finally show ?thesis .
      qed
    qed
  qed
qed

subsection \<open>The facts of a reachable state\<close>

context byte_source begin

lemma moved_unread: "moved c c' \<Longrightarrow> unread rest c' = unread rest c"
  using moved_pending by (simp add: unread_def pending_def)

lemma consumed_abstracts: "consumed n c c' \<Longrightarrow> abstracts rest c' = spec_consume n (abstracts rest c)"
  by (auto simp: consumed_def abstracts_def spec_consume_def unread_def pending_def)

lemma done_error:
  assumes "good c" "unread rest c = []"
  shows "\<exists>c'. Done read c = (True, c') \<and> Err c' = (if fin (inp c) = io_EOF then None else Some (fin (inp c)))"
proof -
  obtain b c' where d: "Done read c = (b, c')" by fastforce
  note s = Done_spec[OF assms(1) d]
  have b: b using s(2) assms(2) by (simp add: unread_def pending_def)
  have "fin (inp c') = fin (inp c)" "good c'" using s(1) by (auto simp: moved_def)
  then have "Err c' = (if fin (inp c) = io_EOF then None else Some (fin (inp c)))"
    using s(3)[OF b] by (cases "readErr c'") (auto simp: Err_def ended_def good_def)
  with d b show ?thesis by auto
qed

end

lemma attr_ref_value:
  assumes "is_ascii q" and "v \<noteq> []"
  shows "attr_ref q m p = (v, length v) \<longleftrightarrow>
    has_prefix p (v @ [q]) \<and> simple_value q v \<and> \<not> over_budget m (length v)"
proof -
  have "byte q < 128" using assms(1) by (simp add: is_ascii_def)
  note tail = attr_tail_value[OF this, of m 0 p "length v"]
  have "attr_ref q m p = (v, length v) \<longleftrightarrow> attr_tail q m 0 p = Some (length v) \<and> take (length v) p = v"
    using assms(2) by (auto simp: attr_ref_def split: option.splits)
  also have "\<dots> \<longleftrightarrow> has_prefix p (v @ [q]) \<and> simple_value q v \<and> \<not> over_budget m (length v)"
  proof
    assume h: "attr_tail q m 0 p = Some (length v) \<and> take (length v) p = v"
    then obtain u t where u: "p = u @ q # t" "simple_value q u" "length v = length u" "\<not> over_budget m (length v)"
      using tail by auto
    then have "u = v" using h by simp
    with u show "has_prefix p (v @ [q]) \<and> simple_value q v \<and> \<not> over_budget m (length v)"
      by (auto simp: has_prefix_def)
  next
    assume h: "has_prefix p (v @ [q]) \<and> simple_value q v \<and> \<not> over_budget m (length v)"
    then obtain t where "p = v @ q # t" by (auto simp: has_prefix_iff)
    then show "attr_tail q m 0 p = Some (length v) \<and> take (length v) p = v" using tail h by auto
  qed
  finally show ?thesis .
qed

subsection \<open>Properties\<close>

text \<open>C3: Whatever operations a client performs, over any reader that keeps the contract they return,
  and the answers are those of the abstract cursor on the bytes of the stream: they do not depend
  on how the reader cuts its stream, nor on where the buffer was compacted or grown.
\<close>

theorem cursor_answers:
  assumes "byte_source read ok rest fin stall" and "ok r"
  shows "\<exists>c. run_cursor read ops (NewUTF8Cursor r) = Some (fst (run_spec (fin r) ops (rest r, 1, 1)), c)"
  using byte_source.run_cursor_simulates[OF assms(1) byte_source.fresh_good[OF assms]
      byte_source.fresh_abstracts[OF assms(1)], of ops] byte_source.fresh_inp[OF assms(1), of r]
  by auto

lemma cursor_answers_witness:
  "\<exists>c. run_cursor (Unused_Read bytes_Read) [PeekOp, AdvanceOp 2, LineNumberOp, ColumnOp, ConsumeStringOp ''bc'', DoneOp]
       (NewUTF8Cursor ([CHR ''a''], [CHR 0x0A] @ ''bc'')) =
     Some ([Byte (CHR ''a''), Failed None, Number 2, Number 1, Flag True, Flag True], c)"
  using cursor_answers[OF bu.byte_source_axioms TrueI,
      of "[PeekOp, AdvanceOp 2, LineNumberOp, ColumnOp, ConsumeStringOp ''bc'', DoneOp]"
         "([CHR ''a''], [CHR 0x0A] @ ''bc'')"]
  by (simp add: spec_op_def spec_consume_def numeral_2_eq_2 del: run_cursor.simps)

text \<open>C22: In every state a client can reach the cursor stands behind the first \<open>n\<close> bytes of the
  stream, for some \<open>n\<close>: the line number is one more than the line feeds among them, and the
  column one more than the bytes since the last of them.
\<close>

theorem cursor_position:
  assumes "byte_source read ok rest fin stall" and "ok r"
    and "run_cursor read ops (NewUTF8Cursor r) = Some (answers, c)"
  shows "\<exists>n. n \<le> length (rest r) \<and> unread rest c = drop n (rest r) \<and>
    lineno c = 1 + count_list (take n (rest r)) (CHR 0x0A) \<and>
    column c = (case last_index_byte (take n (rest r)) (CHR 0x0A) of None \<Rightarrow> n + 1 | Some i \<Rightarrow> n - i)"
proof -
  have "abstracts rest c = snd (run_spec (fin r) ops (rest r, 1, 1))"
    using byte_source.run_reaches(2)[OF assms(1,2) assms(3)] .
  moreover obtain n where "snd (run_spec (fin r) ops (rest r, 1, 1)) = (drop n (rest r), track (take n (rest r)) (1, 1))"
      "n \<le> length (rest r)"
    using spec_position[of "(rest r, 1, 1)" 0 "rest r" "fin r" ops] by auto
  ultimately show ?thesis
    by (intro exI[of _ n]) (auto simp: abstracts_def track_closed split: option.split)
qed

lemma cursor_position_witness:
  "\<exists>as c n. run_cursor bytes_Read [AdvanceFastOp 3] (NewUTF8Cursor (''a'' @ [CHR 0x0A] @ ''b'')) = Some (as, c) \<and>
     n \<le> 3 \<and> unread (\<lambda>s. s) c = drop n (''a'' @ [CHR 0x0A] @ ''b'') \<and>
     lineno c = 1 + count_list (take n (''a'' @ [CHR 0x0A] @ ''b'')) (CHR 0x0A)"
proof -
  let ?s = "''a'' @ [CHR 0x0A] @ ''b''"
  obtain as c where r: "run_cursor bytes_Read [AdvanceFastOp 3] (NewUTF8Cursor ?s) = Some (as, c)"
    using br.run_cursor_simulates[OF br.fresh_good[OF TrueI] br.fresh_abstracts, of "[AdvanceFastOp 3]" ?s] by auto
  from cursor_position[OF br.byte_source_axioms TrueI r] obtain n where
    "n \<le> length ?s" "unread (\<lambda>s. s) c = drop n ?s" "lineno c = 1 + count_list (take n ?s) (CHR 0x0A)" by auto
  with r show ?thesis by (intro exI[of _ as] exI[of _ c] exI[of _ n]) simp
qed

text \<open>C15: In every reachable state \<open>ScanNCNameBytes\<close> returns the longest NCName at the front of the
  unread bytes, with its number of characters, and the empty name exactly when no NCName stands
  there; nothing is consumed.
\<close>

theorem ScanNCNameBytes_longest:
  assumes "byte_source read ok rest fin stall" and "ok r"
    and "run_cursor read ops (NewUTF8Cursor r) = Some (answers, c)"
  shows "\<exists>name c'. ScanNCNameBytes read c = Some ((name, length (runes name)), c') \<and>
    longest_ncname (unread rest c) name \<and> unread rest c' = unread rest c"
proof -
  note g = byte_source.run_reaches(1,4)[OF assms]
  obtain c' where s: "ScanNCNameBytes read c = Some (ncname_ref (unread rest c), c')"
    and m: "byte_source.moved ok rest fin c c'"
    using byte_source.ScanNCNameBytes_spec[OF assms(1) g(1)] g(2) by auto
  have "unread rest c' = unread rest c" using byte_source.moved_unread[OF assms(1) m] .
  with s ncname_ref_longest[of "unread rest c"] show ?thesis
    by (intro exI[of _ "fst (ncname_ref (unread rest c))"] exI[of _ c']) (metis prod.collapse)
qed

lemma ScanNCNameBytes_longest_witness:
  "\<exists>as c name c'. run_cursor bytes_Read [AdvanceOp 1] (NewUTF8Cursor ''<ab>'') = Some (as, c) \<and>
     ScanNCNameBytes bytes_Read c = Some ((name, length (runes name)), c') \<and>
     longest_ncname (unread (\<lambda>s. s) c) name"
proof -
  obtain as c where r: "run_cursor bytes_Read [AdvanceOp 1] (NewUTF8Cursor ''<ab>'') = Some (as, c)"
    using br.run_cursor_simulates[OF br.fresh_good[OF TrueI] br.fresh_abstracts, of "[AdvanceOp 1]" "''<ab>''"] by auto
  with ScanNCNameBytes_longest[OF br.byte_source_axioms TrueI r] show ?thesis by blast
qed

text \<open>C17: In every reachable state \<open>ScanSimpleAttrValue\<close> returns \<open>v\<close> exactly when the unread bytes begin
  with \<open>v\<close> and the quote, \<open>v\<close> fits the budget, and \<open>v\<close> is well-formed UTF-8 of XML characters with no
  quote, ampersand, less-than sign or control character.
\<close>

theorem ScanSimpleAttrValue_exact:
  assumes "byte_source read ok rest fin stall" and "ok r"
    and "run_cursor read ops (NewUTF8Cursor r) = Some (answers, c)" and "is_ascii q" and "v \<noteq> []"
  shows "\<exists>res c'. ScanSimpleAttrValue read q m c = Some (res, c') \<and> unread rest c' = unread rest c \<and>
    (res = (v, length v)) = (has_prefix (unread rest c) (v @ [q]) \<and> simple_value q v \<and> \<not> over_budget m (length v))"
proof -
  note g = byte_source.run_reaches(1,4)[OF assms(1-3)]
  obtain c' where s: "ScanSimpleAttrValue read q m c = Some (attr_ref q m (unread rest c), c')"
    and mv: "byte_source.moved ok rest fin c c'"
    using byte_source.ScanSimpleAttrValue_spec[OF assms(1) g(1)] g(2) by auto
  from s byte_source.moved_unread[OF assms(1) mv] attr_ref_value[OF assms(4,5)] show ?thesis by blast
qed

lemma ScanSimpleAttrValue_exact_witness:
  "\<exists>c. ScanSimpleAttrValue bytes_Read (CHR 0x22) 0 (NewUTF8Cursor (''ab'' @ [CHR 0x22])) = Some ((''ab'', 2), c)"
proof -
  have r: "run_cursor bytes_Read [] (NewUTF8Cursor (''ab'' @ [CHR 0x22])) =
      Some ([], NewUTF8Cursor (''ab'' @ [CHR 0x22]))" by simp
  have "unread (\<lambda>s. s) (NewUTF8Cursor (''ab'' @ [CHR 0x22])) = ''ab'' @ [CHR 0x22]"
    by (simp add: unread_def NewUTF8Cursor_def view_def)
  moreover have "simple_value (CHR 0x22) ''ab''" by (simp add: simple_value_def IsChar_def)
  ultimately show ?thesis
    using ScanSimpleAttrValue_exact[OF br.byte_source_axioms TrueI r, of "CHR 0x22" "''ab''" 0]
    by (auto simp: is_ascii_def over_budget_def has_prefix_def)
qed

text \<open>C12: \<open>streamCharDataChunks\<close> delivers a run of character data whole: from every reachable state, with
  any budget and any chunk size, it returns, the pieces its handler gets together are the run up to
  the next delimiter with its line ends normalised, each of them is valid UTF-8 and no longer than
  the chunk size unless it is a single character, and exactly the bytes of the run are consumed.
\<close>

theorem streamCharDataChunks_delivers:
  assumes "byte_source read ok rest fin stall" and "ok r"
    and "run_cursor read ops (NewUTF8Cursor r) = Some (answers, c)"
  shows "\<exists>ps c'. streamCharDataChunks read (recorder n) limit h c = Some (None, h @ ps, c') \<and>
    concat ps = fst (run_text (unread rest c)) \<and> list_all (small_text n) ps \<and>
    abstracts rest c' = spec_consume (snd (run_text (unread rest c))) (abstracts rest c)"
proof -
  note g = byte_source.run_reaches(1,4)[OF assms]
  from byte_source.stream_delivers[OF assms(1) g(1), of n limit h] obtain ps c' where
    "streamCharDataChunks read (recorder n) limit h c = Some (None, h @ ps, c')" "list_all (small_text n) ps"
    "concat ps = fst (run_text (unread rest c))"
    "byte_source.consumed ok rest fin (snd (run_text (unread rest c))) c c'"
    using g(2) by auto
  with byte_source.consumed_abstracts[OF assms(1)] show ?thesis by blast
qed

lemma streamCharDataChunks_delivers_witness:
  "\<exists>ps c'. streamCharDataChunks (Unused_Read bytes_Read) (recorder 2) 1 [] (NewUTF8Cursor ([CHR ''a'', CHR 0x0D], [CHR 0x0A, CHR ''b'', CHR ''<''])) =
       Some (None, ps, c') \<and> concat ps = [CHR ''a'', CHR 0x0A, CHR ''b''] \<and> list_all (small_text 2) ps"
proof -
  let ?r = "([CHR ''a'', CHR 0x0D], [CHR 0x0A, CHR ''b'', CHR ''<''])"
  have r: "run_cursor (Unused_Read bytes_Read) [] (NewUTF8Cursor ?r) = Some ([], NewUTF8Cursor ?r)" by simp
  have "unread (\<lambda>u. fst u @ snd u) (NewUTF8Cursor ?r) = [CHR ''a'', CHR 0x0D, CHR 0x0A, CHR ''b'', CHR ''<'']"
    by (simp add: unread_def NewUTF8Cursor_def view_def)
  moreover have "run_text [CHR ''a'', CHR 0x0D, CHR 0x0A, CHR ''b'', CHR ''<''] = ([CHR ''a'', CHR 0x0A, CHR ''b''], 4)"
    by (simp add: run_text.simps text_unit_ascii text_unit_return text_unit_stop IsChar_def has_prefix_def)
  ultimately show ?thesis
    using streamCharDataChunks_delivers[OF bu.byte_source_axioms TrueI r, of 2 1 "[]"] by auto
qed

text \<open>
  In every reachable state, once \<open>Done\<close> reports the end, \<open>Err\<close> tells how the stream ended: the error
  the reader ended with, whether it came with the last bytes or behind them, and nothing after a
  clean end.
\<close>

theorem Done_Err:
  assumes "byte_source read ok rest fin stall" and "ok r"
    and "run_cursor read ops (NewUTF8Cursor r) = Some (answers, c)" and "unread rest c = []"
  shows "\<exists>c'. Done read c = (True, c') \<and> Err c' = (if fin r = io_EOF then None else Some (fin r))"
  using byte_source.done_error[OF assms(1) byte_source.run_reaches(1)[OF assms(1-3)] assms(4)]
  unfolding byte_source.run_reaches(3)[OF assms(1-3)] .

lemma Done_Err_witness:
  "\<exists>as c c'. run_cursor bytes_Read [AdvanceOp 2] (NewUTF8Cursor ''ab'') = Some (as, c) \<and>
     Done bytes_Read c = (True, c') \<and> Err c' = None"
proof -
  obtain as c where r: "run_cursor bytes_Read [AdvanceOp 2] (NewUTF8Cursor ''ab'') = Some (as, c)"
    and "abstracts (\<lambda>s. s) c = snd (run_spec io_EOF [AdvanceOp 2] (''ab'', 1, 1))"
    using br.run_cursor_simulates[OF br.fresh_good[OF TrueI] br.fresh_abstracts, of "[AdvanceOp 2]" "''ab''"] by auto
  then have "unread (\<lambda>s. s) c = []" by (simp add: abstracts_def spec_op_def spec_consume_def)
  from Done_Err[OF br.byte_source_axioms TrueI r this] r show ?thesis by auto
qed

text \<open>C33: A reader that never delivers a byte nor an error does not hang the parser: the fill gives up
  after \<open>maxZeroProgressReads\<close> reads, \<open>Done\<close> reports the end and \<open>Err\<close> the lack of progress.
\<close>

theorem stuck_reader_ends:
  assumes "\<And>n. read r n = ([], None, r)"
  shows "\<exists>c. Done read (NewUTF8Cursor r) = (True, c) \<and> Err c = Some io_ErrNoProgress"
proof -
  have idle: "read_more read c = ([], None, c)" if "inp c = r" for c :: "'a cursor"
    using assms that by (simp add: read_more_def copy_at_def)
  have "fill_loop read 1 z c = (Some io_ErrNoProgress, c\<lparr>readErr := Some io_ErrNoProgress\<rparr>)"
    if "inp c = r" "buflen c = bufpos c" for c :: "'a cursor" and z
    using that
  proof (induction "maxZeroProgressReads - z" arbitrary: z rule: less_induct)
    case less
    show ?case
      using idle[OF less.prems(1)] less.prems(2) less.hyps[of "z + 1", OF _ less.prems]
      by (subst fill_loop.simps) auto
  qed
  from this[of "NewUTF8Cursor r" 0] show ?thesis
    by (simp add: Done_def fillBuffer_def compact_def grow_def NewUTF8Cursor_def Let_def Err_def)
qed

lemma stuck_reader_ends_witness:
  "\<exists>c. Done (\<lambda>u n. ([], None, u)) (NewUTF8Cursor ()) = (True, c) \<and> Err c = Some io_ErrNoProgress"
  by (rule stuck_reader_ends) simp

subsection \<open>Where a scan of character data ends\<close>

lemma fresh_fill:
  assumes "read r 8192 = (d, None, r')" "d \<noteq> []" "length d \<le> 8192"
  shows "\<exists>c. fillBuffer read 1 (NewUTF8Cursor r) = (None, c) \<and> view c = d"
proof -
  let ?c = "NewUTF8Cursor r\<lparr>buf := copy_at (replicate 8192 (CHR 0x00)) 0 d, buflen := length d, inp := r'\<rparr>"
  have "read_more read (NewUTF8Cursor r) = (d, None, ?c)"
    using assms(1) by (simp add: read_more_def NewUTF8Cursor_def)
  then have "fillBuffer read 1 (NewUTF8Cursor r) = fill_loop read 1 0 ?c"
    using assms(2) by (simp add: fillBuffer_def compact_def grow_def Let_def fill_loop.simps[of read _ _ "NewUTF8Cursor r"])
      (simp add: NewUTF8Cursor_def)
  moreover have "fill_loop read 1 0 ?c = (None, ?c)"
    using assms(2) by (subst fill_loop.simps) (simp add: NewUTF8Cursor_def Suc_le_eq)
  moreover have "view ?c = d"
    using take_copy_at[of 0 d "replicate 8192 (CHR 0x00)"] assms(3) by (simp add: view_def NewUTF8Cursor_def)
  ultimately show ?thesis by auto
qed

text \<open>
  How far one \<open>ScanCharDataSlice\<close> reaches is not a function of the input: with the same bytes
  \<open>a\<close>, carriage return, line feed, \<open>b\<close>, \<open><\<close> ahead it ends behind the line break when the buffer ends
  there, and at the delimiter when it does not.
\<close>

theorem ScanCharDataSlice_buffer_dependent:
  "(\<exists>c. ScanCharDataSlice (Unused_Read bytes_Read) [] 0 (NewUTF8Cursor ([CHR ''a'', CHR 0x0D, CHR 0x0A], ''b<'')) =
      Some (([CHR ''a'', CHR 0x0A], 3), c)) \<and>
   (\<exists>c. ScanCharDataSlice (Unused_Read bytes_Read) [] 0 (NewUTF8Cursor ([], [CHR ''a'', CHR 0x0D, CHR 0x0A] @ ''b<'')) =
      Some (([CHR ''a'', CHR 0x0A, CHR ''b''], 4), c))"
proof
  let ?read = "Unused_Read bytes_Read"
  obtain c1 where f1: "fillBuffer ?read 1 (NewUTF8Cursor ([CHR ''a'', CHR 0x0D, CHR 0x0A], ''b<'')) = (None, c1)"
    "view c1 = [CHR ''a'', CHR 0x0D, CHR 0x0A]"
    using fresh_fill[of ?read "([CHR ''a'', CHR 0x0D, CHR 0x0A], ''b<'')"] by (auto simp: Unused_Read_def)
  have run1: "capped_run 0 0 [CHR ''a'', CHR 0x0D, CHR 0x0A] = 1"
    by (simp add: capped_run_def scanSafeCharDataASCII_run safe_text_def)
  have "char_data_body ?read 0 (([], 0), c1) = Inr (([CHR ''a'', CHR 0x0A], 3), c1)"
    by (simp add: char_data_body_def char_data_special_def reached_def run1 f1(2) fill_if_def Let_def)
  moreover have "char_data_body ?read 0 (([CHR ''a'', CHR 0x0A], 3), c1) = Inl (([CHR ''a'', CHR 0x0A], 3), c1)"
    by (simp add: char_data_body_def f1(2))
  ultimately show "\<exists>c. ScanCharDataSlice ?read [] 0 (NewUTF8Cursor ([CHR ''a'', CHR 0x0D, CHR 0x0A], ''b<'')) =
      Some (([CHR ''a'', CHR 0x0A], 3), c)"
    using f1(1) by (simp add: ScanCharDataSlice_def scan_loop.simps)
next
  let ?read = "Unused_Read bytes_Read" and ?s = "[CHR ''a'', CHR 0x0D, CHR 0x0A] @ ''b<''"
  obtain c1 where f1: "fillBuffer ?read 1 (NewUTF8Cursor ([], ?s)) = (None, c1)" "view c1 = ?s"
    using fresh_fill[of ?read "([], ?s)"] by (auto simp: Unused_Read_def bytes_Read_def)
  have run1: "capped_run 0 0 [CHR ''a'', CHR 0x0D, CHR 0x0A, CHR ''b'', CHR ''<''] = 1"
      "capped_run 0 3 [CHR ''a'', CHR 0x0D, CHR 0x0A, CHR ''b'', CHR ''<''] = 1"
    by (simp_all add: capped_run_def scanSafeCharDataASCII_run safe_text_def)
  have "char_data_body ?read 0 (([], 0), c1) = Inr (([CHR ''a'', CHR 0x0A], 3), c1)"
    by (simp add: char_data_body_def char_data_special_def reached_def run1 f1(2) fill_if_def Let_def)
  moreover have "char_data_body ?read 0 (([CHR ''a'', CHR 0x0A], 3), c1) = Inl (([CHR ''a'', CHR 0x0A, CHR ''b''], 4), c1)"
    by (simp add: char_data_body_def char_data_special_def reached_def run1 f1(2) Let_def)
  ultimately show "\<exists>c. ScanCharDataSlice ?read [] 0 (NewUTF8Cursor ([], ?s)) =
      Some (([CHR ''a'', CHR 0x0A, CHR ''b''], 4), c)"
    using f1(1) by (simp add: ScanCharDataSlice_def scan_loop.simps)
qed

end
