(* ===== verification/CursorStack.thy ===== *)
theory CursorStack
  imports ByteCursor CursorClaims
begin

text \<open>
  The hand-over of the input: the parser looks for the encoding through a byte cursor and then
  wraps that cursor in a UTF-8 cursor (\<open>parser_encoding.go\<close>).  A client of the byte cursor is a
  list of its operations; \<open>byte_left\<close> says what each leaves unread.
\<close>

datatype byte_op =
    ByteDone | BytePeekString nat | ByteHasPrefix string | ByteConsume string | ByteAdvance nat

definition byte_step :: "'r reader \<Rightarrow> byte_op \<Rightarrow> 'r byte_cursor \<Rightarrow> 'r byte_cursor" where
  "byte_step read op c =
     (case op of
        ByteDone \<Rightarrow> snd (byte_Done read c)
      | BytePeekString n \<Rightarrow> snd (byte_PeekString read n c)
      | ByteHasPrefix s \<Rightarrow> snd (byte_HasPrefix read s c)
      | ByteConsume s \<Rightarrow> snd (byte_Consume read s c)
      | ByteAdvance n \<Rightarrow> snd (byte_Advance read n c))"

definition byte_left :: "byte_op \<Rightarrow> string \<Rightarrow> string" where
  "byte_left op p =
     (case op of
        ByteConsume s \<Rightarrow> (if has_prefix p s then drop (length s) p else p)
      | ByteAdvance n \<Rightarrow> (if n \<le> length p then drop n p else p)
      | _ \<Rightarrow> p)"

context byte_source begin

lemma byte_step_left:
  assumes "good c"
  shows "good (byte_step read op c) \<and> pending (byte_step read op c) = byte_left op (pending c) \<and>
    fin (inp (byte_step read op c)) = fin (inp c)"
  using byte_Done_spec[OF assms surjective_pairing] byte_PeekString_spec[OF assms surjective_pairing]
    byte_hasPrefix_spec[OF assms surjective_pairing] byte_Advance_spec[OF assms surjective_pairing]
  by (cases op) (auto simp: byte_step_def byte_left_def byte_HasPrefix_def byte_Consume_def moved_def)

lemma byte_run_left:
  "good c \<Longrightarrow> good (fold (byte_step read) bops c) \<and>
     pending (fold (byte_step read) bops c) = fold byte_left bops (pending c) \<and>
     fin (inp (fold (byte_step read) bops c)) = fin (inp c)"
  by (induction bops arbitrary: c) (use byte_step_left in auto)

lemma handover:
  assumes "ok r"
  shows "\<exists>c. run_cursor (ByteCursor_Read read) ops (NewUTF8Cursor (fold (byte_step read) bops (NewByteCursor r n))) =
    Some (fst (run_spec (fin r) ops (fold byte_left bops (rest r), 1, 1)), c)"
proof -
  note new = byte_new_good[OF assms, of n]
  let ?b = "fold (byte_step read) bops (NewByteCursor r n)"
  have b: "good ?b" "pending ?b = fold byte_left bops (rest r)" "fin (inp ?b) = fin r"
    using byte_run_left[of "NewByteCursor r n" bops] new by auto
  show ?thesis using byte_source.run_cursor_simulates[OF byte_cursor_source
        byte_source.fresh_good[OF byte_cursor_source b(1)] byte_source.fresh_abstracts[OF byte_cursor_source], of ops]
      byte_source.fresh_inp[OF byte_cursor_source, of ?b] b(2,3)
    by auto
qed

end

interpretation bb: byte_source "ByteCursor_Read bytes_Read" br.good br.pending "\<lambda>_. io_EOF" "\<lambda>_. 0"
  by (rule br.byte_cursor_source)

text \<open>C24: The hand-over loses and repeats nothing: a UTF-8 cursor over a byte cursor that has
  already been looked through and partly consumed answers as the abstract cursor on exactly the
  bytes the byte cursor has left unread.
\<close>

theorem UTF8_over_ByteCursor:
  assumes "byte_source read ok rest fin stall" and "ok r"
  shows "\<exists>c. run_cursor (ByteCursor_Read read) ops (NewUTF8Cursor (fold (byte_step read) bops (NewByteCursor r n))) =
    Some (fst (run_spec (fin r) ops (fold byte_left bops (rest r), 1, 1)), c)"
  by (rule byte_source.handover[OF assms])

lemma UTF8_over_ByteCursor_witness:
  "\<exists>c. run_cursor (ByteCursor_Read bytes_Read) [PeekOp, ConsumeStringOp ''ab'', DoneOp]
       (NewUTF8Cursor (fold (byte_step bytes_Read) [BytePeekString 4, ByteHasPrefix ''xa'', ByteAdvance 1] (NewByteCursor ''xab'' 0))) =
     Some ([Byte (CHR ''a''), Flag True, Flag True], c)"
  using UTF8_over_ByteCursor[OF br.byte_source_axioms TrueI,
      of "[PeekOp, ConsumeStringOp ''ab'', DoneOp]" "[BytePeekString 4, ByteHasPrefix ''xa'', ByteAdvance 1]" "''xab''" 0]
  by (simp add: spec_op_def spec_consume_def byte_left_def del: run_cursor.simps)

text \<open>
  The two cursors disagree on the position: over two line feeds \<open>Advance\<close> of the UTF-8 cursor
  ends on line 3, column 1, and \<open>Advance\<close> of the byte cursor on line 2, column 3.
\<close>

theorem ByteCursor_position_differs:
  "(\<exists>c. byte_Advance bytes_Read 2 (NewByteCursor [CHR 0x0A, CHR 0x0A] 4) = (None, c) \<and> lineno c = 2 \<and> column c = 3) \<and>
   (\<exists>c. Advance bytes_Read 2 (NewUTF8Cursor [CHR 0x0A, CHR 0x0A]) = (None, c) \<and> lineno c = 3 \<and> column c = 1)"
proof
  have "byte_Advance bytes_Read 2 (NewByteCursor [CHR 0x0A, CHR 0x0A] 4) =
      (None, \<lparr>buf = [CHR 0x0A, CHR 0x0A, CHR 0x00, CHR 0x00], buflen = 2, bufpos = 2, column = 3, inp = [],
         lineno = 2, readErr = None, line = [CHR 0x0A, CHR 0x0A]\<rparr>)"
    by code_simp
  then show "\<exists>c. byte_Advance bytes_Read 2 (NewByteCursor [CHR 0x0A, CHR 0x0A] 4) = (None, c) \<and> lineno c = 2 \<and> column c = 3"
    by simp
next
  obtain err c where a: "Advance bytes_Read 2 (NewUTF8Cursor [CHR 0x0A, CHR 0x0A]) = (err, c)" by fastforce
  from br.Advance_spec[OF br.fresh_good[OF TrueI] a] br.fresh_abstracts[of "[CHR 0x0A, CHR 0x0A]"]
  show "\<exists>c. Advance bytes_Read 2 (NewUTF8Cursor [CHR 0x0A, CHR 0x0A]) = (None, c) \<and> lineno c = 3 \<and> column c = 1"
    using a by (auto simp: br.consumed_def br.pending_def abstracts_def unread_def numeral_2_eq_2 numeral_3_eq_3)
qed

end
