(* ===== verification/Spec2Isabelle.thy ===== *)
theory Spec2Isabelle
  imports StreamTree StreamEnd ContentGreedy EncodingStream NameClass Uripath CatalogBounds CatalogLoad XsdValues XsdFloat XsdDigits
    DomTraverse CursorStack
begin

text \<open>
  A verification library for helium, an XML toolkit in Go: a parser with a DOM, a streaming writer,
  DTD, XSD and RELAX NG validation, XPath, XSLT, XInclude, catalogs and more.  The library models the
  parts listed below as HOL functions and proves what makes each of them correct.

  \<^bold>\<open>Conventions.\<close>

  Go values.  A \<open>string\<close> or \<open>[]byte\<close> is a list of bytes (\<^typ>\<open>char\<close> is a byte), a rune a \<^typ>\<open>nat\<close>;
  UTF-8 is decoded as Go's range loops do, ill-formed bytes giving U+FFFD.  Struct types are records,
  enumerations datatypes, maps finite maps or association lists, sets of Go (maps to \<open>struct{}\<close>) lists or sets.
  Errors are values: an operation gives an error or a result, and the text of an error message is kept only where code looks
  at it (quote characters in messages are dropped).  Machine integers are words or \<^typ>\<open>int\<close> with the
  bounds stated; \<open>math/big\<close> numbers are \<^typ>\<open>int\<close> and \<^typ>\<open>rat\<close>.  Functions of Go's standard library are modelled as far
  as the sources use them (\<open>GoLib\<close>, \<open>GoPath\<close>, \<open>GoNum\<close>, \<open>GoRegexp\<close>).  Code outside the repository is a parameter:
  the destination of the writer, the catalog loader, the decoders of \<open>golang.org/x/text\<close>, \<open>strconv.FormatFloat\<close>.

  Loops.  A loop that is structural is a recursive function.  A loop bounded by an argument carries fuel with a
  proof that the fuel suffices.  A loop over pointers is a \<open>partial_function (option)\<close>, where \<^const>\<open>None\<close> means that it
  does not return; that it returns on the states the code can be in is then a theorem.

  Theorems.  The properties of the library are the theorems whose text starts with an identifier (C1, C2, ...).  A
  property with hypotheses is followed by a witness that applies it to concrete data.  Interfaces between parts are locales
  with interpretations on the definitions of the code.

  \<^bold>\<open>Parts.\<close>

  Streaming XML writer (\<open>stream/stream.go\<close>): \<open>StreamWriter\<close> and \<open>StreamOps\<close> hold the writer record
  (state and saved states, open elements, namespace scopes, sticky error) and every exported method.
  The destination is a sink: a state with the functions that write a string or a byte and that flush, each of which may fail.
  \<open>StreamOut\<close> states with the locale \<open>reliable_sink\<close> what a destination that never fails does, with interpretations for an
  unbuffered and a buffered one.  \<open>StreamEscape\<close>: a reader of character data gets back what the escaper was given.
  \<open>StreamState\<close>: the invariant of all reachable writers.  \<open>StreamSticky\<close>: a failure of the destination is sticky; the destination keeps a log
  of what its methods returned, and the locale \<open>output_law\<close> lifts a law of single calls to the destination to all calls of the writer.
  \<open>StreamAtomic\<close>: rejected calls write nothing.
  \<open>StreamDoc\<close>: comments and CDATA sections in pieces.  \<open>StreamTree\<close>: a tree written by calls is its serialization.
  \<open>StreamNS\<close>: prefixes are bound as declared, by the scoping rule of XML namespaces.  \<open>StreamClose\<close>: the bytes missing at the end of the
  output of a writer.  \<open>StreamEnd\<close>: \<open>EndDocument\<close> appends exactly these, and call sequences whose output is not well formed.  Closing all elements takes as many rounds as elements are open.  \<open>closeElements\<close> and
  similar loops run on that count.  The Go writer is a pointer; copying the struct is not modelled.

  Characters, names and encodings (\<open>internal/xmlchar\<close>, \<open>internal/encoding\<close>): \<open>XmlChar\<close> and \<open>Encoding\<close> hold the
  productions and the table of names with its normalisation.  \<open>EncodingStrict\<close> holds the strict UTF-16, UTF-32 and ASCII
  transformers and the UCS-4 swaps; \<open>EncodingStream\<close> proves that they accept exactly the encodings of scalar values, for every way a
  stream is cut into calls.  The fuel of the validation loop is one more than the number of bytes.

  DTD element content (\<open>dtd_elem.go\<close>, \<open>valid.go\<close>): \<open>ContentModel\<close> holds the tree and its flattening, \<open>ContentMatch\<close> the exact
  matcher on sets of positions, \<open>ContentGreedy\<close> the greedy matcher in front of it.  Both decide membership in the regular language of the
  model; a closure or a greedy repetition makes at most one round more than there are children.

  RELAX NG name classes (\<open>relaxng/grammar.go\<close>): \<open>NameClass\<close>, with the overlap test against the names two classes match.

  URI and path helpers (\<open>internal/uripath\<close>): \<open>GoPath\<close> and \<open>Uripath\<close>.

  Catalogs (\<open>internal/catalog\<close>): \<open>CatalogNames\<close> (public identifier normalisation, URNs), \<open>CatalogResolve\<close> (entries, rewriting, delegation,
  the chain of next catalogs, with the loader as a parameter), \<open>CatalogBounds\<close> (separate bounds on the loads of delegates and of next
  catalogs, with an example that uses up both, and on visits, by the locale \<open>resolution_invariant\<close>; what a catalog's own entries answer; depth is
  counted down from \<open>MaxDepth\<close>), \<open>CatalogLoad\<close> (\<open>lazyLoad\<close> as a step relation of goroutines, in every
  interleaving).  The visited set of a resolution is keyed by URL and identifiers, as in the code.

  XSD builtin values (\<open>internal/xsd/value\<close>): \<open>XsdTime\<close> (calendar arithmetic and comparison of dates and durations), \<open>XsdValidate\<close> (the
  lexical space of every builtin type, facet applicability and digit counts), \<open>XsdCompare\<close> (parsers, \<open>Compare\<close>, \<open>CanonicalKey\<close>,
  \<open>Normalize\<close>).  \<open>XsdLexical\<close> relates validators and parsers, \<open>XsdOrder\<close> has the locale \<open>value_space\<close>: an order on values, with the code's comparison and
  key as its representation, interpreted for decimals, booleans, binary types, dates and durations.  \<open>XsdDuration\<close>, \<open>XsdValues\<close>,
  \<open>XsdFloat\<close> and \<open>XsdDigits\<close> prove the properties.  Regular expressions run on a derivative matcher; \<open>rat.SetString\<close> is
  modelled for decimal notation, which is all that validated strings contain; hexadecimal floats are not modelled, and the two zeros of a
  float are one value, as the comparison makes no difference between them.

  DOM tree (\<open>node.go\<close>, \<open>element.go\<close>, \<open>attribute.go\<close>, \<open>node_leaf.go\<close>, \<open>iter.go\<close>): a heap maps addresses to nodes.  \<open>DomNode\<close> holds the record of a node,
  the cycle guard, the attribute list and unlinking; \<open>DomOps\<close> the operations \<open>AddChild\<close>, \<open>AddSibling\<close>, \<open>Replace\<close> and \<open>AppendText\<close> of every node type and
  the attribute operations; \<open>DomWalk\<close> the traversals and \<open>Content\<close>.  The dynamic type of a node is its element type.  Addresses an
  operation allocates are its arguments, assumed fresh.  \<open>DomShape\<close> says what a tree is: every node lies in one doubly linked list,
  of the children or the attributes of a node or in a chain without parent, and parents are well founded.  \<open>DomSplice\<close> shows that replacing a segment of
  one list keeps the shape, and that the loops return with the right result on a shape; \<open>DomLink\<close> that each relinking of the code is such
  a replacement; \<open>DomTree\<close>, \<open>DomEdit\<close> and \<open>DomSpec\<close> lift this to the operations; \<open>DomEdits\<close> and \<open>DomTraverse\<close> state the properties over all
  heaps that allocations and edits reach.  The child of an entity reference that belongs to another list is followed by
  the definitions as in the code, and is outside the invariant.

  Input cursors (\<open>internal/strcursor\<close>): \<open>Cursor\<close> holds the UTF-8 cursor (a record of the buffer, its two indices, the position
  and the reader), its fill loop and the operations that peek and advance; \<open>CursorScan\<close> the scans of names, attribute values and
  character data, each a body iterated by \<open>scan_loop\<close>; \<open>ByteCursor\<close> the byte cursor that looks for the encoding.  An \<open>io.Reader\<close>
  is a function on its state that gives bytes and an error; \<open>CursorFill\<close> states the contract of \<open>io.Reader\<close> as the locale
  \<open>byte_source\<close> (at most the bytes asked for, in order, and fewer than \<open>maxZeroProgressReads\<close> empty reads in a row), with the facts on
  the fill loop proved in it.  It is interpreted for a byte slice, the UTF-8 cursor, \<open>Unused\<close> and the byte cursor (\<open>CursorRun\<close>,
  \<open>ByteCursor\<close>), so that cursors over cursors are covered.  \<open>CursorSpec\<close> says what each operation answers from the bytes alone;
  \<open>CursorOps\<close>, \<open>CursorRefine\<close> and \<open>CursorText\<close> show that the operations answer that, \<open>CursorRun\<close> lifts it to sequences of calls, and
  \<open>CursorProps\<close>, \<open>CursorClaims\<close> and \<open>CursorStack\<close> state the properties.  The fill loop is total over any reader: a read brings it
  nearer to the request, or counts as empty.  The scans return over every reader that keeps the contract.  Indices of Go's type \<open>int\<close> are \<^typ>\<open>nat\<close>, as they are bounded by
  the size of the buffer.

  Runs of character data (\<open>parser_element.go\<close>, \<open>parserctx.go\<close>, \<open>parser_content.go\<close>): \<open>CursorChunks\<close> holds the loop that scans
  a run in chunks and the delivery that cuts each chunk at character boundaries; the SAX handler is a parameter that may fail.

  \<^bold>\<open>Not modelled.\<close>

  The parser above its cursors, the SAX tree builder, the HTML parser, the XPath engines, XPointer, XInclude, the XSD schema compiler and
  validator, the RELAX NG validator, Schematron, XSLT, signatures and encryption work on DOM nodes, maps, file systems and
  cryptographic packages; of these the library has the pure parts listed above.  Of the cursors, the rune cursor, which only tests use, is not modelled.  Of catalogs, reading the XML files is
  not modelled; of the DOM, namespace declarations, parsed attribute values, document objects with their slab allocator, deep copies and
  serialisation.  Pure I/O, command line code, tests, examples and generated tables are left out.
\<close>

end
